(* ===== verification/KV_Base.thy ===== *)
theory KV_Base
  imports Main "HOL-Library.Word"
begin

text \<open>
  Shared vocabulary of the development: the fixed-width integer types of
  \<^verbatim>\<open>include/kernel.h\<close>, little-endian access to byte buffers, NUL-terminated
  strings held in fixed arrays, and the generic facts on words and lists that
  the component theories use.
\<close>

unbundle bit_operations_syntax

type_synonym u8 = "8 word"
type_synonym u16 = "16 word"
type_synonym u32 = "32 word"
type_synonym u64 = "64 word"
type_synonym sector = "u8 list"

named_theorems len_simps "lengths of updated buffers"
named_theorems buf_simps "reads after writes in a byte buffer"

section \<open>Words\<close>

lemma unat_of_nat_u32: "i < 2 ^ 32 \<Longrightarrow> unat (of_nat i :: u32) = i"
  by (simp add: unat_of_nat take_bit_nat_eq_self)

lemma of_nat_u32_inj:
  assumes "i < 2 ^ 32" "j < 2 ^ 32"
  shows "(of_nat i :: u32) = of_nat j \<longleftrightarrow> i = j"
proof
  assume "(of_nat i :: u32) = of_nat j"
  then have "unat (of_nat i :: u32) = unat (of_nat j :: u32)" by simp
  then show "i = j" using assms by (simp only: unat_of_nat_u32)
qed simp

lemma unat_lt_u32: "unat (x :: u32) < 4294967296"
  using unsigned_less[of x] by simp

lemma unat_add_u32:
  "unat (x :: u32) + unat y < 4294967296 \<Longrightarrow> unat (x + y) = unat x + unat y"
  by (simp add: unat_word_ariths)

lemma unat_sub_u32: "(y :: u32) \<le> x \<Longrightarrow> unat (x - y) = unat x - unat y"
  by (rule unat_sub)

lemma le_max_minus_u32:
  "(c :: u32) \<le> 0xFFFFFFFF - f \<longleftrightarrow> unat f + unat c < 4294967296"
proof -
  have f: "f \<le> 0xFFFFFFFF"
    using unat_lt_u32[of f] by (simp add: word_le_nat_alt)
  have "unat (0xFFFFFFFF - f) = 4294967295 - unat f"
    using unat_sub_u32[OF f] by simp
  then show ?thesis
    using unat_lt_u32[of f] by (simp add: word_le_nat_alt) arith
qed

lemma sint_small_u32:
  assumes "unat (x :: u32) < 2 ^ 31"
  shows "sint x = int (unat x)"
proof -
  have u: "uint x = int (unat x)" by simp
  have n: "unat x < 2147483648" using assms by simp
  have "- 2147483648 \<le> uint x" "uint x < 2147483648" using u n by linarith+
  then have "sint x = uint x"
    unfolding sint_uint by (intro signed_take_bit_int_eq_self; simp only: len_num1; simp)
  then show ?thesis by (rule trans) (rule u)
qed

lemma unat_ucast_8_32: "unat (ucast (x :: u8) :: u32) = unat x"
  by (simp add: unsigned_ucast_eq take_bit_nat_eq_self[OF order_less_trans[OF unsigned_less]])

lemma sint_nonneg_u32:
  assumes "0 \<le> sint (x :: u32)"
  shows "sint x = int (unat x)"
proof -
  have "sint x < 4294967296" using sint_less[of x] by simp
  then have "uint x = sint x"
    using assms uint_sint[of x] by (simp add: take_bit_int_eq_self)
  then show ?thesis by simp
qed

lemma unat_ucast_32_64: "unat (ucast (x :: u32) :: u64) = unat x"
  by (simp add: unsigned_ucast_eq take_bit_nat_eq_self[OF order_less_trans[OF unsigned_less]])

lemma unat_add_u64:
  "unat (x :: u64) + unat y < 18446744073709551616 \<Longrightarrow> unat (x + y) = unat x + unat y"
  by (simp add: unat_word_ariths)

section \<open>Little-endian fields of a byte buffer\<close>

text \<open>
  The readers and writers of 32-bit fields occur under several names in the code
  (\<^verbatim>\<open>get\<close> and \<^verbatim>\<open>put\<close> in \<^verbatim>\<open>sector_tx.c\<close>, \<^verbatim>\<open>gpt_u32\<close> in \<^verbatim>\<open>partition.c\<close>,
  \<^verbatim>\<open>u32at\<close> in \<^verbatim>\<open>user_image.c\<close>); they are the same functions, stated once here.
\<close>

definition get32 :: "u8 list \<Rightarrow> nat \<Rightarrow> u32" where
  "get32 p o' = ucast (p ! o') OR push_bit 8 (ucast (p ! (o' + 1)))
     OR push_bit 16 (ucast (p ! (o' + 2))) OR push_bit 24 (ucast (p ! (o' + 3)))"

definition put32 :: "nat \<Rightarrow> u32 \<Rightarrow> u8 list \<Rightarrow> u8 list" where
  "put32 o' n p = p[o' := ucast n, o' + 1 := ucast (drop_bit 8 n),
     o' + 2 := ucast (drop_bit 16 n), o' + 3 := ucast (drop_bit 24 n)]"

lemma length_put32 [simp, len_simps]: "length (put32 i n p) = length p"
  by (simp add: put32_def)

lemma join_bytes_u32:
  "(ucast (ucast (n :: u32) :: u8) :: u32) OR push_bit 8 (ucast (ucast (drop_bit 8 n) :: u8))
     OR push_bit 16 (ucast (ucast (drop_bit 16 n) :: u8))
     OR push_bit 24 (ucast (ucast (drop_bit 24 n) :: u8)) = n"
proof (rule bit_word_eqI)
  fix k assume k: "k < LENGTH(32)"
  show "bit ((ucast (ucast (n :: u32) :: u8) :: u32) OR push_bit 8 (ucast (ucast (drop_bit 8 n) :: u8))
     OR push_bit 16 (ucast (ucast (drop_bit 16 n) :: u8))
     OR push_bit 24 (ucast (ucast (drop_bit 24 n) :: u8))) k = bit n k"
  proof -
    consider "k < 8" | "8 \<le> k" "k < 16" | "16 \<le> k" "k < 24" | "24 \<le> k" "k < 32"
      using k[simplified] by linarith
    then show ?thesis
      by cases (auto simp: bit_simps)
  qed
qed

lemma get32_put32_same [simp, buf_simps]:
  "i + 4 \<le> length p \<Longrightarrow> get32 (put32 i n p) i = n"
  using join_bytes_u32[of n] by (simp add: get32_def put32_def nth_list_update)

lemma nth_put32 [buf_simps]:
  "k < i \<or> i + 4 \<le> k \<Longrightarrow> put32 i n p ! k = p ! k"
  by (auto simp: put32_def nth_list_update)

lemma get32_put32_other [simp, buf_simps]:
  "j + 4 \<le> i \<or> i + 4 \<le> j \<Longrightarrow> get32 (put32 i n p) j = get32 p j"
  by (auto simp: get32_def nth_put32)

lemma take_put32 [buf_simps]: "k \<le> i \<Longrightarrow> take k (put32 i n p) = take k p"
  by (simp add: put32_def)

text \<open>A 32-bit field as its four bytes, for structures that are written as a whole.\<close>

definition bytes32 :: "u32 \<Rightarrow> u8 list" where
  "bytes32 n = [ucast n, ucast (drop_bit 8 n), ucast (drop_bit 16 n), ucast (drop_bit 24 n)]"

lemma length_bytes32 [simp, len_simps]: "length (bytes32 n) = 4"
  by (simp add: bytes32_def)

lemma get32_bytes32 [simp, buf_simps]:
  "i = length xs \<Longrightarrow> get32 (xs @ bytes32 n @ ys) i = n"
  using join_bytes_u32[of n] by (simp add: get32_def bytes32_def nth_append)

lemma get32_first [simp, buf_simps]: "get32 (bytes32 n @ ys) 0 = n" "get32 (bytes32 n) 0 = n"
  using get32_bytes32[of 0 "[]" n ys] get32_bytes32[of 0 "[]" n "[]"] by simp_all

lemma get32_append: "length xs \<le> i \<Longrightarrow> get32 (xs @ ys) i = get32 ys (i - length xs)"
  by (simp add: get32_def nth_append Suc_diff_le)

lemma get32_prefix: "i + 4 \<le> length xs \<Longrightarrow> get32 (xs @ ys) i = get32 xs i"
  by (simp add: get32_def nth_append)

lemma get32_drop: "n + i + 4 \<le> length xs \<Longrightarrow> get32 (drop n xs) i = get32 xs (n + i)"
  by (simp add: get32_def add.assoc)

lemma join_u32_bytes:
  fixes a b c d :: u8
  defines "n \<equiv> (ucast a :: u32) OR push_bit 8 (ucast b) OR push_bit 16 (ucast c) OR push_bit 24 (ucast d)"
  shows "(ucast n :: u8) = a" "(ucast (drop_bit 8 n) :: u8) = b"
    "(ucast (drop_bit 16 n) :: u8) = c" "(ucast (drop_bit 24 n) :: u8) = d"
  unfolding n_def by (rule bit_word_eqI; auto simp: bit_simps dest: bit_imp_le_length)+

lemma take4_drop: "i + 4 \<le> length b \<Longrightarrow> take 4 (drop i b) = [b ! i, b ! (i + 1), b ! (i + 2), b ! (i + 3)]"
  by (rule nth_equalityI) (auto simp: less_Suc_eq numeral_nat)

lemma bytes32_get32 [buf_simps]: "i + 4 \<le> length b \<Longrightarrow> bytes32 (get32 b i) = take 4 (drop i b)"
  by (simp only: bytes32_def get32_def join_u32_bytes take4_drop)

lemma peel_bytes: "take n (drop i b) @ drop (i + n) b = drop i b"
  by (metis append_take_drop_id drop_drop add.commute)

text \<open>Records of a fixed size laid side by side in a buffer.\<close>

lemma concat_chunk:
  "(\<And>x. x \<in> set xs \<Longrightarrow> length (f x) = w) \<Longrightarrow> i < length xs \<Longrightarrow>
     take w (drop (w * i) (concat (map f xs))) = f (xs ! i)"
proof (induction xs arbitrary: i)
  case (Cons x xs)
  then show ?case by (cases i) auto
qed simp

lemma concat_chunks: "concat (map (\<lambda>i. take w (drop (w * i) b)) [0..<n]) = take (w * n) b"
  by (induction n) (auto simp: take_add[symmetric] add.commute)

lemma length_concat_chunks:
  "(\<And>x. x \<in> set xs \<Longrightarrow> length (f x) = w) \<Longrightarrow> length (concat (map f xs)) = w * length xs"
  by (induction xs) auto

section \<open>The first entry of a table that satisfies a test\<close>

text \<open>The tables of the kernel are searched by index from the front in many places; the
  search is stated once, counting from \<open>i\<close>.\<close>

fun first_index :: "('a \<Rightarrow> bool) \<Rightarrow> 'a list \<Rightarrow> nat \<Rightarrow> nat option" where
  "first_index P [] i = None"
| "first_index P (e # es) i = (if P e then Some i else first_index P es (i + 1))"

lemma first_index_iff:
  "first_index P xs i = Some k \<longleftrightarrow>
     i \<le> k \<and> k < i + length xs \<and> P (xs ! (k - i)) \<and> (\<forall>j<k - i. \<not> P (xs ! j))"
proof (induction xs arbitrary: i)
  case (Cons x xs)
  have split: "(\<forall>j<n. \<not> P ((x # xs) ! j)) \<longleftrightarrow> n = 0 \<or> \<not> P x \<and> (\<forall>j<n - 1. \<not> P (xs ! j))" for n
    by (cases n) (auto simp: less_Suc_eq_0_disj)
  show ?case
    unfolding split using Cons.IH[of "i + 1"] by (auto simp: nth_Cons' le_less)
qed auto

lemma first_index_0:
  "first_index P xs 0 = Some k \<longleftrightarrow> k < length xs \<and> P (xs ! k) \<and> (\<forall>j<k. \<not> P (xs ! j))"
  by (simp add: first_index_iff)

lemma first_index_None: "first_index P xs i = None \<longleftrightarrow> (\<forall>x\<in>set xs. \<not> P x)"
  by (induction xs arbitrary: i) auto

section \<open>Strings\<close>

text \<open>
  A C string is the list of its bytes before the terminating NUL. A fixed array
  \<^verbatim>\<open>char name[w]\<close> is a list of \<open>w\<close> bytes; \<open>cstr\<close> reads it back as a string.
\<close>

type_synonym cstring = "u8 list"

definition cstr :: "u8 list \<Rightarrow> cstring" where
  "cstr a = takeWhile (\<lambda>c. c \<noteq> 0) a"

text \<open>\<^verbatim>\<open>strncpy\<close> of \<^verbatim>\<open>string.c\<close> into a zeroed field of \<open>w\<close> bytes: at most
  \<open>w - 1\<close> bytes are copied and the field stays terminated.\<close>

definition strfield :: "nat \<Rightarrow> cstring \<Rightarrow> u8 list" where
  "strfield w s = (let t = take (w - 1) s in t @ replicate (w - length t) 0)"

lemma length_strfield [simp, len_simps]: "0 < w \<Longrightarrow> length (strfield w s) = w"
  by (simp add: strfield_def Let_def)

lemma takeWhile_all: "(\<And>x. x \<in> set xs \<Longrightarrow> P x) \<Longrightarrow> takeWhile P xs = xs"
  by (induction xs) auto

lemma cstr_strfield [simp]:
  "length s < w \<Longrightarrow> 0 \<notin> set s \<Longrightarrow> cstr (strfield w s) = s"
  by (auto simp: cstr_def strfield_def takeWhile_append takeWhile_all)

lemma cstr_no_nul [simp]: "0 \<notin> set (cstr a)"
  by (auto simp: cstr_def dest: set_takeWhileD)

lemma length_cstr_le: "length (cstr a) \<le> length a"
  by (simp add: cstr_def length_takeWhile_le)

end
