(* ===== verification/Sector_Tx.thy ===== *)
theory Sector_Tx
  imports KV_Base
begin

text \<open>
  The undo log of \<^verbatim>\<open>kernel/sector_tx.c\<close>. A transaction saves the old content of
  every sector it is about to change in a journal extent, makes the copy and the
  journal header durable, and only then overwrites the sector. \<open>stx_load\<close> parses
  a journal, \<open>stx_recover\<close> rolls an interrupted transaction back.

  The callbacks of \<^verbatim>\<open>stx_io_t\<close> are functions on a device state \<open>'d\<close> that is
  passed through every operation (the code keeps it behind \<^verbatim>\<open>ctx\<close>). A boolean
  result is the code's return value: \<open>True\<close> for 0, \<open>False\<close> for -1. The table of
  undo records is the list of the records below \<^verbatim>\<open>t->n\<close>.
\<close>

section \<open>State\<close>

abbreviation STX_MAX :: nat where "STX_MAX \<equiv> 48"

record 'd stx_io =
  io_read :: "'d \<Rightarrow> u32 \<Rightarrow> 'd \<times> sector option"
  io_write :: "'d \<Rightarrow> u32 \<Rightarrow> sector \<Rightarrow> 'd \<times> bool"
  io_sync :: "'d \<Rightarrow> 'd \<times> bool"
  io_first :: u32
  io_count :: u32
  io_journal :: u32
  io_journal_count :: u32
  io_identity :: u32

record stx_undo =
  u_lba :: u32
  u_crc :: u32
  u_old :: sector

record 'd sector_tx =
  tx_io :: "'d stx_io"
  tx_undo :: "stx_undo list"
  tx_active :: bool
  tx_failed :: bool
  tx_closing :: bool

section \<open>Checksum and journal header\<close>

definition crc_bit :: "u32 \<Rightarrow> u32" where
  "crc_bit c = drop_bit 1 c XOR ((0 - (c AND 1)) AND 0xedb88320)"

definition crc_byte :: "u32 \<Rightarrow> u8 \<Rightarrow> u32" where
  "crc_byte c x = (crc_bit ^^ 8) (c XOR ucast x)"

definition stx_crc32 :: "u8 list \<Rightarrow> u32" where
  "stx_crc32 p = NOT (foldl crc_byte (NOT 0) p)"

definition config_ok :: "'d stx_io \<Rightarrow> bool" where
  "config_ok io =
     (if io_count io = 0 \<or> io_count io > 0xFFFFFFFF - io_first io then False
      else if io_journal_count io = 0 then True
      else io_journal_count io \<ge> 49 \<and> io_journal_count io \<le> 0xFFFFFFFF - io_journal io \<and>
        (io_journal io \<ge> io_first io + io_count io \<or>
         io_first io \<ge> io_journal io + io_journal_count io))"

definition target_ok :: "'d stx_io \<Rightarrow> u32 \<Rightarrow> bool" where
  "target_ok io lba \<longleftrightarrow> lba \<ge> io_first io \<and> lba - io_first io < io_count io"

text \<open>The eight bytes of the literal \<^verbatim>\<open>"KVSTX01"\<close> with its NUL.\<close>

definition stx_magic :: "u8 list" where
  "stx_magic = [0x4B, 0x56, 0x53, 0x54, 0x58, 0x30, 0x31, 0]"

fun put_undos :: "nat \<Rightarrow> stx_undo list \<Rightarrow> u8 list \<Rightarrow> u8 list" where
  "put_undos i [] b = b"
| "put_undos i (u # us) b =
     put_undos (Suc i) us (put32 (44 + 8 * i) (u_crc u) (put32 (40 + 8 * i) (u_lba u) b))"

definition header_fields :: "'d stx_io \<Rightarrow> nat \<Rightarrow> bool \<Rightarrow> u8 list" where
  "header_fields io n active =
     put32 36 (if active then of_nat n else 0) (put32 32 (if active then 1 else 0)
      (put32 28 (io_journal_count io) (put32 24 (io_journal io)
       (put32 20 (io_count io) (put32 16 (io_first io)
        (put32 12 (io_identity io) (put32 8 1 (stx_magic @ replicate 504 0))))))))"

definition header_body :: "'d stx_io \<Rightarrow> stx_undo list \<Rightarrow> bool \<Rightarrow> u8 list" where
  "header_body io us active =
     (if active then put_undos 0 us (header_fields io (length us) active)
      else header_fields io (length us) active)"

definition header_sector :: "'d stx_io \<Rightarrow> stx_undo list \<Rightarrow> bool \<Rightarrow> sector" where
  "header_sector io us active =
     (let b = header_body io us active in put32 508 (stx_crc32 (take 508 b)) b)"

definition write_sector :: "'d sector_tx \<Rightarrow> u32 \<Rightarrow> sector \<Rightarrow> 'd \<Rightarrow> 'd \<times> bool" where
  "write_sector t lba b d = io_write (tx_io t) d lba b"

definition barrier :: "'d sector_tx \<Rightarrow> 'd \<Rightarrow> 'd \<times> bool" where
  "barrier t d = io_sync (tx_io t) d"

definition stx_header :: "'d sector_tx \<Rightarrow> bool \<Rightarrow> 'd \<Rightarrow> 'd \<times> bool" where
  "stx_header t active d =
     (case write_sector t (io_journal (tx_io t)) (header_sector (tx_io t) (tx_undo t) active) d of
        (d', ok) \<Rightarrow> if ok then barrier t d' else (d', False))"

section \<open>Formatting, loading, recovery\<close>

definition stx_fresh :: "'d stx_io \<Rightarrow> 'd sector_tx" where
  "stx_fresh io = \<lparr>tx_io = io, tx_undo = [], tx_active = False, tx_failed = False,
     tx_closing = False\<rparr>"

fun journal_blank :: "'d stx_io \<Rightarrow> nat \<Rightarrow> u32 \<Rightarrow> 'd \<Rightarrow> 'd \<times> bool" where
  "journal_blank io 0 i d = (d, True)"
| "journal_blank io (Suc n) i d =
     (case io_read io d (io_journal io + i) of
        (d', None) \<Rightarrow> (d', False)
      | (d', Some b) \<Rightarrow>
          if list_all (\<lambda>x. x = 0) b then journal_blank io n (i + 1) d' else (d', False))"

definition stx_format :: "'d sector_tx \<Rightarrow> 'd stx_io \<Rightarrow> 'd \<Rightarrow> 'd sector_tx \<times> 'd \<times> bool" where
  "stx_format t io d =
     (if \<not> config_ok io \<or> io_journal_count io = 0 then (t, d, False)
      else case journal_blank io (unat (io_journal_count io)) 0 d of
        (d', False) \<Rightarrow> (t, d', False)
      | (d', True) \<Rightarrow> (case stx_header (stx_fresh io) False d' of
           (d'', ok) \<Rightarrow> (stx_fresh io, d'', ok)))"

definition header_ok :: "'d stx_io \<Rightarrow> u8 list \<Rightarrow> bool" where
  "header_ok io b \<longleftrightarrow> take 8 b = stx_magic \<and> get32 b 8 = 1 \<and> get32 b 12 = io_identity io \<and>
     get32 b 16 = io_first io \<and> get32 b 20 = io_count io \<and> get32 b 24 = io_journal io \<and>
     get32 b 28 = io_journal_count io \<and> get32 b 32 \<le> 1 \<and> get32 b 36 \<le> 48 \<and>
     get32 b 508 = stx_crc32 (take 508 b)"

fun load_undos :: "'d stx_io \<Rightarrow> u8 list \<Rightarrow> nat \<Rightarrow> nat \<Rightarrow> stx_undo list \<Rightarrow> 'd
    \<Rightarrow> stx_undo list \<times> 'd \<times> bool" where
  "load_undos io b 0 i us d = (us, d, True)"
| "load_undos io b (Suc k) i us d =
     (let lba = get32 b (40 + 8 * i); crc = get32 b (44 + 8 * i)
      in if \<not> target_ok io lba then (us, d, False)
         else if lba \<in> set (map u_lba us) then (us, d, False)
         else case io_read io d (io_journal io + 1 + of_nat i) of
           (d', None) \<Rightarrow> (us, d', False)
         | (d', Some s) \<Rightarrow>
             if stx_crc32 s \<noteq> crc then (us, d', False)
             else load_undos io b k (Suc i) (us @ [\<lparr>u_lba = lba, u_crc = crc, u_old = s\<rparr>]) d')"

definition stx_load :: "'d sector_tx \<Rightarrow> 'd stx_io \<Rightarrow> 'd \<Rightarrow> 'd sector_tx \<times> 'd \<times> bool" where
  "stx_load t io d =
     (if \<not> config_ok io then (t, d, False)
      else if io_journal_count io = 0 then (stx_fresh io, d, True)
      else case io_read io d (io_journal io) of
        (d1, None) \<Rightarrow> (stx_fresh io, d1, False)
      | (d1, Some b) \<Rightarrow>
          if \<not> header_ok io b then (stx_fresh io, d1, False)
          else if get32 b 32 = 0 then (stx_fresh io, d1, get32 b 36 = 0)
          else case load_undos io b (unat (get32 b 36)) 0 [] d1 of
            (us, d2, False) \<Rightarrow> (stx_fresh io, d2, False)
          | (us, d2, True) \<Rightarrow> ((stx_fresh io)\<lparr>tx_undo := us, tx_active := True\<rparr>, d2, True))"

fun undo_writes :: "'d sector_tx \<Rightarrow> stx_undo list \<Rightarrow> 'd \<Rightarrow> 'd \<times> bool" where
  "undo_writes t [] d = (d, True)"
| "undo_writes t (u # us) d =
     (case write_sector t (u_lba u) (u_old u) d of
        (d', ok) \<Rightarrow> if ok then undo_writes t us d' else (d', False))"

definition stx_abort :: "'d sector_tx \<Rightarrow> 'd \<Rightarrow> 'd sector_tx \<times> 'd \<times> bool" where
  "stx_abort t d =
     (if \<not> tx_active t \<or> tx_closing t then (t, d, False)
      else case undo_writes t (rev (tx_undo t)) d of
        (d1, False) \<Rightarrow> (t, d1, False)
      | (d1, True) \<Rightarrow> (case barrier t d1 of
          (d2, False) \<Rightarrow> (t, d2, False)
        | (d2, True) \<Rightarrow>
            if io_journal_count (tx_io t) = 0
            then (t\<lparr>tx_active := False, tx_undo := []\<rparr>, d2, True)
            else case stx_header (t\<lparr>tx_closing := True\<rparr>) False d2 of
              (d3, False) \<Rightarrow> (t\<lparr>tx_closing := True\<rparr>, d3, False)
            | (d3, True) \<Rightarrow>
                (t\<lparr>tx_closing := True, tx_active := False, tx_undo := []\<rparr>, d3, True)))"

definition stx_recover :: "'d sector_tx \<Rightarrow> 'd stx_io \<Rightarrow> 'd \<Rightarrow> 'd sector_tx \<times> 'd \<times> bool" where
  "stx_recover t io d =
     (case stx_load t io d of
        (t1, d1, False) \<Rightarrow> (t1, d1, False)
      | (t1, d1, True) \<Rightarrow> if tx_active t1 then stx_abort t1 d1 else (t1, d1, True))"

section \<open>Transactions\<close>

definition stx_begin :: "'d sector_tx \<Rightarrow> 'd stx_io \<Rightarrow> 'd \<Rightarrow> 'd sector_tx \<times> 'd \<times> bool" where
  "stx_begin t io d =
     (case stx_recover t io d of
        (t1, d1, False) \<Rightarrow> (t1, d1, False)
      | (t1, d1, True) \<Rightarrow>
          let t2 = t1\<lparr>tx_active := True\<rparr>
          in if io_journal_count io = 0 then (t2, d1, True)
             else case stx_header t2 True d1 of
               (d2, False) \<Rightarrow> (t2\<lparr>tx_failed := True\<rparr>, d2, False)
             | (d2, True) \<Rightarrow> (t2, d2, True))"

text \<open>The journalling half of \<^verbatim>\<open>stx_write\<close>: back up a sector seen for the first time.\<close>

definition stx_backup :: "'d sector_tx \<Rightarrow> u32 \<Rightarrow> 'd \<Rightarrow> 'd sector_tx \<times> 'd \<times> bool" where
  "stx_backup t lba d =
     (if length (tx_undo t) = STX_MAX then (t\<lparr>tx_failed := True\<rparr>, d, False)
      else case io_read (tx_io t) d lba of
        (d1, None) \<Rightarrow> (t\<lparr>tx_failed := True\<rparr>, d1, False)
      | (d1, Some old) \<Rightarrow>
          let i = length (tx_undo t);
              t1 = t\<lparr>tx_undo := tx_undo t @ [\<lparr>u_lba = lba, u_crc = stx_crc32 old, u_old = old\<rparr>]\<rparr>
          in if io_journal_count (tx_io t) = 0 then (t1, d1, True)
             else case write_sector t1 (io_journal (tx_io t) + 1 + of_nat i) old d1 of
               (d2, False) \<Rightarrow> (t1\<lparr>tx_failed := True\<rparr>, d2, False)
             | (d2, True) \<Rightarrow> (case barrier t1 d2 of
                 (d3, False) \<Rightarrow> (t1\<lparr>tx_failed := True\<rparr>, d3, False)
               | (d3, True) \<Rightarrow> (case stx_header t1 True d3 of
                   (d4, False) \<Rightarrow> (t1\<lparr>tx_failed := True\<rparr>, d4, False)
                 | (d4, True) \<Rightarrow> (t1, d4, True))))"

text \<open>The argument \<^verbatim>\<open>data\<close> is a pointer: \<open>None\<close> is the null pointer the code refuses.\<close>

definition stx_write :: "'d sector_tx \<Rightarrow> u32 \<Rightarrow> sector option \<Rightarrow> 'd \<Rightarrow> 'd sector_tx \<times> 'd \<times> bool" where
  "stx_write t lba data d =
     (if \<not> tx_active t \<or> tx_failed t \<or> tx_closing t then (t, d, False)
      else case data of
        None \<Rightarrow> (t\<lparr>tx_failed := True\<rparr>, d, False)
      | Some b \<Rightarrow>
          if \<not> target_ok (tx_io t) lba then (t\<lparr>tx_failed := True\<rparr>, d, False)
          else case (if lba \<in> set (map u_lba (tx_undo t)) then (t, d, True)
                     else stx_backup t lba d) of
            (t1, d1, False) \<Rightarrow> (t1, d1, False)
          | (t1, d1, True) \<Rightarrow> (case write_sector t1 lba b d1 of
              (d2, False) \<Rightarrow> (t1\<lparr>tx_failed := True\<rparr>, d2, False)
            | (d2, True) \<Rightarrow> (t1, d2, True)))"

definition stx_commit :: "'d sector_tx \<Rightarrow> 'd \<Rightarrow> 'd sector_tx \<times> 'd \<times> bool" where
  "stx_commit t d =
     (if \<not> tx_active t \<or> tx_failed t then (t, d, False)
      else case barrier t d of
        (d1, False) \<Rightarrow> (t\<lparr>tx_failed := True\<rparr>, d1, False)
      | (d1, True) \<Rightarrow>
          if io_journal_count (tx_io t) = 0
          then (t\<lparr>tx_active := False, tx_undo := []\<rparr>, d1, True)
          else case stx_header (t\<lparr>tx_closing := True\<rparr>) False d1 of
            (d2, False) \<Rightarrow> (t\<lparr>tx_closing := True, tx_failed := True\<rparr>, d2, False)
          | (d2, True) \<Rightarrow>
              (t\<lparr>tx_closing := True, tx_active := False, tx_undo := []\<rparr>, d2, True))"

end
