(* ===== verification/Sector_Tx_Crash.thy ===== *)
theory Sector_Tx_Crash
  imports Sector_Tx
begin

text \<open>
  Crash safety of the undo log. The devices are those of a locale: a write may
  stay in a volatile cache, in any order with other writes, until a barrier
  succeeds, and any operation may fail. The lemmas show that whatever subset of
  the pending writes a crash leaves behind, the journal on the disk restores
  the image from before the transaction, or the transaction had closed its log
  and the image is the new one.
\<close>

section \<open>The journal header as an encoding\<close>

lemma length_put_undos [simp, len_simps]: "length (put_undos i us b) = length b"
  by (induction i us b rule: put_undos.induct) auto

lemma get32_put_undos_other [buf_simps]:
  "j + 4 \<le> 40 + 8 * i \<or> 40 + 8 * (i + length us) \<le> j \<Longrightarrow>
     get32 (put_undos i us b) j = get32 b j"
  by (induction i us b rule: put_undos.induct) auto

lemma take_put_undos [buf_simps]: "k \<le> 40 \<Longrightarrow> take k (put_undos i us b) = take k b"
  by (induction i us b rule: put_undos.induct) (auto simp: take_put32)

lemma get32_put_undos:
  assumes "k < length us" "40 + 8 * (i + length us) \<le> length b"
  shows "get32 (put_undos i us b) (40 + 8 * (i + k)) = u_lba (us ! k) \<and>
    get32 (put_undos i us b) (44 + 8 * (i + k)) = u_crc (us ! k)"
  using assms
proof (induction i us b arbitrary: k rule: put_undos.induct)
  case (1 i b)
  then show ?case by simp
next
  case (2 i u us b)
  show ?case
  proof (cases k)
    case 0
    then show ?thesis using "2.prems" by (simp add: get32_put_undos_other)
  next
    case (Suc k')
    then show ?thesis using "2.IH"[of k'] "2.prems" by simp
  qed
qed

lemma length_stx_magic [simp]: "length stx_magic = 8"
  by (simp add: stx_magic_def)

lemma length_header_fields [simp, len_simps]: "length (header_fields io n a) = 512"
  by (simp add: header_fields_def)

lemma length_header_body [simp, len_simps]: "length (header_body io us a) = 512"
  by (simp add: header_body_def)

lemma length_header_sector [simp, len_simps]: "length (header_sector io us a) = 512"
  by (simp add: header_sector_def Let_def)

lemma header_sector_fields [buf_simps]:
  "j + 4 \<le> 508 \<Longrightarrow> get32 (header_sector io us a) j = get32 (header_body io us a) j"
  by (simp add: header_sector_def Let_def)

lemma header_body_fields:
  "j + 4 \<le> 40 \<Longrightarrow> get32 (header_body io us a) j = get32 (header_fields io (length us) a) j"
  by (simp add: header_body_def get32_put_undos_other)

lemma header_sector_count:
  "get32 (header_sector io us a) 32 = (if a then 1 else 0)"
  "get32 (header_sector io us a) 36 = (if a then of_nat (length us) else 0)"
  by (simp_all add: header_sector_fields header_body_fields header_fields_def)

lemma header_sector_entry:
  assumes "k < length us" "length us \<le> 48"
  shows "get32 (header_sector io us True) (40 + 8 * k) = u_lba (us ! k)"
    "get32 (header_sector io us True) (44 + 8 * k) = u_crc (us ! k)"
  using get32_put_undos[of k us 0] assms
  by (simp_all add: header_sector_fields header_body_def)

lemma header_ok_sector:
  assumes "length us \<le> 48"
  shows "header_ok io (header_sector io us a)"
proof -
  have n: "(of_nat (length us) :: u32) \<le> 48"
    using assms by (simp add: word_le_nat_alt unat_of_nat_u32)
  have t: "take 508 (header_sector io us a) = take 508 (header_body io us a)"
    by (simp add: header_sector_def Let_def take_put32)
  have m: "take 8 (header_sector io us a) = stx_magic"
    by (simp add: header_sector_def header_body_def header_fields_def Let_def take_put32
        take_put_undos)
  have c: "get32 (header_sector io us a) 508 = stx_crc32 (take 508 (header_sector io us a))"
    unfolding t by (simp add: header_sector_def Let_def)
  show ?thesis
    unfolding header_ok_def using n m c
    by (simp add: header_sector_count)
      (simp add: header_sector_fields header_body_fields header_fields_def)
qed

text \<open>A clean header does not depend on the table that was closed.\<close>

lemma header_sector_clean: "header_sector io us False = header_sector io [] False"
  by (simp add: header_sector_def header_body_def header_fields_def)

section \<open>What a disk recovers to\<close>

definition undo_image :: "stx_undo list \<Rightarrow> (u32 \<Rightarrow> sector) \<Rightarrow> u32 \<Rightarrow> sector" where
  "undo_image us D x = (case map_of (map (\<lambda>u. (u_lba u, u_old u)) us) x of
     Some old \<Rightarrow> old | None \<Rightarrow> D x)"

definition undo_ok :: "'d stx_io \<Rightarrow> stx_undo list \<Rightarrow> bool" where
  "undo_ok io us \<longleftrightarrow> length us \<le> 48 \<and> distinct (map u_lba us) \<and>
     (\<forall>u \<in> set us. target_ok io (u_lba u) \<and> u_crc u = stx_crc32 (u_old u))"

definition backups_on :: "'d stx_io \<Rightarrow> stx_undo list \<Rightarrow> (u32 \<Rightarrow> sector) \<Rightarrow> bool" where
  "backups_on io us D \<longleftrightarrow>
     (\<forall>i < length us. D (io_journal io + 1 + of_nat i) = u_old (us ! i))"

text \<open>
  The disk content \<open>D\<close> recovers to the image \<open>img\<close> when its journal is clean and the
  target extent already is \<open>img\<close>, or its journal is a complete active log whose
  backups put the target extent back to \<open>img\<close>.
\<close>

definition recovers_to :: "'d stx_io \<Rightarrow> (u32 \<Rightarrow> sector) \<Rightarrow> (u32 \<Rightarrow> sector) \<Rightarrow> bool" where
  "recovers_to io D img \<longleftrightarrow>
     (D (io_journal io) = header_sector io [] False \<and> (\<forall>x. target_ok io x \<longrightarrow> D x = img x)) \<or>
     (\<exists>us. D (io_journal io) = header_sector io us True \<and> undo_ok io us \<and> backups_on io us D \<and>
        (\<forall>x. target_ok io x \<longrightarrow> undo_image us D x = img x))"

lemma undo_image_other: "x \<notin> u_lba ` set us \<Longrightarrow> undo_image us D x = D x"
  by (force simp: undo_image_def split: option.splits dest: map_of_SomeD)

lemma undo_image_member:
  assumes "u \<in> set us" "distinct (map u_lba us)"
  shows "undo_image us D (u_lba u) = u_old u"
proof -
  have "map_of (map (\<lambda>u. (u_lba u, u_old u)) us) (u_lba u) = Some (u_old u)"
    using assms by (intro map_of_is_SomeI) (auto simp: comp_def)
  then show ?thesis by (simp add: undo_image_def)
qed

text \<open>
  \<open>P x\<close> is the set of contents that sector \<open>x\<close> may have after a crash. A device is
  \<open>crash_safe\<close> for an image when every disk it may leave recovers to the image;
  \<open>log_core\<close> is the invariant of an open transaction: header and backups are
  durable and every other target sector still has its old content.
\<close>

definition crash_safe :: "'d stx_io \<Rightarrow> (u32 \<Rightarrow> sector set) \<Rightarrow> (u32 \<Rightarrow> sector) \<Rightarrow> bool" where
  "crash_safe io P img \<longleftrightarrow> (\<forall>D. (\<forall>x. D x \<in> P x) \<longrightarrow> recovers_to io D img)"

definition log_table :: "'d stx_io \<Rightarrow> stx_undo list \<Rightarrow> (u32 \<Rightarrow> sector set) \<Rightarrow> (u32 \<Rightarrow> sector) \<Rightarrow> bool" where
  "log_table io us P img \<longleftrightarrow> undo_ok io us \<and>
     (\<forall>i < length us. P (io_journal io + 1 + of_nat i) \<subseteq> {u_old (us ! i)}) \<and>
     (\<forall>x. target_ok io x \<longrightarrow> x \<notin> u_lba ` set us \<longrightarrow> P x \<subseteq> {img x}) \<and>
     (\<forall>u \<in> set us. u_old u = img (u_lba u))"

definition log_core :: "'d stx_io \<Rightarrow> stx_undo list \<Rightarrow> (u32 \<Rightarrow> sector set) \<Rightarrow> (u32 \<Rightarrow> sector) \<Rightarrow> bool" where
  "log_core io us P img \<longleftrightarrow> log_table io us P img \<and>
     P (io_journal io) \<subseteq> {header_sector io us True}"

text \<open>A transaction that failed keeps enough of the invariant to be rolled back.\<close>

definition log_weak :: "'d stx_io \<Rightarrow> stx_undo list \<Rightarrow> (u32 \<Rightarrow> sector set) \<Rightarrow> (u32 \<Rightarrow> sector) \<Rightarrow> bool" where
  "log_weak io us P img \<longleftrightarrow> crash_safe io P img \<and>
     (\<forall>u \<in> set us. target_ok io (u_lba u) \<and> u_old u = img (u_lba u)) \<and>
     (\<forall>x. target_ok io x \<longrightarrow> x \<notin> u_lba ` set us \<longrightarrow> P x \<subseteq> {img x})"

definition log_settled :: "'d stx_io \<Rightarrow> (u32 \<Rightarrow> sector set) \<Rightarrow> (u32 \<Rightarrow> sector) \<Rightarrow> bool" where
  "log_settled io P img \<longleftrightarrow> P (io_journal io) \<subseteq> {header_sector io [] False} \<and>
     (\<forall>x. target_ok io x \<longrightarrow> P x \<subseteq> {img x})"

lemma crash_safe_mono: "crash_safe io P img \<Longrightarrow> (\<And>x. P' x \<subseteq> P x) \<Longrightarrow> crash_safe io P' img"
  by (auto simp: crash_safe_def)

lemma log_table_recovers:
  assumes "log_table io us P img" "\<forall>x. D x \<in> P x" "D (io_journal io) = header_sector io us True"
  shows "recovers_to io D img"
proof -
  have ok: "undo_ok io us" and old: "\<forall>u \<in> set us. u_old u = img (u_lba u)"
    using assms(1) by (auto simp: log_table_def)
  have "backups_on io us D"
    using assms(1,2) unfolding log_table_def backups_on_def by blast
  moreover have "undo_image us D x = img x" if x: "target_ok io x" for x
  proof (cases "x \<in> u_lba ` set us")
    case True
    then show ?thesis using ok old undo_image_member[of _ us D] by (auto simp: undo_ok_def)
  next
    case False
    then have "D x = img x" using assms(1,2) x unfolding log_table_def by blast
    then show ?thesis using False by (simp add: undo_image_other)
  qed
  ultimately show ?thesis using ok assms(3) by (auto simp: recovers_to_def)
qed

lemma log_core_safe: "log_core io us P img \<Longrightarrow> crash_safe io P img"
  unfolding crash_safe_def log_core_def by (blast intro: log_table_recovers)

lemma log_core_weak: "log_core io us P img \<Longrightarrow> log_weak io us P img"
  using log_core_safe[of io us P img]
  by (auto simp: log_weak_def log_core_def log_table_def undo_ok_def)

lemma log_settled_safe: "log_settled io P img \<Longrightarrow> crash_safe io P img"
  unfolding crash_safe_def log_settled_def recovers_to_def by blast

text \<open>The sectors a table depends on; the rest of the disk may change freely.\<close>

definition log_protects :: "'d stx_io \<Rightarrow> stx_undo list \<Rightarrow> u32 \<Rightarrow> bool" where
  "log_protects io us x \<longleftrightarrow> (\<exists>i < length us. x = io_journal io + 1 + of_nat i) \<or>
     (target_ok io x \<and> x \<notin> u_lba ` set us)"

lemma log_table_frame:
  assumes "log_table io us P img" "\<And>x. log_protects io us x \<Longrightarrow> P' x \<subseteq> P x"
  shows "log_table io us P' img"
proof -
  have "P' (io_journal io + 1 + of_nat i) \<subseteq> {u_old (us ! i)}" if "i < length us" for i
    using assms(1) assms(2)[of "io_journal io + 1 + of_nat i"] that
    unfolding log_table_def log_protects_def by blast
  moreover have "P' x \<subseteq> {img x}" if "target_ok io x" "x \<notin> u_lba ` set us" for x
    using assms(1) assms(2)[of x] that unfolding log_table_def log_protects_def by blast
  ultimately show ?thesis using assms(1) by (simp add: log_table_def)
qed

lemma log_table_snoc:
  assumes t: "log_table io us P img" and len: "length us < 48"
    and lba: "target_ok io lba" "lba \<notin> u_lba ` set us"
    and sl: "P (io_journal io + 1 + of_nat (length us)) \<subseteq> {img lba}"
  shows "log_table io (us @ [\<lparr>u_lba = lba, u_crc = stx_crc32 (img lba), u_old = img lba\<rparr>]) P img"
  using assms unfolding log_table_def undo_ok_def
  by (auto simp: nth_append less_Suc_eq) blast

text \<open>An open transaction, and one that has failed but may still be rolled back.\<close>

definition tx_open :: "'d stx_io \<Rightarrow> (u32 \<Rightarrow> sector set) \<Rightarrow> (u32 \<Rightarrow> sector) \<Rightarrow> 'd sector_tx \<Rightarrow> bool" where
  "tx_open io P img t \<longleftrightarrow> tx_io t = io \<and> tx_active t \<and> \<not> tx_failed t \<and> \<not> tx_closing t \<and>
     log_core io (tx_undo t) P img"

definition tx_dead :: "'d stx_io \<Rightarrow> (u32 \<Rightarrow> sector set) \<Rightarrow> (u32 \<Rightarrow> sector) \<Rightarrow> 'd sector_tx \<Rightarrow> bool" where
  "tx_dead io P img t \<longleftrightarrow> tx_io t = io \<and> tx_active t \<and> tx_failed t \<and> \<not> tx_closing t \<and>
     log_weak io (tx_undo t) P img"

text \<open>
  One whole transaction as \<^verbatim>\<open>write_begin\<close> and \<^verbatim>\<open>write_end\<close> of \<^verbatim>\<open>fat.c\<close> drive it:
  begin, sector writes up to the first refused one, then commit, or abort when a
  write or the commit failed.
\<close>

fun stx_writes :: "'d sector_tx \<Rightarrow> (u32 \<times> sector) list \<Rightarrow> 'd \<Rightarrow> 'd sector_tx \<times> 'd \<times> bool" where
  "stx_writes t [] d = (t, d, True)"
| "stx_writes t (w # ws) d =
     (case stx_write t (fst w) (Some (snd w)) d of
        (t', d', ok) \<Rightarrow> if ok then stx_writes t' ws d' else (t', d', False))"

definition stx_finish :: "'d sector_tx \<Rightarrow> bool \<Rightarrow> 'd \<Rightarrow> 'd sector_tx \<times> 'd \<times> bool" where
  "stx_finish t good d =
     (case (if good then stx_commit t d else (t, d, False)) of
        (t', d', ok) \<Rightarrow> if ok then (t', d', True)
          else (case stx_abort t' d' of (t'', d'', ok') \<Rightarrow> (t'', d'', False)))"

definition stx_transact :: "'d sector_tx \<Rightarrow> 'd stx_io \<Rightarrow> (u32 \<times> sector) list \<Rightarrow> 'd
    \<Rightarrow> 'd sector_tx \<times> 'd \<times> bool" where
  "stx_transact t io ws d =
     (case stx_begin t io d of
        (t1, d1, ok1) \<Rightarrow> if \<not> ok1 then (t1, d1, False)
          else (case stx_writes t1 ws d1 of (t2, d2, ok2) \<Rightarrow> stx_finish t2 ok2 d2))"

fun write_image :: "(u32 \<times> sector) list \<Rightarrow> (u32 \<Rightarrow> sector) \<Rightarrow> u32 \<Rightarrow> sector" where
  "write_image [] I = I"
| "write_image (w # ws) I = write_image ws (I(fst w := snd w))"

lemma write_image_cong:
  "\<forall>x. Q x \<longrightarrow> I x = J x \<Longrightarrow> Q x \<Longrightarrow> write_image ws I x = write_image ws J x"
proof (induction ws arbitrary: I J)
  case (Cons w ws)
  have "\<forall>x. Q x \<longrightarrow> (I(fst w := snd w)) x = (J(fst w := snd w)) x" using Cons.prems(1) by simp
  then show ?case using Cons.IH Cons.prems(2) by simp
qed simp

lemma recovers_to_cong:
  "\<forall>x. target_ok io x \<longrightarrow> I x = J x \<Longrightarrow> recovers_to io D I \<longleftrightarrow> recovers_to io D J"
  by (simp add: recovers_to_def)

section \<open>Devices with a volatile write cache\<close>

text \<open>
  \<open>cur d\<close> is what a read returns; \<open>poss d x\<close> is the set of contents sector \<open>x\<close> may
  have after a crash in state \<open>d\<close>. A write adds its data to that set and only a
  successful barrier shrinks it to the current content.
\<close>

locale crash_device =
  fixes io :: "'d stx_io"
    and cur :: "'d \<Rightarrow> u32 \<Rightarrow> sector"
    and poss :: "'d \<Rightarrow> u32 \<Rightarrow> sector set"
  assumes rd_same: "io_read io d x = (d', r) \<Longrightarrow> cur d' = cur d \<and> poss d' = poss d"
    and rd_val: "io_read io d x = (d', Some b) \<Longrightarrow> b = cur d x"
    and wr_other: "io_write io d x b = (d', ok) \<Longrightarrow> y \<noteq> x \<Longrightarrow>
      cur d' y = cur d y \<and> poss d' y \<subseteq> poss d y"
    and wr_self: "io_write io d x b = (d', ok) \<Longrightarrow> poss d' x \<subseteq> insert b (poss d x)"
    and wr_ok: "io_write io d x b = (d', True) \<Longrightarrow> cur d' x = b"
    and sy_same: "io_sync io d = (d', ok) \<Longrightarrow> cur d' = cur d \<and> poss d' y \<subseteq> poss d y"
    and sy_ok: "io_sync io d = (d', True) \<Longrightarrow> poss d' y \<subseteq> {cur d' y}"
    and cur_poss: "cur d y \<in> poss d y"

text \<open>A device whose log is configured: the extents are disjoint and do not wrap.\<close>

locale durable_log = crash_device +
  assumes config: "config_ok io"
    and durable: "io_journal_count io \<noteq> 0"
begin

lemma journal_room: "49 \<le> unat (io_journal_count io)"
  using config durable by (auto simp: config_ok_def word_le_nat_alt split: if_splits)

lemma journal_addr:
  assumes "i < unat (io_journal_count io)"
  shows "unat (io_journal io + of_nat i) = unat (io_journal io) + i"
proof -
  have "unat (io_journal io) + unat (io_journal_count io) < 4294967296"
    using config durable by (auto simp: config_ok_def le_max_minus_u32 split: if_splits)
  moreover have "unat (of_nat i :: u32) = i"
    using assms unat_lt_u32[of "io_journal_count io"] by (intro unat_of_nat_u32) simp
  ultimately show ?thesis using assms by (simp add: unat_add_u32)
qed

lemma target_off_journal:
  assumes "target_ok io x" "i < unat (io_journal_count io)"
  shows "x \<noteq> io_journal io + of_nat i"
proof -
  have jc: "unat (io_journal io) + unat (io_journal_count io) < 4294967296"
    and fc: "unat (io_first io) + unat (io_count io) < 4294967296"
    and dis: "io_journal io \<ge> io_first io + io_count io \<or>
        io_first io \<ge> io_journal io + io_journal_count io"
    using config durable
    by (auto simp: config_ok_def le_max_minus_u32 linorder_not_less split: if_splits)
  have x: "unat (io_first io) \<le> unat x" "unat x < unat (io_first io) + unat (io_count io)"
    using assms(1) unat_sub_u32[of "io_first io" x]
    by (auto simp: target_ok_def word_le_nat_alt word_less_nat_alt)
  have "unat (io_journal io) + i \<noteq> unat x"
    using dis x assms(2) unat_add_u32[OF jc] unat_add_u32[OF fc]
    by (auto simp: word_le_nat_alt)
  then show ?thesis using journal_addr[OF assms(2)] by auto
qed

abbreviation slot :: "nat \<Rightarrow> u32" where
  "slot i \<equiv> io_journal io + 1 + of_nat i"

lemma slot_addr: "i < 48 \<Longrightarrow> unat (slot i) = unat (io_journal io) + 1 + i"
  using journal_addr[of "Suc i"] journal_room by (simp add: add.assoc)

lemma slot_eq: "i < 48 \<Longrightarrow> j < 48 \<Longrightarrow> slot i = slot j \<longleftrightarrow> i = j"
  by (metis add_left_cancel slot_addr)

lemma slot_journal: "i < 48 \<Longrightarrow> slot i \<noteq> io_journal io"
  by (metis add.assoc add_cancel_right_right add_is_0 one_neq_zero slot_addr)

lemma target_slot: "target_ok io x \<Longrightarrow> i < 48 \<Longrightarrow> x \<noteq> slot i"
  using target_off_journal[of x "Suc i"] journal_room by (simp add: add.assoc)

lemma target_journal: "target_ok io x \<Longrightarrow> x \<noteq> io_journal io"
  using target_off_journal[of x 0] journal_room by simp

lemma header_step:
  assumes "stx_header t a d = (d', ok)" "tx_io t = io"
  shows "poss d' (io_journal io) \<subseteq> insert (header_sector io (tx_undo t) a) (poss d (io_journal io))"
    "y \<noteq> io_journal io \<Longrightarrow> poss d' y \<subseteq> poss d y"
    "y \<noteq> io_journal io \<Longrightarrow> cur d' y = cur d y"
    "ok \<Longrightarrow> poss d' (io_journal io) \<subseteq> {header_sector io (tx_undo t) a}"
proof -
  obtain d1 ok1 where w: "io_write io d (io_journal io) (header_sector io (tx_undo t) a) = (d1, ok1)"
    by fastforce
  have s: "if ok1 then io_sync io d1 = (d', ok) else d' = d1 \<and> \<not> ok"
    using assms w by (auto simp: stx_header_def write_sector_def barrier_def split: if_splits)
  have sub: "poss d' y \<subseteq> poss d1 y" and cu: "cur d' = cur d1" for y
    using s sy_same[of d1 d' ok] by (auto split: if_splits)
  show "poss d' (io_journal io) \<subseteq> insert (header_sector io (tx_undo t) a) (poss d (io_journal io))"
    using sub[of "io_journal io"] wr_self[OF w] by blast
  show "y \<noteq> io_journal io \<Longrightarrow> poss d' y \<subseteq> poss d y"
    using sub[of y] wr_other[OF w, of y] by blast
  show "y \<noteq> io_journal io \<Longrightarrow> cur d' y = cur d y"
    using cu wr_other[OF w, of y] by simp
  show "poss d' (io_journal io) \<subseteq> {header_sector io (tx_undo t) a}" if ok
  proof -
    from s that have o1: ok1 and y: "io_sync io d1 = (d', True)" by (auto split: if_splits)
    have "cur d1 (io_journal io) = header_sector io (tx_undo t) a"
      using w o1 wr_ok by simp
    then show ?thesis using sy_ok[OF y, of "io_journal io"] cu by simp
  qed
qed

lemma table_write:
  assumes "io_write io d x b = (d', ok)" "log_table io us (poss d) img" "\<not> log_protects io us x"
  shows "log_table io us (poss d') img"
  using assms wr_other[OF assms(1)] by (metis log_table_frame)

lemma table_sync:
  assumes "io_sync io d = (d', ok)" "log_table io us (poss d) img"
  shows "log_table io us (poss d') img"
  using assms sy_same by (metis log_table_frame)

lemma core_write:
  assumes "io_write io d x b = (d', ok)" "log_core io us (poss d) img"
    "\<not> log_protects io us x" "x \<noteq> io_journal io"
  shows "log_core io us (poss d') img"
  using assms table_write[OF assms(1)] wr_other[OF assms(1), of "io_journal io"]
  unfolding log_core_def by blast

lemma core_sync:
  assumes "io_sync io d = (d', ok)" "log_core io us (poss d) img"
  shows "log_core io us (poss d') img"
  using assms table_sync[OF assms(1)] sy_same[OF assms(1), of "io_journal io"]
  unfolding log_core_def by blast

text \<open>Writing a sector's old content back never loses recoverability.\<close>

lemma recovers_to_put:
  assumes "recovers_to io D img" "target_ok io x"
  shows "recovers_to io (D(x := img x)) img"
  using assms(1) unfolding recovers_to_def
proof (elim disjE exE conjE)
  assume "D (io_journal io) = header_sector io [] False" "\<forall>y. target_ok io y \<longrightarrow> D y = img y"
  then show "(D(x := img x)) (io_journal io) = header_sector io [] False \<and>
      (\<forall>y. target_ok io y \<longrightarrow> (D(x := img x)) y = img y) \<or> (\<exists>us. (D(x := img x)) (io_journal io) =
      header_sector io us True \<and> undo_ok io us \<and> backups_on io us (D(x := img x)) \<and>
      (\<forall>y. target_ok io y \<longrightarrow> undo_image us (D(x := img x)) y = img y))"
    using target_journal[OF assms(2)] by auto
next
  fix us
  assume h: "D (io_journal io) = header_sector io us True" "undo_ok io us" "backups_on io us D"
    and im: "\<forall>y. target_ok io y \<longrightarrow> undo_image us D y = img y"
  have "slot i \<noteq> x" if "i < length us" for i
    using target_slot[OF assms(2), of i] that h(2) by (auto simp: undo_ok_def)
  then have "backups_on io us (D(x := img x))"
    using h(3) by (simp add: backups_on_def)
  moreover have "undo_image us (D(x := img x)) y = img y" if "target_ok io y" for y
    using im that by (auto simp: undo_image_def split: option.splits)
  ultimately show "(D(x := img x)) (io_journal io) = header_sector io [] False \<and>
      (\<forall>y. target_ok io y \<longrightarrow> (D(x := img x)) y = img y) \<or> (\<exists>us. (D(x := img x)) (io_journal io) =
      header_sector io us True \<and> undo_ok io us \<and> backups_on io us (D(x := img x)) \<and>
      (\<forall>y. target_ok io y \<longrightarrow> undo_image us (D(x := img x)) y = img y))"
    using h(1,2) target_journal[OF assms(2)] by auto
qed

lemma safe_write_back:
  assumes "io_write io d x (img x) = (d', ok)" "crash_safe io (poss d) img" "target_ok io x"
  shows "crash_safe io (poss d') img"
  unfolding crash_safe_def
proof (intro allI impI)
  fix D assume D: "\<forall>y. D y \<in> poss d' y"
  define D0 where "D0 = D(x := if D x \<in> poss d x then D x else cur d x)"
  have "\<forall>y. D0 y \<in> poss d y"
    using D wr_other[OF assms(1)] cur_poss by (auto simp: D0_def)
  then have r: "recovers_to io D0 img" using assms(2) by (simp add: crash_safe_def)
  show "recovers_to io D img"
  proof (cases "D x \<in> poss d x")
    case True
    then have "D0 = D" by (simp add: D0_def)
    then show ?thesis using r by simp
  next
    case False
    then have "D x = img x" using D wr_self[OF assms(1)] by blast
    then have "D = D0(x := img x)" by (auto simp: D0_def)
    then show ?thesis using recovers_to_put[OF r assms(3)] by simp
  qed
qed

lemma weak_write_back:
  assumes "io_write io d (u_lba u) (u_old u) = (d', ok)" "log_weak io us (poss d) img" "u \<in> set us"
  shows "log_weak io us (poss d') img"
proof -
  have u: "target_ok io (u_lba u)" "u_old u = img (u_lba u)"
    using assms(2,3) by (auto simp: log_weak_def)
  have "crash_safe io (poss d') img"
    using assms(1,2) u safe_write_back unfolding log_weak_def by metis
  then show ?thesis
    using assms(2,3) wr_other[OF assms(1)] unfolding log_weak_def by blast
qed

lemma undo_writes_weak:
  assumes "undo_writes t vs d = (d', ok)" "tx_io t = io" "log_weak io us (poss d) img"
    "set vs \<subseteq> set us"
  shows "log_weak io us (poss d') img \<and> (ok \<longrightarrow> (\<forall>u \<in> set vs. cur d' (u_lba u) = img (u_lba u)) \<and>
    (\<forall>x. x \<notin> u_lba ` set vs \<longrightarrow> cur d' x = cur d x))"
  using assms
proof (induction t vs d arbitrary: d' ok rule: undo_writes.induct)
  case (1 t d)
  then show ?case by simp
next
  case (2 t v vs d)
  obtain d1 ok1 where w: "io_write io d (u_lba v) (u_old v) = (d1, ok1)" by fastforce
  have wk: "log_weak io us (poss d1) img"
    using weak_write_back[OF w "2.prems"(3)] "2.prems"(4) by simp
  show ?case
  proof (cases ok1)
    case False
    then show ?thesis using "2.prems"(1,2) w wk by (simp add: write_sector_def)
  next
    case True
    then have r: "undo_writes t vs d1 = (d', ok)"
      using "2.prems"(1,2) w by (simp add: write_sector_def)
    have v: "u_old v = img (u_lba v)" using "2.prems"(3,4) by (auto simp: log_weak_def)
    have c1: "cur d1 (u_lba v) = img (u_lba v)" using w True wr_ok v by simp
    from "2.IH"[OF _ _ r] "2.prems"(2,4) w True wk
    have IH: "log_weak io us (poss d') img" "ok \<Longrightarrow> \<forall>u \<in> set vs. cur d' (u_lba u) = img (u_lba u)"
      "ok \<Longrightarrow> x \<notin> u_lba ` set vs \<Longrightarrow> cur d' x = cur d1 x" for x
      by (auto simp: write_sector_def)
    have "cur d' (u_lba v) = img (u_lba v)" if ok
      using IH(2,3) that c1 by (cases "u_lba v \<in> u_lba ` set vs") auto
    then show ?thesis using IH wr_other[OF w] by auto
  qed
qed

lemma abort_outcome:
  assumes a: "stx_abort t d = (t', d', ok)" and t: "tx_io t = io" "tx_active t" "\<not> tx_closing t"
    and wk: "log_weak io (tx_undo t) (poss d) img"
  shows "crash_safe io (poss d') img \<and> (ok \<longrightarrow> log_settled io (poss d') img \<and> tx_io t' = io \<and>
    \<not> tx_active t' \<and> tx_failed t' = tx_failed t \<and> tx_undo t' = [])"
proof -
  obtain d1 ok1 where u: "undo_writes t (rev (tx_undo t)) d = (d1, ok1)" by fastforce
  have w1: "log_weak io (tx_undo t) (poss d1) img"
    and c1: "ok1 \<Longrightarrow> \<forall>u \<in> set (tx_undo t). cur d1 (u_lba u) = img (u_lba u)"
    using undo_writes_weak[OF u t(1) wk] by auto
  show ?thesis
  proof (cases ok1)
    case False
    then show ?thesis using a t u w1 by (auto simp: stx_abort_def log_weak_def)
  next
    case o1: True
    obtain d2 ok2 where y: "io_sync io d1 = (d2, ok2)" by fastforce
    have s2: "crash_safe io (poss d2) img"
      using w1 sy_same[OF y] crash_safe_mono unfolding log_weak_def by metis
    show ?thesis
    proof (cases ok2)
      case False
      then show ?thesis using a t u y o1 s2 by (auto simp: stx_abort_def barrier_def)
    next
      case o2: True
      have set2: "poss d2 x \<subseteq> {img x}" if x: "target_ok io x" for x
      proof (cases "x \<in> u_lba ` set (tx_undo t)")
        case True
        then have "cur d2 x = img x" using c1 o1 sy_same[OF y] by auto
        then show ?thesis using sy_ok[of d1 d2 x] y o2 by simp
      next
        case False
        then show ?thesis using w1 x sy_same[OF y, of x] unfolding log_weak_def by blast
      qed
      obtain d3 ok3 where h: "stx_header (t\<lparr>tx_closing := True\<rparr>) False d2 = (d3, ok3)" by fastforce
      have tc: "tx_io (t\<lparr>tx_closing := True\<rparr>) = io" using t(1) by simp
      have h1: "poss d3 (io_journal io) \<subseteq> insert (header_sector io [] False) (poss d2 (io_journal io))"
        and h2: "\<And>y. y \<noteq> io_journal io \<Longrightarrow> poss d3 y \<subseteq> poss d2 y"
        and h4: "ok3 \<Longrightarrow> poss d3 (io_journal io) \<subseteq> {header_sector io [] False}"
        using header_step[OF h tc] header_sector_clean[of io "tx_undo t"] by simp_all
      have tg: "poss d3 x \<subseteq> {img x}" if "target_ok io x" for x
        using h2 set2[OF that] target_journal[OF that] by blast
      have "recovers_to io D img" if D: "\<forall>x. D x \<in> poss d3 x" for D
      proof (cases "D (io_journal io) = header_sector io [] False")
        case True
        then show ?thesis using D tg unfolding recovers_to_def by blast
      next
        case False
        then have "D (io_journal io) \<in> poss d2 (io_journal io)" using D h1 by blast
        then have "\<forall>x. D x \<in> poss d2 x" using D h2 by (metis subsetD)
        then show ?thesis using s2 by (simp add: crash_safe_def)
      qed
      then have safe: "crash_safe io (poss d3) img" by (simp add: crash_safe_def)
      have "log_settled io (poss d3) img" if ok3
        using that h4 tg by (simp add: log_settled_def)
      then show ?thesis
        using a t u y o1 o2 h safe durable by (auto simp: stx_abort_def barrier_def split: bool.splits)
    qed
  qed
qed

text \<open>Loading reads only, and reads back exactly the table the header was written from.\<close>

lemma load_undos_same:
  "load_undos io b k i us d = (us', d', ok) \<Longrightarrow> cur d' = cur d \<and> poss d' = poss d"
proof (induction k arbitrary: i us d us' d' ok)
  case 0
  then show ?case by simp
next
  case (Suc k)
  obtain d1 r where rd: "io_read io d (slot i) = (d1, r)" by fastforce
  note same = rd_same[OF rd]
  show ?case using Suc.prems Suc.IH rd same
    by (auto simp: Let_def split: if_splits option.splits)
qed

lemma load_undos_table:
  assumes "load_undos io (header_sector io us True) k i (take i us) d = (us', d', True)"
    "length us = i + k" "undo_ok io us" "backups_on io us (cur d)"
  shows "us' = us"
  using assms
proof (induction k arbitrary: i d)
  case 0
  then show ?case by simp
next
  case (Suc k)
  have i: "i < length us" "length us \<le> 48" using Suc.prems by (auto simp: undo_ok_def)
  note e = header_sector_entry[OF i, of io]
  obtain d1 s where rd: "io_read io d (slot i) = (d1, Some s)"
    using Suc.prems(1) by (auto simp: Let_def split: if_splits option.splits prod.splits)
  have s: "s = u_old (us ! i)" using rd_val[OF rd] Suc.prems(4) i by (simp add: backups_on_def)
  have "us ! i \<in> set us" using i by simp
  then have ui: "\<lparr>u_lba = u_lba (us ! i), u_crc = u_crc (us ! i), u_old = s\<rparr> = us ! i"
    using s by simp
  have nx: "take i us @ [us ! i] = take (Suc i) us" using i by (simp add: take_Suc_conv_app_nth)
  have "load_undos io (header_sector io us True) k (Suc i) (take (Suc i) us) d1 = (us', d', True)"
    using Suc.prems(1) rd e ui nx by (auto simp: Let_def split: if_splits)
  moreover have "backups_on io us (cur d1)" using Suc.prems(4) rd_same[OF rd] by simp
  ultimately show ?case using Suc.IH Suc.prems(2,3) by simp
qed

lemma load_same:
  assumes "stx_load t io d = (t', d', ok)"
  shows "cur d' = cur d \<and> poss d' = poss d \<and> tx_io t' = io"
proof -
  obtain d1 r where rd: "io_read io d (io_journal io) = (d1, r)" by fastforce
  show ?thesis using assms config durable rd rd_same[OF rd]
    by (auto simp: stx_load_def stx_fresh_def split: option.splits if_splits prod.splits bool.splits
        dest!: load_undos_same)
qed

lemma load_clean:
  assumes "stx_load t io d = (t', d', ok)" "cur d (io_journal io) = header_sector io [] False"
  shows "t' = stx_fresh io"
proof -
  obtain d1 r where rd: "io_read io d (io_journal io) = (d1, r)" by fastforce
  show ?thesis using assms config durable rd rd_val[of d "io_journal io" d1]
    by (auto simp: stx_load_def header_sector_count split: option.splits if_splits)
qed

lemma load_active:
  assumes l: "stx_load t io d = (t', d', True)" and h: "cur d (io_journal io) = header_sector io us True"
    and us: "undo_ok io us" "backups_on io us (cur d)"
  shows "t' = (stx_fresh io)\<lparr>tx_undo := us, tx_active := True\<rparr>"
proof -
  obtain d1 where rd: "io_read io d (io_journal io) = (d1, Some (header_sector io us True))"
    using l config durable h rd_val[of d "io_journal io"]
    by (auto simp: stx_load_def split: option.splits if_splits prod.splits)
  have n: "unat (get32 (header_sector io us True) 36) = length us"
    using us(1) by (simp add: header_sector_count unat_of_nat_u32 undo_ok_def)
  obtain us' d2 ok2 where ld: "load_undos io (header_sector io us True) (length us) 0 [] d1 = (us', d2, ok2)"
    by (metis prod_cases3)
  have ok2: "ok2" "t' = (stx_fresh io)\<lparr>tx_undo := us', tx_active := True\<rparr>"
    using l config durable rd n ld
    by (auto simp: stx_load_def header_sector_count split: if_splits bool.splits)
  then have "us' = us"
    using load_undos_table[of us "length us" 0 d1 us' d2] ld us rd_same[OF rd] by simp
  then show ?thesis using ok2 by simp
qed

text \<open>
  Recovery of a device that has just come up: every sector is stable and the content
  recovers to \<open>img\<close>. Recovery may itself be interrupted; only when it succeeds is the
  journal clean and the extent equal to the image.
\<close>

lemma stable_active:
  assumes st: "\<And>x. poss d x \<subseteq> {cur d x}" and h: "cur d (io_journal io) = header_sector io us True"
    and us: "undo_ok io us" "backups_on io us (cur d)"
    and im: "\<forall>x. target_ok io x \<longrightarrow> undo_image us (cur d) x = img x"
  shows "log_core io us (poss d) img"
proof -
  have old: "u_old u = img (u_lba u)" if "u \<in> set us" for u
    using im us(1) that undo_image_member[OF that, of "cur d"] by (auto simp: undo_ok_def)
  have other: "cur d x = img x" if "target_ok io x" "x \<notin> u_lba ` set us" for x
    using im that undo_image_other[OF that(2), of "cur d"] by simp
  have "poss d (slot i) \<subseteq> {u_old (us ! i)}" if "i < length us" for i
    using st[of "slot i"] us(2) that by (simp add: backups_on_def)
  moreover have "poss d x \<subseteq> {img x}" if "target_ok io x" "x \<notin> u_lba ` set us" for x
    using st[of x] other[OF that] by simp
  ultimately show ?thesis
    using us(1) old st[of "io_journal io"] h by (auto simp: log_core_def log_table_def)
qed

lemma recover_outcome:
  assumes r: "stx_recover t io d = (t', d', ok)" and st: "\<And>x. poss d x \<subseteq> {cur d x}"
    and rt: "recovers_to io (cur d) img"
  shows "crash_safe io (poss d') img \<and> (ok \<longrightarrow> log_settled io (poss d') img \<and> tx_io t' = io \<and>
    \<not> tx_active t' \<and> \<not> tx_failed t' \<and> tx_undo t' = [])"
proof -
  obtain t1 d1 ok1 where l: "stx_load t io d = (t1, d1, ok1)" by (metis prod_cases3)
  have same: "cur d1 = cur d" "poss d1 = poss d" "tx_io t1 = io" using load_same[OF l] by auto
  have "recovers_to io D img" if "\<forall>x. D x \<in> poss d x" for D
  proof -
    have "D = cur d" using that st by fastforce
    then show ?thesis using rt by simp
  qed
  then have safe: "crash_safe io (poss d) img" by (simp add: crash_safe_def)
  from rt consider (clean) "cur d (io_journal io) = header_sector io [] False"
      "\<forall>x. target_ok io x \<longrightarrow> cur d x = img x"
    | (act) us where "cur d (io_journal io) = header_sector io us True" "undo_ok io us"
      "backups_on io us (cur d)" "\<forall>x. target_ok io x \<longrightarrow> undo_image us (cur d) x = img x"
    by (auto simp: recovers_to_def)
  then show ?thesis
  proof cases
    case clean
    have "log_settled io (poss d) img"
      using clean st unfolding log_settled_def by metis
    moreover have "t1 = stx_fresh io" using load_clean[OF l clean(1)] .
    ultimately show ?thesis
      using r l safe same by (auto simp: stx_recover_def stx_fresh_def split: bool.splits)
  next
    case act
    have core: "log_core io us (poss d) img" by (rule stable_active[OF st act])
    show ?thesis
    proof (cases ok1)
      case False
      then show ?thesis using r l safe same by (auto simp: stx_recover_def)
    next
      case True
      then have t1: "t1 = (stx_fresh io)\<lparr>tx_undo := us, tx_active := True\<rparr>"
        using load_active[of t d t1 d1 us] l act(1-3) by simp
      then have a: "stx_abort t1 d1 = (t', d', ok)"
        using r l True by (simp add: stx_recover_def)
      show ?thesis
        using abort_outcome[OF a same(3), of img] t1 same log_core_weak[OF core]
        by (simp add: stx_fresh_def)
    qed
  qed
qed

text \<open>Transactions keep the old image recoverable.\<close>

lemma weak_snoc:
  assumes "log_table io us P img" "crash_safe io P img" "target_ok io lba" "u_lba u = lba"
    "u_old u = img lba"
  shows "log_weak io (us @ [u]) P img"
  using assms by (auto simp: log_weak_def log_table_def undo_ok_def)

lemma header_append_safe:
  assumes h: "stx_header t True d = (d', ok)" "tx_io t = io" "tx_undo t = us @ [u]"
    and core: "log_core io us (poss d) img" and tab: "log_table io (us @ [u]) (poss d) img"
  shows "crash_safe io (poss d') img \<and> log_table io (us @ [u]) (poss d') img \<and>
    (ok \<longrightarrow> log_core io (us @ [u]) (poss d') img)"
proof -
  note hs = header_step[OF h(1,2)]
  have frame: "log_table io vs (poss d') img" if v: "log_table io vs (poss d) img" for vs
  proof (rule log_table_frame[OF v])
    fix x assume "log_protects io vs x"
    then have "x \<noteq> io_journal io"
      using v slot_journal target_journal by (auto simp: log_protects_def log_table_def undo_ok_def)
    then show "poss d' x \<subseteq> poss d x" by (rule hs(2))
  qed
  have t1: "log_table io us (poss d') img" and t2: "log_table io (us @ [u]) (poss d') img"
    using frame core tab by (auto simp: log_core_def)
  have "recovers_to io D img" if D: "\<forall>x. D x \<in> poss d' x" for D
  proof -
    have "D (io_journal io) \<in> poss d' (io_journal io)" using D by simp
    moreover have "poss d (io_journal io) \<subseteq> {header_sector io us True}"
      using core by (simp add: log_core_def)
    ultimately have "D (io_journal io) = header_sector io (us @ [u]) True \<or>
        D (io_journal io) = header_sector io us True"
      using hs(1) h(3) by auto
    then show ?thesis
      using log_table_recovers[OF t1 D] log_table_recovers[OF t2 D] by blast
  qed
  then show ?thesis using t2 hs(4) h(3) by (auto simp: crash_safe_def log_core_def)
qed

lemma backup_outcome:
  assumes b: "stx_backup t lba d = (t', d', ok)" and o: "tx_open io (poss d) img t"
    and lba: "target_ok io lba" "lba \<notin> u_lba ` set (tx_undo t)"
  shows "(if ok then tx_open io (poss d') img t' \<and> lba \<in> u_lba ` set (tx_undo t')
      else tx_dead io (poss d') img t') \<and> (\<forall>x. target_ok io x \<longrightarrow> cur d' x = cur d x)"
proof -
  let ?us = "tx_undo t" and ?n = "length (tx_undo t)"
  have io: "tx_io t = io" and core: "log_core io ?us (poss d) img"
    and fl: "tx_active t" "\<not> tx_failed t" "\<not> tx_closing t"
    using o by (auto simp: tx_open_def)
  have n48: "?n \<le> 48" using core by (auto simp: log_core_def log_table_def undo_ok_def)
  obtain d1 r where rd: "io_read io d lba = (d1, r)" by fastforce
  have s1: "cur d1 = cur d" "poss d1 = poss d" using rd_same[OF rd] by auto
  show ?thesis
  proof (cases "?n = 48 \<or> r = None")
    case True
    then show ?thesis using b io rd s1 fl log_core_weak[OF core]
      by (auto simp: stx_backup_def tx_dead_def split: if_splits)
  next
    case False
    then obtain old where r: "r = Some old" and n: "?n < 48" using n48 by auto
    have old: "old = img lba"
      using rd_val rd r cur_poss[of d lba] core lba unfolding log_core_def log_table_def by blast
    define u where "u = \<lparr>u_lba = lba, u_crc = stx_crc32 (img lba), u_old = img lba\<rparr>"
    define t1 where "t1 = t\<lparr>tx_undo := ?us @ [u]\<rparr>"
    have t1: "tx_io t1 = io" "tx_undo t1 = ?us @ [u]" "tx_active t1" "\<not> tx_failed t1" "\<not> tx_closing t1"
      using io fl by (simp_all add: t1_def)
    have dead: "tx_dead io P img (t1\<lparr>tx_failed := True\<rparr>)"
      if "log_table io ?us P img" "crash_safe io P img" for P
      using weak_snoc[OF that lba(1), of u] t1 by (simp add: tx_dead_def u_def)
    have dead': "tx_dead io P img (t1\<lparr>tx_failed := True\<rparr>)" if "log_core io ?us P img" for P
      using dead[of P] log_core_safe[OF that] that by (simp add: log_core_def)
    obtain d2 ok2 where w: "io_write io d1 (slot ?n) old = (d2, ok2)" by fastforce
    have np: "\<not> log_protects io ?us (slot ?n)" "slot ?n \<noteq> io_journal io"
      using n slot_eq target_slot slot_journal by (fastforce simp: log_protects_def)+
    have core1: "log_core io ?us (poss d1) img" using core s1 by simp
    have core2: "log_core io ?us (poss d2) img" by (rule core_write[OF w core1 np])
    have c2: "cur d2 x = cur d x" if "target_ok io x" for x
      using wr_other[OF w target_slot[OF that n]] s1 by simp
    have B: "stx_backup t lba d = (if \<not> ok2 then (t1\<lparr>tx_failed := True\<rparr>, d2, False)
        else case barrier t1 d2 of (d3, ok3) \<Rightarrow> if \<not> ok3 then (t1\<lparr>tx_failed := True\<rparr>, d3, False)
        else case stx_header t1 True d3 of (d4, ok4) \<Rightarrow>
          if \<not> ok4 then (t1\<lparr>tx_failed := True\<rparr>, d4, False) else (t1, d4, True))"
      using n io rd r old w durable
      by (auto simp: stx_backup_def Let_def t1_def u_def write_sector_def split: bool.splits prod.splits)
    show ?thesis
    proof (cases ok2)
      case False
      then show ?thesis using b B dead'[OF core2] c2 by simp
    next
      case o2: True
      obtain d3 ok3 where y: "io_sync io d2 = (d3, ok3)" by fastforce
      have core3: "log_core io ?us (poss d3) img" by (rule core_sync[OF y core2])
      have c3: "cur d3 = cur d2" using sy_same[OF y] by simp
      show ?thesis
      proof (cases ok3)
        case False
        then show ?thesis using b B o2 y t1(1) dead'[OF core3] c2 c3 by (simp add: barrier_def)
      next
        case o3: True
        have "cur d3 (slot ?n) = img lba" using w o2 wr_ok old c3 by simp
        then have "poss d3 (slot ?n) \<subseteq> {img lba}" using sy_ok[of d2 d3 "slot ?n"] y o3 by simp
        then have tab: "log_table io (?us @ [u]) (poss d3) img"
          using log_table_snoc[of io ?us "poss d3" img lba] core3 n lba
          by (simp add: log_core_def u_def)
        obtain d4 ok4 where h: "stx_header t1 True d3 = (d4, ok4)" by fastforce
        note hs = header_append_safe[OF h t1(1,2) core3 tab]
        have c4: "cur d4 x = cur d x" if "target_ok io x" for x
          using header_step(3)[OF h t1(1) target_journal[OF that]] c3 c2[OF that] by simp
        have "log_weak io (?us @ [u]) (poss d4) img"
          using hs by (auto simp: log_weak_def log_table_def undo_ok_def)
        then have "tx_dead io (poss d4) img (t1\<lparr>tx_failed := True\<rparr>)"
          using t1 by (simp add: tx_dead_def)
        then show ?thesis
          using b B o2 o3 y h hs c4 t1
          by (auto simp: barrier_def tx_open_def u_def split: if_splits)
      qed
    qed
  qed
qed

lemma target_write_core:
  assumes "io_write io d lba b = (d', ok)" "log_core io us (poss d) img"
    "target_ok io lba" "lba \<in> u_lba ` set us"
  shows "log_core io us (poss d') img"
proof (rule core_write[OF assms(1,2)])
  have "length us \<le> 48" using assms(2) by (auto simp: log_core_def log_table_def undo_ok_def)
  then show "\<not> log_protects io us lba"
    using target_slot[OF assms(3)] assms(4) by (auto simp: log_protects_def)
  show "lba \<noteq> io_journal io" by (rule target_journal[OF assms(3)])
qed

lemma write_outcome:
  assumes w: "stx_write t lba (Some b) d = (t', d', ok)" and o: "tx_open io (poss d) img t"
  shows "if ok then tx_open io (poss d') img t' \<and> target_ok io lba \<and>
      (\<forall>x. target_ok io x \<longrightarrow> cur d' x = ((cur d)(lba := b)) x)
    else tx_dead io (poss d') img t'"
proof -
  have io: "tx_io t = io" and core: "log_core io (tx_undo t) (poss d) img"
    and fl: "tx_active t" "\<not> tx_failed t" "\<not> tx_closing t"
    using o by (auto simp: tx_open_def)
  show ?thesis
  proof (cases "target_ok io lba")
    case False
    then show ?thesis using w io fl log_core_weak[OF core]
      by (auto simp: stx_write_def tx_dead_def)
  next
    case tg: True
    obtain t1 d1 ok1 where p: "(if lba \<in> set (map u_lba (tx_undo t)) then (t, d, True)
        else stx_backup t lba d) = (t1, d1, ok1)" by (metis prod_cases3)
    have p1: "(if ok1 then tx_open io (poss d1) img t1 \<and> lba \<in> u_lba ` set (tx_undo t1)
        else tx_dead io (poss d1) img t1) \<and> (\<forall>x. target_ok io x \<longrightarrow> cur d1 x = cur d x)"
      using p o backup_outcome[of t lba d t1 d1 ok1 img] tg by (auto split: if_splits)
    show ?thesis
    proof (cases ok1)
      case False
      then show ?thesis using w io fl tg p p1 by (simp add: stx_write_def)
    next
      case o1: True
      then have io1: "tx_io t1 = io" and core1: "log_core io (tx_undo t1) (poss d1) img"
        and in1: "lba \<in> u_lba ` set (tx_undo t1)"
        and fl1: "tx_active t1" "\<not> tx_failed t1" "\<not> tx_closing t1"
        using p1 by (auto simp: tx_open_def)
      obtain d2 ok2 where w2: "io_write io d1 lba b = (d2, ok2)" by fastforce
      have core2: "log_core io (tx_undo t1) (poss d2) img"
        by (rule target_write_core[OF w2 core1 tg in1])
      have W: "stx_write t lba (Some b) d = (if ok2 then (t1, d2, True)
          else (t1\<lparr>tx_failed := True\<rparr>, d2, False))"
        using io fl tg p o1 w2 io1 by (simp add: stx_write_def write_sector_def)
      show ?thesis
      proof (cases ok2)
        case True
        have "cur d2 x = ((cur d)(lba := b)) x" if "target_ok io x" for x
          using p1 that wr_other[OF w2, of x] wr_ok[of d1 lba b d2] w2 True by auto
        then show ?thesis using w W True tg core2 io1 fl1 by (simp add: tx_open_def)
      next
        case False
        then show ?thesis using w W log_core_weak[OF core2] io1 fl1
          by (auto simp: tx_dead_def)
      qed
    qed
  qed
qed

lemma settled_table: "log_settled io P img \<Longrightarrow> log_table io [] P img"
  by (simp add: log_settled_def log_table_def undo_ok_def)

lemma header_begin:
  assumes h: "stx_header t True d = (d', ok)" "tx_io t = io" "tx_undo t = []"
    and se: "log_settled io (poss d) img"
  shows "crash_safe io (poss d') img \<and> (ok \<longrightarrow> log_core io [] (poss d') img)"
proof -
  note hs = header_step[OF h(1,2)]
  have tg: "poss d' x \<subseteq> {img x}" if "target_ok io x" for x
    using hs(2)[OF target_journal[OF that]] se that by (auto simp: log_settled_def)
  have tab: "log_table io [] (poss d') img" using tg by (simp add: log_table_def undo_ok_def)
  have "recovers_to io D img" if D: "\<forall>x. D x \<in> poss d' x" for D
  proof -
    have "D (io_journal io) \<in> poss d' (io_journal io)" using D by simp
    moreover have "poss d (io_journal io) \<subseteq> {header_sector io [] False}"
      using se by (simp add: log_settled_def)
    ultimately have "D (io_journal io) = header_sector io [] True \<or>
        D (io_journal io) = header_sector io [] False"
      using hs(1) h(3) by auto
    moreover have "D x = img x" if "target_ok io x" for x using tg[OF that] D by blast
    ultimately show ?thesis
      using log_table_recovers[OF tab D] unfolding recovers_to_def by blast
  qed
  then show ?thesis using tab hs(4) h(3) by (auto simp: crash_safe_def log_core_def)
qed

text \<open>
  A begun transaction. When the journal it found held an interrupted transaction, the
  rollback leaves \<open>tx_closing\<close> set, and every write of the new transaction is refused.
\<close>

lemma begin_outcome:
  assumes b: "stx_begin t io d = (t', d', ok)" and st: "\<And>x. poss d x \<subseteq> {cur d x}"
    and rt: "recovers_to io (cur d) img"
  shows "crash_safe io (poss d') img \<and> (ok \<longrightarrow> tx_io t' = io \<and> tx_active t' \<and> \<not> tx_failed t' \<and>
    tx_undo t' = [] \<and> log_core io [] (poss d') img \<and> (\<forall>x. target_ok io x \<longrightarrow> cur d' x = img x))"
proof -
  obtain t1 d1 ok1 where r: "stx_recover t io d = (t1, d1, ok1)" by (metis prod_cases3)
  note ro = recover_outcome[OF r st rt]
  show ?thesis
  proof (cases ok1)
    case False
    then show ?thesis using b r ro by (auto simp: stx_begin_def)
  next
    case o1: True
    then have se: "log_settled io (poss d1) img"
      and t1: "tx_io t1 = io" "tx_undo t1 = []" "\<not> tx_failed t1"
      using ro by auto
    define t2 where "t2 = t1\<lparr>tx_active := True\<rparr>"
    have t2: "tx_io t2 = io" "tx_undo t2 = []" "tx_active t2" "\<not> tx_failed t2"
      using t1 by (simp_all add: t2_def)
    obtain d2 ok2 where h: "stx_header t2 True d1 = (d2, ok2)" by fastforce
    note hb = header_begin[OF h t2(1,2) se]
    have "cur d2 x = img x" if "target_ok io x" for x
      using header_step(3)[OF h t2(1) target_journal[OF that]] se that cur_poss[of d1 x]
      by (auto simp: log_settled_def)
    then show ?thesis
      using b r o1 h hb t2 durable by (auto simp: stx_begin_def Let_def t2_def split: bool.splits)
  qed
qed

lemma commit_outcome:
  assumes c: "stx_commit t d = (t', d', ok)" and t: "tx_io t = io" "tx_active t" "\<not> tx_failed t"
    and core: "log_core io (tx_undo t) (poss d) img"
  shows "(\<forall>D. (\<forall>x. D x \<in> poss d' x) \<longrightarrow> recovers_to io D img \<or> recovers_to io D (cur d)) \<and>
    (ok \<longrightarrow> log_settled io (poss d') (cur d)) \<and>
    (\<not> ok \<longrightarrow> tx_closing t' \<or> tx_dead io (poss d') img t')"
proof -
  obtain d1 ok1 where y: "io_sync io d = (d1, ok1)" by fastforce
  have core1: "log_core io (tx_undo t) (poss d1) img" by (rule core_sync[OF y core])
  show ?thesis
  proof (cases ok1)
    case False
    then show ?thesis
      using c t y log_core_safe[OF core1] log_core_weak[OF core1]
      by (auto simp: stx_commit_def barrier_def crash_safe_def tx_dead_def)
  next
    case o1: True
    have p1: "poss d1 x \<subseteq> {cur d x}" for x
      using sy_ok[of d d1 x] sy_same[OF y] y o1 by simp
    have tc: "tx_io (t\<lparr>tx_closing := True\<rparr>) = io" using t(1) by simp
    obtain d2 ok2 where h: "stx_header (t\<lparr>tx_closing := True\<rparr>) False d1 = (d2, ok2)" by fastforce
    have h1: "poss d2 (io_journal io) \<subseteq> insert (header_sector io [] False) (poss d1 (io_journal io))"
      and h2: "\<And>y. y \<noteq> io_journal io \<Longrightarrow> poss d2 y \<subseteq> poss d1 y"
      and h4: "ok2 \<Longrightarrow> poss d2 (io_journal io) \<subseteq> {header_sector io [] False}"
      using header_step[OF h tc] header_sector_clean[of io "tx_undo t"] by simp_all
    have tg: "poss d2 x \<subseteq> {cur d x}" if "target_ok io x" for x
      using h2[OF target_journal[OF that]] p1[of x] by blast
    have "recovers_to io D img \<or> recovers_to io D (cur d)" if D: "\<forall>x. D x \<in> poss d2 x" for D
    proof (cases "D (io_journal io) = header_sector io [] False")
      case True
      then show ?thesis using D tg unfolding recovers_to_def by blast
    next
      case False
      then have "D (io_journal io) \<in> poss d1 (io_journal io)" using D h1 by blast
      then have "\<forall>x. D x \<in> poss d1 x" using D h2 by (metis subsetD)
      then show ?thesis using log_core_safe[OF core1] by (simp add: crash_safe_def)
    qed
    moreover have "log_settled io (poss d2) (cur d)" if ok2
      using that h4 tg by (simp add: log_settled_def)
    ultimately show ?thesis
      using c t y o1 h durable by (auto simp: stx_commit_def barrier_def split: bool.splits)
  qed
qed

lemma writes_outcome:
  assumes "stx_writes t ws d = (t', d', ok)" "tx_io t = io" "tx_active t" "\<not> tx_failed t"
    "log_core io (tx_undo t) (poss d) img"
  shows "if ok then tx_io t' = io \<and> tx_active t' \<and> \<not> tx_failed t' \<and>
      log_core io (tx_undo t') (poss d') img \<and>
      (\<forall>x. target_ok io x \<longrightarrow> cur d' x = write_image ws (cur d) x)
    else crash_safe io (poss d') img \<and> (tx_closing t' \<or> tx_dead io (poss d') img t')"
  using assms
proof (induction t ws d arbitrary: t' d' ok rule: stx_writes.induct)
  case (1 t d)
  then show ?case by auto
next
  case (2 t w ws d)
  show ?case
  proof (cases "tx_closing t")
    case True
    then show ?thesis using "2.prems" log_core_safe by (auto simp: stx_write_def)
  next
    case False
    then have op: "tx_open io (poss d) img t" using "2.prems" by (simp add: tx_open_def)
    obtain t1 d1 ok1 where w: "stx_write t (fst w) (Some (snd w)) d = (t1, d1, ok1)"
      by (metis prod_cases3)
    note wo = write_outcome[OF w op]
    show ?thesis
    proof (cases ok1)
      case False
      then show ?thesis using "2.prems"(1) w wo by (auto simp: tx_dead_def log_weak_def)
    next
      case True
      then have o1: "tx_open io (poss d1) img t1"
        and c1: "\<forall>x. target_ok io x \<longrightarrow> cur d1 x = ((cur d)(fst w := snd w)) x"
        using wo by auto
      have r: "stx_writes t1 ws d1 = (t', d', ok)" using "2.prems"(1) w True by simp
      have im: "\<forall>x. target_ok io x \<longrightarrow>
          write_image ws (cur d1) x = write_image ws ((cur d)(fst w := snd w)) x"
        using write_image_cong[of "target_ok io" "cur d1" "(cur d)(fst w := snd w)"] c1 by blast
      from "2.IH"[OF w[symmetric] refl True r] o1 have
        "if ok then tx_io t' = io \<and> tx_active t' \<and> \<not> tx_failed t' \<and>
          log_core io (tx_undo t') (poss d') img \<and>
          (\<forall>x. target_ok io x \<longrightarrow> cur d' x = write_image ws (cur d1) x)
        else crash_safe io (poss d') img \<and> (tx_closing t' \<or> tx_dead io (poss d') img t')"
        by (simp add: tx_open_def)
      then show ?thesis using im by auto
    qed
  qed
qed

lemma dead_abort:
  assumes "tx_closing t \<or> tx_dead io (poss d) img t" "stx_abort t d = (t', d', ok)"
    "crash_safe io (poss d) img"
  shows "crash_safe io (poss d') img"
proof (cases "tx_closing t")
  case True
  then show ?thesis using assms by (simp add: stx_abort_def)
next
  case False
  then show ?thesis
    using assms abort_outcome[OF assms(2), of img] by (auto simp: tx_dead_def)
qed

text \<open>
  The atomicity of a transaction: whatever the device does and wherever the power
  is cut, the disk recovers to the old image or to the new one; a transaction that
  reports success is durable.
\<close>

lemma transact_outcome:
  assumes tr: "stx_transact t io ws d = (t', d', ok)" and st: "\<And>x. poss d x \<subseteq> {cur d x}"
    and rt: "recovers_to io (cur d) img" and D: "\<forall>x. D x \<in> poss d' x"
  shows "if ok then D (io_journal io) = header_sector io [] False \<and>
      (\<forall>x. target_ok io x \<longrightarrow> D x = write_image ws img x)
    else recovers_to io D img \<or> recovers_to io D (write_image ws img)"
proof -
  obtain t1 d1 ok1 where b: "stx_begin t io d = (t1, d1, ok1)" by (metis prod_cases3)
  note bo = begin_outcome[OF b st rt]
  show ?thesis
  proof (cases ok1)
    case False
    then show ?thesis using tr b bo D by (auto simp: stx_transact_def crash_safe_def)
  next
    case o1: True
    obtain t2 d2 ok2 where w: "stx_writes t1 ws d1 = (t2, d2, ok2)" by (metis prod_cases3)
    have t1: "tx_io t1 = io" "tx_active t1" "\<not> tx_failed t1" "log_core io (tx_undo t1) (poss d1) img"
      and c1: "\<forall>x. target_ok io x \<longrightarrow> cur d1 x = img x"
      using bo o1 by auto
    note wo = writes_outcome[OF w t1]
    have f: "stx_finish t2 ok2 d2 = (t', d', ok)"
      using tr b o1 w by (simp add: stx_transact_def)
    show ?thesis
    proof (cases ok2)
      case False
      obtain t3 d3 ok3 where a: "stx_abort t2 d2 = (t3, d3, ok3)" by (metis prod_cases3)
      have "crash_safe io (poss d3) img" using dead_abort[OF _ a] wo False by simp
      then show ?thesis using f False a D by (auto simp: stx_finish_def crash_safe_def)
    next
      case o2: True
      have im: "\<forall>x. target_ok io x \<longrightarrow> cur d2 x = write_image ws img x"
        using wo o2 c1 write_image_cong[of "target_ok io" "cur d1" img] by simp
      obtain t3 d3 ok3 where c: "stx_commit t2 d2 = (t3, d3, ok3)" by (metis prod_cases3)
      note co = commit_outcome[OF c, of img]
      have t2: "tx_io t2 = io" "tx_active t2" "\<not> tx_failed t2" "log_core io (tx_undo t2) (poss d2) img"
        using wo o2 by auto
      note co = commit_outcome[OF c t2]
      show ?thesis
      proof (cases ok3)
        case True
        then have "log_settled io (poss d') (cur d2)" and "ok"
          using co f o2 c by (auto simp: stx_finish_def)
        then show ?thesis using D im unfolding log_settled_def by (auto simp: subset_iff)
      next
        case False
        obtain t4 d4 ok4 where a: "stx_abort t3 d3 = (t4, d4, ok4)" by (metis prod_cases3)
        have fin: "d' = d4" "\<not> ok" using f o2 c False a by (auto simp: stx_finish_def)
        show ?thesis
        proof (cases "tx_closing t3")
          case True
          then have "d4 = d3" using a by (simp add: stx_abort_def)
          then show ?thesis
            using co fin D recovers_to_cong[OF im] by auto
        next
          case nc: False
          then have "tx_dead io (poss d3) img t3" using co False by simp
          moreover from this have "crash_safe io (poss d3) img"
            by (simp add: tx_dead_def log_weak_def)
          ultimately have "crash_safe io (poss d4) img" using dead_abort[OF _ a] by blast
          then show ?thesis using fin D by (simp add: crash_safe_def)
        qed
      qed
    qed
  qed
qed

end

text \<open>
  Devices on which I/O inside the configured extents succeeds while they are healthy:
  there recovery and transactions succeed, and not only leave the disk recoverable.
\<close>

locale healthy_log = durable_log io cur poss
  for io :: "'d stx_io" and cur :: "'d \<Rightarrow> u32 \<Rightarrow> sector" and poss :: "'d \<Rightarrow> u32 \<Rightarrow> sector set" +
  fixes healthy :: "'d \<Rightarrow> bool"
  assumes healthy_rd: "healthy d \<Longrightarrow> \<exists>d'. io_read io d x = (d', Some (cur d x)) \<and> healthy d'"
    and healthy_wr: "healthy d \<Longrightarrow> \<exists>d'. io_write io d x b = (d', True) \<and> healthy d'"
    and healthy_sy: "healthy d \<Longrightarrow> \<exists>d'. io_sync io d = (d', True) \<and> healthy d'"
begin

lemma healthy_header:
  assumes "healthy d" "tx_io t = io"
  shows "\<exists>d'. stx_header t a d = (d', True) \<and> healthy d'"
proof -
  obtain d1 where w: "io_write io d (io_journal io) (header_sector io (tx_undo t) a) = (d1, True)"
    "healthy d1" using healthy_wr[OF assms(1)] by blast
  obtain d2 where "io_sync io d1 = (d2, True)" "healthy d2" using healthy_sy[OF w(2)] by blast
  then show ?thesis using w assms(2) by (simp add: stx_header_def write_sector_def barrier_def)
qed

lemma healthy_undo_writes:
  "healthy d \<Longrightarrow> tx_io t = io \<Longrightarrow> \<exists>d'. undo_writes t us d = (d', True) \<and> healthy d'"
proof (induction us arbitrary: d)
  case (Cons u us)
  obtain d1 where w: "io_write io d (u_lba u) (u_old u) = (d1, True)" "healthy d1"
    using healthy_wr[OF Cons.prems(1)] by blast
  then show ?case using Cons.IH[OF w(2) Cons.prems(2)] Cons.prems(2) by (simp add: write_sector_def)
qed simp

lemma healthy_abort:
  assumes "healthy d" "tx_io t = io" "tx_active t" "\<not> tx_closing t"
  shows "\<exists>t' d'. stx_abort t d = (t', d', True) \<and> healthy d'"
proof -
  obtain d1 where u: "undo_writes t (rev (tx_undo t)) d = (d1, True)" "healthy d1"
    using healthy_undo_writes[OF assms(1,2)] by blast
  obtain d2 where y: "io_sync io d1 = (d2, True)" "healthy d2" using healthy_sy[OF u(2)] by blast
  have "tx_io (t\<lparr>tx_closing := True\<rparr>) = io" using assms(2) by simp
  then obtain d3 where "stx_header (t\<lparr>tx_closing := True\<rparr>) False d2 = (d3, True)" "healthy d3"
    using healthy_header[OF y(2)] by blast
  then show ?thesis using assms u y durable by (simp add: stx_abort_def barrier_def)
qed

lemma healthy_load_undos:
  assumes "healthy d" "length us = i + k" "undo_ok io us" "backups_on io us (cur d)"
  shows "\<exists>d'. load_undos io (header_sector io us True) k i (take i us) d = (us, d', True) \<and> healthy d'"
  using assms
proof (induction k arbitrary: i d)
  case 0
  then show ?case by simp
next
  case (Suc k)
  have i: "i < length us" "length us \<le> 48" using Suc.prems by (auto simp: undo_ok_def)
  note e = header_sector_entry[OF i, of io]
  obtain d1 where rd: "io_read io d (slot i) = (d1, Some (cur d (slot i)))" "healthy d1"
    using healthy_rd[OF Suc.prems(1)] by blast
  have s: "cur d (slot i) = u_old (us ! i)" using Suc.prems(4) i by (simp add: backups_on_def)
  have m: "us ! i \<in> set us" using i by simp
  have nd: "u_lba (us ! i) \<notin> u_lba ` set (take i us)"
    using Suc.prems(3) i unfolding undo_ok_def
    by (auto simp: distinct_conv_nth in_set_conv_nth)
  have chk: "target_ok io (u_lba (us ! i))" "u_crc (us ! i) = stx_crc32 (u_old (us ! i))"
    using Suc.prems(3) m by (auto simp: undo_ok_def)
  have "\<lparr>u_lba = u_lba (us ! i), u_crc = stx_crc32 (u_old (us ! i)), u_old = u_old (us ! i)\<rparr> = us ! i"
    using chk(2) by simp
  then have nx: "take i us @ [\<lparr>u_lba = u_lba (us ! i), u_crc = stx_crc32 (u_old (us ! i)),
      u_old = u_old (us ! i)\<rparr>] = take (Suc i) us"
    using i by (simp only: take_Suc_conv_app_nth)
  have "backups_on io us (cur d1)" using Suc.prems(4) rd_same[OF rd(1)] by simp
  then obtain d' where "load_undos io (header_sector io us True) k (Suc i) (take (Suc i) us) d1 = (us, d', True)"
    "healthy d'" using Suc.IH[OF rd(2), of "Suc i"] Suc.prems(2,3) by auto
  then show ?case using rd(1) e s nd chk nx by (simp add: Let_def)
qed

lemma healthy_load:
  assumes "healthy d" "recovers_to io (cur d) img"
  shows "\<exists>t' d'. stx_load t io d = (t', d', True) \<and> healthy d' \<and> tx_io t' = io \<and> \<not> tx_closing t'"
proof -
  obtain d1 where rd: "io_read io d (io_journal io) = (d1, Some (cur d (io_journal io)))" "healthy d1"
    using healthy_rd[OF assms(1)] by blast
  from assms(2) consider (clean) "cur d (io_journal io) = header_sector io [] False"
    | (act) us where "cur d (io_journal io) = header_sector io us True" "undo_ok io us"
      "backups_on io us (cur d)"
    by (auto simp: recovers_to_def)
  then show ?thesis
  proof cases
    case clean
    then show ?thesis using rd config durable header_ok_sector[of "[]" io False]
      by (simp add: stx_load_def header_sector_count stx_fresh_def)
  next
    case act
    have len: "length us \<le> 48" using act(2) by (simp add: undo_ok_def)
    have "backups_on io us (cur d1)" using act(3) rd_same[OF rd(1)] by simp
    then obtain d2 where "load_undos io (header_sector io us True) (length us) 0 [] d1 = (us, d2, True)"
      "healthy d2" using healthy_load_undos[OF rd(2), of us 0] act(2) by auto
    then show ?thesis using rd config durable act(1) header_ok_sector[OF len, of io True] len
      by (simp add: stx_load_def header_sector_count stx_fresh_def unat_of_nat_u32)
  qed
qed

lemma healthy_recover:
  assumes "healthy d" "recovers_to io (cur d) img"
  shows "\<exists>t' d'. stx_recover t io d = (t', d', True) \<and> healthy d'"
proof -
  obtain t1 d1 where l: "stx_load t io d = (t1, d1, True)" "healthy d1" "tx_io t1 = io" "\<not> tx_closing t1"
    using healthy_load[OF assms] by blast
  show ?thesis using l healthy_abort[OF l(2,3) _ l(4)] by (simp add: stx_recover_def)
qed

lemma healthy_begin:
  assumes "healthy d" "\<And>x. poss d x \<subseteq> {cur d x}" "recovers_to io (cur d) img"
  shows "\<exists>t' d'. stx_begin t io d = (t', d', True) \<and> healthy d'"
proof -
  obtain t1 d1 where r: "stx_recover t io d = (t1, d1, True)" "healthy d1"
    using healthy_recover[OF assms(1,3)] by blast
  have "tx_io (t1\<lparr>tx_active := True\<rparr>) = io" using recover_outcome[OF r(1) assms(2,3)] by simp
  then obtain d2 where "stx_header (t1\<lparr>tx_active := True\<rparr>) True d1 = (d2, True)" "healthy d2"
    using healthy_header[OF r(2)] by blast
  then show ?thesis using r durable by (simp add: stx_begin_def Let_def)
qed

lemma healthy_backup:
  assumes "healthy d" "tx_io t = io" "length (tx_undo t) < 48"
  shows "\<exists>t' d'. stx_backup t lba d = (t', d', True) \<and> healthy d' \<and>
    u_lba ` set (tx_undo t') = insert lba (u_lba ` set (tx_undo t))"
proof -
  obtain d1 where rd: "io_read io d lba = (d1, Some (cur d lba))" "healthy d1"
    using healthy_rd[OF assms(1)] by blast
  define t1 where "t1 = t\<lparr>tx_undo := tx_undo t @
      [\<lparr>u_lba = lba, u_crc = stx_crc32 (cur d lba), u_old = cur d lba\<rparr>]\<rparr>"
  have t1: "tx_io t1 = io" "u_lba ` set (tx_undo t1) = insert lba (u_lba ` set (tx_undo t))"
    using assms(2) by (auto simp: t1_def)
  obtain d2 where w: "io_write io d1 (slot (length (tx_undo t))) (cur d lba) = (d2, True)" "healthy d2"
    using healthy_wr[OF rd(2)] by blast
  obtain d3 where y: "io_sync io d2 = (d3, True)" "healthy d3" using healthy_sy[OF w(2)] by blast
  obtain d4 where h: "stx_header t1 True d3 = (d4, True)" "healthy d4"
    using healthy_header[OF y(2) t1(1)] by blast
  have "stx_backup t lba d = (t1, d4, True)"
    using assms(2,3) rd w y h durable t1(1)
    by (simp add: stx_backup_def Let_def t1_def write_sector_def barrier_def)
  then show ?thesis using h(2) t1(2) by blast
qed

lemma healthy_write:
  assumes "healthy d" "tx_open io (poss d) img t" "target_ok io lba"
    "card (insert lba (u_lba ` set (tx_undo t))) \<le> 48"
  shows "\<exists>t' d'. stx_write t lba (Some b) d = (t', d', True) \<and> healthy d' \<and>
    tx_open io (poss d') img t' \<and> u_lba ` set (tx_undo t') = insert lba (u_lba ` set (tx_undo t))"
proof -
  have t: "tx_io t = io" "tx_active t" "\<not> tx_failed t" "\<not> tx_closing t"
    and dis: "distinct (map u_lba (tx_undo t))"
    using assms(2) by (auto simp: tx_open_def log_core_def log_table_def undo_ok_def)
  obtain t1 d1 where p: "(if lba \<in> set (map u_lba (tx_undo t)) then (t, d, True)
      else stx_backup t lba d) = (t1, d1, True)" "healthy d1"
    "u_lba ` set (tx_undo t1) = insert lba (u_lba ` set (tx_undo t))"
  proof (cases "lba \<in> set (map u_lba (tx_undo t))")
    case True
    then show ?thesis using that[of t d] assms(1) by auto
  next
    case False
    have "card (u_lba ` set (tx_undo t)) = length (tx_undo t)"
      using dis distinct_card[of "map u_lba (tx_undo t)"] by simp
    then have "length (tx_undo t) < 48" using assms(4) False by simp
    then show ?thesis using healthy_backup[OF assms(1) t(1), of lba] that False by auto
  qed
  have io1: "tx_io t1 = io"
    using p(1) backup_outcome[of t lba d t1 d1 True img] assms(2,3) t(1)
    by (auto simp: tx_open_def split: if_splits)
  obtain d2 where w: "io_write io d1 lba b = (d2, True)" "healthy d2"
    using healthy_wr[OF p(2)] by blast
  have W: "stx_write t lba (Some b) d = (t1, d2, True)"
    using t assms(3) p(1) io1 w by (simp add: stx_write_def write_sector_def)
  show ?thesis using W w(2) p(3) write_outcome[OF W assms(2)] by auto
qed

lemma healthy_writes:
  assumes "healthy d" "tx_open io (poss d) img t" "\<forall>w \<in> set ws. target_ok io (fst w)"
    "card (u_lba ` set (tx_undo t) \<union> fst ` set ws) \<le> 48"
  shows "\<exists>t' d'. stx_writes t ws d = (t', d', True) \<and> healthy d' \<and> tx_open io (poss d') img t'"
  using assms
proof (induction ws arbitrary: t d)
  case Nil
  then show ?case by simp
next
  case (Cons w ws)
  have c: "card (insert (fst w) (u_lba ` set (tx_undo t))) \<le> 48"
    using Cons.prems(4) by (rule le_trans[OF card_mono, rotated 2]) auto
  obtain t1 d1 where s: "stx_write t (fst w) (Some (snd w)) d = (t1, d1, True)" "healthy d1"
    "tx_open io (poss d1) img t1" "u_lba ` set (tx_undo t1) = insert (fst w) (u_lba ` set (tx_undo t))"
    using healthy_write[OF Cons.prems(1,2) _ c, of "snd w"] Cons.prems(3) by auto
  show ?case using Cons.IH[OF s(2,3)] Cons.prems(3,4) s(1,4) by simp
qed

lemma healthy_transact:
  assumes "healthy d" "\<And>x. poss d x \<subseteq> {cur d x}" "cur d (io_journal io) = header_sector io [] False"
    and "\<forall>w \<in> set ws. target_ok io (fst w)" "card (fst ` set ws) \<le> 48"
  shows "\<exists>t' d'. stx_transact t io ws d = (t', d', True)"
proof -
  have rt: "recovers_to io (cur d) (cur d)" using assms(3) by (simp add: recovers_to_def)
  obtain t1 d1 where l: "stx_load t io d = (t1, d1, True)" "healthy d1"
    using healthy_load[OF assms(1) rt] by blast
  have t1: "t1 = stx_fresh io" using load_clean[OF l(1) assms(3)] .
  have r: "stx_recover t io d = (t1, d1, True)"
    using l(1) t1 by (simp add: stx_recover_def stx_fresh_def)
  define t2 where "t2 = t1\<lparr>tx_active := True\<rparr>"
  have t2: "tx_io t2 = io" "\<not> tx_closing t2" using t1 by (simp_all add: t2_def stx_fresh_def)
  obtain d2 where h: "stx_header t2 True d1 = (d2, True)" "healthy d2"
    using healthy_header[OF l(2) t2(1)] by blast
  have b: "stx_begin t io d = (t2, d2, True)"
    using r h durable by (simp add: stx_begin_def Let_def t2_def)
  have op: "tx_open io (poss d2) (cur d) t2"
    using begin_outcome[OF b assms(2) rt] t2(2) by (simp add: tx_open_def)
  have u2: "tx_undo t2 = []" using t1 by (simp add: t2_def stx_fresh_def)
  obtain t3 d3 where w: "stx_writes t2 ws d2 = (t3, d3, True)" "healthy d3"
    "tx_open io (poss d3) (cur d) t3"
    using healthy_writes[OF h(2) op assms(4)] assms(5) u2 by auto
  obtain d4 where y: "io_sync io d3 = (d4, True)" "healthy d4" using healthy_sy[OF w(2)] by blast
  have t3: "tx_io t3 = io" "tx_active t3" "\<not> tx_failed t3" using w(3) by (auto simp: tx_open_def)
  then have "tx_io (t3\<lparr>tx_closing := True\<rparr>) = io" by simp
  then obtain d5 where "stx_header (t3\<lparr>tx_closing := True\<rparr>) False d4 = (d5, True)"
    using healthy_header[OF y(2)] by blast
  then have "stx_commit t3 d3 = (t3\<lparr>tx_closing := True, tx_active := False, tx_undo := []\<rparr>, d5, True)"
    using t3 y(1) durable by (simp add: stx_commit_def barrier_def)
  then show ?thesis using b w(1) by (simp add: stx_transact_def stx_finish_def)
qed

end

end
