(* ===== verification/Crash_Disk.thy ===== *)
theory Crash_Disk
  imports Sector_Tx_Crash
begin

text \<open>
  A disk with a volatile write cache and a fault plan, the environment of
  \<^verbatim>\<open>tests/mcc/test_sector_tx.c\<close>: writes reach the medium only at a barrier, or at a
  crash in any subset and order; each operation may fail without effect, fail
  after taking effect, or find the power cut for good. It interprets the device
  locales, so that the theorems about the undo log hold for every fault plan and
  every crash image.
\<close>

datatype io_fault = NoFault | Lost | Late | Cut

record cdisk =
  cd_media :: "u32 \<Rightarrow> sector"
  cd_cache :: "(u32 \<times> sector) list"
  cd_plan :: "io_fault list"

definition cd_cur :: "cdisk \<Rightarrow> u32 \<Rightarrow> sector" where
  "cd_cur d x = (case map_of (cd_cache d) x of Some b \<Rightarrow> b | None \<Rightarrow> cd_media d x)"

definition cd_poss :: "cdisk \<Rightarrow> u32 \<Rightarrow> sector set" where
  "cd_poss d x = insert (cd_media d x) {b. (x, b) \<in> set (cd_cache d)}"

definition cd_fault :: "cdisk \<Rightarrow> io_fault \<times> cdisk" where
  "cd_fault d = (case cd_plan d of
     [] \<Rightarrow> (NoFault, d)
   | Cut # fs \<Rightarrow> (Cut, d)
   | f # fs \<Rightarrow> (f, d\<lparr>cd_plan := fs\<rparr>))"

definition cd_read :: "cdisk \<Rightarrow> u32 \<Rightarrow> cdisk \<times> sector option" where
  "cd_read d x = (case cd_fault d of
     (NoFault, d') \<Rightarrow> (d', Some (cd_cur d' x)) | (f, d') \<Rightarrow> (d', None))"

definition cd_write :: "cdisk \<Rightarrow> u32 \<Rightarrow> sector \<Rightarrow> cdisk \<times> bool" where
  "cd_write d x b = (case cd_fault d of
     (NoFault, d') \<Rightarrow> (d'\<lparr>cd_cache := (x, b) # cd_cache d'\<rparr>, True)
   | (Late, d') \<Rightarrow> (d'\<lparr>cd_cache := (x, b) # cd_cache d'\<rparr>, False)
   | (f, d') \<Rightarrow> (d', False))"

definition cd_flush :: "cdisk \<Rightarrow> cdisk" where
  "cd_flush d = d\<lparr>cd_media := cd_cur d, cd_cache := []\<rparr>"

definition cd_sync :: "cdisk \<Rightarrow> cdisk \<times> bool" where
  "cd_sync d = (case cd_fault d of
     (NoFault, d') \<Rightarrow> (cd_flush d', True)
   | (Late, d') \<Rightarrow> (cd_flush d', False)
   | (f, d') \<Rightarrow> (d', False))"

text \<open>A disk after power-up: what the crash left is on the medium, nothing is cached.\<close>

definition cd_boot :: "(u32 \<Rightarrow> sector) \<Rightarrow> io_fault list \<Rightarrow> cdisk" where
  "cd_boot D fs = \<lparr>cd_media = D, cd_cache = [], cd_plan = fs\<rparr>"

definition cd_leaves :: "cdisk \<Rightarrow> (u32 \<Rightarrow> sector) \<Rightarrow> bool" where
  "cd_leaves d D \<longleftrightarrow> (\<forall>x. D x \<in> cd_poss d x)"

definition cd_io :: "u32 \<Rightarrow> u32 \<Rightarrow> u32 \<Rightarrow> u32 \<Rightarrow> u32 \<Rightarrow> cdisk stx_io" where
  "cd_io first count journal jcount ident =
     \<lparr>io_read = cd_read, io_write = cd_write, io_sync = cd_sync, io_first = first,
      io_count = count, io_journal = journal, io_journal_count = jcount, io_identity = ident\<rparr>"

lemma cd_io_simps [simp]:
  "io_read (cd_io f c j jc i) = cd_read" "io_write (cd_io f c j jc i) = cd_write"
  "io_sync (cd_io f c j jc i) = cd_sync" "io_first (cd_io f c j jc i) = f"
  "io_count (cd_io f c j jc i) = c" "io_journal (cd_io f c j jc i) = j"
  "io_journal_count (cd_io f c j jc i) = jc" "io_identity (cd_io f c j jc i) = i"
  by (simp_all add: cd_io_def)

lemma cd_fault_same:
  "cd_media (snd (cd_fault d)) = cd_media d \<and> cd_cache (snd (cd_fault d)) = cd_cache d"
  by (auto simp: cd_fault_def split: list.splits io_fault.splits)

lemma cd_fault_cases:
  obtains f d' where "cd_fault d = (f, d')" "cd_media d' = cd_media d" "cd_cache d' = cd_cache d"
  using cd_fault_same[of d] by (metis surjective_pairing)

lemma cd_cur_same: "cd_media d' = cd_media d \<Longrightarrow> cd_cache d' = cd_cache d \<Longrightarrow> cd_cur d' = cd_cur d"
  by (rule ext) (simp add: cd_cur_def split: option.split)

lemma cd_poss_same: "cd_media d' = cd_media d \<Longrightarrow> cd_cache d' = cd_cache d \<Longrightarrow> cd_poss d' = cd_poss d"
  by (simp add: cd_poss_def fun_eq_iff)

lemma cd_read_cases:
  assumes "cd_read d x = (d', r)"
  shows "cd_cur d' = cd_cur d \<and> cd_poss d' = cd_poss d \<and> (r = None \<or> r = Some (cd_cur d x))"
proof -
  obtain f d0 where f: "cd_fault d = (f, d0)" "cd_media d0 = cd_media d" "cd_cache d0 = cd_cache d"
    by (rule cd_fault_cases)
  show ?thesis using assms f cd_cur_same[OF f(2,3)] cd_poss_same[OF f(2,3)]
    by (cases f) (auto simp: cd_read_def)
qed

lemma cd_write_cases:
  assumes "cd_write d x b = (d', ok)"
  shows "(cd_media d' = cd_media d \<and> cd_cache d' = (x, b) # cd_cache d) \<or>
    (\<not> ok \<and> cd_media d' = cd_media d \<and> cd_cache d' = cd_cache d)"
proof -
  obtain f d0 where f: "cd_fault d = (f, d0)" "cd_media d0 = cd_media d" "cd_cache d0 = cd_cache d"
    by (rule cd_fault_cases)
  show ?thesis using assms f by (cases f) (auto simp: cd_write_def)
qed

lemma cd_sync_cases:
  assumes "cd_sync d = (d', ok)"
  shows "(cd_media d' = cd_cur d \<and> cd_cache d' = []) \<or>
    (\<not> ok \<and> cd_media d' = cd_media d \<and> cd_cache d' = cd_cache d)"
proof -
  obtain f d0 where f: "cd_fault d = (f, d0)" "cd_media d0 = cd_media d" "cd_cache d0 = cd_cache d"
    by (rule cd_fault_cases)
  show ?thesis using assms f cd_cur_same[OF f(2,3)]
    by (cases f) (auto simp: cd_sync_def cd_flush_def)
qed

lemma cd_cur_in_poss: "cd_cur d y \<in> cd_poss d y"
  by (auto simp: cd_cur_def cd_poss_def dest: map_of_SomeD split: option.splits)

lemma crash_device_cd: "crash_device (cd_io f c j jc i) cd_cur cd_poss"
proof unfold_locales
  fix d x d' r assume "io_read (cd_io f c j jc i) d x = (d', r)"
  then show "cd_cur d' = cd_cur d \<and> cd_poss d' = cd_poss d"
    using cd_read_cases by auto
next
  fix d x d' b assume "io_read (cd_io f c j jc i) d x = (d', Some b)"
  then show "b = cd_cur d x" using cd_read_cases by auto
next
  fix d x b d' ok y assume "io_write (cd_io f c j jc i) d x b = (d', ok)" "y \<noteq> x"
  then show "cd_cur d' y = cd_cur d y \<and> cd_poss d' y \<subseteq> cd_poss d y"
    using cd_write_cases[of d x b d' ok]
    by (auto simp: cd_cur_def cd_poss_def split: option.splits)
next
  fix d x b d' ok assume "io_write (cd_io f c j jc i) d x b = (d', ok)"
  then show "cd_poss d' x \<subseteq> insert b (cd_poss d x)"
    using cd_write_cases[of d x b d' ok] by (auto simp: cd_poss_def)
next
  fix d x b d' assume "io_write (cd_io f c j jc i) d x b = (d', True)"
  then show "cd_cur d' x = b"
    using cd_write_cases[of d x b d' True] by (auto simp: cd_cur_def)
next
  fix d d' ok y assume s: "io_sync (cd_io f c j jc i) d = (d', ok)"
  then consider "cd_media d' = cd_cur d" "cd_cache d' = []"
    | "cd_media d' = cd_media d" "cd_cache d' = cd_cache d"
    using cd_sync_cases[of d d' ok] by auto
  then have "cd_cur d' = cd_cur d"
  proof cases
    case 1
    then show ?thesis by (intro ext) (simp add: cd_cur_def[of d'])
  next
    case 2
    then show ?thesis by (rule cd_cur_same)
  qed
  moreover have "cd_poss d' y \<subseteq> cd_poss d y"
    using s cd_sync_cases[of d d' ok] cd_cur_in_poss[of d y] by (auto simp: cd_poss_def)
  ultimately show "cd_cur d' = cd_cur d \<and> cd_poss d' y \<subseteq> cd_poss d y" ..
next
  fix d d' y assume "io_sync (cd_io f c j jc i) d = (d', True)"
  then show "cd_poss d' y \<subseteq> {cd_cur d' y}"
    using cd_sync_cases[of d d' True] by (auto simp: cd_poss_def cd_cur_def)
next
  fix d y show "cd_cur d y \<in> cd_poss d y" by (rule cd_cur_in_poss)
qed

text \<open>The layout the tests of the repository use: targets 1..64, journal at 100.\<close>

definition test_io :: "cdisk stx_io" where
  "test_io = cd_io 1 64 100 49 0x12345678"

interpretation cd: crash_device test_io cd_cur cd_poss
  unfolding test_io_def by (rule crash_device_cd)

lemma durable_log_cd:
  assumes "config_ok (cd_io f c j jc i)" "jc \<noteq> 0"
  shows "durable_log (cd_io f c j jc i) cd_cur cd_poss"
  using crash_device_cd assms by (simp add: durable_log_def durable_log_axioms_def)

lemma test_config: "config_ok test_io"
  by (simp add: test_io_def config_ok_def)

interpretation cd_log: durable_log test_io cd_cur cd_poss
  unfolding test_io_def
  by (rule durable_log_cd) (use test_config in \<open>simp_all add: test_io_def\<close>)

lemma healthy_log_cd:
  assumes "config_ok (cd_io f c j jc i)" "jc \<noteq> 0"
  shows "healthy_log (cd_io f c j jc i) cd_cur cd_poss (\<lambda>d. cd_plan d = [])"
  unfolding healthy_log_def healthy_log_axioms_def
proof (intro conjI allI impI)
  show "durable_log (cd_io f c j jc i) cd_cur cd_poss" by (rule durable_log_cd[OF assms])
qed (simp_all add: cd_read_def cd_write_def cd_sync_def cd_fault_def cd_flush_def)

interpretation cd_healthy: healthy_log test_io cd_cur cd_poss "\<lambda>d. cd_plan d = []"
  unfolding test_io_def
  by (rule healthy_log_cd) (use test_config in \<open>simp_all add: test_io_def\<close>)

section \<open>Properties\<close>

lemma boot_stable: "cd_poss (cd_boot D fs) x \<subseteq> {cd_cur (cd_boot D fs) x}"
  by (simp add: cd_boot_def cd_poss_def cd_cur_def)

lemma boot_cur [simp]: "cd_cur (cd_boot D fs) = D"
  by (rule ext) (simp add: cd_boot_def cd_cur_def)

lemma boot_plan [simp]: "cd_plan (cd_boot D fs) = fs"
  by (simp add: cd_boot_def)

lemma leaves_cur: "cd_leaves d (cd_cur d)"
  by (simp add: cd_leaves_def cd_cur_in_poss)

definition test_disk :: "u32 \<Rightarrow> sector" where
  "test_disk x = (if x = 100 then header_sector test_io [] False else replicate 512 (ucast x))"

lemma test_disk_clean: "test_disk (io_journal test_io) = header_sector test_io [] False"
  by (simp add: test_disk_def test_io_def)

lemma test_disk_recovers: "recovers_to test_io test_disk test_disk"
  by (simp add: recovers_to_def test_disk_clean)

text \<open>C1. Atomicity of the undo log (\<^verbatim>\<open>stx_begin\<close>, \<^verbatim>\<open>stx_write\<close>, \<^verbatim>\<open>stx_commit\<close>,
  \<^verbatim>\<open>stx_abort\<close>): run a transaction on a disk that recovers to the image \<open>img\<close>, under any
  plan of failing operations and power cuts. Whatever subset of the cached writes
  the crash leaves on the medium, a transaction that reported success is entirely
  on the medium with a clean journal, and otherwise the medium recovers to the old
  image or to the new one, never to a mixture.\<close>

theorem stx_transaction_atomic:
  assumes "config_ok (cd_io f c j jc ident)" "jc \<noteq> 0"
    and "recovers_to (cd_io f c j jc ident) D0 img"
    and "stx_transact t (cd_io f c j jc ident) ws (cd_boot D0 plan) = (t', d', ok)"
    and "cd_leaves d' D"
  shows "if ok then D j = header_sector (cd_io f c j jc ident) [] False \<and>
      (\<forall>x. target_ok (cd_io f c j jc ident) x \<longrightarrow> D x = write_image ws img x)
    else recovers_to (cd_io f c j jc ident) D img \<or>
      recovers_to (cd_io f c j jc ident) D (write_image ws img)"
  using durable_log.transact_outcome[OF durable_log_cd[OF assms(1,2)] assms(4) boot_stable]
    assms(3,5) by (simp add: cd_leaves_def)

theorem stx_transaction_atomic_witness:
  "\<exists>t' d' ok. stx_transact (stx_fresh test_io) test_io [(5, replicate 512 1)]
      (cd_boot test_disk [NoFault, NoFault, NoFault, Cut]) = (t', d', ok) \<and> cd_leaves d' (cd_cur d') \<and>
    (if ok then cd_cur d' 100 = header_sector test_io [] False \<and>
      (\<forall>x. target_ok test_io x \<longrightarrow>
        cd_cur d' x = write_image [(5, replicate 512 1)] test_disk x)
     else recovers_to test_io (cd_cur d') test_disk \<or>
      recovers_to test_io (cd_cur d') (write_image [(5, replicate 512 1)] test_disk))"
proof -
  obtain t' d' ok where r: "stx_transact (stx_fresh test_io) test_io [(5, replicate 512 1)]
      (cd_boot test_disk [NoFault, NoFault, NoFault, Cut]) = (t', d', ok)" by (metis prod_cases3)
  show ?thesis
    using stx_transaction_atomic[where f = 1 and c = 64 and j = 100 and jc = 49 and ident = "0x12345678",
        folded test_io_def, OF test_config _ test_disk_recovers r leaves_cur] r leaves_cur
    by fastforce
qed

text \<open>C2. Recovery (\<^verbatim>\<open>stx_recover\<close>) is total and correct: on a disk that recovers to
  \<open>img\<close> and does no longer fail, it returns 0, closes the journal durably and leaves the
  target extent equal to \<open>img\<close>.\<close>

theorem stx_recover_restores:
  assumes "config_ok (cd_io f c j jc ident)" "jc \<noteq> 0"
    and "recovers_to (cd_io f c j jc ident) D img"
  shows "\<exists>t' d'. stx_recover t (cd_io f c j jc ident) (cd_boot D []) = (t', d', True) \<and>
    (\<forall>E. cd_leaves d' E \<longrightarrow> E j = header_sector (cd_io f c j jc ident) [] False \<and>
      (\<forall>x. target_ok (cd_io f c j jc ident) x \<longrightarrow> E x = img x))"
proof -
  let ?io = "cd_io f c j jc ident"
  have rt: "recovers_to ?io (cd_cur (cd_boot D [])) img" using assms(3) by simp
  obtain t' d' where r: "stx_recover t ?io (cd_boot D []) = (t', d', True)"
    using healthy_log.healthy_recover[OF healthy_log_cd[OF assms(1,2)] _ rt, of t]
    by (auto simp: cd_boot_def)
  have "log_settled ?io (cd_poss d') img"
    using durable_log.recover_outcome[OF durable_log_cd[OF assms(1,2)] r boot_stable rt] by simp
  then have "E j = header_sector ?io [] False \<and> (\<forall>x. target_ok ?io x \<longrightarrow> E x = img x)"
    if "cd_leaves d' E" for E
    using that by (auto simp: log_settled_def cd_leaves_def subset_iff)
  then show ?thesis using r by blast
qed

theorem stx_recover_restores_witness:
  "\<exists>t' d'. stx_recover (stx_fresh test_io) test_io (cd_boot test_disk []) = (t', d', True) \<and>
    (\<forall>E. cd_leaves d' E \<longrightarrow> E 100 = header_sector test_io [] False \<and>
      (\<forall>x. target_ok test_io x \<longrightarrow> E x = test_disk x))"
  using stx_recover_restores[where f = 1 and c = 64 and j = 100 and jc = 49 and ident = "0x12345678",
      folded test_io_def, OF test_config _ test_disk_recovers] by simp

text \<open>Interrupted recovery: a recovery that fails or loses power at any point leaves a
  disk that still recovers to the same image, so it can be repeated.\<close>

theorem stx_recover_repeatable:
  assumes "config_ok (cd_io f c j jc ident)" "jc \<noteq> 0"
    and "recovers_to (cd_io f c j jc ident) D img"
    and "stx_recover t (cd_io f c j jc ident) (cd_boot D plan) = (t', d', ok)"
    and "cd_leaves d' E"
  shows "recovers_to (cd_io f c j jc ident) E img"
  using durable_log.recover_outcome[OF durable_log_cd[OF assms(1,2)] assms(4) boot_stable, of img]
    assms(3,5) by (simp add: crash_safe_def cd_leaves_def)

theorem stx_recover_repeatable_witness:
  "\<exists>t' d' ok. stx_recover (stx_fresh test_io) test_io (cd_boot test_disk [Cut]) = (t', d', ok) \<and>
    recovers_to test_io (cd_cur d') test_disk"
proof -
  obtain t' d' ok where r: "stx_recover (stx_fresh test_io) test_io (cd_boot test_disk [Cut]) = (t', d', ok)"
    by (metis prod_cases3)
  show ?thesis
    using stx_recover_repeatable[where f = 1 and c = 64 and j = 100 and jc = 49 and ident = "0x12345678",
        folded test_io_def, OF test_config _ test_disk_recovers r leaves_cur] r by auto
qed

text \<open>C3. Success: on a clean journal and a disk that does not fail, a transaction over at
  most \<^verbatim>\<open>STX_MAX\<close> distinct target sectors succeeds, and whatever the power does after
  that, the disk holds a clean journal header and, on the target extent, exactly the old
  image with the writes applied in order.\<close>

theorem stx_transaction_succeeds:
  assumes "config_ok (cd_io f c j jc ident)" "jc \<noteq> 0"
    and "D j = header_sector (cd_io f c j jc ident) [] False"
    and "\<forall>w \<in> set ws. target_ok (cd_io f c j jc ident) (fst w)" "card (fst ` set ws) \<le> STX_MAX"
  shows "\<exists>t' d'. stx_transact t (cd_io f c j jc ident) ws (cd_boot D []) = (t', d', True) \<and>
    (\<forall>E. cd_leaves d' E \<longrightarrow> E j = header_sector (cd_io f c j jc ident) [] False \<and>
      (\<forall>x. target_ok (cd_io f c j jc ident) x \<longrightarrow> E x = write_image ws D x))"
proof -
  let ?io = "cd_io f c j jc ident"
  have "\<exists>t' d'. stx_transact t ?io ws (cd_boot D []) = (t', d', True)"
    using assms(3,4,5)
    by (intro healthy_log.healthy_transact[OF healthy_log_cd[OF assms(1,2)] _ boot_stable])
      (simp_all add: cd_boot_def cd_cur_def)
  then obtain t' d' where r: "stx_transact t ?io ws (cd_boot D []) = (t', d', True)" by blast
  have "recovers_to ?io D D" using assms(3) by (simp add: recovers_to_def)
  then have "E j = header_sector ?io [] False \<and> (\<forall>x. target_ok ?io x \<longrightarrow> E x = write_image ws D x)"
    if "cd_leaves d' E" for E
    using durable_log.transact_outcome[OF durable_log_cd[OF assms(1,2)] r boot_stable, of D E] that
    by (simp add: cd_leaves_def)
  then show ?thesis using r by blast
qed

theorem stx_transaction_succeeds_witness:
  "\<exists>t' d'. stx_transact (stx_fresh test_io) test_io [(5, replicate 512 1), (64, replicate 512 2)]
      (cd_boot test_disk []) = (t', d', True) \<and>
    (\<forall>E. cd_leaves d' E \<longrightarrow> E 100 = header_sector test_io [] False \<and>
      (\<forall>x. target_ok test_io x \<longrightarrow>
        E x = write_image [(5, replicate 512 1), (64, replicate 512 2)] test_disk x))"
proof -
  have w: "\<forall>w \<in> set [(5, replicate 512 1), (64, replicate 512 2 :: u8 list)]. target_ok test_io (fst w)"
    by (simp add: target_ok_def test_io_def)
  have c: "test_disk 100 = header_sector test_io [] False" by (simp add: test_disk_def)
  show ?thesis
    by (rule stx_transaction_succeeds[where f = 1 and c = 64 and j = 100 and jc = 49 and ident = "0x12345678"
        and D = test_disk, folded test_io_def, OF test_config _ c w]) simp_all
qed

text \<open>A begin that had to roll back an interrupted transaction returns 0 but leaves
  \<^verbatim>\<open>closing\<close> set: every \<^verbatim>\<open>stx_write\<close> of the transaction it opened is refused.\<close>

theorem stx_begin_after_rollback_refuses:
  assumes "config_ok (cd_io f c j jc ident)" "jc \<noteq> 0"
    and "D j = header_sector (cd_io f c j jc ident) us True"
    and "undo_ok (cd_io f c j jc ident) us" "backups_on (cd_io f c j jc ident) us D"
    and "stx_begin t (cd_io f c j jc ident) (cd_boot D plan) = (t', d', True)"
  shows "tx_active t' \<and> stx_write t' lba data d' = (t', d', False)"
proof -
  let ?io = "cd_io f c j jc ident"
  obtain t1 d1 ok1 where l: "stx_load t ?io (cd_boot D plan) = (t1, d1, ok1)" by (metis prod_cases3)
  have ok1: "ok1" using assms(6) l by (auto simp: stx_begin_def stx_recover_def split: bool.splits)
  have t1: "t1 = (stx_fresh ?io)\<lparr>tx_undo := us, tx_active := True\<rparr>"
    using durable_log.load_active[OF durable_log_cd[OF assms(1,2)], of t "cd_boot D plan" t1 d1 us]
      l ok1 assms(3-5) by simp
  obtain t2 d2 ok2 where a: "stx_abort t1 d1 = (t2, d2, ok2)" by (metis prod_cases3)
  have ok2: "ok2"
    using assms(6) l ok1 t1 a by (auto simp: stx_begin_def stx_recover_def split: bool.splits)
  have "tx_closing t2"
    using a ok2 t1 assms(2)
    by (auto simp: stx_abort_def stx_fresh_def split: prod.splits bool.splits if_splits)
  then show ?thesis
    using assms(2,6) l ok1 t1 a ok2
    by (auto simp: stx_begin_def stx_recover_def stx_write_def Let_def
        split: prod.splits bool.splits if_splits)
qed

theorem stx_begin_after_rollback_refuses_witness:
  "\<exists>t' d'. stx_begin (stx_fresh test_io) test_io
      (cd_boot (test_disk(100 := header_sector test_io [] True)) []) = (t', d', True) \<and>
    tx_active t' \<and> stx_write t' 5 (Some (replicate 512 1)) d' = (t', d', False)"
proof -
  let ?D = "test_disk(100 := header_sector test_io [] True)"
  have rt: "recovers_to test_io ?D test_disk"
    by (auto simp: recovers_to_def undo_ok_def backups_on_def undo_image_def test_io_def
        target_ok_def intro!: exI[of _ "[]"])
  obtain t' d' where b: "stx_begin (stx_fresh test_io) test_io (cd_boot ?D []) = (t', d', True)"
    using cd_healthy.healthy_begin[OF _ boot_stable, of ?D "[]" test_disk "stx_fresh test_io"] rt
    by auto
  show ?thesis
    using stx_begin_after_rollback_refuses[where f = 1 and c = 64 and j = 100 and jc = 49 and ident = "0x12345678"
        and us = "[]", folded test_io_def, OF test_config _ _ _ _ b] b
    by (auto simp: undo_ok_def backups_on_def)
qed

end
