(* ===== verification/Native_Name.thy ===== *)
theory Native_Name
  imports KV_Base
begin

text \<open>
  The rule for names in the flat native storages (\<^verbatim>\<open>include/native_name.h\<close>), the
  namespace generation that listings are checked against (\<^verbatim>\<open>vfs_namespace_changed\<close>
  of \<^verbatim>\<open>kernel/vfs.c\<close>), and their facts. A NULL pointer is \<open>None\<close>.
\<close>

definition bad_name_byte :: "u8 \<Rightarrow> bool" where
  "bad_name_byte c \<longleftrightarrow> c < 0x20 \<or> c = 127 \<or> c = 0x2F \<or> c = 0x5C"

fun name_scan :: "nat \<Rightarrow> cstring \<Rightarrow> nat \<Rightarrow> nat option" where
  "name_scan cap [] n = Some n"
| "name_scan cap (c # cs) n =
     (if n < cap then (if bad_name_byte c then None else name_scan cap cs (n + 1)) else Some n)"

definition native_name_length :: "cstring option \<Rightarrow> nat \<Rightarrow> int" where
  "native_name_length name cap =
     (case name of
        None \<Rightarrow> -1
      | Some s \<Rightarrow>
          if cap = 0 then -1
          else (case name_scan cap s 0 of
              None \<Rightarrow> -1
            | Some n \<Rightarrow>
                if n = 0 \<or> n = cap \<or> (s ! 0 = 0x2E \<and> (n = 1 \<or> n = 2 \<and> s ! 1 = 0x2E)) then -1
                else int n))"

definition vfs_namespace_changed :: "u32 \<Rightarrow> u32" where
  "vfs_namespace_changed g = (let g = g + 1 in if g = 0 then g + 1 else g)"

text \<open>What an accepted name looks like.\<close>

definition native_name :: "nat \<Rightarrow> cstring \<Rightarrow> bool" where
  "native_name cap s \<longleftrightarrow> 0 < length s \<and> length s < cap \<and> (\<forall>c\<in>set s. \<not> bad_name_byte c) \<and>
     s \<noteq> [0x2E] \<and> s \<noteq> [0x2E, 0x2E]"

lemma name_scan_Some:
  "n \<le> cap \<Longrightarrow> name_scan cap s n = Some k \<longleftrightarrow>
     (\<forall>c\<in>set (take (cap - n) s). \<not> bad_name_byte c) \<and> k = min cap (n + length s)"
  by (induction s arbitrary: n) (auto simp: take_Cons' min_def split: if_splits)

lemma dots:
  "s ! 0 = 0x2E \<and> (length s = 1 \<or> length s = 2 \<and> s ! 1 = 0x2E) \<longleftrightarrow>
     s = [0x2E] \<or> s = [0x2E, 0x2E]" for s :: cstring
  by (auto simp: length_Suc_conv numeral_2_eq_2)

theorem native_name_length_ok:
  "0 \<le> native_name_length (Some s) cap \<longleftrightarrow> native_name cap s"
proof (cases "cap = 0")
  case False
  show ?thesis
  proof (cases "name_scan cap s 0")
    case None
    then have "\<not> (\<forall>c\<in>set (take cap s). \<not> bad_name_byte c)"
      using name_scan_Some[of 0 cap s "min cap (length s)"] by auto
    then have "\<not> native_name cap s"
      by (auto simp: native_name_def dest: in_set_takeD)
    then show ?thesis using None by (simp add: native_name_length_def)
  next
    case (Some n)
    then have n: "n = min cap (length s)" "\<forall>c\<in>set (take cap s). \<not> bad_name_byte c"
      using name_scan_Some[of 0 cap s n] by auto
    show ?thesis
      using Some n False dots[of s]
      by (cases "length s < cap") (auto simp: native_name_length_def native_name_def min_def)
  qed
qed (simp add: native_name_length_def native_name_def)

lemma native_name_length_val:
  "native_name cap s \<Longrightarrow> native_name_length (Some s) cap = int (length s)"
  using native_name_length_ok[of s cap] name_scan_Some[of 0 cap s]
  by (auto simp: native_name_length_def native_name_def split: option.splits if_splits)

lemma native_name_no_nul: "native_name cap s \<Longrightarrow> 0 \<notin> set s"
  by (auto simp: native_name_def bad_name_byte_def)

lemma namespace_nonzero: "vfs_namespace_changed g \<noteq> 0"
  by (simp add: vfs_namespace_changed_def Let_def)

lemma namespace_differs: "vfs_namespace_changed g \<noteq> g"
  by (auto simp: vfs_namespace_changed_def Let_def)

end
