(* ===== verification/Sector_Store.thy ===== *)
theory Sector_Store
  imports KV_Base
begin

text \<open>
  The contract a filesystem has with a driver that moves one sector at a time: a
  read returns the medium and changes nothing, a write leaves the medium as it was
  or replaces exactly the addressed sector, and only a successful write is sure to
  have done so. The loops over the sectors of a file body are written here once,
  over the transfer as a parameter, with what they do under this contract.
\<close>

text \<open>A partial sector is padded with zeros before it is written.\<close>

definition sector_of :: "u8 list \<Rightarrow> sector" where
  "sector_of b = take 512 (b @ replicate 512 0)"

lemma length_sector_of [simp, len_simps]: "length (sector_of b) = 512"
  by (simp add: sector_of_def)

lemma sector_of_id [simp]: "length b = 512 \<Longrightarrow> sector_of b = b"
  by (simp add: sector_of_def)

fun body_out :: "('d \<Rightarrow> u32 \<Rightarrow> sector \<Rightarrow> 'd \<times> bool) \<Rightarrow> nat \<Rightarrow> u32 \<Rightarrow> u8 list \<Rightarrow> 'd \<Rightarrow> 'd \<times> bool" where
  "body_out wr 0 x data d = (d, True)"
| "body_out wr (Suc n) x data d =
     (case wr d x (sector_of data) of
        (d1, False) \<Rightarrow> (d1, False)
      | (d1, True) \<Rightarrow> body_out wr n (x + 1) (drop 512 data) d1)"

fun body_in :: "('d \<Rightarrow> u32 \<Rightarrow> 'd \<times> sector option) \<Rightarrow> nat \<Rightarrow> u32 \<Rightarrow> u8 list \<Rightarrow> 'd \<Rightarrow> 'd \<times> u8 list \<times> bool" where
  "body_in rd 0 x acc d = (d, acc, True)"
| "body_in rd (Suc n) x acc d =
     (case rd d x of
        (d1, None) \<Rightarrow> (d1, acc, False)
      | (d1, Some b) \<Rightarrow> body_in rd n (x + 1) (acc @ b) d1)"

text \<open>The bytes of \<open>n\<close> consecutive sectors, and the sectors that a body becomes.\<close>

fun span :: "(u32 \<Rightarrow> sector) \<Rightarrow> u32 \<Rightarrow> nat \<Rightarrow> u8 list" where
  "span m x 0 = []"
| "span m x (Suc n) = m x @ span m (x + 1) n"

definition in_span :: "u32 \<Rightarrow> nat \<Rightarrow> u32 \<Rightarrow> bool" where
  "in_span x n y \<longleftrightarrow> unat x \<le> unat y \<and> unat y < unat x + n"

lemma span_cong:
  "(\<And>y. in_span x n y \<Longrightarrow> m y = m' y) \<Longrightarrow> unat x + n < 2 ^ 32 \<Longrightarrow> span m x n = span m' x n"
proof (induction n arbitrary: x)
  case (Suc n)
  have x1: "unat (x + 1) = unat x + 1"
    using Suc.prems(2) unat_add_u32[of x 1] by simp
  have "span m (x + 1) n = span m' (x + 1) n"
    by (rule Suc.IH) (use Suc.prems x1 in \<open>auto simp: in_span_def\<close>)
  moreover have "m x = m' x" by (rule Suc.prems(1)) (simp add: in_span_def)
  ultimately show ?case by simp
qed simp

lemma length_span:
  "(\<And>y. length (m y) = 512) \<Longrightarrow> length (span m x n) = 512 * n"
  by (induction n arbitrary: x) auto

section \<open>The contract\<close>

locale sector_store =
  fixes rd :: "'d \<Rightarrow> u32 \<Rightarrow> 'd \<times> sector option"
    and wr :: "'d \<Rightarrow> u32 \<Rightarrow> sector \<Rightarrow> 'd \<times> bool"
    and med :: "'d \<Rightarrow> u32 \<Rightarrow> sector"
    and cap :: "'d \<Rightarrow> u32"
    and good :: "'d \<Rightarrow> bool"
    and live :: "'d \<Rightarrow> bool"
  assumes rd_law: "good d \<Longrightarrow> rd d x = (d', r) \<Longrightarrow>
      good d' \<and> med d' = med d \<and> cap d' = cap d \<and> (\<forall>b. r = Some b \<longrightarrow> b = med d x)"
    and wr_law: "good d \<Longrightarrow> length b = 512 \<Longrightarrow> wr d x b = (d', ok) \<Longrightarrow>
      good d' \<and> cap d' = cap d \<and> (med d' = med d \<and> \<not> ok \<or> med d' = (med d)(x := b))"
    and med_len: "length (med d x) = 512"
    and rd_live: "good d \<Longrightarrow> live d \<Longrightarrow> x < cap d \<Longrightarrow> \<exists>d'. rd d x = (d', Some (med d x)) \<and> live d'"
    and wr_live: "good d \<Longrightarrow> live d \<Longrightarrow> x < cap d \<Longrightarrow> length b = 512 \<Longrightarrow>
      \<exists>d'. wr d x b = (d', True) \<and> live d'"
begin

lemma body_in_law:
  "good d \<Longrightarrow> body_in rd n x acc d = (d', bs, ok) \<Longrightarrow>
     good d' \<and> med d' = med d \<and> cap d' = cap d \<and> (ok \<longrightarrow> bs = acc @ span (med d) x n)"
proof (induction n arbitrary: x acc d)
  case (Suc n)
  obtain d1 r where r: "rd d x = (d1, r)" by force
  note l = rd_law[OF Suc.prems(1) r]
  show ?case
    using Suc.IH[of d1] Suc.prems(2) l r by (cases r) fastforce+
qed simp

lemma body_in_live:
  "good d \<Longrightarrow> live d \<Longrightarrow> unat x + n \<le> unat (cap d) \<Longrightarrow>
     \<exists>d'. body_in rd n x acc d = (d', acc @ span (med d) x n, True) \<and> live d'"
proof (induction n arbitrary: x acc d)
  case (Suc n)
  have "x < cap d" using Suc.prems(3) by (simp add: word_less_nat_alt)
  then obtain d1 where r: "rd d x = (d1, Some (med d x))" and l1: "live d1"
    using rd_live Suc.prems by blast
  have g: "good d1" "med d1 = med d" "cap d1 = cap d"
    using rd_law[OF Suc.prems(1) r] by auto
  have "unat (x + 1) = unat x + 1"
    using Suc.prems(3) unat_lt_u32[of "cap d"] unat_add_u32[of x 1] by simp
  then show ?case
    using Suc.IH[of d1 "x + 1" "acc @ med d x"] Suc.prems(3) g l1 r by auto
qed simp

lemma body_out_law:
  "good d \<Longrightarrow> unat x + n < 2 ^ 32 \<Longrightarrow> body_out wr n x data d = (d', ok) \<Longrightarrow>
     good d' \<and> cap d' = cap d \<and> (\<forall>y. \<not> in_span x n y \<longrightarrow> med d' y = med d y) \<and>
     (ok \<longrightarrow> span (med d') x n = take (512 * n) (data @ replicate (512 * n) 0))"
proof (induction n arbitrary: x data d)
  case (Suc n)
  obtain d1 w where w: "wr d x (sector_of data) = (d1, w)" by force
  note l = wr_law[OF Suc.prems(1) _ w, simplified]
  have x1: "unat (x + 1) = unat x + 1"
    using Suc.prems(2) unat_add_u32[of x 1] by simp
  show ?case
  proof (cases w)
    case False
    then show ?thesis
      using Suc.prems(3) l w by (auto simp: in_span_def)
  next
    case True
    then have m1: "med d1 = (med d)(x := sector_of data)" and g1: "good d1" "cap d1 = cap d"
      using l by auto
    have b: "body_out wr n (x + 1) (drop 512 data) d1 = (d', ok)"
      using Suc.prems(3) w True by simp
    have ih: "good d' \<and> cap d' = cap d1 \<and> (\<forall>y. \<not> in_span (x + 1) n y \<longrightarrow> med d' y = med d1 y) \<and>
      (ok \<longrightarrow> span (med d') (x + 1) n = take (512 * n) (drop 512 data @ replicate (512 * n) 0))"
      by (rule Suc.IH[OF g1(1) _ b]) (use Suc.prems(2) x1 in simp)
    have x: "med d' x = sector_of data"
      using ih m1 x1 by (simp add: in_span_def)
    have "sector_of data @ take (512 * n) (drop 512 data @ replicate (512 * n) 0) =
      take (512 * Suc n) (data @ replicate (512 * Suc n) 0)"
      by (rule nth_equalityI) (auto simp: sector_of_def nth_append nth_take min_def)
    moreover have "med d' y = med d y" if "\<not> in_span x (Suc n) y" for y
      using ih m1 that x1 by (auto simp: in_span_def)
    ultimately show ?thesis
      using ih g1 x by auto
  qed
qed simp

lemma body_out_live:
  "good d \<Longrightarrow> live d \<Longrightarrow> unat x + n \<le> unat (cap d) \<Longrightarrow>
     \<exists>d'. body_out wr n x data d = (d', True) \<and> live d'"
proof (induction n arbitrary: x data d)
  case (Suc n)
  have "x < cap d" using Suc.prems(3) by (simp add: word_less_nat_alt)
  then obtain d1 where r: "wr d x (sector_of data) = (d1, True)" and l1: "live d1"
    using wr_live[of d x "sector_of data"] Suc.prems by auto
  have g: "good d1" "cap d1 = cap d"
    using wr_law[OF Suc.prems(1) _ r] by auto
  have "unat (x + 1) = unat x + 1"
    using Suc.prems(3) unat_lt_u32[of "cap d"] unat_add_u32[of x 1] by simp
  then show ?case
    using Suc.IH[of d1 "x + 1" "drop 512 data"] Suc.prems(3) g l1 r by auto
qed simp

end

end
