(* ===== verification/Ata.thy ===== *)
theory Ata
  imports Sector_Store
begin

text \<open>
  The ATA driver of \<^verbatim>\<open>kernel/ata.c\<close>: the drive table, the range checks, the PIO
  command sequence of a transfer and the cache flush. The bus is the environment:
  each wait for the drive (\<^verbatim>\<open>ata_wait_busy\<close>, \<^verbatim>\<open>ata_wait_drq\<close>, a status check) takes
  its outcome from a plan, so every theorem holds for every pattern of bus errors.
  A sector is addressed by the 28 bits that the task file carries.
\<close>

section \<open>Drives\<close>

record ata_drive =
  dr_io :: u16
  dr_slave :: bool
  dr_present :: bool
  dr_sectors :: u32
  dr_model :: cstring
  dr_media :: "u32 \<Rightarrow> sector"

record ata =
  at_drives :: "ata_drive list"
  at_boot :: int
  at_plan :: "bool list"
  at_dead :: bool

text \<open>One wait on the bus: the next planned outcome, then ready or dead for good.\<close>

definition ata_wait :: "ata \<Rightarrow> ata \<times> bool" where
  "ata_wait a = (case at_plan a of [] \<Rightarrow> (a, \<not> at_dead a) | r # rs \<Rightarrow> (a\<lparr>at_plan := rs\<rparr>, r))"

definition ata_ok_drive :: "ata \<Rightarrow> int \<Rightarrow> bool" where
  "ata_ok_drive a idx \<longleftrightarrow> 0 \<le> idx \<and> idx < int (length (at_drives a)) \<and>
     dr_present (at_drives a ! nat idx)"

definition ata_sectors :: "ata \<Rightarrow> int \<Rightarrow> u32" where
  "ata_sectors a i =
     (if i < 0 \<or> i \<ge> int (length (at_drives a)) then 0 else dr_sectors (at_drives a ! nat i))"

definition ata_count :: "ata \<Rightarrow> int" where
  "ata_count a = int (length (at_drives a))"

definition ata_boot_drive :: "ata \<Rightarrow> int" where
  "ata_boot_drive a = at_boot a"

definition ata_size_mb :: "ata \<Rightarrow> int \<Rightarrow> u32" where
  "ata_size_mb a i =
     (if i < 0 \<or> i \<ge> int (length (at_drives a)) then 0
      else drop_bit 11 (dr_sectors (at_drives a ! nat i)))"

definition ata_present :: "ata \<Rightarrow> bool" where
  "ata_present a \<longleftrightarrow> at_boot a \<ge> 0"

definition ata_model :: "ata \<Rightarrow> int \<Rightarrow> cstring option" where
  "ata_model a i =
     (if i < 0 \<or> i \<ge> int (length (at_drives a)) then None else Some (dr_model (at_drives a ! nat i)))"

section \<open>Start-up\<close>

text \<open>What the bus answers to one IDENTIFY: the two status reads, the outcome of the two
  waits, the address registers, the 256 words, and the medium behind the drive.\<close>

record ident_reply =
  id_floating :: u8
  id_status :: u8
  id_busy_ok :: bool
  id_lba1 :: u8
  id_lba2 :: u8
  id_drq_ok :: bool
  id_words :: "u16 list"
  id_media :: "u32 \<Rightarrow> sector"

text \<open>\<^verbatim>\<open>fix_string\<close>: byte-swapped pairs, then trailing blanks and NULs cut from the end.\<close>

definition swap_pairs :: "u16 list \<Rightarrow> u8 list" where
  "swap_pairs ws = concat (map (\<lambda>w. [ucast (drop_bit 8 w), ucast (w AND 0xFF)]) ws)"

definition fix_string :: "u16 list \<Rightarrow> cstring" where
  "fix_string ws = cstr (rev (dropWhile (\<lambda>c. c = 0x20 \<or> c = 0) (rev (swap_pairs ws))) @ [0])"

text \<open>\<^verbatim>\<open>"ATA disk"\<close>, the name of a drive that reports none.\<close>

definition default_model :: cstring where
  "default_model = [0x41, 0x54, 0x41, 0x20, 0x64, 0x69, 0x73, 0x6B]"

definition ata_identify :: "u16 \<Rightarrow> bool \<Rightarrow> ident_reply \<Rightarrow> ata_drive list \<Rightarrow> ata_drive list" where
  "ata_identify port slave r ds =
     (if length ds \<ge> 4 then ds
      else if id_floating r = 0xFF then ds
      else if id_status r = 0 then ds
      else if \<not> id_busy_ok r then ds
      else if id_lba1 r \<noteq> 0 \<or> id_lba2 r \<noteq> 0 then ds
      else if \<not> id_drq_ok r then ds
      else let m = fix_string (take 20 (drop 27 (id_words r))) in
        ds @ [\<lparr>dr_io = port, dr_slave = slave, dr_present = True,
          dr_sectors = push_bit 16 (ucast (id_words r ! 61)) OR ucast (id_words r ! 60),
          dr_model = (if m = [] then default_model else m), dr_media = id_media r\<rparr>])"

text \<open>The boot drive is the first present drive of at least 2048 sectors.\<close>

fun pick_boot :: "ata_drive list \<Rightarrow> int \<Rightarrow> int" where
  "pick_boot [] i = -1"
| "pick_boot (d # ds) i = (if dr_present d \<and> dr_sectors d \<ge> 2048 then i else pick_boot ds (i + 1))"

definition ata_init :: "ident_reply \<Rightarrow> ident_reply \<Rightarrow> ident_reply \<Rightarrow> ident_reply \<Rightarrow> ata \<Rightarrow> ata" where
  "ata_init r0 r1 r2 r3 a =
     (let ds = ata_identify 0x170 True r3 (ata_identify 0x170 False r2
                 (ata_identify 0x1F0 True r1 (ata_identify 0x1F0 False r0 [])))
      in a\<lparr>at_drives := ds, at_boot := pick_boot ds 0\<rparr>)"

section \<open>Transfers\<close>

text \<open>\<^verbatim>\<open>ata_setup\<close> loads the task file; the address registers hold 28 bits.\<close>

definition lba28 :: "u32 \<Rightarrow> u32" where
  "lba28 lba = (lba AND 0xFF) OR (lba AND 0xFF00) OR (lba AND 0xFF0000)
     OR push_bit 24 (drop_bit 24 lba AND 0x0F)"

definition ata_media :: "ata \<Rightarrow> int \<Rightarrow> u32 \<Rightarrow> sector" where
  "ata_media a i x = sector_of (dr_media (at_drives a ! nat i) (lba28 x))"

definition ata_store :: "ata \<Rightarrow> int \<Rightarrow> u32 \<Rightarrow> sector \<Rightarrow> ata" where
  "ata_store a i x b = a\<lparr>at_drives := (at_drives a)[nat i :=
     (at_drives a ! nat i)\<lparr>dr_media := (dr_media (at_drives a ! nat i))(lba28 x := b)\<rparr>]\<rparr>"

fun read_loop :: "nat \<Rightarrow> int \<Rightarrow> u32 \<Rightarrow> u8 list \<Rightarrow> ata \<Rightarrow> ata \<times> u8 list \<times> bool" where
  "read_loop 0 i lba buf a = (a, buf, True)"
| "read_loop (Suc n) i lba buf a =
     (case ata_wait a of
        (a1, False) \<Rightarrow> (a1, buf, False)
      | (a1, True) \<Rightarrow> (case ata_wait a1 of
          (a2, False) \<Rightarrow> (a2, buf, False)
        | (a2, True) \<Rightarrow> read_loop n i (lba + 1) (buf @ ata_media a2 i lba) a2))"

text \<open>Result: the bytes read, or \<open>None\<close> for -1 (the buffer may be half filled then).\<close>

definition ata_read :: "ata \<Rightarrow> int \<Rightarrow> u32 \<Rightarrow> u8 \<Rightarrow> ata \<times> u8 list option" where
  "ata_read a idx lba count =
     (if \<not> ata_ok_drive a idx then (a, None)
      else if count = 0 then (a, Some [])
      else if lba \<ge> dr_sectors (at_drives a ! nat idx) \<or>
              ucast count > dr_sectors (at_drives a ! nat idx) - lba then (a, None)
      else case ata_wait a of
        (a1, False) \<Rightarrow> (a1, None)
      | (a1, True) \<Rightarrow> (case read_loop (unat count) idx lba [] a1 of
          (a2, buf, ok) \<Rightarrow> (a2, if ok then Some buf else None)))"

fun write_loop :: "nat \<Rightarrow> int \<Rightarrow> u32 \<Rightarrow> u8 list \<Rightarrow> ata \<Rightarrow> ata \<times> bool" where
  "write_loop 0 i lba buf a = (a, True)"
| "write_loop (Suc n) i lba buf a =
     (case ata_wait a of
        (a1, False) \<Rightarrow> (a1, False)
      | (a1, True) \<Rightarrow> (case ata_wait a1 of
          (a2, False) \<Rightarrow> (a2, False)
        | (a2, True) \<Rightarrow> write_loop n i (lba + 1) (drop 512 buf)
            (ata_store a2 i lba (sector_of (take 512 buf)))))"

definition ata_sync :: "ata \<Rightarrow> int \<Rightarrow> ata \<times> bool" where
  "ata_sync a idx =
     (if \<not> ata_ok_drive a idx then (a, False)
      else case ata_wait a of
        (a1, False) \<Rightarrow> (a1, False)
      | (a1, True) \<Rightarrow> (case ata_wait a1 of (a2, rc) \<Rightarrow>
          (case ata_wait a2 of (a3, status) \<Rightarrow> (a3, rc \<and> status))))"

definition ata_write :: "ata \<Rightarrow> int \<Rightarrow> u32 \<Rightarrow> u8 \<Rightarrow> u8 list \<Rightarrow> ata \<times> bool" where
  "ata_write a idx lba count buf =
     (if \<not> ata_ok_drive a idx then (a, False)
      else if count = 0 then (a, True)
      else if lba \<ge> dr_sectors (at_drives a ! nat idx) \<or>
              ucast count > dr_sectors (at_drives a ! nat idx) - lba then (a, False)
      else case ata_wait a of
        (a1, False) \<Rightarrow> (a1, False)
      | (a1, True) \<Rightarrow> (case write_loop (unat count) idx lba buf a1 of
          (a2, ok) \<Rightarrow> (case ata_wait a2 of
            (a3, False) \<Rightarrow> (a3, False)
          | (a3, True) \<Rightarrow> if ok then ata_sync a3 idx else (a3, False))))"

section \<open>Facts\<close>

text \<open>A wait changes nothing but the plan.\<close>

definition same_drives :: "ata \<Rightarrow> ata \<Rightarrow> bool" where
  "same_drives a b \<longleftrightarrow> at_drives b = at_drives a \<and> at_boot b = at_boot a"

lemma same_drives_refl [simp]: "same_drives a a"
  by (simp add: same_drives_def)

lemma same_drives_trans: "same_drives a b \<Longrightarrow> same_drives b c \<Longrightarrow> same_drives a c"
  by (simp add: same_drives_def)

lemma wait_same: "ata_wait a = (a', r) \<Longrightarrow> same_drives a a'"
  by (auto simp: ata_wait_def same_drives_def split: list.splits)

lemma sync_same: "ata_sync a i = (a', r) \<Longrightarrow> same_drives a a'"
  by (auto simp: ata_sync_def split: if_splits prod.splits bool.splits dest!: wait_same
      intro: same_drives_trans)

lemma read_loop_same: "read_loop n i lba buf a = (a', b, r) \<Longrightarrow> same_drives a a'"
  by (induction n i lba buf a arbitrary: a' b r rule: read_loop.induct)
    (auto split: prod.splits bool.splits dest!: wait_same intro: same_drives_trans)

lemma lba_masks:
  "(0xFF :: u32) = mask 8" "(0xFF00 :: u32) = push_bit 8 (mask 8)"
  "(0xFF0000 :: u32) = push_bit 16 (mask 8)" "(0x0F :: u32) = mask 4"
  by (simp_all add: mask_eq_exp_minus_1)

lemma lba28_id: "x < 0x10000000 \<Longrightarrow> lba28 x = x"
proof (rule bit_word_eqI)
  fix n assume x: "x < 0x10000000" and n: "n < LENGTH(32)"
  have "x div 268435456 = 0"
    using x by (simp add: word_less_nat_alt word_arith_nat_div)
  then have "drop_bit 28 x = 0" by (simp add: drop_bit_eq_div)
  then have z: "drop_bit 28 x = 0" by simp
  have hi: "\<not> bit x m" if "28 \<le> m" for m
    using arg_cong[OF z, of "\<lambda>w. bit w (m - 28)"] that by (simp add: bit_drop_bit_eq)
  show "bit (lba28 x) n = bit x n"
  proof -
    have "bit x n \<Longrightarrow> n < 28" using hi[of n] by linarith
    then consider "\<not> bit x n" | "bit x n" "n < 8" | "bit x n" "8 \<le> n" "n < 16"
      | "bit x n" "16 \<le> n" "n < 24" | "bit x n" "24 \<le> n" "n < 28"
      by linarith
    then show ?thesis
      unfolding lba28_def lba_masks by cases (auto simp: bit_simps)
  qed
qed

section \<open>One sector at a time\<close>

text \<open>The filesystems transfer single sectors; this is what they see of a drive.\<close>

definition ata_rd1 :: "int \<Rightarrow> ata \<Rightarrow> u32 \<Rightarrow> ata \<times> sector option" where
  "ata_rd1 i a x = ata_read a i x 1"

definition ata_wr1 :: "int \<Rightarrow> ata \<Rightarrow> u32 \<Rightarrow> sector \<Rightarrow> ata \<times> bool" where
  "ata_wr1 i a x b = ata_write a i x 1 b"

definition ata_med :: "int \<Rightarrow> ata \<Rightarrow> u32 \<Rightarrow> sector" where
  "ata_med i a x = (if x < ata_sectors a i then ata_media a i x else replicate 512 0)"

text \<open>A drive is good when it is there and reports at most \<open>2 ^ 28\<close> sectors, as
  LBA28 drives do.\<close>

definition ata_good :: "int \<Rightarrow> ata \<Rightarrow> bool" where
  "ata_good i a \<longleftrightarrow> ata_ok_drive a i \<and> unat (ata_sectors a i) \<le> 268435456"

definition ata_live :: "ata \<Rightarrow> bool" where
  "ata_live a \<longleftrightarrow> at_plan a = [] \<and> \<not> at_dead a"

lemma same_drives_view:
  assumes "same_drives a b"
  shows "ata_sectors b i = ata_sectors a i" "ata_ok_drive b i = ata_ok_drive a i"
    "ata_media b i = ata_media a i" "ata_med i b = ata_med i a" "ata_good i b = ata_good i a"
    "at_boot b = at_boot a"
  using assms by (auto simp: same_drives_def ata_sectors_def ata_ok_drive_def ata_media_def
      ata_med_def ata_good_def fun_eq_iff)

lemma good_addr:
  assumes "ata_good i a" "x < ata_sectors a i"
  shows "lba28 x = x"
proof -
  have "unat x < 268435456"
    using assms by (simp add: ata_good_def word_less_nat_alt)
  then show ?thesis by (intro lba28_id) (simp add: word_less_nat_alt)
qed

lemma store_view:
  assumes "ata_ok_drive a i"
  shows "ata_sectors (ata_store a i x b) j = ata_sectors a j"
    "ata_ok_drive (ata_store a i x b) j = ata_ok_drive a j"
    "at_plan (ata_store a i x b) = at_plan a" "at_dead (ata_store a i x b) = at_dead a"
    "at_boot (ata_store a i x b) = at_boot a"
    "ata_media (ata_store a i x b) i y = (if lba28 y = lba28 x then sector_of b else ata_media a i y)"
  using assms by (cases "nat i = nat j"; auto simp: ata_store_def ata_sectors_def
      ata_ok_drive_def ata_media_def nth_list_update)+

lemma store_med:
  assumes "ata_good i a" "x < ata_sectors a i" "length b = 512"
  shows "ata_med i (ata_store a i x b) = (ata_med i a)(x := b)" "ata_good i (ata_store a i x b)"
proof -
  have ok: "ata_ok_drive a i" using assms by (simp add: ata_good_def)
  show "ata_good i (ata_store a i x b)"
    using assms by (simp add: ata_good_def store_view[OF ok])
  show "ata_med i (ata_store a i x b) = (ata_med i a)(x := b)"
    using good_addr[OF assms(1)] assms
    by (auto simp: ata_med_def store_view[OF ok] fun_eq_iff)
qed

lemma ata_sectors_ok:
  "ata_ok_drive a i \<Longrightarrow> dr_sectors (at_drives a ! nat i) = ata_sectors a i"
  by (simp add: ata_ok_drive_def ata_sectors_def)

lemma one_sector_range:
  "(x :: u32) \<ge> n \<or> 1 > n - x \<longleftrightarrow> x \<ge> n"
proof -
  have "1 \<le> n - x" if "x < n"
  proof -
    have "unat (n - x) = unat n - unat x" using that by (intro unat_sub_u32) simp
    then show ?thesis using that by (simp add: word_le_nat_alt word_less_nat_alt)
  qed
  then show ?thesis by (auto simp: not_le)
qed

lemma ata_rd1_eq:
  "ata_rd1 i a x =
     (if \<not> ata_ok_drive a i \<or> x \<ge> ata_sectors a i then (a, None)
      else case ata_wait a of
        (a1, False) \<Rightarrow> (a1, None)
      | (a1, True) \<Rightarrow> (case ata_wait a1 of
          (a2, False) \<Rightarrow> (a2, None)
        | (a2, True) \<Rightarrow> (case ata_wait a2 of
            (a3, False) \<Rightarrow> (a3, None)
          | (a3, True) \<Rightarrow> (a3, Some (ata_media a3 i x)))))"
  using one_sector_range[of "ata_sectors a i" x]
  by (auto simp: ata_rd1_def ata_read_def ata_sectors_ok split: prod.splits bool.splits)

lemma ata_wr1_eq:
  "length b = 512 \<Longrightarrow> ata_wr1 i a x b =
     (if \<not> ata_ok_drive a i \<or> x \<ge> ata_sectors a i then (a, False)
      else case ata_wait a of
        (a1, False) \<Rightarrow> (a1, False)
      | (a1, True) \<Rightarrow> (case ata_wait a1 of
          (a2, False) \<Rightarrow> (fst (ata_wait a2), False)
        | (a2, True) \<Rightarrow> (case ata_wait a2 of
            (a3, False) \<Rightarrow> (fst (ata_wait a3), False)
          | (a3, True) \<Rightarrow> (case ata_wait (ata_store a3 i x b) of
              (a4, False) \<Rightarrow> (a4, False)
            | (a4, True) \<Rightarrow> ata_sync a4 i))))"
  using one_sector_range[of "ata_sectors a i" x]
  by (auto simp: ata_wr1_def ata_write_def ata_sectors_ok split: prod.splits bool.splits)

lemma ata_rd1_cases:
  assumes "ata_rd1 i a x = (a', r)"
  shows "same_drives a a' \<and> (\<forall>b. r = Some b \<longrightarrow> x < ata_sectors a i \<and> b = ata_media a i x)"
  using assms unfolding ata_rd1_eq
  by (auto simp: not_le same_drives_view(3) dest!: wait_same intro: same_drives_trans
      split: if_splits prod.splits bool.splits)

lemma same_drives_fst_wait: "same_drives a b \<Longrightarrow> same_drives a (fst (ata_wait b))"
  by (metis prod.collapse same_drives_trans wait_same)

lemma ata_wr1_cases:
  assumes "ata_wr1 i a x b = (a', r)" "length b = 512"
  shows "same_drives a a' \<and> \<not> r \<or>
    (\<exists>a1. same_drives a a1 \<and> x < ata_sectors a i \<and> same_drives (ata_store a1 i x b) a')"
  using assms(1) unfolding ata_wr1_eq[OF assms(2)]
  by (auto simp: not_le intro: same_drives_trans same_drives_fst_wait dest!: wait_same sync_same
      split: if_splits prod.splits bool.splits) (meson same_drives_trans)+

lemma wait_live: "ata_live a \<Longrightarrow> ata_wait a = (a, True)"
  by (simp add: ata_live_def ata_wait_def)

lemma sync_live: "ata_live a \<Longrightarrow> ata_ok_drive a i \<Longrightarrow> ata_sync a i = (a, True)"
  by (simp add: ata_sync_def wait_live)

lemma store_live: "ata_ok_drive a i \<Longrightarrow> ata_live (ata_store a i x b) = ata_live a"
  by (simp add: ata_live_def store_view)

text \<open>The contract, with the choice of boot drive carried along.\<close>

interpretation ad: sector_store "ata_rd1 i" "ata_wr1 i" "ata_med i" "\<lambda>a. ata_sectors a i"
  "\<lambda>a. ata_good i a \<and> at_boot a = j" ata_live for i j
proof unfold_locales
  fix d d' x r assume g: "ata_good i d \<and> at_boot d = j" and r: "ata_rd1 i d x = (d', r)"
  have s: "same_drives d d'" and b: "\<forall>b. r = Some b \<longrightarrow> b = ata_med i d x"
    using ata_rd1_cases[OF r] by (auto simp: ata_med_def)
  show "(ata_good i d' \<and> at_boot d' = j) \<and> ata_med i d' = ata_med i d \<and>
      ata_sectors d' i = ata_sectors d i \<and> (\<forall>b. r = Some b \<longrightarrow> b = ata_med i d x)"
    using g b unfolding same_drives_view[OF s] by blast
next
  fix d d' x b ok assume g: "ata_good i d \<and> at_boot d = j" and b: "length b = 512"
    and w: "ata_wr1 i d x b = (d', ok)"
  show "(ata_good i d' \<and> at_boot d' = j) \<and> ata_sectors d' i = ata_sectors d i \<and>
      (ata_med i d' = ata_med i d \<and> \<not> ok \<or> ata_med i d' = (ata_med i d)(x := b))"
    using ata_wr1_cases[OF w b]
  proof (elim disjE conjE exE)
    assume s: "same_drives d d'" and "\<not> ok"
    then show ?thesis using g unfolding same_drives_view[OF s] by blast
  next
    fix a1 assume s1: "same_drives d a1" and x: "x < ata_sectors d i"
      and s2: "same_drives (ata_store a1 i x b) d'"
    have g1: "ata_good i a1" "x < ata_sectors a1 i"
      using g x by (simp_all only: same_drives_view[OF s1])
    have ok: "ata_ok_drive a1 i" using g1(1) by (simp add: ata_good_def)
    show ?thesis
      using g store_med(2)[OF g1 b]
      unfolding same_drives_view[OF s2] store_med(1)[OF g1 b] store_view[OF ok] same_drives_view[OF s1]
      by blast
  qed
next
  fix d x show "length (ata_med i d x) = 512" by (simp add: ata_med_def ata_media_def)
next
  fix d x assume g: "ata_good i d \<and> at_boot d = j" "ata_live d" "x < ata_sectors d i"
  then have "ata_rd1 i d x = (d, Some (ata_med i d x))"
    by (simp add: ata_rd1_eq wait_live ata_good_def ata_med_def not_le)
  then show "\<exists>d'. ata_rd1 i d x = (d', Some (ata_med i d x)) \<and> ata_live d'"
    using g(2) by blast
next
  fix d x b assume g: "ata_good i d \<and> at_boot d = j" "ata_live d" "x < ata_sectors d i"
    "length (b :: sector) = 512"
  then have ok: "ata_ok_drive d i" by (simp add: ata_good_def)
  have l: "ata_live (ata_store d i x b)" using g(2) by (simp add: store_live[OF ok])
  have "ata_wr1 i d x b = (ata_store d i x b, True)"
    using g(3) by (simp add: ata_wr1_eq[OF g(4)] wait_live[OF g(2)] wait_live[OF l] ok not_le
        sync_live[OF l] store_view[OF ok])
  then show "\<exists>d'. ata_wr1 i d x b = (d', True) \<and> ata_live d'"
    using l by blast
qed

end
