(* ===== verification/Blk.thy ===== *)
theory Blk
  imports Ata
begin

text \<open>
  The block layer of \<^verbatim>\<open>kernel/blk.c\<close>: stable disk numbers (ATA 0..3, USB 4..11, AHCI
  12..19), the range checks before any transport is touched, and the routing of every
  request. A transport is a record of its functions over a common state; the USB and
  AHCI drivers talk to hardware and stay parameters, the ATA transport is \<^verbatim>\<open>Ata\<close>.
\<close>

record 's blk_driver =
  bd_count :: "'s \<Rightarrow> int"
  bd_sectors :: "'s \<Rightarrow> int \<Rightarrow> u32"
  bd_read :: "'s \<Rightarrow> int \<Rightarrow> u32 \<Rightarrow> u8 \<Rightarrow> 's \<times> u8 list option"
  bd_write :: "'s \<Rightarrow> int \<Rightarrow> u32 \<Rightarrow> u8 \<Rightarrow> u8 list \<Rightarrow> 's \<times> bool"
  bd_sync :: "'s \<Rightarrow> int \<Rightarrow> 's \<times> bool"
  bd_generation :: "'s \<Rightarrow> int \<Rightarrow> u32"
  bd_authorize :: "'s \<Rightarrow> int \<Rightarrow> u32 \<Rightarrow> u32 \<Rightarrow> u32 \<Rightarrow> 's \<times> bool"
  bd_revoke :: "'s \<Rightarrow> int \<Rightarrow> 's"

record 's blk =
  bk_ata :: "'s blk_driver"
  bk_usb :: "'s blk_driver"
  bk_ahci :: "'s blk_driver"

definition blk_is_usb :: "int \<Rightarrow> bool" where
  "blk_is_usb disk \<longleftrightarrow> disk \<ge> 4 \<and> disk < 12"

definition blk_is_ahci :: "int \<Rightarrow> bool" where
  "blk_is_ahci disk \<longleftrightarrow> disk \<ge> 12 \<and> disk < 12 + 8"

definition blk_count :: "'s blk \<Rightarrow> 's \<Rightarrow> int" where
  "blk_count b s =
     (if bd_count (bk_ahci b) s \<noteq> 0 then 12 + bd_count (bk_ahci b) s
      else if bd_count (bk_usb b) s \<noteq> 0 then 4 + bd_count (bk_usb b) s
      else bd_count (bk_ata b) s)"

definition blk_sectors :: "'s blk \<Rightarrow> 's \<Rightarrow> int \<Rightarrow> u32" where
  "blk_sectors b s disk =
     (if blk_is_ahci disk then bd_sectors (bk_ahci b) s (disk - 12)
      else if blk_is_usb disk then bd_sectors (bk_usb b) s (disk - 4)
      else if disk \<ge> 0 \<and> disk < 4 then bd_sectors (bk_ata b) s disk else 0)"

definition blk_read :: "'s blk \<Rightarrow> 's \<Rightarrow> int \<Rightarrow> u32 \<Rightarrow> u8 \<Rightarrow> 's \<times> u8 list option" where
  "blk_read b s disk lba n =
     (let sz = blk_sectors b s disk in
      if n = 0 \<or> lba \<ge> sz \<or> ucast n > sz - lba then (s, None)
      else if blk_is_ahci disk then bd_read (bk_ahci b) s (disk - 12) lba n
      else if blk_is_usb disk then bd_read (bk_usb b) s (disk - 4) lba n
      else bd_read (bk_ata b) s disk lba n)"

definition blk_write :: "'s blk \<Rightarrow> 's \<Rightarrow> int \<Rightarrow> u32 \<Rightarrow> u8 \<Rightarrow> u8 list option \<Rightarrow> 's \<times> bool" where
  "blk_write b s disk lba n buf =
     (let sz = blk_sectors b s disk in
      case buf of None \<Rightarrow> (s, False) | Some data \<Rightarrow>
      if n = 0 \<or> lba \<ge> sz \<or> ucast n > sz - lba then (s, False)
      else if blk_is_ahci disk then bd_write (bk_ahci b) s (disk - 12) lba n data
      else if blk_is_usb disk then bd_write (bk_usb b) s (disk - 4) lba n data
      else bd_write (bk_ata b) s disk lba n data)"

definition blk_sync :: "'s blk \<Rightarrow> 's \<Rightarrow> int \<Rightarrow> 's \<times> bool" where
  "blk_sync b s disk =
     (if blk_sectors b s disk = 0 then (s, False)
      else if blk_is_ahci disk then bd_sync (bk_ahci b) s (disk - 12)
      else if blk_is_usb disk then bd_sync (bk_usb b) s (disk - 4)
      else bd_sync (bk_ata b) s disk)"

definition blk_generation :: "'s blk \<Rightarrow> 's \<Rightarrow> int \<Rightarrow> u32" where
  "blk_generation b s disk =
     (if blk_is_ahci disk then bd_generation (bk_ahci b) s (disk - 12)
      else if blk_is_usb disk then bd_generation (bk_usb b) s (disk - 4) else 0)"

definition blk_fat_authorize :: "'s blk \<Rightarrow> 's \<Rightarrow> int \<Rightarrow> u32 \<Rightarrow> u32 \<Rightarrow> u32 \<Rightarrow> 's \<times> bool" where
  "blk_fat_authorize b s disk start count gen =
     (if blk_is_ahci disk then bd_authorize (bk_ahci b) s (disk - 12) start count gen
      else if blk_is_usb disk then bd_authorize (bk_usb b) s (disk - 4) start count gen
      else let sz = blk_sectors b s disk in
        (s, count \<noteq> 0 \<and> start < sz \<and> count \<le> sz - start))"

definition blk_fat_revoke :: "'s blk \<Rightarrow> 's \<Rightarrow> int \<Rightarrow> 's" where
  "blk_fat_revoke b s disk =
     (if blk_is_ahci disk then bd_revoke (bk_ahci b) s (disk - 12)
      else if blk_is_usb disk then bd_revoke (bk_usb b) s (disk - 4) else s)"

section \<open>The wrappers of the filesystem drivers\<close>

text \<open>\<^verbatim>\<open>disk_read\<close>, \<^verbatim>\<open>disk_write\<close> and \<^verbatim>\<open>disk_sync\<close> of \<^verbatim>\<open>include/vfs.h\<close> turn the return
  codes into truth values, which is what the option and the flag above already are.\<close>

definition disk_read :: "'s blk \<Rightarrow> 's \<Rightarrow> int \<Rightarrow> u32 \<Rightarrow> u8 \<Rightarrow> 's \<times> u8 list option" where
  "disk_read = blk_read"

definition disk_write :: "'s blk \<Rightarrow> 's \<Rightarrow> int \<Rightarrow> u32 \<Rightarrow> u8 \<Rightarrow> u8 list option \<Rightarrow> 's \<times> bool" where
  "disk_write = blk_write"

definition disk_sync :: "'s blk \<Rightarrow> 's \<Rightarrow> int \<Rightarrow> 's \<times> bool" where
  "disk_sync = blk_sync"

lemma blk_ids_disjoint: "\<not> (blk_is_usb d \<and> blk_is_ahci d)"
  by (auto simp: blk_is_usb_def blk_is_ahci_def)

text \<open>A request that is let through lies inside the disk.\<close>

lemma blk_read_range:
  assumes "blk_read b s disk lba n = (s', Some bs)"
  shows "n \<noteq> 0" "unat lba + unat n \<le> unat (blk_sectors b s disk)"
proof -
  have g: "n \<noteq> 0 \<and> lba < blk_sectors b s disk \<and> ucast n \<le> blk_sectors b s disk - lba"
    using assms by (auto simp: blk_read_def Let_def not_le not_less split: if_splits)
  then show "n \<noteq> 0" by blast
  have "unat (blk_sectors b s disk - lba) = unat (blk_sectors b s disk) - unat lba"
    using g by (intro unat_sub_u32 order_less_imp_le) blast
  moreover have "unat (ucast n :: u32) = unat n"
    by (rule unat_ucast_8_32)
  ultimately show "unat lba + unat n \<le> unat (blk_sectors b s disk)"
    using g by (simp add: word_le_nat_alt word_less_nat_alt) arith
qed

end
