(* ===== verification/Vfs.thy ===== *)
theory Vfs
  imports Native_Name Blk
begin

text \<open>
  The VFS router of \<^verbatim>\<open>kernel/vfs.c\<close>: the volume table, path resolution, the routing of
  every operation to the driver of the volume, and the path helpers. A driver is a
  record of its operations over a common system state; an operation a driver lacks is
  \<open>None\<close>. The private pointer \<^verbatim>\<open>fs\<close> is a number that is handed through. The namespace
  generation lives in the system state and is read through \<open>gen\<close>.
\<close>

section \<open>Data\<close>

datatype fs_kind = FS_NONE | FS_RAMFS | FS_KVFS | FS_FAT16 | FS_FAT32 | FS_NTFS | FS_UNKNOWN

record vfs_dirent =
  vd_name :: "u8 list"
  vd_size :: u32
  vd_is_dir :: bool
  vd_is_readonly :: bool
  vd_is_hidden :: bool
  vd_is_system :: bool
  vd_year :: u16
  vd_month :: u8
  vd_day :: u8
  vd_hour :: u8
  vd_min :: u8

definition blank_dirent :: vfs_dirent where
  "blank_dirent = \<lparr>vd_name = replicate 128 0, vd_size = 0, vd_is_dir = False, vd_is_readonly = False,
     vd_is_hidden = False, vd_is_system = False, vd_year = 0, vd_month = 0, vd_day = 0, vd_hour = 0,
     vd_min = 0\<rparr>"

record 's vfs_ops =
  op_readdir :: "('s \<Rightarrow> nat \<Rightarrow> cstring \<Rightarrow> int \<Rightarrow> 's \<times> int \<times> vfs_dirent) option"
  op_read :: "('s \<Rightarrow> nat \<Rightarrow> cstring \<Rightarrow> u32 \<Rightarrow> u32 \<Rightarrow> 's \<times> int \<times> u8 list) option"
  op_size :: "('s \<Rightarrow> nat \<Rightarrow> cstring \<Rightarrow> 's \<times> u32) option"
  op_stat :: "('s \<Rightarrow> nat \<Rightarrow> cstring \<Rightarrow> 's \<times> int) option"
  op_write :: "('s \<Rightarrow> nat \<Rightarrow> cstring \<Rightarrow> u8 list option \<Rightarrow> u32 \<Rightarrow> 's \<times> int) option"
  op_remove :: "('s \<Rightarrow> nat \<Rightarrow> cstring \<Rightarrow> 's \<times> int) option"
  op_mkdir :: "('s \<Rightarrow> nat \<Rightarrow> cstring \<Rightarrow> 's \<times> int) option"
  op_space :: "('s \<Rightarrow> nat \<Rightarrow> 's \<times> u32 \<times> u32) option"
  op_readdir_many :: "('s \<Rightarrow> nat \<Rightarrow> cstring \<Rightarrow> int \<Rightarrow> int \<Rightarrow> 's \<times> int \<times> vfs_dirent list) option"
  op_rename :: "('s \<Rightarrow> nat \<Rightarrow> cstring \<Rightarrow> cstring \<Rightarrow> 's \<times> int) option"

record 's vfs_volume =
  vol_name :: "u8 list"
  vol_label :: "u8 list"
  vol_kind :: fs_kind
  vol_ops :: "'s vfs_ops option"
  vol_fs :: nat
  vol_disk :: int
  vol_lba_start :: u32
  vol_lba_count :: u32
  vol_writable :: bool
  vol_used :: bool

type_synonym 's volumes = "'s vfs_volume list"

definition no_volume :: "'s vfs_volume" where
  "no_volume = \<lparr>vol_name = replicate 16 0, vol_label = replicate 32 0, vol_kind = FS_NONE, vol_ops = None,
     vol_fs = 0, vol_disk = 0, vol_lba_start = 0, vol_lba_count = 0, vol_writable = False, vol_used = False\<rparr>"

section \<open>The volume table\<close>

text \<open>\<^verbatim>\<open>vfs_init\<close> also resets the FAT and NTFS drivers, which is the parameter \<open>reset\<close>.\<close>

definition vfs_init :: "('s \<Rightarrow> 's) \<Rightarrow> 's \<Rightarrow> 's volumes \<times> 's" where
  "vfs_init reset s = (replicate 8 no_volume, reset s)"

definition vfs_mount :: "'s volumes \<Rightarrow> cstring \<Rightarrow> fs_kind \<Rightarrow> 's vfs_ops option \<Rightarrow> nat \<Rightarrow> int \<Rightarrow> u32 \<Rightarrow> u32
    \<Rightarrow> cstring option \<Rightarrow> bool \<Rightarrow> 's volumes \<times> int" where
  "vfs_mount vs name kind ops fs disk lba count label writable =
     (case first_index (\<lambda>v. \<not> vol_used v) vs 0 of
        None \<Rightarrow> (vs, -1)
      | Some i \<Rightarrow>
          (vs[i := \<lparr>vol_name = strfield 16 name,
             vol_label = (case label of None \<Rightarrow> replicate 32 0 | Some l \<Rightarrow> strfield 32 l),
             vol_kind = kind, vol_ops = ops, vol_fs = fs, vol_disk = disk, vol_lba_start = lba,
             vol_lba_count = count, vol_writable = (writable \<and> \<not> blk_is_usb disk), vol_used = True\<rparr>], int i))"

definition vfs_volume_count :: "'s volumes \<Rightarrow> int" where
  "vfs_volume_count vs = int (length (filter vol_used vs))"

fun volume_from :: "'s volumes \<Rightarrow> nat \<Rightarrow> int \<Rightarrow> int \<Rightarrow> nat option" where
  "volume_from [] k n i = None"
| "volume_from (v # vs) k n i =
     (if \<not> vol_used v then volume_from vs (k + 1) n i
      else if n = i then Some k else volume_from vs (k + 1) (n + 1) i)"

definition vfs_volume_at :: "'s volumes \<Rightarrow> int \<Rightarrow> nat option" where
  "vfs_volume_at vs i = volume_from vs 0 0 i"

definition vfs_find :: "'s volumes \<Rightarrow> cstring \<Rightarrow> nat option" where
  "vfs_find vs name = first_index (\<lambda>v. vol_used v \<and> cstr (vol_name v) = name) vs 0"

section \<open>Resolution\<close>

abbreviation slash :: u8 where "slash \<equiv> 0x2F"

text \<open>The literal \<^verbatim>\<open>"mnt"\<close>.\<close>

definition mnt :: cstring where "mnt = [0x6D, 0x6E, 0x74]"

definition skip_slashes :: "cstring \<Rightarrow> cstring" where
  "skip_slashes p = dropWhile (\<lambda>c. c = slash) p"

text \<open>The optional \<^verbatim>\<open>mnt/\<close> prefix, and the volume component of at most 15 bytes.\<close>

definition strip_mnt :: "cstring \<Rightarrow> cstring" where
  "strip_mnt p = (if take 3 p = mnt \<and> (drop 3 p = [] \<or> hd (drop 3 p) = slash)
     then skip_slashes (drop 3 p) else p)"

definition volume_part :: "cstring \<Rightarrow> cstring" where
  "volume_part p = take 15 (takeWhile (\<lambda>c. c \<noteq> slash) p)"

definition resolve :: "'s volumes \<Rightarrow> cstring option \<Rightarrow> (nat \<times> cstring) option" where
  "resolve vs path =
     (case path of None \<Rightarrow> None | Some path \<Rightarrow>
      if path = [] \<or> hd path \<noteq> slash then None
      else let p = strip_mnt (skip_slashes path); vol = volume_part p; p = drop (length vol) p in
        if p \<noteq> [] \<and> hd p \<noteq> slash then None
        else if vol = [] then None
        else case vfs_find vs vol of None \<Rightarrow> None
          | Some i \<Rightarrow> Some (i, if p = [] then [slash] else p))"

section \<open>Operations\<close>

definition vfs_readdir :: "('s \<Rightarrow> u32) \<Rightarrow> 's volumes \<Rightarrow> cstring option \<Rightarrow> int \<Rightarrow> 's \<Rightarrow> 's \<times> int \<times> vfs_dirent" where
  "vfs_readdir gen vs path index s =
     (if index < 0 then (s, -1, blank_dirent)
      else case resolve vs path of None \<Rightarrow> (s, -1, blank_dirent) | Some (i, rest) \<Rightarrow>
      case vol_ops (vs ! i) of None \<Rightarrow> (s, -1, blank_dirent) | Some ops \<Rightarrow>
      case op_readdir ops of None \<Rightarrow> (s, -1, blank_dirent) | Some f \<Rightarrow>
        (case f s (vol_fs (vs ! i)) rest index of (s', r, e) \<Rightarrow>
          (s', if gen s \<noteq> 0 \<and> gen s = gen s' \<and> (r = 0 \<or> r = 1) then r else -1, e)))"

fun many_loop :: "('s \<Rightarrow> u32) \<Rightarrow> ('s \<Rightarrow> nat \<Rightarrow> cstring \<Rightarrow> int \<Rightarrow> 's \<times> int \<times> vfs_dirent) \<Rightarrow> nat \<Rightarrow> cstring
    \<Rightarrow> u32 \<Rightarrow> int \<Rightarrow> nat \<Rightarrow> vfs_dirent list \<Rightarrow> 's \<Rightarrow> 's \<times> int \<times> vfs_dirent list" where
  "many_loop gen f fs rest epoch first 0 acc s = (s, int (length acc), acc)"
| "many_loop gen f fs rest epoch first (Suc k) acc s =
     (case f s fs rest (first + int (length acc)) of (s', r, e) \<Rightarrow>
        if epoch \<noteq> gen s' \<or> (r \<noteq> 0 \<and> r \<noteq> 1) then (s', -1, acc)
        else if r = 0 then (s', int (length acc), acc)
        else many_loop gen f fs rest epoch first k (acc @ [e]) s')"

definition vfs_readdir_many :: "('s \<Rightarrow> u32) \<Rightarrow> 's volumes \<Rightarrow> cstring option \<Rightarrow> int \<Rightarrow> int \<Rightarrow> 's
    \<Rightarrow> 's \<times> int \<times> vfs_dirent list" where
  "vfs_readdir_many gen vs path first count s =
     (if first < 0 \<or> count < 1 \<or> count > 128 \<or> first > 0x7FFFFFFF - count then (s, -1, [])
      else case resolve vs path of None \<Rightarrow> (s, -1, []) | Some (i, rest) \<Rightarrow>
      case vol_ops (vs ! i) of None \<Rightarrow> (s, -1, []) | Some ops \<Rightarrow>
      (let epoch = gen s; fs = vol_fs (vs ! i);
           finish = (\<lambda>(s', n, es). (s', if epoch \<noteq> 0 \<and> epoch = gen s' \<and> n \<ge> 0 \<and> n \<le> count then n else -1, es)) in
       case op_readdir_many ops of
         Some f \<Rightarrow> finish (f s fs rest first count)
       | None \<Rightarrow> (case op_readdir ops of
           None \<Rightarrow> (s, -1, [])
         | Some f \<Rightarrow> finish (many_loop gen f fs rest epoch first (nat count) [] s))))"

definition vfs_read :: "'s volumes \<Rightarrow> cstring option \<Rightarrow> u32 \<Rightarrow> u32 \<Rightarrow> 's \<Rightarrow> 's \<times> int \<times> u8 list" where
  "vfs_read vs path off mx s =
     (case resolve vs path of None \<Rightarrow> (s, -1, []) | Some (i, rest) \<Rightarrow>
      case vol_ops (vs ! i) of None \<Rightarrow> (s, -1, []) | Some ops \<Rightarrow>
      case op_read ops of None \<Rightarrow> (s, -1, []) | Some f \<Rightarrow> f s (vol_fs (vs ! i)) rest off mx)"

definition vfs_size :: "'s volumes \<Rightarrow> cstring option \<Rightarrow> 's \<Rightarrow> 's \<times> u32" where
  "vfs_size vs path s =
     (case resolve vs path of None \<Rightarrow> (s, 0) | Some (i, rest) \<Rightarrow>
      case vol_ops (vs ! i) of None \<Rightarrow> (s, 0) | Some ops \<Rightarrow>
      case op_size ops of None \<Rightarrow> (s, 0) | Some f \<Rightarrow> f s (vol_fs (vs ! i)) rest)"

definition vfs_stat :: "'s volumes \<Rightarrow> cstring option \<Rightarrow> 's \<Rightarrow> 's \<times> int" where
  "vfs_stat vs path s =
     (case resolve vs path of None \<Rightarrow> (s, 0) | Some (i, rest) \<Rightarrow>
      case vol_ops (vs ! i) of None \<Rightarrow> (s, 0) | Some ops \<Rightarrow>
      case op_stat ops of None \<Rightarrow> (s, 0) | Some f \<Rightarrow> f s (vol_fs (vs ! i)) rest)"

text \<open>The writing side: -1 no volume, -2 read-only volume or operation not supported.\<close>

definition writing_op :: "('s vfs_ops \<Rightarrow> 'f option) \<Rightarrow> 's vfs_volume \<Rightarrow> 'f option" where
  "writing_op sel v =
     (if \<not> vol_writable v then None else case vol_ops v of None \<Rightarrow> None | Some ops \<Rightarrow> sel ops)"

definition vfs_write :: "'s volumes \<Rightarrow> cstring option \<Rightarrow> u8 list option \<Rightarrow> u32 \<Rightarrow> 's \<Rightarrow> 's \<times> int" where
  "vfs_write vs path data sz s =
     (case resolve vs path of None \<Rightarrow> (s, -1) | Some (i, rest) \<Rightarrow>
      case writing_op op_write (vs ! i) of None \<Rightarrow> (s, -2)
      | Some f \<Rightarrow> f s (vol_fs (vs ! i)) rest data sz)"

definition vfs_remove :: "'s volumes \<Rightarrow> cstring option \<Rightarrow> 's \<Rightarrow> 's \<times> int" where
  "vfs_remove vs path s =
     (case resolve vs path of None \<Rightarrow> (s, -1) | Some (i, rest) \<Rightarrow>
      case writing_op op_remove (vs ! i) of None \<Rightarrow> (s, -2)
      | Some f \<Rightarrow> f s (vol_fs (vs ! i)) rest)"

definition vfs_can_rename :: "'s volumes \<Rightarrow> cstring option \<Rightarrow> bool" where
  "vfs_can_rename vs path \<longleftrightarrow>
     (case resolve vs path of None \<Rightarrow> False | Some (i, rest) \<Rightarrow> writing_op op_rename (vs ! i) \<noteq> None)"

definition path_fits :: "cstring option \<Rightarrow> bool" where
  "path_fits path \<longleftrightarrow> (case path of None \<Rightarrow> False | Some p \<Rightarrow> p \<noteq> [] \<and> length p < 256)"

definition vfs_rename :: "'s volumes \<Rightarrow> cstring option \<Rightarrow> cstring option \<Rightarrow> 's \<Rightarrow> 's \<times> int" where
  "vfs_rename vs from to s =
     (if \<not> path_fits from \<or> \<not> path_fits to then (s, -4)
      else case (resolve vs from, resolve vs to) of
        (Some (i, old), Some (j, new)) \<Rightarrow>
          if i \<noteq> j then (s, -7)
          else (case writing_op op_rename (vs ! i) of None \<Rightarrow> (s, -2)
            | Some f \<Rightarrow> f s (vol_fs (vs ! i)) old new)
      | _ \<Rightarrow> (s, -1))"

definition vfs_mkdir :: "'s volumes \<Rightarrow> cstring option \<Rightarrow> 's \<Rightarrow> 's \<times> int" where
  "vfs_mkdir vs path s =
     (case resolve vs path of None \<Rightarrow> (s, -1) | Some (i, rest) \<Rightarrow>
      case writing_op op_mkdir (vs ! i) of None \<Rightarrow> (s, -2)
      | Some f \<Rightarrow> f s (vol_fs (vs ! i)) rest)"

definition vfs_space :: "'s volumes \<Rightarrow> cstring option \<Rightarrow> 's \<Rightarrow> 's \<times> u32 \<times> u32" where
  "vfs_space vs path s =
     (case resolve vs path of None \<Rightarrow> (s, 0, 0) | Some (i, rest) \<Rightarrow>
      case vol_ops (vs ! i) of None \<Rightarrow> (s, 0, 0) | Some ops \<Rightarrow>
      case op_space ops of None \<Rightarrow> (s, 0, 0) | Some f \<Rightarrow> f s (vol_fs (vs ! i)))"

definition vfs_writable :: "'s volumes \<Rightarrow> cstring option \<Rightarrow> bool" where
  "vfs_writable vs path \<longleftrightarrow>
     (case resolve vs path of None \<Rightarrow> False | Some (i, rest) \<Rightarrow> writing_op op_write (vs ! i) \<noteq> None)"

section \<open>Path helpers\<close>

text \<open>\<^verbatim>\<open>dst\<close> is the string left in the buffer of \<open>cap\<close> bytes.\<close>

definition vfs_join :: "nat \<Rightarrow> cstring \<Rightarrow> cstring \<Rightarrow> cstring" where
  "vfs_join cap dir name =
     (let d = take (cap - 1) dir;
          d = (if d \<noteq> [] \<and> last d \<noteq> slash \<and> length d < cap - 1 then d @ [slash] else d) in
      d @ take (cap - 1 - length d) name)"

definition vfs_parent :: "nat \<Rightarrow> cstring \<Rightarrow> cstring" where
  "vfs_parent cap path =
     (let d = take (cap - 1) path in
      if d = [] then []
      else let d = (if last d = slash then butlast d else d);
               d = rev (dropWhile (\<lambda>c. c \<noteq> slash) (rev d));
               d = (if length d > 1 \<and> last d = slash then butlast d else d) in
        if d = [] then [slash] else d)"

definition vfs_is_root :: "'s volumes \<Rightarrow> cstring option \<Rightarrow> bool" where
  "vfs_is_root vs path \<longleftrightarrow>
     (case resolve vs path of None \<Rightarrow> True | Some (i, rest) \<Rightarrow> rest = [slash])"

section \<open>Facts\<close>

lemma vfs_find_iff:
  "vfs_find vs name = Some i \<longleftrightarrow> i < length vs \<and> vol_used (vs ! i) \<and> cstr (vol_name (vs ! i)) = name \<and>
     (\<forall>j<i. \<not> (vol_used (vs ! j) \<and> cstr (vol_name (vs ! j)) = name))"
  by (auto simp: vfs_find_def first_index_0)

lemma skip_slashes_split: "\<exists>k. p = replicate k slash @ skip_slashes p"
proof (induction p)
  case (Cons c p)
  then obtain k where "p = replicate k slash @ skip_slashes p" by blast
  then show ?case
    unfolding skip_slashes_def
    by (cases "c = slash") (auto intro: exI[of _ "Suc k"] exI[of _ 0])
qed (simp add: skip_slashes_def)

lemma skip_slashes_hd: "skip_slashes p = [] \<or> hd (skip_slashes p) \<noteq> slash"
  unfolding skip_slashes_def using hd_dropWhile[of "\<lambda>c. c = slash" p] by blast

lemma skip_slashes_id: "p = [] \<or> hd p \<noteq> slash \<Longrightarrow> skip_slashes p = p"
  by (cases p) (auto simp: skip_slashes_def)

lemma skip_one: "skip_slashes (slash # p) = skip_slashes p"
  by (simp add: skip_slashes_def)

text \<open>The volume component ends at a slash or at the end: it is never cut short.\<close>

lemma component_whole:
  shows "p = volume_part p @ drop (length (volume_part p)) p" "slash \<notin> set (volume_part p)"
proof -
  let ?vol = "volume_part p" let ?w = "takeWhile (\<lambda>c. c \<noteq> slash) p"
  have p: "p = ?w @ dropWhile (\<lambda>c. c \<noteq> slash) p" by simp
  have w: "?w = ?vol @ drop 15 ?w" unfolding volume_part_def by (rule append_take_drop_id[symmetric])
  have "p = ?vol @ (drop 15 ?w @ dropWhile (\<lambda>c. c \<noteq> slash) p)"
    by (subst p, subst w, rule append_assoc)
  then show "p = ?vol @ drop (length ?vol) p" by (metis append_eq_conv_conj)
  show "slash \<notin> set ?vol"
    unfolding volume_part_def by (auto dest!: in_set_takeD set_takeWhileD)
qed

definition mount_prefix :: "cstring \<Rightarrow> bool" where
  "mount_prefix pre \<longleftrightarrow> (\<exists>k>0. pre = replicate k slash \<or>
     (\<exists>m>0. pre = replicate k slash @ mnt @ replicate m slash))"

lemma resolve_sound:
  assumes r: "resolve vs (Some path) = Some (i, rest)"
  shows "\<exists>pre tail. path = pre @ cstr (vol_name (vs ! i)) @ tail \<and> mount_prefix pre \<and>
    (tail = [] \<and> rest = [slash] \<or> tail \<noteq> [] \<and> hd tail = slash \<and> rest = tail) \<and>
    cstr (vol_name (vs ! i)) \<noteq> [] \<and> slash \<notin> set (cstr (vol_name (vs ! i))) \<and>
    i < length vs \<and> vol_used (vs ! i)"
proof -
  let ?p = "skip_slashes path"
  define q where "q = strip_mnt ?p"
  define vol where "vol = volume_part q"
  define t where "t = drop (length vol) q"
  have c: "path \<noteq> []" "hd path = slash" "t = [] \<or> hd t = slash" "vol \<noteq> []"
    "vfs_find vs vol = Some i" "rest = (if t = [] then [slash] else t)"
    using r unfolding resolve_def Let_def option.case q_def[symmetric] vol_def[symmetric] t_def[symmetric]
    by (auto split: if_splits option.splits)
  have q: "q = vol @ t" "slash \<notin> set vol"
    using component_whole[of q] unfolding t_def vol_def by blast+
  obtain k where k: "path = replicate k slash @ ?p" using skip_slashes_split by blast
  have k0: "k > 0"
    using c(1,2) k skip_slashes_hd[of path] by (cases k) auto
  have "\<exists>pre. path = pre @ q \<and> mount_prefix pre"
  proof (cases "q = ?p")
    case True
    then show ?thesis using k k0 unfolding mount_prefix_def by metis
  next
    case False
    then have m: "take 3 ?p = mnt" "q = skip_slashes (drop 3 ?p)" by (auto simp: q_def strip_mnt_def split: if_splits)
    obtain l where l: "drop 3 ?p = replicate l slash @ q" using skip_slashes_split m(2) by metis
    have p: "?p = mnt @ replicate l slash @ q" using m(1) l by (metis append_take_drop_id)
    have "drop 3 ?p \<noteq> []" using l q(1) c(4) by auto
    then have "hd (drop 3 ?p) = slash" using False by (auto simp: q_def strip_mnt_def split: if_splits)
    then have "l > 0" using l q c(4) by (cases l; cases vol) auto
    then show ?thesis
      using k k0 p unfolding mount_prefix_def by (intro exI[of _ "replicate k slash @ mnt @ replicate l slash"]) auto
  qed
  then obtain pre where "path = pre @ vol @ t" "mount_prefix pre" using q(1) by auto
  then show ?thesis
    using c q(2) unfolding vfs_find_iff by (intro exI[of _ pre] exI[of _ t]) auto
qed

lemma resolve_mnt:
  assumes "vfs_find vs nm = Some i" "nm \<noteq> []" "slash \<notin> set nm" "length nm < 16"
    and "tail = [] \<or> hd tail = slash"
  shows "resolve vs (Some ([slash] @ mnt @ [slash] @ nm @ tail)) = Some (i, if tail = [] then [slash] else tail)"
proof -
  let ?q = "nm @ tail"
  have hd: "hd ?q \<noteq> slash" "?q \<noteq> []" using assms(2,3) by (cases nm; auto)+
  have s: "skip_slashes ([slash] @ mnt @ [slash] @ ?q) = mnt @ [slash] @ ?q"
    by (simp add: mnt_def skip_one skip_slashes_id)
  have d: "strip_mnt (mnt @ [slash] @ ?q) = ?q"
    using hd by (simp add: strip_mnt_def mnt_def skip_one skip_slashes_id)
  have "takeWhile (\<lambda>c. c \<noteq> slash) tail = []" using assms(5) by (cases tail) auto
  then have "takeWhile (\<lambda>c. c \<noteq> slash) ?q = nm"
    using assms(3) by (subst takeWhile_append2) auto
  then have v: "volume_part ?q = nm" using assms(4) by (simp add: volume_part_def)
  show ?thesis
    unfolding resolve_def option.case Let_def s d v using assms(1,2,5) by simp
qed

section \<open>Properties\<close>

text \<open>The table with one volume \<^verbatim>\<open>"ram"\<close>, and the string of its name.\<close>

definition ram_name :: cstring where "ram_name = [0x72, 0x61, 0x6D]"

definition lab_volumes :: "unit volumes" where
  "lab_volumes = fst (vfs_mount (replicate 8 no_volume) ram_name FS_RAMFS None 0 (-1) 0 0 None True)"

lemma first_mount:
  fixes ops :: "'s vfs_ops option"
  shows "vfs_mount (replicate 8 no_volume) name kind ops fs disk lba count label writable =
     ((replicate 8 no_volume)[0 := \<lparr>vol_name = strfield 16 name,
        vol_label = (case label of None \<Rightarrow> replicate 32 0 | Some l \<Rightarrow> strfield 32 l),
        vol_kind = kind, vol_ops = ops, vol_fs = fs, vol_disk = disk, vol_lba_start = lba,
        vol_lba_count = count, vol_writable = (writable \<and> \<not> blk_is_usb disk), vol_used = True\<rparr>], 0)"
proof -
  have "first_index (\<lambda>v. \<not> vol_used v) (replicate 8 (no_volume :: 's vfs_volume)) 0 = Some 0"
    by (simp add: first_index_0 no_volume_def)
  then show ?thesis by (simp add: vfs_mount_def)
qed

lemma ram_name_plain: "length ram_name < 16" "0 \<notin> set ram_name" "slash \<notin> set ram_name" "ram_name \<noteq> []"
  by (simp_all add: ram_name_def)

lemma lab_find: "vfs_find lab_volumes ram_name = Some 0"
  by (simp add: vfs_find_iff lab_volumes_def first_mount ram_name_plain)

text \<open>C9. Resolution is exact: a path that resolves consists of slashes (with an optional
  \<^verbatim>\<open>mnt\<close> component), the whole name of the volume it resolves to, and the rest handed to
  the driver; the name is neither cut short nor matched against a longer component.\<close>

theorem vfs_resolve_exact:
  assumes "resolve vs (Some path) = Some (i, rest)"
  shows "\<exists>pre tail. path = pre @ cstr (vol_name (vs ! i)) @ tail \<and> mount_prefix pre \<and>
    (tail = [] \<and> rest = [slash] \<or> tail \<noteq> [] \<and> hd tail = slash \<and> rest = tail) \<and>
    cstr (vol_name (vs ! i)) \<noteq> [] \<and> slash \<notin> set (cstr (vol_name (vs ! i))) \<and>
    i < length vs \<and> vol_used (vs ! i)"
  using assms by (rule resolve_sound)

lemma vfs_resolve_exact_witness:
  "0 < length lab_volumes \<and> vol_used (lab_volumes ! 0)"
proof -
  have "resolve lab_volumes (Some ([slash] @ mnt @ [slash] @ ram_name @ [])) = Some (0, [slash])"
    using resolve_mnt[OF lab_find, of "[]"] ram_name_plain by simp
  from vfs_resolve_exact[OF this] show ?thesis by auto
qed

text \<open>A mount of a USB disk is never writable, whatever the caller asked for: no writing
  operation on a path of that volume reaches the driver or changes the system state.\<close>

theorem vfs_usb_read_only:
  assumes "vfs_mount vs name kind ops fs disk lba count label writable = (vs', k)" "0 \<le> k"
    "blk_is_usb disk" "resolve vs' (Some path) = Some (nat k, rest)"
  shows "vfs_write vs' (Some path) data sz s = (s, -2) \<and> vfs_remove vs' (Some path) s = (s, -2) \<and>
    vfs_mkdir vs' (Some path) s = (s, -2) \<and> \<not> vfs_writable vs' (Some path) \<and>
    \<not> vfs_can_rename vs' (Some path) \<and> fst (vfs_rename vs' (Some path) to s) = s"
proof -
  have "nat k < length vs' \<and> \<not> vol_writable (vs' ! nat k)"
    using assms(1-3) by (auto simp: vfs_mount_def first_index_0 split: option.splits)
  then have w: "writing_op sel (vs' ! nat k) = None" for sel :: "'a vfs_ops \<Rightarrow> 'f option"
    by (simp add: writing_op_def)
  show ?thesis
    using assms(4)
    by (auto simp: vfs_write_def vfs_remove_def vfs_mkdir_def vfs_writable_def vfs_can_rename_def
        vfs_rename_def w split: option.splits)
qed

definition usb_volumes :: "unit volumes" where
  "usb_volumes = fst (vfs_mount (replicate 8 no_volume) ram_name FS_FAT32 None 0 4 0 0 None True)"

lemma vfs_usb_read_only_witness:
  "vfs_write usb_volumes (Some ([slash] @ mnt @ [slash] @ ram_name)) None 0 () = ((), -2)"
proof -
  have m: "vfs_mount (replicate 8 no_volume) ram_name FS_FAT32 None 0 4 0 0 None True = (usb_volumes, 0)"
    by (simp add: usb_volumes_def first_mount)
  have "vfs_find usb_volumes ram_name = Some 0"
    by (simp add: vfs_find_iff usb_volumes_def first_mount ram_name_plain)
  then have r: "resolve usb_volumes (Some ([slash] @ mnt @ [slash] @ ram_name)) = Some (nat 0, [slash])"
    using resolve_mnt[of usb_volumes ram_name 0 "[]"] ram_name_plain by simp
  show ?thesis
    using vfs_usb_read_only[OF m _ _ r] by (simp add: blk_is_usb_def)
qed

text \<open>Joining and taking the parent are inverse: for a directory path in canonical form
  and a name without slashes that fit the buffer, the parent of the joined path is the
  directory again.\<close>

theorem vfs_parent_join:
  assumes "d = [slash] \<or> (d \<noteq> [] \<and> hd d = slash \<and> last d \<noteq> slash)" "nm \<noteq> []" "slash \<notin> set nm"
    "length d + 1 + length nm < cap"
  shows "vfs_parent cap (vfs_join cap d nm) = d"
proof -
  define e where "e = (if last d \<noteq> slash then d @ [slash] else d)"
  have j: "vfs_join cap d nm = e @ nm"
    using assms by (auto simp: vfs_join_def Let_def e_def)
  have "\<exists>f. e = f @ [slash] \<and> d = (if f = [] then [slash] else f)"
  proof (cases "d = [slash]")
    case True
    then show ?thesis by (intro exI[of _ "[]"]) (simp add: e_def)
  next
    case False
    then show ?thesis using assms(1) by (intro exI[of _ d]) (simp add: e_def)
  qed
  then obtain f where f: "e = f @ [slash]" "d = (if f = [] then [slash] else f)" by blast
  have last: "last (e @ nm) \<noteq> slash" using assms(2,3) by (metis last_appendR last_in_set)
  have len: "take (cap - 1) (e @ nm) = e @ nm" "e @ nm \<noteq> []"
    using assms(2,4) by (auto simp: e_def)
  have "dropWhile (\<lambda>c. c \<noteq> slash) (rev nm @ rev e) = dropWhile (\<lambda>c. c \<noteq> slash) (rev e)"
    by (rule dropWhile_append2) (use assms(3) in auto)
  also have "\<dots> = rev e" using f(1) by simp
  finally have drop: "dropWhile (\<lambda>c. c \<noteq> slash) (rev (e @ nm)) = rev e" by simp
  show ?thesis
    unfolding vfs_parent_def j Let_def len(1) using last len(2) drop f by auto
qed

lemma vfs_parent_join_witness:
  "vfs_parent 256 (vfs_join 256 ([slash] @ mnt) ram_name) = [slash] @ mnt"
  by (rule vfs_parent_join) (simp_all add: mnt_def ram_name_def)

end
