(* ===== verification/Ramfs.thy ===== *)
theory Ramfs
  imports Native_Name
begin

text \<open>
  ramfs, the flat in-memory filesystem of \<^verbatim>\<open>kernel/ramfs.c\<close>. A file's data pointer is
  the list of bytes it points to; \<^verbatim>\<open>kmalloc\<close> takes its outcomes from a plan and hands
  out memory with arbitrary old contents (\<open>rf_junk\<close>), so that every property holds for
  every pattern of failing allocations. Names and data are pointers: \<open>None\<close> is NULL.
\<close>

section \<open>Data\<close>

record rfile =
  rf_name :: "u8 list"
  rf_data :: "u8 list option"
  rf_size :: u32
  rf_used :: bool

record ramfs =
  ram_files :: "rfile list"
  ram_alloc :: "bool list"
  ram_junk :: "nat \<Rightarrow> u8"

definition no_rfile :: rfile where
  "no_rfile = \<lparr>rf_name = replicate 24 0, rf_data = None, rf_size = 0, rf_used = False\<rparr>"

text \<open>\<^verbatim>\<open>kmalloc\<close>: a request of 0 bytes fails, others as planned (then they succeed).\<close>

definition ram_kmalloc :: "u32 \<Rightarrow> ramfs \<Rightarrow> ramfs \<times> u8 list option" where
  "ram_kmalloc n r =
     (if n = 0 then (r, None)
      else case ram_alloc r of
        [] \<Rightarrow> (r, Some (map (ram_junk r) [0..<unat n]))
      | ok # oks \<Rightarrow> (r\<lparr>ram_alloc := oks\<rparr>, if ok then Some (map (ram_junk r) [0..<unat n]) else None))"

section \<open>Operations\<close>

definition ramfs_find :: "ramfs \<Rightarrow> cstring \<Rightarrow> nat option" where
  "ramfs_find r name = first_index (\<lambda>f. rf_used f \<and> cstr (rf_name f) = name) (ram_files r) 0"

definition ram_set :: "nat \<Rightarrow> (rfile \<Rightarrow> rfile) \<Rightarrow> ramfs \<Rightarrow> ramfs" where
  "ram_set i g r = r\<lparr>ram_files := (ram_files r)[i := g (ram_files r ! i)]\<rparr>"

text \<open>\<^verbatim>\<open>memcpy\<close> of the first \<open>n\<close> bytes and the terminator over a fresh block.\<close>

definition fill_block :: "u8 list option \<Rightarrow> nat \<Rightarrow> u8 list \<Rightarrow> u8 list" where
  "fill_block data n mem =
     (case data of None \<Rightarrow> take n mem | Some d \<Rightarrow> take n d) @ [0]"

definition ramfs_create :: "ramfs \<Rightarrow> cstring option \<Rightarrow> u8 list option \<Rightarrow> u32 \<Rightarrow> ramfs \<times> int" where
  "ramfs_create r name data sz =
     (case name of None \<Rightarrow> (r, -4) | Some nm \<Rightarrow>
      if nm = [] then (r, -4)
      else if length nm \<ge> 24 then (r, -5)
      else if ramfs_find r nm \<noteq> None then (r, -2)
      else let sz = (case data of None \<Rightarrow> sz | Some d \<Rightarrow> if sz = 0 then of_nat (length (cstr d)) else sz) in
      case first_index (\<lambda>f. \<not> rf_used f) (ram_files r) 0 of
        None \<Rightarrow> (r, -1)
      | Some i \<Rightarrow>
          let r = ram_set i (\<lambda>f. f\<lparr>rf_name := strfield 24 nm\<rparr>) r in
          case ram_kmalloc (sz + 1) r of
            (r, None) \<Rightarrow> (ram_set i (\<lambda>f. f\<lparr>rf_data := None\<rparr>) r, -3)
          | (r, Some mem) \<Rightarrow>
              (ram_set i (\<lambda>f. f\<lparr>rf_data := Some (fill_block data (unat sz) mem),
                               rf_size := sz, rf_used := True\<rparr>) r, 0))"

definition ramfs_write :: "ramfs \<Rightarrow> cstring option \<Rightarrow> u8 list option \<Rightarrow> u32 \<Rightarrow> ramfs \<times> int" where
  "ramfs_write r name data sz =
     (case name of None \<Rightarrow> (r, -4) | Some nm \<Rightarrow>
      if nm = [] then (r, -4)
      else if length nm \<ge> 24 then (r, -5)
      else let sz = (case data of None \<Rightarrow> sz | Some d \<Rightarrow> if sz = 0 then of_nat (length (cstr d)) else sz) in
      if sz = 0xFFFFFFFF then (r, -3)
      else case ramfs_find r nm of
        None \<Rightarrow> ramfs_create r name data sz
      | Some i \<Rightarrow> (case ram_kmalloc (sz + 1) r of
          (r, None) \<Rightarrow> (r, -3)
        | (r, Some mem) \<Rightarrow>
            (ram_set i (\<lambda>f. f\<lparr>rf_data := Some (fill_block
                (case data of None \<Rightarrow> Some (replicate (unat sz) 0) | Some d \<Rightarrow> Some d) (unat sz) mem),
                rf_size := sz\<rparr>) r, 0)))"

definition ramfs_delete :: "ramfs \<Rightarrow> cstring \<Rightarrow> ramfs \<times> int" where
  "ramfs_delete r name =
     (case ramfs_find r name of
        None \<Rightarrow> (r, -1)
      | Some i \<Rightarrow> (ram_set i (\<lambda>_. no_rfile) r, 0))"

definition ramfs_rename :: "ramfs \<Rightarrow> cstring option \<Rightarrow> cstring option \<Rightarrow> ramfs \<times> int" where
  "ramfs_rename r from to =
     (let len = native_name_length to 24 in
      if len < 0 \<or> native_name_length from 24 < 0 then (r, -4)
      else let copy = take (nat len) (the to) @ replicate (24 - nat len) 0 in
      case ramfs_find r (the from) of
        None \<Rightarrow> (r, -3)
      | Some i \<Rightarrow>
          if the from = cstr copy then (r, 0)
          else if ramfs_find r (cstr copy) \<noteq> None then (r, -5)
          else (ram_set i (\<lambda>f. f\<lparr>rf_name := copy\<rparr>) r, 0))"

section \<open>The abstraction\<close>

text \<open>A well-formed table: 32 entries, distinct names in use, data with its terminator.\<close>

definition ramfs_ok :: "ramfs \<Rightarrow> bool" where
  "ramfs_ok r \<longleftrightarrow> length (ram_files r) = 32 \<and>
     (\<forall>f\<in>set (ram_files r). length (rf_name f) = 24 \<and>
        (rf_used f \<longrightarrow> 0 \<in> set (rf_name f) \<and> cstr (rf_name f) \<noteq> [] \<and>
           (\<exists>d. rf_data f = Some (d @ [0]) \<and> length d = unat (rf_size f)))) \<and>
     (\<forall>i<32. \<forall>j<32. i \<noteq> j \<longrightarrow> rf_used (ram_files r ! i) \<longrightarrow> rf_used (ram_files r ! j) \<longrightarrow>
        cstr (rf_name (ram_files r ! i)) \<noteq> cstr (rf_name (ram_files r ! j)))"

definition rf_content :: "rfile \<Rightarrow> u8 list" where
  "rf_content f = (case rf_data f of None \<Rightarrow> [] | Some d \<Rightarrow> take (unat (rf_size f)) d)"

definition ramfs_files :: "ramfs \<Rightarrow> cstring \<Rightarrow> u8 list option" where
  "ramfs_files r nm = map_option (\<lambda>i. rf_content (ram_files r ! i)) (ramfs_find r nm)"

lemma ramfs_okD:
  assumes "ramfs_ok r"
  shows "length (ram_files r) = 32" "f \<in> set (ram_files r) \<Longrightarrow> length (rf_name f) = 24"
    "f \<in> set (ram_files r) \<Longrightarrow> rf_used f \<Longrightarrow> 0 \<in> set (rf_name f) \<and> cstr (rf_name f) \<noteq> [] \<and>
       (\<exists>d. rf_data f = Some (d @ [0]) \<and> length d = unat (rf_size f))"
    "i < 32 \<Longrightarrow> j < 32 \<Longrightarrow> i \<noteq> j \<Longrightarrow> rf_used (ram_files r ! i) \<Longrightarrow> rf_used (ram_files r ! j) \<Longrightarrow>
       cstr (rf_name (ram_files r ! i)) \<noteq> cstr (rf_name (ram_files r ! j))"
  using assms unfolding ramfs_ok_def by blast+

lemma ramfs_find_iff:
  assumes "ramfs_ok r"
  shows "ramfs_find r nm = Some i \<longleftrightarrow>
    i < 32 \<and> rf_used (ram_files r ! i) \<and> cstr (rf_name (ram_files r ! i)) = nm"
proof -
  have "\<not> (rf_used (ram_files r ! j) \<and> cstr (rf_name (ram_files r ! j)) = nm)"
    if "i < 32" "rf_used (ram_files r ! i)" "cstr (rf_name (ram_files r ! i)) = nm" "j < i" for j
    using ramfs_okD(4)[OF assms, of i j] that by auto
  then show ?thesis
    using ramfs_okD(1)[OF assms] by (auto simp: ramfs_find_def first_index_iff)
qed

lemma ramfs_find_None:
  assumes "ramfs_ok r"
  shows "ramfs_find r nm = None \<longleftrightarrow>
    (\<forall>i<32. \<not> (rf_used (ram_files r ! i) \<and> cstr (rf_name (ram_files r ! i)) = nm))"
  using ramfs_okD(1)[OF assms] by (auto simp: ramfs_find_def first_index_None all_set_conv_all_nth)

text \<open>One entry replaced: validity and the files it leads to.\<close>

definition entry_fine :: "rfile \<Rightarrow> bool" where
  "entry_fine f \<longleftrightarrow> length (rf_name f) = 24 \<and> (rf_used f \<longrightarrow> 0 \<in> set (rf_name f) \<and> cstr (rf_name f) \<noteq> [] \<and>
     (\<exists>d. rf_data f = Some (d @ [0]) \<and> length d = unat (rf_size f)))"

lemma ram_update:
  assumes r: "ramfs_ok r" and i: "i < 32" and f: "entry_fine f"
    and n: "rf_used f \<Longrightarrow> ramfs_find r (cstr (rf_name f)) = None \<or> ramfs_find r (cstr (rf_name f)) = Some i"
    and fs: "ram_files r' = (ram_files r)[i := f]"
  shows "ramfs_ok r'" "ramfs_files r' nm =
    (if rf_used f \<and> cstr (rf_name f) = nm then Some (rf_content f)
     else if ramfs_find r nm = Some i then None else ramfs_files r nm)"
proof -
  note d = ramfs_okD[OF r]
  have clash: "cstr (rf_name f) \<noteq> cstr (rf_name (ram_files r ! j))"
    if "rf_used f" "j < 32" "j \<noteq> i" "rf_used (ram_files r ! j)" for j
    using n[OF that(1)] that ramfs_find_iff[OF r, of "cstr (rf_name f)" j] ramfs_find_None[OF r]
    by auto
  have mem: "entry_fine x" if "x \<in> set ((ram_files r)[i := f])" for x
    using that f d(2,3) unfolding entry_fine_def by (auto dest!: set_update_subset_insert[THEN subsetD])
  have dist: "cstr (rf_name ((ram_files r)[i := f] ! k)) \<noteq> cstr (rf_name ((ram_files r)[i := f] ! j))"
    if "k < 32" "j < 32" "k \<noteq> j" "rf_used ((ram_files r)[i := f] ! k)" "rf_used ((ram_files r)[i := f] ! j)" for k j
    using that i d(1) d(4)[of k j] clash[of k] clash[of j]
    by (auto simp: nth_list_update split: if_splits)
  show ok: "ramfs_ok r'"
    using mem dist d(1) unfolding ramfs_ok_def fs entry_fine_def by auto
  note iff = ramfs_find_iff[OF r] ramfs_find_iff[OF ok]
  show "ramfs_files r' nm = (if rf_used f \<and> cstr (rf_name f) = nm then Some (rf_content f)
     else if ramfs_find r nm = Some i then None else ramfs_files r nm)"
  proof (cases "rf_used f \<and> cstr (rf_name f) = nm")
    case True
    then have "ramfs_find r' nm = Some i" using i d(1) by (simp add: iff fs)
    then show ?thesis using True i d(1) by (simp add: ramfs_files_def fs)
  next
    case False
    have e: "ramfs_find r' nm = Some k \<longleftrightarrow> ramfs_find r nm = Some k \<and> k \<noteq> i" for k
      using False i d(1) by (auto simp: iff fs nth_list_update)
    show ?thesis
    proof (cases "ramfs_find r' nm")
      case None
      then show ?thesis using False e by (cases "ramfs_find r nm") (auto simp: ramfs_files_def)
    next
      case (Some k)
      then have "ramfs_find r nm = Some k" "k \<noteq> i" using e by auto
      then show ?thesis using False Some by (auto simp: ramfs_files_def fs)
    qed
  qed
qed

lemma kmalloc_files:
  "ram_kmalloc n r = (r', m) \<Longrightarrow> ram_files r' = ram_files r"
  by (auto simp: ram_kmalloc_def split: if_splits list.splits)

lemma kmalloc_len:
  assumes "ram_kmalloc n r = (r', Some m)"
  shows "length m = unat n" "n \<noteq> 0"
proof -
  show n: "n \<noteq> 0" using assms by (auto simp: ram_kmalloc_def)
  have "m = map (ram_junk r) [0..<unat n]"
    using assms n by (cases "ram_alloc r") (auto simp: ram_kmalloc_def split: if_splits)
  then show "length m = unat n" by simp
qed

lemma files_cong:
  assumes "ram_files r' = ram_files r"
  shows "ramfs_files r' = ramfs_files r" "ramfs_ok r' = ramfs_ok r"
    "ramfs_find r' = ramfs_find r"
proof -
  show f: "ramfs_find r' = ramfs_find r"
    by (rule ext) (simp only: ramfs_find_def assms)
  show "ramfs_files r' = ramfs_files r"
    by (rule ext) (simp only: ramfs_files_def assms f)
  show "ramfs_ok r' = ramfs_ok r"
    by (simp only: ramfs_ok_def assms)
qed

lemma ram_set_files [simp]: "ram_files (ram_set i g r) = (ram_files r)[i := g (ram_files r ! i)]"
  by (simp add: ram_set_def)

section \<open>The operations on the abstraction\<close>

lemma fill_block_len:
  "length mem = n + 1 \<Longrightarrow> (\<And>d. data = Some d \<Longrightarrow> n \<le> length d) \<Longrightarrow>
     \<exists>d. fill_block data n mem = d @ [0] \<and> length d = n \<and> (\<forall>e. data = Some e \<longrightarrow> d = take n e)"
  by (auto simp: fill_block_def split: option.splits)

lemma unused_slot:
  assumes "ramfs_ok r" "first_index (\<lambda>f. \<not> rf_used f) (ram_files r) 0 = Some i"
  shows "i < 32" "\<not> rf_used (ram_files r ! i)" "ramfs_find r nm \<noteq> Some i"
  using assms ramfs_okD(1)[OF assms(1)] ramfs_find_iff[OF assms(1), of nm i] by (auto simp: first_index_iff)

lemma entry_fineI:
  assumes "length nm < 24" "0 \<notin> set nm" "nm \<noteq> []" "rf_name f = strfield 24 nm"
    "rf_data f = Some (d @ [0])" "length d = unat (rf_size f)"
  shows "entry_fine f" "cstr (rf_name f) = nm" "rf_content f = d"
  using assms cstr_strfield[of nm 24]
  by (auto simp: entry_fine_def rf_content_def) (simp add: strfield_def Let_def)

text \<open>Contents given with an explicit size; the string convention (size 0) is separate.\<close>

lemma create_result:
  assumes ok: "ramfs_ok r" and c: "ramfs_create r (Some nm) data sz = (r', rc)"
    and nul: "0 \<notin> set nm" and len: "\<And>d. data = Some d \<Longrightarrow> sz \<noteq> 0 \<and> unat sz \<le> length d"
  shows "ramfs_ok r' \<and> (rc \<noteq> 0 \<longrightarrow> ramfs_files r' = ramfs_files r) \<and>
    (rc = 0 \<longrightarrow> ramfs_files r nm = None \<and> (\<exists>c. length c = unat sz \<and> ramfs_files r' = (ramfs_files r)(nm \<mapsto> c) \<and>
       (\<forall>d. data = Some d \<longrightarrow> c = take (unat sz) d)))"
proof (cases "nm = [] \<or> length nm \<ge> 24 \<or> ramfs_find r nm \<noteq> None \<or> first_index (\<lambda>f. \<not> rf_used f) (ram_files r) 0 = None")
  case True
  then have "r' = r \<and> rc \<noteq> 0"
    using c by (auto simp: ramfs_create_def Let_def split: if_splits option.splits)
  then show ?thesis using ok by simp
next
  case False
  then obtain i where i: "first_index (\<lambda>f. \<not> rf_used f) (ram_files r) 0 = Some i" by auto
  note u = unused_slot[OF ok i]
  have n: "nm \<noteq> []" "length nm < 24" "ramfs_find r nm = None" using False by auto
  have sz: "(case data of None \<Rightarrow> sz | Some d \<Rightarrow> if sz = 0 then of_nat (length (cstr d)) else sz) = sz"
    using len by (auto split: option.splits)
  let ?r1 = "ram_set i (\<lambda>f. f\<lparr>rf_name := strfield 24 nm\<rparr>) r"
  obtain r2 m where k: "ram_kmalloc (sz + 1) ?r1 = (r2, m)" by force
  have i32: "i < length (ram_files r)" using u(1) ramfs_okD(1)[OF ok] by simp
  have f2: "ram_files r2 = (ram_files r)[i := (ram_files r ! i)\<lparr>rf_name := strfield 24 nm\<rparr>]"
    using kmalloc_files[OF k] by simp
  show ?thesis
  proof (cases m)
    case None
    let ?f = "(ram_files r ! i)\<lparr>rf_name := strfield 24 nm, rf_data := None\<rparr>"
    have r': "r' = ram_set i (\<lambda>f. f\<lparr>rf_data := None\<rparr>) r2" "rc = -3"
      using c n i k None by (simp_all add: ramfs_create_def Let_def sz)
    have fs: "ram_files r' = (ram_files r)[i := ?f]" using f2 i32 by (simp add: r')
    have fine: "entry_fine ?f" using u(2) by (simp add: entry_fine_def)
    have "ramfs_ok r'" "ramfs_files r' x = ramfs_files r x" for x
      using ram_update(1)[OF ok u(1) fine _ fs] ram_update(2)[OF ok u(1) fine _ fs, of x] u(2) u(3)[of x] by simp_all
    then show ?thesis using r'(2) by auto
  next
    case (Some mem)
    have m: "length mem = unat (sz + 1)" "sz + 1 \<noteq> 0" using kmalloc_len k Some by blast+
    then have "length mem = unat sz + 1"
      by (metis add.commute plus_1_eq_Suc unatSuc)
    then obtain d where d: "fill_block data (unat sz) mem = d @ [0]" "length d = unat sz"
      "\<forall>e. data = Some e \<longrightarrow> d = take (unat sz) e"
      using fill_block_len[of mem "unat sz" data] len by auto
    let ?f = "(ram_files r ! i)\<lparr>rf_name := strfield 24 nm, rf_data := Some (d @ [0]), rf_size := sz, rf_used := True\<rparr>"
    have r': "r' = ram_set i (\<lambda>f. f\<lparr>rf_data := Some (d @ [0]), rf_size := sz, rf_used := True\<rparr>) r2" "rc = 0"
      using c n i k Some d(1) by (simp_all add: ramfs_create_def Let_def sz)
    have fs: "ram_files r' = (ram_files r)[i := ?f]" using f2 i32 by (simp add: r')
    have e: "entry_fine ?f" "cstr (rf_name ?f) = nm" "rf_content ?f = d"
      by (rule entry_fineI[OF n(2) nul n(1)]; use d(2) in simp)+
    have "ramfs_ok r'" "ramfs_files r' x = ((ramfs_files r)(nm \<mapsto> d)) x" for x
      using ram_update(1)[OF ok u(1) e(1) _ fs] ram_update(2)[OF ok u(1) e(1) _ fs, of x] e(2,3) n(3) u(3)[of x] by simp_all
    then have "ramfs_ok r'" "ramfs_files r' = (ramfs_files r)(nm \<mapsto> d)" by auto
    moreover have "ramfs_files r nm = None" using n(3) by (simp add: ramfs_files_def)
    ultimately show ?thesis using d r'(2) by auto
  qed
qed

lemma write_result:
  assumes ok: "ramfs_ok r" and w: "ramfs_write r (Some nm) data sz = (r', rc)"
    and nul: "0 \<notin> set nm" and len: "\<And>d. data = Some d \<Longrightarrow> sz \<noteq> 0 \<and> unat sz \<le> length d"
  shows "ramfs_ok r' \<and> (rc \<noteq> 0 \<longrightarrow> ramfs_files r' = ramfs_files r) \<and>
    (rc = 0 \<longrightarrow> (\<exists>c. length c = unat sz \<and> ramfs_files r' = (ramfs_files r)(nm \<mapsto> c) \<and>
       (\<forall>d. data = Some d \<longrightarrow> c = take (unat sz) d)))"
proof (cases "nm = [] \<or> length nm \<ge> 24 \<or> sz = 0xFFFFFFFF \<or> ramfs_find r nm = None")
  case True
  have sz: "(case data of None \<Rightarrow> sz | Some d \<Rightarrow> if sz = 0 then of_nat (length (cstr d)) else sz) = sz"
    using len by (auto split: option.splits)
  consider "r' = r" "rc \<noteq> 0" | "ramfs_create r (Some nm) data sz = (r', rc)"
    using True w by (auto simp: ramfs_write_def Let_def sz split: if_splits option.splits)
  then show ?thesis
    using ok create_result[OF ok _ nul len, where r' = r' and rc = rc] by cases auto
next
  case False
  then obtain i where i: "ramfs_find r nm = Some i" by auto
  have sz: "(case data of None \<Rightarrow> sz | Some d \<Rightarrow> if sz = 0 then of_nat (length (cstr d)) else sz) = sz"
    using len by (auto split: option.splits)
  have u: "i < 32" "rf_used (ram_files r ! i)" "cstr (rf_name (ram_files r ! i)) = nm"
    using i by (simp_all add: ramfs_find_iff[OF ok])
  have mem_i: "ram_files r ! i \<in> set (ram_files r)" using u(1) ramfs_okD(1)[OF ok] by simp
  obtain r2 m where k: "ram_kmalloc (sz + 1) r = (r2, m)" by force
  note f2 = kmalloc_files[OF k]
  let ?data = "Some (case data of None \<Rightarrow> replicate (unat sz) 0 | Some d \<Rightarrow> d)"
  show ?thesis
  proof (cases m)
    case None
    then have "r' = r2" "rc = -3"
      using w False i k by (simp_all add: ramfs_write_def Let_def sz split: option.splits)
    then show ?thesis using ok files_cong[OF f2] by simp
  next
    case (Some mem)
    have m: "length mem = unat (sz + 1)" "sz + 1 \<noteq> 0" using kmalloc_len k Some by blast+
    then have "length mem = unat sz + 1"
      by (metis add.commute plus_1_eq_Suc unatSuc)
    then obtain d where d: "fill_block ?data (unat sz) mem = d @ [0]" "length d = unat sz"
      "\<forall>e. ?data = Some e \<longrightarrow> d = take (unat sz) e"
      using fill_block_len[of mem "unat sz" ?data] len by (auto split: option.splits)
    let ?f = "(ram_files r ! i)\<lparr>rf_data := Some (d @ [0]), rf_size := sz\<rparr>"
    have e0: "(case data of None \<Rightarrow> Some (replicate (unat sz) 0) | Some d \<Rightarrow> Some d) = ?data"
      by (simp split: option.splits)
    have r': "r' = ram_set i (\<lambda>f. f\<lparr>rf_data := Some (d @ [0]), rf_size := sz\<rparr>) r2" "rc = 0"
      using w False i k Some d(1) by (simp_all add: ramfs_write_def Let_def sz e0)
    have fs: "ram_files r' = (ram_files r)[i := ?f]" using f2 by (simp add: r')
    have e: "entry_fine ?f" "cstr (rf_name ?f) = nm" "rf_content ?f = d" "rf_used ?f"
      using ramfs_okD(2,3)[OF ok mem_i] u d(2) by (auto simp: entry_fine_def rf_content_def)
    have "ramfs_find r x = Some i \<longleftrightarrow> x = nm" for x using u by (auto simp: ramfs_find_iff[OF ok])
    then have "ramfs_ok r'" "ramfs_files r' x = ((ramfs_files r)(nm \<mapsto> d)) x" for x
      using ram_update(1)[OF ok u(1) e(1) _ fs] ram_update(2)[OF ok u(1) e(1) _ fs, of x] e(2-4) i by simp_all
    then have "ramfs_ok r'" "ramfs_files r' = (ramfs_files r)(nm \<mapsto> d)" by auto
    then show ?thesis
      using d(2,3) r'(2) by (intro conjI impI exI[of _ d]) (auto split: option.splits)
  qed
qed

lemma delete_result:
  assumes ok: "ramfs_ok r" and d: "ramfs_delete r nm = (r', rc)"
  shows "ramfs_ok r' \<and> ramfs_files r' = (ramfs_files r)(nm := None) \<and> (rc = 0 \<longleftrightarrow> ramfs_files r nm \<noteq> None)"
proof (cases "ramfs_find r nm")
  case None
  then have "ramfs_files r nm = None" by (simp add: ramfs_files_def)
  then have "(ramfs_files r)(nm := None) = ramfs_files r" by auto
  then show ?thesis using None d ok \<open>ramfs_files r nm = None\<close> by (auto simp: ramfs_delete_def)
next
  case (Some i)
  have u: "i < 32" using Some by (simp add: ramfs_find_iff[OF ok])
  have r': "r' = ram_set i (\<lambda>_. no_rfile) r" "rc = 0" using d Some by (simp_all add: ramfs_delete_def)
  have e: "entry_fine no_rfile" "\<not> rf_used no_rfile" by (simp_all add: entry_fine_def no_rfile_def)
  have iff: "ramfs_find r x = Some i \<longleftrightarrow> x = nm" for x
    using Some by (auto simp: ramfs_find_iff[OF ok])
  have "ramfs_ok r'" "ramfs_files r' x = ((ramfs_files r)(nm := None)) x" for x
    using ram_update(1)[OF ok u e(1), of r'] ram_update(2)[OF ok u e(1), of r' x] e(2) iff[of x] by (simp_all add: r')
  then show ?thesis using r'(2) Some by (auto simp: ramfs_files_def)
qed

lemma rename_result:
  assumes ok: "ramfs_ok r" and rn: "ramfs_rename r (Some old) (Some to) = (r', rc)"
  shows "ramfs_ok r'" "rc \<noteq> 0 \<Longrightarrow> r' = r"
    "rc = 0 \<Longrightarrow> native_name 24 old \<and> native_name 24 to \<and> ramfs_files r old \<noteq> None \<and>
       (old = to \<or> ramfs_files r to = None) \<and> ramfs_files r' = (ramfs_files r)(old := None, to := ramfs_files r old)"
proof -
  have all: "ramfs_ok r' \<and> (rc \<noteq> 0 \<longrightarrow> r' = r) \<and> (rc = 0 \<longrightarrow> native_name 24 old \<and> native_name 24 to \<and>
      ramfs_files r old \<noteq> None \<and> (old = to \<or> ramfs_files r to = None) \<and>
      ramfs_files r' = (ramfs_files r)(old := None, to := ramfs_files r old))"
  proof (cases "native_name 24 old \<and> native_name 24 to")
    case False
    then have "r' = r \<and> rc \<noteq> 0"
      using rn native_name_length_ok[of old 24] native_name_length_ok[of to 24]
      by (auto simp: ramfs_rename_def Let_def not_less split: if_splits)
    then show ?thesis using ok by simp
  next
    case True
    let ?n = "to @ replicate (24 - length to) 0"
    have nn: "length to < 24" "0 \<notin> set to" "to \<noteq> []"
      using True native_name_no_nul[of 24 to] by (auto simp: native_name_def)
    have sf: "strfield 24 to = ?n" using nn by (simp add: strfield_def Let_def)
    have cn: "cstr ?n = to" using cstr_strfield[of to 24] nn sf by simp
    have len: "native_name_length (Some old) 24 = int (length old)" "native_name_length (Some to) 24 = int (length to)"
      using True native_name_length_val by blast+
    show ?thesis
    proof (cases "ramfs_find r old = None \<or> old = to \<or> ramfs_find r to \<noteq> None")
      case True
      then have "r' = r \<and> (rc = 0 \<longrightarrow> ramfs_find r old \<noteq> None \<and> old = to)"
        using rn cn by (auto simp: ramfs_rename_def Let_def len split: if_splits option.splits)
      then show ?thesis using ok \<open>native_name 24 old \<and> native_name 24 to\<close> by (auto simp: ramfs_files_def)
    next
      case False
      then obtain i where i: "ramfs_find r old = Some i" by auto
      let ?f = "(ram_files r ! i)\<lparr>rf_name := ?n\<rparr>"
      have r': "r' = ram_set i (\<lambda>f. f\<lparr>rf_name := ?n\<rparr>) r" "rc = 0"
        using rn cn False i by (simp_all add: ramfs_rename_def Let_def len)
      have u: "i < 32" "rf_used (ram_files r ! i)" "cstr (rf_name (ram_files r ! i)) = old"
        using i by (simp_all add: ramfs_find_iff[OF ok])
      have mem_i: "ram_files r ! i \<in> set (ram_files r)" using u(1) ramfs_okD(1)[OF ok] by simp
      have e: "entry_fine ?f" "cstr (rf_name ?f) = to" "rf_content ?f = rf_content (ram_files r ! i)" "rf_used ?f"
        using ramfs_okD(2,3)[OF ok mem_i] u nn cn by (auto simp: entry_fine_def rf_content_def)
      have iff: "ramfs_find r x = Some i \<longleftrightarrow> x = old" for x using u by (auto simp: ramfs_find_iff[OF ok])
      have "ramfs_ok r'" "ramfs_files r' x = ((ramfs_files r)(old := None, to := ramfs_files r old)) x" for x
        using ram_update(1)[OF ok u(1) e(1), of r'] ram_update(2)[OF ok u(1) e(1), of r' x] e(2-4) iff[of x] i False
        by (auto simp: r' ramfs_files_def)
      then have "ramfs_ok r'" "ramfs_files r' = (ramfs_files r)(old := None, to := ramfs_files r old)" by auto
      then show ?thesis using r'(2) i False True by (auto simp: ramfs_files_def)
    qed
  qed
  then show "ramfs_ok r'" "rc \<noteq> 0 \<Longrightarrow> r' = r"
    "rc = 0 \<Longrightarrow> native_name 24 old \<and> native_name 24 to \<and> ramfs_files r old \<noteq> None \<and>
       (old = to \<or> ramfs_files r to = None) \<and> ramfs_files r' = (ramfs_files r)(old := None, to := ramfs_files r old)"
    by simp_all
qed

end
