(* ===== verification/Kvfs.thy ===== *)
theory Kvfs
  imports Ata Native_Name
begin

text \<open>
  KvFS, the on-disk filesystem of \<^verbatim>\<open>kernel/kvfs.c\<close>: its superblock and directory as
  they lie on the disk, mounting with validation, first-fit allocation, and the
  copy-on-write file operations over the ATA driver. \<^verbatim>\<open>secbuf\<close> is filled before
  every use, so it is no part of the state. Return codes are those of the code.
\<close>

section \<open>Data\<close>

record kvfs_dirent =
  de_name :: "u8 list"
  de_start :: u32
  de_sectors :: u32
  de_size :: u32
  de_flags :: u32
  de_res0 :: u32
  de_res1 :: u32

record kvfs_super =
  su_magic :: u32
  su_version :: u32
  su_total :: u32
  su_data_start :: u32
  su_count :: u32
  su_res0 :: u32
  su_res1 :: u32
  su_res2 :: u32

record kvfs =
  kv_super :: kvfs_super
  kv_dir :: "kvfs_dirent list"
  kv_mounted :: bool
  kv_dev :: int
  kv_gen :: u32
  kv_ata :: ata

text \<open>\<^verbatim>\<open>KVFS_BASE\<close>, \<^verbatim>\<open>DIR_SECTOR\<close> and \<^verbatim>\<open>DATA_START\<close>.\<close>

definition kvfs_base :: u32 where "kvfs_base = 2048"
definition dir_sector :: u32 where "dir_sector = 2049"
definition data_start :: u32 where "data_start = 2057"
definition kvfs_magic :: u32 where "kvfs_magic = 0x5346564B"

definition enc_dirent :: "kvfs_dirent \<Rightarrow> u8 list" where
  "enc_dirent e = de_name e @ bytes32 (de_start e) @ bytes32 (de_sectors e) @
     bytes32 (de_size e) @ bytes32 (de_flags e) @ bytes32 (de_res0 e) @ bytes32 (de_res1 e)"

definition dec_dirent :: "u8 list \<Rightarrow> kvfs_dirent" where
  "dec_dirent b = \<lparr>de_name = take 40 b, de_start = get32 b 40, de_sectors = get32 b 44,
     de_size = get32 b 48, de_flags = get32 b 52, de_res0 = get32 b 56, de_res1 = get32 b 60\<rparr>"

definition enc_super :: "kvfs_super \<Rightarrow> u8 list" where
  "enc_super s = bytes32 (su_magic s) @ bytes32 (su_version s) @ bytes32 (su_total s) @
     bytes32 (su_data_start s) @ bytes32 (su_count s) @ bytes32 (su_res0 s) @
     bytes32 (su_res1 s) @ bytes32 (su_res2 s)"

definition dec_super :: "u8 list \<Rightarrow> kvfs_super" where
  "dec_super b = \<lparr>su_magic = get32 b 0, su_version = get32 b 4, su_total = get32 b 8,
     su_data_start = get32 b 12, su_count = get32 b 16, su_res0 = get32 b 20,
     su_res1 = get32 b 24, su_res2 = get32 b 28\<rparr>"

text \<open>Eight entries make a directory sector.\<close>

definition enc_group :: "kvfs_dirent list \<Rightarrow> nat \<Rightarrow> sector" where
  "enc_group dir g = concat (map enc_dirent (take 8 (drop (8 * g) dir)))"

definition dec_group :: "sector \<Rightarrow> kvfs_dirent list" where
  "dec_group b = map (\<lambda>i. dec_dirent (take 64 (drop (64 * i) b))) [0..<8]"

definition set_group :: "kvfs_dirent list \<Rightarrow> nat \<Rightarrow> kvfs_dirent list \<Rightarrow> kvfs_dirent list" where
  "set_group dir g es = take (8 * g) dir @ es @ drop (8 * g + 8) dir"

definition splice :: "nat \<Rightarrow> u8 list \<Rightarrow> u8 list \<Rightarrow> u8 list" where
  "splice at new old = take at old @ new @ drop (at + length new) old"

definition zero_dirent :: kvfs_dirent where
  "zero_dirent = \<lparr>de_name = replicate 40 0, de_start = 0, de_sectors = 0, de_size = 0,
     de_flags = 0, de_res0 = 0, de_res1 = 0\<rparr>"

definition de_used :: "kvfs_dirent \<Rightarrow> bool" where
  "de_used e \<longleftrightarrow> de_flags e AND 1 \<noteq> 0"

section \<open>Directory and superblock transfer\<close>

fun read_dir :: "nat \<Rightarrow> nat \<Rightarrow> kvfs \<Rightarrow> kvfs \<times> bool" where
  "read_dir 0 s kv = (kv, True)"
| "read_dir (Suc n) s kv =
     (case ata_rd1 (kv_dev kv) (kv_ata kv) (dir_sector + of_nat s) of
        (a, None) \<Rightarrow> (kv\<lparr>kv_ata := a\<rparr>, False)
      | (a, Some b) \<Rightarrow> read_dir n (s + 1)
          (kv\<lparr>kv_ata := a, kv_dir := set_group (kv_dir kv) s (dec_group b)\<rparr>))"

fun write_dir :: "nat \<Rightarrow> nat \<Rightarrow> kvfs \<Rightarrow> kvfs \<times> bool" where
  "write_dir 0 s kv = (kv, True)"
| "write_dir (Suc n) s kv =
     (case ata_wr1 (kv_dev kv) (kv_ata kv) (dir_sector + of_nat s) (enc_group (kv_dir kv) s) of
        (a, False) \<Rightarrow> (kv\<lparr>kv_ata := a\<rparr>, False)
      | (a, True) \<Rightarrow> write_dir n (s + 1) (kv\<lparr>kv_ata := a\<rparr>))"

definition write_super :: "kvfs \<Rightarrow> kvfs \<times> bool" where
  "write_super kv =
     (case ata_wr1 (kv_dev kv) (kv_ata kv) kvfs_base (sector_of (enc_super (kv_super kv))) of
        (a, r) \<Rightarrow> (kv\<lparr>kv_ata := a\<rparr>, r))"

section \<open>Mounting\<close>

definition entry_ok :: "u32 \<Rightarrow> kvfs_dirent \<Rightarrow> bool" where
  "entry_ok tot e \<longleftrightarrow> 0 \<in> set (de_name e) \<and> de_name e ! 0 \<noteq> 0 \<and> de_flags e AND NOT 3 = 0 \<and>
     de_sectors e \<noteq> 0 \<and> de_start e \<ge> data_start \<and> de_start e < tot \<and>
     de_sectors e \<le> tot - de_start e \<and>
     de_size e div 512 + (if de_size e mod 512 \<noteq> 0 then 1 else 0) \<le> de_sectors e \<and>
     de_size e \<le> 0x7FFFFFFF"

definition entry_clash :: "kvfs_dirent \<Rightarrow> kvfs_dirent \<Rightarrow> bool" where
  "entry_clash e d \<longleftrightarrow> cstr (de_name e) = cstr (de_name d) \<or>
     de_start e < de_start d + de_sectors d \<and> de_start d < de_start e + de_sectors e"

fun check_dir :: "u32 \<Rightarrow> kvfs_dirent list \<Rightarrow> kvfs_dirent list \<Rightarrow> bool" where
  "check_dir tot prev [] \<longleftrightarrow> True"
| "check_dir tot prev (e # es) \<longleftrightarrow>
     (if \<not> de_used e then check_dir tot (prev @ [e]) es
      else if \<not> entry_ok tot e then False
      else if \<exists>d\<in>set prev. de_used d \<and> entry_clash e d then False
      else check_dir tot (prev @ [e]) es)"

definition count_used :: "kvfs_dirent list \<Rightarrow> u32" where
  "count_used dir = of_nat (length (filter de_used dir))"

definition kvfs_mount :: "kvfs \<Rightarrow> kvfs \<times> int" where
  "kvfs_mount kv0 =
     (let kv = kv0\<lparr>kv_gen := vfs_namespace_changed (kv_gen kv0), kv_mounted := False,
                  kv_dev := ata_boot_drive (kv_ata kv0)\<rparr> in
      if kv_dev kv < 0 then (kv, -1)
      else case ata_rd1 (kv_dev kv) (kv_ata kv) kvfs_base of
        (a, None) \<Rightarrow> (kv\<lparr>kv_ata := a\<rparr>, -2)
      | (a, Some b) \<Rightarrow>
          (let kv = kv\<lparr>kv_ata := a, kv_super := dec_super b\<rparr>; su = kv_super kv in
           if su_magic su \<noteq> kvfs_magic then (kv, -3)
           else if su_version su \<noteq> 2 then (kv, -4)
           else if su_data_start su \<noteq> data_start \<or> su_total su < data_start + 64 \<or>
                   su_total su > ata_sectors (kv_ata kv) (kv_dev kv) then (kv, -4)
           else case read_dir 8 0 kv of
             (kv, False) \<Rightarrow> (kv, -2)
           | (kv, True) \<Rightarrow>
               if \<not> check_dir (su_total (kv_super kv)) [] (kv_dir kv) then (kv, -4)
               else (kv\<lparr>kv_super := (kv_super kv)\<lparr>su_count := count_used (kv_dir kv)\<rparr>,
                        kv_mounted := True\<rparr>, 0)))"

definition kvfs_format :: "kvfs \<Rightarrow> kvfs \<times> int" where
  "kvfs_format kv0 =
     (let kv = kv0\<lparr>kv_gen := vfs_namespace_changed (kv_gen kv0), kv_mounted := False,
                  kv_dev := ata_boot_drive (kv_ata kv0)\<rparr>;
          tot = ata_sectors (kv_ata kv) (kv_dev kv) in
      if kv_dev kv < 0 then (kv, -1)
      else if tot < data_start + 64 then (kv, -5)
      else let kv = kv\<lparr>kv_super := \<lparr>su_magic = kvfs_magic, su_version = 2, su_total = tot,
                         su_data_start = data_start, su_count = 0, su_res0 = 0, su_res1 = 0, su_res2 = 0\<rparr>,
                       kv_dir := replicate 64 zero_dirent\<rparr> in
        case write_super kv of
          (kv, False) \<Rightarrow> (kv, -2)
        | (kv, True) \<Rightarrow> (case write_dir 8 0 kv of
            (kv, False) \<Rightarrow> (kv, -2)
          | (kv, True) \<Rightarrow> (kv\<lparr>kv_mounted := True\<rparr>, 0)))"

section \<open>Lookup and allocation\<close>

definition find_entry :: "kvfs_dirent list \<Rightarrow> cstring \<Rightarrow> nat option" where
  "find_entry dir name = first_index (\<lambda>e. de_used e \<and> cstr (de_name e) = name) dir 0"

text \<open>One pass over the directory: does the candidate clash, and how far must it move?\<close>

fun clash_pass :: "u32 \<Rightarrow> u32 \<Rightarrow> kvfs_dirent list \<Rightarrow> u32 \<times> bool \<Rightarrow> u32 \<times> bool" where
  "clash_pass cand need [] (next, clash) = (next, clash)"
| "clash_pass cand need (e # es) (next, clash) =
     (if \<not> de_used e then clash_pass cand need es (next, clash)
      else let a = de_start e; b = de_start e + de_sectors e in
        if cand < b \<and> a < cand + need
        then clash_pass cand need es (if b > next then b else next, True)
        else clash_pass cand need es (next, clash))"

fun space_loop :: "nat \<Rightarrow> kvfs_dirent list \<Rightarrow> u32 \<Rightarrow> u32 \<Rightarrow> u32 \<Rightarrow> u32" where
  "space_loop 0 dir limit need cand = 0"
| "space_loop (Suc guard) dir limit need cand =
     (case clash_pass cand need dir (0, False) of
        (next, False) \<Rightarrow> if cand > limit \<or> need > limit - cand then 0 else cand
      | (next, True) \<Rightarrow>
          if next > limit \<or> need > limit - next then 0
          else space_loop guard dir limit need next)"

definition find_space :: "kvfs \<Rightarrow> u32 \<Rightarrow> u32" where
  "find_space kv need =
     (let cand = su_data_start (kv_super kv); limit = su_total (kv_super kv) in
      if cand > limit \<or> need > limit - cand then 0
      else space_loop 65 (kv_dir kv) limit need cand)"

definition kvfs_file_count :: "kvfs \<Rightarrow> nat" where
  "kvfs_file_count kv = (if \<not> kv_mounted kv then 0 else length (filter de_used (kv_dir kv)))"

fun list_from :: "kvfs_dirent list \<Rightarrow> int \<Rightarrow> int \<Rightarrow> (cstring \<times> u32 \<times> bool) option" where
  "list_from [] n index = None"
| "list_from (e # es) n index =
     (if \<not> de_used e then list_from es n index
      else if n = index then
        Some (cstr (take 39 (de_name e)), de_size e, de_flags e AND 2 \<noteq> 0)
      else list_from es (n + 1) index)"

definition kvfs_list :: "kvfs \<Rightarrow> int \<Rightarrow> (cstring \<times> u32 \<times> bool) option" where
  "kvfs_list kv index = (if \<not> kv_mounted kv then None else list_from (kv_dir kv) 0 index)"

definition kvfs_exists :: "kvfs \<Rightarrow> cstring \<Rightarrow> bool" where
  "kvfs_exists kv name \<longleftrightarrow> kv_mounted kv \<and> find_entry (kv_dir kv) name \<noteq> None"

definition kvfs_size :: "kvfs \<Rightarrow> cstring \<Rightarrow> u32" where
  "kvfs_size kv name =
     (if \<not> kv_mounted kv then 0
      else case find_entry (kv_dir kv) name of None \<Rightarrow> 0 | Some i \<Rightarrow> de_size (kv_dir kv ! i))"

section \<open>File operations\<close>

definition commit_entry :: "nat \<Rightarrow> kvfs_dirent \<Rightarrow> kvfs \<Rightarrow> kvfs \<times> int" where
  "commit_entry slot e kv =
     (let group = slot div 8;
          b = splice ((slot mod 8) * 64) (enc_dirent e) (enc_group (kv_dir kv) group) in
      case ata_wr1 (kv_dev kv) (kv_ata kv) (dir_sector + of_nat group) b of
        (a, False) \<Rightarrow> (kv\<lparr>kv_ata := a, kv_mounted := False,
                          kv_gen := vfs_namespace_changed (kv_gen kv)\<rparr>, -2)
      | (a, True) \<Rightarrow>
          (let kv = kv\<lparr>kv_ata := a, kv_dir := (kv_dir kv)[slot := e]\<rparr> in
           (kv\<lparr>kv_super := (kv_super kv)\<lparr>su_count := of_nat (kvfs_file_count kv)\<rparr>\<rparr>, 0)))"

definition pick_slot :: "kvfs_dirent list \<Rightarrow> cstring \<Rightarrow> nat option" where
  "pick_slot dir name =
     (case find_entry dir name of
        Some i \<Rightarrow> Some i
      | None \<Rightarrow> first_index (\<lambda>e. \<not> de_used e) dir 0)"

definition sectors_for :: "u32 \<Rightarrow> u32" where
  "sectors_for sz =
     (let need = sz div 512 + (if sz mod 512 \<noteq> 0 then 1 else 0) in
      if need = 0 then 1 else need)"

definition new_entry :: "cstring \<Rightarrow> u32 \<Rightarrow> u32 \<Rightarrow> u32 \<Rightarrow> bool \<Rightarrow> kvfs_dirent" where
  "new_entry name start need sz ex = \<lparr>de_name = strfield 40 name, de_start = start,
     de_sectors = need, de_size = sz, de_flags = 1 OR (if ex then 2 else 0),
     de_res0 = 0, de_res1 = 0\<rparr>"

definition kvfs_write :: "kvfs \<Rightarrow> cstring option \<Rightarrow> u8 list option \<Rightarrow> u32 \<Rightarrow> bool \<Rightarrow> kvfs \<times> int" where
  "kvfs_write kv name data sz ex =
     (if \<not> kv_mounted kv then (kv, -1)
      else case name of None \<Rightarrow> (kv, -4) | Some nm \<Rightarrow>
      if nm = [] then (kv, -4)
      else if length nm \<ge> 40 then (kv, -5)
      else if sz \<noteq> 0 \<and> data = None \<or> sz > 0x7FFFFFFF then (kv, -8)
      else let need = sectors_for sz in
      case pick_slot (kv_dir kv) nm of None \<Rightarrow> (kv, -6) | Some slot \<Rightarrow>
      let start = find_space kv need in
      if start = 0 then (kv, -7)
      else case body_out (ata_wr1 (kv_dev kv)) (unat need) start
                 (take (unat sz) (case data of None \<Rightarrow> [] | Some d \<Rightarrow> d)) (kv_ata kv) of
        (a, False) \<Rightarrow> (kv\<lparr>kv_ata := a\<rparr>, -2)
      | (a, True) \<Rightarrow> commit_entry slot (new_entry nm start need sz ex) (kv\<lparr>kv_ata := a\<rparr>))"

text \<open>\<^verbatim>\<open>kvfs_read\<close> returns the bytes it put into the buffer beside the code.\<close>

definition kvfs_read :: "kvfs \<Rightarrow> cstring \<Rightarrow> u32 \<Rightarrow> kvfs \<times> int \<times> u8 list" where
  "kvfs_read kv name mx =
     (if \<not> kv_mounted kv then (kv, -1, [])
      else case find_entry (kv_dir kv) name of None \<Rightarrow> (kv, -3, []) | Some i \<Rightarrow>
      let e = kv_dir kv ! i; sz = (if de_size e > mx then mx else de_size e);
          need = (sz + 511) div 512 in
      case body_in (ata_rd1 (kv_dev kv)) (unat need) (de_start e) [] (kv_ata kv) of
        (a, bs, False) \<Rightarrow> (kv\<lparr>kv_ata := a\<rparr>, -2, bs)
      | (a, bs, True) \<Rightarrow> (kv\<lparr>kv_ata := a\<rparr>, sint sz, take (unat sz) bs))"

definition kvfs_delete :: "kvfs \<Rightarrow> cstring \<Rightarrow> kvfs \<times> int" where
  "kvfs_delete kv name =
     (if \<not> kv_mounted kv then (kv, -1)
      else case find_entry (kv_dir kv) name of None \<Rightarrow> (kv, -3)
      | Some i \<Rightarrow> commit_entry i ((kv_dir kv ! i)\<lparr>de_flags := 0\<rparr>) kv)"

definition kvfs_rename :: "kvfs \<Rightarrow> cstring option \<Rightarrow> cstring option \<Rightarrow> kvfs \<times> int" where
  "kvfs_rename kv from to =
     (if \<not> kv_mounted kv then (kv, -1)
      else let len = native_name_length to 40 in
      if len < 0 \<or> native_name_length from 40 < 0 then (kv, -4)
      else case find_entry (kv_dir kv) (the from) of None \<Rightarrow> (kv, -3) | Some slot \<Rightarrow>
      if from = to then (kv, 0)
      else if find_entry (kv_dir kv) (the to) \<noteq> None then (kv, -5)
      else case commit_entry slot ((kv_dir kv ! slot)\<lparr>de_name :=
                take (nat len) (the to) @ replicate (40 - nat len) 0\<rparr>) kv of
        (kv, rc) \<Rightarrow> (kv, if rc \<noteq> 0 then -6 else 0))"

definition kvfs_stats :: "kvfs \<Rightarrow> u32 \<times> u32 \<times> u32" where
  "kvfs_stats kv =
     (if kv_mounted kv then
        (drop_bit 11 (su_total (kv_super kv)),
         sum_list (map de_sectors (filter de_used (kv_dir kv))) div 2,
         of_nat (kvfs_file_count kv))
      else (0, 0, 0))"

end
