(* ===== verification/Kvfs_Alloc.thy ===== *)
theory Kvfs_Alloc
  imports Kvfs
begin

text \<open>
  What a valid KvFS directory is, that \<^verbatim>\<open>kvfs_mount\<close> checks exactly that, and the
  first-fit search: the jump over clashing extents misses no gap and the guard of 65
  rounds is never what stops it.
\<close>

section \<open>Valid directories\<close>

definition de_lo :: "kvfs_dirent \<Rightarrow> nat" where "de_lo e = unat (de_start e)"
definition de_hi :: "kvfs_dirent \<Rightarrow> nat" where "de_hi e = unat (de_start e) + unat (de_sectors e)"

definition dir_ok :: "u32 \<Rightarrow> kvfs_dirent list \<Rightarrow> bool" where
  "dir_ok tot dir \<longleftrightarrow> length dir = 64 \<and> (\<forall>e\<in>set dir. length (de_name e) = 40) \<and>
     (\<forall>e\<in>set dir. de_used e \<longrightarrow> entry_ok tot e) \<and>
     (\<forall>i<64. \<forall>j<64. i \<noteq> j \<longrightarrow> de_used (dir ! i) \<longrightarrow> de_used (dir ! j) \<longrightarrow>
        \<not> entry_clash (dir ! i) (dir ! j))"

lemma dir_okD:
  assumes "dir_ok tot dir"
  shows "length dir = 64" "e \<in> set dir \<Longrightarrow> length (de_name e) = 40"
    "e \<in> set dir \<Longrightarrow> de_used e \<Longrightarrow> entry_ok tot e"
    "i < 64 \<Longrightarrow> j < 64 \<Longrightarrow> i \<noteq> j \<Longrightarrow> de_used (dir ! i) \<Longrightarrow> de_used (dir ! j) \<Longrightarrow>
       \<not> entry_clash (dir ! i) (dir ! j)"
  using assms unfolding dir_ok_def by blast+

lemma entry_clash_sym: "entry_clash e d = entry_clash d e"
  by (auto simp: entry_clash_def)

lemma entry_extent:
  assumes "entry_ok tot e"
  shows "2057 \<le> de_lo e" "de_lo e < de_hi e" "de_hi e \<le> unat tot"
    "unat (de_start e + de_sectors e) = de_hi e" "unat (de_size e) \<le> 512 * unat (de_sectors e)"
    "unat (de_size e) < 2 ^ 31"
proof -
  have s: "de_sectors e \<le> tot - de_start e" "de_start e < tot" "de_sectors e \<noteq> 0"
    "data_start \<le> de_start e"
    using assms by (auto simp: entry_ok_def)
  show "2057 \<le> de_lo e"
    using s(4) by (simp add: de_lo_def data_start_def word_le_nat_alt)
  show "de_lo e < de_hi e"
    using s(3) by (simp add: de_lo_def de_hi_def word_neq_0_conv word_less_nat_alt)
  have "unat (tot - de_start e) = unat tot - unat (de_start e)"
    using s(2) by (intro unat_sub_u32) simp
  then show hi: "de_hi e \<le> unat tot"
    using s by (simp add: de_hi_def word_le_nat_alt word_less_nat_alt)
  then show "unat (de_start e + de_sectors e) = de_hi e"
    using unat_lt_u32[of tot] by (simp add: de_hi_def unat_add_u32)
  have sz: "de_size e div 512 + (if de_size e mod 512 \<noteq> 0 then 1 else 0) \<le> de_sectors e"
    "de_size e \<le> 0x7FFFFFFF"
    using assms by (auto simp: entry_ok_def)
  then show lt: "unat (de_size e) < 2 ^ 31"
    by (simp add: word_le_nat_alt)
  have "unat (de_size e div 512) = unat (de_size e) div 512" "unat (de_size e mod 512) = unat (de_size e) mod 512"
    by (simp_all add: unat_div unat_mod)
  moreover have "unat (de_size e div 512 + 1) = unat (de_size e div 512) + 1"
    using lt by (subst unat_add_u32) (simp_all add: unat_div)
  ultimately have "unat (de_size e) div 512 + (if unat (de_size e) mod 512 \<noteq> 0 then 1 else 0) \<le> unat (de_sectors e)"
    using sz(1) by (auto simp: word_le_nat_alt word_unat_eq_iff split: if_splits)
  then show "unat (de_size e) \<le> 512 * unat (de_sectors e)"
    by (auto split: if_splits)
qed

lemma clash_extents:
  assumes "entry_ok tot e" "entry_ok tot d"
  shows "entry_clash e d \<longleftrightarrow> cstr (de_name e) = cstr (de_name d) \<or> de_lo e < de_hi d \<and> de_lo d < de_hi e"
  using entry_extent(4)[OF assms(1)] entry_extent(4)[OF assms(2)]
  by (simp add: entry_clash_def word_less_nat_alt de_lo_def)

lemma check_dir_append:
  "check_dir tot prev es \<longleftrightarrow>
     (\<forall>i<length es. de_used (es ! i) \<longrightarrow> entry_ok tot (es ! i) \<and>
        (\<forall>d\<in>set (prev @ take i es). de_used d \<longrightarrow> \<not> entry_clash (es ! i) d))"
proof (induction tot prev es rule: check_dir.induct)
  case (2 tot prev e es)
  have split: "(\<forall>i<length (e # es). P i) \<longleftrightarrow> P 0 \<and> (\<forall>i<length es. P (Suc i))" for P
    by (auto simp: less_Suc_eq_0_disj)
  show ?case
    unfolding split using 2 by auto
qed simp

lemma check_dir_ok:
  assumes "length dir = 64" "\<forall>e\<in>set dir. length (de_name e) = 40"
  shows "check_dir tot [] dir \<longleftrightarrow> dir_ok tot dir"
proof
  assume c: "check_dir tot [] dir"
  have c: "entry_ok tot (dir ! i) \<and> (\<forall>j<i. de_used (dir ! j) \<longrightarrow> \<not> entry_clash (dir ! i) (dir ! j))"
    if "i < 64" "de_used (dir ! i)" for i
    using c assms(1) that by (force simp: check_dir_append in_set_conv_nth)
  have "\<not> entry_clash (dir ! i) (dir ! j)"
    if "i < 64" "j < 64" "i \<noteq> j" "de_used (dir ! i)" "de_used (dir ! j)" for i j
    using c[of i] c[of j] that entry_clash_sym[of "dir ! i" "dir ! j"]
    by (metis linorder_neqE_nat)
  then show "dir_ok tot dir"
    using assms c by (auto simp: dir_ok_def in_set_conv_nth)
next
  assume d: "dir_ok tot dir"
  show "check_dir tot [] dir"
    unfolding check_dir_append using dir_okD[OF d]
    by (auto simp: in_set_conv_nth)
qed

section \<open>First fit\<close>

definition fits :: "kvfs_dirent list \<Rightarrow> u32 \<Rightarrow> u32 \<Rightarrow> u32 \<Rightarrow> bool" where
  "fits dir tot need s \<longleftrightarrow> 2057 \<le> unat s \<and> unat s + unat need \<le> unat tot \<and>
     (\<forall>e\<in>set dir. de_used e \<longrightarrow> unat s + unat need \<le> de_lo e \<or> de_hi e \<le> unat s)"

definition hit :: "u32 \<Rightarrow> u32 \<Rightarrow> kvfs_dirent \<Rightarrow> bool" where
  "hit cand need e \<longleftrightarrow> de_used e \<and> unat cand < de_hi e \<and> de_lo e < unat cand + unat need"

lemma clash_pass_spec:
  assumes "\<forall>e\<in>set es. de_used e \<longrightarrow> unat (de_start e + de_sectors e) = de_hi e"
    and "unat cand + unat need < 2 ^ 32" "clash_pass cand need es (nx, c) = (nx', c')"
  shows "(c' \<longleftrightarrow> c \<or> (\<exists>e\<in>set es. hit cand need e)) \<and> (\<forall>e\<in>set es. hit cand need e \<longrightarrow> de_hi e \<le> unat nx') \<and>
    unat nx \<le> unat nx' \<and> (nx' = nx \<or> (\<exists>e\<in>set es. hit cand need e \<and> unat nx' = de_hi e))"
  using assms
proof (induction es arbitrary: nx c)
  case (Cons e es)
  have u: "unat (cand + need) = unat cand + unat need"
    using Cons.prems(2) by (simp add: unat_add_u32)
  have h: "hit cand need e \<longleftrightarrow> de_used e \<and> cand < de_start e + de_sectors e \<and> de_start e < cand + need"
    using Cons.prems(1) u by (auto simp: hit_def de_lo_def word_less_nat_alt)
  show ?case
  proof (cases "hit cand need e")
    case False
    then have "clash_pass cand need es (nx, c) = (nx', c')"
      using Cons.prems(3) h by (auto simp: Let_def split: if_splits)
    from Cons.IH[OF _ Cons.prems(2) this] False Cons.prems(1) show ?thesis by auto
  next
    case True
    let ?b = "de_start e + de_sectors e"
    have b: "unat ?b = de_hi e" using Cons.prems(1) True by (auto simp: hit_def)
    have "clash_pass cand need es (if ?b > nx then ?b else nx, True) = (nx', c')"
      using Cons.prems(3) h True by (auto simp: Let_def split: if_splits)
    from Cons.IH[OF _ Cons.prems(2) this] True Cons.prems(1) b show ?thesis
      by (auto simp: word_less_nat_alt split: if_splits)
  qed
qed auto

lemma clash_pass_from_zero:
  assumes "dir_ok tot dir" "unat cand + unat need \<le> unat tot"
    and "clash_pass cand need dir (0, False) = (nx, c)"
  shows "c \<longleftrightarrow> (\<exists>e\<in>set dir. hit cand need e)"
    "e \<in> set dir \<Longrightarrow> hit cand need e \<Longrightarrow> de_hi e \<le> unat nx"
    "c \<Longrightarrow> \<exists>e\<in>set dir. hit cand need e \<and> unat nx = de_hi e"
proof -
  have "\<forall>e\<in>set dir. de_used e \<longrightarrow> unat (de_start e + de_sectors e) = de_hi e"
    using dir_okD(3)[OF assms(1)] entry_extent(4) by blast
  moreover have "unat cand + unat need < 2 ^ 32"
    using assms(2) unat_lt_u32[of tot] by simp
  ultimately have s: "(c \<longleftrightarrow> False \<or> (\<exists>e\<in>set dir. hit cand need e)) \<and>
    (\<forall>e\<in>set dir. hit cand need e \<longrightarrow> de_hi e \<le> unat nx) \<and>
    unat (0 :: u32) \<le> unat nx \<and> (nx = 0 \<or> (\<exists>e\<in>set dir. hit cand need e \<and> unat nx = de_hi e))"
    by (rule clash_pass_spec[OF _ _ assms(3)])
  show "c \<longleftrightarrow> (\<exists>e\<in>set dir. hit cand need e)"
    "e \<in> set dir \<Longrightarrow> hit cand need e \<Longrightarrow> de_hi e \<le> unat nx"
    using s by auto
  show "c \<Longrightarrow> \<exists>e\<in>set dir. hit cand need e \<and> unat nx = de_hi e"
    using s by (auto simp: hit_def)
qed

lemma filter_shrinks:
  assumes "\<And>x. x \<in> set xs \<Longrightarrow> Q x \<Longrightarrow> P x" "e \<in> set xs" "P e" "\<not> Q e"
  shows "length (filter Q xs) < length (filter P xs)"
proof -
  have "filter Q xs = filter Q (filter P xs)"
    using assms(1) by (auto simp: filter_filter intro: filter_cong)
  then show ?thesis
    using length_filter_less[of e "filter P xs" Q] assms by auto
qed

definition first_fit :: "kvfs_dirent list \<Rightarrow> u32 \<Rightarrow> u32 \<Rightarrow> u32 \<Rightarrow> bool" where
  "first_fit dir tot need r \<longleftrightarrow>
     (if r = 0 then (\<forall>s. \<not> fits dir tot need s)
      else fits dir tot need r \<and> (\<forall>s. fits dir tot need s \<longrightarrow> r \<le> s))"

lemma space_loop_first_fit:
  assumes "dir_ok tot dir" "length (filter (\<lambda>e. de_used e \<and> unat cand < de_hi e) dir) < guard"
    and "2057 \<le> unat cand" "unat cand + unat need \<le> unat tot"
    and "\<forall>s. fits dir tot need s \<longrightarrow> cand \<le> s"
  shows "first_fit dir tot need (space_loop guard dir tot need cand)"
  using assms(2-)
proof (induction guard arbitrary: cand)
  case (Suc guard)
  obtain nx c where p: "clash_pass cand need dir (0, False) = (nx, c)" by force
  note cp = clash_pass_from_zero[OF assms(1) Suc.prems(3) p]
  have lim: "cand \<le> tot" "unat (tot - cand) = unat tot - unat cand"
    using Suc.prems(3) by (simp_all add: word_le_nat_alt unat_sub_u32)
  show ?case
  proof (cases c)
    case False
    then have "fits dir tot need cand"
      using cp(1) Suc.prems(2,3) by (force simp: fits_def hit_def not_less)
    moreover have "cand \<noteq> 0" using Suc.prems(2) by auto
    moreover have "need \<le> tot - cand"
      using lim Suc.prems(3) by (simp add: word_le_nat_alt)
    ultimately show ?thesis
      using False p lim Suc.prems(4) by (auto simp: first_fit_def not_less)
  next
    case True
    obtain e where e: "e \<in> set dir" "hit cand need e" "unat nx = de_hi e"
      using cp(3) True by auto
    have beyond: "nx \<le> s" if "fits dir tot need s" for s
    proof -
      have "cand \<le> s" using Suc.prems(4) that by blast
      then show ?thesis
        using that e by (auto simp: fits_def hit_def word_le_nat_alt)
    qed
    show ?thesis
    proof (cases "nx > tot \<or> need > tot - nx")
      case True
      have "\<not> fits dir tot need s" for s
      proof
        assume f: "fits dir tot need s"
        then have "unat nx + unat need \<le> unat tot"
          using beyond[OF f] by (simp add: fits_def word_le_nat_alt)
        then show False
          using True unat_sub_u32[of nx tot]
          by (auto simp: word_less_nat_alt word_le_nat_alt)
      qed
      then show ?thesis using True p \<open>c\<close> by (simp add: first_fit_def)
    next
      case False
      then have room: "unat nx + unat need \<le> unat tot"
        using unat_sub_u32[of nx tot] by (auto simp: word_less_nat_alt word_le_nat_alt)
      have "unat cand < unat nx" using e by (auto simp: hit_def)
      moreover have "length (filter (\<lambda>e. de_used e \<and> unat nx < de_hi e) dir) <
          length (filter (\<lambda>e. de_used e \<and> unat cand < de_hi e) dir)"
        by (rule filter_shrinks[OF _ e(1)]) (use e calculation in \<open>auto simp: hit_def\<close>)
      ultimately have "first_fit dir tot need (space_loop guard dir tot need nx)"
        using Suc.prems(1,2) room beyond by (intro Suc.IH) auto
      then show ?thesis using False p \<open>c\<close> by auto
    qed
  qed
qed simp

lemma find_space_fit:
  assumes "dir_ok (su_total (kv_super kv)) (kv_dir kv)" "su_data_start (kv_super kv) = data_start"
  shows "first_fit (kv_dir kv) (su_total (kv_super kv)) need (find_space kv need)"
proof -
  let ?t = "su_total (kv_super kv)"
  show ?thesis
  proof (cases "data_start > ?t \<or> need > ?t - data_start")
    case True
    have "\<not> fits (kv_dir kv) ?t need s" for s
      using True unat_sub_u32[of data_start ?t]
      by (auto simp: fits_def word_less_nat_alt word_le_nat_alt data_start_def)
    then show ?thesis
      using True assms(2) by (simp add: find_space_def first_fit_def)
  next
    case False
    then have r: "unat data_start + unat need \<le> unat ?t"
      using unat_sub_u32[of data_start ?t] by (auto simp: word_less_nat_alt word_le_nat_alt)
    have "first_fit (kv_dir kv) ?t need (space_loop 65 (kv_dir kv) ?t need data_start)"
    proof (rule space_loop_first_fit[OF assms(1) _ _ r])
      show "length (filter (\<lambda>e. de_used e \<and> unat data_start < de_hi e) (kv_dir kv)) < 65"
        using dir_okD(1)[OF assms(1)] length_filter_le[of _ "kv_dir kv"] by (metis le_imp_less_Suc numeral_eq_Suc pred_numeral_simps(2,3) semiring_norm(26,27,28))
    qed (auto simp: fits_def data_start_def word_le_nat_alt)
    then show ?thesis
      using False assms(2) by (simp add: find_space_def)
  qed
qed

end
