(* ===== verification/Kvfs_Disk.thy ===== *)
theory Kvfs_Disk
  imports Kvfs_Alloc
begin

text \<open>
  The directory on the medium: encoding and decoding of entries are inverse, a
  committed entry changes exactly one directory sector, and mounting a medium that
  holds a valid filesystem brings back the directory it holds.
\<close>

section \<open>Entries and groups\<close>

lemma length_enc_dirent [simp, len_simps]: "length (de_name e) = 40 \<Longrightarrow> length (enc_dirent e) = 64"
  by (simp add: enc_dirent_def)

theorem dirent_roundtrip: "length (de_name e) = 40 \<Longrightarrow> dec_dirent (enc_dirent e) = e"
  by (simp add: dec_dirent_def enc_dirent_def get32_append)

lemma enc_dec_dirent: "length b = 64 \<Longrightarrow> enc_dirent (dec_dirent b) = b"
  using peel_bytes[of 4 40 b] peel_bytes[of 4 44 b] peel_bytes[of 4 48 b] peel_bytes[of 4 52 b]
    peel_bytes[of 4 56 b] append_take_drop_id[of 40 b]
  by (simp add: enc_dirent_def dec_dirent_def bytes32_get32)

lemma length_dec_name [simp]: "40 \<le> length b \<Longrightarrow> length (de_name (dec_dirent b)) = 40"
  by (simp add: dec_dirent_def)

lemma length_enc_group:
  assumes "length dir = 64" "\<forall>e\<in>set dir. length (de_name e) = 40" "g < 8"
  shows "length (enc_group dir g) = 512"
proof -
  have "length (enc_group dir g) = 64 * length (take 8 (drop (8 * g) dir))"
    unfolding enc_group_def
    by (rule length_concat_chunks) (use assms in \<open>auto dest!: in_set_takeD in_set_dropD\<close>)
  then show ?thesis using assms by simp
qed

definition decode_dir :: "(u32 \<Rightarrow> sector) \<Rightarrow> kvfs_dirent list" where
  "decode_dir m = map (\<lambda>k. dec_group (m (dir_sector + of_nat (k div 8))) ! (k mod 8)) [0..<64]"

lemma length_decode_dir [simp]: "length (decode_dir m) = 64"
  by (simp add: decode_dir_def)

lemma length_dec_group [simp]: "length (dec_group b) = 8"
  by (simp add: dec_group_def)

lemma decode_dir_names:
  "(\<And>x. length (m x) = 512) \<Longrightarrow> \<forall>e\<in>set (decode_dir m). length (de_name e) = 40"
  by (auto simp: decode_dir_def dec_group_def)

lemma group_nth:
  assumes "length dir = 64" "g < 8" "i < 8"
  shows "take 8 (drop (8 * g) dir) ! i = dir ! (8 * g + i)"
  using assms by simp

lemma dec_enc_group:
  assumes "length dir = 64" "\<forall>e\<in>set dir. length (de_name e) = 40" "k < 64"
  shows "dec_group (enc_group dir (k div 8)) ! (k mod 8) = dir ! k"
proof -
  let ?es = "take 8 (drop (8 * (k div 8)) dir)"
  have k: "k div 8 < 8" "8 * (k div 8) + k mod 8 = k" using assms(3) by simp_all
  have "take 64 (drop (64 * (k mod 8)) (concat (map enc_dirent ?es))) = enc_dirent (?es ! (k mod 8))"
    by (rule concat_chunk)
      (use assms k in \<open>auto simp: less_diff_conv dest!: in_set_takeD in_set_dropD\<close>)
  also have "?es ! (k mod 8) = dir ! k"
    using group_nth[OF assms(1) k(1), of "k mod 8"] k by simp
  finally show ?thesis
    using assms by (simp add: dec_group_def enc_group_def dirent_roundtrip)
qed

definition dir_on :: "(u32 \<Rightarrow> sector) \<Rightarrow> kvfs_dirent list \<Rightarrow> bool" where
  "dir_on m dir \<longleftrightarrow> (\<forall>g<8. m (dir_sector + of_nat g) = enc_group dir g)"

lemma decode_dir_on:
  assumes "length dir = 64" "\<forall>e\<in>set dir. length (de_name e) = 40" "dir_on m dir"
  shows "decode_dir m = dir"
proof (rule nth_equalityI)
  fix k assume "k < length (decode_dir m)"
  then have k: "k < 64" "k div 8 < 8" by simp_all
  then show "decode_dir m ! k = dir ! k"
    using dec_enc_group[OF assms(1,2), of k] assms(3) by (simp add: decode_dir_def dir_on_def)
qed (use assms in simp)

lemma dir_on_decode:
  assumes "\<And>x. length (m x) = 512"
  shows "dir_on m (decode_dir m)"
  unfolding dir_on_def
proof (intro allI impI)
  fix g :: nat assume g: "g < 8"
  let ?b = "m (dir_sector + of_nat g)"
  have "take 8 (drop (8 * g) (decode_dir m)) = map (\<lambda>i. dec_dirent (take 64 (drop (64 * i) ?b))) [0..<8]"
    using g by (intro nth_equalityI) (auto simp: decode_dir_def dec_group_def)
  then have "enc_group (decode_dir m) g =
      concat (map (\<lambda>i. enc_dirent (dec_dirent (take 64 (drop (64 * i) ?b)))) [0..<8])"
    by (simp add: enc_group_def comp_def)
  also have "\<dots> = concat (map (\<lambda>i. take 64 (drop (64 * i) ?b)) [0..<8])"
    using assms by (intro arg_cong[of _ _ concat] map_cong) (auto simp: enc_dec_dirent)
  also have "\<dots> = ?b"
    using assms[of "dir_sector + of_nat g"] by (simp add: concat_chunks)
  finally show "?b = enc_group (decode_dir m) g" by simp
qed

section \<open>Updating one entry\<close>

lemma splice_chunk:
  "(\<And>x. x \<in> set xs \<Longrightarrow> length (f x) = w) \<Longrightarrow> length (f e) = w \<Longrightarrow> i < length xs \<Longrightarrow>
     splice (i * w) (f e) (concat (map f xs)) = concat (map f (xs[i := e]))"
proof (induction xs arbitrary: i)
  case (Cons x xs)
  then show ?case by (cases i) (auto simp: splice_def add.commute)
qed simp

lemma enc_group_update:
  assumes "length dir = 64" "\<forall>e\<in>set dir. length (de_name e) = 40" "length (de_name e) = 40"
    and "slot < 64" "g < 8"
  shows "enc_group (dir[slot := e]) g =
    (if g = slot div 8 then splice ((slot mod 8) * 64) (enc_dirent e) (enc_group dir g) else enc_group dir g)"
proof (cases "g = slot div 8")
  case True
  have s: "slot - 8 * g = slot mod 8" "8 * g \<le> slot"
    using True minus_mult_div_eq_mod[of slot 8] by (auto simp: mult.commute)
  have "take 8 (drop (8 * g) (dir[slot := e])) = (take 8 (drop (8 * g) dir))[slot mod 8 := e]"
    using s by (simp add: drop_update_swap take_update_swap)
  moreover have "splice ((slot mod 8) * 64) (enc_dirent e) (concat (map enc_dirent (take 8 (drop (8 * g) dir)))) =
      concat (map enc_dirent ((take 8 (drop (8 * g) dir))[slot mod 8 := e]))"
    by (rule splice_chunk) (use assms in \<open>auto dest!: in_set_takeD in_set_dropD\<close>)
  ultimately show ?thesis using True by (simp add: enc_group_def)
next
  case False
  then consider "slot < 8 * g" | "8 * g + 8 \<le> slot"
    using div_mult_mod_eq[of slot 8] mod_less_divisor[of 8 slot] by (metis add.commute div_less_iff_less_mult linorder_cases mult.commute mult_Suc_right not_less Suc_leI Suc_le_eq dividend_less_times_div less_eq_div_iff_mult_less_eq zero_less_numeral)
  then have "take 8 (drop (8 * g) (dir[slot := e])) = take 8 (drop (8 * g) dir)"
    by cases (simp_all add: drop_update_cancel drop_update_swap take_update_cancel)
  then show ?thesis using False by (simp add: enc_group_def)
qed

lemma dir_sector_addr:
  "g < 8 \<Longrightarrow> unat (dir_sector + of_nat g) = 2049 + g"
  by (simp add: dir_sector_def unat_add_u32 unat_of_nat_u32)

lemma dir_sector_inj: "g < 8 \<Longrightarrow> h < 8 \<Longrightarrow> dir_sector + of_nat g = dir_sector + of_nat h \<longleftrightarrow> g = h"
  by (metis add_left_cancel dir_sector_addr)

lemma dir_on_update:
  assumes "dir_on m dir" "length dir = 64" "\<forall>e\<in>set dir. length (de_name e) = 40"
    "length (de_name e) = 40" "slot < 64"
  shows "dir_on (m(dir_sector + of_nat (slot div 8) :=
    splice ((slot mod 8) * 64) (enc_dirent e) (enc_group dir (slot div 8)))) (dir[slot := e])"
  using assms(1,5) dir_sector_inj[of _ "slot div 8"]
  by (auto simp: dir_on_def enc_group_update[OF assms(2-5)])

end
