(* ===== verification/Kvfs_Files.thy ===== *)
theory Kvfs_Files
  imports Kvfs_Disk
begin

text \<open>
  KvFS as a map from names to contents. \<open>kvfs_files\<close> is the abstraction; every
  operation is shown to be the map operation it promises, for every pattern of bus
  errors, and what is on the medium after a crash mounts as the old or the new map.
\<close>

section \<open>The abstraction\<close>

definition file_body :: "(u32 \<Rightarrow> sector) \<Rightarrow> kvfs_dirent \<Rightarrow> u8 list" where
  "file_body m e = take (unat (de_size e)) (span m (de_start e) (unat (de_sectors e)))"

definition files_on :: "(u32 \<Rightarrow> sector) \<Rightarrow> kvfs_dirent list \<Rightarrow> cstring \<Rightarrow> u8 list option" where
  "files_on m dir nm = map_option (\<lambda>i. file_body m (dir ! i)) (find_entry dir nm)"

definition kv_med :: "kvfs \<Rightarrow> u32 \<Rightarrow> sector" where
  "kv_med kv = ata_med (kv_dev kv) (kv_ata kv)"

definition kvfs_files :: "kvfs \<Rightarrow> cstring \<Rightarrow> u8 list option" where
  "kvfs_files kv = files_on (kv_med kv) (kv_dir kv)"

definition super_on :: "(u32 \<Rightarrow> sector) \<Rightarrow> u32 \<Rightarrow> bool" where
  "super_on m tot \<longleftrightarrow> (let s = dec_super (m kvfs_base) in su_magic s = kvfs_magic \<and>
     su_version s = 2 \<and> su_data_start s = data_start \<and> su_total s = tot)"

definition fs_on :: "int \<Rightarrow> ata \<Rightarrow> u32 \<Rightarrow> kvfs_dirent list \<Rightarrow> bool" where
  "fs_on i a tot dir \<longleftrightarrow> ata_good i a \<and> at_boot a = i \<and> data_start + 64 \<le> tot \<and>
     tot \<le> ata_sectors a i \<and> super_on (ata_med i a) tot \<and> dir_ok tot dir \<and> dir_on (ata_med i a) dir"

definition kvfs_ok :: "kvfs \<Rightarrow> bool" where
  "kvfs_ok kv \<longleftrightarrow> kv_mounted kv \<and> su_data_start (kv_super kv) = data_start \<and>
     fs_on (kv_dev kv) (kv_ata kv) (su_total (kv_super kv)) (kv_dir kv)"

section \<open>Lookup\<close>

lemma find_entry_iff:
  assumes "dir_ok tot dir"
  shows "find_entry dir nm = Some i \<longleftrightarrow> i < 64 \<and> de_used (dir ! i) \<and> cstr (de_name (dir ! i)) = nm"
proof -
  have "\<not> (de_used (dir ! j) \<and> cstr (de_name (dir ! j)) = nm)"
    if "i < 64" "de_used (dir ! i)" "cstr (de_name (dir ! i)) = nm" "j < i" for j
    using dir_okD(4)[OF assms, of i j] that by (auto simp: entry_clash_def)
  then show ?thesis
    using dir_okD(1)[OF assms] by (auto simp: find_entry_def first_index_iff)
qed

lemma find_entry_None:
  assumes "dir_ok tot dir"
  shows "find_entry dir nm = None \<longleftrightarrow> (\<forall>i<64. \<not> (de_used (dir ! i) \<and> cstr (de_name (dir ! i)) = nm))"
  using dir_okD(1)[OF assms] by (auto simp: find_entry_def first_index_None all_set_conv_all_nth)

lemma option_without:
  assumes "\<And>i. p = Some i \<longleftrightarrow> q = Some i \<and> i \<noteq> x"
  shows "p = (if q = Some x then None else q)"
proof (cases q)
  case None
  then show ?thesis using assms by (metis not_Some_eq)
next
  case (Some y)
  then show ?thesis using assms by (metis not_Some_eq option.inject)
qed

lemma find_entry_update:
  assumes "dir_ok tot dir" "dir_ok tot (dir[slot := e])" "slot < 64"
  shows "find_entry (dir[slot := e]) nm =
    (if de_used e \<and> cstr (de_name e) = nm then Some slot
     else if find_entry dir nm = Some slot then None else find_entry dir nm)"
proof -
  note l = dir_okD(1)[OF assms(1)]
  note iff = find_entry_iff[OF assms(1)] find_entry_iff[OF assms(2)]
  have "find_entry (dir[slot := e]) nm = Some slot" if "de_used e \<and> cstr (de_name e) = nm"
    using that assms(3) l by (simp add: iff)
  moreover have "find_entry (dir[slot := e]) nm = (if find_entry dir nm = Some slot then None else find_entry dir nm)"
    if "\<not> (de_used e \<and> cstr (de_name e) = nm)"
    by (rule option_without) (use that assms(3) l in \<open>auto simp: iff nth_list_update\<close>)
  ultimately show ?thesis by (simp only: if_split) blast
qed

lemma files_on_update:
  assumes "dir_ok tot dir" "dir_ok tot (dir[slot := e])" "slot < 64"
  shows "files_on m (dir[slot := e]) nm =
    (if de_used e \<and> cstr (de_name e) = nm then Some (file_body m e)
     else if find_entry dir nm = Some slot then None else files_on m dir nm)"
  using dir_okD(1)[OF assms(1)] assms(3)
  by (auto simp: files_on_def find_entry_update[OF assms] nth_list_update split: option.splits)
    (auto simp: map_option_case split: option.splits)

lemma file_body_cong:
  assumes "entry_ok tot e" "\<And>y. de_lo e \<le> unat y \<Longrightarrow> unat y < de_hi e \<Longrightarrow> m y = m' y"
  shows "file_body m e = file_body m' e"
proof -
  have "span m (de_start e) (unat (de_sectors e)) = span m' (de_start e) (unat (de_sectors e))"
    by (rule span_cong)
      (use assms entry_extent(3)[OF assms(1)] unat_lt_u32[of tot] in
        \<open>auto simp: in_span_def de_lo_def de_hi_def\<close>)
  then show ?thesis by (simp add: file_body_def)
qed

lemma files_on_cong:
  assumes "dir_ok tot dir"
    and "\<And>(y :: u32) e. e \<in> set dir \<Longrightarrow> de_used e \<Longrightarrow> de_lo e \<le> unat y \<Longrightarrow> unat y < de_hi e \<Longrightarrow> m y = m' y"
  shows "files_on m dir = files_on m' dir"
proof
  fix nm
  have "file_body m (dir ! i) = file_body m' (dir ! i)" if "find_entry dir nm = Some i" for i
  proof (rule file_body_cong)
    have i: "dir ! i \<in> set dir" "de_used (dir ! i)"
      using that dir_okD(1)[OF assms(1)] by (auto simp: find_entry_iff[OF assms(1)])
    then show "entry_ok tot (dir ! i)" using dir_okD(3)[OF assms(1)] by blast
    show "m y = m' y" if "de_lo (dir ! i) \<le> unat y" "unat y < de_hi (dir ! i)" for y
      by (rule assms(2)[OF i that])
  qed
  then show "files_on m dir nm = files_on m' dir nm"
    by (auto simp: files_on_def map_option_case split: option.splits)
qed

lemma files_on_above:
  assumes "dir_ok tot dir" "\<And>y :: u32. 2057 \<le> unat y \<Longrightarrow> m y = m' y"
  shows "files_on m dir = files_on m' dir"
proof (rule files_on_cong[OF assms(1)])
  fix y :: u32 and e assume "e \<in> set dir" "de_used e" "de_lo e \<le> unat y"
  then show "m y = m' y"
    using assms(2)[of y] entry_extent(1)[of tot e] dir_okD(3)[OF assms(1), of e] by simp
qed

section \<open>Mounting\<close>

lemma set_group_nth:
  assumes "length dir = 64" "length es = 8" "s < 8" "k < 64"
  shows "set_group dir s es ! k = (if k div 8 = s then es ! (k mod 8) else dir ! k)"
proof -
  have eq: "k div 8 = s \<longleftrightarrow> 8 * s \<le> k \<and> k < 8 * s + 8"
    using div_mult_mod_eq[of k 8] mod_less_divisor[of 8 k] by (intro iffI; linarith)
  consider "k < 8 * s" | "k div 8 = s" "8 * s \<le> k" "k < 8 * s + 8" | "8 * s + 8 \<le> k"
    using eq by linarith
  then show ?thesis
  proof cases
    case 2
    then have "k - 8 * s = k mod 8" using div_mult_mod_eq[of k 8] by linarith
    then show ?thesis using assms 2 by (simp add: set_group_def nth_append)
  next
    case 3
    then have "\<not> k < 8 * s" "\<not> k - 8 * s < 8" "8 * s + 8 + (k - 8 * s - 8) = k" by linarith+
    then show ?thesis using assms 3 eq by (simp add: set_group_def nth_append)
  qed (use assms eq in \<open>simp add: set_group_def nth_append\<close>)
qed

lemma length_set_group [simp]:
  "length dir = 64 \<Longrightarrow> length es = 8 \<Longrightarrow> s < 8 \<Longrightarrow> length (set_group dir s es) = 64"
  by (simp add: set_group_def)

lemma read_dir_law:
  assumes "ata_good i (kv_ata kv) \<and> at_boot (kv_ata kv) = j" "kv_dev kv = i"
    "length (kv_dir kv) = 64" "s + n = 8" "read_dir n s kv = (kv', ok)"
  shows "\<exists>a d. kv' = kv\<lparr>kv_ata := a, kv_dir := d\<rparr> \<and> (ata_good i a \<and> at_boot a = j) \<and>
    ata_med i a = ata_med i (kv_ata kv) \<and> ata_sectors a i = ata_sectors (kv_ata kv) i \<and>
    length d = 64 \<and> (ok \<longrightarrow> (\<forall>k<64. d ! k = (if s \<le> k div 8 then decode_dir (ata_med i (kv_ata kv)) ! k
       else kv_dir kv ! k)))"
  using assms
proof (induction n arbitrary: s kv)
  case 0
  then show ?case by (intro exI[of _ "kv_ata kv"] exI[of _ "kv_dir kv"]) auto
next
  case (Suc n)
  obtain a1 r where r: "ata_rd1 i (kv_ata kv) (dir_sector + of_nat s) = (a1, r)" by force
  note l = ad.rd_law[OF Suc.prems(1) r]
  show ?case
  proof (cases r)
    case None
    then show ?thesis
      using Suc.prems r l by (intro exI[of _ a1] exI[of _ "kv_dir kv"]) auto
  next
    case (Some b)
    let ?d = "set_group (kv_dir kv) s (dec_group b)"
    let ?kv = "kv\<lparr>kv_ata := a1, kv_dir := ?d\<rparr>"
    have "read_dir n (s + 1) ?kv = (kv', ok)" using Suc.prems(2,5) r Some by simp
    from Suc.IH[OF _ _ _ _ this] Suc.prems l obtain a d where
      k: "kv' = kv\<lparr>kv_ata := a, kv_dir := d\<rparr>" "(ata_good i a \<and> at_boot a = j)"
      "ata_med i a = ata_med i (kv_ata kv)" "ata_sectors a i = ata_sectors (kv_ata kv) i"
      "length d = 64" "ok \<longrightarrow> (\<forall>k<64. d ! k = (if s + 1 \<le> k div 8
         then decode_dir (ata_med i (kv_ata kv)) ! k else ?d ! k))"
      by auto
    have "d ! x = (if s \<le> x div 8 then decode_dir (ata_med i (kv_ata kv)) ! x else kv_dir kv ! x)"
      if "ok" "x < 64" for x
      using k(6) that Suc.prems(3,4) l Some
      by (auto simp: set_group_nth decode_dir_def not_less_eq_eq le_less_Suc_eq)
    then show ?thesis using k by blast
  qed
qed

lemma read_dir_live:
  assumes "ata_good i (kv_ata kv) \<and> at_boot (kv_ata kv) = j" "kv_dev kv = i" "ata_live (kv_ata kv)"
    "s + n = 8" "2057 \<le> unat (ata_sectors (kv_ata kv) i)"
  shows "\<exists>kv'. read_dir n s kv = (kv', True) \<and> ata_live (kv_ata kv')"
  using assms
proof (induction n arbitrary: s kv)
  case (Suc n)
  have "dir_sector + of_nat s < ata_sectors (kv_ata kv) i"
    using dir_sector_addr[of s] Suc.prems(4,5) by (simp add: word_less_nat_alt)
  then obtain a1 where r: "ata_rd1 i (kv_ata kv) (dir_sector + of_nat s) =
      (a1, Some (ata_med i (kv_ata kv) (dir_sector + of_nat s)))" "ata_live a1"
    using ad.rd_live[OF Suc.prems(1,3)] by blast
  then show ?case
    using Suc.IH[of "kv\<lparr>kv_ata := a1, kv_dir := X\<rparr>" "s + 1" for X] ad.rd_law[OF Suc.prems(1) r(1)] Suc.prems
    by auto
qed simp

lemma super_fields_update [simp]:
  "su_total (s\<lparr>su_count := c\<rparr>) = su_total s" "su_data_start (s\<lparr>su_count := c\<rparr>) = su_data_start s"
  by (cases s; simp)+

lemma mount_ok:
  assumes "kvfs_mount kv = (kv', 0)" "ata_good (at_boot (kv_ata kv)) (kv_ata kv)" "length (kv_dir kv) = 64"
  shows "kvfs_ok kv' \<and> kv_dev kv' = at_boot (kv_ata kv) \<and> kv_med kv' = ata_med (kv_dev kv') (kv_ata kv) \<and>
    kv_dir kv' = decode_dir (kv_med kv') \<and> kv_gen kv' = vfs_namespace_changed (kv_gen kv)"
proof -
  let ?i = "at_boot (kv_ata kv)"
  let ?m = "ata_med ?i (kv_ata kv)"
  let ?kv0 = "kv\<lparr>kv_gen := vfs_namespace_changed (kv_gen kv), kv_mounted := False, kv_dev := ?i\<rparr>"
  obtain a1 r where r: "ata_rd1 ?i (kv_ata kv) kvfs_base = (a1, r)" by force
  from assms(1) r obtain b where b: "r = Some b"
    by (cases r) (auto simp: kvfs_mount_def Let_def ata_boot_drive_def split: if_splits)
  have l: "ata_good ?i a1 \<and> at_boot a1 = ?i" "ata_med ?i a1 = ?m" "b = ?m kvfs_base"
    using ad.rd_law[OF conjI[OF assms(2) refl] r] b by auto
  let ?kv1 = "?kv0\<lparr>kv_ata := a1, kv_super := dec_super b\<rparr>"
  obtain kv2 ok where rd: "read_dir 8 0 ?kv1 = (kv2, ok)" by force
  from read_dir_law[OF _ _ _ _ rd, of ?i ?i] assms(3) l obtain a d where
    k: "kv2 = ?kv1\<lparr>kv_ata := a, kv_dir := d\<rparr>" "ata_good ?i a \<and> at_boot a = ?i"
    "ata_med ?i a = ?m" "ata_sectors a ?i = ata_sectors a1 ?i" "length d = 64"
    "ok \<longrightarrow> (\<forall>k<64. d ! k = decode_dir ?m ! k)"
    by auto
  from assms(1) r b rd have c: "ok" "su_magic (dec_super b) = kvfs_magic" "su_version (dec_super b) = 2"
    "su_data_start (dec_super b) = data_start" "\<not> su_total (dec_super b) < data_start + 64"
    "\<not> su_total (dec_super b) > ata_sectors a1 ?i" "check_dir (su_total (dec_super b)) [] d"
    "kv' = kv2\<lparr>kv_super := (kv_super kv2)\<lparr>su_count := count_used (kv_dir kv2)\<rparr>, kv_mounted := True\<rparr>"
    using k(1) by (auto simp: kvfs_mount_def Let_def ata_boot_drive_def split: if_splits bool.splits)
  have d: "d = decode_dir ?m"
    using k(5,6) c(1) by (intro nth_equalityI) auto
  have len: "length (?m x) = 512" for x by (rule ad.med_len)
  have "dir_ok (su_total (dec_super b)) d"
    using check_dir_ok[of d] c(7) decode_dir_names[of ?m] len d by simp
  moreover have "dir_on ?m d" using dir_on_decode[of ?m] len d by simp
  ultimately show ?thesis
    using c k d l by (auto simp: kvfs_ok_def fs_on_def super_on_def kv_med_def not_less Let_def)
qed

lemma data_start_le:
  "data_start + 64 \<le> tot \<Longrightarrow> tot \<le> n \<Longrightarrow> 2121 \<le> unat tot \<and> 2121 \<le> unat n"
  by (simp add: data_start_def word_le_nat_alt)

lemma mount_found:
  assumes "fs_on i (kv_ata kv) tot dir" "ata_live (kv_ata kv)" "length (kv_dir kv) = 64"
  shows "\<exists>kv'. kvfs_mount kv = (kv', 0) \<and> kvfs_ok kv' \<and> kv_dir kv' = dir \<and>
    kv_med kv' = ata_med i (kv_ata kv) \<and> ata_live (kv_ata kv')"
proof -
  let ?m = "ata_med i (kv_ata kv)"
  have f: "ata_good i (kv_ata kv) \<and> at_boot (kv_ata kv) = i" "data_start + 64 \<le> tot"
    "tot \<le> ata_sectors (kv_ata kv) i" "super_on ?m tot" "dir_ok tot dir" "dir_on ?m dir"
    using assms(1) by (auto simp: fs_on_def)
  note n = data_start_le[OF f(2,3)]
  let ?kv0 = "kv\<lparr>kv_gen := vfs_namespace_changed (kv_gen kv), kv_mounted := False, kv_dev := i\<rparr>"
  have "kvfs_base < ata_sectors (kv_ata kv) i"
    using n by (simp add: kvfs_base_def word_less_nat_alt)
  then obtain a1 where r: "ata_rd1 i (kv_ata kv) kvfs_base = (a1, Some (?m kvfs_base))" "ata_live a1"
    using ad.rd_live[OF f(1) assms(2)] by blast
  note l = ad.rd_law[OF f(1) r(1)]
  let ?kv1 = "?kv0\<lparr>kv_ata := a1, kv_super := dec_super (?m kvfs_base)\<rparr>"
  obtain kv2 where rd: "read_dir 8 0 ?kv1 = (kv2, True)" "ata_live (kv_ata kv2)"
    using read_dir_live[of i ?kv1 i 0 8] l r n by auto
  from read_dir_law[OF _ _ _ _ rd(1), of i i] assms(3) l obtain a d where
    k: "kv2 = ?kv1\<lparr>kv_ata := a, kv_dir := d\<rparr>" "length d = 64" "\<forall>k<64. d ! k = decode_dir ?m ! k"
    by auto
  have d: "d = dir"
    using decode_dir_on[OF dir_okD(1)[OF f(5)] _ f(6)] dir_okD(2)[OF f(5)] k(2,3)
    by (intro nth_equalityI) auto
  have i0: "\<not> i < 0" using f(1) by (auto simp: ata_good_def ata_ok_drive_def)
  have "check_dir tot [] dir"
    using check_dir_ok[of dir tot] f(5) dir_okD[OF f(5)] by blast
  then have "\<exists>kv'. kvfs_mount kv = (kv', 0) \<and> ata_live (kv_ata kv')"
    using f i0 r l rd k d
    by (auto simp: kvfs_mount_def Let_def ata_boot_drive_def super_on_def not_less)
  then obtain kv' where m: "kvfs_mount kv = (kv', 0)" "ata_live (kv_ata kv')" by blast
  have "kvfs_ok kv' \<and> kv_dev kv' = i \<and> kv_med kv' = ?m \<and> kv_dir kv' = decode_dir ?m"
    using mount_ok[OF m(1) _ assms(3)] f(1) by auto
  then show ?thesis
    using m decode_dir_on[OF dir_okD(1)[OF f(5)] _ f(6)] dir_okD(2)[OF f(5)] by auto
qed

end
