(* ===== verification/Kvfs_Ops.thy ===== *)
theory Kvfs_Ops
  imports Kvfs_Files
begin

text \<open>
  The file operations of KvFS against the abstraction \<open>kvfs_files\<close>: what write, read,
  delete and rename do on every branch and for every pattern of bus errors, and what
  a mount finds after the power was cut at the end of any of them.
\<close>

section \<open>Publishing an entry\<close>

lemma kvfs_ok_len: "kvfs_ok kv \<Longrightarrow> length (kv_dir kv) = 64"
  by (auto simp: kvfs_ok_def fs_on_def dir_ok_def)

lemma kvfs_okD:
  assumes "kvfs_ok kv"
  shows "kv_mounted kv" "su_data_start (kv_super kv) = data_start"
    "ata_good (kv_dev kv) (kv_ata kv) \<and> at_boot (kv_ata kv) = kv_dev kv"
    "dir_ok (su_total (kv_super kv)) (kv_dir kv)" "dir_on (kv_med kv) (kv_dir kv)"
    "super_on (kv_med kv) (su_total (kv_super kv))"
    "data_start + 64 \<le> su_total (kv_super kv)"
    "su_total (kv_super kv) \<le> ata_sectors (kv_ata kv) (kv_dev kv)"
  using assms by (auto simp: kvfs_ok_def fs_on_def kv_med_def)

lemma super_on_low:
  "super_on m tot \<Longrightarrow> m' kvfs_base = m kvfs_base \<Longrightarrow> super_on m' tot"
  by (simp add: super_on_def)

lemma base_not_dir: "g < 8 \<Longrightarrow> kvfs_base \<noteq> dir_sector + of_nat g"
  using dir_sector_addr[of g] by (auto simp: kvfs_base_def dest!: arg_cong[of _ _ unat])

text \<open>A commit either keeps the medium's directory or replaces the one entry.\<close>

definition commit_result :: "kvfs \<Rightarrow> kvfs_dirent list \<Rightarrow> kvfs \<Rightarrow> int \<Rightarrow> bool" where
  "commit_result kv dir' kv' rc \<longleftrightarrow>
     kv_dev kv' = kv_dev kv \<and> su_total (kv_super kv') = su_total (kv_super kv) \<and>
     (\<forall>y. 2057 \<le> unat y \<longrightarrow> kv_med kv' y = kv_med kv y) \<and>
     (rc = 0 \<and> kvfs_ok kv' \<and> kv_dir kv' = dir' \<and> kv_gen kv' = kv_gen kv \<or>
      rc = -2 \<and> \<not> kv_mounted kv' \<and> kv_dir kv' = kv_dir kv \<and> kv_gen kv' \<noteq> kv_gen kv \<and>
      (fs_on (kv_dev kv) (kv_ata kv') (su_total (kv_super kv)) (kv_dir kv) \<or>
       fs_on (kv_dev kv) (kv_ata kv') (su_total (kv_super kv)) dir'))"

lemma commit_law:
  assumes ok: "kvfs_ok kv" and "slot < 64" "length (de_name e) = 40"
    and dir': "dir_ok (su_total (kv_super kv)) ((kv_dir kv)[slot := e])"
    and c: "commit_entry slot e kv = (kv', rc)"
  shows "commit_result kv ((kv_dir kv)[slot := e]) kv' rc"
proof -
  let ?g = "slot div 8" and ?i = "kv_dev kv" and ?tot = "su_total (kv_super kv)"
  let ?d' = "(kv_dir kv)[slot := e]"
  let ?x = "dir_sector + of_nat ?g"
  let ?b = "splice ((slot mod 8) * 64) (enc_dirent e) (enc_group (kv_dir kv) ?g)"
  note k = kvfs_okD[OF ok]
  have names: "length (kv_dir kv) = 64" "\<forall>e\<in>set (kv_dir kv). length (de_name e) = 40"
    "\<forall>e\<in>set ?d'. length (de_name e) = 40"
    using dir_okD[OF k(4)] dir_okD[OF dir'] by blast+
  have g: "?g < 8" using assms(2) by simp
  have len: "length ?b = 512"
    using enc_group_update[OF names(1,2) assms(3,2) g] length_enc_group[OF _ names(3) g] names(1) by simp
  obtain a r where w: "ata_wr1 ?i (kv_ata kv) ?x ?b = (a, r)" by force
  note l = ad.wr_law[OF k(3) len w]
  have m: "ata_med ?i a = kv_med kv \<and> \<not> r \<or> ata_med ?i a = (kv_med kv)(?x := ?b)"
    using l by (simp add: kv_med_def)
  have hi: "\<forall>y. 2057 \<le> unat y \<longrightarrow> ata_med ?i a y = kv_med kv y"
    using m dir_sector_addr[OF g] g by auto
  have new: "fs_on ?i a ?tot ?d'" if "ata_med ?i a = (kv_med kv)(?x := ?b)"
    using dir_on_update[OF k(5) names(1,2) assms(3,2)] that l k(7,8) dir' base_not_dir[OF g]
      super_on_low[OF k(6), of "ata_med ?i a"]
    by (auto simp: fs_on_def)
  have old: "fs_on ?i a ?tot (kv_dir kv)" if "ata_med ?i a = kv_med kv"
    using that l k by (auto simp: fs_on_def)
  show ?thesis
  proof (cases r)
    case True
    then have n: "fs_on ?i a ?tot ?d'" using m new by blast
    have kv': "rc = 0" "kv_dir kv' = ?d'" "kv_ata kv' = a" "kv_dev kv' = ?i" "kv_mounted kv'"
      "su_total (kv_super kv') = ?tot" "su_data_start (kv_super kv') = data_start" "kv_gen kv' = kv_gen kv"
      using c w True k(1,2) by (auto simp: commit_entry_def Let_def)
    then show ?thesis
      using n hi by (simp add: commit_result_def kvfs_ok_def kv_med_def)
  next
    case False
    then have kv': "kv' = kv\<lparr>kv_ata := a, kv_mounted := False, kv_gen := vfs_namespace_changed (kv_gen kv)\<rparr>" "rc = -2"
      using c w by (auto simp: commit_entry_def Let_def)
    have "fs_on ?i a ?tot (kv_dir kv) \<or> fs_on ?i a ?tot ?d'"
      using m old new by blast
    then show ?thesis
      using hi kv' namespace_differs by (simp add: commit_result_def kv_med_def)
  qed
qed

section \<open>After a crash\<close>

text \<open>Power off and on: the bus works again, nothing is mounted, the medium is as it was.\<close>

definition power_cycle :: "kvfs \<Rightarrow> kvfs" where
  "power_cycle kv = kv\<lparr>kv_ata := (kv_ata kv)\<lparr>at_plan := [], at_dead := False\<rparr>, kv_mounted := False\<rparr>"

text \<open>What a mount after the power cycle shows: a valid filesystem with these files.\<close>

definition recovered :: "kvfs \<Rightarrow> (cstring \<Rightarrow> u8 list option) \<Rightarrow> bool" where
  "recovered kv fs \<longleftrightarrow> (\<exists>kv'. kvfs_mount (power_cycle kv) = (kv', 0) \<and> kvfs_ok kv' \<and> kvfs_files kv' = fs)"

lemma power_cycle_fs:
  "fs_on i (kv_ata kv) tot dir \<Longrightarrow> fs_on i (kv_ata (power_cycle kv)) tot dir"
  "ata_med i (kv_ata (power_cycle kv)) = ata_med i (kv_ata kv)"
  "ata_live (kv_ata (power_cycle kv))"
  "length (kv_dir (power_cycle kv)) = length (kv_dir kv)"
proof -
  have s: "same_drives (kv_ata kv) (kv_ata (power_cycle kv))"
    by (simp add: same_drives_def power_cycle_def)
  show "fs_on i (kv_ata kv) tot dir \<Longrightarrow> fs_on i (kv_ata (power_cycle kv)) tot dir"
    unfolding fs_on_def same_drives_view[OF s] .
  show "ata_med i (kv_ata (power_cycle kv)) = ata_med i (kv_ata kv)"
    by (rule same_drives_view[OF s])
qed (simp_all add: power_cycle_def ata_live_def)

lemma recovered_fs:
  assumes "fs_on i (kv_ata kv) tot dir" "length (kv_dir kv) = 64"
  shows "recovered kv (files_on (ata_med i (kv_ata kv)) dir)"
  using mount_found[OF power_cycle_fs(1)[OF assms(1)] power_cycle_fs(3)] assms(2)
  by (auto simp: recovered_def kvfs_files_def power_cycle_fs)

lemma recovered_ok: "kvfs_ok kv \<Longrightarrow> recovered kv (kvfs_files kv)"
  using recovered_fs[of "kv_dev kv" kv] kvfs_ok_len
  by (auto simp: kvfs_ok_def kvfs_files_def kv_med_def)

text \<open>An operation that promises the files \<open>fs'\<close>: it delivers them or reports an error,
  and after a crash there are the old files or the promised ones.\<close>

definition delivers :: "kvfs \<Rightarrow> (cstring \<Rightarrow> u8 list option) \<Rightarrow> kvfs \<Rightarrow> int \<Rightarrow> bool" where
  "delivers kv fs' kv' rc \<longleftrightarrow>
     (rc = 0 \<longrightarrow> kvfs_ok kv' \<and> kvfs_files kv' = fs') \<and>
     (rc \<noteq> 0 \<and> kv_mounted kv' \<longrightarrow> kvfs_ok kv' \<and> kvfs_files kv' = kvfs_files kv) \<and>
     (\<not> kv_mounted kv' \<longrightarrow> rc \<noteq> 0 \<and> kv_gen kv' \<noteq> kv_gen kv) \<and>
     (recovered kv' (kvfs_files kv) \<or> recovered kv' fs')"

lemma delivers_same:
  "kvfs_ok kv \<Longrightarrow> kvfs_ok kv' \<Longrightarrow> kvfs_files kv' = kvfs_files kv \<Longrightarrow>
     (rc = 0 \<longrightarrow> fs' = kvfs_files kv) \<Longrightarrow> delivers kv fs' kv' rc"
  using recovered_ok[of kv'] kvfs_okD(1)[of kv'] by (auto simp: delivers_def)

lemma commit_delivers:
  assumes ok: "kvfs_ok kv" and "dir_ok (su_total (kv_super kv)) dir'" "length dir' = 64"
    and c: "commit_result kv dir' kv' rc" and fs': "files_on (kv_med kv) dir' = fs'"
  shows "delivers kv fs' kv' rc"
proof -
  note k = kvfs_okD[OF ok]
  have hi: "\<And>y :: u32. 2057 \<le> unat y \<Longrightarrow> kv_med kv' y = kv_med kv y"
    and dev: "kv_dev kv' = kv_dev kv"
    using c by (auto simp: commit_result_def)
  have new: "files_on (kv_med kv') dir' = fs'"
    using files_on_above[OF assms(2), of "kv_med kv'" "kv_med kv"] hi fs' by blast
  have old: "files_on (kv_med kv') (kv_dir kv) = kvfs_files kv"
    using files_on_above[OF k(4), of "kv_med kv'" "kv_med kv"] hi by (simp add: kvfs_files_def)
  from c consider (ok) "rc = 0" "kvfs_ok kv'" "kv_dir kv' = dir'"
    | (fail) "rc = -2" "\<not> kv_mounted kv'" "kv_dir kv' = kv_dir kv" "kv_gen kv' \<noteq> kv_gen kv"
      "fs_on (kv_dev kv) (kv_ata kv') (su_total (kv_super kv)) (kv_dir kv) \<or>
       fs_on (kv_dev kv) (kv_ata kv') (su_total (kv_super kv)) dir'"
    by (auto simp: commit_result_def)
  then show ?thesis
  proof cases
    case ok
    then have "kvfs_files kv' = fs'" using new by (simp add: kvfs_files_def)
    then show ?thesis
      using ok recovered_ok[OF ok(2)] kvfs_okD(1)[OF ok(2)] by (auto simp: delivers_def)
  next
    case fail
    have "length (kv_dir kv') = 64" using fail(3) kvfs_ok_len[OF \<open>kvfs_ok kv\<close>] by simp
    then have "recovered kv' (kvfs_files kv) \<or> recovered kv' fs'"
      using recovered_fs[of "kv_dev kv" kv' "su_total (kv_super kv)"] fail(5) old new dev
      unfolding kv_med_def by metis
    then show ?thesis using fail by (auto simp: delivers_def)
  qed
qed

section \<open>Writing\<close>

lemma sectors_for_spec:
  assumes "sz \<le> 0x7FFFFFFF"
  shows "sectors_for sz \<noteq> 0" "sz div 512 + (if sz mod 512 \<noteq> 0 then 1 else 0) \<le> sectors_for sz"
    "unat sz \<le> 512 * unat (sectors_for sz)"
proof -
  let ?n = "sz div 512 + (if sz mod 512 \<noteq> 0 then 1 else 0)"
  have le: "unat sz < 2 ^ 31" using assms by (simp add: word_le_nat_alt)
  have d: "unat (sz div 512) = unat sz div 512" "unat (sz mod 512) = unat sz mod 512"
    by (simp_all add: unat_div unat_mod)
  have s: "unat (sz div 512 + 1) = unat sz div 512 + 1"
    using le d by (subst unat_add_u32) simp_all
  have n: "unat ?n = unat sz div 512 + (if unat sz mod 512 \<noteq> 0 then 1 else 0)"
    using d s by (auto simp: word_unat_eq_iff)
  show "sectors_for sz \<noteq> 0" by (simp add: sectors_for_def Let_def)
  show le2: "?n \<le> sectors_for sz" by (simp add: sectors_for_def Let_def)
  have "unat sz \<le> 512 * unat ?n" using n by (auto split: if_splits)
  moreover have "unat ?n \<le> unat (sectors_for sz)" using le2 by (simp add: word_le_nat_alt)
  ultimately show "unat sz \<le> 512 * unat (sectors_for sz)" by linarith
qed

lemma dir_ok_update:
  assumes "dir_ok tot dir" "slot < 64" "length (de_name e) = 40"
    and "de_used e \<Longrightarrow> entry_ok tot e"
    and "\<And>j. j < 64 \<Longrightarrow> j \<noteq> slot \<Longrightarrow> de_used e \<Longrightarrow> de_used (dir ! j) \<Longrightarrow> \<not> entry_clash e (dir ! j)"
  shows "dir_ok tot (dir[slot := e])"
proof -
  note d = dir_okD[OF assms(1)]
  have "\<not> entry_clash (dir[slot := e] ! i) (dir[slot := e] ! j)"
    if "i < 64" "j < 64" "i \<noteq> j" "de_used (dir[slot := e] ! i)" "de_used (dir[slot := e] ! j)" for i j
    using that d(1) assms(2) d(4)[of i j] assms(5)[of i] assms(5)[of j] entry_clash_sym[of "dir ! i" e]
    by (auto simp: nth_list_update split: if_splits)
  moreover have "length (de_name x) = 40" if "x \<in> set (dir[slot := e])" for x
    using that d(2) assms(3) by (auto dest!: set_update_subset_insert[THEN subsetD])
  moreover have "entry_ok tot x" if "x \<in> set (dir[slot := e])" "de_used x" for x
    using that d(3) assms(4) by (auto dest!: set_update_subset_insert[THEN subsetD])
  ultimately show ?thesis using d(1) unfolding dir_ok_def by auto
qed

lemma new_entry_fields [simp]:
  "de_start (new_entry nm st need sz ex) = st" "de_sectors (new_entry nm st need sz ex) = need"
  "de_size (new_entry nm st need sz ex) = sz" "de_name (new_entry nm st need sz ex) = strfield 40 nm"
  "de_used (new_entry nm st need sz ex)"
  by (simp_all add: new_entry_def de_used_def)

lemma new_entry_flags: "de_flags (new_entry nm st need sz ex) AND NOT 3 = 0"
  by (simp add: new_entry_def)

lemma new_entry_ok:
  assumes "fits dir tot need st" "need = sectors_for sz" "sz \<le> 0x7FFFFFFF" "nm \<noteq> []" "length nm < 40" "0 \<notin> set nm"
  shows "entry_ok tot (new_entry nm st need sz ex)"
proof -
  have f: "2057 \<le> unat st" "unat st + unat need \<le> unat tot" using assms(1) by (auto simp: fits_def)
  note s = sectors_for_spec[OF assms(3), folded assms(2)]
  have "unat need \<noteq> 0" using s(1) by (simp add: unat_eq_0)
  then have lt: "st < tot" using f by (simp add: word_less_nat_alt)
  then have "unat (tot - st) = unat tot - unat st" by (intro unat_sub_u32) simp
  then have "need \<le> tot - st" using f by (simp add: word_le_nat_alt)
  moreover have "0 \<in> set (strfield 40 nm)" using assms(5) by (simp add: strfield_def)
  moreover have "strfield 40 nm ! 0 \<noteq> 0"
    using assms(4-6) by (cases nm) (auto simp: strfield_def)
  ultimately show ?thesis
    using s lt f assms(3) new_entry_flags[of nm st need sz ex]
    by (simp add: entry_ok_def data_start_def word_le_nat_alt)
qed

lemma pick_slot_spec:
  assumes "dir_ok tot dir" "pick_slot dir nm = Some slot"
  shows "slot < 64" "find_entry dir nm = Some slot \<or> find_entry dir nm = None \<and> \<not> de_used (dir ! slot)"
  using assms(2) dir_okD(1)[OF assms(1)]
  by (auto simp: pick_slot_def first_index_iff find_entry_iff[OF assms(1)] split: option.splits)

lemma new_entry_dir_ok:
  assumes d: "dir_ok tot dir" and slot: "pick_slot dir nm = Some slot"
    and f: "fits dir tot need st" and "need = sectors_for sz" "sz \<le> 0x7FFFFFFF"
    and n: "nm \<noteq> []" "length nm < 40" "0 \<notin> set nm"
  shows "dir_ok tot (dir[slot := new_entry nm st need sz ex])" (is "dir_ok tot (dir[slot := ?e])")
proof (rule dir_ok_update[OF d])
  note p = pick_slot_spec[OF d slot]
  show "slot < 64" by (rule p)
  show "length (de_name ?e) = 40" by simp
  show eo: "entry_ok tot ?e" by (rule new_entry_ok[OF f assms(4,5) n])
  fix j assume j: "j < 64" "j \<noteq> slot" "de_used (dir ! j)"
  have mem: "dir ! j \<in> set dir" using j dir_okD(1)[OF d] by simp
  have "cstr (de_name (dir ! j)) \<noteq> nm"
  proof
    assume "cstr (de_name (dir ! j)) = nm"
    then have "find_entry dir nm = Some j" using j by (simp add: find_entry_iff[OF d])
    then show False using p(2) j(2) by auto
  qed
  moreover have "\<not> (de_lo ?e < de_hi (dir ! j) \<and> de_lo (dir ! j) < de_hi ?e)"
    using f mem j(3) by (auto simp: fits_def de_lo_def de_hi_def)
  ultimately show "\<not> entry_clash ?e (dir ! j)"
    using clash_extents[OF eo dir_okD(3)[OF d mem j(3)]] n by auto
qed

lemma new_body:
  assumes "span m st (unat need) = take (512 * unat need) (data @ replicate (512 * unat need) 0)"
    and "length data = unat sz" "unat sz \<le> 512 * unat need"
  shows "file_body m (new_entry nm st need sz ex) = data"
  using assms by (simp add: file_body_def min_def)

lemma with_ata_ok:
  assumes "kvfs_ok kv" and "ata_good (kv_dev kv) a \<and> at_boot a = kv_dev kv"
    and "ata_sectors a (kv_dev kv) = ata_sectors (kv_ata kv) (kv_dev kv)"
    and low: "\<And>y. unat y < 2057 \<Longrightarrow> ata_med (kv_dev kv) a y = kv_med kv y"
  shows "kvfs_ok (kv\<lparr>kv_ata := a\<rparr>)"
proof -
  note k = kvfs_okD[OF assms(1)]
  have "super_on (ata_med (kv_dev kv) a) (su_total (kv_super kv))"
    by (rule super_on_low[OF k(6)]) (simp add: low kvfs_base_def)
  moreover have "dir_on (ata_med (kv_dev kv) a) (kv_dir kv)"
    using k(5) low dir_sector_addr by (simp add: dir_on_def)
  ultimately show ?thesis
    using k assms by (simp add: kvfs_ok_def fs_on_def)
qed

text \<open>Writing the body touches no sector of any file, whatever happens on the bus.\<close>

lemma body_stage:
  assumes ok: "kvfs_ok kv" and f: "fits (kv_dir kv) (su_total (kv_super kv)) need st"
    and b: "body_out (ata_wr1 (kv_dev kv)) (unat need) st data (kv_ata kv) = (a, r)"
  shows "kvfs_ok (kv\<lparr>kv_ata := a\<rparr>)" "kvfs_files (kv\<lparr>kv_ata := a\<rparr>) = kvfs_files kv"
    "r \<Longrightarrow> span (ata_med (kv_dev kv) a) st (unat need) =
       take (512 * unat need) (data @ replicate (512 * unat need) 0)"
proof -
  note k = kvfs_okD[OF ok]
  have f': "2057 \<le> unat st" "unat st + unat need \<le> unat (su_total (kv_super kv))"
    "\<And>e. e \<in> set (kv_dir kv) \<Longrightarrow> de_used e \<Longrightarrow> unat st + unat need \<le> de_lo e \<or> de_hi e \<le> unat st"
    using f by (auto simp: fits_def)
  have nw: "unat st + unat need < 2 ^ 32"
    using f'(2) unat_lt_u32[of "su_total (kv_super kv)"] by simp
  note l = ad.body_out_law[OF k(3) nw b]
  have out: "ata_med (kv_dev kv) a y = kv_med kv y" if "\<not> in_span st (unat need) y" for y
    using l that by (simp add: kv_med_def)
  show "kvfs_ok (kv\<lparr>kv_ata := a\<rparr>)"
    by (rule with_ata_ok[OF ok]) (use l out f' in \<open>auto simp: in_span_def\<close>)
  have "files_on (ata_med (kv_dev kv) a) (kv_dir kv) = files_on (kv_med kv) (kv_dir kv)"
  proof (rule files_on_cong[OF k(4)])
    fix y :: u32 and e assume "e \<in> set (kv_dir kv)" "de_used e" "de_lo e \<le> unat y" "unat y < de_hi e"
    then show "ata_med (kv_dev kv) a y = kv_med kv y"
      using out[of y] f'(3)[of e] by (auto simp: in_span_def)
  qed
  then show "kvfs_files (kv\<lparr>kv_ata := a\<rparr>) = kvfs_files kv"
    by (simp add: kvfs_files_def kv_med_def)
  show "r \<Longrightarrow> span (ata_med (kv_dev kv) a) st (unat need) =
       take (512 * unat need) (data @ replicate (512 * unat need) 0)"
    using l by blast
qed

lemma write_delivers:
  assumes ok: "kvfs_ok kv" and w: "kvfs_write kv (Some nm) (Some data) sz ex = (kv', rc)"
    and len: "length data = unat sz" and nul: "0 \<notin> set nm"
  shows "delivers kv ((kvfs_files kv)(nm \<mapsto> data)) kv' rc"
proof -
  note k = kvfs_okD[OF ok]
  let ?tot = "su_total (kv_super kv)" and ?need = "sectors_for sz"
  let ?st = "find_space kv ?need"
  show ?thesis
  proof (cases "nm = [] \<or> length nm \<ge> 40 \<or> sz > 0x7FFFFFFF \<or> pick_slot (kv_dir kv) nm = None \<or> ?st = 0")
    case True
    then have "kv' = kv \<and> rc \<noteq> 0"
      using w k(1) by (auto simp: kvfs_write_def Let_def split: if_splits option.splits)
    then show ?thesis using delivers_same[OF ok, of kv' rc] ok by simp
  next
    case False
    then obtain slot where slot: "pick_slot (kv_dir kv) nm = Some slot" by auto
    have n: "nm \<noteq> []" "length nm < 40" "sz \<le> 0x7FFFFFFF" using False by auto
    have f: "fits (kv_dir kv) ?tot ?need ?st"
      using find_space_fit[OF k(4,2), of ?need] False by (auto simp: first_fit_def)
    obtain a r where b: "body_out (ata_wr1 (kv_dev kv)) (unat ?need) ?st data (kv_ata kv) = (a, r)" by force
    note bs = body_stage[OF ok f b]
    let ?kv = "kv\<lparr>kv_ata := a\<rparr>" and ?e = "new_entry nm ?st ?need sz ex"
    have w': "(kv', rc) = (if r then commit_entry slot ?e ?kv else (?kv, -2))"
      using w k(1) n slot False b len by (auto simp: kvfs_write_def Let_def split: bool.splits)
    show ?thesis
    proof (cases r)
      case False
      then show ?thesis using w' delivers_same[OF ok bs(1,2), of rc] by simp
    next
      case True
      note d' = new_entry_dir_ok[OF k(4) slot f refl n(3) n(1,2) nul, of ex]
      have c: "commit_result ?kv ((kv_dir ?kv)[slot := ?e]) kv' rc"
        by (rule commit_law[OF bs(1) pick_slot_spec(1)[OF k(4) slot]])
          (use w' True d' in simp_all)
      have "file_body (kv_med ?kv) ?e = data"
        by (rule new_body) (use bs(3) True len sectors_for_spec[OF n(3)] in \<open>simp_all add: kv_med_def\<close>)
      moreover have "find_entry (kv_dir kv) m = Some slot \<Longrightarrow> m = nm" for m
        using pick_slot_spec(2)[OF k(4) slot] by (auto simp: find_entry_iff[OF k(4)])
      ultimately have "files_on (kv_med ?kv) ((kv_dir ?kv)[slot := ?e]) m =
          ((kvfs_files ?kv)(nm \<mapsto> data)) m" for m
        using files_on_update[OF k(4) d' pick_slot_spec(1)[OF k(4) slot], of "kv_med ?kv" m] n nul
        by (auto simp: kvfs_files_def)
      then have "delivers ?kv ((kvfs_files ?kv)(nm \<mapsto> data)) kv' rc"
        using d' kvfs_ok_len[OF ok] by (intro commit_delivers[OF bs(1) _ _ c]) auto
      then show ?thesis by (simp add: delivers_def bs(2))
    qed
  qed
qed

end
