(* ===== verification/Kvfs_More.thy ===== *)
theory Kvfs_More
  imports Kvfs_Ops
begin

text \<open>
  The remaining operations of KvFS (reading, deleting, renaming, formatting) and what
  a write on a healthy bus is sure to do.
\<close>

section \<open>Reading\<close>

lemma take_span:
  assumes "\<And>y. length (m y) = 512" "n \<le> n'"
  shows "take (512 * n) (span m x n') = span m x n"
  using assms(2)
proof (induction n arbitrary: x n')
  case (Suc n)
  then obtain k where "n' = Suc k" by (cases n') auto
  then show ?case using Suc.IH[of k "x + 1"] Suc.prems assms(1) by simp
qed simp

lemma read_refines:
  assumes ok: "kvfs_ok kv" and r: "kvfs_read kv nm mx = (kv', rc, bs)"
  shows "kvfs_ok kv' \<and> kvfs_files kv' = kvfs_files kv \<and>
    (case kvfs_files kv nm of
       None \<Rightarrow> rc = -3
     | Some d \<Rightarrow> (rc = -2 \<and> \<not> ata_live (kv_ata kv)) \<or>
         rc = int (min (length d) (unat mx)) \<and> bs = take (unat mx) d)"
proof -
  note k = kvfs_okD[OF ok]
  show ?thesis
  proof (cases "find_entry (kv_dir kv) nm")
    case None
    then show ?thesis
      using r k(1) ok by (simp add: kvfs_read_def kvfs_files_def files_on_def)
  next
    case (Some i)
    let ?e = "kv_dir kv ! i"
    let ?sz = "if de_size ?e > mx then mx else de_size ?e"
    let ?need = "(?sz + 511) div 512"
    have eo: "entry_ok (su_total (kv_super kv)) ?e"
      using Some find_entry_iff[OF k(4)] dir_okD(1,3)[OF k(4)] by auto
    note x = entry_extent[OF eo]
    have len: "length (kv_med kv y) = 512" for y unfolding kv_med_def by (rule ad.med_len)
    have sz: "unat ?sz = min (unat (de_size ?e)) (unat mx)"
      by (auto simp: word_less_nat_alt min_def)
    then have lt: "unat ?sz < 2 ^ 31" using x(6) by simp
    have "unat (?sz + 511) = unat ?sz + 511" using lt by (subst unat_add_u32) simp_all
    then have need: "unat ?need = (unat ?sz + 511) div 512" by (simp add: unat_div)
    have cov: "unat ?sz \<le> 512 * unat ?need" "unat ?need \<le> unat (de_sectors ?e)"
      using need sz x(5) by auto
    obtain a bs0 r0 where b: "body_in (ata_rd1 (kv_dev kv)) (unat ?need) (de_start ?e) [] (kv_ata kv) = (a, bs0, r0)"
      using prod_cases3 by blast
    note l = ad.body_in_law[OF k(3) b]
    have a_ok: "kvfs_ok (kv\<lparr>kv_ata := a\<rparr>)" "kvfs_files (kv\<lparr>kv_ata := a\<rparr>) = kvfs_files kv"
      using l by (auto intro!: with_ata_ok[OF ok] simp: kv_med_def kvfs_files_def)
    have body: "take (unat ?sz) (span (kv_med kv) (de_start ?e) (unat ?need)) = take (unat mx) (file_body (kv_med kv) ?e)"
    proof -
      have "take (unat ?sz) (span (kv_med kv) (de_start ?e) (unat ?need)) =
          take (unat ?sz) (take (512 * unat ?need) (span (kv_med kv) (de_start ?e) (unat (de_sectors ?e))))"
        using take_span[of "kv_med kv"] len cov(2) by simp
      also have "\<dots> = take (unat ?sz) (span (kv_med kv) (de_start ?e) (unat (de_sectors ?e)))"
        using cov(1) by (simp add: min_absorb1)
      finally show ?thesis by (simp add: file_body_def sz min.commute)
    qed
    have dlen: "length (file_body (kv_med kv) ?e) = unat (de_size ?e)"
      using length_span[of "kv_med kv"] len x(5) by (simp add: file_body_def)
    show ?thesis
    proof (cases r0)
      case True
      then have "kv' = kv\<lparr>kv_ata := a\<rparr>" "rc = sint ?sz" "bs = take (unat ?sz) bs0"
        using r k(1) Some b by (simp_all add: kvfs_read_def Let_def)
      moreover have "sint ?sz = int (unat ?sz)"
        using lt by (rule sint_small_u32)
      ultimately show ?thesis
        using l True a_ok body dlen Some sz
        by (simp add: kvfs_files_def files_on_def kv_med_def)
    next
      case False
      have "\<not> ata_live (kv_ata kv)"
      proof
        assume "ata_live (kv_ata kv)"
        moreover have "unat (de_start ?e) + unat ?need \<le> unat (ata_sectors (kv_ata kv) (kv_dev kv))"
          using cov(2) x(3) k(8) by (simp add: de_hi_def word_le_nat_alt)
        ultimately show False
          using ad.body_in_live[OF k(3), of "de_start ?e" "unat ?need" "[]"] b False by auto
      qed
      then show ?thesis
        using r k(1) Some b False a_ok by (simp add: kvfs_read_def Let_def kvfs_files_def files_on_def)
    qed
  qed
qed

section \<open>Deleting and renaming\<close>

lemma delete_delivers:
  assumes ok: "kvfs_ok kv" and r: "kvfs_delete kv nm = (kv', rc)"
  shows "delivers kv ((kvfs_files kv)(nm := None)) kv' rc \<and> (rc = -3 \<longleftrightarrow> kvfs_files kv nm = None)"
proof -
  note k = kvfs_okD[OF ok]
  show ?thesis
  proof (cases "find_entry (kv_dir kv) nm")
    case None
    then show ?thesis
      using r k(1) delivers_same[OF ok ok refl, of rc] by (simp add: kvfs_delete_def kvfs_files_def files_on_def)
  next
    case (Some i)
    let ?e = "(kv_dir kv ! i)\<lparr>de_flags := 0\<rparr>"
    have i: "i < 64" "kv_dir kv ! i \<in> set (kv_dir kv)"
      using Some dir_okD(1)[OF k(4)] by (auto simp: find_entry_iff[OF k(4)])
    have n: "length (de_name ?e) = 40" "\<not> de_used ?e"
      using dir_okD(2)[OF k(4) i(2)] by (simp_all add: de_used_def)
    have d': "dir_ok (su_total (kv_super kv)) ((kv_dir kv)[i := ?e])"
      by (rule dir_ok_update[OF k(4) i(1) n(1)]) (use n(2) in simp_all)
    have c: "commit_entry i ?e kv = (kv', rc)" using r k(1) Some by (simp add: kvfs_delete_def)
    note cl = commit_law[OF ok i(1) n(1) d' c]
    have "files_on (kv_med kv) ((kv_dir kv)[i := ?e]) m = ((kvfs_files kv)(nm := None)) m" for m
      using files_on_update[OF k(4) d' i(1), of "kv_med kv" m] n(2) Some
      by (auto simp: kvfs_files_def find_entry_iff[OF k(4)])
    then have "delivers kv ((kvfs_files kv)(nm := None)) kv' rc"
      using dir_okD(1)[OF d'] by (intro commit_delivers[OF ok d' _ cl]) auto
    moreover have "rc \<noteq> -3" using cl by (auto simp: commit_result_def)
    ultimately show ?thesis using Some by (simp add: kvfs_files_def files_on_def)
  qed
qed

lemma rename_delivers:
  assumes ok: "kvfs_ok kv" and r: "kvfs_rename kv (Some old) (Some to) = (kv', rc)"
  shows "delivers kv ((kvfs_files kv)(old := None, to := kvfs_files kv old)) kv' rc"
    "rc = 0 \<Longrightarrow> native_name 40 old \<and> native_name 40 to \<and> kvfs_files kv old \<noteq> None \<and>
       (old = to \<or> kvfs_files kv to = None)"
proof -
  note k = kvfs_okD[OF ok]
  let ?fs = "(kvfs_files kv)(old := None, to := kvfs_files kv old)"
  have all: "delivers kv ?fs kv' rc \<and> (rc = 0 \<longrightarrow> native_name 40 old \<and> native_name 40 to \<and>
      kvfs_files kv old \<noteq> None \<and> (old = to \<or> kvfs_files kv to = None))"
  proof (cases "native_name 40 old \<and> native_name 40 to \<and> find_entry (kv_dir kv) old \<noteq> None \<and>
      old \<noteq> to \<and> find_entry (kv_dir kv) to = None")
    case False
    then have "kv' = kv \<and> (rc = 0 \<longrightarrow> native_name 40 old \<and> native_name 40 to \<and>
        find_entry (kv_dir kv) old \<noteq> None \<and> old = to)"
      using r k(1) native_name_length_ok[of old 40] native_name_length_ok[of to 40]
      by (auto simp: kvfs_rename_def Let_def not_less split: if_splits option.splits)
    moreover have "old = to \<Longrightarrow> ?fs = kvfs_files kv" by auto
    ultimately have "delivers kv ?fs kv' rc" using delivers_same[OF ok, of kv' rc ?fs] ok by auto
    then show ?thesis
      using \<open>kv' = kv \<and> _\<close> by (auto simp: kvfs_files_def files_on_def)
  next
    case True
    then obtain i where i: "find_entry (kv_dir kv) old = Some i" by auto
    let ?n = "to @ replicate (40 - length to) 0"
    let ?e = "(kv_dir kv ! i)\<lparr>de_name := ?n\<rparr>"
    have nn: "length to < 40" "0 \<notin> set to" "to \<noteq> []"
      using True native_name_no_nul[of 40 to] by (auto simp: native_name_def)
    have nm: "length ?n = 40" "cstr ?n = to" "0 \<in> set ?n" "?n ! 0 \<noteq> 0"
      using nn cstr_strfield[of to 40] by (auto simp: strfield_def Let_def nth_append in_set_conv_nth)
    have i64: "i < 64" "kv_dir kv ! i \<in> set (kv_dir kv)" "de_used (kv_dir kv ! i)"
      "cstr (de_name (kv_dir kv ! i)) = old"
      using i dir_okD(1)[OF k(4)] by (auto simp: find_entry_iff[OF k(4)])
    have eo: "entry_ok (su_total (kv_super kv)) (kv_dir kv ! i)" by (rule dir_okD(3)[OF k(4) i64(2,3)])
    have eo': "entry_ok (su_total (kv_super kv)) ?e" using eo nm by (simp add: entry_ok_def)
    have used: "de_used ?e" using i64(3) by (simp add: de_used_def)
    have d': "dir_ok (su_total (kv_super kv)) ((kv_dir kv)[i := ?e])"
    proof (rule dir_ok_update[OF k(4) i64(1)])
      fix j assume j: "j < 64" "j \<noteq> i" "de_used (kv_dir kv ! j)"
      have "\<not> entry_clash (kv_dir kv ! i) (kv_dir kv ! j)" using dir_okD(4)[OF k(4)] i64 j by metis
      moreover have "cstr (de_name (kv_dir kv ! j)) \<noteq> to"
        using True j find_entry_None[OF k(4)] by blast
      ultimately show "\<not> entry_clash ?e (kv_dir kv ! j)" using nm by (simp add: entry_clash_def)
    qed (use nm eo' in simp_all)
    obtain rc0 where c: "commit_entry i ?e kv = (kv', rc0)" and rc: "rc = (if rc0 \<noteq> 0 then -6 else 0)"
      using r k(1) True i native_name_length_val[of 40 old] native_name_length_val[of 40 to]
      by (auto simp: kvfs_rename_def Let_def split: prod.splits)
    have "length (de_name ?e) = 40" using nm by simp
    note cl = commit_law[OF ok i64(1) this d' c]
    have body: "file_body (kv_med kv) ?e = file_body (kv_med kv) (kv_dir kv ! i)"
      by (simp add: file_body_def)
    have "files_on (kv_med kv) ((kv_dir kv)[i := ?e]) m = ?fs m" for m
    proof -
      have "find_entry (kv_dir kv) m = Some i \<longleftrightarrow> m = old"
        using i64 by (auto simp: find_entry_iff[OF k(4)])
      then show ?thesis
        using files_on_update[OF k(4) d' i64(1), of "kv_med kv" m] used nm(2) i body
        by (auto simp: kvfs_files_def files_on_def)
    qed
    then have "delivers kv ?fs kv' rc0"
      using dir_okD(1)[OF d'] by (intro commit_delivers[OF ok d' _ cl]) auto
    then show ?thesis
      using True rc by (auto simp: delivers_def kvfs_files_def files_on_def)
  qed
  then show "delivers kv ?fs kv' rc" by blast
  show "rc = 0 \<Longrightarrow> native_name 40 old \<and> native_name 40 to \<and> kvfs_files kv old \<noteq> None \<and>
       (old = to \<or> kvfs_files kv to = None)"
    using all by simp
qed

section \<open>Formatting\<close>

lemma write_dir_law:
  assumes "ata_good i (kv_ata kv) \<and> at_boot (kv_ata kv) = j" "kv_dev kv = i"
    "length (kv_dir kv) = 64" "\<forall>e\<in>set (kv_dir kv). length (de_name e) = 40"
    "s + n = 8" "write_dir n s kv = (kv', ok)"
  shows "\<exists>a. kv' = kv\<lparr>kv_ata := a\<rparr> \<and> (ata_good i a \<and> at_boot a = j) \<and>
    ata_sectors a i = ata_sectors (kv_ata kv) i \<and>
    (\<forall>y. (\<forall>g. s \<le> g \<and> g < 8 \<longrightarrow> y \<noteq> dir_sector + of_nat g) \<longrightarrow> ata_med i a y = ata_med i (kv_ata kv) y) \<and>
    (ok \<longrightarrow> (\<forall>g. s \<le> g \<and> g < 8 \<longrightarrow> ata_med i a (dir_sector + of_nat g) = enc_group (kv_dir kv) g))"
  using assms
proof (induction n arbitrary: s kv)
  case 0
  then show ?case by (intro exI[of _ "kv_ata kv"]) auto
next
  case (Suc n)
  have s8: "s < 8" using Suc.prems(5) by simp
  obtain a1 r where w: "ata_wr1 i (kv_ata kv) (dir_sector + of_nat s) (enc_group (kv_dir kv) s) = (a1, r)" by force
  note l = ad.wr_law[OF Suc.prems(1) length_enc_group[OF Suc.prems(3,4) s8] w]
  show ?case
  proof (cases r)
    case False
    then show ?thesis
      using Suc.prems w l s8 by (intro exI[of _ a1]) auto
  next
    case True
    then have m1: "ata_med i a1 = (ata_med i (kv_ata kv))(dir_sector + of_nat s := enc_group (kv_dir kv) s)"
      using l by blast
    have "write_dir n (s + 1) (kv\<lparr>kv_ata := a1\<rparr>) = (kv', ok)" using Suc.prems(2,6) w True by simp
    from Suc.IH[OF _ _ _ _ _ this] Suc.prems l obtain a where
      a: "kv' = kv\<lparr>kv_ata := a\<rparr>" "ata_good i a \<and> at_boot a = j" "ata_sectors a i = ata_sectors (kv_ata kv) i"
      "\<forall>y. (\<forall>g. s + 1 \<le> g \<and> g < 8 \<longrightarrow> y \<noteq> dir_sector + of_nat g) \<longrightarrow> ata_med i a y = ata_med i a1 y"
      "ok \<longrightarrow> (\<forall>g. s + 1 \<le> g \<and> g < 8 \<longrightarrow> ata_med i a (dir_sector + of_nat g) = enc_group (kv_dir kv) g)"
      by auto
    have this_one: "ata_med i a (dir_sector + of_nat s) = enc_group (kv_dir kv) s"
    proof -
      have "\<forall>g. s + 1 \<le> g \<and> g < 8 \<longrightarrow> dir_sector + of_nat s \<noteq> dir_sector + of_nat g"
        using dir_sector_inj[OF s8] by auto
      then show ?thesis using a(4) m1 by simp
    qed
    have "ata_med i a y = ata_med i (kv_ata kv) y"
      if "\<forall>g. s \<le> g \<and> g < 8 \<longrightarrow> y \<noteq> dir_sector + of_nat g" for y
      using a(4) m1 that s8 by auto
    moreover have "ok \<longrightarrow> (\<forall>g. s \<le> g \<and> g < 8 \<longrightarrow> ata_med i a (dir_sector + of_nat g) = enc_group (kv_dir kv) g)"
      using a(5) this_one by (metis Suc_eq_plus1 le_eq_less_or_eq Suc_leI)
    ultimately show ?thesis using a(1-3) by blast
  qed
qed

lemma write_dir_live:
  assumes "ata_good i (kv_ata kv) \<and> at_boot (kv_ata kv) = j" "kv_dev kv = i" "ata_live (kv_ata kv)"
    "length (kv_dir kv) = 64" "\<forall>e\<in>set (kv_dir kv). length (de_name e) = 40"
    "s + n = 8" "2057 \<le> unat (ata_sectors (kv_ata kv) i)"
  shows "\<exists>kv'. write_dir n s kv = (kv', True) \<and> ata_live (kv_ata kv')"
  using assms
proof (induction n arbitrary: s kv)
  case (Suc n)
  have s8: "s < 8" using Suc.prems(6) by simp
  have "dir_sector + of_nat s < ata_sectors (kv_ata kv) i"
    using dir_sector_addr[OF s8] Suc.prems(7) s8 by (simp add: word_less_nat_alt)
  then obtain a1 where r: "ata_wr1 i (kv_ata kv) (dir_sector + of_nat s) (enc_group (kv_dir kv) s) = (a1, True)"
    "ata_live a1"
    using ad.wr_live[OF Suc.prems(1,3) _ length_enc_group[OF Suc.prems(4,5) s8]] by blast
  then show ?case
    using Suc.IH[of "kv\<lparr>kv_ata := a1\<rparr>" "s + 1"] Suc.prems
      ad.wr_law[OF Suc.prems(1) length_enc_group[OF Suc.prems(4,5) s8] r(1)]
    by auto
qed simp

lemma zero_dirent_facts [simp]: "length (de_name zero_dirent) = 40" "\<not> de_used zero_dirent"
  by (simp_all add: zero_dirent_def de_used_def)

lemma empty_dir_ok: "dir_ok tot (replicate 64 zero_dirent)"
  by (simp add: dir_ok_def)

lemma super_roundtrip: "dec_super (sector_of (enc_super s)) = s"
proof -
  have "sector_of (enc_super s) = enc_super s @ replicate 480 0"
    by (simp add: sector_of_def enc_super_def take_replicate)
  then show ?thesis
    by (simp add: dec_super_def enc_super_def get32_append)
qed

lemma format_ok:
  assumes "kvfs_format kv = (kv', 0)" "ata_good (at_boot (kv_ata kv)) (kv_ata kv)"
  shows "kvfs_ok kv' \<and> kvfs_files kv' = Map.empty \<and> kv_dir kv' = replicate 64 zero_dirent \<and>
    su_total (kv_super kv') = ata_sectors (kv_ata kv) (at_boot (kv_ata kv)) \<and>
    kv_dev kv' = at_boot (kv_ata kv)"
proof -
  let ?i = "at_boot (kv_ata kv)"
  let ?tot = "ata_sectors (kv_ata kv) ?i"
  let ?su = "\<lparr>su_magic = kvfs_magic, su_version = 2, su_total = ?tot, su_data_start = data_start,
      su_count = 0, su_res0 = 0, su_res1 = 0, su_res2 = 0\<rparr>"
  let ?kv = "kv\<lparr>kv_gen := vfs_namespace_changed (kv_gen kv), kv_mounted := False, kv_dev := ?i,
      kv_super := ?su, kv_dir := replicate 64 zero_dirent\<rparr>"
  have g: "ata_good ?i (kv_ata kv) \<and> at_boot (kv_ata kv) = ?i" using assms(2) by simp
  obtain a1 r1 where w1: "ata_wr1 ?i (kv_ata kv) kvfs_base (sector_of (enc_super ?su)) = (a1, r1)" by force
  note l1 = ad.wr_law[OF g length_sector_of w1]
  obtain kv2 r2 where w2: "write_dir 8 0 (?kv\<lparr>kv_ata := a1\<rparr>) = (kv2, r2)" by force
  from assms(1) w1 w2 have c: "r1" "r2" "\<not> ?tot < data_start + 64" "kv' = kv2\<lparr>kv_mounted := True\<rparr>"
    by (auto simp: kvfs_format_def write_super_def Let_def ata_boot_drive_def split: if_splits bool.splits)
  obtain a where a: "kv2 = ?kv\<lparr>kv_ata := a\<rparr>" "ata_good ?i a \<and> at_boot a = ?i" "ata_sectors a ?i = ?tot"
    "\<forall>y. (\<forall>g. g < 8 \<longrightarrow> y \<noteq> dir_sector + of_nat g) \<longrightarrow> ata_med ?i a y = ata_med ?i a1 y"
    "\<forall>g<8. ata_med ?i a (dir_sector + of_nat g) = enc_group (replicate 64 zero_dirent) g"
    using write_dir_law[OF _ _ _ _ _ w2, of ?i ?i] l1 c(1,2) by auto
  have "ata_med ?i a1 kvfs_base = sector_of (enc_super ?su)" using l1 c(1) by auto
  then have "ata_med ?i a kvfs_base = sector_of (enc_super ?su)"
    using a(4) base_not_dir by metis
  then have "super_on (ata_med ?i a) ?tot" by (simp add: super_on_def super_roundtrip)
  then have "kvfs_ok kv'"
    using a c by (simp add: kvfs_ok_def fs_on_def dir_on_def empty_dir_ok not_less)
  moreover have "kvfs_files kv' = Map.empty"
    using a(1) c(4) by (auto simp: kvfs_files_def files_on_def find_entry_def first_index_None fun_eq_iff)
  ultimately show ?thesis using a(1) c(4) by simp
qed

lemma format_live:
  assumes "ata_good (at_boot (kv_ata kv)) (kv_ata kv)" "ata_live (kv_ata kv)"
    "data_start + 64 \<le> ata_sectors (kv_ata kv) (at_boot (kv_ata kv))"
  shows "\<exists>kv'. kvfs_format kv = (kv', 0) \<and> ata_live (kv_ata kv')"
proof -
  let ?i = "at_boot (kv_ata kv)"
  let ?tot = "ata_sectors (kv_ata kv) ?i"
  let ?su = "\<lparr>su_magic = kvfs_magic, su_version = 2, su_total = ?tot, su_data_start = data_start,
      su_count = 0, su_res0 = 0, su_res1 = 0, su_res2 = 0\<rparr>"
  let ?kv = "kv\<lparr>kv_gen := vfs_namespace_changed (kv_gen kv), kv_mounted := False, kv_dev := ?i,
      kv_super := ?su, kv_dir := replicate 64 zero_dirent\<rparr>"
  have g: "ata_good ?i (kv_ata kv) \<and> at_boot (kv_ata kv) = ?i" using assms(1) by simp
  have n: "2121 \<le> unat ?tot" using data_start_le[OF assms(3) order_refl] by simp
  have "kvfs_base < ?tot" using n by (simp add: kvfs_base_def word_less_nat_alt)
  then obtain a1 where w1: "ata_wr1 ?i (kv_ata kv) kvfs_base (sector_of (enc_super ?su)) = (a1, True)" "ata_live a1"
    using ad.wr_live[OF g assms(2) _ length_sector_of] by blast
  note l1 = ad.wr_law[OF g length_sector_of w1(1)]
  obtain kv2 where "write_dir 8 0 (?kv\<lparr>kv_ata := a1\<rparr>) = (kv2, True)" "ata_live (kv_ata kv2)"
    using write_dir_live[of ?i "?kv\<lparr>kv_ata := a1\<rparr>" ?i 0 8] l1 w1(2) n by auto
  moreover have "\<not> ?i < 0" using assms(1) by (auto simp: ata_good_def ata_ok_drive_def)
  ultimately show ?thesis
    using w1(1) assms(3) by (simp add: kvfs_format_def write_super_def Let_def ata_boot_drive_def not_less)
qed

section \<open>Progress\<close>

lemma commit_live:
  assumes "kvfs_ok kv" "ata_live (kv_ata kv)" "slot < 64" "length (de_name e) = 40"
  shows "\<exists>kv'. commit_entry slot e kv = (kv', 0) \<and> ata_live (kv_ata kv')"
proof -
  note k = kvfs_okD[OF assms(1)]
  let ?g = "slot div 8"
  let ?b = "splice ((slot mod 8) * 64) (enc_dirent e) (enc_group (kv_dir kv) ?g)"
  have g: "?g < 8" using assms(3) by simp
  have names: "length (kv_dir kv) = 64" "\<forall>e\<in>set (kv_dir kv). length (de_name e) = 40"
    using dir_okD[OF k(4)] by blast+
  have "\<forall>x\<in>set ((kv_dir kv)[slot := e]). length (de_name x) = 40"
    using names(2) assms(4) by (auto dest!: set_update_subset_insert[THEN subsetD])
  then have len: "length ?b = 512"
    using enc_group_update[OF names assms(4,3) g] length_enc_group[of "(kv_dir kv)[slot := e]" ?g] names(1) g
    by simp
  have "dir_sector + of_nat ?g < ata_sectors (kv_ata kv) (kv_dev kv)"
    using data_start_le[OF k(7,8)] dir_sector_addr[OF g] g by (simp add: word_less_nat_alt)
  from ad.wr_live[OF k(3) assms(2) this len] show ?thesis
    by (auto simp: commit_entry_def Let_def)
qed

lemma write_live:
  assumes ok: "kvfs_ok kv" and live: "ata_live (kv_ata kv)" and len: "length data = unat sz"
    and n: "nm \<noteq> []" "length nm < 40" "0 \<notin> set nm" "sz \<le> 0x7FFFFFFF"
    and slot: "pick_slot (kv_dir kv) nm \<noteq> None"
    and f: "fits (kv_dir kv) (su_total (kv_super kv)) (sectors_for sz) s"
  shows "\<exists>kv'. kvfs_write kv (Some nm) (Some data) sz ex = (kv', 0) \<and> ata_live (kv_ata kv')"
proof -
  note k = kvfs_okD[OF ok]
  let ?need = "sectors_for sz"
  let ?st = "find_space kv ?need"
  obtain i where i: "pick_slot (kv_dir kv) nm = Some i" using slot by auto
  have ff: "?st \<noteq> 0" "fits (kv_dir kv) (su_total (kv_super kv)) ?need ?st"
    using find_space_fit[OF k(4,2), of ?need] f by (auto simp: first_fit_def split: if_splits)
  then have "unat ?st + unat ?need \<le> unat (ata_sectors (kv_ata kv) (kv_dev kv))"
    using k(8) by (simp add: fits_def word_le_nat_alt)
  then obtain a where b: "body_out (ata_wr1 (kv_dev kv)) (unat ?need) ?st data (kv_ata kv) = (a, True)"
    "ata_live a"
    using ad.body_out_live[OF k(3) live] by blast
  have "\<exists>kv'. commit_entry i (new_entry nm ?st ?need sz ex) (kv\<lparr>kv_ata := a\<rparr>) = (kv', 0) \<and> ata_live (kv_ata kv')"
    by (rule commit_live[OF body_stage(1)[OF ok ff(2) b(1)]])
      (use b pick_slot_spec(1)[OF k(4) i] in simp_all)
  then show ?thesis
    using k(1) n i ff(1) b len by (auto simp: kvfs_write_def Let_def not_less)
qed

end
