(* ===== verification/Kvfs_Props.thy ===== *)
theory Kvfs_Props
  imports Kvfs_More
begin

text \<open>
  The properties of KvFS, each with a witness on a formatted disk of 8 MiB.
\<close>

section \<open>A formatted disk\<close>

definition lab_drive :: ata_drive where
  "lab_drive = \<lparr>dr_io = 0x1F0, dr_slave = False, dr_present = True, dr_sectors = 16384,
     dr_model = default_model, dr_media = (\<lambda>x. replicate 512 0)\<rparr>"

definition lab_ata :: ata where
  "lab_ata = \<lparr>at_drives = [lab_drive], at_boot = 0, at_plan = [], at_dead = False\<rparr>"

definition lab_boot :: kvfs where
  "lab_boot = \<lparr>kv_super = \<lparr>su_magic = 0, su_version = 0, su_total = 0, su_data_start = 0,
     su_count = 0, su_res0 = 0, su_res1 = 0, su_res2 = 0\<rparr>, kv_dir = replicate 64 zero_dirent,
     kv_mounted = False, kv_dev = -1, kv_gen = 1, kv_ata = lab_ata\<rparr>"

definition lab_fs :: kvfs where
  "lab_fs = fst (kvfs_format lab_boot)"

lemma lab_boot_facts:
  "kv_ata lab_boot = lab_ata" "at_boot lab_ata = 0" "ata_live lab_ata" "ata_good 0 lab_ata"
  "ata_sectors lab_ata 0 = 16384" "length (kv_dir lab_boot) = 64"
  by (simp_all add: lab_boot_def lab_ata_def ata_live_def ata_good_def ata_ok_drive_def
      ata_sectors_def lab_drive_def)

lemma lab_format: "kvfs_format lab_boot = (lab_fs, 0)" "ata_live (kv_ata lab_fs)"
  using format_live[of lab_boot] lab_boot_facts by (auto simp: lab_fs_def data_start_def)

lemma lab_ok: "kvfs_ok lab_fs" "kvfs_files lab_fs = Map.empty"
  using format_ok[OF lab_format(1)] lab_boot_facts by auto

lemma lab_layout: "kv_dir lab_fs = replicate 64 zero_dirent" "su_total (kv_super lab_fs) = 16384"
  using format_ok[OF lab_format(1)] lab_boot_facts by auto

lemma lab_pick: "pick_slot (replicate 64 zero_dirent) nm = Some 0"
proof -
  have "find_entry (replicate 64 zero_dirent) nm = None"
    by (simp add: find_entry_def first_index_None)
  moreover have "first_index (\<lambda>e. \<not> de_used e) (replicate 64 zero_dirent) 0 = Some 0"
    by (simp add: first_index_iff)
  ultimately show ?thesis by (simp add: pick_slot_def)
qed

lemma lab_fits: "fits (replicate 64 zero_dirent) 16384 (sectors_for 3) 2057"
  by (simp add: fits_def sectors_for_def)

text \<open>\<^verbatim>\<open>"a"\<close> and \<^verbatim>\<open>"b"\<close>.\<close>

definition lab_a :: cstring where "lab_a = [0x61]"
definition lab_b :: cstring where "lab_b = [0x62]"

section \<open>Properties\<close>

text \<open>First fit: when \<^verbatim>\<open>find_space\<close> returns a sector, the whole extent is free, inside the
  data area, and no lower position would do; when it returns 0 no position would do.\<close>

theorem kvfs_find_space_first_fit:
  assumes "dir_ok (su_total (kv_super kv)) (kv_dir kv)" "su_data_start (kv_super kv) = data_start"
  shows "(find_space kv need \<noteq> 0 \<longrightarrow> fits (kv_dir kv) (su_total (kv_super kv)) need (find_space kv need)) \<and>
    (\<forall>s. fits (kv_dir kv) (su_total (kv_super kv)) need s \<longrightarrow>
       find_space kv need \<noteq> 0 \<and> find_space kv need \<le> s)"
  using find_space_fit[OF assms, of need] by (auto simp: first_fit_def split: if_splits)

lemma kvfs_find_space_first_fit_witness:
  "find_space lab_fs (sectors_for 3) = 2057"
proof -
  note p = kvfs_find_space_first_fit[OF kvfs_okD(4,2)[OF lab_ok(1)] , of "sectors_for 3", unfolded lab_layout]
  have "find_space lab_fs (sectors_for 3) \<noteq> 0" "find_space lab_fs (sectors_for 3) \<le> 2057"
    using p lab_fits by blast+
  moreover have "2057 \<le> unat (find_space lab_fs (sectors_for 3))"
    using p calculation(1) by (auto simp: fits_def)
  ultimately show ?thesis by (simp add: word_le_nat_alt word_unat_eq_iff)
qed

text \<open>C4. Writing a file, under every pattern of bus errors: on success the volume is valid
  and maps the name to the data and every other name as before; an error that leaves the
  volume mounted changed no file; and after a power cycle the mount finds a valid volume
  with the old files or the new ones.\<close>

theorem kvfs_write_atomic:
  assumes "kvfs_ok kv" "kvfs_write kv (Some nm) (Some data) sz ex = (kv', rc)"
    "length data = unat sz" "0 \<notin> set nm"
  shows "delivers kv ((kvfs_files kv)(nm \<mapsto> data)) kv' rc"
  using assms by (rule write_delivers)

lemma kvfs_write_atomic_witness:
  "\<exists>kv' rc. kvfs_write lab_fs (Some lab_a) (Some [1, 2, 3]) 3 False = (kv', rc) \<and>
     delivers lab_fs ((kvfs_files lab_fs)(lab_a \<mapsto> [1, 2, 3])) kv' rc"
proof -
  obtain kv' rc where w: "kvfs_write lab_fs (Some lab_a) (Some [1, 2, 3]) 3 False = (kv', rc)" by force
  have "delivers lab_fs ((kvfs_files lab_fs)(lab_a \<mapsto> [1, 2, 3])) kv' rc"
    by (rule kvfs_write_atomic[OF lab_ok(1) w]) (simp_all add: lab_a_def)
  then show ?thesis using w by blast
qed

text \<open>On a healthy bus a write with a valid name succeeds whenever the directory has a
  slot and any position of the data area fits the file.\<close>

theorem kvfs_write_succeeds:
  assumes "kvfs_ok kv" "ata_live (kv_ata kv)" "length data = unat sz" "sz \<le> 0x7FFFFFFF"
    "nm \<noteq> []" "length nm < 40" "0 \<notin> set nm" "pick_slot (kv_dir kv) nm \<noteq> None"
    "fits (kv_dir kv) (su_total (kv_super kv)) (sectors_for sz) s"
  shows "snd (kvfs_write kv (Some nm) (Some data) sz ex) = 0"
  using write_live[OF assms(1,2,3,5,6,7,4,8,9), of ex] by auto

lemma kvfs_write_succeeds_witness:
  "snd (kvfs_write lab_fs (Some lab_a) (Some [1, 2, 3]) 3 False) = 0"
  by (rule kvfs_write_succeeds[where s = 2057])
    (simp_all add: lab_ok lab_format lab_a_def lab_layout lab_pick lab_fits)

text \<open>C5. Reading returns the first \<open>max\<close> bytes of the file and its length, or -3 when there
  is no such file, and changes nothing; only a bus that is not healthy can make it fail.\<close>

theorem kvfs_read_refines:
  assumes "kvfs_ok kv" "kvfs_read kv nm mx = (kv', rc, bs)"
  shows "kvfs_ok kv' \<and> kvfs_files kv' = kvfs_files kv \<and>
    (case kvfs_files kv nm of
       None \<Rightarrow> rc = -3
     | Some d \<Rightarrow> (rc = -2 \<and> \<not> ata_live (kv_ata kv)) \<or>
         rc = int (min (length d) (unat mx)) \<and> bs = take (unat mx) d)"
  using assms by (rule read_refines)

lemma kvfs_read_refines_witness:
  "\<exists>kv1 kv2 rc bs. kvfs_write lab_fs (Some lab_a) (Some [1, 2, 3]) 3 False = (kv1, 0) \<and>
     kvfs_read kv1 lab_a 2 = (kv2, rc, bs) \<and>
     ((rc = -2 \<and> \<not> ata_live (kv_ata kv1)) \<or> rc = 2 \<and> bs = [1, 2])"
proof -
  obtain kv1 where w: "kvfs_write lab_fs (Some lab_a) (Some [1, 2, 3]) 3 False = (kv1, 0)"
    using write_live[OF lab_ok(1) lab_format(2), of "[1, 2, 3]" 3 lab_a 2057 False]
    by (auto simp: lab_a_def lab_layout lab_pick lab_fits)
  have "delivers lab_fs ((kvfs_files lab_fs)(lab_a \<mapsto> [1, 2, 3])) kv1 0"
    by (rule write_delivers[OF lab_ok(1) w]) (simp_all add: lab_a_def)
  then have k: "kvfs_ok kv1" "kvfs_files kv1 lab_a = Some [1, 2, 3]"
    by (auto simp: delivers_def)
  obtain kv2 rc bs where r: "kvfs_read kv1 lab_a 2 = (kv2, rc, bs)" using prod_cases3 by blast
  show ?thesis
    using kvfs_read_refines[OF k(1) r] k(2) w r by auto
qed

text \<open>C6. Deleting removes exactly the named file, with the same guarantees under bus errors
  and power loss; -3 means that there was no such file.\<close>

theorem kvfs_delete_atomic:
  assumes "kvfs_ok kv" "kvfs_delete kv nm = (kv', rc)"
  shows "delivers kv ((kvfs_files kv)(nm := None)) kv' rc \<and> (rc = -3 \<longleftrightarrow> kvfs_files kv nm = None)"
  using assms by (rule delete_delivers)

lemma kvfs_delete_atomic_witness:
  "snd (kvfs_delete lab_fs lab_a) = -3"
  using kvfs_delete_atomic[OF lab_ok(1), of lab_a] lab_ok(2) by (cases "kvfs_delete lab_fs lab_a") auto

text \<open>C7. Renaming moves the contents to the new name and touches nothing else; it succeeds
  only for names of the right form, from a name in use to one that is not (no file is ever
  replaced), and a crash leaves the file under one of the two names.\<close>

theorem kvfs_rename_atomic:
  assumes "kvfs_ok kv" "kvfs_rename kv (Some old) (Some to) = (kv', rc)"
  shows "delivers kv ((kvfs_files kv)(old := None, to := kvfs_files kv old)) kv' rc \<and>
    (rc = 0 \<longrightarrow> native_name 40 old \<and> native_name 40 to \<and> kvfs_files kv old \<noteq> None \<and>
       (old = to \<or> kvfs_files kv to = None))"
  using rename_delivers[OF assms] by blast

lemma kvfs_rename_atomic_witness:
  "snd (kvfs_rename lab_fs (Some lab_a) (Some lab_b)) \<noteq> 0"
  using kvfs_rename_atomic[OF lab_ok(1), of lab_a lab_b] lab_ok(2)
  by (cases "kvfs_rename lab_fs (Some lab_a) (Some lab_b)") auto

text \<open>C8. Mounting checks everything the other operations rely on: from any medium and any
  previous state, a mount that succeeds yields a valid volume, whose directory is the one
  on the medium, and a new namespace generation.\<close>

theorem kvfs_mount_validates:
  assumes "kvfs_mount kv = (kv', 0)" "ata_good (at_boot (kv_ata kv)) (kv_ata kv)" "length (kv_dir kv) = 64"
  shows "kvfs_ok kv' \<and> kv_dir kv' = decode_dir (kv_med kv') \<and>
    kv_med kv' = ata_med (at_boot (kv_ata kv)) (kv_ata kv) \<and> kv_gen kv' \<noteq> kv_gen kv"
  using mount_ok[OF assms] namespace_differs by auto

lemma kvfs_mount_validates_witness:
  "\<exists>kv'. kvfs_mount lab_fs = (kv', 0) \<and> kvfs_ok kv'"
proof -
  have f: "fs_on (kv_dev lab_fs) (kv_ata lab_fs) (su_total (kv_super lab_fs)) (kv_dir lab_fs)"
    using lab_ok(1) by (simp add: kvfs_ok_def)
  obtain kv' where m: "kvfs_mount lab_fs = (kv', 0)"
    using mount_found[OF f lab_format(2) kvfs_ok_len[OF lab_ok(1)]] by blast
  have "kvfs_ok kv'"
    using kvfs_mount_validates[OF m _ kvfs_ok_len[OF lab_ok(1)]] kvfs_okD(3)[OF lab_ok(1)] by simp
  then show ?thesis using m by blast
qed

end
