(* ===== verification/Vfs_Native.thy ===== *)
theory Vfs_Native
  imports Vfs Ramfs Kvfs_Props
begin

text \<open>
  The VFS drivers of the two native storages (\<^verbatim>\<open>kernel/vfs_native.c\<close>) over one system
  state, and the contract both keep: a flat map from names to contents. The contract is
  the locale \<open>flat_store\<close>; what follows from it for sequences of writes and reads is
  proved once and holds for ramfs and KvFS, through the VFS.
\<close>

section \<open>State\<close>

record sys =
  sys_ram :: ramfs
  sys_kv :: kvfs
  sys_heap_total :: u32

definition sys_generation :: "sys \<Rightarrow> u32" where
  "sys_generation s = kv_gen (sys_kv s)"

section \<open>ramfs\<close>

definition root_path :: "cstring \<Rightarrow> bool" where
  "root_path path \<longleftrightarrow> path = [slash]"

fun rfs_entry :: "rfile list \<Rightarrow> int \<Rightarrow> int \<Rightarrow> vfs_dirent option" where
  "rfs_entry [] n index = None"
| "rfs_entry (f # fs) n index =
     (if \<not> rf_used f then rfs_entry fs n index
      else if n = index then
        Some (blank_dirent\<lparr>vd_name := strfield 128 (cstr (rf_name f)), vd_size := rf_size f\<rparr>)
      else rfs_entry fs (n + 1) index)"

definition rfs_readdir :: "sys \<Rightarrow> nat \<Rightarrow> cstring \<Rightarrow> int \<Rightarrow> sys \<times> int \<times> vfs_dirent" where
  "rfs_readdir s fs path index =
     (if \<not> root_path path then (s, -1, blank_dirent)
      else case rfs_entry (ram_files (sys_ram s)) 0 index of
        None \<Rightarrow> (s, 0, blank_dirent) | Some e \<Rightarrow> (s, 1, e))"

definition strip_path :: "cstring \<Rightarrow> cstring" where
  "strip_path path = skip_slashes path"

definition rfs_stat :: "sys \<Rightarrow> nat \<Rightarrow> cstring \<Rightarrow> sys \<times> int" where
  "rfs_stat s fs path =
     (s, if root_path path then 2
         else if ramfs_find (sys_ram s) (strip_path path) \<noteq> None then 1 else 0)"

definition rfs_size :: "sys \<Rightarrow> nat \<Rightarrow> cstring \<Rightarrow> sys \<times> u32" where
  "rfs_size s fs path =
     (s, case ramfs_find (sys_ram s) (strip_path path) of
           None \<Rightarrow> 0 | Some i \<Rightarrow> rf_size (ram_files (sys_ram s) ! i))"

definition rfs_read :: "sys \<Rightarrow> nat \<Rightarrow> cstring \<Rightarrow> u32 \<Rightarrow> u32 \<Rightarrow> sys \<times> int \<times> u8 list" where
  "rfs_read s fs path off mx =
     (case ramfs_find (sys_ram s) (strip_path path) of
        None \<Rightarrow> (s, -1, [])
      | Some i \<Rightarrow>
          let f = ram_files (sys_ram s) ! i in
          if off \<ge> rf_size f then (s, 0, [])
          else let n = rf_size f - off; n = (if n > mx then mx else n) in
            (s, sint n, take (unat n) (drop (unat off) (case rf_data f of None \<Rightarrow> [] | Some d \<Rightarrow> d))))"

definition rfs_write :: "sys \<Rightarrow> nat \<Rightarrow> cstring \<Rightarrow> u8 list option \<Rightarrow> u32 \<Rightarrow> sys \<times> int" where
  "rfs_write s fs path data sz =
     (case ramfs_write (sys_ram s) (Some (strip_path path)) (if sz \<noteq> 0 then data else None) sz of
        (r, rc) \<Rightarrow> (s\<lparr>sys_ram := r\<rparr>, if rc = 0 then sint sz else -1))"

definition rfs_remove :: "sys \<Rightarrow> nat \<Rightarrow> cstring \<Rightarrow> sys \<times> int" where
  "rfs_remove s fs path =
     (case ramfs_delete (sys_ram s) (strip_path path) of
        (r, rc) \<Rightarrow> (s\<lparr>sys_ram := r\<rparr>, if rc = 0 then 0 else -1))"

definition rfs_rename :: "sys \<Rightarrow> nat \<Rightarrow> cstring \<Rightarrow> cstring \<Rightarrow> sys \<times> int" where
  "rfs_rename s fs from to =
     (case ramfs_rename (sys_ram s) (Some (strip_path from)) (Some (strip_path to)) of
        (r, rc) \<Rightarrow> (s\<lparr>sys_ram := r\<rparr>, rc))"

definition rfs_space :: "sys \<Rightarrow> nat \<Rightarrow> sys \<times> u32 \<times> u32" where
  "rfs_space s fs =
     (let used = sum_list (map rf_size (filter rf_used (ram_files (sys_ram s))));
          heap_kb = sys_heap_total s div 1024 in
      (s, heap_kb, heap_kb - used div 1024))"

definition ramfs_ops :: "sys vfs_ops" where
  "ramfs_ops = \<lparr>op_readdir = Some rfs_readdir, op_read = Some rfs_read, op_size = Some rfs_size,
     op_stat = Some rfs_stat, op_write = Some rfs_write, op_remove = Some rfs_remove,
     op_mkdir = None, op_space = Some rfs_space, op_readdir_many = None, op_rename = Some rfs_rename\<rparr>"

text \<open>The strings \<^verbatim>\<open>"ram"\<close> (from \<^verbatim>\<open>Vfs\<close>), \<^verbatim>\<open>"RAM disk"\<close>, \<^verbatim>\<open>"kv"\<close> and \<^verbatim>\<open>"KvantOS"\<close>.\<close>

definition ram_label :: cstring where
  "ram_label = [0x52, 0x41, 0x4D, 0x20, 0x64, 0x69, 0x73, 0x6B]"

definition kv_name :: cstring where "kv_name = [0x6B, 0x76]"

definition kv_label :: cstring where
  "kv_label = [0x4B, 0x76, 0x61, 0x6E, 0x74, 0x4F, 0x53]"

definition ramfs_vfs_register :: "sys volumes \<Rightarrow> sys volumes" where
  "ramfs_vfs_register vs =
     fst (vfs_mount vs ram_name FS_RAMFS (Some ramfs_ops) 0 (-1) 0 0 (Some ram_label) True)"

section \<open>KvFS\<close>

definition kfs_readdir :: "sys \<Rightarrow> nat \<Rightarrow> cstring \<Rightarrow> int \<Rightarrow> sys \<times> int \<times> vfs_dirent" where
  "kfs_readdir s fs path index =
     (if \<not> kv_mounted (sys_kv s) \<or> \<not> root_path path then (s, -1, blank_dirent)
      else case kvfs_list (sys_kv s) index of
        None \<Rightarrow> (s, 0, blank_dirent)
      | Some (nm, sz, ex) \<Rightarrow> (s, 1, blank_dirent\<lparr>vd_name := strfield 128 nm, vd_size := sz\<rparr>))"

definition kfs_stat :: "sys \<Rightarrow> nat \<Rightarrow> cstring \<Rightarrow> sys \<times> int" where
  "kfs_stat s fs path =
     (s, if root_path path then 2 else if kvfs_exists (sys_kv s) (strip_path path) then 1 else 0)"

definition kfs_size :: "sys \<Rightarrow> nat \<Rightarrow> cstring \<Rightarrow> sys \<times> u32" where
  "kfs_size s fs path = (s, kvfs_size (sys_kv s) (strip_path path))"

text \<open>Reads go through a bounce buffer from \<^verbatim>\<open>kmalloc\<close>, on the heap that ramfs uses.\<close>

definition kfs_read :: "sys \<Rightarrow> nat \<Rightarrow> cstring \<Rightarrow> u32 \<Rightarrow> u32 \<Rightarrow> sys \<times> int \<times> u8 list" where
  "kfs_read s fs path off mx =
     (let name = strip_path path; tot = kvfs_size (sys_kv s) name in
      if \<not> kvfs_exists (sys_kv s) name then (s, -1, [])
      else if off \<ge> tot then (s, 0, [])
      else case ram_kmalloc tot (sys_ram s) of
        (r, None) \<Rightarrow> (s\<lparr>sys_ram := r\<rparr>, -1, [])
      | (r, Some tmp) \<Rightarrow> (case kvfs_read (sys_kv s) name tot of
          (kv, rc, bs) \<Rightarrow>
            let s = s\<lparr>sys_ram := r, sys_kv := kv\<rparr> in
            if rc < 0 \<or> rc \<noteq> int (unat tot) then (s, -1, [])
            else let n = tot - off; n = (if n > mx then mx else n) in
              (s, sint n, take (unat n) (drop (unat off) bs))))"

text \<open>\<^verbatim>\<open>".kapp"\<close>, the ending of executable files.\<close>

definition kapp_suffix :: cstring where
  "kapp_suffix = [0x2E, 0x6B, 0x61, 0x70, 0x70]"

definition kfs_write :: "sys \<Rightarrow> nat \<Rightarrow> cstring \<Rightarrow> u8 list option \<Rightarrow> u32 \<Rightarrow> sys \<times> int" where
  "kfs_write s fs path data sz =
     (let name = strip_path path; l = length name;
          ex = (l > 5 \<and> drop (l - 5) name = kapp_suffix) in
      case kvfs_write (sys_kv s) (Some name) data sz ex of
        (kv, r) \<Rightarrow> (s\<lparr>sys_kv := kv\<rparr>, if r = 0 then sint sz else -1))"

definition kfs_remove :: "sys \<Rightarrow> nat \<Rightarrow> cstring \<Rightarrow> sys \<times> int" where
  "kfs_remove s fs path =
     (case kvfs_delete (sys_kv s) (strip_path path) of
        (kv, r) \<Rightarrow> (s\<lparr>sys_kv := kv\<rparr>, if r = 0 then 0 else -1))"

definition kfs_rename :: "sys \<Rightarrow> nat \<Rightarrow> cstring \<Rightarrow> cstring \<Rightarrow> sys \<times> int" where
  "kfs_rename s fs from to =
     (case kvfs_rename (sys_kv s) (Some (strip_path from)) (Some (strip_path to)) of
        (kv, r) \<Rightarrow> (s\<lparr>sys_kv := kv\<rparr>, r))"

definition kfs_space :: "sys \<Rightarrow> nat \<Rightarrow> sys \<times> u32 \<times> u32" where
  "kfs_space s fs =
     (case kvfs_stats (sys_kv s) of (total_mb, used_kb, files) \<Rightarrow>
        (s, total_mb * 1024, total_mb * 1024 - used_kb))"

definition kvfs_ops :: "sys vfs_ops" where
  "kvfs_ops = \<lparr>op_readdir = Some kfs_readdir, op_read = Some kfs_read, op_size = Some kfs_size,
     op_stat = Some kfs_stat, op_write = Some kfs_write, op_remove = Some kfs_remove,
     op_mkdir = None, op_space = Some kfs_space, op_readdir_many = None, op_rename = Some kfs_rename\<rparr>"

definition kvfs_vfs_register :: "sys volumes \<Rightarrow> sys \<Rightarrow> sys volumes" where
  "kvfs_vfs_register vs s =
     (if \<not> kv_mounted (sys_kv s) then vs
      else fst (vfs_mount vs kv_name FS_KVFS (Some kvfs_ops) 0 (ata_boot_drive (kv_ata (sys_kv s)))
        2048 0 (Some kv_label) True))"

section \<open>The contract of a flat store\<close>

text \<open>A run of writes, each whatever the one before it returned, with the result of every
  call; and the writes it acknowledged.\<close>

fun puts :: "('s \<Rightarrow> cstring \<Rightarrow> u8 list \<Rightarrow> 's \<times> int) \<Rightarrow> (cstring \<times> u8 list) list \<Rightarrow> 's \<Rightarrow> 's \<times> int list" where
  "puts put [] s = (s, [])"
| "puts put ((nm, d) # xs) s =
     (case put s nm d of (s', r) \<Rightarrow> case puts put xs s' of (s'', rs) \<Rightarrow> (s'', r # rs))"

definition acked :: "(cstring \<times> u8 list) list \<Rightarrow> int list \<Rightarrow> (cstring \<times> u8 list) list" where
  "acked xs rs = map fst (filter (\<lambda>(x, r). 0 \<le> r) (zip xs rs))"

lemma acked_simps [simp]: "acked [] rs = []" "acked (x # xs) (r # rs) = (if 0 \<le> r then [x] else []) @ acked xs rs"
  by (simp_all add: acked_def)

text \<open>A name without slashes and NULs, and data whose length an \<^verbatim>\<open>int\<close> can hold.\<close>

definition plain :: "cstring \<Rightarrow> u8 list \<Rightarrow> bool" where
  "plain nm d \<longleftrightarrow> slash \<notin> set nm \<and> 0 \<notin> set nm \<and> length d < 2 ^ 31"

text \<open>The contract: a write stores the file or reports an error and leaves every file as it
  was; a read that reports success returns bytes of the file. A store may go away
  (\<open>up\<close>); it does not come back by itself, and then nothing reports success.\<close>

locale flat_store =
  fixes ok :: "'s \<Rightarrow> bool" and up :: "'s \<Rightarrow> bool" and files :: "'s \<Rightarrow> cstring \<Rightarrow> u8 list option"
    and put :: "'s \<Rightarrow> cstring \<Rightarrow> u8 list \<Rightarrow> 's \<times> int"
    and get :: "'s \<Rightarrow> cstring \<Rightarrow> u32 \<Rightarrow> u32 \<Rightarrow> 's \<times> int \<times> u8 list"
  assumes put_law: "ok s \<Longrightarrow> plain nm d \<Longrightarrow> put s nm d = (s', r) \<Longrightarrow>
      ok s' \<and> (up s' \<longrightarrow> up s \<and> files s' = (if 0 \<le> r then (files s)(nm \<mapsto> d) else files s))"
    and get_law: "ok s \<Longrightarrow> plain nm [] \<Longrightarrow> get s nm off mx = (s', r, bs) \<Longrightarrow>
      ok s' \<and> (0 \<le> r \<longrightarrow> up s \<and>
        (\<exists>c. files s nm = Some c \<and> bs = take (unat mx) (drop (unat off) c) \<and> r = int (length bs)))"
begin

lemma puts_files:
  "ok s \<Longrightarrow> \<forall>(nm, d)\<in>set xs. plain nm d \<Longrightarrow> puts put xs s = (s', rs) \<Longrightarrow>
     ok s' \<and> (up s' \<longrightarrow> up s \<and> files s' = files s ++ map_of (rev (acked xs rs)))"
proof (induction xs arbitrary: s rs)
  case (Cons x xs)
  obtain nm d where x: "x = (nm, d)" by force
  obtain s1 r where p: "put s nm d = (s1, r)" by force
  obtain rs1 where rs: "rs = r # rs1" "puts put xs s1 = (s', rs1)"
    using Cons.prems(3) x p by (auto split: prod.splits)
  have pl: "plain nm d" "\<forall>(nm, d)\<in>set xs. plain nm d" using Cons.prems(2) x by auto
  note s1 = put_law[OF Cons.prems(1) pl(1) p]
  have "ok s' \<and> (up s' \<longrightarrow> up s1 \<and> files s' = files s1 ++ map_of (rev (acked xs rs1)))"
    using Cons.IH[OF _ pl(2) rs(2)] s1 by blast
  then show ?case
    using s1 x rs(1) by (auto simp: map_add_upd_left map_add_def fun_eq_iff split: option.splits)
qed simp

lemma last_write_wins:
  assumes "ok s" "\<forall>(nm, d)\<in>set xs. plain nm d" "puts put xs s = (s1, rs)" "plain nm []"
    and "get s1 nm off mx = (s2, r, bs)" "0 \<le> r"
  shows "\<exists>c. (files s ++ map_of (rev (acked xs rs))) nm = Some c \<and>
    bs = take (unat mx) (drop (unat off) c) \<and> r = int (length bs)"
  using puts_files[OF assms(1-3)] get_law[OF _ assms(4,5)] assms(6) by auto

end

text \<open>A store that is always there, whose reads fail on missing files only.\<close>

locale sure_store = flat_store +
  assumes stays: "up s"
    and get_sure: "ok s \<Longrightarrow> plain nm [] \<Longrightarrow> get s nm off mx = (s', r, bs) \<Longrightarrow>
      (case files s nm of None \<Rightarrow> r = -1
       | Some c \<Rightarrow> bs = take (unat mx) (drop (unat off) c) \<and> r = sint (of_nat (length bs) :: u32))"
begin

lemma last_write_sure:
  assumes "ok s" "\<forall>(nm, d)\<in>set xs. plain nm d" "puts put xs s = (s1, rs)" "plain nm []"
    and "get s1 nm off mx = (s2, r, bs)"
  shows "case (files s ++ map_of (rev (acked xs rs))) nm of None \<Rightarrow> r = -1
    | Some c \<Rightarrow> bs = take (unat mx) (drop (unat off) c) \<and> r = sint (of_nat (length bs) :: u32)"
  using puts_files[OF assms(1-3)] get_sure[OF _ assms(4,5)] stays by auto

end

section \<open>The native volumes\<close>

definition native_volumes :: "sys \<Rightarrow> sys volumes" where
  "native_volumes s = kvfs_vfs_register (ramfs_vfs_register (replicate 8 no_volume)) s"

definition vpath :: "cstring \<Rightarrow> cstring \<Rightarrow> cstring" where
  "vpath vol nm = [slash] @ mnt @ [slash] @ vol @ (slash # nm)"

definition vput :: "sys volumes \<Rightarrow> cstring \<Rightarrow> sys \<Rightarrow> cstring \<Rightarrow> u8 list \<Rightarrow> sys \<times> int" where
  "vput vs vol s nm d = vfs_write vs (Some (vpath vol nm)) (Some d) (of_nat (length d)) s"

definition vget :: "sys volumes \<Rightarrow> cstring \<Rightarrow> sys \<Rightarrow> cstring \<Rightarrow> u32 \<Rightarrow> u32 \<Rightarrow> sys \<times> int \<times> u8 list" where
  "vget vs vol s nm off mx = vfs_read vs (Some (vpath vol nm)) off mx s"

text \<open>KvFS is mounted, on an ATA disk.\<close>

definition kv_there :: "sys \<Rightarrow> bool" where
  "kv_there s \<longleftrightarrow> kv_mounted (sys_kv s) \<and> at_boot (kv_ata (sys_kv s)) < 4"

lemma kv_name_plain: "length kv_name < 16" "0 \<notin> set kv_name" "slash \<notin> set kv_name" "kv_name \<noteq> []"
  "kv_name \<noteq> ram_name"
  by (simp_all add: kv_name_def ram_name_def)

lemma ram_registered:
  "ramfs_vfs_register (replicate 8 no_volume) = (replicate 8 no_volume)[0 := \<lparr>vol_name = strfield 16 ram_name,
     vol_label = strfield 32 ram_label, vol_kind = FS_RAMFS, vol_ops = Some ramfs_ops, vol_fs = 0,
     vol_disk = -1, vol_lba_start = 0, vol_lba_count = 0, vol_writable = True, vol_used = True\<rparr>]"
  by (simp add: ramfs_vfs_register_def first_mount blk_is_usb_def)

lemma native_table:
  "vfs_find (native_volumes s0) ram_name = Some 0"
  "vol_ops (native_volumes s0 ! 0) = Some ramfs_ops" "vol_writable (native_volumes s0 ! 0)"
  "kv_there s0 \<Longrightarrow> vfs_find (native_volumes s0) kv_name = Some 1"
  "kv_there s0 \<Longrightarrow> vol_ops (native_volumes s0 ! 1) = Some kvfs_ops \<and> vol_writable (native_volumes s0 ! 1)"
proof -
  let ?vs = "ramfs_vfs_register (replicate 8 no_volume)"
  have u: "\<not> vol_used (?vs ! 1)" "vol_used (?vs ! 0)" "length ?vs = 8"
    unfolding ram_registered by (simp_all add: no_volume_def)
  have "first_index (\<lambda>v. \<not> vol_used v) ?vs 0 = Some 1"
    using u by (auto simp: first_index_0 less_Suc_eq)
  then have k: "native_volumes s0 = (if kv_mounted (sys_kv s0) then ?vs[1 := \<lparr>vol_name = strfield 16 kv_name,
      vol_label = strfield 32 kv_label, vol_kind = FS_KVFS, vol_ops = Some kvfs_ops, vol_fs = 0,
      vol_disk = at_boot (kv_ata (sys_kv s0)), vol_lba_start = 2048, vol_lba_count = 0,
      vol_writable = (True \<and> \<not> blk_is_usb (at_boot (kv_ata (sys_kv s0)))), vol_used = True\<rparr>] else ?vs)"
    by (simp add: native_volumes_def kvfs_vfs_register_def vfs_mount_def ata_boot_drive_def)
  show "vfs_find (native_volumes s0) ram_name = Some 0"
    by (simp add: vfs_find_iff k ram_registered ram_name_plain)
  show "vol_ops (native_volumes s0 ! 0) = Some ramfs_ops" "vol_writable (native_volumes s0 ! 0)"
    by (simp_all add: k ram_registered)
  show "kv_there s0 \<Longrightarrow> vfs_find (native_volumes s0) kv_name = Some 1"
    using kv_name_plain(5) not_sym[OF kv_name_plain(5)]
    by (auto simp: vfs_find_iff k ram_registered kv_there_def kv_name_plain ram_name_plain)
  show "kv_there s0 \<Longrightarrow> vol_ops (native_volumes s0 ! 1) = Some kvfs_ops \<and> vol_writable (native_volumes s0 ! 1)"
    by (simp add: k ram_registered kv_there_def blk_is_usb_def)
qed

lemma strip_name: "slash \<notin> set nm \<Longrightarrow> strip_path (slash # nm) = nm"
  unfolding strip_path_def skip_one by (rule skip_slashes_id) (cases nm; auto)

lemma ram_route:
  "vput (native_volumes s0) ram_name s nm d =
     rfs_write s (vol_fs (native_volumes s0 ! 0)) (slash # nm) (Some d) (of_nat (length d))"
  "vget (native_volumes s0) ram_name s nm off mx =
     rfs_read s (vol_fs (native_volumes s0 ! 0)) (slash # nm) off mx"
  using resolve_mnt[OF native_table(1)[of s0], of "slash # nm"] ram_name_plain native_table(2,3)[of s0]
  by (simp_all add: vput_def vget_def vpath_def vfs_write_def vfs_read_def writing_op_def ramfs_ops_def)

lemma kv_route:
  assumes "kv_there s0"
  shows "vput (native_volumes s0) kv_name s nm d =
     kfs_write s (vol_fs (native_volumes s0 ! 1)) (slash # nm) (Some d) (of_nat (length d))"
  "vget (native_volumes s0) kv_name s nm off mx =
     kfs_read s (vol_fs (native_volumes s0 ! 1)) (slash # nm) off mx"
  using resolve_mnt[OF native_table(4)[OF assms], of "slash # nm"] kv_name_plain native_table(5)[OF assms]
  by (simp_all add: vput_def vget_def vpath_def vfs_write_def vfs_read_def writing_op_def kvfs_ops_def)

lemma plain_len: "plain nm d \<Longrightarrow> unat (of_nat (length d) :: u32) = length d"
  by (auto simp: plain_def intro!: unat_of_nat_u32)

lemma plain_sint: "plain nm d \<Longrightarrow> 0 \<le> sint (of_nat (length d) :: u32)"
  using sint_small_u32[of "of_nat (length d)"] plain_len[of nm d]
  by (simp add: plain_def word_less_nat_alt)

lemma window:
  fixes sz off mx n :: u32
  assumes "length c = unat sz" "\<not> off \<ge> sz" "n = (if sz - off > mx then mx else sz - off)"
  shows "take (unat n) (drop (unat off) c) = take (unat mx) (drop (unat off) c)"
    "length (take (unat n) (drop (unat off) c)) = unat n" "unat off + unat n \<le> unat sz"
proof -
  have s: "unat (sz - off) = unat sz - unat off" using assms(2) by (intro unat_sub_u32) (simp add: not_le order_less_imp_le)
  have n: "unat n = min (unat mx) (unat sz - unat off)"
    using assms(3) s by (auto simp: word_less_nat_alt min_def)
  then show "take (unat n) (drop (unat off) c) = take (unat mx) (drop (unat off) c)"
    using assms(1) by (simp add: min_def)
  show "length (take (unat n) (drop (unat off) c)) = unat n" using n assms(1) by simp
  show "unat off + unat n \<le> unat sz"
    using n assms(2) by (auto simp: min_def word_le_nat_alt)
qed

lemma ram_vput:
  assumes ok: "ramfs_ok (sys_ram s)" and p: "plain nm d"
    and w: "vput (native_volumes s0) ram_name s nm d = (s', r)"
  shows "ramfs_ok (sys_ram s') \<and>
    ramfs_files (sys_ram s') = (if 0 \<le> r then (ramfs_files (sys_ram s))(nm \<mapsto> d) else ramfs_files (sys_ram s))"
proof -
  let ?sz = "of_nat (length d) :: u32"
  let ?data = "if ?sz \<noteq> 0 then Some d else None"
  have sn: "strip_path (slash # nm) = nm" using p by (intro strip_name) (simp add: plain_def)
  obtain r1 rc where rw: "ramfs_write (sys_ram s) (Some nm) ?data ?sz = (r1, rc)" by force
  have s': "s' = s\<lparr>sys_ram := r1\<rparr>" "r = (if rc = 0 then sint ?sz else -1)"
    using w rw by (auto simp: ram_route rfs_write_def sn split: if_splits)
  have r: "0 \<le> r \<longleftrightarrow> rc = 0" using s'(2) plain_sint[OF p] by simp
  have "ramfs_ok r1 \<and> (rc \<noteq> 0 \<longrightarrow> ramfs_files r1 = ramfs_files (sys_ram s)) \<and>
     (rc = 0 \<longrightarrow> (\<exists>c. length c = unat ?sz \<and> ramfs_files r1 = (ramfs_files (sys_ram s))(nm \<mapsto> c) \<and>
       (\<forall>d. ?data = Some d \<longrightarrow> c = take (unat ?sz) d)))"
    using write_result[OF ok rw] p plain_len[OF p] by (auto simp: plain_def split: if_splits)
  then show ?thesis
    using s'(1) r plain_len[OF p] by (auto split: if_splits)
qed

lemma ram_vget:
  assumes ok: "ramfs_ok (sys_ram s)" and p: "plain nm []"
    and g: "vget (native_volumes s0) ram_name s nm off mx = (s', r, bs)"
  shows "s' = s \<and> (case ramfs_files (sys_ram s) nm of None \<Rightarrow> r = -1
    | Some c \<Rightarrow> bs = take (unat mx) (drop (unat off) c) \<and> r = sint (of_nat (length bs) :: u32))"
proof -
  have sn: "strip_path (slash # nm) = nm" using p by (intro strip_name) (simp add: plain_def)
  show ?thesis
  proof (cases "ramfs_find (sys_ram s) nm")
    case None
    then show ?thesis using g by (auto simp: ram_route rfs_read_def sn ramfs_files_def)
  next
    case (Some i)
    let ?f = "ram_files (sys_ram s) ! i"
    have "?f \<in> set (ram_files (sys_ram s))" "rf_used ?f"
      using Some ramfs_okD(1)[OF ok] by (auto simp: ramfs_find_iff[OF ok])
    then obtain d where d: "rf_data ?f = Some (d @ [0])" "length d = unat (rf_size ?f)"
      using ramfs_okD(3)[OF ok] by blast
    have c: "ramfs_files (sys_ram s) nm = Some d"
      using Some d by (simp add: ramfs_files_def rf_content_def)
    show ?thesis
    proof (cases "off \<ge> rf_size ?f")
      case True
      then have "s' = s" "r = 0" "bs = []"
        using g Some by (simp_all add: ram_route rfs_read_def sn)
      moreover have "drop (unat off) d = []" using True d(2) by (simp add: word_le_nat_alt)
      ultimately show ?thesis using c by simp
    next
      case False
      define n where "n = (if rf_size ?f - off > mx then mx else rf_size ?f - off)"
      have res: "s' = s" "r = sint n" "bs = take (unat n) (drop (unat off) (d @ [0]))"
        using g Some False d(1) by (simp_all add: ram_route rfs_read_def sn Let_def n_def[symmetric] del: drop_append take_append)
      note w = window[OF d(2) False n_def]
      have "bs = take (unat n) (drop (unat off) d)"
        using w(3) d(2) by (simp add: res(3))
      then show ?thesis
        using c w res(1,2) by simp
    qed
  qed
qed

lemma sint_result:
  assumes "r = sint (of_nat n :: u32)" "0 \<le> r" "n < 2 ^ 32"
  shows "r = int n"
  using sint_nonneg_u32[of "of_nat n :: u32"] unat_of_nat_u32[of n] assms by linarith

lemma ram_file_len:
  assumes "ramfs_ok r" "ramfs_files r nm = Some c"
  shows "length c < 2 ^ 32"
proof -
  obtain i where i: "ramfs_find r nm = Some i" "c = rf_content (ram_files r ! i)"
    using assms(2) by (auto simp: ramfs_files_def)
  have "ram_files r ! i \<in> set (ram_files r)" "rf_used (ram_files r ! i)"
    using i(1) ramfs_okD(1)[OF assms(1)] by (auto simp: ramfs_find_iff[OF assms(1)])
  then obtain d where d: "rf_data (ram_files r ! i) = Some (d @ [0])" "length d = unat (rf_size (ram_files r ! i))"
    using ramfs_okD(3)[OF assms(1)] by blast
  then show ?thesis using unat_lt_u32[of "rf_size (ram_files r ! i)"] i(2) by (simp add: rf_content_def)
qed

interpretation ramv: sure_store "\<lambda>s. ramfs_ok (sys_ram s)" "\<lambda>_. True" "\<lambda>s. ramfs_files (sys_ram s)"
  "vput (native_volumes s0) ram_name" "vget (native_volumes s0) ram_name" for s0
proof unfold_locales
  fix s nm d s' r
  assume "ramfs_ok (sys_ram s)" "plain nm d" "vput (native_volumes s0) ram_name s nm d = (s', r)"
  from ram_vput[OF this] show "ramfs_ok (sys_ram s') \<and> (True \<longrightarrow> True \<and> ramfs_files (sys_ram s') =
      (if 0 \<le> r then (ramfs_files (sys_ram s))(nm \<mapsto> d) else ramfs_files (sys_ram s)))" by simp
next
  fix s nm off mx s' r bs
  assume a: "ramfs_ok (sys_ram s)" "plain nm []" "vget (native_volumes s0) ram_name s nm off mx = (s', r, bs)"
  note g = ram_vget[OF a]
  show "ramfs_ok (sys_ram s') \<and> (0 \<le> r \<longrightarrow> True \<and> (\<exists>c. ramfs_files (sys_ram s) nm = Some c \<and>
      bs = take (unat mx) (drop (unat off) c) \<and> r = int (length bs)))"
  proof (cases "ramfs_files (sys_ram s) nm")
    case (Some c)
    then show ?thesis
      using g a(1) sint_result[of r "length bs"] ram_file_len[OF a(1) Some] by auto
  qed (use g a(1) in simp)
  show "case ramfs_files (sys_ram s) nm of None \<Rightarrow> r = -1
    | Some c \<Rightarrow> bs = take (unat mx) (drop (unat off) c) \<and> r = sint (of_nat (length bs) :: u32)"
    using g by simp
qed simp

lemma kv_vput:
  assumes ok: "kv_mounted (sys_kv s) \<longrightarrow> kvfs_ok (sys_kv s)" and th: "kv_there s0" and p: "plain nm d"
    and w: "vput (native_volumes s0) kv_name s nm d = (s', r)"
  shows "(kv_mounted (sys_kv s') \<longrightarrow> kvfs_ok (sys_kv s')) \<and>
    (kv_mounted (sys_kv s') \<longrightarrow> kv_mounted (sys_kv s) \<and>
       kvfs_files (sys_kv s') = (if 0 \<le> r then (kvfs_files (sys_kv s))(nm \<mapsto> d) else kvfs_files (sys_kv s)))"
proof -
  let ?sz = "of_nat (length d) :: u32"
  let ?ex = "length nm > 5 \<and> drop (length nm - 5) nm = kapp_suffix"
  have sn: "strip_path (slash # nm) = nm" using p by (intro strip_name) (simp add: plain_def)
  obtain kv rc where kw: "kvfs_write (sys_kv s) (Some nm) (Some d) ?sz ?ex = (kv, rc)" by force
  have s': "s' = s\<lparr>sys_kv := kv\<rparr>" "r = (if rc = 0 then sint ?sz else -1)"
    using w kw by (auto simp: kv_route[OF th] kfs_write_def sn Let_def split: if_splits)
  have r: "0 \<le> r \<longleftrightarrow> rc = 0" using s'(2) plain_sint[OF p] by simp
  show ?thesis
  proof (cases "kv_mounted (sys_kv s)")
    case False
    then show ?thesis using kw s'(1) by (simp add: kvfs_write_def)
  next
    case True
    have "delivers (sys_kv s) ((kvfs_files (sys_kv s))(nm \<mapsto> d)) kv rc"
      by (rule write_delivers[OF _ kw]) (use ok True p plain_len[OF p] in \<open>auto simp: plain_def\<close>)
    then show ?thesis using True s'(1) r by (auto simp: delivers_def)
  qed
qed

interpretation kvv: flat_store "\<lambda>s. (kv_mounted (sys_kv s) \<longrightarrow> kvfs_ok (sys_kv s)) \<and> kv_there s0"
  "\<lambda>s. kv_mounted (sys_kv s)" "\<lambda>s. kvfs_files (sys_kv s)"
  "vput (native_volumes s0) kv_name" "vget (native_volumes s0) kv_name" for s0
proof unfold_locales
  fix s nm d s' r
  assume "(kv_mounted (sys_kv s) \<longrightarrow> kvfs_ok (sys_kv s)) \<and> kv_there s0" "plain nm d"
    "vput (native_volumes s0) kv_name s nm d = (s', r)"
  then show "((kv_mounted (sys_kv s') \<longrightarrow> kvfs_ok (sys_kv s')) \<and> kv_there s0) \<and>
      (kv_mounted (sys_kv s') \<longrightarrow> kv_mounted (sys_kv s) \<and> kvfs_files (sys_kv s') =
        (if 0 \<le> r then (kvfs_files (sys_kv s))(nm \<mapsto> d) else kvfs_files (sys_kv s)))"
    using kv_vput by blast
next
  fix s nm off mx s' r bs
  assume ok0: "(kv_mounted (sys_kv s) \<longrightarrow> kvfs_ok (sys_kv s)) \<and> kv_there s0" and p: "plain nm []"
    and g: "vget (native_volumes s0) kv_name s nm off mx = (s', r, bs)"
  have sn: "strip_path (slash # nm) = nm" using p by (intro strip_name) (simp add: plain_def)
  have g': "kfs_read s (vol_fs (native_volumes s0 ! 1)) (slash # nm) off mx = (s', r, bs)"
    using g ok0 by (simp add: kv_route)
  let ?goal = "((kv_mounted (sys_kv s') \<longrightarrow> kvfs_ok (sys_kv s')) \<and> kv_there s0) \<and>
      (0 \<le> r \<longrightarrow> kv_mounted (sys_kv s) \<and> (\<exists>c. kvfs_files (sys_kv s) nm = Some c \<and>
        bs = take (unat mx) (drop (unat off) c) \<and> r = int (length bs)))"
  have away: "?goal" if "\<not> kv_mounted (sys_kv s)"
    using g' ok0 that by (simp add: kfs_read_def Let_def kvfs_exists_def)
  have here: "?goal" if "kv_mounted (sys_kv s)"
  proof -
  have k: "kvfs_ok (sys_kv s)" and ok: "kvfs_ok (sys_kv s) \<and> kv_there s0" using ok0 that by auto
  note kd = kvfs_okD[OF k]
  let ?tot = "kvfs_size (sys_kv s) nm"
  have "(kvfs_ok (sys_kv s') \<and> kv_there s0) \<and> kvfs_files (sys_kv s') = kvfs_files (sys_kv s) \<and>
      (0 \<le> r \<longrightarrow> (\<exists>c. kvfs_files (sys_kv s) nm = Some c \<and> bs = take (unat mx) (drop (unat off) c) \<and> r = int (length bs)))"
  proof (cases "find_entry (kv_dir (sys_kv s)) nm")
    case None
    then show ?thesis using g' ok kd(1) by (auto simp: kfs_read_def sn Let_def kvfs_exists_def)
  next
    case (Some i)
    let ?e = "kv_dir (sys_kv s) ! i"
    have eo: "entry_ok (su_total (kv_super (sys_kv s))) ?e"
      using Some find_entry_iff[OF kd(4)] dir_okD(1,3)[OF kd(4)] by auto
    have tot: "?tot = de_size ?e" using Some kd(1) by (simp add: kvfs_size_def)
    obtain c where c: "kvfs_files (sys_kv s) nm = Some c" "length c = unat ?tot"
    proof
      show "kvfs_files (sys_kv s) nm = Some (file_body (kv_med (sys_kv s)) ?e)"
        using Some by (simp add: kvfs_files_def files_on_def)
      show "length (file_body (kv_med (sys_kv s)) ?e) = unat ?tot"
        using entry_extent(5)[OF eo] length_span[of "kv_med (sys_kv s)"] ad.med_len
        by (simp add: file_body_def tot kv_med_def)
    qed
    have ex: "kvfs_exists (sys_kv s) nm" using Some kd(1) by (simp add: kvfs_exists_def)
    show ?thesis
    proof (cases "off \<ge> ?tot")
      case True
      then have "s' = s" "r = 0" "bs = []"
        using g' ex by (simp_all add: kfs_read_def sn Let_def)
      moreover have "drop (unat off) c = []" using True c(2) by (simp add: word_le_nat_alt)
      ultimately show ?thesis using ok c by simp
    next
      case False
      obtain rm m where km: "ram_kmalloc ?tot (sys_ram s) = (rm, m)" by force
      obtain kv rc b where kr: "kvfs_read (sys_kv s) nm ?tot = (kv, rc, b)" using prod_cases3 by blast
      note rr = read_refines[OF k kr]
      define n where "n = (if ?tot - off > mx then mx else ?tot - off)"
      show ?thesis
      proof (cases "m = None \<or> rc < 0 \<or> rc \<noteq> int (unat ?tot)")
        case True
        then have "r = -1" "sys_kv s' = sys_kv s \<or> sys_kv s' = kv"
          using g' ex False km kr by (auto simp: kfs_read_def sn Let_def split: option.splits if_splits)
        then show ?thesis using rr ok by auto
      next
        case F: False
        then have res: "s' = s\<lparr>sys_ram := rm, sys_kv := kv\<rparr>" "r = sint n" "bs = take (unat n) (drop (unat off) b)"
          using g' ex False km kr by (auto simp: kfs_read_def sn Let_def n_def)
        have b: "b = c" using rr F c by auto
        note w = window[OF c(2) False n_def]
        show ?thesis using rr ok c(1) w res b sint_nonneg_u32[of n] by auto
      qed
    qed
  qed
  then show ?thesis using that by blast
  qed
  show ?goal using away here by blast
qed

section \<open>Properties\<close>

text \<open>A system with the file \<^verbatim>\<open>"a"\<close> on ramfs and a formatted KvFS disk.\<close>

definition lab_ram :: ramfs where
  "lab_ram = \<lparr>ram_files = \<lparr>rf_name = strfield 24 lab_a, rf_data = Some [7, 8, 0], rf_size = 2,
       rf_used = True\<rparr> # replicate 31 no_rfile, ram_alloc = [], ram_junk = (\<lambda>_. 0)\<rparr>"

lemma kv_file_size:
  assumes "kvfs_ok kv" "kvfs_files kv nm = Some c"
  shows "kvfs_exists kv nm" "unat (kvfs_size kv nm) = length c"
proof -
  note kd = kvfs_okD[OF assms(1)]
  obtain i where i: "find_entry (kv_dir kv) nm = Some i" "c = file_body (kv_med kv) (kv_dir kv ! i)"
    using assms(2) by (auto simp: kvfs_files_def files_on_def)
  have eo: "entry_ok (su_total (kv_super kv)) (kv_dir kv ! i)"
    using i(1) find_entry_iff[OF kd(4)] dir_okD(1,3)[OF kd(4)] by auto
  show "kvfs_exists kv nm" using i(1) kd(1) by (simp add: kvfs_exists_def)
  have "length c = unat (de_size (kv_dir kv ! i))"
    using entry_extent(5)[OF eo] length_span[of "kv_med kv"] ad.med_len
    by (simp add: file_body_def i(2) kv_med_def)
  then show "unat (kvfs_size kv nm) = length c" using i(1) kd(1) by (simp add: kvfs_size_def)
qed

lemma lab_dev: "kv_dev lab_fs = 0"
  using format_ok[OF lab_format(1)] lab_boot_facts by auto

definition lab_sys :: sys where
  "lab_sys = \<lparr>sys_ram = lab_ram, sys_kv = lab_fs, sys_heap_total = 0x100000\<rparr>"

lemma lab_a_plain [simp]: "0 \<notin> set lab_a" "slash \<notin> set lab_a" "lab_a \<noteq> []" "length lab_a = 1"
  by (simp_all add: lab_a_def)

lemma lab_ram_ok: "ramfs_ok lab_ram"
proof -
  have "cstr (rf_name (ram_files lab_ram ! i)) \<noteq> cstr (rf_name (ram_files lab_ram ! j))"
    if "i < 32" "j < 32" "i \<noteq> j" "rf_used (ram_files lab_ram ! i)" "rf_used (ram_files lab_ram ! j)" for i j
    using that by (cases i; cases j) (simp_all add: lab_ram_def no_rfile_def)
  moreover have "0 \<in> set (strfield 24 lab_a)" by (simp add: strfield_def)
  ultimately show ?thesis
    by (auto simp: ramfs_ok_def) (auto simp: lab_ram_def no_rfile_def)
qed

lemma lab_ram_find: "ramfs_find lab_ram lab_a = Some 0"
  by (simp add: ramfs_find_def lab_ram_def)

text \<open>The same system when the second allocation from now on fails.\<close>

definition tight_sys :: sys where
  "tight_sys = lab_sys\<lparr>sys_ram := lab_ram\<lparr>ram_alloc := [True, False]\<rparr>\<rparr>"

lemma tight_ok: "ramfs_ok (sys_ram tight_sys)"
  using lab_ram_ok by (simp add: tight_sys_def ramfs_ok_def)

lemma tight_puts:
  "snd (puts (vput (native_volumes lab_sys) ram_name) [(lab_a, [9]), (lab_a, [8, 8])] tight_sys) = [1, -1]"
proof -
  have f: "ramfs_find (lab_ram\<lparr>ram_alloc := oks\<rparr>) lab_a = Some 0" for oks
    using lab_ram_find by (simp add: ramfs_find_def)
  have l: "ram_files lab_ram \<noteq> []" by (simp add: lab_ram_def)
  show ?thesis
    using f l by (simp add: ram_route rfs_write_def strip_name tight_sys_def ramfs_write_def Let_def
      ram_kmalloc_def ram_set_def ramfs_find_def split: prod.splits) (simp add: lab_ram_def ram_kmalloc_def)
qed

text \<open>C10. Through the VFS, ramfs is a map: run any sequence of writes to paths below
  \<^verbatim>\<open>/mnt/ram\<close>, each whatever the one before it returned, under any pattern of failing
  allocations. Then a read returns the bytes of the last write to that name that was
  acknowledged (or of the file that was there before), from the offset on, and fails
  exactly when there is none: a write that failed changed nothing.\<close>

theorem ramfs_last_write_wins:
  assumes "ramfs_ok (sys_ram s)" "\<forall>(nm, d)\<in>set xs. plain nm d"
    "puts (vput (native_volumes s0) ram_name) xs s = (s1, rs)" "plain nm []"
    "vget (native_volumes s0) ram_name s1 nm off mx = (s2, r, bs)"
  shows "case (ramfs_files (sys_ram s) ++ map_of (rev (acked xs rs))) nm of None \<Rightarrow> r = -1
    | Some c \<Rightarrow> bs = take (unat mx) (drop (unat off) c) \<and> r = sint (of_nat (length bs) :: u32)"
  using assms by (rule ramv.last_write_sure)

lemma ramfs_last_write_wins_witness:
  "\<exists>s1 s2. puts (vput (native_volumes lab_sys) ram_name) [(lab_a, [9]), (lab_a, [8, 8])] tight_sys = (s1, [1, -1]) \<and>
     vget (native_volumes lab_sys) ram_name s1 lab_a 0 5 = (s2, 1, [9])"
proof -
  let ?xs = "[(lab_a, [9]), (lab_a, [8, 8])] :: (cstring \<times> u8 list) list"
  obtain s1 where p: "puts (vput (native_volumes lab_sys) ram_name) ?xs tight_sys = (s1, [1, -1])"
    using tight_puts by (metis prod.collapse)
  obtain s2 r bs where g: "vget (native_volumes lab_sys) ram_name s1 lab_a 0 5 = (s2, r, bs)"
    using prod_cases3 by blast
  have "\<forall>(nm, d)\<in>set ?xs. plain nm d" "plain lab_a []" by (simp_all add: plain_def)
  from ramfs_last_write_wins[OF tight_ok this(1) p this(2) g] show ?thesis using p g by simp
qed

text \<open>C11. The same for KvFS, under any pattern of bus errors and failing allocations: a read
  that reports success returns the bytes of the last acknowledged write to that name (or
  of the file that was there). A failing commit may unmount KvFS, and then no read
  reports success any more.\<close>

theorem kvfs_last_write_wins:
  assumes "kvfs_ok (sys_kv s)" "kv_there s0" "\<forall>(nm, d)\<in>set xs. plain nm d"
    "puts (vput (native_volumes s0) kv_name) xs s = (s1, rs)" "plain nm []"
    "vget (native_volumes s0) kv_name s1 nm off mx = (s2, r, bs)" "0 \<le> r"
  shows "\<exists>c. (kvfs_files (sys_kv s) ++ map_of (rev (acked xs rs))) nm = Some c \<and>
    bs = take (unat mx) (drop (unat off) c) \<and> r = int (length bs)"
  using assms by (intro kvv.last_write_wins) auto

lemma kvfs_last_write_wins_witness:
  "\<exists>s1 s2. puts (vput (native_volumes lab_sys) kv_name) [(lab_a, [1, 2, 3]), ([], [5])] lab_sys = (s1, [3, -1]) \<and>
     vget (native_volumes lab_sys) kv_name s1 lab_a 1 5 = (s2, 2, [2, 3])"
proof -
  have there: "kv_there lab_sys"
    using kvfs_okD(1)[OF lab_ok(1)] kvfs_okD(3)[OF lab_ok(1)] lab_dev by (simp add: kv_there_def lab_sys_def)
  obtain kv where w: "kvfs_write lab_fs (Some lab_a) (Some [1, 2, 3]) 3 False = (kv, 0)" "ata_live (kv_ata kv)"
    using write_live[OF lab_ok(1) lab_format(2), of "[1, 2, 3]" 3 lab_a 2057 False]
    by (auto simp: lab_layout lab_pick lab_fits)
  let ?s1 = "lab_sys\<lparr>sys_kv := kv\<rparr>" and ?xs = "[(lab_a, [1, 2, 3]), ([], [5])] :: (cstring \<times> u8 list) list"
  have "delivers lab_fs ((kvfs_files lab_fs)(lab_a \<mapsto> [1, 2, 3])) kv 0"
    by (rule write_delivers[OF lab_ok(1) w(1)]) simp_all
  then have f1: "kvfs_ok kv" "kvfs_files kv lab_a = Some [1, 2, 3]" by (simp_all add: delivers_def)
  have e: "kvfs_write kv (Some []) (Some [5]) 1 False = (kv, -4)"
    using kvfs_okD(1)[OF f1(1)] by (simp add: kvfs_write_def)
  have s1: "puts (vput (native_volumes lab_sys) kv_name) ?xs lab_sys = (?s1, [3, -1])"
    using w(1) e by (simp add: kv_route[OF there] kfs_write_def strip_name Let_def)
      (simp add: lab_sys_def)
  have ok: "kvfs_ok (sys_kv lab_sys)" using lab_ok(1) by (simp add: lab_sys_def)
  have pl: "\<forall>(nm, d)\<in>set ?xs. plain nm d" "plain lab_a []" by (simp_all add: plain_def)
  obtain s2 r bs where g: "vget (native_volumes lab_sys) kv_name ?s1 lab_a 1 5 = (s2, r, bs)"
    using prod_cases3 by blast
  have sz: "kvfs_exists kv lab_a" "kvfs_size kv lab_a = 3"
    using kv_file_size[OF f1] by (simp_all add: word_unat_eq_iff)
  obtain kv2 rc b where kr: "kvfs_read kv lab_a 3 = (kv2, rc, b)" using prod_cases3 by blast
  have "rc = 3" using read_refines[OF f1(1) kr] f1(2) w(2) by auto
  moreover have "ram_alloc (sys_ram lab_sys) = []" by (simp add: lab_sys_def lab_ram_def)
  moreover have "\<not> (3 :: u32) \<le> 1" by (simp add: word_le_nat_alt)
  ultimately have "r = 2"
    using g kr sz by (auto simp: kv_route[OF there] kfs_read_def strip_name Let_def ram_kmalloc_def)
  then have "0 \<le> r" by simp
  from kvfs_last_write_wins[OF ok there pl(1) s1 pl(2) g this] \<open>r = 2\<close> show ?thesis using s1 g by auto
qed

end
