(* ===== verification/Clock.thy ===== *)
theory Clock
  imports KV_Base
begin

text \<open>
  Time and randomness: the CMOS clock (\<^verbatim>\<open>kernel/rtc.c\<close>), the tick timer
  (\<^verbatim>\<open>kernel/timer.c\<close>) and the xorshift generator (\<^verbatim>\<open>kernel/random.c\<close>). The CMOS
  chip is its register file; how often a poll finds an update in progress is an
  argument. Port accesses and interrupts have no other state.
\<close>

section \<open>The clock chip\<close>

record rtc =
  rt_reg :: "u8 \<Rightarrow> u8"
  rt_cached :: "u32 list"
  rt_valid :: bool

record rtc_time =
  tm_sec :: u8
  tm_min :: u8
  tm_hour :: u8
  tm_day :: u8
  tm_month :: u8
  tm_year :: u16

definition rtc_cached_clock :: "rtc \<Rightarrow> u32 list option" where
  "rtc_cached_clock c = (if rt_valid c then Some (rt_cached c) else None)"

definition bcd2bin :: "u8 \<Rightarrow> u8" where
  "bcd2bin v = (v AND 0x0F) + drop_bit 4 v * 10"

definition bin2bcd :: "u8 \<Rightarrow> u8" where
  "bin2bcd v = push_bit 4 (v div 10) OR (v mod 10)"

text \<open>\<^verbatim>\<open>while (update_in_progress() && guard--)\<close> when the flag is seen \<open>busy\<close> times.\<close>

definition poll_guard :: "nat \<Rightarrow> int" where
  "poll_guard busy = (if busy \<le> 1000000 then 1000000 - int busy else -1)"

definition rtc_hour :: "u8 \<Rightarrow> u8 \<Rightarrow> u8" where
  "rtc_hour regb hour =
     (let hour = (if regb AND 4 = 0
                  then ((hour AND 0x0F) + ((hour AND 0x70) div 16) * 10) OR (hour AND 0x80) else hour)
      in if regb AND 2 = 0
         then ((hour AND 0x7F) mod 12) + (if hour AND 0x80 \<noteq> 0 then 12 else 0) else hour)"

definition rtc_hour_valid :: "u8 \<Rightarrow> u8 \<Rightarrow> bool" where
  "rtc_hour_valid regb hour =
     (let hour = (if regb AND 4 = 0
                  then ((hour AND 0x0F) + ((hour AND 0x70) div 16) * 10) OR (hour AND 0x80) else hour)
      in if regb AND 2 \<noteq> 0 then hour < 24 else 1 \<le> hour AND 0x7F \<and> hour AND 0x7F \<le> 12)"

definition rtc_field :: "u8 \<Rightarrow> u8 \<Rightarrow> u8" where
  "rtc_field regb v = (if regb AND 4 = 0 then bcd2bin v else v)"

definition rtc_read :: "nat \<Rightarrow> rtc \<Rightarrow> rtc \<times> rtc_time" where
  "rtc_read busy c =
     (let r = rt_reg c; regb = r 0x0B;
          sec = rtc_field regb (r 0x00); mi = rtc_field regb (r 0x02);
          hour = rtc_hour regb (r 0x04);
          valid = (poll_guard busy \<ge> 0 \<and> rtc_hour_valid regb (r 0x04) \<and> hour < 24 \<and> mi < 60 \<and> sec < 60)
      in (c\<lparr>rt_valid := valid,
            rt_cached := (if valid then [ucast hour, ucast mi, ucast sec] else rt_cached c)\<rparr>,
          \<lparr>tm_sec = sec, tm_min = mi, tm_hour = hour, tm_day = rtc_field regb (r 0x07),
           tm_month = rtc_field regb (r 0x08), tm_year = 2000 + ucast (rtc_field regb (r 0x09))\<rparr>))"

definition cmos_store :: "u8 \<Rightarrow> u8 \<Rightarrow> rtc \<Rightarrow> rtc" where
  "cmos_store reg v c =
     c\<lparr>rt_reg := (rt_reg c)(reg := (if rt_reg c 0x0B AND 4 \<noteq> 0 then v else bin2bcd v))\<rparr>"

definition rtc_write_time :: "int \<Rightarrow> int \<Rightarrow> int \<Rightarrow> rtc \<Rightarrow> rtc \<times> int" where
  "rtc_write_time h m s c =
     (if h < 0 \<or> h > 23 \<or> m < 0 \<or> m > 59 \<or> s < 0 \<or> s > 59 then (c, -1)
      else ((cmos_store 0x04 (of_int h) (cmos_store 0x02 (of_int m) (cmos_store 0x00 (of_int s) c)))
        \<lparr>rt_valid := False\<rparr>, 0))"

definition mdays :: "int list" where
  "mdays = [31, 29, 31, 30, 31, 30, 31, 31, 30, 31, 30, 31]"

definition rtc_write_date :: "int \<Rightarrow> int \<Rightarrow> int \<Rightarrow> rtc \<Rightarrow> rtc \<times> int" where
  "rtc_write_date y mo d c =
     (if y < 2000 \<or> y > 2099 \<or> mo < 1 \<or> mo > 12 \<or> d < 1 \<or> d > 31 then (c, -1)
      else if d > mdays ! nat (mo - 1) then (c, -1)
      else if mo = 2 \<and> d = 29 \<and> \<not> (y mod 4 = 0 \<and> (y mod 100 \<noteq> 0 \<or> y mod 400 = 0)) then (c, -1)
      else ((cmos_store 0x09 (of_int (y - 2000)) (cmos_store 0x08 (of_int mo) (cmos_store 0x07 (of_int d) c)))
        \<lparr>rt_valid := False\<rparr>, 0))"

text \<open>Conversions on the values a field can have, checked one by one.\<close>

lemma bcd_table: "\<forall>v\<in>set [0..<100]. bcd2bin (bin2bcd (of_nat v)) = of_nat v"
  by code_simp

lemma hour_table_24:
  "\<forall>h\<in>set [0..<24]. ((bin2bcd (of_nat h) AND 0x0F) + ((bin2bcd (of_nat h) AND 0x70) div 16) * 10) OR
     (bin2bcd (of_nat h) AND 0x80) = of_nat h"
  by code_simp

lemma hour_table_12:
  "\<forall>h\<in>set [12..<24]. (of_nat h AND 0x7F) mod 12 = (of_nat (h - 12) :: u8) \<and> of_nat h AND 0x80 = (0 :: u8)"
  by code_simp

lemma small_values: "\<forall>v\<in>set [0..<100]. unat (of_nat v :: u8) = v"
  by code_simp

lemma field_stored:
  assumes "0 \<le> v" "v < 100"
  shows "rtc_field b (if b AND 4 \<noteq> 0 then of_int v else bin2bcd (of_int v)) = of_int v"
    "unat (of_int v :: u8) = nat v"
proof -
  have v: "nat v \<in> set [0..<100]" "of_int v = (of_nat (nat v) :: u8)" using assms by auto
  show "rtc_field b (if b AND 4 \<noteq> 0 then of_int v else bin2bcd (of_int v)) = of_int v"
    using bcd_table v by (simp add: rtc_field_def)
  show "unat (of_int v :: u8) = nat v"
    using small_values v by simp
qed

section \<open>The tick timer\<close>

record timer =
  ti_ticks :: u64
  ti_freq :: u32
  ti_divisor :: u32

definition timer_tick :: "timer \<Rightarrow> timer" where
  "timer_tick t = t\<lparr>ti_ticks := ti_ticks t + 1\<rparr>"

definition timer_seconds :: "timer \<Rightarrow> u32" where
  "timer_seconds t = ucast (ti_ticks t) div ti_freq t"

definition timer_init :: "u32 \<Rightarrow> timer \<Rightarrow> timer" where
  "timer_init hz t =
     (let hz = (if hz < 19 then 19 else hz); hz = (if hz > 10000 then 10000 else hz);
          d = 1193180 div hz; d = (if d > 65535 then 65535 else d); d = (if d = 0 then 1 else d)
      in t\<lparr>ti_freq := hz, ti_divisor := d\<rparr>)"

text \<open>The number of ticks \<^verbatim>\<open>sleep_ms\<close> waits for, and the loop that waits.\<close>

definition sleep_delay :: "u32 \<Rightarrow> timer \<Rightarrow> u64" where
  "sleep_delay ms t =
     (let delay = ucast (ms div 1000) * ucast (ti_freq t) + ucast (((ms mod 1000) * ti_freq t + 999) div 1000)
      in if ms \<noteq> 0 \<and> delay = 0 then 1 else delay)"

fun sleep_loop :: "nat \<Rightarrow> u64 \<Rightarrow> timer \<Rightarrow> timer" where
  "sleep_loop 0 target t = t"
| "sleep_loop (Suc n) target t = (if ti_ticks t < target then sleep_loop n target (timer_tick t) else t)"

definition sleep_ms :: "nat \<Rightarrow> u32 \<Rightarrow> timer \<Rightarrow> timer" where
  "sleep_ms fuel ms t = sleep_loop fuel (ti_ticks t + sleep_delay ms t) t"

definition beep_divisor :: "u32 \<Rightarrow> u32 option" where
  "beep_divisor freq =
     (if freq < 19 \<or> freq > 20000 then None
      else let d = 1193180 div freq in if d = 0 then None else Some d)"

section \<open>Random numbers\<close>

definition kv_rand_seed :: "u32 \<Rightarrow> u32" where
  "kv_rand_seed seed = (if seed \<noteq> 0 then seed else 0x9E3779B9)"

definition xorshift :: "u32 \<Rightarrow> u32" where
  "xorshift x =
     (let x = x XOR push_bit 13 x; x = x XOR drop_bit 17 x; x = x XOR push_bit 5 x in x)"

text \<open>The state is the generator's; \<open>ticks\<close> seeds it on first use.\<close>

definition kv_rand :: "u64 \<Rightarrow> u32 \<Rightarrow> u32 \<times> u32" where
  "kv_rand ticks st =
     (let st = (if st = 0 then ucast ticks XOR 0x2545F491 else st); x = xorshift st in (x, x))"

definition kv_rand_max :: "u64 \<Rightarrow> u32 \<Rightarrow> u32 \<Rightarrow> u32 \<times> u32" where
  "kv_rand_max ticks n st = (if n = 0 then (st, 0) else case kv_rand ticks st of (st', x) \<Rightarrow> (st', x mod n))"

text \<open>Each of the three steps is injective at 0: only 0 becomes 0.\<close>

lemma xor_push_nonzero:
  assumes "x XOR push_bit k x = (0 :: u32)" "0 < k"
  shows "x = 0"
proof (rule bit_word_eqI)
  fix n assume "n < LENGTH(32)"
  have "\<not> bit x n"
  proof (induction n rule: less_induct)
    case (less n)
    have e: "bit x n = bit (push_bit k x) n"
      using arg_cong[OF assms(1), of "\<lambda>w. bit w n"] by (simp add: bit_xor_iff)
    show ?case
    proof (cases "k \<le> n")
      case True
      then have "\<not> bit x (n - k)" using less.IH assms(2) by simp
      then show ?thesis using e True by (auto simp: bit_push_bit_iff)
    qed (use e in \<open>auto simp: bit_push_bit_iff\<close>)
  qed
  then show "bit x n = bit 0 n" by simp
qed

lemma xor_drop_nonzero:
  assumes "x XOR drop_bit k x = (0 :: u32)" "0 < k"
  shows "x = 0"
proof (rule bit_word_eqI)
  fix n assume "n < LENGTH(32)"
  have e: "bit x n = bit x (n + k)" for n
    using arg_cong[OF assms(1), of "\<lambda>w. bit w n"] by (simp add: bit_xor_iff bit_drop_bit_eq add.commute)
  have "bit x n = bit x (n + j * k)" for j
  proof (induction j)
    case (Suc j)
    then show ?case using e[of "n + j * k"] by (simp add: ac_simps)
  qed simp
  moreover have "\<not> bit x (n + 32 * k)"
    using assms(2) bit_imp_le_length[of x "n + 32 * k"] by auto
  ultimately show "bit x n = bit 0 n" by simp
qed

lemma xorshift_nonzero: "x \<noteq> 0 \<Longrightarrow> xorshift x \<noteq> 0"
  using xor_push_nonzero[of _ 13] xor_drop_nonzero[of _ 17] xor_push_nonzero[of _ 5]
  unfolding xorshift_def Let_def by (metis zero_less_numeral)

section \<open>Properties\<close>

text \<open>With the chip in 24-hour mode the clock reads back what was set, in BCD and in binary
  format, and the cached clock holds it too.\<close>

theorem rtc_time_roundtrip:
  assumes "rt_reg c 0x0B AND 2 \<noteq> 0" "rtc_write_time h m s c = (c1, 0)" "busy \<le> 1000000"
    "rtc_read busy c1 = (c2, t)"
  shows "tm_hour t = of_int h \<and> tm_min t = of_int m \<and> tm_sec t = of_int s \<and>
    map unat (the (rtc_cached_clock c2)) = [nat h, nat m, nat s] \<and> rtc_cached_clock c2 \<noteq> None"
proof -
  have r: "0 \<le> h" "h < 24" "0 \<le> m" "m < 60" "0 \<le> s" "s < 60"
    using assms(2) by (auto simp: rtc_write_time_def split: if_splits)
  let ?b = "rt_reg c 0x0B"
  let ?st = "\<lambda>v. if ?b AND 4 \<noteq> 0 then of_int v else bin2bcd (of_int v)"
  have c1: "rt_reg c1 = (rt_reg c)(0x00 := ?st s, 0x02 := ?st m, 0x04 := ?st h)"
    using assms(2) r by (auto simp: rtc_write_time_def cmos_store_def)
  have hour: "rtc_hour ?b (?st h) = of_int h" "rtc_hour_valid ?b (?st h)"
  proof -
    have n: "nat h \<in> set [0..<24]" "of_int h = (of_nat (nat h) :: u8)" using r by auto
    have u: "unat (of_int h :: u8) = nat h" using field_stored(2)[of h] r by simp
    show "rtc_hour ?b (?st h) = of_int h"
      using assms(1) hour_table_24 n by (simp add: rtc_hour_def Let_def)
    then show "rtc_hour_valid ?b (?st h)"
      using assms(1) u r by (simp add: rtc_hour_def rtc_hour_valid_def Let_def word_less_nat_alt)
  qed
  note f = field_stored(1)[of m ?b] field_stored(1)[of s ?b] field_stored(2)[of m] field_stored(2)[of s]
    field_stored(2)[of h]
  have u: "unat (of_int h :: u8) = nat h" "unat (of_int m :: u8) = nat m" "unat (of_int s :: u8) = nat s"
    using f r by auto
  have lt: "(of_int h :: u8) < 24" "(of_int m :: u8) < 60" "(of_int s :: u8) < 60"
    using u r by (auto simp: word_less_nat_alt)
  have rd: "rtc_hour (rt_reg c1 0x0B) (rt_reg c1 4) = of_int h" "rtc_hour_valid (rt_reg c1 0x0B) (rt_reg c1 4)"
    "rtc_field (rt_reg c1 0x0B) (rt_reg c1 2) = of_int m" "rtc_field (rt_reg c1 0x0B) (rt_reg c1 0) = of_int s"
    using hour f r by (simp_all add: c1)
  have v: "rt_valid c2" "rt_cached c2 = [ucast (of_int h :: u8), ucast (of_int m :: u8), ucast (of_int s :: u8)]"
    "tm_hour t = of_int h" "tm_min t = of_int m" "tm_sec t = of_int s"
    using assms(3,4) rd lt by (auto simp: rtc_read_def Let_def poll_guard_def)
  show ?thesis
    using v u by (simp add: rtc_cached_clock_def unat_ucast_8_32)
qed

definition lab_clock :: "u8 \<Rightarrow> rtc" where
  "lab_clock b = \<lparr>rt_reg = (\<lambda>r. if r = 0x0B then b else 0), rt_cached = [0, 0, 0], rt_valid = False\<rparr>"

lemma rtc_time_roundtrip_witness:
  "tm_hour (snd (rtc_read 3 (fst (rtc_write_time 23 59 58 (lab_clock 2))))) = 23"
proof -
  obtain c1 where w: "rtc_write_time 23 59 58 (lab_clock 2) = (c1, 0)" by (simp add: rtc_write_time_def)
  obtain c2 t where r: "rtc_read 3 c1 = (c2, t)" by force
  show ?thesis using rtc_time_roundtrip[OF _ w _ r] w r by (simp add: lab_clock_def)
qed

text \<open>With the chip in 12-hour mode it does not: an afternoon hour that is set (and
  accepted) reads back as the hour of the morning.\<close>

theorem rtc_afternoon_misread:
  assumes "rt_reg c 0x0B AND 2 = 0" "rtc_write_time h m s c = (c1, 0)" "12 \<le> h"
    "rtc_read busy c1 = (c2, t)"
  shows "tm_hour t = of_int (h - 12)"
proof -
  have r: "0 \<le> h" "h < 24" using assms(2) by (auto simp: rtc_write_time_def split: if_splits)
  let ?b = "rt_reg c 0x0B"
  let ?st = "if ?b AND 4 \<noteq> 0 then of_int h else bin2bcd (of_int h)"
  have c1: "rt_reg c1 0x0B = ?b" "rt_reg c1 4 = ?st"
    using assms(2) by (auto simp: rtc_write_time_def cmos_store_def split: if_splits)
  obtain k where k: "h = int k" "k \<in> set [0..<24]" "k \<in> set [12..<24]"
    using r assms(3) by (metis atLeastLessThan_iff nat_0_le nat_less_iff nat_le_iff set_upt zero_le zless_nat_eq_int_zless le_nat_iff of_nat_numeral nat_int)
  have k12: "12 \<le> k" using k(3) by (simp only: set_upt atLeastLessThan_iff)
  have "of_int h = (of_nat k :: u8)" "of_int (h - 12) = (of_nat (k - 12) :: u8)"
    using k(1) of_nat_diff[OF k12, where ?'a = u8] by simp_all
  then have "rtc_hour ?b ?st = of_int (h - 12)"
    using assms(1) bspec[OF hour_table_24 k(2)] bspec[OF hour_table_12 k(3)]
    unfolding rtc_hour_def Let_def by simp
  then show ?thesis
    using assms(4) c1 by (auto simp: rtc_read_def Let_def)
qed

lemma rtc_afternoon_misread_witness:
  "tm_hour (snd (rtc_read 0 (fst (rtc_write_time 15 0 0 (lab_clock 0))))) = 3"
proof -
  obtain c1 where w: "rtc_write_time 15 0 0 (lab_clock 0) = (c1, 0)" by (simp add: rtc_write_time_def)
  obtain c2 t where r: "rtc_read 0 c1 = (c2, t)" by force
  show ?thesis using rtc_afternoon_misread[OF _ w _ r] w r by (simp add: lab_clock_def)
qed

text \<open>\<^verbatim>\<open>sleep_ms\<close> waits exactly the requested time rounded up to whole ticks, for every
  argument and every frequency that \<^verbatim>\<open>timer_init\<close> can set: nothing overflows.\<close>

theorem sleep_delay_exact:
  assumes "19 \<le> ti_freq t" "ti_freq t \<le> 10000"
  shows "unat (sleep_delay ms t) = (unat ms * unat (ti_freq t) + 999) div 1000"
proof -
  let ?f = "unat (ti_freq t)" and ?q = "unat ms div 1000" and ?r = "unat ms mod 1000"
  have f: "19 \<le> ?f" "?f \<le> 10000" using assms by (simp_all add: word_le_nat_alt)
  have ms: "unat ms < 4294967296" by (rule unat_lt_u32)
  have dm: "unat (ms div 1000) = ?q" "unat (ms mod 1000) = ?r" by (simp_all add: unat_div unat_mod)
  have r: "?r < 1000" by simp
  have rf: "?r * ?f \<le> 999 * 10000" using r f by (intro mult_mono) auto
  have "unat ((ms mod 1000) * ti_freq t) = ?r * ?f"
    using rf by (simp add: unat_word_ariths dm)
  then have s: "unat ((ms mod 1000) * ti_freq t + 999) = ?r * ?f + 999"
    using rf by (subst unat_add_u32) simp_all
  have c: "unat (ucast (((ms mod 1000) * ti_freq t + 999) div 1000) :: u64) = (?r * ?f + 999) div 1000"
    using s by (simp add: unat_ucast_32_64 unat_div)
  have qf: "?q * ?f \<le> 4294967 * 10000"
  proof (rule mult_mono)
    show "?q \<le> 4294967" using ms by linarith
  qed (use f in auto)
  have a: "unat (ucast (ms div 1000) * ucast (ti_freq t) :: u64) = ?q * ?f"
  proof -
    have "?q < 4294967296" using ms by linarith
    then have "?q mod 4294967296 = ?q" by (rule mod_less)
    then show ?thesis using qf by (simp add: unat_word_ariths unat_ucast_32_64 dm)
  qed
  have sum: "unat (ucast (ms div 1000) * ucast (ti_freq t) + ucast (((ms mod 1000) * ti_freq t + 999) div 1000) :: u64)
      = ?q * ?f + (?r * ?f + 999) div 1000"
    using qf rf a c by (subst unat_add_u64) auto
  have split: "unat ms * ?f + 999 = 1000 * (?q * ?f) + (?r * ?f + 999)"
  proof -
    have "unat ms * ?f = (1000 * ?q + ?r) * ?f" by simp
    also have "\<dots> = 1000 * (?q * ?f) + ?r * ?f" by (simp only: distrib_right mult.assoc)
    finally show ?thesis by simp
  qed
  have total: "(unat ms * ?f + 999) div 1000 = ?q * ?f + (?r * ?f + 999) div 1000"
    unfolding split by simp
  show ?thesis
  proof (cases "ms = 0")
    case False
    then have "0 < unat ms" by (simp add: unat_gt_0)
    then have "1000 \<le> unat ms * ?f + 999" using f by (cases "unat ms") auto
    then have "0 < (unat ms * ?f + 999) div 1000" by (simp add: div_greater_zero_iff)
    then show ?thesis
      using sum total by (auto simp: sleep_delay_def Let_def unat_eq_0[symmetric])
  qed (use sum total in \<open>simp add: sleep_delay_def Let_def\<close>)
qed

lemma sleep_delay_exact_witness:
  "unat (sleep_delay 15 (timer_init 100 \<lparr>ti_ticks = 0, ti_freq = 0, ti_divisor = 0\<rparr>)) = 2"
  by (subst sleep_delay_exact) (simp_all add: timer_init_def Let_def)

text \<open>The generator never gets stuck: from any seed, the state is non-zero after any number
  of calls, whatever the timer shows.\<close>

theorem kv_rand_never_stuck:
  "((\<lambda>st. fst (kv_rand ticks st)) ^^ n) (kv_rand_seed seed) \<noteq> 0"
proof (induction n)
  case (Suc n)
  then show ?case by (simp add: kv_rand_def Let_def xorshift_nonzero)
qed (simp add: kv_rand_seed_def)

end
