(* ===== verification/Text_Input.thy ===== *)
theory Text_Input
  imports KV_Base
begin

text \<open>
  From keys to text: the UTF-8 routines of \<^verbatim>\<open>kernel/charset.c\<close> and the keyboard
  state machine of \<^verbatim>\<open>kernel/keymap.c\<close> (scan code set 1, modifiers, layouts). A string
  is the list of its bytes before the NUL.
\<close>

section \<open>UTF-8\<close>

fun utf8_cont :: "nat \<Rightarrow> u32 \<Rightarrow> u8 list \<Rightarrow> u32 \<times> u8 list" where
  "utf8_cont 0 cp s = (cp, s)"
| "utf8_cont (Suc n) cp [] = (cp, [])"
| "utf8_cont (Suc n) cp (b # s) =
     (if b AND 0xC0 = 0x80 then utf8_cont n (push_bit 6 cp OR (ucast b AND 0x3F)) s else (cp, b # s))"

definition utf8_next :: "u8 list \<Rightarrow> u32 \<times> u8 list" where
  "utf8_next s =
     (case s of [] \<Rightarrow> (0, []) | c # s \<Rightarrow>
        if c AND 0xE0 = 0xC0 then utf8_cont 1 (ucast (c AND 0x1F)) s
        else if c AND 0xF0 = 0xE0 then utf8_cont 2 (ucast (c AND 0x0F)) s
        else if c AND 0xF8 = 0xF0 then utf8_cont 3 (ucast (c AND 0x07)) s
        else (ucast c, s))"

definition utf8_len :: "u8 list \<Rightarrow> nat" where
  "utf8_len s = length (filter (\<lambda>b. b AND 0xC0 \<noteq> 0x80) s)"

text \<open>\<^verbatim>\<open>cp866_from_unicode\<close>: the ranges, then the single characters of the switch.\<close>

definition cp866_singles :: "(u32 \<times> u8) list" where
  "cp866_singles =
    [(0x401, 0xF0), (0x451, 0xF1), (0x2116, 0xFC), (0xB0, 0xF8), (0xB7, 0xFA),
     (0x2591, 0xB0), (0x2592, 0xB1), (0x2593, 0xB2), (0x2502, 0xB3), (0x2524, 0xB4), (0x2563, 0xB9),
     (0x2551, 0xBA), (0x2557, 0xBB), (0x255D, 0xBC), (0x2510, 0xBF), (0x2514, 0xC0), (0x2534, 0xC1),
     (0x252C, 0xC2), (0x251C, 0xC3), (0x2500, 0xC4), (0x253C, 0xC5), (0x255A, 0xC8), (0x2554, 0xC9),
     (0x2569, 0xCA), (0x2566, 0xCB), (0x2560, 0xCC), (0x2550, 0xCD), (0x256C, 0xCE), (0x2518, 0xD9),
     (0x250C, 0xDA), (0x2588, 0xDB), (0x2584, 0xDC), (0x258C, 0xDD), (0x2590, 0xDE), (0x2580, 0xDF),
     (0x2022, 0x07), (0x263A, 0x01), (0x2665, 0x03), (0x2666, 0x04), (0x263C, 0x0F), (0x25BA, 0x10),
     (0x25C4, 0x11), (0x2191, 0x18), (0x2193, 0x19), (0x2192, 0x1A), (0x2190, 0x1B),
     (0x00AB, 0x3C), (0x00BB, 0x3E), (0x2014, 0xC4), (0x2013, 0xC4), (0x201C, 0x22), (0x201D, 0x22)]"

definition cp866_from_unicode :: "u32 \<Rightarrow> u8" where
  "cp866_from_unicode cp =
     (if cp < 0x80 then ucast cp
      else if cp \<ge> 0x410 \<and> cp \<le> 0x42F then ucast (0x80 + (cp - 0x410))
      else if cp \<ge> 0x430 \<and> cp \<le> 0x43F then ucast (0xA0 + (cp - 0x430))
      else if cp \<ge> 0x440 \<and> cp \<le> 0x44F then ucast (0xE0 + (cp - 0x440))
      else case map_of cp866_singles cp of Some b \<Rightarrow> b | None \<Rightarrow> 0x3F)"

lemma utf8_cont_shrinks: "utf8_cont n cp s = (c, s') \<Longrightarrow> length s' \<le> length s"
  by (induction n cp s rule: utf8_cont.induct) (auto split: if_splits)

lemma utf8_next_shrinks: "utf8_next (b # s) = (c, s') \<Longrightarrow> length s' \<le> length s"
  by (auto simp: utf8_next_def split: if_splits dest: utf8_cont_shrinks)

function utf8_to_cp866 :: "u8 list \<Rightarrow> nat \<Rightarrow> u8 list" where
  "utf8_to_cp866 [] mx = []"
| "utf8_to_cp866 (b # s) 0 = []"
| "utf8_to_cp866 (b # s) (Suc mx) =
     (case utf8_next (b # s) of (cp, s') \<Rightarrow> cp866_from_unicode cp # utf8_to_cp866 s' mx)"
  by pat_completeness auto
termination by (relation "measure (\<lambda>(s, mx). mx)") auto

text \<open>The whole string as code points.\<close>

function utf8_decode :: "u8 list \<Rightarrow> u32 list" where
  "utf8_decode [] = []"
| "utf8_decode (b # s) = (case utf8_next (b # s) of (cp, s') \<Rightarrow> cp # utf8_decode s')"
  by pat_completeness auto
termination by (relation "measure length") (auto dest: utf8_next_shrinks[OF sym] simp: less_Suc_eq_le)

lemma utf8_to_cp866_decode: "utf8_to_cp866 s mx = map cp866_from_unicode (take mx (utf8_decode s))"
  by (induction s mx rule: utf8_to_cp866.induct) (auto split: prod.splits)

section \<open>The keyboard\<close>

record keymap =
  km_pressed :: u32
  km_layout :: bool
  km_caps :: bool
  km_extended :: bool
  km_skip :: nat
  km_combo :: bool

record kbd_event =
  ev_key :: int
  ev_codepoint :: u32
  ev_modifiers :: u32
  ev_physical :: u32

definition keymap_init :: keymap where
  "keymap_init = \<lparr>km_pressed = 0, km_layout = False, km_caps = False, km_extended = False,
     km_skip = 0, km_combo = False\<rparr>"

definition lower_keys :: "u8 list" where
  "lower_keys = [0, 27, 0x31, 0x32, 0x33, 0x34, 0x35, 0x36, 0x37, 0x38, 0x39, 0x30, 0x2D, 0x3D, 8,
     9, 0x71, 0x77, 0x65, 0x72, 0x74, 0x79, 0x75, 0x69, 0x6F, 0x70, 0x5B, 0x5D, 10,
     0, 0x61, 0x73, 0x64, 0x66, 0x67, 0x68, 0x6A, 0x6B, 0x6C, 0x3B, 0x27, 0x60,
     0, 0x5C, 0x7A, 0x78, 0x63, 0x76, 0x62, 0x6E, 0x6D, 0x2C, 0x2E, 0x2F, 0, 0x2A, 0, 0x20]
     @ replicate 70 0"

definition upper_keys :: "u8 list" where
  "upper_keys = [0, 27, 0x21, 0x40, 0x23, 0x24, 0x25, 0x5E, 0x26, 0x2A, 0x28, 0x29, 0x5F, 0x2B, 8,
     9, 0x51, 0x57, 0x45, 0x52, 0x54, 0x59, 0x55, 0x49, 0x4F, 0x50, 0x7B, 0x7D, 10,
     0, 0x41, 0x53, 0x44, 0x46, 0x47, 0x48, 0x4A, 0x4B, 0x4C, 0x3A, 0x22, 0x7E,
     0, 0x7C, 0x5A, 0x58, 0x43, 0x56, 0x42, 0x4E, 0x4D, 0x3C, 0x3E, 0x3F, 0, 0x2A, 0, 0x20]
     @ replicate 70 0"

definition russian_keys :: "(nat \<times> u32) list" where
  "russian_keys =
    [(0x10, 0x439), (0x11, 0x446), (0x12, 0x443), (0x13, 0x43A), (0x14, 0x435), (0x15, 0x43D),
     (0x16, 0x433), (0x17, 0x448), (0x18, 0x449), (0x19, 0x437), (0x1A, 0x445), (0x1B, 0x44A),
     (0x1E, 0x444), (0x1F, 0x44B), (0x20, 0x432), (0x21, 0x430), (0x22, 0x43F), (0x23, 0x440),
     (0x24, 0x43E), (0x25, 0x43B), (0x26, 0x434), (0x27, 0x436), (0x28, 0x44D), (0x29, 0x451),
     (0x2C, 0x44F), (0x2D, 0x447), (0x2E, 0x441), (0x2F, 0x43C), (0x30, 0x438), (0x31, 0x442),
     (0x32, 0x44C), (0x33, 0x431), (0x34, 0x44E)]"

text \<open>\<^verbatim>\<open>KMOD_SHIFT\<close>, \<^verbatim>\<open>KMOD_CTRL\<close> and \<^verbatim>\<open>KMOD_ALT\<close> are 1, 2 and 4.\<close>

definition keymap_modifiers :: "keymap \<Rightarrow> u32" where
  "keymap_modifiers s = (if km_pressed s AND 3 \<noteq> 0 then 1 else 0) OR
     (if km_pressed s AND 12 \<noteq> 0 then 2 else 0) OR (if km_pressed s AND 48 \<noteq> 0 then 4 else 0)"

definition navigation_keys :: "(nat \<times> int) list" where
  "navigation_keys = [(0x48, 0x81), (0x50, 0x82), (0x4B, 0x83), (0x4D, 0x84), (0x47, 0x85), (0x4F, 0x86),
     (0x49, 0x87), (0x51, 0x88), (0x53, 0x89), (0x52, 0x8A)]"

definition navigation :: "nat \<Rightarrow> int" where
  "navigation sc = (case map_of navigation_keys sc of Some k \<Rightarrow> k | None \<Rightarrow> 0)"

text \<open>The modifier bit of a key, 0 for other keys.\<close>

definition modifier_bit :: "nat \<Rightarrow> bool \<Rightarrow> u32" where
  "modifier_bit sc ext =
     (let b = (if sc = 0x2A \<and> \<not> ext then 1 else 0); b = (if sc = 0x36 \<and> \<not> ext then 2 else b);
          b = (if sc = 0x1D then (if ext then 8 else 4) else b);
          b = (if sc = 0x38 then (if ext then 32 else 16) else b)
      in if sc = 0x3A \<and> \<not> ext then 64 else b)"

definition feed_modifier :: "u32 \<Rightarrow> bool \<Rightarrow> keymap \<Rightarrow> keymap \<times> kbd_event option" where
  "feed_modifier b release s =
     (let already = (km_pressed s AND b \<noteq> 0);
          s = s\<lparr>km_pressed := (if release then km_pressed s AND NOT b else km_pressed s OR b)\<rparr>;
          s = (if b = 64 \<and> \<not> release \<and> \<not> already then s\<lparr>km_caps := \<not> km_caps s\<rparr> else s);
          mods = keymap_modifiers s; combo = (mods AND (4 OR 1) = 4 OR 1);
          changed = (combo \<and> \<not> km_combo s); s = s\<lparr>km_combo := combo\<rparr>
      in if changed
         then (s\<lparr>km_layout := \<not> km_layout s\<rparr>,
               Some \<lparr>ev_key = 0x100, ev_codepoint = 0, ev_modifiers = mods, ev_physical = 0\<rparr>)
         else (s, None))"

text \<open>The character of a printing key under shift, caps lock and the layout.\<close>

definition key_codepoint :: "keymap \<Rightarrow> nat \<Rightarrow> bool \<Rightarrow> u32 \<Rightarrow> u32" where
  "key_codepoint s sc shifted cp =
     (if \<not> km_layout s then cp
      else case map_of russian_keys sc of
        Some r \<Rightarrow> if shifted \<noteq> km_caps s then (if r = 0x451 then 0x401 else r - 0x20) else r
      | None \<Rightarrow>
          if sc = 0x35 then (if shifted then 0x2C else 0x2E)
          else if sc = 0x2B then (if shifted then 0x2F else 0x5C)
          else if shifted then
            (if sc = 3 then 0x22 else if sc = 4 then 0x2116 else if sc = 5 then 0x3B
             else if sc = 7 then 0x3A else if sc = 8 then 0x3F else cp)
          else cp)"

text \<open>The key and code point of a pressed key that is no modifier; \<open>None\<close> for no event.\<close>

definition feed_key :: "keymap \<Rightarrow> nat \<Rightarrow> bool \<Rightarrow> u32 \<Rightarrow> (int \<times> u32) option" where
  "feed_key s sc ext mods =
     (let key = navigation sc in
      if ext then
        let key = (if sc = 0x1C then 10 else key);
            (key, cp) = (if sc = 0x35 then (0x2F, 0x2F) else (key, 0))
        in if key = 0 then None else Some (key, cp)
      else if sc \<ge> 0x3B \<and> sc \<le> 0x44 then Some (0x90 + int (sc - 0x3B), 0)
      else if key \<noteq> 0 then Some (key, 0)
      else let lo = lower_keys ! sc in
        if lo = 0 then None
        else let shifted = (mods AND 1 \<noteq> 0);
                 up = (if lo \<ge> 0x61 \<and> lo \<le> 0x7A then shifted \<noteq> km_caps s else shifted);
                 k = (if up then upper_keys ! sc else lower_keys ! sc)
             in Some (int (unat k), key_codepoint s sc shifted (ucast k)))"

definition ctrl_fold :: "int \<Rightarrow> u32 \<Rightarrow> int" where
  "ctrl_fold key mods =
     (if mods AND 2 = 0 then key
      else if key \<ge> 0x61 \<and> key \<le> 0x7A then key - 0x61 + 1
      else if key \<ge> 0x41 \<and> key \<le> 0x5A then key - 0x41 + 1 else key)"

definition keymap_feed :: "keymap \<Rightarrow> u32 \<Rightarrow> keymap \<times> kbd_event option" where
  "keymap_feed s scan =
     (if scan > 255 \<or> scan = 0xFA \<or> scan = 0xFE \<or> scan = 0xEE \<or> scan = 0 \<or> scan = 0xFF then (s, None)
      else if km_skip s > 0 then (s\<lparr>km_skip := km_skip s - 1\<rparr>, None)
      else if scan = 0xE1 then (s\<lparr>km_skip := 5, km_extended := False\<rparr>, None)
      else if scan = 0xE0 then (s\<lparr>km_extended := True\<rparr>, None)
      else let ext = km_extended s; release = (scan AND 0x80 \<noteq> 0); sc = unat (scan AND 0x7F);
               s = s\<lparr>km_extended := False\<rparr>; b = modifier_bit sc ext in
        if b \<noteq> 0 then feed_modifier b release s
        else if release then (s, None)
        else let mods = keymap_modifiers s in
          (case feed_key s sc ext mods of
             None \<Rightarrow> (s, None)
           | Some (key, cp) \<Rightarrow>
               let physical = of_int key; key = ctrl_fold key mods;
                   cp = (if key < 32 \<or> key \<ge> 127 \<or> mods AND (2 OR 4) \<noteq> 0 then 0 else cp)
               in (s, Some \<lparr>ev_key = key, ev_codepoint = cp, ev_modifiers = mods, ev_physical = physical\<rparr>)))"

definition keymap_utf8 :: "u32 \<Rightarrow> u8 list" where
  "keymap_utf8 c =
     (if c = 0 \<or> c > 0x10FFFF \<or> (c \<ge> 0xD800 \<and> c \<le> 0xDFFF) then []
      else if c < 0x80 then [ucast c]
      else if c < 0x800 then [ucast (0xC0 OR drop_bit 6 c), ucast (0x80 OR (c AND 63))]
      else if c < 0x10000 then
        [ucast (0xE0 OR drop_bit 12 c), ucast (0x80 OR (drop_bit 6 c AND 63)), ucast (0x80 OR (c AND 63))]
      else [ucast (0xF0 OR drop_bit 18 c), ucast (0x80 OR (drop_bit 12 c AND 63)),
            ucast (0x80 OR (drop_bit 6 c AND 63)), ucast (0x80 OR (c AND 63))])"

section \<open>Encoding and decoding\<close>

lemma high_bits_clear:
  fixes c :: u32
  assumes "c < 2 ^ k" "k \<le> n"
  shows "\<not> bit c n"
proof (cases "n < 32")
  case True
  then have "k < 32" using assms(2) by simp
  then have "unat (of_nat (2 ^ k) :: u32) = 2 ^ k" using power_strict_increasing[of k 32 "2::nat"] by (intro unat_of_nat_u32) simp
  then have "unat c < 2 ^ k" using assms(1) by (simp add: word_less_nat_alt)
  also have "\<dots> \<le> 2 ^ n" using assms(2) by simp
  finally have "unat c div 2 ^ n = 0" by simp
  then have "\<not> bit (unat c) n" by (simp add: bit_iff_odd)
  then show ?thesis by (simp add: bit_unsigned_iff)
qed (auto dest: bit_imp_le_length)


lemma low_masks:
  "bit (0x1F :: int) n \<longleftrightarrow> n < 5" "bit (0x0F :: int) n \<longleftrightarrow> n < 4"
  "bit (0x07 :: int) n \<longleftrightarrow> n < 3" "bit (0x3F :: int) n \<longleftrightarrow> n < 6"
proof -
  have m: "(0x1F :: int) = mask 5" "(0x0F :: int) = mask 4" "(0x07 :: int) = mask 3"
    "(0x3F :: int) = mask 6" by (simp_all add: mask_eq_exp_minus_1)
  show "bit (0x1F :: int) n \<longleftrightarrow> n < 5" "bit (0x0F :: int) n \<longleftrightarrow> n < 4"
    "bit (0x07 :: int) n \<longleftrightarrow> n < 3" "bit (0x3F :: int) n \<longleftrightarrow> n < 6"
    unfolding m by (auto simp: bit_mask_iff)
qed

lemma byte_cases: "n < 8 \<Longrightarrow> n = 0 \<or> n = 1 \<or> n = 2 \<or> n = 3 \<or> n = 4 \<or> n = 5 \<or> n = 6 \<or> n = (7::nat)" by arith

lemma cont_byte: "(ucast (0x80 OR (c AND 63)) :: u8) AND 0xC0 = 0x80" for c :: u32
  apply (rule bit_word_eqI) apply (simp add: bit_simps) apply (drule byte_cases) apply (auto simp: bit_simps)
  done
lemma lead2: "c < 2 ^ 5 \<Longrightarrow> (ucast (0xC0 OR c) :: u8) AND 0xE0 = 0xC0" for c :: u32
  apply (rule bit_word_eqI) apply (simp add: bit_simps) apply (drule byte_cases) apply (auto simp: bit_simps high_bits_clear[where k=5])
  done

lemma lead3: "c < 2 ^ 4 \<Longrightarrow> (ucast (0xE0 OR c) :: u8) AND 0xF0 = 0xE0" for c :: u32
  apply (rule bit_word_eqI) apply (simp add: bit_simps) apply (drule byte_cases) apply (auto simp: bit_simps high_bits_clear[where k=4])
  done
lemma lead4: "c < 2 ^ 3 \<Longrightarrow> (ucast (0xF0 OR c) :: u8) AND 0xF8 = 0xF0" for c :: u32
  apply (rule bit_word_eqI) apply (simp add: bit_simps) apply (drule byte_cases) apply (auto simp: bit_simps high_bits_clear[where k=3])
  done
lemma high_marks:
  "n < 6 \<Longrightarrow> \<not> bit (0x80 :: int) n" "n < 5 \<Longrightarrow> \<not> bit (0xC0 :: int) n"
  "n < 4 \<Longrightarrow> \<not> bit (0xE0 :: int) n" "n < 3 \<Longrightarrow> \<not> bit (0xF0 :: int) n"
proof -
  have m: "(0x80 :: int) = push_bit 7 1" "(0xC0 :: int) = push_bit 6 3"
    "(0xE0 :: int) = push_bit 5 7" "(0xF0 :: int) = push_bit 4 15" by simp_all
  show "n < 6 \<Longrightarrow> \<not> bit (0x80 :: int) n" "n < 5 \<Longrightarrow> \<not> bit (0xC0 :: int) n"
  "n < 4 \<Longrightarrow> \<not> bit (0xE0 :: int) n" "n < 3 \<Longrightarrow> \<not> bit (0xF0 :: int) n"
    unfolding m by (auto simp only: bit_push_bit_iff)
qed

lemma bits_below:
  fixes c :: u32
  assumes "c < 2 ^ k" "bit c n" shows "n < k"
  using high_bits_clear[OF assms(1), of n] assms(2) by (metis not_less)

lemma low_part2: "c < 2 ^ 5 \<Longrightarrow> ucast ((ucast (0xC0 OR c) :: u8) AND 0x1F) = c" for c :: u32
proof (rule bit_word_eqI)
  fix n assume c: "c < 2 ^ 5" and n: "n < LENGTH(32)"
  show "bit (ucast ((ucast (0xC0 OR c) :: u8) AND 0x1F) :: u32) n \<longleftrightarrow> bit c n"
    using bits_below[OF c, of n] n by (auto simp: bit_simps low_masks high_marks)
qed

lemma low_part3: "c < 2 ^ 4 \<Longrightarrow> ucast ((ucast (0xE0 OR c) :: u8) AND 0x0F) = c" for c :: u32
proof (rule bit_word_eqI)
  fix n assume c: "c < 2 ^ 4" and n: "n < LENGTH(32)"
  show "bit (ucast ((ucast (0xE0 OR c) :: u8) AND 0x0F) :: u32) n \<longleftrightarrow> bit c n"
    using bits_below[OF c, of n] n by (auto simp: bit_simps low_masks high_marks)
qed

lemma low_part4: "c < 2 ^ 3 \<Longrightarrow> ucast ((ucast (0xF0 OR c) :: u8) AND 0x07) = c" for c :: u32
proof (rule bit_word_eqI)
  fix n assume c: "c < 2 ^ 3" and n: "n < LENGTH(32)"
  show "bit (ucast ((ucast (0xF0 OR c) :: u8) AND 0x07) :: u32) n \<longleftrightarrow> bit c n"
    using bits_below[OF c, of n] n by (auto simp: bit_simps low_masks high_marks)
qed

lemma six_bits: "push_bit 6 (drop_bit 6 c) OR (ucast (ucast (0x80 OR (c AND 63)) :: u8) AND 0x3F) = c" for c :: u32
proof (rule bit_word_eqI)
  fix n assume n: "n < LENGTH(32)"
  show "bit (push_bit 6 (drop_bit 6 c) OR (ucast (ucast (0x80 OR (c AND 63)) :: u8) AND 0x3F)) n \<longleftrightarrow> bit c n"
    using n by (cases "n < 6") (auto simp: bit_simps low_masks high_marks not_less)
qed

lemma drop_small:
  fixes c :: u32
  assumes "unat c < 2 ^ (k + m)" "m < 32"
  shows "drop_bit k c < 2 ^ m"
proof -
  have "unat (of_nat (2 ^ m) :: u32) = 2 ^ m"
    using assms(2) power_strict_increasing[of m 32 "2::nat"] by (intro unat_of_nat_u32) simp
  moreover have "unat c div 2 ^ k < 2 ^ m"
    using assms(1) by (simp add: less_mult_imp_div_less power_add mult.commute)
  moreover have "unat (drop_bit k c) = unat c div 2 ^ k" unfolding unat_drop_bit_eq by (simp add: drop_bit_eq_div)
  ultimately show ?thesis by (simp only: word_less_nat_alt) simp
qed

lemma ascii_table:
  "\<forall>v\<in>set [0..<128]. (ucast (of_nat v :: u32) :: u8) AND 0xE0 \<noteq> 0xC0 \<and> (ucast (of_nat v :: u32) :: u8) AND 0xF0 \<noteq> 0xE0
     \<and> (ucast (of_nat v :: u32) :: u8) AND 0xF8 \<noteq> 0xF0 \<and> (ucast (of_nat v :: u32) :: u8) AND 0xC0 \<noteq> 0x80 
     \<and> (ucast (ucast (of_nat v :: u32) :: u8) :: u32) = of_nat v"
  by code_simp

lemma narrow_lead:
  fixes b :: u8
  shows "b AND 0xF0 = 0xE0 \<Longrightarrow> b AND 0xE0 \<noteq> 0xC0"
    "b AND 0xF8 = 0xF0 \<Longrightarrow> b AND 0xE0 \<noteq> 0xC0" "b AND 0xF8 = 0xF0 \<Longrightarrow> b AND 0xF0 \<noteq> 0xE0"
    "b AND 0xE0 = 0xC0 \<Longrightarrow> b AND 0xC0 \<noteq> 0x80"
    "b AND 0xF0 = 0xE0 \<Longrightarrow> b AND 0xC0 \<noteq> 0x80" "b AND 0xF8 = 0xF0 \<Longrightarrow> b AND 0xC0 \<noteq> 0x80"
proof -
  have m: "b AND 0xE0 = (b AND 0xF0) AND 0xE0" "b AND 0xE0 = (b AND 0xF8) AND 0xE0"
    "b AND 0xF0 = (b AND 0xF8) AND 0xF0" "b AND 0xC0 = (b AND 0xE0) AND 0xC0"
    "b AND 0xC0 = (b AND 0xF0) AND 0xC0" "b AND 0xC0 = (b AND 0xF8) AND 0xC0"
    by (simp_all add: and.assoc)
  show "b AND 0xF0 = 0xE0 \<Longrightarrow> b AND 0xE0 \<noteq> 0xC0" unfolding m(1) by simp
  show "b AND 0xF8 = 0xF0 \<Longrightarrow> b AND 0xE0 \<noteq> 0xC0" unfolding m(2) by simp
  show "b AND 0xF8 = 0xF0 \<Longrightarrow> b AND 0xF0 \<noteq> 0xE0" unfolding m(3) by simp
  show "b AND 0xE0 = 0xC0 \<Longrightarrow> b AND 0xC0 \<noteq> 0x80" unfolding m(4) by simp
  show "b AND 0xF0 = 0xE0 \<Longrightarrow> b AND 0xC0 \<noteq> 0x80" unfolding m(5) by simp
  show "b AND 0xF8 = 0xF0 \<Longrightarrow> b AND 0xC0 \<noteq> 0x80" unfolding m(6) by simp
qed

definition encodable :: "u32 \<Rightarrow> bool" where
  "encodable c \<longleftrightarrow> c \<noteq> 0 \<and> c \<le> 0x10FFFF \<and> \<not> (0xD800 \<le> c \<and> c \<le> 0xDFFF)"

lemma utf8_shape:
  assumes "encodable c"
  obtains (one) "c < 0x80" "keymap_utf8 c = [ucast c]"
  | (two) "drop_bit 6 c < 2 ^ 5" "keymap_utf8 c = [ucast (0xC0 OR drop_bit 6 c), ucast (0x80 OR (c AND 63))]"
  | (three) "drop_bit 12 c < 2 ^ 4" "keymap_utf8 c = [ucast (0xE0 OR drop_bit 12 c),
        ucast (0x80 OR (drop_bit 6 c AND 63)), ucast (0x80 OR (c AND 63))]"
  | (four) "drop_bit 18 c < 2 ^ 3" "keymap_utf8 c = [ucast (0xF0 OR drop_bit 18 c), ucast (0x80 OR (drop_bit 12 c AND 63)),
            ucast (0x80 OR (drop_bit 6 c AND 63)), ucast (0x80 OR (c AND 63))]"
proof -
  have ok: "\<not> (c = 0 \<or> c > 0x10FFFF \<or> (c \<ge> 0xD800 \<and> c \<le> 0xDFFF))"
    using assms by (auto simp: encodable_def not_less)
  have "unat c \<le> 0x10FFFF" using ok by (simp add: word_less_nat_alt not_less)
  then have "drop_bit 18 c < 2 ^ 3" by (intro drop_small) simp_all
  moreover have "drop_bit 12 c < 2 ^ 4" if "c < 0x10000"
    using that by (intro drop_small) (simp_all add: word_less_nat_alt)
  moreover have "drop_bit 6 c < 2 ^ 5" if "c < 0x800"
    using that by (intro drop_small) (simp_all add: word_less_nat_alt)
  ultimately show thesis
    using ok one two three four
    by (cases "c < 0x80"; cases "c < 0x800"; cases "c < 0x10000") (simp_all add: keymap_utf8_def)
qed

lemma utf8_next_encoded:
  assumes "encodable c"
  shows "utf8_next (keymap_utf8 c @ r) = (c, r)"
  using assms
proof (cases rule: utf8_shape)
  case one
  obtain v where v: "c = of_nat v" "v < 128"
    using one(1) that[of "unat c"] by (simp add: word_less_nat_alt)
  then show ?thesis using one(2) ascii_table by (simp add: utf8_next_def)
next
  case two
  then show ?thesis using six_bits[of c]
    by (simp add: utf8_next_def lead2 cont_byte low_part2 numeral_eq_Suc)
next
  case three
  then show ?thesis using six_bits[of c] six_bits[of "drop_bit 6 c"] narrow_lead(1)[OF lead3[OF three(1)]]
    by (simp add: utf8_next_def lead3 cont_byte low_part3 numeral_2_eq_2)
next
  case four
  then show ?thesis
    using six_bits[of c] six_bits[of "drop_bit 6 c"] six_bits[of "drop_bit 12 c"]
      narrow_lead(2,3)[OF lead4[OF four(1)]]
    by (simp add: utf8_next_def lead4 cont_byte low_part4 numeral_3_eq_3)
qed

lemma utf8_nonempty: "encodable c \<Longrightarrow> keymap_utf8 c \<noteq> []"
  by (erule utf8_shape) auto

lemma utf8_one_lead:
  assumes "encodable c"
  shows "length (filter (\<lambda>b. b AND 0xC0 \<noteq> 0x80) (keymap_utf8 c)) = 1"
  using assms
proof (cases rule: utf8_shape)
  case one
  obtain v where v: "c = of_nat v" "v < 128"
    using one(1) that[of "unat c"] by (simp add: word_less_nat_alt)
  then show ?thesis using one(2) ascii_table by simp
next
  case two
  show ?thesis using narrow_lead(4)[OF lead2[OF two(1)]] by (simp add: two(2) cont_byte)
next
  case three
  show ?thesis using narrow_lead(5)[OF lead3[OF three(1)]] by (simp add: three(2) cont_byte)
next
  case four
  show ?thesis using narrow_lead(6)[OF lead4[OF four(1)]] by (simp add: four(2) cont_byte)
qed

lemma utf8_no_nul:
  assumes "encodable c"
  shows "0 \<notin> set (keymap_utf8 c)"
proof
  assume z: "0 \<in> set (keymap_utf8 c)"
  have c0: "c \<noteq> 0" using assms by (simp add: encodable_def)
  show False using assms
  proof (cases rule: utf8_shape)
    case one
    then show False using z c0 utf8_next_encoded[OF assms, of "[]"] by (simp add: utf8_next_def)
  next
    case two
    show False using lead2[OF two(1)] z cont_byte[of c] by (auto simp: two(2))
  next
    case three
    show False using lead3[OF three(1)] z cont_byte[of c] cont_byte[of "drop_bit 6 c"] by (auto simp: three(2))
  next
    case four
    show False using lead4[OF four(1)] z cont_byte[of c] cont_byte[of "drop_bit 6 c"]
        cont_byte[of "drop_bit 12 c"] by (auto simp: four(2))
  qed
qed

text \<open>C12. Text typed on the keyboard is read back as typed: the bytes that \<^verbatim>\<open>keymap_utf8\<close> emits for
  a sequence of Unicode scalar values contain no NUL, \<^verbatim>\<open>utf8_next\<close> reads from them exactly that
  sequence, and \<^verbatim>\<open>utf8_len\<close> counts its characters.\<close>

theorem typed_text_roundtrip:
  assumes "\<forall>c\<in>set cs. encodable c"
  shows "utf8_decode (concat (map keymap_utf8 cs)) = cs \<and> utf8_len (concat (map keymap_utf8 cs)) = length cs
    \<and> 0 \<notin> set (concat (map keymap_utf8 cs))"
  using assms
proof (induction cs)
  case (Cons c cs)
  then have e: "encodable c" by simp
  obtain b s where b: "keymap_utf8 c = b # s" using utf8_nonempty[OF e] by (cases "keymap_utf8 c") auto
  have "utf8_next (b # s @ concat (map keymap_utf8 cs)) = (c, concat (map keymap_utf8 cs))"
    using utf8_next_encoded[OF e, of "concat (map keymap_utf8 cs)"] by (simp add: b)
  then have "utf8_decode (concat (map keymap_utf8 (c # cs))) = c # cs"
    using Cons by (simp add: b)
  then show ?case using Cons utf8_one_lead[OF e] utf8_no_nul[OF e] by (simp add: utf8_len_def)
qed (simp add: utf8_len_def)

lemma typed_text_roundtrip_witness:
  "utf8_decode (concat (map keymap_utf8 [0x48, 0x44F, 0x20AC, 0x1F600])) = [0x48, 0x44F, 0x20AC, 0x1F600]"
  using typed_text_roundtrip[of "[0x48, 0x44F, 0x20AC, 0x1F600]"] by (simp add: encodable_def)

section \<open>The keyboard over a sequence of scan codes\<close>

text \<open>A run of the keyboard state machine over a sequence of scan codes, with its events.\<close>

fun keymap_run :: "keymap \<Rightarrow> u32 list \<Rightarrow> keymap \<times> kbd_event list" where
  "keymap_run s [] = (s, [])"
| "keymap_run s (x # xs) = (case keymap_feed s x of (s', e) \<Rightarrow>
     (case keymap_run s' xs of (s'', es) \<Rightarrow> (s'', (case e of Some v \<Rightarrow> [v] | None \<Rightarrow> []) @ es)))"

definition keymap_ok :: "keymap \<Rightarrow> bool" where
  "keymap_ok s \<longleftrightarrow> km_skip s \<le> 5 \<and> km_pressed s AND 127 = km_pressed s
     \<and> km_combo s = (keymap_modifiers s AND 5 = 5)"

text \<open>An event carries text only for a printing key pressed without control or alt.\<close>

definition event_ok :: "kbd_event \<Rightarrow> bool" where
  "event_ok e \<longleftrightarrow> ev_modifiers e AND 7 = ev_modifiers e \<and>
     (ev_codepoint e \<noteq> 0 \<longrightarrow> encodable (ev_codepoint e) \<and> 32 \<le> ev_key e \<and> ev_key e < 127
        \<and> ev_modifiers e AND 6 = 0)"

lemma low_encodable: "c \<noteq> 0 \<Longrightarrow> c < 0xD800 \<Longrightarrow> encodable c"
  by (auto simp: encodable_def word_less_nat_alt word_le_nat_alt)

lemma russian_table:
  "\<forall>(k, r)\<in>set russian_keys. r \<noteq> 0 \<and> r < 0xD800 \<and> r - 0x20 \<noteq> 0 \<and> r - 0x20 < 0xD800"
  by code_simp

lemma latin_table:
  "\<forall>i\<in>set [0..<128]. lower_keys ! i \<noteq> 0 \<longrightarrow>
     upper_keys ! i \<noteq> 0 \<and> (ucast (lower_keys ! i) :: u32) < 0xD800 \<and> (ucast (lower_keys ! i) :: u32) \<noteq> 0
     \<and> (ucast (upper_keys ! i) :: u32) < 0xD800 \<and> (ucast (upper_keys ! i) :: u32) \<noteq> 0"
  by code_simp

lemma key_codepoint_low:
  assumes "cp \<noteq> 0" "cp < 0xD800"
  shows "encodable (key_codepoint s sc sh cp)"
proof (cases "map_of russian_keys sc")
  case None
  then show ?thesis using assms by (auto simp: key_codepoint_def intro!: low_encodable)
next
  case (Some r)
  then have "(sc, r) \<in> set russian_keys" by (rule map_of_SomeD)
  then have "r \<noteq> 0 \<and> r < 0xD800 \<and> r - 0x20 \<noteq> 0 \<and> r - 0x20 < 0xD800" using russian_table by blast
  then show ?thesis using Some assms by (auto simp: key_codepoint_def intro!: low_encodable)
qed

lemma feed_key_codepoint:
  assumes "feed_key s sc ext mods = Some (key, cp)" "sc < 128"
  shows "cp = 0 \<or> encodable cp"
proof -
  have t: "lower_keys ! sc \<noteq> 0 \<longrightarrow>
     upper_keys ! sc \<noteq> 0 \<and> (ucast (lower_keys ! sc) :: u32) < 0xD800 \<and> (ucast (lower_keys ! sc) :: u32) \<noteq> 0
     \<and> (ucast (upper_keys ! sc) :: u32) < 0xD800 \<and> (ucast (upper_keys ! sc) :: u32) \<noteq> 0"
    using bspec[OF latin_table, of sc] assms(2) by simp
  have e: "encodable 0x2F" by (simp add: encodable_def)
  show ?thesis
    using assms(1) t e by (auto simp: feed_key_def Let_def split: if_splits intro!: key_codepoint_low)
qed

lemma modifiers_7: "keymap_modifiers s AND 7 = keymap_modifiers s"
  by (simp add: keymap_modifiers_def)

lemma modifiers_pressed [simp]:
  "keymap_modifiers (s\<lparr>km_combo := b\<rparr>) = keymap_modifiers s"
  "keymap_modifiers (s\<lparr>km_layout := b\<rparr>) = keymap_modifiers s"
  "keymap_modifiers (s\<lparr>km_caps := b\<rparr>) = keymap_modifiers s"
  "keymap_modifiers (s\<lparr>km_extended := b\<rparr>) = keymap_modifiers s"
  "keymap_modifiers (s\<lparr>km_skip := n\<rparr>) = keymap_modifiers s"
  by (simp_all add: keymap_modifiers_def)

lemma modifier_bit_127: "modifier_bit sc ext AND 127 = modifier_bit sc ext"
  by (simp add: modifier_bit_def)

lemma feed_modifier_ok:
  assumes "keymap_ok s" "b AND 127 = b" "feed_modifier b rel s = (s', e)"
  shows "keymap_ok s' \<and> (\<forall>v. e = Some v \<longrightarrow> event_ok v)"
proof -
  have m: "(km_pressed s AND NOT b) AND 127 = km_pressed s AND NOT b"
    "(km_pressed s OR b) AND 127 = km_pressed s OR b"
    using assms(1,2) unfolding keymap_ok_def
    by (simp_all add: and.assoc and.commute[of "NOT b"] and.left_commute bit.conj_disj_distrib2)
       (metis and.assoc)
  show ?thesis
    using assms(1,3) m
    by (auto simp: feed_modifier_def Let_def keymap_ok_def event_ok_def modifiers_7 split: if_splits)
qed

lemma keymap_feed_ok:
  assumes "keymap_ok s" "keymap_feed s x = (s', e)"
  shows "keymap_ok s' \<and> (\<forall>v. e = Some v \<longrightarrow> event_ok v)"
proof -
  consider (quiet) "e = None" "keymap_modifiers s' = keymap_modifiers s" "km_pressed s' = km_pressed s"
      "km_combo s' = km_combo s" "km_skip s' \<le> 5"
    | (mod) "feed_modifier (modifier_bit (unat (x AND 0x7F)) (km_extended s)) (x AND 0x80 \<noteq> 0)
         (s\<lparr>km_extended := False\<rparr>) = (s', e)"
    | (key) key cp where "s' = s\<lparr>km_extended := False\<rparr>"
        "feed_key (s\<lparr>km_extended := False\<rparr>) (unat (x AND 0x7F)) (km_extended s) (keymap_modifiers s) = Some (key, cp)"
        "e = Some \<lparr>ev_key = ctrl_fold key (keymap_modifiers s),
           ev_codepoint = (if ctrl_fold key (keymap_modifiers s) < 32 \<or> ctrl_fold key (keymap_modifiers s) \<ge> 127
               \<or> keymap_modifiers s AND (2 OR 4) \<noteq> 0 then 0 else cp),
           ev_modifiers = keymap_modifiers s, ev_physical = of_int key\<rparr>"
    using assms unfolding keymap_feed_def keymap_ok_def
    by (simp add: Let_def split: if_splits option.splits prod.splits) (auto split: if_splits)
  then show ?thesis
  proof cases
    case quiet then show ?thesis using assms(1) by (simp add: keymap_ok_def)
  next
    case mod
    then show ?thesis
      using feed_modifier_ok[OF _ modifier_bit_127 mod] assms(1) by (simp add: keymap_ok_def)
  next
    case key
    have "unat (x AND 0x7F) < 128"
    proof -
      have "x AND 0x7F \<le> 0x7F" by (rule word_and_le1)
      then show ?thesis by (simp add: word_le_nat_alt)
    qed
    then show ?thesis
      using feed_key_codepoint[OF key(2)] key(1,3) assms(1)
      by (auto simp: event_ok_def keymap_ok_def modifiers_7 split: if_splits)
  qed
qed

text \<open>The keyboard state machine stays well formed over any sequence of scan codes: the pause
  counter is at most 5, the modifier bits are the seven it knows, the layout-switch latch is set
  exactly while Alt and Shift are both held; and an event carries text only for a printing key
  pressed without control or alt, and then a code point that \<^verbatim>\<open>keymap_utf8\<close> can encode.\<close>

theorem keymap_events_wellformed:
  "keymap_ok (fst (keymap_run keymap_init xs)) \<and> list_all event_ok (snd (keymap_run keymap_init xs))"
proof -
  have "keymap_ok s \<Longrightarrow> keymap_ok (fst (keymap_run s xs)) \<and> list_all event_ok (snd (keymap_run s xs))" for s
  proof (induction xs arbitrary: s)
    case (Cons x xs)
    obtain s' e where f: "keymap_feed s x = (s', e)" by (cases "keymap_feed s x")
    show ?case
      using keymap_feed_ok[OF Cons.prems f] Cons.IH[of s'] by (auto simp: f split: prod.splits option.splits)
  qed simp
  then show ?thesis by (simp add: keymap_ok_def keymap_init_def keymap_modifiers_def)
qed

end
