(* ===== verification/Heap.thy ===== *)
theory Heap
  imports KV_Base
begin

text \<open>
  The kernel heap of \<^verbatim>\<open>kernel/heap.c\<close>: a doubly linked list of blocks laid out back to
  back, allocated first-fit with splitting and freed with coalescing. Block headers live in a
  memory addressed by numbers (the heap ends below 4 GiB, so addresses do not wrap) and \<open>H\<close>
  is \<^verbatim>\<open>sizeof(block_t)\<close>, 20 bytes on i386 and 32 on x86-64. A header that leaves the list
  stays in memory, as in the code. A loop over the list is a partial function: \<open>None\<close> is not
  returning.
\<close>

record block =
  bk_magic :: u32
  bk_size :: u32
  bk_next :: nat
  bk_prev :: nat
  bk_free :: bool

record heap =
  hp_mem :: "nat \<Rightarrow> block"
  hp_bytes :: "nat \<Rightarrow> u8"
  hp_head :: nat
  hp_total :: u32
  hp_used :: u32
  hp_start :: u32
  hp_end :: u32

definition MAGIC_USED :: u32 where "MAGIC_USED = 0xC0FFEE01"
definition MAGIC_FREE :: u32 where "MAGIC_FREE = 0xC0FFEE02"

definition align8 :: "u32 \<Rightarrow> u32" where
  "align8 x = (x + 7) AND NOT 7"

definition heap_init :: "u32 \<Rightarrow> u32 \<Rightarrow> u32 \<Rightarrow> heap \<Rightarrow> heap" where
  "heap_init H start sz h =
     h\<lparr>hp_mem := (hp_mem h)(unat start := \<lparr>bk_magic = MAGIC_FREE, bk_size = sz - H, bk_next = 0, bk_prev = 0, bk_free = True\<rparr>),
       hp_head := unat start, hp_total := sz, hp_used := H, hp_start := start, hp_end := start + sz\<rparr>"

text \<open>\<^verbatim>\<open>split\<close>: the headers and the amount by which \<^verbatim>\<open>heap_used\<close> grows.\<close>

definition split_block :: "u32 \<Rightarrow> nat \<Rightarrow> u32 \<Rightarrow> (nat \<Rightarrow> block) \<Rightarrow> (nat \<Rightarrow> block) \<times> u32" where
  "split_block H b sz m =
     (if bk_size (m b) < sz + H + 16 then (m, 0)
      else
        let n = b + unat H + unat sz;
            m = m(n := \<lparr>bk_magic = MAGIC_FREE, bk_size = bk_size (m b) - sz - H,
                        bk_next = bk_next (m b), bk_prev = b, bk_free = True\<rparr>);
            m = (if bk_next (m b) \<noteq> 0
                 then m(bk_next (m b) := (m (bk_next (m b)))\<lparr>bk_prev := n\<rparr>) else m);
            m = m(b := (m b)\<lparr>bk_next := n, bk_size := sz\<rparr>)
        in (m, H))"

text \<open>The search of \<^verbatim>\<open>kmalloc\<close>; \<open>0\<close> is \<^verbatim>\<open>NULL\<close>.\<close>

partial_function (option) find_fit :: "(nat \<Rightarrow> block) \<Rightarrow> u32 \<Rightarrow> nat \<Rightarrow> nat option" where
  "find_fit m sz b =
     (if b = 0 then Some 0
      else if bk_free (m b) \<and> bk_size (m b) \<ge> sz then Some b
      else find_fit m sz (bk_next (m b)))"

declare find_fit.simps [code]

definition take_block :: "u32 \<Rightarrow> u32 \<Rightarrow> nat \<Rightarrow> heap \<Rightarrow> heap" where
  "take_block H sz b h =
     (case split_block H b sz (hp_mem h) of (m, grown) \<Rightarrow>
        let m = m(b := (m b)\<lparr>bk_free := False, bk_magic := MAGIC_USED\<rparr>)
        in h\<lparr>hp_mem := m, hp_used := hp_used h + grown + bk_size (m b)\<rparr>)"

definition kmalloc :: "u32 \<Rightarrow> u32 \<Rightarrow> heap \<Rightarrow> (heap \<times> nat) option" where
  "kmalloc H sz h =
     (if sz = 0 \<or> sz > 0xFFFFFFF0 then Some (h, 0)
      else let sz = align8 sz in
        if sz > hp_total h then Some (h, 0)
        else (case find_fit (hp_mem h) sz (hp_head h) of
                None \<Rightarrow> None
              | Some b \<Rightarrow> if b = 0 then Some (h, 0) else Some (take_block H sz b h, b + unat H)))"

definition fill_bytes :: "nat \<Rightarrow> u8 list \<Rightarrow> (nat \<Rightarrow> u8) \<Rightarrow> nat \<Rightarrow> u8" where
  "fill_bytes p bs f a = (if p \<le> a \<and> a < p + length bs then bs ! (a - p) else f a)"

definition kcalloc :: "u32 \<Rightarrow> u32 \<Rightarrow> u32 \<Rightarrow> heap \<Rightarrow> (heap \<times> nat) option" where
  "kcalloc H n sz h =
     (if n \<noteq> 0 \<and> sz \<noteq> 0 \<and> n > 0xFFFFFFFF div sz then Some (h, 0)
      else (case kmalloc H (n * sz) h of
              None \<Rightarrow> None
            | Some (h, p) \<Rightarrow>
                Some (if p \<noteq> 0
                      then h\<lparr>hp_bytes := fill_bytes p (replicate (unat (n * sz)) 0) (hp_bytes h)\<rparr> else h, p)))"

definition kstrdup :: "u32 \<Rightarrow> cstring \<Rightarrow> heap \<Rightarrow> (heap \<times> nat) option" where
  "kstrdup H s h =
     (case kmalloc H (of_nat (length s) + 1) h of
        None \<Rightarrow> None
      | Some (h, p) \<Rightarrow>
          Some (if p \<noteq> 0 then h\<lparr>hp_bytes := fill_bytes p (s @ [0]) (hp_bytes h)\<rparr> else h, p))"

text \<open>\<^verbatim>\<open>merge\<close> with the amount it takes off \<^verbatim>\<open>heap_used\<close>.\<close>

partial_function (option) merge_blocks :: "u32 \<Rightarrow> nat \<Rightarrow> (nat \<Rightarrow> block) \<times> u32 \<Rightarrow> ((nat \<Rightarrow> block) \<times> u32) option" where
  "merge_blocks H b s =
     (case s of (m, used) \<Rightarrow>
       if bk_next (m b) \<noteq> 0 \<and> bk_free (m (bk_next (m b))) then
         let n = bk_next (m b);
             m = m(b := (m b)\<lparr>bk_size := bk_size (m b) + (bk_size (m n) + H)\<rparr>);
             m = m(b := (m b)\<lparr>bk_next := bk_next (m n)\<rparr>);
             m = (if bk_next (m n) \<noteq> 0 then m(bk_next (m n) := (m (bk_next (m n)))\<lparr>bk_prev := b\<rparr>) else m)
         in merge_blocks H b (m, used - H)
       else Some (m, used))"

declare merge_blocks.simps [code]

definition kfree :: "u32 \<Rightarrow> nat \<Rightarrow> heap \<Rightarrow> heap option" where
  "kfree H p h =
     (if p = 0 then Some h
      else let b = p - unat H in
        if bk_magic (hp_mem h b) \<noteq> MAGIC_USED then Some h
        else let m = (hp_mem h)(b := (hp_mem h b)\<lparr>bk_free := True, bk_magic := MAGIC_FREE\<rparr>) in
          (case merge_blocks H b (m, hp_used h - bk_size (m b)) of
             None \<Rightarrow> None
           | Some (m, used) \<Rightarrow>
               (case (if bk_prev (m b) \<noteq> 0 \<and> bk_free (m (bk_prev (m b)))
                      then merge_blocks H (bk_prev (m b)) (m, used) else Some (m, used)) of
                  None \<Rightarrow> None
                | Some (m, used) \<Rightarrow> Some (h\<lparr>hp_mem := m, hp_used := used\<rparr>))))"

text \<open>The walk of \<^verbatim>\<open>heap_stats\<close>, which stops at the first block that looks wrong.\<close>

partial_function (option) stats_walk :: "u32 \<Rightarrow> heap \<Rightarrow> nat \<Rightarrow> nat \<Rightarrow> nat option" where
  "stats_walk H h b n =
     (if b = 0 then Some n
      else let a = (of_nat b :: u32) in
        if a < hp_start h \<or> a + H > hp_end h \<or> a AND 7 \<noteq> 0
           \<or> (bk_magic (hp_mem h b) \<noteq> MAGIC_USED \<and> bk_magic (hp_mem h b) \<noteq> MAGIC_FREE) then Some n
        else let nx = (of_nat (bk_next (hp_mem h b)) :: u32) in
          if bk_next (hp_mem h b) \<noteq> 0 \<and> (nx \<le> a \<or> nx > hp_end h - H \<or> nx AND 7 \<noteq> 0) then Some (n + 1)
          else stats_walk H h (bk_next (hp_mem h b)) (n + 1))"

declare stats_walk.simps [code]

definition heap_stats :: "u32 \<Rightarrow> heap \<Rightarrow> (u32 \<times> u32 \<times> nat) option" where
  "heap_stats H h = map_option (\<lambda>n. (hp_total h, hp_used h, n)) (stats_walk H h (hp_head h) 0)"

end
