(* ===== verification/Heap_Inv.thy ===== *)
theory Heap_Inv
  imports Heap
begin

text \<open>
  The invariant of the heap and its preservation. A segment of the heap is a list of block
  addresses laid out back to back and linked both ways; the invariant says that the whole heap
  is one segment with no two free neighbours and that \<^verbatim>\<open>heap_used\<close> is the exact account.
\<close>

section \<open>Segments\<close>

definition block_ok :: "block \<Rightarrow> bool" where
  "block_ok b \<longleftrightarrow> bk_magic b = (if bk_free b then MAGIC_FREE else MAGIC_USED)"

definition after :: "u32 \<Rightarrow> (nat \<Rightarrow> block) \<Rightarrow> nat \<Rightarrow> nat" where
  "after H m x = x + unat H + unat (bk_size (m x))"

fun seg :: "u32 \<Rightarrow> (nat \<Rightarrow> block) \<Rightarrow> nat \<Rightarrow> nat \<Rightarrow> nat \<Rightarrow> nat \<Rightarrow> nat list \<Rightarrow> bool" where
  "seg H m p a z e [] \<longleftrightarrow> a = e"
| "seg H m p a z e (x # xs) \<longleftrightarrow>
     x = a \<and> bk_prev (m x) = p \<and> bk_next (m x) = (case xs of [] \<Rightarrow> z | y # _ \<Rightarrow> y)
     \<and> block_ok (m x) \<and> seg H m x (after H m x) z e xs"

definition hd_or :: "nat list \<Rightarrow> nat \<Rightarrow> nat" where
  "hd_or xs z = (case xs of [] \<Rightarrow> z | y # _ \<Rightarrow> y)"

definition last_or :: "nat \<Rightarrow> nat list \<Rightarrow> nat" where
  "last_or p xs = (if xs = [] then p else last xs)"

lemma hd_or_simps [simp]: "hd_or [] z = z" "hd_or (x # xs) z = x"
  by (simp_all add: hd_or_def)

lemma last_or_simps [simp]: "last_or p [] = p" "last_or p (x # xs) = last_or x xs" "last_or p (xs @ [x]) = x"
  by (auto simp: last_or_def)

lemma seg_Cons: "seg H m p a z e (x # xs) \<longleftrightarrow>
    x = a \<and> bk_prev (m x) = p \<and> bk_next (m x) = hd_or xs z \<and> block_ok (m x) \<and> seg H m x (after H m x) z e xs"
  by (simp add: hd_or_def)

declare seg.simps(2) [simp del]

lemma seg_append:
  "seg H m p a z e (l @ r) \<longleftrightarrow> (\<exists>mid. seg H m p a (hd_or r z) mid l \<and> seg H m (last_or p l) mid z e r)"
proof (induction l arbitrary: p a)
  case (Cons x l)
  have "hd_or (l @ r) z = hd_or l (hd_or r z)" by (cases l) auto
  then show ?case using Cons by (auto simp: seg_Cons)
qed simp

lemma seg_bounds:
  "seg H m p a z e xs \<Longrightarrow> a \<le> e \<and> (\<forall>x\<in>set xs. a \<le> x \<and> after H m x \<le> e)"
proof (induction xs arbitrary: p a)
  case (Cons x xs)
  then have "seg H m x (after H m x) z e xs" "x = a" by (auto simp: seg_Cons)
  then show ?case using Cons.IH[of x "after H m x"] by (auto simp: after_def)
qed simp

lemma seg_cong:
  "(\<And>x. x \<in> set xs \<Longrightarrow> m' x = m x) \<Longrightarrow> seg H m p a z e xs \<Longrightarrow> seg H m' p a z e xs"
  by (induction xs arbitrary: p a) (auto simp: seg_Cons after_def)

lemma seg_last_next:
  "seg H m p a z e (l @ [x]) \<Longrightarrow> seg H (m(x := (m x)\<lparr>bk_next := z'\<rparr>)) p a z' e (l @ [x])"
  if "0 < H"
proof -
  assume s: "seg H m p a z e (l @ [x])"
  then obtain mid where l: "seg H m p a x mid l" and x: "seg H m (last_or p l) mid z e [x]"
    by (auto simp: seg_append)
  have "\<forall>y\<in>set l. y \<noteq> x"
    using seg_bounds[OF l] x that by (auto simp: seg_Cons after_def word_less_nat_alt)
  then have "seg H (m(x := (m x)\<lparr>bk_next := z'\<rparr>)) p a x mid l"
    by (intro seg_cong[OF _ l]) auto
  moreover have "seg H (m(x := (m x)\<lparr>bk_next := z'\<rparr>)) (last_or p l) mid z' e [x]"
    using x by (auto simp: seg_Cons after_def block_ok_def)
  ultimately show ?thesis by (auto simp: seg_append)
qed

lemma seg_head_prev:
  assumes "seg H m p a z e (x # xs)" "0 < H"
  shows "seg H (m(x := (m x)\<lparr>bk_prev := p'\<rparr>)) p' a z e (x # xs)"
proof -
  have r: "seg H m x (after H m x) z e xs" using assms(1) by (auto simp: seg_Cons)
  have "\<forall>y\<in>set xs. y \<noteq> x"
    using seg_bounds[OF r] assms(2) by (auto simp: after_def word_less_nat_alt)
  then have "seg H (m(x := (m x)\<lparr>bk_prev := p'\<rparr>)) x (after H m x) z e xs"
    by (intro seg_cong[OF _ r]) auto
  then show ?thesis using assms(1) by (auto simp: seg_Cons after_def block_ok_def)
qed

lemma seg_distinct:
  assumes "0 < H" "seg H m p a z e xs" shows "distinct xs"
  using assms(2)
proof (induction xs arbitrary: p a)
  case (Cons x xs)
  then have r: "seg H m x (after H m x) z e xs" by (auto simp: seg_Cons)
  have "x \<notin> set xs" using seg_bounds[OF r] assms(1) by (auto simp: after_def word_less_nat_alt)
  then show ?case using Cons.IH[OF r] by simp
qed simp

lemma seg_pos: "seg H m p a z e xs \<Longrightarrow> 0 < a \<Longrightarrow> \<forall>x\<in>set xs. 0 < x"
  using seg_bounds by fastforce

section \<open>The search\<close>

lemma find_fit_seg:
  assumes "seg H m p a 0 e xs" "0 < a"
  shows "find_fit m sz (hd_or xs 0)
    = Some (case find (\<lambda>x. bk_free (m x) \<and> bk_size (m x) \<ge> sz) xs of None \<Rightarrow> 0 | Some x \<Rightarrow> x)"
  using assms
proof (induction xs arbitrary: p a)
  case Nil
  show ?case by (simp add: find_fit.simps)
next
  case (Cons x xs)
  then have r: "seg H m x (after H m x) 0 e xs" and x: "0 < x" "bk_next (m x) = hd_or xs 0"
    by (auto simp: seg_Cons)
  show ?case
    using Cons.IH[OF r] x by (subst find_fit.simps) (auto simp: after_def)
qed

section \<open>The invariant\<close>

text \<open>What a block costs: its header, and its body when it is in use.\<close>

definition cost :: "u32 \<Rightarrow> (nat \<Rightarrow> block) \<Rightarrow> nat \<Rightarrow> nat" where
  "cost H m x = unat H + (if bk_free (m x) then 0 else unat (bk_size (m x)))"

definition heap_inv :: "u32 \<Rightarrow> heap \<Rightarrow> nat list \<Rightarrow> bool" where
  "heap_inv H h xs \<longleftrightarrow>
     0 < H \<and> 0 < unat (hp_start h) \<and> hp_head h = unat (hp_start h) \<and> xs \<noteq> [] \<and>
     unat (hp_start h) + unat (hp_total h) < 2 ^ 31 \<and> H \<le> 64 \<and>
     hp_end h = hp_start h + hp_total h \<and>
     seg H (hp_mem h) 0 (hp_head h) 0 (unat (hp_start h) + unat (hp_total h)) xs \<and>
     successively (\<lambda>x y. \<not> (bk_free (hp_mem h x) \<and> bk_free (hp_mem h y))) xs \<and>
     unat (hp_used h) = (\<Sum>x\<leftarrow>xs. cost H (hp_mem h) x)"

lemma seg_cost_le:
  "seg H m p a z e xs \<Longrightarrow> a + (\<Sum>x\<leftarrow>xs. cost H m x) \<le> e"
proof (induction xs arbitrary: p a)
  case (Cons x xs)
  then have r: "seg H m x (after H m x) z e xs" "x = a" by (auto simp: seg_Cons)
  then have "after H m x + (\<Sum>x\<leftarrow>xs. cost H m x) \<le> e" using Cons.IH by blast
  then show ?case using r(2) by (auto simp: after_def cost_def split: if_splits)
qed simp

lemma heap_init_inv:
  assumes "0 < unat start" "unat start + unat sz < 2 ^ 31" "H \<le> sz" "0 < H" "H \<le> 64"
  shows "heap_inv H (heap_init H start sz h) [unat start]"
proof -
  have "unat (sz - H) = unat sz - unat H" using assms(3) by (rule unat_sub_u32)
  moreover have "unat H \<le> unat sz" using assms(3) by (simp add: word_le_nat_alt)
  ultimately show ?thesis
    using assms by (simp add: heap_inv_def heap_init_def seg_Cons after_def block_ok_def cost_def)
qed

section \<open>Allocation and coalescing\<close>

definition same :: "(nat \<Rightarrow> block) \<Rightarrow> (nat \<Rightarrow> block) \<Rightarrow> nat \<Rightarrow> bool" where
  "same m m' x \<longleftrightarrow> bk_free (m' x) = bk_free (m x) \<and> bk_size (m' x) = bk_size (m x)"

lemma seg_links:
  assumes "seg H m p a z e xs"
    "\<And>x. x \<in> set xs \<Longrightarrow> bk_prev (m' x) = bk_prev (m x) \<and> bk_next (m' x) = bk_next (m x)
       \<and> bk_size (m' x) = bk_size (m x) \<and> block_ok (m' x)"
  shows "seg H m' p a z e xs"
  using assms by (induction xs arbitrary: p a) (auto simp: seg_Cons after_def)

lemma seg_ok: "seg H m p a z e xs \<Longrightarrow> \<forall>x\<in>set xs. block_ok (m x)"
  by (induction xs arbitrary: p a) (auto simp: seg_Cons)

lemma seg_mid:
  assumes "seg H m p a 0 e (l @ b # r)" "0 < H"
  shows "seg H m p a b b l" "bk_prev (m b) = last_or p l" "bk_next (m b) = hd_or r 0" "block_ok (m b)"
    "seg H m b (after H m b) 0 e r"
    "\<And>x. x \<in> set l \<Longrightarrow> after H m x \<le> b" "\<And>x. x \<in> set l \<Longrightarrow> x < b"
    "\<And>x. x \<in> set r \<Longrightarrow> after H m b \<le> x" "\<And>x. x \<in> set r \<Longrightarrow> b < x" "after H m b \<le> e" "a \<le> b"
proof -
  obtain mid where l: "seg H m p a b mid l" and s: "seg H m (last_or p l) mid 0 e (b # r)"
    using assms(1) by (auto simp: seg_append)
  have m: "mid = b" "bk_prev (m b) = last_or p l" "bk_next (m b) = hd_or r 0" "block_ok (m b)"
    "seg H m b (after H m b) 0 e r" using s by (auto simp: seg_Cons)
  have H: "0 < unat H" using assms(2) by (simp add: word_less_nat_alt)
  show "seg H m p a b b l" using l m(1) by simp
  show "bk_prev (m b) = last_or p l" "bk_next (m b) = hd_or r 0" "block_ok (m b)"
    "seg H m b (after H m b) 0 e r" using m by auto
  show l1: "\<And>x. x \<in> set l \<Longrightarrow> after H m x \<le> b" using seg_bounds[OF l] m(1) by auto
  show "\<And>x. x \<in> set l \<Longrightarrow> x < b" using l1 H by (fastforce simp: after_def)
  show r1: "\<And>x. x \<in> set r \<Longrightarrow> after H m b \<le> x" using seg_bounds[OF m(5)] by auto
  show "\<And>x. x \<in> set r \<Longrightarrow> b < x" using r1 H by (fastforce simp: after_def)
  show "after H m b \<le> e" using seg_bounds[OF m(5)] by auto
  show "a \<le> b" using seg_bounds[OF l] m(1) by auto
qed

lemma seg_join:
  assumes "seg H m p a (hd_or xs 0) b l" "seg H m (last_or p l) b 0 e xs"
  shows "seg H m p a 0 e (l @ xs)"
  using assms by (auto simp: seg_append)

lemma after_same: "same m m' x \<Longrightarrow> after H m' x = after H m x"
  by (simp add: same_def after_def)

lemma cost_same: "same m m' x \<Longrightarrow> cost H m' x = cost H m x"
  by (simp add: same_def cost_def)

text \<open>The tail of a segment when the previous block is replaced by another.\<close>

lemma seg_tail_prev:
  assumes "seg H m b s 0 e r" "0 < H"
    "\<And>x. x \<in> set r \<Longrightarrow> m' x = (if r \<noteq> [] \<and> x = hd r then (m x)\<lparr>bk_prev := n\<rparr> else m x)"
  shows "seg H m' n s 0 e r"
proof (cases r)
  case (Cons y r')
  have "seg H (m(y := (m y)\<lparr>bk_prev := n\<rparr>)) n s 0 e (y # r')"
    using seg_head_prev assms(1,2) Cons by blast
  then show ?thesis unfolding Cons by (rule seg_cong[rotated]) (use assms(3) Cons in auto)
qed (use assms in simp)

lemma split_seg:
  assumes "seg H m p a 0 e (l @ b # r)" "0 < a" "0 < H" "H \<le> 64" "e < 2 ^ 31" "sz \<le> bk_size (m b)"
    "split_block H b sz m = (m', g)"
  obtains mid where "seg H m' p a 0 e (l @ b # mid @ r)" "\<And>x. x \<in> set (l @ r) \<Longrightarrow> same m m' x"
    "bk_free (m' b) = bk_free (m b)" "sz \<le> bk_size (m' b)" "bk_magic (m' b) = bk_magic (m b)"
    "(mid = [] \<and> bk_size (m' b) = bk_size (m b) \<and> g = 0)
      \<or> (mid = [b + unat H + unat sz] \<and> bk_free (m' (b + unat H + unat sz)) \<and> bk_size (m' b) = sz \<and> g = H)"
proof (cases "bk_size (m b) < sz + H + 16")
  case True
  then have "m' = m" "g = 0" using assms(7) by (auto simp: split_block_def)
  then show thesis using that[of "[]"] assms(1,6) by (simp add: same_def)
next
  case False
  note mid = seg_mid[OF assms(1,3)]
  let ?n = "b + unat H + unat sz"
  have h: "0 < unat H" "unat H \<le> 64" using assms(3,4) by (simp_all add: word_less_nat_alt word_le_nat_alt)
  have sb: "unat (bk_size (m b)) < 2 ^ 31" using mid(10) assms(5) by (simp add: after_def)
  have le: "unat sz \<le> unat (bk_size (m b))" using assms(6) by (simp add: word_le_nat_alt)
  have "unat (sz + H + 16) = unat sz + unat H + 16" using sb le h by (simp add: unat_add_u32)
  then have room: "unat sz + unat H + 16 \<le> unat (bk_size (m b))" using False by (simp add: word_less_nat_alt)
  have sub: "unat (bk_size (m b) - sz - H) = unat (bk_size (m b)) - unat sz - unat H"
  proof -
    have "unat (bk_size (m b) - sz) = unat (bk_size (m b)) - unat sz" using assms(6) by (rule unat_sub_u32)
    moreover from this have "H \<le> bk_size (m b) - sz" using room by (simp add: word_le_nat_alt)
    ultimately show ?thesis by (simp add: unat_sub_u32)
  qed
  have nx: "bk_next (m b) = 0 \<longleftrightarrow> r = []"
    using mid(3) mid(9)[of "hd r"] by (cases r) auto
  have nr: "?n < after H m b" using room h by (simp add: after_def)
  have m': "m' = (let m1 = m(?n := \<lparr>bk_magic = MAGIC_FREE, bk_size = bk_size (m b) - sz - H,
                        bk_next = bk_next (m b), bk_prev = b, bk_free = True\<rparr>);
      m2 = (if r \<noteq> [] then m1(hd r := (m (hd r))\<lparr>bk_prev := ?n\<rparr>) else m1)
      in m2(b := (m b)\<lparr>bk_next := ?n, bk_size := sz\<rparr>))" and g: "g = H"
  proof -
    have "b \<noteq> ?n" using h by simp
    moreover have "r \<noteq> [] \<Longrightarrow> hd r \<noteq> ?n \<and> hd r \<noteq> b \<and> bk_next (m b) = hd r"
      using mid(3) mid(8)[of "hd r"] mid(9)[of "hd r"] nr by (cases r) auto
    ultimately show "m' = (let m1 = m(?n := \<lparr>bk_magic = MAGIC_FREE, bk_size = bk_size (m b) - sz - H,
                        bk_next = bk_next (m b), bk_prev = b, bk_free = True\<rparr>);
      m2 = (if r \<noteq> [] then m1(hd r := (m (hd r))\<lparr>bk_prev := ?n\<rparr>) else m1)
      in m2(b := (m b)\<lparr>bk_next := ?n, bk_size := sz\<rparr>))" "g = H"
      using assms(7) False nx by (auto simp: split_block_def Let_def split: if_splits)
  qed
  have out: "x \<noteq> ?n \<and> x \<noteq> b" if "x \<in> set (l @ r)" for x
    using that mid(7,8,9) nr by fastforce
  have at_n: "m' ?n = \<lparr>bk_magic = MAGIC_FREE, bk_size = bk_size (m b) - sz - H,
                        bk_next = bk_next (m b), bk_prev = b, bk_free = True\<rparr>"
    using h mid(8)[of "hd r"] nr by (auto simp: m' Let_def)
  have at_b: "m' b = (m b)\<lparr>bk_next := ?n, bk_size := sz\<rparr>" by (simp add: m' Let_def)
  have at_l: "m' x = m x" if "x \<in> set l" for x
    using that out[of x] mid(7)[of x] mid(9)[of "hd r"] by (auto simp: m' Let_def)
  have at_r: "m' x = (if r \<noteq> [] \<and> x = hd r then (m x)\<lparr>bk_prev := ?n\<rparr> else m x)" if "x \<in> set r" for x
    using that out[of x] by (auto simp: m' Let_def)
  have aft: "after H m' ?n = after H m b" "after H m' b = ?n"
    using sub room by (simp_all add: after_def at_n at_b)
  have "seg H m' ?n (after H m b) 0 e r"
    by (rule seg_tail_prev[OF mid(5) assms(3) at_r])
  then have "seg H m' (last_or p l) b 0 e (b # [?n] @ r)"
    using mid(2,3,4) by (simp add: seg_Cons aft at_n at_b block_ok_def)
  moreover have "seg H m' p a b b l" by (rule seg_cong[OF at_l mid(1)])
  ultimately have "seg H m' p a 0 e (l @ b # [?n] @ r)" by (intro seg_join[where b = b]) auto
  moreover have "same m m' x" if "x \<in> set (l @ r)" for x
    using that at_l[of x] at_r[of x] by (auto simp: same_def split: if_splits)
  ultimately show thesis using that[of "[?n]"] at_b at_n g by simp
qed


lemma cost_sum_same:
  "(\<And>x. x \<in> set xs \<Longrightarrow> same m m' x) \<Longrightarrow> (\<Sum>x\<leftarrow>xs. cost H m' x) = (\<Sum>x\<leftarrow>xs. cost H m x)"
  by (induction xs) (auto simp: cost_same)

lemma successively_same:
  assumes "\<And>x. x \<in> set xs \<Longrightarrow> bk_free (m' x) = bk_free (m x)"
  shows "successively (\<lambda>x y. \<not> (bk_free (m' x) \<and> bk_free (m' y))) xs
    = successively (\<lambda>x y. \<not> (bk_free (m x) \<and> bk_free (m y))) xs"
  using assms by (intro successively_cong) auto

text \<open>Where the heap changes around one block and everything else keeps its size and state, the
  invariant is a matter of the segment, the neighbours and the account.\<close>

definition apart :: "(nat \<Rightarrow> block) \<Rightarrow> nat list \<Rightarrow> bool" where
  "apart m xs \<longleftrightarrow> successively (\<lambda>x y. \<not> (bk_free (m x) \<and> bk_free (m y))) xs"

lemma apart_Nil [simp]: "apart m []"
  by (simp add: apart_def)

lemma apart_append:
  "apart m (l @ r) \<longleftrightarrow> apart m l \<and> apart m r \<and> (l = [] \<or> r = [] \<or> \<not> (bk_free (m (last l)) \<and> bk_free (m (hd r))))"
  by (auto simp: apart_def successively_append_iff)

lemma apart_Cons:
  "apart m (b # r) \<longleftrightarrow> apart m r \<and> (r = [] \<or> \<not> (bk_free (m b) \<and> bk_free (m (hd r))))"
  by (cases r) (auto simp: apart_def)

lemma apart_same:
  "(\<And>x. x \<in> set xs \<Longrightarrow> same m m' x) \<Longrightarrow> apart m' xs = apart m xs"
  unfolding apart_def same_def by (rule successively_same) auto

lemma heap_inv_apart: "heap_inv H h xs \<Longrightarrow> apart (hp_mem h) xs"
  by (simp add: heap_inv_def apart_def)

lemma take_block_inv:
  assumes inv: "heap_inv H h xs" and xs: "xs = l @ b # r"
    and b: "bk_free (hp_mem h b)" "sz \<le> bk_size (hp_mem h b)"
  obtains ys where "heap_inv H (take_block H sz b h) ys"
    "\<And>x. x \<noteq> b \<Longrightarrow> x \<in> set ys \<and> \<not> bk_free (hp_mem (take_block H sz b h) x)
       \<longleftrightarrow> x \<in> set xs \<and> \<not> bk_free (hp_mem h x)"
    "\<And>x. x \<in> set xs \<Longrightarrow> x \<noteq> b \<Longrightarrow> bk_size (hp_mem (take_block H sz b h) x) = bk_size (hp_mem h x)"
    "b \<in> set ys" "\<not> bk_free (hp_mem (take_block H sz b h) b)"
    "sz \<le> bk_size (hp_mem (take_block H sz b h) b)"
proof -
  let ?m = "hp_mem h" and ?e = "unat (hp_start h) + unat (hp_total h)" and ?p = "unat (hp_start h)"
  obtain m1 g where sp: "split_block H b sz ?m = (m1, g)" by force
  define m2 where "m2 = m1(b := (m1 b)\<lparr>bk_free := False, bk_magic := MAGIC_USED\<rparr>)"
  have t: "take_block H sz b h = h\<lparr>hp_mem := m2, hp_used := hp_used h + g + bk_size (m2 b)\<rparr>"
    by (simp add: take_block_def sp m2_def Let_def)
  have i: "0 < H" "H \<le> 64" "?e < 2 ^ 31" "0 < ?p" "hp_head h = ?p" "seg H ?m 0 ?p 0 ?e (l @ b # r)"
    "unat (hp_used h) = (\<Sum>x\<leftarrow>l @ b # r. cost H ?m x)" "apart ?m (l @ b # r)"
    using inv heap_inv_apart[OF inv] by (auto simp: heap_inv_def xs)
  obtain mid where s: "seg H m1 0 ?p 0 ?e (l @ b # mid @ r)" and sm: "\<And>x. x \<in> set (l @ r) \<Longrightarrow> same ?m m1 x"
    and fb: "bk_free (m1 b) = bk_free (?m b)" "sz \<le> bk_size (m1 b)"
    and mid: "(mid = [] \<and> bk_size (m1 b) = bk_size (?m b) \<and> g = 0)
      \<or> (mid = [b + unat H + unat sz] \<and> bk_free (m1 (b + unat H + unat sz)) \<and> bk_size (m1 b) = sz \<and> g = H)"
    by (rule split_seg[OF i(6,4,1,2,3) b(2) sp]) blast
  let ?ys = "l @ b # mid @ r"
  have d: "distinct ?ys" by (rule seg_distinct[OF i(1) s])
  have ok: "block_ok (m1 x)" if "x \<in> set ?ys" for x
    using seg_ok[OF s] that by blast
  have s2: "seg H m2 0 ?p 0 ?e ?ys"
  proof (rule seg_links[OF s])
    fix x assume "x \<in> set ?ys"
    then show "bk_prev (m2 x) = bk_prev (m1 x) \<and> bk_next (m2 x) = bk_next (m1 x)
       \<and> bk_size (m2 x) = bk_size (m1 x) \<and> block_ok (m2 x)"
      using ok by (auto simp: m2_def block_ok_def)
  qed
  have sm2: "same ?m m2 x" if "x \<in> set (l @ r)" for x
    using sm[OF that] d that by (auto simp: m2_def same_def)
  have ap: "apart m2 ?ys"
  proof -
    have "apart m2 l" "apart m2 r" using i(8) apart_same[OF sm2] by (auto simp: apart_append apart_Cons)
    moreover have "mid \<noteq> [] \<Longrightarrow> r \<noteq> [] \<Longrightarrow> \<not> bk_free (m2 (hd r))"
      using i(8) b(1) sm2[of "hd r"] by (auto simp: apart_append apart_Cons same_def)
    ultimately show ?thesis
      using mid by (auto simp: apart_append apart_Cons m2_def)
  qed
  have sums: "(\<Sum>x\<leftarrow>?ys. cost H m2 x) = (\<Sum>x\<leftarrow>l @ b # r. cost H ?m x) + unat g + unat (bk_size (m2 b))"
  proof -
    have "(\<Sum>x\<leftarrow>l. cost H m2 x) = (\<Sum>x\<leftarrow>l. cost H ?m x)" "(\<Sum>x\<leftarrow>r. cost H m2 x) = (\<Sum>x\<leftarrow>r. cost H ?m x)"
      using cost_sum_same[OF sm2, of l] cost_sum_same[OF sm2, of r] by auto
    moreover have "(\<Sum>x\<leftarrow>mid. cost H m2 x) = unat g"
      using mid d by (auto simp: cost_def m2_def)
    moreover have "cost H m2 b = cost H ?m b + unat (bk_size (m2 b))" using b(1) by (simp add: cost_def m2_def)
    ultimately show ?thesis by simp
  qed
  have "(\<Sum>x\<leftarrow>?ys. cost H m2 x) < 2 ^ 31" using seg_cost_le[OF s2] i(3) by linarith
  then have used: "unat (hp_used h + g + bk_size (m2 b)) = (\<Sum>x\<leftarrow>?ys. cost H m2 x)"
    using sums i(7) by (simp add: unat_add_u32)
  show thesis
  proof (rule that[of ?ys])
    show "heap_inv H (take_block H sz b h) ?ys"
      using inv s2 ap used i(5) by (simp add: heap_inv_def t apart_def)
  next
    fix x assume "x \<noteq> b"
    then show "x \<in> set ?ys \<and> \<not> bk_free (hp_mem (take_block H sz b h) x)
       \<longleftrightarrow> x \<in> set xs \<and> \<not> bk_free (hp_mem h x)"
      using sm2[of x] mid d by (auto simp: t xs same_def m2_def)
  next
    fix x assume "x \<in> set xs" "x \<noteq> b"
    then show "bk_size (hp_mem (take_block H sz b h) x) = bk_size (hp_mem h x)"
      using sm2[of x] by (auto simp: t xs same_def)
  qed (use fb in \<open>auto simp: t m2_def\<close>)
qed


text \<open>Coalescing: the blocks that follow \<open>b\<close> and are free disappear into it.\<close>

lemma merge_step:
  assumes "seg H m p a 0 e (l @ b # n # r)" "0 < H" "H \<le> 64" "e < 2 ^ 31" "bk_free (m n)" "0 < a"
  obtains m' where "\<And>used. merge_blocks H b (m, used) = merge_blocks H b (m', used - H)"
    "seg H m' p a 0 e (l @ b # r)" "\<And>x. x \<in> set (l @ r) \<Longrightarrow> same m m' x"
    "bk_free (m' b) = bk_free (m b)"
    "unat (bk_size (m' b)) = unat (bk_size (m b)) + unat H + unat (bk_size (m n))"
proof -
  note mid = seg_mid[OF assms(1,2)]
  have n: "n = after H m b" "bk_prev (m n) = b" "bk_next (m n) = hd_or r 0" "seg H m n (after H m n) 0 e r"
    using mid(5) by (auto simp: seg_Cons)
  have h: "0 < unat H" using assms(2) by (simp add: word_less_nat_alt)
  have bn: "b < n" using n(1) h by (simp add: after_def)
  have rn: "\<forall>x\<in>set r. n < x" using seg_bounds[OF n(4)] h by (auto simp: after_def)
  have nx: "bk_next (m b) = n" "bk_next (m n) = 0 \<longleftrightarrow> r = []"
    using mid(3) n(3) rn by (cases r; force)+
  define m' where "m' = (let m1 = m(b := (m b)\<lparr>bk_size := bk_size (m b) + (bk_size (m n) + H), bk_next := bk_next (m n)\<rparr>)
      in if r \<noteq> [] then m1(hd r := (m (hd r))\<lparr>bk_prev := b\<rparr>) else m1)"
  have hd: "r \<noteq> [] \<Longrightarrow> n < hd r \<and> hd r \<noteq> b \<and> hd r \<noteq> n \<and> bk_next (m n) = hd r"
    using rn bn n(3) by (cases r) auto
  have step: "merge_blocks H b (m, used) = merge_blocks H b (m', used - H)" for used
    using bn nx assms(5) hd
    by (subst merge_blocks.simps) (auto simp: m'_def Let_def)
  have e: "unat (bk_size (m b)) + unat H + unat (bk_size (m n)) < 2 ^ 31"
    using n(1) seg_bounds[OF n(4)] assms(4) by (simp add: after_def)
  have at_b: "m' b = (m b)\<lparr>bk_size := bk_size (m b) + (bk_size (m n) + H), bk_next := bk_next (m n)\<rparr>"
    using hd by (auto simp: m'_def Let_def)
  have sz: "unat (bk_size (m' b)) = unat (bk_size (m b)) + unat H + unat (bk_size (m n))"
    using e by (simp add: at_b unat_add_u32)
  have at_l: "m' x = m x" if "x \<in> set l" for x
    using mid(7)[OF that] bn hd by (cases "r = []") (auto simp: m'_def Let_def)
  have at_r: "m' x = (if r \<noteq> [] \<and> x = hd r then (m x)\<lparr>bk_prev := b\<rparr> else m x)" if "x \<in> set r" for x
    using that rn bn by (auto simp: m'_def Let_def)
  have "seg H m' b (after H m n) 0 e r" by (rule seg_tail_prev[OF n(4) assms(2) at_r])
  moreover have "after H m' b = after H m n" using sz n(1) by (simp add: after_def)
  ultimately have "seg H m' (last_or p l) b 0 e (b # r)"
    using mid(2,3,4) n(3) by (simp add: seg_Cons at_b block_ok_def)
  then have "seg H m' p a 0 e (l @ b # r)"
    using seg_cong[OF at_l mid(1)] by (intro seg_join[where b = b]) auto
  moreover have "same m m' x" if "x \<in> set (l @ r)" for x
    using that at_l[of x] at_r[of x] by (auto simp: same_def split: if_splits)
  ultimately show thesis
    using that[of m'] step sz by (simp add: at_b)
qed

lemma merge_seg:
  assumes "seg H m p a 0 e (l @ b # r)" "0 < H" "H \<le> 64" "e < 2 ^ 31" "0 < a"
  shows "\<exists>m' used'. merge_blocks H b (m, used) = Some (m', used')
    \<and> seg H m' p a 0 e (l @ b # dropWhile (\<lambda>x. bk_free (m x)) r)
    \<and> (\<forall>x\<in>set (l @ dropWhile (\<lambda>x. bk_free (m x)) r). same m m' x) \<and> bk_free (m' b) = bk_free (m b)
    \<and> unat (bk_size (m b)) \<le> unat (bk_size (m' b))
    \<and> (unat used = (\<Sum>x\<leftarrow>l @ b # r. cost H m x) \<and> bk_free (m b)
         \<longrightarrow> unat used' = (\<Sum>x\<leftarrow>l @ b # dropWhile (\<lambda>x. bk_free (m x)) r. cost H m' x))"
  using assms
proof (induction r arbitrary: m used)
  case Nil
  note mid = seg_mid[OF Nil.prems(1,2)]
  have "merge_blocks H b (m, used) = Some (m, used)"
    using mid(3) by (subst merge_blocks.simps) simp
  then show ?case using Nil.prems by (auto simp: same_def)
next
  case (Cons n r)
  note mid = seg_mid[OF Cons.prems(1,2)]
  show ?case
  proof (cases "bk_free (m n)")
    case False
    have "merge_blocks H b (m, used) = Some (m, used)"
      using mid(3) False by (subst merge_blocks.simps) simp
    then show ?thesis using Cons.prems False by (auto simp: same_def)
  next
    case True
    obtain m1 where m1: "\<And>used. merge_blocks H b (m, used) = merge_blocks H b (m1, used - H)"
      "seg H m1 p a 0 e (l @ b # r)" "\<And>x. x \<in> set (l @ r) \<Longrightarrow> same m m1 x"
      "bk_free (m1 b) = bk_free (m b)"
      "unat (bk_size (m1 b)) = unat (bk_size (m b)) + unat H + unat (bk_size (m n))"
      using merge_step[OF Cons.prems(1-4) True Cons.prems(5)] by blast
    have dw: "dropWhile (\<lambda>x. bk_free (m1 x)) r = dropWhile (\<lambda>x. bk_free (m x)) r"
      using m1(3) by (intro dropWhile_cong) (auto simp: same_def)
    have sum: "unat (used - H) = (\<Sum>x\<leftarrow>l @ b # r. cost H m1 x)"
      if "unat used = (\<Sum>x\<leftarrow>l @ b # n # r. cost H m x)" "bk_free (m b)"
    proof -
      have "(\<Sum>x\<leftarrow>l. cost H m1 x) = (\<Sum>x\<leftarrow>l. cost H m x)" "(\<Sum>x\<leftarrow>r. cost H m1 x) = (\<Sum>x\<leftarrow>r. cost H m x)"
        using cost_sum_same[of l m m1] cost_sum_same[of r m m1] m1(3) by auto
      then have "(\<Sum>x\<leftarrow>l @ b # r. cost H m1 x) + unat H = unat used"
        using that True m1(4) by (simp add: cost_def)
      moreover from this have "H \<le> used" by (simp add: word_le_nat_alt)
      ultimately show ?thesis by (simp add: unat_sub_u32)
    qed
    from Cons.IH[OF m1(2) Cons.prems(2-5), of "used - H"] obtain m' used' where
      r: "merge_blocks H b (m1, used - H) = Some (m', used')"
      "seg H m' p a 0 e (l @ b # dropWhile (\<lambda>x. bk_free (m x)) r)"
      "\<forall>x\<in>set (l @ dropWhile (\<lambda>x. bk_free (m x)) r). same m1 m' x" "bk_free (m' b) = bk_free (m1 b)"
      "unat (bk_size (m1 b)) \<le> unat (bk_size (m' b))"
      "unat (used - H) = (\<Sum>x\<leftarrow>l @ b # r. cost H m1 x) \<and> bk_free (m1 b)
         \<longrightarrow> unat used' = (\<Sum>x\<leftarrow>l @ b # dropWhile (\<lambda>x. bk_free (m x)) r. cost H m' x)"
      unfolding dw by blast
    have "\<forall>x\<in>set (l @ dropWhile (\<lambda>x. bk_free (m x)) r). same m m' x"
    proof
      fix x assume x: "x \<in> set (l @ dropWhile (\<lambda>x. bk_free (m x)) r)"
      then have "x \<in> set (l @ r)" by (auto dest: set_dropWhileD)
      from m1(3)[OF this] bspec[OF r(3) x] show "same m m' x" by (simp add: same_def)
    qed
    moreover have "dropWhile (\<lambda>x. bk_free (m x)) (n # r) = dropWhile (\<lambda>x. bk_free (m x)) r" using True by simp
    moreover have "merge_blocks H b (m, used) = Some (m', used')" using m1(1) r(1) by simp
    moreover have "bk_free (m' b) = bk_free (m b)" "unat (bk_size (m b)) \<le> unat (bk_size (m' b))" using r(4,5) m1(4,5) by simp_all
    moreover have "unat used = (\<Sum>x\<leftarrow>l @ b # n # r. cost H m x) \<and> bk_free (m b) \<longrightarrow>
        unat used' = (\<Sum>x\<leftarrow>l @ b # dropWhile (\<lambda>x. bk_free (m x)) r. cost H m' x)"
      using sum r(6) m1(4) by blast
    ultimately show ?thesis using r(2) by metis
  qed
qed

section \<open>Freeing\<close>

lemma dropWhile_live: "x \<in> set r \<Longrightarrow> \<not> P x \<Longrightarrow> x \<in> set (dropWhile P r)"
  by (induction r) auto

lemma dropWhile_stable: "(xs \<noteq> [] \<Longrightarrow> \<not> P (hd xs)) \<Longrightarrow> dropWhile P xs = xs"
  by (cases xs) auto

lemma apart_dropWhile: "apart m r \<Longrightarrow> apart m (dropWhile P r)"
  by (induction r) (auto simp: apart_Cons)

text \<open>What an operation must leave of the other live blocks.\<close>

definition others_kept :: "heap \<Rightarrow> nat list \<Rightarrow> heap \<Rightarrow> nat list \<Rightarrow> nat \<Rightarrow> bool" where
  "others_kept h xs h' ys b \<longleftrightarrow>
     (\<forall>x. x \<noteq> b \<longrightarrow> (x \<in> set ys \<and> \<not> bk_free (hp_mem h' x) \<longleftrightarrow> x \<in> set xs \<and> \<not> bk_free (hp_mem h x))
        \<and> (x \<in> set xs \<and> \<not> bk_free (hp_mem h x) \<longrightarrow> bk_size (hp_mem h' x) = bk_size (hp_mem h x)))"

lemma kfree_inv:
  assumes inv: "heap_inv H h xs" and b: "b \<in> set xs" "\<not> bk_free (hp_mem h b)"
  obtains h' ys where "kfree H (b + unat H) h = Some h'" "heap_inv H h' ys" "others_kept h xs h' ys b"
    "b \<in> set ys \<longrightarrow> bk_free (hp_mem h' b)"
proof -
  obtain l r where xs: "xs = l @ b # r" using b(1) by (metis split_list)
  let ?m = "hp_mem h" and ?e = "unat (hp_start h) + unat (hp_total h)" and ?p = "unat (hp_start h)"
  have i: "0 < H" "H \<le> 64" "?e < 2 ^ 31" "0 < ?p" "hp_head h = ?p" "seg H ?m 0 ?p 0 ?e (l @ b # r)"
    "unat (hp_used h) = (\<Sum>x\<leftarrow>l @ b # r. cost H ?m x)" "apart ?m (l @ b # r)"
    using inv heap_inv_apart[OF inv] by (auto simp: heap_inv_def xs)
  have H: "0 < unat H" using i(1) by (simp add: word_less_nat_alt)
  have d: "distinct (l @ b # r)" by (rule seg_distinct[OF i(1,6)])
  define m0 where "m0 = ?m(b := (?m b)\<lparr>bk_free := True, bk_magic := MAGIC_FREE\<rparr>)"
  have s0: "seg H m0 0 ?p 0 ?e (l @ b # r)"
    by (rule seg_links[OF i(6)]) (use seg_ok[OF i(6)] in \<open>auto simp: m0_def block_ok_def\<close>)
  have sm0: "same ?m m0 x" if "x \<in> set (l @ r)" for x
    using that d by (auto simp: same_def m0_def)
  have sum0: "unat (hp_used h - bk_size (m0 b)) = (\<Sum>x\<leftarrow>l @ b # r. cost H m0 x)"
  proof -
    have "(\<Sum>x\<leftarrow>l. cost H m0 x) = (\<Sum>x\<leftarrow>l. cost H ?m x)" "(\<Sum>x\<leftarrow>r. cost H m0 x) = (\<Sum>x\<leftarrow>r. cost H ?m x)"
      using cost_sum_same[of l ?m m0] cost_sum_same[of r ?m m0] sm0 by auto
    then have "(\<Sum>x\<leftarrow>l @ b # r. cost H m0 x) + unat (bk_size (m0 b)) = unat (hp_used h)"
      using i(7) b(2) by (simp add: cost_def m0_def)
    moreover from this have "bk_size (m0 b) \<le> hp_used h" by (simp add: word_le_nat_alt)
    ultimately show ?thesis by (simp add: unat_sub_u32)
  qed
  let ?dw = "dropWhile (\<lambda>x. bk_free (m0 x)) r"
  have f0: "bk_free (m0 b)" by (simp add: m0_def)
  obtain m1 u1 where m1: "merge_blocks H b (m0, hp_used h - bk_size (m0 b)) = Some (m1, u1)"
    "seg H m1 0 ?p 0 ?e (l @ b # ?dw)" "\<forall>x\<in>set (l @ ?dw). same m0 m1 x" "bk_free (m1 b)"
    "unat u1 = (\<Sum>x\<leftarrow>l @ b # ?dw. cost H m1 x)"
    using merge_seg[OF s0 i(1,2,3,4), of "hp_used h - bk_size (m0 b)"] sum0 f0 by auto
  have same1: "same ?m m1 x" if "x \<in> set l \<or> x \<in> set ?dw" for x
    using that m1(3) sm0[of x] set_dropWhileD[of x _ r] by (auto simp: same_def)
  have live_r: "x \<in> set ?dw" if "x \<in> set r" "\<not> bk_free (?m x)" for x
    using that sm0[of x] by (intro dropWhile_live) (auto simp: same_def)
  have ap: "apart m1 l" "apart m1 ?dw"
    using i(8) apart_same[of l ?m m1] apart_same[of ?dw ?m m1] same1 apart_dropWhile
    by (auto simp: apart_append apart_Cons)
  have hd_dw: "?dw \<noteq> [] \<Longrightarrow> \<not> bk_free (m1 (hd ?dw))"
    using hd_dropWhile[of "\<lambda>x. bk_free (m0 x)" r] m1(3) by (auto simp: same_def)
  have magic: "bk_magic (?m b) = MAGIC_USED" using seg_ok[OF i(6)] b(2) by (auto simp: block_ok_def)
  have prev: "bk_prev (m1 b) = last_or 0 l" using seg_mid[OF m1(2) i(1)] by blast
  define fin where "fin = (if bk_prev (m1 b) \<noteq> 0 \<and> bk_free (m1 (bk_prev (m1 b)))
                      then merge_blocks H (bk_prev (m1 b)) (m1, u1) else Some (m1, u1))"
  have kf: "kfree H (b + unat H) h = (case fin of None \<Rightarrow> None | Some (m, used) \<Rightarrow> Some (h\<lparr>hp_mem := m, hp_used := used\<rparr>))"
    using H magic m1(1) by (simp add: kfree_def Let_def m0_def[symmetric] fin_def)
  have l_live: "x \<in> set l \<Longrightarrow> x \<noteq> b" "x \<in> set r \<Longrightarrow> x \<noteq> b" for x using d by auto
  have r_dw: "x \<in> set ?dw \<Longrightarrow> x \<in> set r" for x by (rule set_dropWhileD)
  show thesis
  proof (cases "l \<noteq> [] \<and> bk_free (m1 (last l))")
    case False
    have "last_or 0 l = 0 \<or> \<not> bk_free (m1 (last_or 0 l))" using False by (auto simp: last_or_def)
    then have fin: "fin = Some (m1, u1)" using prev by (auto simp: fin_def)
    have a: "apart m1 (l @ b # ?dw)" using ap hd_dw False by (auto simp: apart_append apart_Cons)
    show thesis
    proof (rule that[of "h\<lparr>hp_mem := m1, hp_used := u1\<rparr>" "l @ b # ?dw"])
      show "heap_inv H (h\<lparr>hp_mem := m1, hp_used := u1\<rparr>) (l @ b # ?dw)"
        using inv m1(2,5) a i(5) by (simp add: heap_inv_def apart_def)
      show "others_kept h xs (h\<lparr>hp_mem := m1, hp_used := u1\<rparr>) (l @ b # ?dw) b"
        using same1 live_r r_dw by (auto simp: others_kept_def xs same_def)
    qed (use kf fin m1(4) in auto)
  next
    case True
    then obtain l' q where l: "l = l' @ [q]" by (metis append_butlast_last_id)
    have q: "bk_free (m1 q)" "0 < q" "last_or 0 l = q"
      using True seg_pos[OF m1(2) i(4)] by (auto simp: l last_or_def)
    have s1: "seg H m1 0 ?p 0 ?e (l' @ q # b # ?dw)" using m1(2) by (simp add: l)
    have dd: "dropWhile (\<lambda>x. bk_free (m1 x)) (b # ?dw) = ?dw"
      using m1(4) dropWhile_stable[of ?dw "\<lambda>x. bk_free (m1 x)"] hd_dw by simp
    have u1': "unat u1 = (\<Sum>x\<leftarrow>l' @ q # b # ?dw. cost H m1 x)" using m1(5) by (simp add: l)
    obtain m2 u2 where m2: "merge_blocks H q (m1, u1) = Some (m2, u2)"
      "seg H m2 0 ?p 0 ?e (l' @ q # ?dw)" "\<forall>x\<in>set (l' @ ?dw). same m1 m2 x" "bk_free (m2 q)"
      "unat u2 = (\<Sum>x\<leftarrow>l' @ q # ?dw. cost H m2 x)"
      using merge_seg[OF s1 i(1,2,3,4), of u1] u1' q(1) unfolding dd by blast
    have fin: "fin = Some (m2, u2)" using prev q m2(1) by (simp add: fin_def)
    have same2: "same ?m m2 x" if "x \<in> set l' \<or> x \<in> set ?dw" for x
      using that m2(3) same1[of x] by (auto simp: same_def l)
    have q0: "bk_free (?m q)" using same1[of q] q(1) by (auto simp: same_def l)
    have "apart m1 l'" "l' \<noteq> [] \<Longrightarrow> \<not> bk_free (m1 (last l'))" using ap(1) q(1) by (auto simp: l apart_append)
    then have "apart m2 l'" "l' \<noteq> [] \<Longrightarrow> \<not> bk_free (m2 (last l'))"
      using apart_same[of l' m1 m2] m2(3) by (auto simp: same_def)
    moreover have "apart m2 ?dw" "?dw \<noteq> [] \<Longrightarrow> \<not> bk_free (m2 (hd ?dw))"
      using apart_same[of ?dw m1 m2] ap(2) hd_dw m2(3) by (auto simp: same_def)
    ultimately have a: "apart m2 (l' @ q # ?dw)" by (auto simp: apart_append apart_Cons)
    have qd: "q \<noteq> b" "b \<notin> set l'" "b \<notin> set ?dw" using d r_dw by (auto simp: l)
    show thesis
    proof (rule that[of "h\<lparr>hp_mem := m2, hp_used := u2\<rparr>" "l' @ q # ?dw"])
      show "heap_inv H (h\<lparr>hp_mem := m2, hp_used := u2\<rparr>) (l' @ q # ?dw)"
        using inv m2(2,5) a i(5) by (simp add: heap_inv_def apart_def)
      show "others_kept h xs (h\<lparr>hp_mem := m2, hp_used := u2\<rparr>) (l' @ q # ?dw) b"
        using same2 live_r r_dw q0 m2(4) by (auto simp: others_kept_def xs same_def l)
    qed (use kf fin qd in auto)
  qed
qed

lemma align8_ge:
  assumes "sz \<le> 0xFFFFFFF0" shows "sz \<le> align8 sz"
proof -
  have "unat (sz + 7) = unat sz + 7" using assms by (simp add: word_le_nat_alt unat_add_u32)
  moreover have "unat (take_bit 3 (sz + 7)) < 8"
    by (simp add: take_bit_eq_mod unat_mod)
  moreover have "align8 sz = sz + 7 - take_bit 3 (sz + 7)"
  proof -
    have "align8 sz = push_bit 3 (drop_bit 3 (sz + 7))"
    proof -
      have "(7 :: u32) = mask 3" by (simp add: mask_eq_exp_minus_1)
      moreover have "x AND NOT (mask 3) = push_bit 3 (drop_bit 3 x)" for x :: u32
        by (rule bit_word_eqI) (auto simp: bit_simps)
      ultimately show ?thesis by (simp add: align8_def)
    qed
    then show ?thesis by (metis add_diff_cancel_right' bits_ident)
  qed
  ultimately show ?thesis by (simp add: word_le_nat_alt unat_sub)
qed

lemma kmalloc_none:
  assumes inv: "heap_inv H h xs"
    and full: "sz = 0 \<or> sz > 0xFFFFFFF0 \<or> align8 sz > hp_total h
      \<or> (\<forall>x\<in>set xs. bk_free (hp_mem h x) \<longrightarrow> bk_size (hp_mem h x) < align8 sz)"
  shows "kmalloc H sz h = Some (h, 0)"
proof -
  have s: "seg H (hp_mem h) 0 (hp_head h) 0 (unat (hp_start h) + unat (hp_total h)) xs" "0 < hp_head h" "xs \<noteq> []"
    using inv by (auto simp: heap_inv_def)
  then have hd: "hp_head h = hd_or xs 0" by (cases xs) (auto simp: seg_Cons)
  have "find (\<lambda>x. bk_free (hp_mem h x) \<and> bk_size (hp_mem h x) \<ge> align8 sz) xs = None"
    if "\<forall>x\<in>set xs. bk_free (hp_mem h x) \<longrightarrow> bk_size (hp_mem h x) < align8 sz"
    using that by (auto simp: find_None_iff not_le)
  then show ?thesis
    using full find_fit_seg[OF s(1,2), of "align8 sz"] hd by (auto simp: kmalloc_def Let_def)
qed

lemma kmalloc_some:
  assumes inv: "heap_inv H h xs"
    and fits: "sz \<noteq> 0" "sz \<le> 0xFFFFFFF0" "align8 sz \<le> hp_total h"
      "find (\<lambda>x. bk_free (hp_mem h x) \<and> bk_size (hp_mem h x) \<ge> align8 sz) xs = Some b"
  obtains h' ys where "kmalloc H sz h = Some (h', b + unat H)" "heap_inv H h' ys" "others_kept h xs h' ys b"
    "b \<in> set xs" "0 < b" "bk_free (hp_mem h b)" "b \<in> set ys" "\<not> bk_free (hp_mem h' b)"
    "sz \<le> bk_size (hp_mem h' b)"
proof -
  have s: "seg H (hp_mem h) 0 (hp_head h) 0 (unat (hp_start h) + unat (hp_total h)) xs" "0 < hp_head h" "xs \<noteq> []"
    using inv by (auto simp: heap_inv_def)
  then have hd: "hp_head h = hd_or xs 0" by (cases xs) (auto simp: seg_Cons)
  have b: "b \<in> set xs" "bk_free (hp_mem h b)" "align8 sz \<le> bk_size (hp_mem h b)"
    using fits(4) by (auto simp: find_Some_iff)
  have b0: "0 < b" using seg_pos[OF s(1,2)] b(1) by blast
  have k: "kmalloc H sz h = Some (take_block H (align8 sz) b h, b + unat H)"
    using fits find_fit_seg[OF s(1,2), of "align8 sz"] hd b0 by (auto simp: kmalloc_def Let_def)
  obtain l r where xs: "xs = l @ b # r" using b(1) by (metis split_list)
  obtain ys where y: "heap_inv H (take_block H (align8 sz) b h) ys"
    "\<And>x. x \<noteq> b \<Longrightarrow> x \<in> set ys \<and> \<not> bk_free (hp_mem (take_block H (align8 sz) b h) x)
       \<longleftrightarrow> x \<in> set xs \<and> \<not> bk_free (hp_mem h x)"
    "\<And>x. x \<in> set xs \<Longrightarrow> x \<noteq> b \<Longrightarrow> bk_size (hp_mem (take_block H (align8 sz) b h) x) = bk_size (hp_mem h x)"
    "b \<in> set ys" "\<not> bk_free (hp_mem (take_block H (align8 sz) b h) b)"
    "align8 sz \<le> bk_size (hp_mem (take_block H (align8 sz) b h) b)"
    by (rule take_block_inv[OF inv xs b(2,3)]) blast
  have "others_kept h xs (take_block H (align8 sz) b h) ys b"
    using y(2,3) by (auto simp: others_kept_def)
  then show thesis
    using that k y(1,4,5,6) b b0 align8_ge[OF fits(2)] order_trans by blast
qed

section \<open>Clients\<close>

text \<open>A client of the heap: it allocates, keeps the pointers it was given with the sizes it asked
  for, and frees pointers it holds.\<close>

datatype heap_op = Alloc u32 | Release nat

fun heap_client :: "u32 \<Rightarrow> heap_op list \<Rightarrow> heap \<times> (nat \<times> u32) list \<Rightarrow> (heap \<times> (nat \<times> u32) list) option" where
  "heap_client H [] s = Some s"
| "heap_client H (Alloc sz # ops) (h, live) =
     (case kmalloc H sz h of
        None \<Rightarrow> None
      | Some (h', p) \<Rightarrow> heap_client H ops (h', if p = 0 then live else (p, sz) # live))"
| "heap_client H (Release i # ops) (h, live) =
     (if i < length live
      then (case kfree H (fst (live ! i)) h of
              None \<Rightarrow> None
            | Some h' \<Rightarrow> heap_client H ops (h', take i live @ drop (i + 1) live))
      else heap_client H ops (h, live))"

definition client_inv :: "u32 \<Rightarrow> heap \<Rightarrow> nat list \<Rightarrow> (nat \<times> u32) list \<Rightarrow> bool" where
  "client_inv H h xs live \<longleftrightarrow>
     heap_inv H h xs \<and> distinct (map fst live) \<and> (\<forall>(p, sz)\<in>set live. unat H < p \<and> sz \<le> bk_size (hp_mem h (p - unat H)))
     \<and> (\<lambda>(p, sz). p - unat H) ` set live = {x \<in> set xs. \<not> bk_free (hp_mem h x)}"

lemma client_alloc:
  assumes "client_inv H h xs live"
  obtains h' p ys where "kmalloc H sz h = Some (h', p)"
    "client_inv H h' ys (if p = 0 then live else (p, sz) # live)" "0 < sz \<or> p = 0"
proof (cases "sz = 0 \<or> sz > 0xFFFFFFF0 \<or> align8 sz > hp_total h
      \<or> find (\<lambda>x. bk_free (hp_mem h x) \<and> bk_size (hp_mem h x) \<ge> align8 sz) xs = None")
  case True
  have inv: "heap_inv H h xs" using assms by (simp add: client_inv_def)
  have "kmalloc H sz h = Some (h, 0)"
    using True by (intro kmalloc_none[OF inv]) (auto simp: find_None_iff not_le)
  then show thesis using that[of h 0 xs] assms by simp
next
  case False
  have inv: "heap_inv H h xs" and H: "0 < unat H"
    using assms by (auto simp: client_inv_def heap_inv_def word_less_nat_alt)
  obtain b where "find (\<lambda>x. bk_free (hp_mem h x) \<and> bk_size (hp_mem h x) \<ge> align8 sz) xs = Some b"
    using False by auto
  with False obtain h' ys where k: "kmalloc H sz h = Some (h', b + unat H)" "heap_inv H h' ys"
    "others_kept h xs h' ys b" "b \<in> set xs" "0 < b" "bk_free (hp_mem h b)" "b \<in> set ys"
    "\<not> bk_free (hp_mem h' b)" "sz \<le> bk_size (hp_mem h' b)"
    by (elim kmalloc_some[OF inv, rotated 3]) (auto simp: not_less)
  have live: "(p - unat H) \<in> set xs \<and> \<not> bk_free (hp_mem h (p - unat H)) \<and> unat H < p \<and> sz' \<le> bk_size (hp_mem h (p - unat H))"
    if "(p, sz') \<in> set live" for p sz'
  proof -
    have "p - unat H \<in> (\<lambda>(p, sz). p - unat H) ` set live" using that by force
    then show ?thesis using assms that by (auto simp: client_inv_def)
  qed
  have nb: "p \<noteq> b + unat H" "p - unat H \<noteq> b" if "(p, sz') \<in> set live" for p sz'
    using live[OF that] k(6) by auto
  have nb1: "\<And>k. (b + unat H, k) \<notin> set live" using nb(1) by blast
  have "{x \<in> set ys. \<not> bk_free (hp_mem h' x)} = insert b {x \<in> set xs. \<not> bk_free (hp_mem h x)}"
    using k(3,6,7,8) by (auto simp: others_kept_def)
  moreover have "bk_size (hp_mem h' (p - unat H)) = bk_size (hp_mem h (p - unat H))" if "(p, sz') \<in> set live" for p sz'
    using k(3) live[OF that] nb[OF that] by (auto simp: others_kept_def)
  ultimately have "client_inv H h' ys ((b + unat H, sz) # live)"
    using assms k(2,5,9) live nb1 by (auto simp: client_inv_def)
  moreover have "0 < sz" using False by (simp add: word_gt_0)
  ultimately show thesis using that k(1,5) by auto
qed

lemma client_release:
  assumes "client_inv H h xs live" "i < length live"
  obtains h' ys where "kfree H (fst (live ! i)) h = Some h'"
    "client_inv H h' ys (take i live @ drop (i + 1) live)"
proof -
  obtain p sz where p: "live ! i = (p, sz)" by force
  have inv: "heap_inv H h xs" and H: "0 < unat H"
    using assms by (auto simp: client_inv_def heap_inv_def word_less_nat_alt)
  have live: "(p - unat H) \<in> set xs \<and> \<not> bk_free (hp_mem h (p - unat H)) \<and> unat H < p \<and> sz' \<le> bk_size (hp_mem h (p - unat H))"
    if "(p, sz') \<in> set live" for p sz'
  proof -
    have "p - unat H \<in> (\<lambda>(p, sz). p - unat H) ` set live" using that by force
    then show ?thesis using assms that by (auto simp: client_inv_def)
  qed
  let ?b = "p - unat H"
  have pm: "(p, sz) \<in> set live" using assms(2) p by (metis nth_mem)
  obtain h' ys where k: "kfree H (?b + unat H) h = Some h'" "heap_inv H h' ys" "others_kept h xs h' ys ?b"
    "?b \<in> set ys \<longrightarrow> bk_free (hp_mem h' ?b)"
    using kfree_inv[OF inv] live[OF pm] by blast
  let ?rest = "take i live @ drop (i + 1) live"
  have sp: "live = take i live @ (p, sz) # drop (i + 1) live" using id_take_nth_drop[OF assms(2)] p by simp
  have "distinct (map fst (take i live @ (p, sz) # drop (i + 1) live))"
    using assms(1) sp by (simp add: client_inv_def)
  then have d: "distinct (map fst ?rest)" "p \<notin> fst ` set ?rest"
    by (simp_all add: image_Un)
  have rest: "set live = insert (p, sz) (set ?rest)" by (subst sp) simp
  have sub: "(q, n) \<in> set live \<and> q \<noteq> p \<and> q - unat H \<noteq> ?b" if "(q, n) \<in> set ?rest" for q n
  proof -
    have "(q, n) \<in> set live" using that unfolding rest by blast
    moreover have "q \<noteq> p" using d(2) that by force
    ultimately show ?thesis using live[of q n] live[OF pm] by auto
  qed
  have "(\<lambda>(p, sz). p - unat H) ` set ?rest = {x \<in> set xs. \<not> bk_free (hp_mem h x)} - {?b}"
  proof -
    have "(\<lambda>(p, sz). p - unat H) ` set live = insert ?b ((\<lambda>(p, sz). p - unat H) ` set ?rest)"
      unfolding rest by simp
    moreover have "?b \<notin> (\<lambda>(p, sz). p - unat H) ` set ?rest" using sub by force
    moreover have "(\<lambda>(p, sz). p - unat H) ` set live = {x \<in> set xs. \<not> bk_free (hp_mem h x)}"
      using assms(1) by (simp add: client_inv_def)
    ultimately show ?thesis by blast
  qed
  also have "\<dots> = {x \<in> set ys. \<not> bk_free (hp_mem h' x)}"
  proof (rule set_eqI)
    fix x
    show "x \<in> {x \<in> set xs. \<not> bk_free (hp_mem h x)} - {?b} \<longleftrightarrow> x \<in> {x \<in> set ys. \<not> bk_free (hp_mem h' x)}"
      using k(3)[unfolded others_kept_def, rule_format, of x] k(4) by (cases "x = ?b") auto
  qed
  finally have img: "(\<lambda>(p, sz). p - unat H) ` set ?rest = {x \<in> set ys. \<not> bk_free (hp_mem h' x)}" .
  have "unat H < q \<and> n \<le> bk_size (hp_mem h' (q - unat H))" if "(q, n) \<in> set ?rest" for q n
    using sub[OF that] live[of q n] k(3) by (auto simp: others_kept_def)
  then have "client_inv H h' ys ?rest" using k(2) d(1) img by (auto simp: client_inv_def)
  then show thesis using that k(1) p live[OF pm] by simp
qed

lemma heap_client_inv:
  assumes "client_inv H h xs live"
  shows "\<exists>h' ys live'. heap_client H ops (h, live) = Some (h', live') \<and> client_inv H h' ys live'"
  using assms
proof (induction H ops "(h, live)" arbitrary: h live xs rule: heap_client.induct)
  case (2 H sz ops h live)
  show ?case by (rule client_alloc[OF 2(2), of sz]) (use 2(1) in \<open>auto split: if_splits\<close>)
next
  case (3 H i ops h live)
  show ?case
  proof (cases "i < length live")
    case True
    show ?thesis by (rule client_release[OF 3(3) True]) (use 3(1)[OF True] True in auto)
  qed (use 3(2,3) in auto)
qed auto

lemma seg_disjoint:
  assumes "seg H m p a z e xs" "x \<in> set xs" "y \<in> set xs" "x \<noteq> y"
  shows "after H m x \<le> y \<or> after H m y \<le> x"
  using assms
proof (induction xs arbitrary: p a)
  case (Cons w xs)
  then have r: "seg H m w (after H m w) z e xs" by (auto simp: seg_Cons)
  show ?case using Cons seg_bounds[OF r] r by auto
qed simp

lemma client_regions:
  assumes "client_inv H h xs live" "(p, n) \<in> set live"
  shows "unat (hp_start h) + unat H \<le> p" "p + unat n \<le> unat (hp_start h) + unat (hp_total h)"
    "(q, k) \<in> set live \<Longrightarrow> q \<noteq> p \<Longrightarrow> p + unat n \<le> q \<or> q + unat k \<le> p"
proof -
  have inv: "seg H (hp_mem h) 0 (unat (hp_start h)) 0 (unat (hp_start h) + unat (hp_total h)) xs"
    using assms by (auto simp: client_inv_def heap_inv_def)
  have live: "(p - unat H) \<in> set xs \<and> unat H < p \<and> unat n \<le> unat (bk_size (hp_mem h (p - unat H)))"
    if "(p, n) \<in> set live" for p n
  proof -
    have "p - unat H \<in> (\<lambda>(p, sz). p - unat H) ` set live" using that by force
    then show ?thesis using assms that by (auto simp: client_inv_def word_le_nat_alt)
  qed
  have b: "unat (hp_start h) \<le> p - unat H" "after H (hp_mem h) (p - unat H) \<le> unat (hp_start h) + unat (hp_total h)"
    using seg_bounds[OF inv] live[OF assms(2)] by auto
  show "unat (hp_start h) + unat H \<le> p" "p + unat n \<le> unat (hp_start h) + unat (hp_total h)"
    using b live[OF assms(2)] by (auto simp: after_def)
  show "p + unat n \<le> q \<or> q + unat k \<le> p" if "(q, k) \<in> set live" "q \<noteq> p"
  proof -
    have "p - unat H \<noteq> q - unat H" using live[OF assms(2)] live[OF that(1)] that(2) by linarith
    then show ?thesis
      using seg_disjoint[OF inv, of "p - unat H" "q - unat H"] live[OF assms(2)] live[OF that(1)]
      by (auto simp: after_def)
  qed
qed

lemma client_all_free:
  assumes "client_inv H h xs []"
  shows "hp_used h = H \<and> xs = [hp_head h] \<and> unat (bk_size (hp_mem h (hp_head h))) + unat H = unat (hp_total h)"
proof -
  have inv: "heap_inv H h xs" "\<forall>x\<in>set xs. bk_free (hp_mem h x)" using assms by (auto simp: client_inv_def)
  obtain b r where xs: "xs = b # r" using inv by (cases xs) (auto simp: heap_inv_def)
  have "r = []" using heap_inv_apart[OF inv(1)] inv(2) by (cases r) (auto simp: xs apart_Cons)
  then have "xs = [hp_head h]" using inv(1) xs by (auto simp: heap_inv_def seg_Cons)
  then show ?thesis
    using inv by (auto simp: heap_inv_def seg_Cons cost_def after_def word_unat_eq_iff)
qed


section \<open>Properties\<close>

definition blank_block :: block where
  "blank_block = \<lparr>bk_magic = 0, bk_size = 0, bk_next = 0, bk_prev = 0, bk_free = False\<rparr>"

definition lab_heap :: heap where
  "lab_heap = heap_init 20 0x400000 0x100000
     \<lparr>hp_mem = (\<lambda>a. blank_block), hp_bytes = (\<lambda>a. 0), hp_head = 0, hp_total = 0, hp_used = 0,
      hp_start = 0, hp_end = 0\<rparr>"

lemma client_init:
  assumes "0 < unat start" "unat start + unat sz < 2 ^ 31" "H \<le> sz" "0 < H" "H \<le> 64"
  shows "client_inv H (heap_init H start sz h) [unat start] []"
  using heap_init_inv[OF assms, of h] by (auto simp: client_inv_def heap_init_def)

lemma client_start:
  assumes "heap_client H ops (h, live) = Some (h', live')"
  shows "hp_start h' = hp_start h \<and> hp_total h' = hp_total h"
  using assms
proof (induction H ops "(h, live)" arbitrary: h live rule: heap_client.induct)
  case (2 H sz ops h live)
  then show ?case
    by (auto simp: kmalloc_def take_block_def Let_def split: option.splits if_splits prod.splits)
next
  case (3 H i ops h live)
  then show ?case
    by (auto simp: kfree_def Let_def split: option.splits if_splits prod.splits)
qed auto

text \<open>C13. Every sequence of allocations and releases by clients that free only what they hold
  returns; the live allocations lie inside the heap behind their headers, are at least as large
  as requested and never overlap.\<close>

theorem heap_allocations_disjoint:
  assumes "0 < unat start" "unat start + unat sz < 2 ^ 31" "H \<le> sz" "0 < H" "H \<le> 64"
  shows "\<exists>h' live. heap_client H ops (heap_init H start sz h, []) = Some (h', live) \<and>
    distinct (map fst live) \<and>
    list_all (\<lambda>(p, n). unat start + unat H \<le> p \<and> p + unat n \<le> unat start + unat sz) live \<and>
    list_all (\<lambda>(p, n). list_all (\<lambda>(q, k). q = p \<or> p + unat n \<le> q \<or> q + unat k \<le> p) live) live"
proof -
  obtain h' ys live where r: "heap_client H ops (heap_init H start sz h, []) = Some (h', live)"
    and c: "client_inv H h' ys live"
    using heap_client_inv[OF client_init[OF assms, of h], of ops] by blast
  have st: "hp_start h' = start" "hp_total h' = sz" using client_start[OF r] by (simp_all add: heap_init_def)
  have d: "distinct (map fst live)" using c by (simp add: client_inv_def)
  show ?thesis
    using r d client_regions[OF c] st by (fastforce simp: list_all_iff)
qed

lemma heap_allocations_disjoint_witness:
  "\<exists>h' live. heap_client 20 [Alloc 100, Alloc 7, Release 1, Alloc 5000] (lab_heap, []) = Some (h', live) \<and>
    distinct (map fst live)"
proof -
  have u: "unat (0x400000 :: u32) = 0x400000" "unat (0x100000 :: u32) = 0x100000" by simp_all
  show ?thesis
    using heap_allocations_disjoint[of "0x400000" "0x100000" 20
        "[Alloc 100, Alloc 7, Release 1, Alloc 5000]"]
    unfolding lab_heap_def u by (fastforce simp: word_le_nat_alt word_less_nat_alt)
qed

text \<open>C14. Nothing leaks: once a client has released everything it was given, in any order, the heap
  is again one free block of the original size and \<^verbatim>\<open>heap_used\<close> counts one header.\<close>

theorem heap_no_leak:
  assumes "0 < unat start" "unat start + unat sz < 2 ^ 31" "H \<le> sz" "0 < H" "H \<le> 64"
    and "heap_client H ops (heap_init H start sz h, []) = Some (h', [])"
  shows "hp_used h' = H \<and> hp_head h' = unat start \<and> bk_next (hp_mem h' (unat start)) = 0
    \<and> bk_free (hp_mem h' (unat start)) \<and> unat (bk_size (hp_mem h' (unat start))) = unat sz - unat H"
proof -
  obtain ys where c: "client_inv H h' ys []"
    using heap_client_inv[OF client_init[OF assms(1-5), of h], of ops] assms(6) by auto
  have st: "hp_start h' = start" "hp_total h' = sz" using client_start[OF assms(6)] by (simp_all add: heap_init_def)
  have hd: "hp_head h' = unat start" using c st by (auto simp: client_inv_def heap_inv_def)
  have "ys = [unat start]" using client_all_free[OF c] hd by simp
  then show ?thesis
    using c hd client_all_free[OF c] st by (auto simp: client_inv_def heap_inv_def seg_Cons)
qed

text \<open>\<^verbatim>\<open>kmalloc\<close> is first fit and fails only when it must: it returns \<^verbatim>\<open>NULL\<close> exactly for the
  sizes it rejects and when no free block can hold the rounded request, and otherwise the body of
  the first free block that can; the account stays exact.\<close>

theorem kmalloc_first_fit:
  assumes "heap_inv H h xs" "0 < sz" "sz \<le> 0xFFFFFFF0" "align8 sz \<le> hp_total h"
  shows "\<exists>h' ys. kmalloc H sz h = Some (h',
      case find (\<lambda>x. bk_free (hp_mem h x) \<and> bk_size (hp_mem h x) \<ge> align8 sz) xs of
        None \<Rightarrow> 0 | Some b \<Rightarrow> b + unat H) \<and> heap_inv H h' ys"
proof (cases "find (\<lambda>x. bk_free (hp_mem h x) \<and> bk_size (hp_mem h x) \<ge> align8 sz) xs")
  case None
  have "\<forall>x\<in>set xs. bk_free (hp_mem h x) \<longrightarrow> bk_size (hp_mem h x) < align8 sz"
    using None by (auto simp: find_None_iff not_le)
  then have "kmalloc H sz h = Some (h, 0)" by (intro kmalloc_none[OF assms(1)]) blast
  then show ?thesis using assms(1) None by auto
next
  case (Some b)
  have "sz \<noteq> 0" using assms(2) by auto
  then obtain h' ys where "kmalloc H sz h = Some (h', b + unat H)" "heap_inv H h' ys"
    by (rule kmalloc_some[OF assms(1) _ assms(3,4) Some])
  then show ?thesis using Some by auto
qed


lemma kmalloc_first_fit_witness:
  "\<exists>h' ys. kmalloc 20 100 lab_heap = Some (h', 0x400000 + 20) \<and> heap_inv 20 h' ys"
proof -
  have s: "align8 100 = 104" by (simp add: align8_def)
  have inv: "heap_inv 20 lab_heap [0x400000]"
    using heap_init_inv[of "0x400000" "0x100000" 20] by (simp add: lab_heap_def word_le_nat_alt word_less_nat_alt)
  have m: "bk_free (hp_mem lab_heap 0x400000)" "bk_size (hp_mem lab_heap 0x400000) = 0x100000 - 20"
    "hp_total lab_heap = 0x100000"
    by (simp_all add: lab_heap_def heap_init_def)
  show ?thesis
    using kmalloc_first_fit[OF inv, of 100] m by (simp add: s word_le_nat_alt word_less_nat_alt)
qed

lemma heap_no_leak_witness:
  "\<exists>h'. heap_client 20 [Alloc 100, Release 0] (lab_heap, []) = Some (h', []) \<and> hp_used h' = 20"
proof -
  obtain h' ys where k: "kmalloc 20 100 lab_heap = Some (h', 0x400000 + 20)" "heap_inv 20 h' ys"
    using kmalloc_first_fit_witness by blast
  have u: "unat (0x400000 :: u32) = 0x400000" "unat (0x100000 :: u32) = 0x100000" by simp_all
  have c: "client_inv 20 lab_heap [unat (0x400000 :: u32)] []"
    unfolding lab_heap_def by (rule client_init) (simp_all add: u word_le_nat_alt word_less_nat_alt)
  obtain h2 live where r: "heap_client 20 [Alloc 100, Release 0] (lab_heap, []) = Some (h2, live)"
    using heap_client_inv[OF c] by blast
  have l: "live = []" using r k(1) by (auto split: option.splits)
  have "hp_used h2 = 20"
    using heap_no_leak[of "0x400000" "0x100000" 20 "[Alloc 100, Release 0]" _ h2] r
    unfolding l lab_heap_def u by (simp add: word_le_nat_alt word_less_nat_alt)
  then show ?thesis using r l by blast
qed

lemma and_7: "x AND 7 = take_bit 3 x" for x :: u32
proof -
  have "(7 :: u32) = mask 3" by (simp add: mask_eq_exp_minus_1)
  then show ?thesis by (simp add: take_bit_eq_mask)
qed

lemma unat_take3: "unat (take_bit 3 x) = unat x mod 8" for x :: u32
  by (simp add: take_bit_eq_mod unat_mod)

lemma and_7_0: "x AND 7 = 0 \<longleftrightarrow> unat x mod 8 = 0" for x :: u32
  by (metis and_7 unat_take3 unat_eq_0)

text \<open>On i386, where a block header has 20 bytes, the block count of \<^verbatim>\<open>heap_stats\<close> is wrong as
  soon as the heap holds a second block behind a first block of a rounded size: the second header
  lies 4 bytes off an 8-byte boundary, the walk takes it for a bad block and stops at 1.\<close>

theorem heap_stats_stops_early:
  assumes "heap_inv 20 h (x # y # ys)" "hp_start h AND 7 = 0" "bk_size (hp_mem h x) AND 7 = 0"
  shows "heap_stats 20 h = Some (hp_total h, hp_used h, 1)"
proof -
  let ?m = "hp_mem h" and ?e = "unat (hp_start h) + unat (hp_total h)"
  have i: "0 < unat (hp_start h)" "hp_head h = unat (hp_start h)" "?e < 2 ^ 31"
    "hp_end h = hp_start h + hp_total h" "seg 20 ?m 0 (hp_head h) 0 ?e (x # y # ys)"
    using assms(1) by (auto simp: heap_inv_def)
  have x: "x = hp_head h" "bk_next (?m x) = y" "block_ok (?m x)" "y = after 20 ?m x" "after 20 ?m y \<le> ?e"
    using i(5) seg_bounds[OF i(5)] by (auto simp: seg_Cons)
  have y: "y = unat (hp_start h) + 20 + unat (bk_size (?m x))" "y + 20 \<le> ?e"
    using x(1,4,5) i(2) by (simp_all add: after_def)
  have yw: "unat (of_nat y :: u32) = y" using y(2) i(3) by (intro unat_of_nat_u32) simp
  have e: "unat (hp_end h) = ?e" using i(3,4) by (simp add: unat_add_u32)
  have off: "(of_nat y :: u32) AND 7 \<noteq> 0"
  proof -
    have "y mod 8 = 4"
      using assms(2,3) unfolding and_7_0 y(1) by presburger
    then show ?thesis by (simp add: and_7_0 yw)
  qed
  have a: "(of_nat x :: u32) = hp_start h" "x \<noteq> 0" using x(1) i(1,2) by simp_all
  have s: "\<not> hp_start h + 20 > hp_end h"
    using y e i(3) by (simp add: word_less_nat_alt unat_add_u32)
  have m: "bk_magic (?m x) = MAGIC_USED \<or> bk_magic (?m x) = MAGIC_FREE" using x(3) by (auto simp: block_ok_def)
  have "stats_walk 20 h x 0 = Some 1"
    using a s m assms(2) x(2) off y by (subst stats_walk.simps) (auto simp: Let_def)
  then show ?thesis by (simp add: heap_stats_def x(1))
qed

text \<open>\<^verbatim>\<open>kcalloc\<close> is immune to overflow: a block it hands out holds the true product of its
  arguments and is cleared, and its caller's other memory is untouched.\<close>

theorem kcalloc_no_overflow:
  assumes "heap_inv H h xs" "kcalloc H n sz h = Some (h', p)" "p \<noteq> 0"
  shows "unat n * unat sz \<le> unat (bk_size (hp_mem h' (p - unat H))) \<and>
    list_all (\<lambda>i. hp_bytes h' (p + i) = 0) [0..<unat n * unat sz] \<and>
    (a < p \<or> p + unat n * unat sz \<le> a \<longrightarrow> hp_bytes h' a = hp_bytes h a)"
proof -
  have H: "0 < unat H" using assms(1) by (auto simp: heap_inv_def word_less_nat_alt)
  obtain h1 where k: "kmalloc H (n * sz) h = Some (h1, p)"
    "h' = h1\<lparr>hp_bytes := fill_bytes p (replicate (unat (n * sz)) 0) (hp_bytes h1)\<rparr>"
    and ov: "n = 0 \<or> sz = 0 \<or> n \<le> 0xFFFFFFFF div sz"
    using assms(2,3) by (auto simp: kcalloc_def not_less split: if_splits option.splits prod.splits)
  have prod: "unat (n * sz) = unat n * unat sz"
  proof -
    have "unat n * unat sz < 2 ^ 32"
    proof (cases "n = 0 \<or> sz = 0")
      case False
      then have "unat n \<le> 4294967295 div unat sz" using ov by (simp add: word_le_nat_alt unat_div)
      then have "unat n * unat sz \<le> 4294967295" using False
        by (metis div_times_less_eq_dividend mult_le_mono1 order_trans)
      then show ?thesis by simp
    qed auto
    then show ?thesis by (simp add: unat_word_ariths)
  qed
  have bytes: "hp_bytes h1 = hp_bytes h"
    using k(1) by (auto simp: kmalloc_def take_block_def Let_def split: if_splits option.splits prod.splits)
  have sz: "n * sz \<le> bk_size (hp_mem h1 (p - unat H))"
  proof -
    have ok: "n * sz \<noteq> 0" "n * sz \<le> 0xFFFFFFF0" "align8 (n * sz) \<le> hp_total h"
      using k(1) assms(3) by (auto simp: kmalloc_def Let_def not_less split: if_splits)
    obtain b where f: "find (\<lambda>x. bk_free (hp_mem h x) \<and> bk_size (hp_mem h x) \<ge> align8 (n * sz)) xs = Some b"
      using kmalloc_none[OF assms(1), of "n * sz"] k(1) assms(3)
      by (cases "find (\<lambda>x. bk_free (hp_mem h x) \<and> bk_size (hp_mem h x) \<ge> align8 (n * sz)) xs")
         (auto simp: find_None_iff not_le)
    show ?thesis by (rule kmalloc_some[OF assms(1) ok f]) (use k(1) in auto)
  qed
  show ?thesis
    using sz prod k(2) bytes by (auto simp: fill_bytes_def word_le_nat_alt list_all_iff)
qed

lemma kcalloc_no_overflow_witness:
  "\<exists>h' p. kcalloc 20 5 20 lab_heap = Some (h', p) \<and> 100 \<le> unat (bk_size (hp_mem h' (p - 20)))"
proof -
  obtain h' ys where k: "kmalloc 20 100 lab_heap = Some (h', 0x400000 + 20)"
    using kmalloc_first_fit_witness by blast
  have inv: "heap_inv 20 lab_heap [0x400000]"
    using heap_init_inv[of "0x400000" "0x100000" 20] by (simp add: lab_heap_def word_le_nat_alt word_less_nat_alt)
  obtain h2 where c: "kcalloc 20 5 20 lab_heap = Some (h2, 0x400000 + 20)"
    using k by (simp add: kcalloc_def word_less_nat_alt unat_div)
  show ?thesis using kcalloc_no_overflow[OF inv c] c by auto
qed

lemma heap_stats_stops_early_witness:
  "heap_stats 20 (take_block 20 104 0x400000 lab_heap) = Some (0x100000, 144, 1)"
proof -
  let ?h = "take_block 20 104 0x400000 lab_heap"
  have inv: "heap_inv 20 lab_heap [0x400000]"
    using heap_init_inv[of "0x400000" "0x100000" 20] by (simp add: lab_heap_def word_le_nat_alt word_less_nat_alt)
  have e: "hp_mem ?h 0x400000 = \<lparr>bk_magic = MAGIC_USED, bk_size = 104, bk_next = 0x40007C, bk_prev = 0, bk_free = False\<rparr>"
    "hp_mem ?h 0x40007C = \<lparr>bk_magic = MAGIC_FREE, bk_size = 0xFFF70, bk_next = 0, bk_prev = 0x400000, bk_free = True\<rparr>"
    "hp_start ?h = 0x400000" "hp_total ?h = 0x100000" "hp_used ?h = 144" "hp_end ?h = 0x500000" "hp_head ?h = 0x400000"
    by (simp_all add: take_block_def split_block_def lab_heap_def heap_init_def Let_def word_less_nat_alt)
  have "heap_inv 20 ?h [0x400000, 0x40007C]"
    using e by (simp add: heap_inv_def seg_Cons after_def cost_def block_ok_def word_less_nat_alt word_le_nat_alt)
  then show ?thesis using heap_stats_stops_early[of ?h "0x400000" "0x40007C" "[]"] e by simp
qed

end
