(* ===== verification/Textedit.thy ===== *)
theory Textedit
  imports KV_Base
begin

text \<open>
  The bounded text model of the editors, \<^verbatim>\<open>kernel/textedit.c\<close>. A document holds its live
  bytes (\<^verbatim>\<open>data[0..used)\<close>, with 0 where a line ends; the terminator at \<^verbatim>\<open>used\<close> is left
  implicit) and the offsets of its lines (\<^verbatim>\<open>start[0..lines)\<close>); the undo history holds its live
  changes and the live bytes of its payload. Fields that a document keeps nonnegative are
  natural numbers.
\<close>

section \<open>Data\<close>

definition ED_CAP :: nat where "ED_CAP = 65536"
definition ED_COLS :: nat where "ED_COLS = 120"
definition ED_QUERY_CAP :: nat where "ED_QUERY_CAP = 128"
definition ED_HISTORY_STEPS :: nat where "ED_HISTORY_STEPS = 64"
definition ED_HISTORY_BYTES :: nat where "ED_HISTORY_BYTES = 131072"

record textdoc =
  ed_data :: "u8 list"
  ed_start :: "nat list"
  ed_cy :: nat
  ed_cx :: nat
  ed_top :: int
  ed_left :: int
  ed_dirty :: bool
  ed_ay :: nat
  ed_ax :: nat
  ed_selecting :: bool
  ed_width :: nat

record textmark =
  mk_cy :: nat
  mk_cx :: nat
  mk_top :: int
  mk_left :: int
  mk_ay :: nat
  mk_ax :: nat
  mk_selecting :: bool
  mk_revision :: u32

record textchange =
  ch_at :: nat
  ch_removed :: nat
  ch_inserted :: nat
  ch_data :: nat
  ch_before :: textmark
  ch_after :: textmark

record textundo =
  un_data :: "u8 list"
  un_changes :: "textchange list"
  un_cursor :: nat
  un_serial :: u32
  un_current :: u32
  un_saved :: u32

section \<open>Characters of a line\<close>

text \<open>A line is its bytes before the NUL; position \<open>length s\<close> reads the NUL.\<close>

definition is_cont :: "u8 \<Rightarrow> bool" where
  "is_cont c \<longleftrightarrow> c AND 0xC0 = 0x80"

definition text_next :: "u8 list \<Rightarrow> nat \<Rightarrow> nat" where
  "text_next s col =
     (if length s \<le> col then col else col + 1 + length (takeWhile is_cont (drop (col + 1) s)))"

fun text_prev_loop :: "u8 list \<Rightarrow> nat \<Rightarrow> nat" where
  "text_prev_loop s 0 = 0"
| "text_prev_loop s (Suc col) = (if is_cont (s ! Suc col) then text_prev_loop s col else Suc col)"

definition text_prev :: "u8 list \<Rightarrow> nat \<Rightarrow> nat" where
  "text_prev s col = (if col = 0 then 0 else text_prev_loop s (col - 1))"

lemma text_next_gt: "i < length s \<Longrightarrow> i < text_next s i"
  by (simp add: text_next_def)

function column_from :: "u8 list \<Rightarrow> nat \<Rightarrow> nat \<Rightarrow> nat" where
  "column_from s byte i = (if i < length s \<and> i < byte then 1 + column_from s byte (text_next s i) else 0)"
  by pat_completeness auto
termination
  by (relation "measure (\<lambda>(s, b, i). length s - i)") (auto intro: diff_less_mono2 text_next_gt)

declare column_from.simps [simp del]

definition text_column :: "u8 list \<Rightarrow> nat \<Rightarrow> nat" where
  "text_column s byte = column_from s byte 0"

fun text_byte_from :: "u8 list \<Rightarrow> nat \<Rightarrow> nat \<Rightarrow> nat" where
  "text_byte_from s 0 i = i"
| "text_byte_from s (Suc n) i = (if i < length s then text_byte_from s n (text_next s i) else i)"

definition text_byte :: "u8 list \<Rightarrow> int \<Rightarrow> nat" where
  "text_byte s column = text_byte_from s (nat column) 0"

section \<open>Documents\<close>

definition ed_used :: "textdoc \<Rightarrow> nat" where
  "ed_used d = length (ed_data d)"

definition ed_lines :: "textdoc \<Rightarrow> nat" where
  "ed_lines d = length (ed_start d)"

definition text_line :: "textdoc \<Rightarrow> nat \<Rightarrow> u8 list" where
  "text_line d row = cstr (drop (ed_start d ! row) (ed_data d))"

definition text_copy :: "textdoc \<Rightarrow> textdoc \<Rightarrow> textdoc" where
  "text_copy dst src = dst\<lparr>ed_data := ed_data src, ed_start := ed_start src, ed_cy := ed_cy src,
     ed_cx := ed_cx src, ed_top := ed_top src, ed_left := ed_left src, ed_dirty := ed_dirty src,
     ed_ay := ed_ay src, ed_ax := ed_ax src, ed_selecting := ed_selecting src, ed_width := ed_width src\<rparr>"

definition text_reset :: "textdoc \<Rightarrow> textdoc" where
  "text_reset d = d\<lparr>ed_data := [], ed_start := [0], ed_width := 0, ed_cx := 0, ed_cy := 0, ed_top := 0,
     ed_left := 0, ed_dirty := False, ed_ax := 0, ed_ay := 0, ed_selecting := False\<rparr>"

fun normalize_from :: "u8 list \<Rightarrow> nat \<Rightarrow> u8 list \<Rightarrow> u8 list option" where
  "normalize_from [] col out = Some out"
| "normalize_from (c # s) col out =
     (if c = 13 then normalize_from s col out
      else if c \<noteq> 10 \<and> c \<noteq> 9 \<and> (c < 32 \<or> c = 127) then None
      else let col = (if c = 10 then 0 else if c = 9 then col + 4 else col + 1);
               n = (if c = 9 then 4 else 1) in
        if col > ED_COLS then None
        else if length out + n > ED_CAP - 1 then None
        else normalize_from s col (out @ replicate n (if c = 9 then 32 else c)))"

definition normalize :: "u8 list \<Rightarrow> u8 list option" where
  "normalize s = normalize_from s 0 []"

fun starts_from :: "nat \<Rightarrow> u8 list \<Rightarrow> nat list" where
  "starts_from i [] = []"
| "starts_from i (c # s) = (if c = 10 then (i + 1) # starts_from (i + 1) s else starts_from (i + 1) s)"

definition text_import :: "u8 list \<Rightarrow> textdoc \<Rightarrow> textdoc" where
  "text_import s d =
     (let s = cstr s;
          d = d\<lparr>ed_data := map (\<lambda>c. if c = 10 then 0 else c) s, ed_start := 0 # starts_from 0 s\<rparr>
      in d\<lparr>ed_width := fold (\<lambda>r w. let k = text_column (text_line d r) (length (text_line d r))
                                  in if k > w then k else w) [0..<ed_lines d] 0\<rparr>)"

definition text_set :: "u8 list \<Rightarrow> textdoc \<Rightarrow> textdoc \<times> bool" where
  "text_set s d =
     (if length s \<ge> ED_CAP then (d, False)
      else case normalize s of None \<Rightarrow> (d, False) | Some t \<Rightarrow> (text_import t (text_reset d), True))"

definition text_export :: "textdoc \<Rightarrow> u8 list" where
  "text_export d = map (\<lambda>c. if c = 0 then 10 else c) (ed_data d)"

definition text_offset :: "textdoc \<Rightarrow> nat \<Rightarrow> nat \<Rightarrow> nat" where
  "text_offset d row col = ed_start d ! row + col"

function line_search :: "nat list \<Rightarrow> nat \<Rightarrow> nat \<Rightarrow> nat \<Rightarrow> nat" where
  "line_search st off low high =
     (if low < high
      then let mid = low + (high - low) div 2 in
           if st ! mid \<le> off then line_search st off (mid + 1) high else line_search st off low mid
      else low)"
  by pat_completeness auto
termination by (relation "measure (\<lambda>(st, off, low, high). high - low)") auto

declare line_search.simps [simp del]

definition text_position :: "nat \<Rightarrow> textdoc \<Rightarrow> textdoc" where
  "text_position off d =
     (let off = (if off > ed_used d then ed_used d else off);
          low = line_search (ed_start d) off 0 (ed_lines d);
          cy = (if low \<noteq> 0 then low - 1 else 0)
      in d\<lparr>ed_cy := cy, ed_cx := off - ed_start d ! cy\<rparr>)"

definition text_selected :: "textdoc \<Rightarrow> bool" where
  "text_selected d \<longleftrightarrow> ed_selecting d \<and> (ed_cy d \<noteq> ed_ay d \<or> ed_cx d \<noteq> ed_ax d)"

definition text_range :: "textdoc \<Rightarrow> nat \<times> nat" where
  "text_range d =
     (let a = text_offset d (ed_cy d) (ed_cx d) in
      if text_selected d
      then let n = text_offset d (ed_ay d) (ed_ax d) in if n < a then (n, a) else (a, n)
      else (a, a))"

definition ed_mark :: "textdoc \<Rightarrow> u32 \<Rightarrow> textmark" where
  "ed_mark d rv = \<lparr>mk_cy = ed_cy d, mk_cx = ed_cx d, mk_top = ed_top d, mk_left = ed_left d,
     mk_ay = ed_ay d, mk_ax = ed_ax d, mk_selecting = ed_selecting d, mk_revision = rv\<rparr>"

definition ed_restore :: "textmark \<Rightarrow> textdoc \<Rightarrow> textdoc" where
  "ed_restore m d = d\<lparr>ed_cy := mk_cy m, ed_cx := mk_cx m, ed_top := mk_top m, ed_left := mk_left m,
     ed_ay := mk_ay m, ed_ax := mk_ax m, ed_selecting := mk_selecting m\<rparr>"

section \<open>History\<close>

definition text_history_reset :: "textdoc \<Rightarrow> textundo \<Rightarrow> textundo" where
  "text_history_reset d u = u\<lparr>un_data := [], un_changes := [], un_cursor := 0, un_serial := 0,
     un_current := 0, un_saved := (if ed_dirty d then -1 else 0)\<rparr>"

definition text_saved :: "textdoc \<Rightarrow> textundo \<Rightarrow> textdoc \<times> textundo" where
  "text_saved d u = (d\<lparr>ed_dirty := False\<rparr>, u\<lparr>un_saved := un_current u\<rparr>)"

fun evict :: "nat \<Rightarrow> textchange list \<Rightarrow> u8 list \<Rightarrow> textchange list \<times> u8 list" where
  "evict bytes [] data = ([], data)"
| "evict bytes (c # cs) data =
     (if length (c # cs) = ED_HISTORY_STEPS \<or> length data + bytes > ED_HISTORY_BYTES
      then let cut = ch_removed c + ch_inserted c in
           evict bytes (map (\<lambda>x. x\<lparr>ch_data := ch_data x - cut\<rparr>) cs) (drop cut data)
      else (c # cs, data))"

text \<open>\<^verbatim>\<open>history_push\<close> makes room: the new change is the next one, its payload starts at the end.\<close>

definition history_room :: "textdoc \<Rightarrow> nat \<Rightarrow> textundo \<Rightarrow> textundo" where
  "history_room d bytes u =
     (let u = (if un_serial u \<ge> 0xFFFFFFFE then text_history_reset d u else u);
          data = (if un_cursor u < length (un_changes u)
                  then take (ch_data (un_changes u ! un_cursor u)) (un_data u) else un_data u);
          (cs, data) = evict bytes (take (un_cursor u) (un_changes u)) data
      in u\<lparr>un_changes := cs, un_data := data, un_cursor := length cs\<rparr>)"

definition set_before :: "textmark \<Rightarrow> textundo \<Rightarrow> textundo" where
  "set_before m u = u\<lparr>un_changes := (un_changes u)[un_cursor u - 1 := (un_changes u ! (un_cursor u - 1))\<lparr>ch_before := m\<rparr>]\<rparr>"

definition set_after :: "textmark \<Rightarrow> textundo \<Rightarrow> textundo" where
  "set_after m u = u\<lparr>un_changes := (un_changes u)[un_cursor u - 1 := (un_changes u ! (un_cursor u - 1))\<lparr>ch_after := m\<rparr>]\<rparr>"

definition expanded_length :: "u8 list \<Rightarrow> nat" where
  "expanded_length s = (\<Sum>c\<leftarrow>s. if c = 13 then 0 else if c = 9 then 4 else 1)"

definition text_replace :: "u8 list \<Rightarrow> textdoc \<times> textundo \<Rightarrow> (textdoc \<times> textundo) \<times> bool" where
  "text_replace s du =
     (case du of (d, u) \<Rightarrow>
      let txt = text_export d; (a, b) = text_range d in
      if length s \<ge> ED_CAP \<or> length txt - (b - a) + length s \<ge> ED_CAP then (du, False)
      else case normalize (take a txt @ s @ drop b txt) of
        None \<Rightarrow> (du, False)
      | Some new \<Rightarrow>
          let ins = expanded_length s in
          if a = b \<and> ins = 0 then (du, True)
          else
            let u = history_room d (b - a + ins) u;
                c = \<lparr>ch_at = a, ch_removed = b - a, ch_inserted = ins, ch_data = length (un_data u),
                      ch_before = ed_mark d (un_current u), ch_after = ed_mark d 0\<rparr>;
                u = u\<lparr>un_changes := un_changes u @ [c], un_cursor := length (un_changes u) + 1,
                       un_data := un_data u @ take (b - a) (drop a txt) @ take ins (drop a new)\<rparr>;
                d = text_position (a + ins) (text_import new d);
                d = d\<lparr>ed_selecting := False, ed_dirty := True\<rparr>;
                u = u\<lparr>un_serial := un_serial u + 1, un_current := un_serial u + 1\<rparr>;
                u = set_after (ed_mark d (un_current u)) u
            in ((d, u), True))"

definition text_delete :: "bool \<Rightarrow> textdoc \<times> textundo \<Rightarrow> (textdoc \<times> textundo) \<times> bool" where
  "text_delete backwards du =
     (case du of (d, u) \<Rightarrow>
      if text_selected d then text_replace [] (d, u)
      else
        let pos = text_offset d (ed_cy d) (ed_cx d); cy = ed_cy d; cx = ed_cx d in
        if (backwards \<and> pos = 0)
           \<or> (\<not> backwards \<and> cy + 1 = ed_lines d \<and> length (text_line d cy) \<le> cx) then (du, True)
        else
          let original = ed_mark d (un_current u);
              d1 = d\<lparr>ed_ay := cy, ed_ax := cx, ed_selecting := True\<rparr>;
              d2 = (if backwards
                    then if cx \<noteq> 0 then d1\<lparr>ed_cx := text_prev (text_line d1 cy) cx\<rparr>
                         else d1\<lparr>ed_cy := cy - 1, ed_cx := length (text_line d1 (cy - 1))\<rparr>
                    else if cx < length (text_line d1 cy) then d1\<lparr>ed_cx := text_next (text_line d1 cy) cx\<rparr>
                         else d1\<lparr>ed_cy := cy + 1, ed_cx := 0\<rparr>)
          in case text_replace [] (d2, u) of
               ((d3, u3), True) \<Rightarrow>
                 ((d3, set_before (original\<lparr>mk_revision := mk_revision (ch_before (un_changes u3 ! (un_cursor u3 - 1)))\<rparr>) u3), True)
             | ((d3, u3), False) \<Rightarrow> ((ed_restore original d3, u3), False))"

definition history_apply :: "bool \<Rightarrow> textdoc \<times> textundo \<Rightarrow> (textdoc \<times> textundo) \<times> bool" where
  "history_apply redo du =
     (case du of (d, u) \<Rightarrow>
      if (if redo then un_cursor u = length (un_changes u) else un_cursor u = 0) then (du, False)
      else
        let c = un_changes u ! (if redo then un_cursor u else un_cursor u - 1);
            removed = (if redo then ch_removed c else ch_inserted c);
            inserted = (if redo then ch_inserted c else ch_removed c);
            payload = take inserted (drop (ch_data c + (if redo then ch_removed c else 0)) (un_data u));
            txt = text_export d;
            d = text_import (take (ch_at c) txt @ payload @ drop (ch_at c + removed) txt) d;
            m = (if redo then ch_after c else ch_before c);
            d = ed_restore m d;
            u = u\<lparr>un_current := mk_revision m\<rparr>;
            d = d\<lparr>ed_dirty := (un_current u \<noteq> un_saved u)\<rparr>
        in ((d, u\<lparr>un_cursor := (if redo then un_cursor u + 1 else un_cursor u - 1)\<rparr>), True))"

definition text_undo :: "textdoc \<times> textundo \<Rightarrow> (textdoc \<times> textundo) \<times> bool" where
  "text_undo = history_apply False"

definition text_redo :: "textdoc \<times> textundo \<Rightarrow> (textdoc \<times> textundo) \<times> bool" where
  "text_redo = history_apply True"

section \<open>Search\<close>

definition text_boundary :: "textdoc \<Rightarrow> nat \<Rightarrow> bool" where
  "text_boundary d at' \<longleftrightarrow> at' = ed_used d \<or> \<not> is_cont (ed_data d ! at')"

definition text_matches :: "textdoc \<Rightarrow> u8 list \<Rightarrow> nat \<Rightarrow> bool" where
  "text_matches d q at' \<longleftrightarrow>
     at' \<le> ed_used d \<and> length q \<le> ed_used d - at' \<and> text_boundary d at' \<and> text_boundary d (at' + length q)
     \<and> take (length q) (drop at' (text_export d)) = q"

definition query_ok :: "u8 list \<Rightarrow> bool" where
  "query_ok q \<longleftrightarrow> q \<noteq> [] \<and> length q < ED_QUERY_CAP \<and> \<not> is_cont (hd q) \<and> 0 \<notin> set q"

definition text_find :: "textdoc \<Rightarrow> u8 list \<Rightarrow> nat \<Rightarrow> bool \<Rightarrow> bool \<Rightarrow> nat option" where
  "text_find d q start backwards wrap =
     (if \<not> query_ok q \<or> length q > ed_used d then None
      else
        let last = ed_used d - length q;
            start = (if start > ed_used d then ed_used d else start) in
        if \<not> backwards then
          (case find (text_matches d q) [start..<last + 1] of
             Some i \<Rightarrow> Some i
           | None \<Rightarrow> if wrap then find (text_matches d q) [0..<min start (last + 1)] else None)
        else
          let first = (if start < last then start else last) in
          (case find (text_matches d q) (rev [0..<first + 1]) of
             Some i \<Rightarrow> Some i
           | None \<Rightarrow> if wrap then find (text_matches d q) (rev [first + 1..<last + 1]) else None))"

function replace_scan :: "textdoc \<Rightarrow> u8 list \<Rightarrow> u8 list \<Rightarrow> nat \<Rightarrow> u8 list \<Rightarrow> nat \<Rightarrow> (u8 list \<times> nat) option" where
  "replace_scan d q s i out hits =
     (if i < ed_used d then
        if q \<noteq> [] \<and> text_matches d q i then
          if length s \<ge> ED_CAP - length out then None
          else replace_scan d q s (i + length q) (out @ s) (hits + 1)
        else if length out \<ge> ED_CAP - 1 then None
        else replace_scan d q s (i + 1) (out @ [text_export d ! i]) hits
      else Some (out, hits))"
  by pat_completeness auto
termination
  by (relation "measure (\<lambda>(d, q, s, i, out, hits). ed_used d - i)") (auto intro: diff_less_mono2)

declare replace_scan.simps [simp del]

definition text_replace_all :: "u8 list \<Rightarrow> u8 list \<Rightarrow> textdoc \<times> textundo \<Rightarrow> (textdoc \<times> textundo) \<times> nat \<times> bool" where
  "text_replace_all q s du =
     (case du of (d, u) \<Rightarrow>
      if \<not> query_ok q \<or> length s \<ge> ED_QUERY_CAP then (du, 0, False)
      else case replace_scan d q s 0 [] 0 of
        None \<Rightarrow> (du, 0, False)
      | Some (out, hits) \<Rightarrow>
          if hits = 0 then (du, 0, True)
          else if out = text_export d then (du, hits, True)
          else
            let original = ed_mark d (un_current u);
                caret = text_offset d (ed_cy d) (ed_cx d);
                last = ed_lines d - 1;
                d1 = d\<lparr>ed_ay := 0, ed_ax := 0, ed_cy := last, ed_cx := length (text_line d last), ed_selecting := True\<rparr>
            in case text_replace out (d1, u) of
                 ((d2, u2), False) \<Rightarrow> ((ed_restore original d2, u2), 0, False)
               | ((d2, u2), True) \<Rightarrow>
                   let u3 = set_before (original\<lparr>mk_revision := mk_revision (ch_before (un_changes u2 ! (un_cursor u2 - 1)))\<rparr>) u2;
                       d3 = text_position caret d2
                   in ((d3, set_after (ed_mark d3 (un_current u3)) u3), hits, True))"

end
