(* ===== verification/Textedit_Inv.thy ===== *)
theory Textedit_Inv
  imports Textedit
begin

text \<open>
  The invariant of a document and of its undo history, and what each editing operation does to the
  text. The text of a document is the byte list with real newlines; positions are rows and columns
  in it.
\<close>

section \<open>Normalised text\<close>

definition expand :: "u8 list \<Rightarrow> u8 list" where
  "expand s = concat (map (\<lambda>c. if c = 13 then [] else if c = 9 then replicate 4 32 else [c]) s)"

definition clean :: "u8 list \<Rightarrow> bool" where
  "clean t \<longleftrightarrow> normalize t = Some t"

lemma expand_append: "expand (s @ t) = expand s @ expand t"
  by (simp add: expand_def)

lemma expand_plain: "9 \<notin> set s \<Longrightarrow> 13 \<notin> set s \<Longrightarrow> expand s = s"
  by (induction s) (auto simp: expand_def)

lemma length_expand: "length (expand s) = expanded_length s"
  by (induction s) (auto simp: expand_def expanded_length_def)

lemma expand_Cons:
  "expand (c # s) = (if c = 13 then [] else if c = 9 then replicate 4 32 else [c]) @ expand s"
  by (simp add: expand_def)

lemma normalize_from_some:
  "normalize_from s col out = Some t \<Longrightarrow> length out < ED_CAP \<Longrightarrow>
     t = out @ expand s \<and> length t < ED_CAP \<and> (\<forall>c\<in>set (expand s). c = 10 \<or> 32 \<le> c \<and> c \<noteq> 127)"
proof (induction s arbitrary: col out)
  case Nil
  then show ?case by (simp add: expand_def)
next
  case (Cons c s)
  show ?case
  proof (cases "c = 13")
    case True
    then show ?thesis using Cons.IH[of col out] Cons.prems by (auto simp: expand_Cons)
  next
    case False
    let ?n = "if c = 9 then 4 else 1 :: nat" and ?x = "if c = 9 then 32 else c"
    obtain col' where r: "normalize_from s col' (out @ replicate ?n ?x) = Some t"
      "length out + ?n \<le> ED_CAP - 1" "c = 10 \<or> c = 9 \<or> 32 \<le> c \<and> c \<noteq> 127"
      using Cons.prems(1) False by (auto simp: Let_def not_less split: if_splits)
    have "length (out @ replicate ?n ?x) < ED_CAP" using r(2) by (simp add: ED_CAP_def)
    from Cons.IH[OF r(1) this] show ?thesis
      using r(3) False by (auto simp: expand_Cons word_le_nat_alt)
  qed
qed

lemma replicate4: "replicate 4 x = [x, x, x, x]"
  by (simp add: numeral_eq_Suc)

lemma normalize_from_again:
  "normalize_from s col out = Some t \<Longrightarrow> normalize_from (expand s) col out = Some t"
proof (induction s col out rule: normalize_from.induct)
  case (2 c s col out)
  show ?case
  proof (cases "c = 9")
    case True
    then have s: "normalize_from s (col + 4) (out @ replicate 4 32) = Some t"
      "\<not> ED_COLS < col + 4" "\<not> ED_CAP - 1 < length out + 4"
      using 2(3) by (auto simp: Let_def split: if_splits)
    have cc: "col + 4 = Suc (Suc (Suc (Suc col)))" by simp
    have e: "expand (c # s) = 32 # 32 # 32 # 32 # expand s"
      using True by (simp add: expand_def replicate4)
    have "normalize_from (expand s) (col + 4) (out @ replicate 4 32) = Some t"
      using 2(2) s True by (simp add: Let_def)
    then show ?thesis
      using s(2,3) cc unfolding e by (simp add: Let_def replicate4 word_less_nat_alt)
  next
    case False
    then show ?thesis using 2 by (auto simp: expand_def Let_def split: if_splits)
  qed
qed (simp add: expand_def)

lemma normalize_some:
  assumes "normalize s = Some t"
  shows "t = expand s" "length t < ED_CAP" "\<And>c. c \<in> set t \<Longrightarrow> c = 10 \<or> 32 \<le> c \<and> c \<noteq> 127" "clean t"
proof -
  have "length ([] :: u8 list) < ED_CAP" by (simp add: ED_CAP_def)
  note n = normalize_from_some[OF assms[unfolded normalize_def] this]
  show e: "t = expand s" using n by simp
  show "length t < ED_CAP" "\<And>c. c \<in> set t \<Longrightarrow> c = 10 \<or> 32 \<le> c \<and> c \<noteq> 127" using n by auto
  show "clean t" using normalize_from_again[OF assms[unfolded normalize_def]] e by (simp add: clean_def normalize_def)
qed

lemma clean_chars:
  assumes "clean t"
  shows "length t < ED_CAP" "0 \<notin> set t" "9 \<notin> set t" "13 \<notin> set t"
  using normalize_some(2,3)[OF assms[unfolded clean_def]]
  by auto (fastforce simp: word_le_nat_alt)+

lemma clean_splice:
  assumes "clean t" "normalize (take a t @ s @ drop b t) = Some new"
  shows "new = take a t @ expand s @ drop b t" "clean new"
proof -
  have "expand (take a t) = take a t" "expand (drop b t) = drop b t"
    using clean_chars(3,4)[OF assms(1)] by (auto intro!: expand_plain dest: in_set_takeD in_set_dropD)
  then show "new = take a t @ expand s @ drop b t"
    using normalize_some(1)[OF assms(2)] by (simp add: expand_append)
  show "clean new" by (rule normalize_some(4)[OF assms(2)])
qed

section \<open>Lines\<close>

definition line_starts :: "u8 list \<Rightarrow> nat list" where
  "line_starts t = 0 # starts_from 0 t"

lemma starts_from_filter:
  "starts_from i t = filter (\<lambda>j. i < j \<and> t ! (j - i - 1) = 10) [i + 1..<i + length t + 1]"
proof (induction t arbitrary: i)
  case (Cons c t)
  have u: "[i + 1..<i + length (c # t) + 1] = (i + 1) # [i + 2..<i + 1 + length t + 1]"
    by (simp add: upt_rec)
  have "filter (\<lambda>j. i < j \<and> (c # t) ! (j - i - 1) = 10) [i + 2..<i + 1 + length t + 1]
      = filter (\<lambda>j. i + 1 < j \<and> t ! (j - (i + 1) - 1) = 10) [i + 2..<i + 1 + length t + 1]"
    by (rule filter_cong) (auto simp: nth_Cons')
  moreover have "starts_from (i + 1) t = filter (\<lambda>j. i + 1 < j \<and> t ! (j - (i + 1) - 1) = 10) [i + 2..<i + 1 + length t + 1]"
    using Cons.IH[of "i + 1"] by (simp only: add.assoc) (simp only: one_add_one)
  ultimately show ?case unfolding u by (cases "c = 10") (simp_all del: upt_Suc)
qed simp

lemma line_starts_filter:
  "line_starts t = filter (\<lambda>j. j = 0 \<or> t ! (j - 1) = 10) [0..<length t + 1]"
proof -
  have "[0..<length t + 1] = 0 # [1..<length t + 1]" by (simp add: upt_rec)
  moreover have "filter (\<lambda>j. j = 0 \<or> t ! (j - 1) = 10) [1..<length t + 1] = starts_from 0 t"
    unfolding starts_from_filter by (rule filter_cong) auto
  ultimately show ?thesis by (simp add: line_starts_def)
qed

lemma line_starts_props:
  "sorted (line_starts t)" "distinct (line_starts t)" "line_starts t \<noteq> []" "line_starts t ! 0 = 0"
  "j \<in> set (line_starts t) \<longleftrightarrow> j \<le> length t \<and> (j = 0 \<or> t ! (j - 1) = 10)"
proof -
  show "sorted (line_starts t)" "distinct (line_starts t)"
    unfolding line_starts_filter
    by (simp_all only: sorted_wrt_filter sorted_upt distinct_filter distinct_upt)
  show "j \<in> set (line_starts t) \<longleftrightarrow> j \<le> length t \<and> (j = 0 \<or> t ! (j - 1) = 10)"
    unfolding line_starts_filter by (auto simp del: upt_Suc)
qed (simp_all add: line_starts_def)

lemma line_search_bounds:
  assumes "low \<le> high" "high \<le> length st" "sorted st"
    "\<And>i. i < low \<Longrightarrow> st ! i \<le> off" "\<And>i. high \<le> i \<Longrightarrow> i < length st \<Longrightarrow> off < st ! i"
  shows "line_search st off low high \<le> length st \<and> (\<forall>i<line_search st off low high. st ! i \<le> off)
    \<and> (\<forall>i. line_search st off low high \<le> i \<and> i < length st \<longrightarrow> off < st ! i)"
  using assms
proof (induction st off low high rule: line_search.induct)
  case (1 st off low high)
  let ?mid = "low + (high - low) div 2"
  show ?case
  proof (cases "low < high")
    case False
    then show ?thesis using 1(3-7) by (subst line_search.simps, subst (2) line_search.simps, subst (3) line_search.simps) auto
  next
    case True
    then have m: "low \<le> ?mid" "?mid < high" "?mid < length st" using 1(4) by auto
    show ?thesis
    proof (cases "st ! ?mid \<le> off")
      case mid: True
      have eq: "line_search st off low high = line_search st off (?mid + 1) high"
        using True mid by (subst line_search.simps) (simp add: Let_def)
      have le: "st ! i \<le> off" if "i < ?mid + 1" for i
        using mid m(3) sorted_nth_mono[OF 1(5), of i ?mid] that by simp
      have "?mid + 1 \<le> high" using m(2) by simp
      from 1(1)[OF True refl mid this 1(4,5) le 1(7)] show ?thesis unfolding eq by blast
    next
      case mid: False
      have eq: "line_search st off low high = line_search st off low ?mid"
        using True mid by (subst line_search.simps) (simp add: Let_def)
      have gt: "off < st ! i" if "?mid \<le> i" "i < length st" for i
        using mid sorted_nth_mono[OF 1(5), of ?mid i] that by simp
      have "?mid \<le> length st" using m(3) by simp
      from 1(2)[OF True refl mid m(1) this 1(5,6) gt] show ?thesis unfolding eq by blast
    qed
  qed
qed

text \<open>A position is a row and a column of the text.\<close>

definition pos_ok :: "u8 list \<Rightarrow> nat \<Rightarrow> nat \<Rightarrow> bool" where
  "pos_ok t cy cx \<longleftrightarrow> cy < length (line_starts t) \<and>
     cx \<le> length (takeWhile (\<lambda>c. c \<noteq> 10) (drop (line_starts t ! cy) t))"

lemma pos_ok_offset:
  assumes "pos_ok t cy cx" shows "line_starts t ! cy + cx \<le> length t"
proof -
  have "line_starts t ! cy \<le> length t" using assms line_starts_props(5) nth_mem by (auto simp: pos_ok_def)
  moreover have "cx \<le> length t - line_starts t ! cy"
    using assms length_takeWhile_le[of "\<lambda>c. c \<noteq> 10" "drop (line_starts t ! cy) t"] by (simp add: pos_ok_def)
  ultimately show ?thesis by simp
qed

lemma takeWhile_ge:
  "n \<le> length xs \<Longrightarrow> (\<And>i. i < n \<Longrightarrow> P (xs ! i)) \<Longrightarrow> n \<le> length (takeWhile P xs)"
  by (metis le_less_linear linorder_not_le nth_length_takeWhile order_less_le_trans)

lemma position_found:
  assumes "off \<le> length t"
  shows "let low = line_search (line_starts t) off 0 (length (line_starts t)); cy = low - 1 in
    low \<noteq> 0 \<and> pos_ok t cy (off - line_starts t ! cy) \<and> line_starts t ! cy \<le> off"
proof -
  let ?st = "line_starts t"
  define low where "low = line_search ?st off 0 (length ?st)"
  have b: "low \<le> length ?st" "\<And>i. i < low \<Longrightarrow> ?st ! i \<le> off" "\<And>i. low \<le> i \<Longrightarrow> i < length ?st \<Longrightarrow> off < ?st ! i"
    using line_search_bounds[of 0 "length ?st" ?st off] line_starts_props(1) by (auto simp: low_def)
  have l0: "low \<noteq> 0" using b(3)[of 0] line_starts_props(3,4)[of t] by auto
  let ?s = "?st ! (low - 1)"
  have s: "?s \<le> off" "low - 1 < length ?st" using b(1,2) l0 by simp_all
  have "(drop ?s t) ! i \<noteq> 10" if i: "i < off - ?s" for i
  proof
    assume nl: "(drop ?s t) ! i = 10"
    have le: "?s + i < length t" using i assms by simp
    then have "?s + i + 1 \<in> set ?st" using nl by (simp add: line_starts_props(5))
    then obtain k where k: "k < length ?st" "?st ! k = ?s + i + 1" by (auto simp: in_set_conv_nth)
    have "k < low" using b(3)[of k] k i by (cases "low \<le> k") auto
    then have "?st ! k \<le> ?s" using line_starts_props(1)[of t] s(2) by (intro sorted_nth_mono) auto
    then show False using k by simp
  qed
  then have "off - ?s \<le> length (takeWhile (\<lambda>c. c \<noteq> 10) (drop ?s t))"
    using assms by (intro takeWhile_ge) auto
  then show ?thesis using s l0 by (simp add: low_def[symmetric] pos_ok_def Let_def)
qed

definition at_pos :: "u8 list \<Rightarrow> textdoc \<Rightarrow> bool" where
  "at_pos t d \<longleftrightarrow> pos_ok t (ed_cy d) (ed_cx d) \<and> (ed_selecting d \<longrightarrow> pos_ok t (ed_ay d) (ed_ax d))"

definition mark_ok :: "textmark \<Rightarrow> u8 list \<Rightarrow> bool" where
  "mark_ok m t \<longleftrightarrow> pos_ok t (mk_cy m) (mk_cx m) \<and> (mk_selecting m \<longrightarrow> pos_ok t (mk_ay m) (mk_ax m))"

definition text_ok :: "textdoc \<Rightarrow> bool" where
  "text_ok d \<longleftrightarrow> clean (text_export d) \<and> 10 \<notin> set (ed_data d) \<and> ed_start d = line_starts (text_export d)"

definition doc_ok :: "textdoc \<Rightarrow> bool" where
  "doc_ok d \<longleftrightarrow> text_ok d \<and> at_pos (text_export d) d"

lemma length_export: "length (text_export d) = ed_used d"
  by (simp add: text_export_def ed_used_def)

lemma cstr_clean: "0 \<notin> set t \<Longrightarrow> cstr t = t"
  by (simp add: cstr_def takeWhile_all)
     (metis takeWhile_all)

lemma import_clean:
  assumes "clean t"
  shows "text_export (text_import t d) = t" "text_ok (text_import t d)"
    "ed_used (text_import t d) = length t" "ed_start (text_import t d) = line_starts t"
    "ed_top (text_import t d) = ed_top d" "ed_left (text_import t d) = ed_left d"
    "ed_cy (text_import t d) = ed_cy d" "ed_cx (text_import t d) = ed_cx d"
proof -
  have c: "cstr t = t" using clean_chars(2)[OF assms] by (rule cstr_clean)
  have "map (\<lambda>c. if c = 0 then 10 else c) (map (\<lambda>c. if c = 10 then 0 else c) t) = t"
    unfolding map_map by (rule map_idI) (use clean_chars(2)[OF assms] in auto)
  then show e: "text_export (text_import t d) = t"
    by (simp add: text_export_def text_import_def c Let_def)
  show s: "ed_start (text_import t d) = line_starts t"
    by (simp add: text_import_def c Let_def line_starts_def)
  have "10 \<notin> set (ed_data (text_import t d))" by (auto simp: text_import_def c Let_def)
  then show "text_ok (text_import t d)" using assms e s by (simp add: text_ok_def)
  show "ed_used (text_import t d) = length t" using length_export[of "text_import t d"] e by simp
  show "ed_top (text_import t d) = ed_top d" "ed_left (text_import t d) = ed_left d"
    "ed_cy (text_import t d) = ed_cy d" "ed_cx (text_import t d) = ed_cx d"
    by (simp_all add: text_import_def Let_def)
qed

lemma text_line_length:
  assumes "text_ok d"
  shows "length (text_line d r) = length (takeWhile (\<lambda>c. c \<noteq> 10) (drop (line_starts (text_export d) ! r) (text_export d)))"
proof -
  have nl: "10 \<notin> set (ed_data d)" using assms by (simp add: text_ok_def)
  have "takeWhile (\<lambda>c. c \<noteq> 10) (map (\<lambda>c. if c = 0 then 10 else c) xs) = takeWhile (\<lambda>c. c \<noteq> 0) xs"
    if "10 \<notin> set xs" for xs :: "u8 list"
    using that by (induction xs) auto
  moreover have "10 \<notin> set (drop n (ed_data d))" for n using nl by (auto dest: in_set_dropD)
  ultimately show ?thesis
    using assms by (simp add: text_line_def cstr_def text_export_def drop_map text_ok_def)
qed

lemma lines_start: "text_ok d \<Longrightarrow> ed_lines d = length (line_starts (text_export d))"
  by (simp add: text_ok_def ed_lines_def)

lemma position_ok:
  assumes "text_ok d" "off \<le> ed_used d"
  shows "pos_ok (text_export d) (ed_cy (text_position off d)) (ed_cx (text_position off d))"
    "text_offset d (ed_cy (text_position off d)) (ed_cx (text_position off d)) = off"
    "text_ok (text_position off d)" "text_export (text_position off d) = text_export d"
proof -
  have st: "ed_start d = line_starts (text_export d)" using assms(1) by (simp add: text_ok_def)
  note p = position_found[of off "text_export d"]
  show "pos_ok (text_export d) (ed_cy (text_position off d)) (ed_cx (text_position off d))"
    "text_offset d (ed_cy (text_position off d)) (ed_cx (text_position off d)) = off"
    using p assms by (simp_all add: text_position_def Let_def st ed_lines_def length_export text_offset_def)
  have e: "text_export (text_position off d) = text_export d" by (simp add: text_export_def text_position_def Let_def)
  then show "text_export (text_position off d) = text_export d" .
  show "text_ok (text_position off d)" using assms(1) unfolding text_ok_def e
    by (simp add: text_position_def Let_def)
qed

lemma range_ok:
  assumes "doc_ok d" "text_range d = (a, b)"
  shows "a \<le> b" "b \<le> length (text_export d)"
proof -
  have st: "ed_start d = line_starts (text_export d)" using assms(1) by (simp add: doc_ok_def text_ok_def)
  have c: "text_offset d (ed_cy d) (ed_cx d) \<le> length (text_export d)"
    using assms(1) pos_ok_offset by (auto simp: doc_ok_def at_pos_def text_offset_def st)
  have s: "text_selected d \<Longrightarrow> text_offset d (ed_ay d) (ed_ax d) \<le> length (text_export d)"
    using assms(1) pos_ok_offset by (auto simp: doc_ok_def at_pos_def text_offset_def text_selected_def st)
  show "a \<le> b" "b \<le> length (text_export d)"
    using assms(2) c s by (auto simp: text_range_def Let_def split: if_splits)
qed

section \<open>History\<close>

text \<open>A change with the bytes it removed and the bytes it inserted.\<close>

type_synonym delta = "textchange \<times> u8 list \<times> u8 list"

definition payload :: "delta list \<Rightarrow> u8 list" where
  "payload ds = concat (map (\<lambda>(c, R, I). R @ I) ds)"

fun offs_ok :: "nat \<Rightarrow> delta list \<Rightarrow> bool" where
  "offs_ok k [] \<longleftrightarrow> True"
| "offs_ok k ((c, R, I) # ds) \<longleftrightarrow>
     ch_data c = k \<and> ch_removed c = length R \<and> ch_inserted c = length I \<and> offs_ok (k + length R + length I) ds"

fun path :: "u8 list \<Rightarrow> delta list \<Rightarrow> u8 list \<Rightarrow> bool" where
  "path t [] t' \<longleftrightarrow> t = t'"
| "path t ((c, R, I) # ds) t' \<longleftrightarrow>
     (\<exists>P S. t = P @ R @ S \<and> length P = ch_at c \<and> clean t \<and> clean (P @ I @ S)
        \<and> mark_ok (ch_before c) t \<and> mark_ok (ch_after c) (P @ I @ S) \<and> path (P @ I @ S) ds t')"

definition hist_ok :: "textdoc \<Rightarrow> textundo \<Rightarrow> bool" where
  "hist_ok d u \<longleftrightarrow> (\<exists>l r t0 t1.
     un_changes u = map fst (l @ r) \<and> un_cursor u = length l \<and> un_data u = payload (l @ r) \<and> offs_ok 0 (l @ r)
     \<and> path t0 l (text_export d) \<and> path (text_export d) r t1
     \<and> length (l @ r) \<le> ED_HISTORY_STEPS \<and> length (payload (l @ r)) \<le> ED_HISTORY_BYTES)"

lemma payload_simps [simp]:
  "payload [] = []" "payload ((c, R, I) # ds) = R @ I @ payload ds" "payload (ds @ es) = payload ds @ payload es"
  by (simp_all add: payload_def)

lemma path_append: "path t (ds @ es) t' \<longleftrightarrow> (\<exists>s. path t ds s \<and> path s es t')"
  by (induction t ds t' rule: path.induct) auto

lemma offs_append: "offs_ok k (ds @ es) \<longleftrightarrow> offs_ok k ds \<and> offs_ok (k + length (payload ds)) es"
  by (induction k ds rule: offs_ok.induct) (auto simp: add.assoc)

definition shifted :: "nat \<Rightarrow> delta list \<Rightarrow> delta list" where
  "shifted ct ds = map (\<lambda>(c, R, I). (c\<lparr>ch_data := ch_data c - ct\<rparr>, R, I)) ds"

lemma shifted_simps [simp]:
  "map fst (shifted ct ds) = map (\<lambda>x. x\<lparr>ch_data := ch_data x - ct\<rparr>) (map fst ds)"
  "payload (shifted ct ds) = payload ds" "length (shifted ct ds) = length ds"
  by (auto simp: shifted_def payload_def intro!: arg_cong[where f = concat])

lemma shifted_offs: "offs_ok (k + ct) ds \<Longrightarrow> offs_ok k (shifted ct ds)"
proof (induction ds arbitrary: k)
  case (Cons d ds)
  obtain c R I where d: "d = (c, R, I)" by (cases d) auto
  then have "offs_ok ((k + length R + length I) + ct) ds" using Cons.prems by (simp add: ac_simps)
  from Cons.IH[OF this] show ?case using Cons.prems by (simp add: d shifted_def)
qed (simp add: shifted_def)

lemma shifted_path: "path t (shifted ct ds) t' \<longleftrightarrow> path t ds t'"
  by (induction t ds t' rule: path.induct) (auto simp: shifted_def)

lemma evict_ok:
  assumes "offs_ok 0 ds" "path t0 ds t"
  shows "\<exists>ds' t0'. evict bytes (map fst ds) (payload ds) = (map fst ds', payload ds') \<and> offs_ok 0 ds' \<and> path t0' ds' t
    \<and> length ds' \<le> length ds
    \<and> (ds' = [] \<or> length ds' \<noteq> ED_HISTORY_STEPS \<and> length (payload ds') + bytes \<le> ED_HISTORY_BYTES)"
  using assms
proof (induction "length ds" arbitrary: ds t0)
  case 0
  then show ?case by (intro exI[of _ "[]"] exI[of _ t]) auto
next
  case (Suc n)
  then obtain c R I es where ds: "ds = (c, R, I) # es" by (cases ds) auto
  have n: "n = length (shifted (length R + length I) es)" using Suc.hyps(2) ds by simp
  have offs: "offs_ok 0 (shifted (length R + length I) es)"
    using Suc.prems(1) by (intro shifted_offs) (simp add: ds)
  obtain t1 where p: "path t1 (shifted (length R + length I) es) t" using Suc.prems(2) by (auto simp: ds shifted_path)
  show ?case
  proof (cases "length ds = ED_HISTORY_STEPS \<or> length (payload ds) + bytes > ED_HISTORY_BYTES")
    case True
    have "evict bytes (map fst ds) (payload ds)
        = evict bytes (map fst (shifted (length R + length I) es)) (payload (shifted (length R + length I) es))"
      using True Suc.prems(1) unfolding ds by (auto simp: Let_def)
    then show ?thesis using Suc.hyps(1)[OF n offs p] by (force simp: ds)
  next
    case False
    then have "evict bytes (map fst ds) (payload ds) = (map fst ds, payload ds)" by (auto simp: ds)
    then show ?thesis using False Suc.prems by (intro exI[of _ ds] exI[of _ t0]) (auto simp: not_less)
  qed
qed

lemma history_room_ok:
  assumes "hist_ok d u" "bytes \<le> ED_HISTORY_BYTES"
  obtains ds t0 where "un_changes (history_room d bytes u) = map fst ds" "un_data (history_room d bytes u) = payload ds"
    "un_cursor (history_room d bytes u) = length ds" "offs_ok 0 ds" "path t0 ds (text_export d)"
    "length ds < ED_HISTORY_STEPS" "length (payload ds) + bytes \<le> ED_HISTORY_BYTES"
proof (cases "un_serial u \<ge> 0xFFFFFFFE")
  case True
  then show thesis using that[of "[]" "text_export d"] assms(2)
    by (simp add: history_room_def text_history_reset_def ED_HISTORY_STEPS_def)
next
  case False
  obtain l r t0 t1 where h: "un_changes u = map fst (l @ r)" "un_cursor u = length l" "un_data u = payload (l @ r)"
    "offs_ok 0 (l @ r)" "path t0 l (text_export d)" "length (l @ r) \<le> ED_HISTORY_STEPS"
    using assms(1) by (auto simp: hist_ok_def)
  have off: "offs_ok 0 l" using h(4) by (simp add: offs_append)
  have data: "(if un_cursor u < length (un_changes u)
      then take (ch_data (un_changes u ! un_cursor u)) (un_data u) else un_data u) = payload l"
  proof (cases r)
    case (Cons x xs)
    obtain c R I where x: "x = (c, R, I)" by (cases x) auto
    then have "ch_data c = length (payload l)" using h(4) Cons by (simp add: offs_append)
    then show ?thesis using h(1,2,3) Cons x by (simp add: nth_append)
  qed (use h in simp)
  obtain ds t0' where e: "evict bytes (map fst l) (payload l) = (map fst ds, payload ds)" "offs_ok 0 ds"
    "path t0' ds (text_export d)" "length ds \<le> length l"
    "ds = [] \<or> length ds \<noteq> ED_HISTORY_STEPS \<and> length (payload ds) + bytes \<le> ED_HISTORY_BYTES"
    using evict_ok[OF off h(5), of bytes] by blast
  have "take (un_cursor u) (un_changes u) = map fst l" using h(1,2) by simp
  then have room: "history_room d bytes u = u\<lparr>un_changes := map fst ds, un_data := payload ds, un_cursor := length ds\<rparr>"
    using False data e(1) by (simp add: history_room_def Let_def)
  have "length ds < ED_HISTORY_STEPS" using e(4,5) h(6) by (auto simp: ED_HISTORY_STEPS_def)
  then show thesis using that[of ds t0'] room e assms(2) by auto
qed


section \<open>Replacing\<close>

definition same_place :: "textmark \<Rightarrow> textdoc \<Rightarrow> bool" where
  "same_place m d \<longleftrightarrow> mk_cy m = ed_cy d \<and> mk_cx m = ed_cx d \<and> mk_top m = ed_top d \<and> mk_left m = ed_left d
     \<and> mk_ay m = ed_ay d \<and> mk_ax m = ed_ax d \<and> mk_selecting m = ed_selecting d"

lemma mark_same: "same_place (ed_mark d rv) d"
  by (simp add: same_place_def ed_mark_def)

lemma mark_of_doc: "at_pos t d \<Longrightarrow> same_place m d \<Longrightarrow> mark_ok m t"
  by (simp add: at_pos_def same_place_def mark_ok_def)

lemma replace_fails:
  assumes "text_replace s (d, u) = (du', False)"
  shows "du' = (d, u)"
  using assms by (auto simp: text_replace_def Let_def split: prod.splits if_splits option.splits)

lemma replace_noop:
  assumes "text_replace s (d, u) = (du', True)" "text_range d = (a, b)" "a = b" "expanded_length s = 0"
  shows "du' = (d, u)"
  using assms by (auto simp: text_replace_def Let_def split: if_splits option.splits)

lemma expanded_length_le: "expanded_length s \<le> 4 * length s"
  by (induction s) (auto simp: expanded_length_def)

text \<open>What a replacement that changes the text does: the text is spliced, the change is recorded behind
  the changes that were kept, and the document is left unselected after the inserted text.\<close>

lemma replace_step:
  assumes d: "doc_ok d" and h: "hist_ok d u" and r: "text_replace s (d, u) = ((d', u'), True)"
    and rng: "text_range d = (a, b)" and ch: "a \<noteq> b \<or> expanded_length s \<noteq> 0"
  obtains c ds t0 where
    "text_export d' = take a (text_export d) @ expand s @ drop b (text_export d)"
    "doc_ok d'" "ed_dirty d'" "\<not> ed_selecting d'" "text_offset d' (ed_cy d') (ed_cx d') = a + length (expand s)"
    "un_changes u' = map fst ds @ [c]" "un_cursor u' = length ds + 1"
    "un_data u' = payload (ds @ [(c, take (b - a) (drop a (text_export d)), expand s)])"
    "offs_ok 0 (ds @ [(c, take (b - a) (drop a (text_export d)), expand s)])"
    "path t0 ds (text_export d)" "length ds < ED_HISTORY_STEPS"
    "length (un_data u') \<le> ED_HISTORY_BYTES" "ch_at c = a" "same_place (ch_before c) d" "same_place (ch_after c) d'"
proof -
  let ?t = "text_export d" and ?R = "take (b - a) (drop a (text_export d))"
  obtain new where new: "normalize (take a ?t @ s @ drop b ?t) = Some new"
    using r rng ch by (auto simp: text_replace_def Let_def split: if_splits option.splits)
  have ct: "clean ?t" using d by (simp add: doc_ok_def text_ok_def)
  have new': "new = take a ?t @ expand s @ drop b ?t" "clean new" using clean_splice[OF ct new] by auto
  have ab: "a \<le> b" "b \<le> length ?t" using range_ok[OF d rng] by auto
  have ins: "take (expanded_length s) (drop a new) = expand s"
    using ab by (simp add: new'(1) length_expand[symmetric])
  have "length ?t < ED_CAP" "length new < ED_CAP" using clean_chars(1) ct new'(2) by auto
  then have bytes: "b - a + expanded_length s \<le> ED_HISTORY_BYTES"
    using ab by (simp add: new'(1) length_expand ED_CAP_def ED_HISTORY_BYTES_def)
  define u1 where "u1 = history_room d (b - a + expanded_length s) u"
  obtain ds t0 where ds: "un_changes u1 = map fst ds" "un_data u1 = payload ds" "un_cursor u1 = length ds"
    "offs_ok 0 ds" "path t0 ds ?t" "length ds < ED_HISTORY_STEPS"
    "length (payload ds) + (b - a + expanded_length s) \<le> ED_HISTORY_BYTES"
    using history_room_ok[OF h bytes] unfolding u1_def by blast
  define d1 where "d1 = (text_position (a + expanded_length s) (text_import new d))\<lparr>ed_selecting := False, ed_dirty := True\<rparr>"
  define c where "c = \<lparr>ch_at = a, ch_removed = b - a, ch_inserted = expanded_length s, ch_data = length (un_data u1),
     ch_before = ed_mark d (un_current u1), ch_after = ed_mark d1 (un_serial u1 + 1)\<rparr>"
  have res: "d' = d1" "un_changes u' = un_changes u1 @ [c]" "un_cursor u' = length (un_changes u1) + 1"
    "un_data u' = un_data u1 @ ?R @ expand s"
    using r rng ch new ins
    by (auto simp: text_replace_def Let_def u1_def[symmetric] d1_def set_after_def c_def nth_append split: if_splits)
  note i = import_clean[OF new'(2), of d]
  have off: "a + expanded_length s \<le> ed_used (text_import new d)"
    using ab by (simp add: i(3)) (simp add: new'(1) length_expand)
  note p = position_ok[OF i(2) off]
  have e: "text_export d1 = new" using p(4) i(1) by (simp add: d1_def text_export_def)
  have ok: "doc_ok d1"
    using p(1,3) i(1) unfolding doc_ok_def text_ok_def e at_pos_def
    by (simp add: d1_def p(4) i(1))
  have pos: "text_offset d1 (ed_cy d1) (ed_cx d1) = a + length (expand s)"
    using p(2) by (simp add: d1_def text_offset_def length_expand text_position_def Let_def)
  have o: "offs_ok 0 (ds @ [(c, ?R, expand s)])"
    using ds(2,4) ab by (simp add: offs_append c_def length_expand)
  show thesis
  proof (rule that[of ds c t0])
    show "text_export d' = take a ?t @ expand s @ drop b ?t" using res(1) e new'(1) by simp
    show "length (un_data u') \<le> ED_HISTORY_BYTES" using res(4) ds(2,7) ab by (simp add: length_expand)
  qed (use res ds o ok pos ab in \<open>auto simp: d1_def c_def mark_same\<close>)
qed

lemma replace_hist:
  assumes "doc_ok d" "doc_ok d'" "same_place (ch_before c) d" "same_place (ch_after c) d'"
    "text_export d' = take a (text_export d) @ I @ drop b (text_export d)" "a \<le> b" "b \<le> length (text_export d)"
    "ch_at c = a" "path t0 ds (text_export d)" "length ds < ED_HISTORY_STEPS"
    "un_changes u = map fst ds @ [c]" "un_cursor u = length ds + 1"
    "un_data u = payload (ds @ [(c, take (b - a) (drop a (text_export d)), I)])"
    "offs_ok 0 (ds @ [(c, take (b - a) (drop a (text_export d)), I)])" "length (un_data u) \<le> ED_HISTORY_BYTES"
  shows "hist_ok d' u"
proof -
  let ?t = "text_export d" and ?R = "take (b - a) (drop a (text_export d))"
  have t: "?t = take a ?t @ ?R @ drop b ?t"
    using assms(6) by (metis append_assoc append_take_drop_id drop_drop le_add_diff_inverse2 add.commute)
  have "path ?t [(c, ?R, I)] (text_export d')"
    using assms t mark_of_doc[of ?t d "ch_before c"] mark_of_doc[of "text_export d'" d' "ch_after c"]
    by (simp, intro exI[of _ "take a ?t"] exI[of _ "drop b ?t"])
       (auto simp: doc_ok_def text_ok_def)
  then have "path t0 (ds @ [(c, ?R, I)]) (text_export d')" using assms(9) by (auto simp: path_append)
  then show ?thesis
    unfolding hist_ok_def using assms
    by (intro exI[of _ "ds @ [(c, ?R, I)]"] exI[of _ "[]"] exI[of _ t0] exI[of _ "text_export d'"]) auto
qed

end
