(* ===== verification/Textedit_Edit.thy ===== *)
theory Textedit_Edit
  imports Textedit_Inv
begin

text \<open>
  Replacing and deleting keep the editor well formed: where lines end, the positions that deleting
  selects, and changes whose marks are set afterwards.
\<close>

lemma line_end:
  assumes "r + 1 < length (line_starts t)"
  shows "line_starts t ! r + length (takeWhile (\<lambda>c. c \<noteq> 10) (drop (line_starts t ! r) t)) < line_starts t ! (r + 1)"
proof -
  let ?s = "line_starts t ! r" and ?n = "line_starts t ! (r + 1)"
  have lt: "?s < ?n"
  proof -
    have "?s \<le> ?n" using assms line_starts_props(1)[of t] by (intro sorted_nth_mono) auto
    moreover have "?s \<noteq> ?n"
      using assms nth_eq_iff_index_eq[OF line_starts_props(2)[of t], of r "r + 1"] by simp
    ultimately show ?thesis by simp
  qed
  have "?n \<in> set (line_starts t)" using assms by simp
  then have nl: "?n \<le> length t" "t ! (?n - 1) = 10" using lt by (auto simp: line_starts_props(5))
  have idx: "drop ?s t ! (?n - 1 - ?s) = 10" using nl lt by simp
  have "length (takeWhile (\<lambda>c. c \<noteq> 10) (drop ?s t)) \<le> ?n - 1 - ?s"
  proof (rule ccontr)
    assume "\<not> ?thesis"
    then have "?n - 1 - ?s < length (takeWhile (\<lambda>c. c \<noteq> 10) (drop ?s t))" by simp
    then show False using idx nth_mem[of "?n - 1 - ?s" "takeWhile (\<lambda>c. c \<noteq> 10) (drop ?s t)"]
      by (auto simp: takeWhile_nth dest: set_takeWhileD)
  qed
  then show ?thesis using lt by simp
qed

lemma last_line_end:
  "line_starts t ! (length (line_starts t) - 1)
     + length (takeWhile (\<lambda>c. c \<noteq> 10) (drop (line_starts t ! (length (line_starts t) - 1)) t)) = length t"
proof -
  let ?k = "length (line_starts t) - 1" let ?s = "line_starts t ! ?k"
  have k: "?k < length (line_starts t)" using line_starts_props(3)[of t] by simp
  have s: "?s \<le> length t" using nth_mem[OF k] by (simp add: line_starts_props(5))
  have "(\<forall>x\<in>set (drop ?s t). x \<noteq> 10)"
  proof
    fix x assume "x \<in> set (drop ?s t)"
    then obtain i where i: "i < length t - ?s" "x = t ! (?s + i)" by (auto simp: in_set_conv_nth)
    show "x \<noteq> 10"
    proof
      assume "x = 10"
      then have "?s + i + 1 \<in> set (line_starts t)" using i by (simp add: line_starts_props(5))
      then obtain j where j: "j < length (line_starts t)" "line_starts t ! j = ?s + i + 1"
        by (auto simp: in_set_conv_nth)
      then have "line_starts t ! j \<le> ?s" using line_starts_props(1)[of t] k by (intro sorted_nth_mono) auto
      then show False using j by simp
    qed
  qed
  then show ?thesis using s by (simp add: takeWhile_eq_all_conv[THEN iffD2])
qed

lemma text_prev_loop_le: "text_prev_loop s n \<le> n"
  by (induction n) auto

lemma text_prev_lt: "0 < col \<Longrightarrow> text_prev s col < col"
  using text_prev_loop_le[of s "col - 1"] by (simp add: text_prev_def)

lemma text_next_le: "col < length s \<Longrightarrow> text_next s col \<le> length s"
  using length_takeWhile_le[of is_cont "drop (col + 1) s"] by (simp add: text_next_def)

section \<open>The invariant of the editor\<close>

definition ed_ok :: "textdoc \<times> textundo \<Rightarrow> bool" where
  "ed_ok du \<longleftrightarrow> doc_ok (fst du) \<and> hist_ok (fst du) (snd du)"

lemma replace_ok:
  assumes "ed_ok du" "text_replace s du = (du', ok)"
  shows "ed_ok du'"
proof -
  obtain d u where du: "du = (d, u)" by force
  obtain d' u' where du': "du' = (d', u')" by force
  obtain a b where rng: "text_range d = (a, b)" by force
  have d: "doc_ok d" "hist_ok d u" using assms(1) by (simp_all add: ed_ok_def du)
  consider "ok = False" | "ok" "a = b" "expanded_length s = 0" | "ok" "a \<noteq> b \<or> expanded_length s \<noteq> 0" by auto
  then show ?thesis
  proof cases
    case 3
    then have r: "text_replace s (d, u) = ((d', u'), True)" using assms(2) by (simp add: du du')
    show ?thesis
      by (rule replace_step[OF d r rng 3(2)])
         (use d(1) range_ok[OF d(1) rng] in \<open>auto simp: ed_ok_def du' intro!: replace_hist[OF d(1)]\<close>)
  next
    case 1
    then have "text_replace s (d, u) = (du', False)" using assms(2) by (simp add: du)
    from replace_fails[OF this] show ?thesis using assms(1) by (simp add: du)
  next
    case 2
    then have "text_replace s (d, u) = (du', True)" using assms(2) by (simp add: du)
    from replace_noop[OF this rng 2(2,3)] show ?thesis using assms(1) by (simp add: du)
  qed
qed

lemma set_last:
  assumes "un_changes u = cs @ [c]" "un_cursor u = length cs + 1"
  shows "un_changes (set_before m u) = cs @ [c\<lparr>ch_before := m\<rparr>]" "un_changes (set_after m u) = cs @ [c\<lparr>ch_after := m\<rparr>]"
    "un_cursor (set_before m u) = un_cursor u" "un_cursor (set_after m u) = un_cursor u"
    "un_data (set_before m u) = un_data u" "un_data (set_after m u) = un_data u"
    "un_current (set_before m u) = un_current u" "un_changes u ! (un_cursor u - 1) = c"
  using assms by (simp_all add: set_before_def set_after_def nth_append)

text \<open>A replacement of a range that was selected for the caller, whose marks are set afterwards.\<close>

lemma replace_marked:
  assumes d: "doc_ok d" and d2: "doc_ok d2" "hist_ok d2 u" "text_export d2 = text_export d"
    and r: "text_replace s (d2, u) = ((d3, u3), True)" and rng: "text_range d2 = (a, b)" "a \<noteq> b"
    and m: "same_place m d"
  shows "doc_ok d3 \<and> \<not> ed_selecting d3
    \<and> text_export d3 = take a (text_export d) @ expand s @ drop b (text_export d)
    \<and> hist_ok d3 (set_before m u3)
    \<and> (\<forall>d4 m4. doc_ok d4 \<and> text_export d4 = text_export d3 \<and> same_place m4 d4 \<longrightarrow> hist_ok d4 (set_after m4 (set_before m u3)))"
proof -
  note ab = range_ok[OF d2(1) rng(1)]
  have ch: "a \<noteq> b \<or> expanded_length s \<noteq> 0" using rng(2) by simp
  obtain c ds t0 where c:
    "text_export d3 = take a (text_export d) @ expand s @ drop b (text_export d)"
    "doc_ok d3" "\<not> ed_selecting d3"
    "un_changes u3 = map fst ds @ [c]" "un_cursor u3 = length ds + 1"
    "un_data u3 = payload (ds @ [(c, take (b - a) (drop a (text_export d)), expand s)])"
    "offs_ok 0 (ds @ [(c, take (b - a) (drop a (text_export d)), expand s)])"
    "path t0 ds (text_export d)" "length ds < ED_HISTORY_STEPS"
    "length (un_data u3) \<le> ED_HISTORY_BYTES" "ch_at c = a" "same_place (ch_after c) d3"
    using replace_step[OF d2(1,2) r rng(1) ch] unfolding d2(3) by metis
  note s = set_last[OF c(4)]
  have cur: "un_cursor u3 = length (map fst ds) + 1" using c(5) by simp
  have le: "a \<le> b" "b \<le> length (text_export d)" using ab d2(3) by auto
  let ?c = "c\<lparr>ch_before := m\<rparr>"
  have h: "hist_ok d3 (set_before m u3)"
    by (rule replace_hist[OF d c(2) _ _ c(1) le _ c(8,9), of ?c])
       (use c m s[OF cur] in \<open>simp_all add: offs_append same_place_def\<close>)
  have h4: "hist_ok d4 (set_after m4 (set_before m u3))"
    if "doc_ok d4" "text_export d4 = text_export d3" "same_place m4 d4" for d4 m4
  proof -
    have "un_changes (set_before m u3) = map fst ds @ [?c]" "un_cursor (set_before m u3) = length (map fst ds) + 1"
      using s[OF cur] cur by auto
    note s4 = set_last[OF this]
    show ?thesis
    proof (rule replace_hist[OF d that(1) _ _ _ le _ c(8,9), of "?c\<lparr>ch_after := m4\<rparr>"])
      show "text_export d4 = take a (text_export d) @ expand s @ drop b (text_export d)" using that(2) c(1) by (rule trans)
      show "same_place (ch_before (?c\<lparr>ch_after := m4\<rparr>)) d" "same_place (ch_after (?c\<lparr>ch_after := m4\<rparr>)) d4"
        "ch_at (?c\<lparr>ch_after := m4\<rparr>) = a" using m that(3) c(11) by simp_all
      show "un_changes (set_after m4 (set_before m u3)) = map fst ds @ [?c\<lparr>ch_after := m4\<rparr>]"
        "un_cursor (set_after m4 (set_before m u3)) = length ds + 1" using s4 s[OF cur] c(5) by simp_all
      show "un_data (set_after m4 (set_before m u3)) = payload (ds @ [(?c\<lparr>ch_after := m4\<rparr>, take (b - a) (drop a (text_export d)), expand s)])"
        "length (un_data (set_after m4 (set_before m u3))) \<le> ED_HISTORY_BYTES"
        using c(6,10) s4 s[OF cur] by simp_all
      show "offs_ok 0 (ds @ [(?c\<lparr>ch_after := m4\<rparr>, take (b - a) (drop a (text_export d)), expand s)])"
        using c(7) by (simp add: offs_append)
    qed
  qed
  show ?thesis using c(1,2,3) h h4 by blast
qed

lemma hist_export: "text_export d = text_export d' \<Longrightarrow> hist_ok d u = hist_ok d' u"
  by (simp add: hist_ok_def)


lemma restore_ok:
  assumes "text_ok d" "mark_ok m (text_export d)"
  shows "doc_ok (ed_restore m d)" "text_export (ed_restore m d) = text_export d"
proof -
  show e: "text_export (ed_restore m d) = text_export d" by (simp add: ed_restore_def text_export_def)
  show "doc_ok (ed_restore m d)"
    using assms unfolding doc_ok_def text_ok_def e at_pos_def mark_ok_def by (simp add: ed_restore_def)
qed

lemma delete_ok:
  assumes "ed_ok du" "text_delete back du = (du', ok)"
  shows "ed_ok du'"
proof -
  obtain d u where du: "du = (d, u)" by force
  have d: "doc_ok d" "hist_ok d u" using assms(1) by (simp_all add: ed_ok_def du)
  have tk: "text_ok d" and p: "pos_ok (text_export d) (ed_cy d) (ed_cx d)"
    using d(1) by (auto simp: doc_ok_def at_pos_def)
  let ?t = "text_export d"
  have st: "ed_start d = line_starts ?t" "ed_lines d = length (line_starts ?t)"
    using tk by (auto simp: text_ok_def ed_lines_def)
  define d1 where "d1 = d\<lparr>ed_ay := ed_cy d, ed_ax := ed_cx d, ed_selecting := True\<rparr>"
  define d2 where "d2 = (if back
                    then if ed_cx d \<noteq> 0 then d1\<lparr>ed_cx := text_prev (text_line d1 (ed_cy d)) (ed_cx d)\<rparr>
                         else d1\<lparr>ed_cy := ed_cy d - 1, ed_cx := length (text_line d1 (ed_cy d - 1))\<rparr>
                    else if ed_cx d < length (text_line d1 (ed_cy d)) then d1\<lparr>ed_cx := text_next (text_line d1 (ed_cy d)) (ed_cx d)\<rparr>
                         else d1\<lparr>ed_cy := ed_cy d + 1, ed_cx := 0\<rparr>)"
  consider (sel) "text_selected d"
    | (none) "\<not> text_selected d" "(back \<and> text_offset d (ed_cy d) (ed_cx d) = 0)
           \<or> (\<not> back \<and> ed_cy d + 1 = ed_lines d \<and> length (text_line d (ed_cy d)) \<le> ed_cx d)"
    | (some) "\<not> text_selected d" "back \<Longrightarrow> text_offset d (ed_cy d) (ed_cx d) \<noteq> 0"
       "\<not> back \<Longrightarrow> ed_cy d + 1 = ed_lines d \<Longrightarrow> ed_cx d < length (text_line d (ed_cy d))"
    by fastforce
  then show ?thesis
  proof cases
    case sel
    then have "text_replace [] (d, u) = (du', ok)" using assms(2) by (simp add: text_delete_def du)
    then show ?thesis using replace_ok assms(1) du by blast
  next
    case none
    then show ?thesis using assms by (simp add: text_delete_def du Let_def)
  next
    case some
    have line: "length (text_line d1 r) = length (takeWhile (\<lambda>c. c \<noteq> 10) (drop (line_starts ?t ! r) ?t))" for r
      using text_line_length[OF tk] by (simp add: text_line_def d1_def)
    have line': "text_line d1 r = text_line d r" for r by (simp add: text_line_def d1_def)
    have cy: "ed_cx d = 0 \<Longrightarrow> back \<Longrightarrow> 0 < ed_cy d"
      using some(2) line_starts_props(4)[of ?t] by (auto simp: text_offset_def st intro: ccontr)
    have cx: "ed_cx d \<le> length (text_line d1 (ed_cy d))" using p line by (simp add: pos_ok_def)
    have lt: "ed_cy d < length (line_starts ?t)" using p by (simp add: pos_ok_def)
    have down: "\<not> back \<Longrightarrow> \<not> ed_cx d < length (text_line d1 (ed_cy d)) \<Longrightarrow> ed_cy d + 1 < length (line_starts ?t)"
      using some(3) lt line' st(2) by fastforce
    have new: "pos_ok ?t (ed_cy d2) (ed_cx d2)"
    proof -
      have k: "ed_cy d1 = ed_cy d" "ed_cx d1 = ed_cx d" by (simp_all add: d1_def)
      have "ed_cx d \<noteq> 0 \<Longrightarrow> text_prev (text_line d1 (ed_cy d)) (ed_cx d) \<le> length (text_line d1 (ed_cy d))"
        using text_prev_lt[of "ed_cx d" "text_line d1 (ed_cy d)"] cx by simp
      then show ?thesis
        using cy lt down text_next_le[of "ed_cx d" "text_line d1 (ed_cy d)"]
        by (auto simp: d2_def pos_ok_def k line)
    qed
    have e2: "text_export d2 = ?t" by (simp add: d2_def d1_def text_export_def)
    have k2: "ed_start d2 = line_starts ?t" "ed_data d2 = ed_data d" "ed_ay d2 = ed_cy d" "ed_ax d2 = ed_cx d" "ed_selecting d2"
      using st by (simp_all add: d2_def d1_def)
    have d2: "doc_ok d2" "hist_ok d2 u"
      using tk new p k2 d(2) hist_export[of d2 d] e2 by (auto simp: doc_ok_def text_ok_def at_pos_def)
    obtain a b where rng: "text_range d2 = (a, b)" by force
    have ne: "line_starts ?t ! ed_cy d2 + ed_cx d2 \<noteq> line_starts ?t ! ed_cy d + ed_cx d"
      using line_end[of "ed_cy d - 1" ?t] line_end[of "ed_cy d" ?t] cy lt down cx line
        text_prev_lt[of "ed_cx d" "text_line d1 (ed_cy d)"] text_next_gt[of "ed_cx d" "text_line d1 (ed_cy d)"]
      by (auto simp: d2_def d1_def)
    then have "a \<noteq> b"
      using rng k2 by (auto simp: text_range_def Let_def text_offset_def text_selected_def split: if_splits)
    obtain d3 u3 ok3 where r: "text_replace [] (d2, u) = ((d3, u3), ok3)" by (metis surj_pair)
    let ?m = "ed_mark d (un_current u)"
    have del: "text_delete back (d, u) = (case ((d3, u3), ok3) of
       ((d3, u3), True) \<Rightarrow> ((d3, set_before (?m\<lparr>mk_revision := mk_revision (ch_before (un_changes u3 ! (un_cursor u3 - 1)))\<rparr>) u3), True)
     | ((d3, u3), False) \<Rightarrow> ((ed_restore ?m d3, u3), False))"
      using some r unfolding text_delete_def Let_def d2_def d1_def by (auto simp: not_le)
    show ?thesis
    proof (cases ok3)
      case True
      have "same_place (?m\<lparr>mk_revision := x\<rparr>) d" for x by (simp add: same_place_def ed_mark_def)
      from replace_marked[OF d(1) d2 e2 _ rng \<open>a \<noteq> b\<close> this] show ?thesis
        using del r True assms(2) by (auto simp: du ed_ok_def)
    next
      case False
      then have "d3 = d2" "u3 = u" using replace_fails r by auto
      moreover have "mark_ok ?m (text_export d2)"
        using mark_of_doc[OF _ mark_same[of d "un_current u"]] d(1) e2 by (simp add: doc_ok_def)
      ultimately show ?thesis
        using del False assms(2) restore_ok[of d2 ?m] d2 hist_export[of "ed_restore ?m d2" d2]
        by (auto simp: du ed_ok_def doc_ok_def)
    qed
  qed
qed

section \<open>Undo and redo\<close>

lemma payload_slice:
  assumes "offs_ok 0 (l @ (c, R, I) # r)" "data = payload (l @ (c, R, I) # r)"
  shows "take (ch_removed c) (drop (ch_data c) data) = R"
    "take (ch_inserted c) (drop (ch_data c + ch_removed c) data) = I"
proof -
  have "ch_data c = length (payload l)" "ch_removed c = length R" "ch_inserted c = length I"
    using assms(1) by (auto simp: offs_append)
  moreover have "data = payload l @ R @ I @ payload r" using assms(2) by simp
  ultimately show "take (ch_removed c) (drop (ch_data c) data) = R"
    "take (ch_inserted c) (drop (ch_data c + ch_removed c) data) = I" by simp_all
qed

text \<open>One step through the history moves one delta from one side of the cursor to the other.\<close>

lemma apply_step:
  assumes ok: "ed_ok (d, u)" and ap: "history_apply redo (d, u) = ((d', u'), True)"
  obtains l r t0 t1 c R I P S where
    "un_changes u = map fst (l @ (c, R, I) # r)" "un_data u = payload (l @ (c, R, I) # r)"
    "offs_ok 0 (l @ (c, R, I) # r)" "un_changes u' = un_changes u" "un_data u' = un_data u"
    "un_cursor u = (if redo then length l else length l + 1)" "un_cursor u' = (if redo then length l + 1 else length l)"
    "length P = ch_at c" "text_export d = P @ (if redo then R else I) @ S"
    "text_export d' = P @ (if redo then I else R) @ S" "same_place (if redo then ch_after c else ch_before c) d'"
    "ed_ok (d', u')"
proof -
  obtain l0 r0 t0 t1 where h: "un_changes u = map fst (l0 @ r0)" "un_cursor u = length l0" "un_data u = payload (l0 @ r0)"
    "offs_ok 0 (l0 @ r0)" "path t0 l0 (text_export d)" "path (text_export d) r0 t1"
    "length (l0 @ r0) \<le> ED_HISTORY_STEPS" "length (payload (l0 @ r0)) \<le> ED_HISTORY_BYTES"
    using ok by (auto simp: ed_ok_def hist_ok_def)
  have split: "\<exists>l r c R I. l0 @ r0 = l @ (c, R, I) # r \<and>
    (if redo then l = l0 \<and> r0 = (c, R, I) # r else l0 = l @ [(c, R, I)] \<and> r = r0)"
  proof (cases redo)
    case True
    then have "r0 \<noteq> []" using ap h(1,2) by (auto simp: history_apply_def)
    then show ?thesis using True by (cases r0) auto
  next
    case False
    then have "l0 \<noteq> []" using ap h(2) by (auto simp: history_apply_def)
    then obtain l x where "l0 = l @ [x]" by (metis append_butlast_last_id)
    then show ?thesis using False by (cases x) auto
  qed
  then obtain l r c R I where s: "l0 @ r0 = l @ (c, R, I) # r"
    "if redo then l = l0 \<and> r0 = (c, R, I) # r else l0 = l @ [(c, R, I)] \<and> r = r0" by blast
  obtain P S s1 where p: "s1 = P @ R @ S" "length P = ch_at c" "clean s1" "clean (P @ I @ S)"
    "mark_ok (ch_before c) s1" "mark_ok (ch_after c) (P @ I @ S)" "path t0 l s1" "path (P @ I @ S) r t1"
    "text_export d = (if redo then s1 else P @ I @ S)"
    using s(2) h(5,6) by (cases redo) (auto simp: path_append)
  have chg: "un_changes u ! (if redo then un_cursor u else un_cursor u - 1) = c"
  proof -
    have "un_changes u = map fst (l @ (c, R, I) # r)" using h(1) s(1) by simp
    moreover have "(if redo then un_cursor u else un_cursor u - 1) = length l" using s(2) h(2) by (auto split: if_splits)
    ultimately show ?thesis by (simp add: nth_append)
  qed
  have o: "offs_ok 0 (l @ (c, R, I) # r)" using h(4) s(1) by simp
  note sl = payload_slice[OF o, of "un_data u"]
  have dat: "un_data u = payload (l @ (c, R, I) # r)" using h(3) s(1) by simp
  have len: "ch_removed c = length R" "ch_inserted c = length I" using o by (auto simp: offs_append)
  let ?new = "P @ (if redo then I else R) @ S"
  let ?m = "if redo then ch_after c else ch_before c"
  have cl: "clean ?new" "mark_ok ?m ?new" using p by auto
  have ted: "text_export d = P @ (if redo then R else I) @ S" using p(1,9) by simp
  have new: "take (ch_at c) (text_export d) @
      take (if redo then ch_inserted c else ch_removed c) (drop (ch_data c + (if redo then ch_removed c else 0)) (un_data u)) @
      drop (ch_at c + (if redo then ch_removed c else ch_inserted c)) (text_export d) = ?new"
    using sl dat p(2) len by (auto simp: ted)
  have run: "d' = (ed_restore ?m (text_import ?new d))\<lparr>ed_dirty := (mk_revision ?m \<noteq> un_saved u)\<rparr>"
    "u' = u\<lparr>un_current := mk_revision ?m, un_cursor := (if redo then un_cursor u + 1 else un_cursor u - 1)\<rparr>"
    using ap chg new h(2) by (auto simp: history_apply_def Let_def split: if_splits)
  note i = import_clean[OF cl(1), of d]
  have "mark_ok ?m (text_export (text_import ?new d))" using cl(2) i(1) by simp
  note rs = restore_ok[OF i(2) this]
  have e: "text_export d' = ?new" using rs(2) i(1) run(1) by (simp add: text_export_def)
  have dok: "doc_ok d'" using rs(1) run(1)
    by (simp add: doc_ok_def text_ok_def at_pos_def text_export_def)
  have hok: "hist_ok d' u'"
  proof (cases redo)
    case True
    have "path t0 (l @ [(c, R, I)]) ?new" using p True by (auto simp: path_append)
    then show ?thesis
      unfolding hist_ok_def using True s h p(8) run(2) e
      by (intro exI[of _ "l @ [(c, R, I)]"] exI[of _ r] exI[of _ t0] exI[of _ t1]) auto
  next
    case False
    have "path ?new ((c, R, I) # r) t1" using p False by auto
    then show ?thesis
      unfolding hist_ok_def using False s h p(1,7) run(2) e
      by (intro exI[of _ l] exI[of _ "(c, R, I) # r"] exI[of _ t0] exI[of _ t1]) auto
  qed
  show thesis
  proof (rule that[of l c R I r P S])
    show "same_place ?m d'" by (simp add: run(1) same_place_def ed_restore_def)
  qed (use h s o dat p(2) ted e dok hok run(2) in \<open>auto simp: ed_ok_def\<close>)
qed

lemma apply_possible:
  "snd (history_apply redo (d, u)) \<longleftrightarrow> (if redo then un_cursor u \<noteq> length (un_changes u) else un_cursor u \<noteq> 0)"
  by (auto simp: history_apply_def Let_def)

lemma apply_ok:
  assumes "ed_ok du" "history_apply redo du = (du', ok)"
  shows "ed_ok du'"
proof -
  obtain d u d' u' where du: "du = (d, u)" "du' = (d', u')" by force
  show ?thesis
  proof (cases ok)
    case True
    then show ?thesis using apply_step[of d u redo d' u'] assms by (auto simp: du)
  next
    case False
    then show ?thesis using assms by (auto simp: du history_apply_def Let_def split: if_splits)
  qed
qed

section \<open>Loading, saving, replacing everywhere\<close>

lemma hist_fresh: "hist_ok d (text_history_reset d' u)"
  unfolding hist_ok_def text_history_reset_def
  by (intro exI[of _ "[]"] exI[of _ "text_export d"]) (simp add: ED_HISTORY_STEPS_def)

lemma hist_fields:
  "hist_ok d u \<Longrightarrow> text_export d' = text_export d \<Longrightarrow> un_changes u' = un_changes u \<Longrightarrow>
     un_cursor u' = un_cursor u \<Longrightarrow> un_data u' = un_data u \<Longrightarrow> hist_ok d' u'"
  by (simp add: hist_ok_def)

lemma reset_ok: "ed_ok (text_reset d, text_history_reset d' u)"
proof -
  have "clean []" by (simp add: clean_def normalize_def)
  then show ?thesis
    by (auto simp: ed_ok_def doc_ok_def text_ok_def at_pos_def text_reset_def text_export_def
        line_starts_def pos_ok_def hist_fresh)
qed

lemma set_ok:
  assumes "text_set s d = (d', True)"
  shows "ed_ok (d', text_history_reset d' u)" "normalize s = Some (text_export d')"
proof -
  obtain t where t: "normalize s = Some t" "d' = text_import t (text_reset d)"
    using assms by (auto simp: text_set_def split: if_splits option.splits)
  note i = import_clean[OF normalize_some(4)[OF t(1)], of "text_reset d"]
  show "normalize s = Some (text_export d')" using t i(1) by simp
  have f: "ed_cy d' = 0" "ed_cx d' = 0" "\<not> ed_selecting d'"
    by (simp_all add: t(2) text_import_def text_reset_def Let_def)
  have "pos_ok (text_export d') 0 0" by (simp add: pos_ok_def line_starts_def)
  then show "ed_ok (d', text_history_reset d' u)"
    using i(2) t(2) f by (simp add: ed_ok_def doc_ok_def at_pos_def hist_fresh)
qed

lemma saved_ok: "ed_ok du \<Longrightarrow> text_saved (fst du) (snd du) = du' \<Longrightarrow> ed_ok du'"
  by (auto simp: ed_ok_def text_saved_def doc_ok_def text_ok_def at_pos_def text_export_def elim!: hist_fields)

lemma position_clamped: "text_position off d = text_position (min off (ed_used d)) d"
  by (simp add: text_position_def Let_def min_def)

lemma replace_all_ok:
  assumes "ed_ok du" "text_replace_all q s du = (du', n, ok)"
  shows "ed_ok du'"
proof -
  obtain d u where du: "du = (d, u)" by force
  have d: "doc_ok d" "hist_ok d u" using assms(1) by (simp_all add: ed_ok_def du)
  have tk: "text_ok d" using d(1) by (simp add: doc_ok_def)
  let ?t = "text_export d"
  show ?thesis
  proof (cases "query_ok q \<and> length s < ED_QUERY_CAP")
    case False
    then show ?thesis using assms by (auto simp: text_replace_all_def du)
  next
    case q: True
    show ?thesis
    proof (cases "replace_scan d q s 0 [] 0")
      case None
      then show ?thesis using assms q by (auto simp: text_replace_all_def du)
    next
      case (Some oh)
      obtain out hits where oh: "oh = (out, hits)" by force
      show ?thesis
      proof (cases "hits = 0 \<or> out = ?t")
        case True
        then have "du' = du" using assms q Some oh
          by (cases "hits = 0") (simp_all add: text_replace_all_def du)
        then show ?thesis using assms(1) by simp
      next
        case False
        define d1 where "d1 = d\<lparr>ed_ay := 0, ed_ax := 0, ed_cy := ed_lines d - 1,
          ed_cx := length (text_line d (ed_lines d - 1)), ed_selecting := True\<rparr>"
        have ln: "ed_lines d = length (line_starts ?t)" by (rule lines_start[OF tk])
        have st: "ed_start d = line_starts ?t" using tk by (simp add: text_ok_def)
        have e1: "text_export d1 = ?t" by (simp add: d1_def text_export_def)
        have p: "pos_ok ?t (ed_lines d - 1) (length (text_line d (ed_lines d - 1)))" "pos_ok ?t 0 0"
          using line_starts_props(3)[of ?t] by (simp_all add: pos_ok_def ln text_line_length[OF tk])
        have d1: "doc_ok d1" "hist_ok d1 u"
          using tk p d(2) hist_export[of d1 d] e1 by (auto simp: doc_ok_def text_ok_def at_pos_def d1_def)
        have used: "0 < ed_used d"
        proof (rule ccontr)
          assume "\<not> 0 < ed_used d"
          then have "replace_scan d q s 0 [] 0 = Some ([], 0)" by (subst replace_scan.simps) simp
          then show False using False Some oh by simp
        qed
        have fin: "ed_start d ! (ed_lines d - 1) + length (text_line d (ed_lines d - 1)) = ed_used d"
          using last_line_end[of ?t] by (simp add: st ln text_line_length[OF tk] length_export)
        have rng: "text_range d1 = (0, ed_used d)"
          using fin used line_starts_props(4)[of ?t] st
          by (auto simp: text_range_def Let_def text_selected_def text_offset_def d1_def)
        obtain d2 u2 ok2 where r: "text_replace out (d1, u) = ((d2, u2), ok2)" by (metis surj_pair)
        let ?m = "ed_mark d (un_current u)"
        show ?thesis
        proof (cases ok2)
          case True
          have ne: "0 \<noteq> ed_used d" using used by simp
          have r': "text_replace out (d1, u) = ((d2, u2), True)" using r True by simp
          have sm: "same_place (?m\<lparr>mk_revision := x\<rparr>) d" for x by (simp add: same_place_def ed_mark_def)
          let ?u3 = "set_before (?m\<lparr>mk_revision := mk_revision (ch_before (un_changes u2 ! (un_cursor u2 - 1)))\<rparr>) u2"
          let ?d3 = "text_position (text_offset d (ed_cy d) (ed_cx d)) d2"
          note m = replace_marked[OF d(1) d1 e1 r' rng ne sm[of "mk_revision (ch_before (un_changes u2 ! (un_cursor u2 - 1)))"]]
          have t2: "text_ok d2" using m by (simp add: doc_ok_def)
          note po = position_ok[OF t2, of "min (text_offset d (ed_cy d) (ed_cx d)) (ed_used d2)"]
          have e3: "text_export ?d3 = text_export d2" by (subst position_clamped) (use po in simp)
          have "\<not> ed_selecting ?d3" using m by (simp add: text_position_def Let_def)
          moreover have "pos_ok (text_export d2) (ed_cy ?d3) (ed_cx ?d3)" "text_ok ?d3"
            by (subst position_clamped, subst (2) position_clamped, use po in simp)
               (subst position_clamped, use po in simp)
          ultimately have "doc_ok ?d3" using e3 by (simp add: doc_ok_def at_pos_def)
          moreover have "du' = (?d3, set_after (ed_mark ?d3 (un_current ?u3)) ?u3)"
            using assms(2) q Some oh False r True by (simp add: text_replace_all_def du Let_def d1_def)
          ultimately show ?thesis using m e3 mark_same by (auto simp: ed_ok_def)
        next
          case f: False
          then have "d2 = d1" "u2 = u" using replace_fails r by auto
          moreover have "mark_ok ?m (text_export d1)"
            using mark_of_doc[OF _ mark_same[of d "un_current u"]] d(1) e1 by (simp add: doc_ok_def)
          moreover have "du' = (ed_restore ?m d2, u2)"
            using assms(2) q Some oh False r f by (simp add: text_replace_all_def du Let_def d1_def)
          ultimately show ?thesis
            using restore_ok[of d1 ?m] d1 hist_export[of "ed_restore ?m d1" d1]
            by (auto simp: ed_ok_def doc_ok_def)
        qed
      qed
    qed
  qed
qed

end
