(* ===== verification/Textedit_Props.thy ===== *)
theory Textedit_Props
  imports Textedit_Edit
begin

text \<open>
  The properties of the text editor: it stays well formed under any sequence of commands, an edit
  is a splice of the text, undo and redo are inverse to edits, and the search finds what is there.
\<close>

section \<open>Commands\<close>

text \<open>The commands that the editor windows issue. A caret or selection that the window sets is
  taken over when it is a position of the text, as the windows only set such positions.\<close>

datatype ed_cmd =
    Replace "u8 list" | Delete bool | Undo | Redo | Replace_All "u8 list" "u8 list"
  | Place nat nat nat nat bool int int | Save | Load "u8 list"

definition ed_place :: "nat \<Rightarrow> nat \<Rightarrow> nat \<Rightarrow> nat \<Rightarrow> bool \<Rightarrow> int \<Rightarrow> int \<Rightarrow> textdoc \<Rightarrow> textdoc" where
  "ed_place cy cx ay ax sel tp lf d =
     d\<lparr>ed_cy := cy, ed_cx := cx, ed_ay := ay, ed_ax := ax, ed_selecting := sel, ed_top := tp, ed_left := lf\<rparr>"

fun ed_step :: "ed_cmd \<Rightarrow> textdoc \<times> textundo \<Rightarrow> textdoc \<times> textundo" where
  "ed_step (Replace s) du = fst (text_replace s du)"
| "ed_step (Delete back) du = fst (text_delete back du)"
| "ed_step Undo du = fst (text_undo du)"
| "ed_step Redo du = fst (text_redo du)"
| "ed_step (Replace_All q s) du = fst (text_replace_all q s du)"
| "ed_step (Place cy cx ay ax sel tp lf) du =
     (let d = ed_place cy cx ay ax sel tp lf (fst du) in
      if at_pos (text_export d) d then (d, snd du) else du)"
| "ed_step Save du = text_saved (fst du) (snd du)"
| "ed_step (Load s) du =
     (case text_set s (fst du) of (d, True) \<Rightarrow> (d, text_history_reset d (snd du)) | (d, False) \<Rightarrow> du)"

lemma step_ok: "ed_ok du \<Longrightarrow> ed_ok (ed_step c du)"
proof (induction c du rule: ed_step.induct)
  case (1 s du) then show ?case using replace_ok[of du s] by (metis ed_step.simps(1) prod.collapse)
next
  case (2 b du) then show ?case using delete_ok[of du b] by (metis ed_step.simps(2) prod.collapse)
next
  case (3 du) then show ?case using apply_ok[of du False] by (metis ed_step.simps(3) prod.collapse text_undo_def)
next
  case (4 du) then show ?case using apply_ok[of du True] by (metis ed_step.simps(4) prod.collapse text_redo_def)
next
  case (5 q s du)
  obtain d n k where "text_replace_all q s du = (d, n, k)" by (metis prod_cases3)
  then show ?case using replace_all_ok[OF 5] by simp
next
  case (6 cy cx ay ax sel tp lf du)
  let ?d = "ed_place cy cx ay ax sel tp lf (fst du)"
  have e: "text_export ?d = text_export (fst du)" by (simp add: ed_place_def text_export_def)
  have "at_pos (text_export ?d) ?d \<Longrightarrow> ed_ok (?d, snd du)"
    using 6 e hist_export[of ?d "fst du" "snd du"]
    by (auto simp: ed_ok_def doc_ok_def text_ok_def ed_place_def)
  then show ?case using 6 by (simp add: Let_def)
next
  case (7 du) then show ?case using saved_ok by simp
next
  case (8 s du) then show ?case using set_ok[of s "fst du"] by (auto split: prod.splits bool.splits)
qed

lemma run_ok: "ed_ok du \<Longrightarrow> ed_ok (fold ed_step cs du)"
proof (induction cs arbitrary: du)
  case (Cons c cs)
  then show ?case using Cons.IH[OF step_ok[OF Cons.prems, of c]] by simp
qed simp

definition blank_doc :: textdoc where
  "blank_doc = \<lparr>ed_data = [], ed_start = [0], ed_cy = 0, ed_cx = 0, ed_top = 0, ed_left = 0, ed_dirty = False,
     ed_ay = 0, ed_ax = 0, ed_selecting = False, ed_width = 0\<rparr>"

definition blank_undo :: textundo where
  "blank_undo = \<lparr>un_data = [], un_changes = [], un_cursor = 0, un_serial = 0, un_current = 0, un_saved = 0\<rparr>"

lemma blank_ok: "ed_ok (blank_doc, blank_undo)"
proof -
  have "text_reset blank_doc = blank_doc" "text_history_reset blank_doc blank_undo = blank_undo"
    by (simp_all add: text_reset_def blank_doc_def blank_undo_def text_history_reset_def)
  then show ?thesis using reset_ok[of blank_doc blank_doc blank_undo] by simp
qed

section \<open>Properties\<close>

text \<open>C15. Whatever a window does to a new document, the document stays within its capacity, its text
  is normalised (no tab, carriage return or other control character, at most 120 columns), the
  line table lists exactly the line starts, the caret is a position of the text, and the history
  keeps at most 64 changes and 128 KiB.\<close>

theorem editor_wellformed:
  "case fold ed_step cs (text_reset d, text_history_reset (text_reset d) u) of (d', u') \<Rightarrow>
     ed_used d' < ED_CAP \<and> normalize (text_export d') = Some (text_export d') \<and>
     ed_start d' = line_starts (text_export d') \<and> pos_ok (text_export d') (ed_cy d') (ed_cx d') \<and>
     length (un_changes u') \<le> ED_HISTORY_STEPS \<and> length (un_data u') \<le> ED_HISTORY_BYTES \<and>
     un_cursor u' \<le> length (un_changes u')"
proof -
  obtain d' u' where f: "fold ed_step cs (text_reset d, text_history_reset (text_reset d) u) = (d', u')" by force
  have ok: "ed_ok (d', u')" using run_ok[OF reset_ok, of cs d "text_reset d" u] f by simp
  have "clean (text_export d')" "ed_start d' = line_starts (text_export d')"
    "pos_ok (text_export d') (ed_cy d') (ed_cx d')"
    using ok by (simp_all add: ed_ok_def doc_ok_def text_ok_def at_pos_def)
  moreover from this have "ed_used d' < ED_CAP" using clean_chars(1) length_export by metis
  moreover have "length (un_changes u') \<le> ED_HISTORY_STEPS" "length (un_data u') \<le> ED_HISTORY_BYTES"
    "un_cursor u' \<le> length (un_changes u')"
    using ok by (auto simp: ed_ok_def hist_ok_def)
  ultimately show ?thesis by (simp add: f clean_def)
qed

text \<open>An edit is a splice: it replaces exactly the selected bytes by the typed text with tabs as
  four spaces and carriage returns dropped, or it is refused and changes nothing at all.\<close>

theorem text_replace_splice:
  assumes "ed_ok (d, u)" "text_range d = (a, b)" "text_replace s (d, u) = (du', ok)"
  shows "if ok then text_export (fst du') = take a (text_export d) @ expand s @ drop b (text_export d)
     else du' = (d, u)"
proof (cases ok)
  case False
  then show ?thesis using replace_fails assms(3) by auto
next
  case True
  obtain d' u' where du': "du' = (d', u')" by force
  have d: "doc_ok d" "hist_ok d u" using assms(1) by (simp_all add: ed_ok_def)
  have r: "text_replace s (d, u) = ((d', u'), True)" using assms(3) True du' by simp
  show ?thesis
  proof (cases "a = b \<and> expanded_length s = 0")
    case no: True
    then have "d' = d" using replace_noop[OF r assms(2)] by auto
    moreover have "expand s = []" using no length_expand[of s] by simp
    ultimately show ?thesis using True du' no by simp
  next
    case False
    then have "a \<noteq> b \<or> expanded_length s \<noteq> 0" by simp
    then show ?thesis using replace_step[OF d r assms(2)] True du' by auto
  qed
qed

lemma lab_replace:
  "text_replace [104, 9, 105] (blank_doc, blank_undo) = (fst (text_replace [104, 9, 105] (blank_doc, blank_undo)), True)"
  "text_range blank_doc = (0, 0)" "text_export blank_doc = []" "expanded_length [104, 9, 105] = 6"
  by (simp_all add: text_replace_def blank_doc_def text_range_def text_selected_def text_offset_def text_export_def
      normalize_def ED_CAP_def ED_COLS_def Let_def expanded_length_def)

lemma text_replace_splice_witness:
  "text_export (fst (fst (text_replace [104, 9, 105] (blank_doc, blank_undo)))) = [104, 32, 32, 32, 32, 105]"
  using text_replace_splice[OF blank_ok lab_replace(2,1)]
  by (simp add: lab_replace(3) expand_def replicate4)

text \<open>C16. Undo takes back the last edit and redo makes it again: text, caret, selection and scroll
  position are those before, respectively after, the edit.\<close>

theorem undo_redo_inverse:
  assumes "ed_ok (d, u)" "text_replace s (d, u) = ((d', u'), True)" "text_range d = (a, b)"
    "a \<noteq> b \<or> expanded_length s \<noteq> 0"
  shows "\<exists>d1 u1 d2 u2. text_undo (d', u') = ((d1, u1), True) \<and> text_export d1 = text_export d \<and>
    same_place (ed_mark d 0) d1 \<and> text_redo (d1, u1) = ((d2, u2), True) \<and>
    text_export d2 = text_export d' \<and> same_place (ed_mark d' 0) d2"
proof -
  have d: "doc_ok d" "hist_ok d u" using assms(1) by (simp_all add: ed_ok_def)
  have ok': "ed_ok (d', u')" using replace_ok[OF assms(1,2)] .
  have t: "text_export d' = take a (text_export d) @ expand s @ drop b (text_export d)"
    using text_replace_splice[OF assms(1,3,2)] by simp
  let ?R = "take (b - a) (drop a (text_export d))"
  obtain c ds where c: "un_changes u' = map fst ds @ [c]" "un_cursor u' = length ds + 1"
    "un_data u' = payload (ds @ [(c, ?R, expand s)])" "offs_ok 0 (ds @ [(c, ?R, expand s)])"
    "ch_at c = a" "same_place (ch_before c) d" "same_place (ch_after c) d'"
    using replace_step[OF d assms(2-4)] by metis
  have u: "snd (history_apply False (d', u'))" using c(2) by (simp add: apply_possible)
  then obtain d1 u1 where a1: "history_apply False (d', u') = ((d1, u1), True)" by (metis prod.collapse)
  obtain l r c1 R I P S where l: "un_changes u' = map fst (l @ (c1, R, I) # r)" "un_data u' = payload (l @ (c1, R, I) # r)"
    "offs_ok 0 (l @ (c1, R, I) # r)" "un_changes u1 = un_changes u'" "un_data u1 = un_data u'"
    "un_cursor u' = length l + 1" "un_cursor u1 = length l" "length P = ch_at c1" "text_export d' = P @ I @ S"
    "text_export d1 = P @ R @ S" "same_place (ch_before c1) d1" "ed_ok (d1, u1)"
    by (rule apply_step[OF ok' a1]) auto
  have c1: "c1 = c"
  proof -
    have len: "length l = length ds" using l(6) c(2) by simp
    have "(map fst l @ c1 # map fst r) ! length l = (map fst ds @ [c]) ! length ds" using l(1) c(1) len by simp
    then show ?thesis using len by (simp add: nth_append)
  qed
  have R: "R = ?R" "I = expand s"
    using payload_slice[OF l(3,2)] payload_slice[of ds c ?R "expand s" "[]", OF c(4,3)] by (simp_all add: c1)
  have ab: "a \<le> b" "b \<le> length (text_export d)" using range_ok[OF d(1) assms(3)] by auto
  have P: "P = take a (text_export d)" "S = drop b (text_export d)"
    using l(8,9) t ab by (auto simp: c1 c(5) R append_eq_append_conv)
  have "take a (text_export d) @ ?R @ drop b (text_export d) = text_export d"
    using ab by (metis append_take_drop_id drop_drop le_add_diff_inverse2 add.commute)
  then have e1: "text_export d1 = text_export d" by (simp add: l(10) P R)
  have pl: "same_place (ed_mark d 0) d1"
    using l(11) c(6) by (simp add: c1 same_place_def ed_mark_def)
  have "snd (history_apply True (d1, u1))" using l(1,4,7) by (simp add: apply_possible)
  then obtain d2 u2 where a2: "history_apply True (d1, u1) = ((d2, u2), True)" by (metis prod.collapse)
  obtain l2 r2 c2 R2 I2 P2 S2 where k: "un_changes u1 = map fst (l2 @ (c2, R2, I2) # r2)"
    "un_data u1 = payload (l2 @ (c2, R2, I2) # r2)" "offs_ok 0 (l2 @ (c2, R2, I2) # r2)"
    "un_cursor u1 = length l2" "length P2 = ch_at c2" "text_export d1 = P2 @ R2 @ S2" "text_export d2 = P2 @ I2 @ S2"
    "same_place (ch_after c2) d2"
    by (rule apply_step[OF l(12) a2]) auto
  have c2: "c2 = c"
  proof -
    have "(map fst l2 @ c2 # map fst r2) ! length l2 = (map fst l @ c1 # map fst r) ! length l"
      using k(1,4) l(1,4,7) by simp
    then show ?thesis using k(4) l(7) by (simp add: nth_append c1)
  qed
  have R2: "R2 = R" "I2 = I"
    using payload_slice[OF k(3,2)] payload_slice[OF l(3,2)] l(5) by (simp_all add: c1 c2)
  have "P2 = P" "S2 = S" using k(5,6) l(8,10) by (auto simp: R2 c1 c2 append_eq_append_conv)
  then have "text_export d2 = text_export d'" by (simp add: k(7) l(9) R2)
  then show ?thesis
    using a1 a2 e1 pl k(8) c(7) unfolding text_undo_def text_redo_def c2
    by (auto simp: same_place_def ed_mark_def)
qed

lemma undo_redo_inverse_witness:
  "\<exists>d1 u1. text_undo (fst (text_replace [104, 9, 105] (blank_doc, blank_undo))) = ((d1, u1), True) \<and> text_export d1 = []"
proof -
  obtain d' u' where r: "text_replace [104, 9, 105] (blank_doc, blank_undo) = ((d', u'), True)"
    using lab_replace(1) by (metis prod.collapse)
  show ?thesis
    using undo_redo_inverse[OF blank_ok r lab_replace(2)] r by (auto simp: lab_replace(3,4))
qed

lemma find_append: "find P (xs @ ys) = (case find P xs of None \<Rightarrow> find P ys | r \<Rightarrow> r)"
  by (induction xs) auto

text \<open>A search is one scan, or one followed by a second. The positions \<open>ahead\<close> of the start come
  first; among positions on the same side of the start the one nearer in the direction of the
  search is \<open>sooner\<close>.\<close>

definition ahead :: "bool \<Rightarrow> nat \<Rightarrow> nat \<Rightarrow> bool" where
  "ahead back start i \<longleftrightarrow> (if back then i \<le> start else start \<le> i)"

definition sooner :: "bool \<Rightarrow> nat \<Rightarrow> nat \<Rightarrow> bool" where
  "sooner back i j \<longleftrightarrow> (if back then j < i else i < j)"

definition search_hit :: "textdoc \<Rightarrow> u8 list \<Rightarrow> nat \<Rightarrow> bool \<Rightarrow> bool \<Rightarrow> nat \<Rightarrow> bool" where
  "search_hit d q start back wrap i \<longleftrightarrow> text_matches d q i \<and>
     (if ahead back start i then \<forall>j. text_matches d q j \<and> ahead back start j \<longrightarrow> \<not> sooner back j i
      else wrap \<and> (\<forall>j. text_matches d q j \<longrightarrow> \<not> ahead back start j \<and> \<not> sooner back j i))"

lemma scan_upt:
  "find P [a..<b] = Some i \<longleftrightarrow> P i \<and> a \<le> i \<and> i < b \<and> (\<forall>j. a \<le> j \<and> j < i \<longrightarrow> \<not> P j)"
proof (induction b arbitrary: i)
  case (Suc b)
  show ?case
  proof (cases "find P [a..<b]")
    case None
    then have "\<not> P j" if "a \<le> j" "j < b" for j using that by (auto simp: find_None_iff)
    then show ?thesis using None by (auto simp: find_append less_Suc_eq)
  next
    case (Some x)
    then have "P x" "a \<le> x" "x < b" "\<forall>j. a \<le> j \<and> j < x \<longrightarrow> \<not> P j" using Suc.IH[of x] by auto
    moreover have "find P [a..<Suc b] = Some x" using Some \<open>a \<le> x\<close> \<open>x < b\<close> by (simp add: find_append)
    ultimately show ?thesis by (metis less_SucI linorder_neqE_nat option.inject)
  qed
qed simp

lemma scan_rev_upt:
  "find P (rev [a..<b]) = Some i \<longleftrightarrow> P i \<and> a \<le> i \<and> i < b \<and> (\<forall>j. i < j \<and> j < b \<longrightarrow> \<not> P j)"
proof (induction b)
  case (Suc b)
  then show ?case by (cases "P b") (auto simp: less_Suc_eq)
qed simp

lemma find_then:
  "(case find P xs of Some i \<Rightarrow> Some i | None \<Rightarrow> if w then find P ys else None) = Some i \<longleftrightarrow>
     find P xs = Some i \<or> (\<forall>j\<in>set xs. \<not> P j) \<and> w \<and> find P ys = Some i"
proof -
  have "(\<forall>j\<in>set xs. \<not> P j) \<longleftrightarrow> find P xs = None" by (auto simp: find_None_iff)
  then show ?thesis by (cases "find P xs") auto
qed

lemma scan_forward:
  assumes "\<And>j. P j \<Longrightarrow> j < n \<and> j < used" "st = (if start > used then used else start)"
  shows "(case find P [st..<n] of Some i \<Rightarrow> Some i | None \<Rightarrow> if w then find P [0..<min st n] else None) = Some i \<longleftrightarrow>
    P i \<and> (if start \<le> i then \<forall>j. P j \<and> start \<le> j \<longrightarrow> \<not> j < i
      else w \<and> (\<forall>j. P j \<longrightarrow> \<not> start \<le> j \<and> \<not> j < i))"
proof (cases "P i")
  case True
  have st: "st \<le> j \<longleftrightarrow> start \<le> j" if "P j" for j using assms(1)[OF that] assms(2) by auto
  have e: "(\<forall>j. st \<le> j \<and> j < i \<longrightarrow> \<not> P j) \<longleftrightarrow> (\<forall>j. P j \<and> start \<le> j \<longrightarrow> \<not> j < i)" using st by blast
  have m: "j \<in> set [st..<n] \<longleftrightarrow> start \<le> j" if "P j" for j using st[OF that] assms(1)[OF that] by simp
  have u: "(\<forall>j\<in>set [st..<n]. \<not> P j) \<longleftrightarrow> (\<forall>j. P j \<longrightarrow> \<not> start \<le> j)" using m by blast
  have i: "i < min st n \<longleftrightarrow> \<not> start \<le> i" "i < n" "st \<le> i \<longleftrightarrow> start \<le> i"
    using st[OF True] assms(1)[OF True] by auto
  show ?thesis
    unfolding find_then scan_upt e u i(1,3) using True i(2) by (cases "start \<le> i") (simp_all only: if_True if_False, blast+)
qed (simp add: find_then scan_upt)

lemma scan_backward:
  assumes "\<And>j. P j \<Longrightarrow> j \<le> lst" "fst1 = (if st < lst then st else lst)" "lst \<le> used"
    "st = (if start > used then used else start)"
  shows "(case find P (rev [0..<fst1 + 1]) of Some i \<Rightarrow> Some i
      | None \<Rightarrow> if w then find P (rev [fst1 + 1..<lst + 1]) else None) = Some i \<longleftrightarrow>
    P i \<and> (if i \<le> start then \<forall>j. P j \<and> j \<le> start \<longrightarrow> \<not> i < j
      else w \<and> (\<forall>j. P j \<longrightarrow> \<not> j \<le> start \<and> \<not> i < j))"
proof (cases "P i")
  case True
  have st: "j < fst1 + 1 \<longleftrightarrow> j \<le> start" "fst1 + 1 \<le> j \<longleftrightarrow> start < j" "j < lst + 1" if "P j" for j
    using assms(1)[OF that] assms(2-4) by auto
  have e: "(\<forall>j. i < j \<and> j < fst1 + 1 \<longrightarrow> \<not> P j) \<longleftrightarrow> (\<forall>j. P j \<and> j \<le> start \<longrightarrow> \<not> i < j)" using st(1) by blast
  have m: "j \<in> set (rev [0..<fst1 + 1]) \<longleftrightarrow> j \<le> start" if "P j" for j
    unfolding set_rev set_upt atLeastLessThan_iff using st(1)[OF that] by blast
  have u: "(\<forall>j\<in>set (rev [0..<fst1 + 1]). \<not> P j) \<longleftrightarrow> (\<forall>j. P j \<longrightarrow> \<not> j \<le> start)" using m by blast
  have v: "(\<forall>j. i < j \<and> j < lst + 1 \<longrightarrow> \<not> P j) \<longleftrightarrow> (\<forall>j. P j \<longrightarrow> \<not> i < j)" using st(3) by blast
  have i: "i < fst1 + 1 \<longleftrightarrow> i \<le> start" "fst1 + 1 \<le> i \<longleftrightarrow> \<not> i \<le> start" "i < lst + 1" using st[OF True] by auto
  show ?thesis
    unfolding find_then scan_rev_upt e u v i(1,2) using True i(3)
    by (cases "i \<le> start") (simp_all only: if_True if_False, blast+)
next
  case False
  then show ?thesis unfolding find_then scan_rev_upt by blast
qed

text \<open>C17. The search (\<^verbatim>\<open>text_find\<close>) is exact in both directions, with and without wrapping: it
  returns \<open>i\<close> exactly when the query is valid and \<open>i\<close> is the match that comes first in the
  direction of the search among those at or ahead of the start, or, if there are none and the
  search wraps, the first in that direction among the rest. So it fails exactly when there is
  no such match.\<close>

theorem text_find_exact:
  "text_find d q start back wrap = Some i \<longleftrightarrow> query_ok q \<and> search_hit d q start back wrap i"
proof (cases "query_ok q \<and> length q \<le> ed_used d")
  case False
  then show ?thesis by (auto simp: text_find_def search_hit_def text_matches_def)
next
  case True
  let ?M = "text_matches d q" and ?l = "ed_used d - length q"
  let ?st = "if start > ed_used d then ed_used d else start"
  have q: "0 < length q" using True by (auto simp: query_ok_def)
  have m: "?M j \<Longrightarrow> j < ?l + 1 \<and> j < ed_used d" "?M j \<Longrightarrow> j \<le> ?l" for j
    using q True unfolding text_matches_def by linarith+
  show ?thesis
  proof (cases "back")
    case False
    then show ?thesis
      using True scan_forward[of ?M "?l + 1" "ed_used d" ?st start wrap i, OF m(1) refl]
      by (simp add: text_find_def search_hit_def ahead_def sooner_def Let_def not_less del: min_less_iff_conj)
  next
    case bk: True
    then show ?thesis
      using True scan_backward[of ?M ?l _ ?st "ed_used d" start wrap i, OF m(2) refl diff_le_self refl]
      by (simp add: text_find_def search_hit_def ahead_def sooner_def Let_def not_less)
  qed
qed

text \<open>A backward search from the first byte of \<^verbatim>\<open>"abab"\<close> wraps to the second \<^verbatim>\<open>b\<close>.\<close>

lemma text_find_exact_witness:
  "text_find (text_import [97, 98, 97, 98] blank_doc) [98] 0 True True = Some 3"
proof -
  let ?d = "text_import [97, 98, 97, 98] blank_doc"
  have "clean [97, 98, 97, 98]" by (simp add: clean_def normalize_def Let_def ED_COLS_def ED_CAP_def word_less_nat_alt)
  then have d: "ed_used ?d = 4" "text_export ?d = [97, 98, 97, 98]" by (simp_all add: import_clean)
  have e: "ed_data ?d = [97, 98, 97, 98]"
    using d(2) by (auto simp: text_export_def map_eq_Cons_conv split: if_splits)
  have m: "text_matches ?d [98] j \<longleftrightarrow> j = 1 \<or> j = 3" for j
  proof (cases "j < 4")
    case True
    then have "j = 0 \<or> j = 1 \<or> j = 2 \<or> j = 3" by auto
    then show ?thesis by (auto simp: text_matches_def text_boundary_def d e is_cont_def)
  qed (simp add: text_matches_def d)
  have "query_ok [98]" by (simp add: query_ok_def ED_QUERY_CAP_def is_cont_def)
  then show ?thesis
    using text_find_exact[of ?d "[98]" 0 True True 3] by (auto simp: search_hit_def m ahead_def sooner_def)
qed

end
