(* ===== verification/Pmm.thy ===== *)
theory Pmm
  imports KV_Base
begin

text \<open>
  The allocator of physical pages, \<^verbatim>\<open>kernel/pmm.c\<close>: a bitmap of 4 KiB frames (a set bit
  is a frame in use) with the number of frames in use beside it. Addresses and sizes are 32-bit
  values and wrap as in the code; a loop over an address range is a partial function, so that a
  loop that never ends is \<open>None\<close>.
\<close>

definition FRAME_SIZE :: u32 where "FRAME_SIZE = 4096"
definition MAX_FRAMES :: u32 where "MAX_FRAMES = 0x100000"

record pmm =
  pm_bitmap :: "nat \<Rightarrow> u32"
  pm_total :: u32
  pm_used :: u32

text \<open>An entry of the boot loader's memory map; the walk from entry to entry is the list.\<close>

record mb_mmap =
  mm_addr :: u64
  mm_len :: u64
  mm_type :: u32

definition bm_set :: "u32 \<Rightarrow> (nat \<Rightarrow> u32) \<Rightarrow> nat \<Rightarrow> u32" where
  "bm_set i bm = bm(unat (drop_bit 5 i) := bm (unat (drop_bit 5 i)) OR push_bit (unat (i AND 31)) 1)"

definition bm_clear :: "u32 \<Rightarrow> (nat \<Rightarrow> u32) \<Rightarrow> nat \<Rightarrow> u32" where
  "bm_clear i bm = bm(unat (drop_bit 5 i) := bm (unat (drop_bit 5 i)) AND NOT (push_bit (unat (i AND 31)) 1))"

definition bm_test :: "u32 \<Rightarrow> (nat \<Rightarrow> u32) \<Rightarrow> bool" where
  "bm_test i bm \<longleftrightarrow> drop_bit (unat (i AND 31)) (bm (unat (drop_bit 5 i))) AND 1 \<noteq> 0"

definition release_frame :: "u32 \<Rightarrow> pmm \<Rightarrow> pmm" where
  "release_frame idx p =
     (if idx < pm_total p \<and> bm_test idx (pm_bitmap p)
      then p\<lparr>pm_bitmap := bm_clear idx (pm_bitmap p), pm_used := pm_used p - 1\<rparr> else p)"

definition occupy_frame :: "u32 \<Rightarrow> pmm \<Rightarrow> pmm" where
  "occupy_frame idx p =
     (if idx < pm_total p \<and> \<not> bm_test idx (pm_bitmap p)
      then p\<lparr>pm_bitmap := bm_set idx (pm_bitmap p), pm_used := pm_used p + 1\<rparr> else p)"

text \<open>\<^verbatim>\<open>for (a = \<dots>; a + FRAME_SIZE <= end; a += FRAME_SIZE)\<close> and \<^verbatim>\<open>for (a = \<dots>; a < end; \<dots>)\<close>.\<close>

partial_function (option) release_range :: "u32 \<Rightarrow> u32 \<Rightarrow> pmm \<Rightarrow> pmm option" where
  "release_range a e p =
     (if a + FRAME_SIZE \<le> e then release_range (a + FRAME_SIZE) e (release_frame (a div FRAME_SIZE) p) else Some p)"

partial_function (option) occupy_range :: "u32 \<Rightarrow> u32 \<Rightarrow> pmm \<Rightarrow> pmm option" where
  "occupy_range a e p =
     (if a < e then occupy_range (a + FRAME_SIZE) e (occupy_frame (a div FRAME_SIZE) p) else Some p)"

declare release_range.simps [code]
declare occupy_range.simps [code]

definition page_up :: "u32 \<Rightarrow> u32" where
  "page_up x = (x + FRAME_SIZE - 1) AND NOT (FRAME_SIZE - 1)"

definition page_down :: "u32 \<Rightarrow> u32" where
  "page_down x = x AND NOT (FRAME_SIZE - 1)"

fun release_map :: "mb_mmap list \<Rightarrow> pmm \<Rightarrow> pmm option" where
  "release_map [] p = Some p"
| "release_map (m # ms) p =
     (if mm_type m = 1
      then (case release_range (page_up (ucast (mm_addr m))) (ucast (mm_addr m + mm_len m)) p of
              None \<Rightarrow> None | Some p \<Rightarrow> release_map ms p)
      else release_map ms p)"

text \<open>The start of \<^verbatim>\<open>pmm_init\<close>: every frame is busy; then the whole of it, where \<open>kend\<close> is the
  address of \<^verbatim>\<open>kernel_end\<close> and \<open>None\<close> a boot without a memory map.\<close>

definition pmm_fresh :: "u32 \<Rightarrow> pmm" where
  "pmm_fresh mem_bytes =
     (let frames = mem_bytes div FRAME_SIZE;
          frames = (if frames > MAX_FRAMES then MAX_FRAMES else frames)
      in \<lparr>pm_bitmap = (\<lambda>i. 0xFFFFFFFF), pm_total = frames, pm_used = frames\<rparr>)"

definition pmm_init :: "u32 \<Rightarrow> u32 \<Rightarrow> mb_mmap list option \<Rightarrow> pmm option" where
  "pmm_init kend mem_upper_kb mmap =
     (let mem_bytes = (mem_upper_kb + 1024) * 1024; p = pmm_fresh mem_bytes
      in case (case mmap of Some ms \<Rightarrow> release_map ms p | None \<Rightarrow> release_range 0x100000 mem_bytes p) of
           None \<Rightarrow> None
         | Some p \<Rightarrow> occupy_range 0 (page_up kend) p)"

definition pmm_alloc_frame :: "pmm \<Rightarrow> pmm \<times> u32" where
  "pmm_alloc_frame p =
     (case find (\<lambda>i. \<not> bm_test (of_nat i) (pm_bitmap p)) [0..<unat (pm_total p)] of
        Some i \<Rightarrow> (p\<lparr>pm_bitmap := bm_set (of_nat i) (pm_bitmap p), pm_used := pm_used p + 1\<rparr>, of_nat i * FRAME_SIZE)
      | None \<Rightarrow> (p, 0))"

definition pmm_free_frame :: "u32 \<Rightarrow> pmm \<Rightarrow> pmm" where
  "pmm_free_frame addr p = release_frame (addr div FRAME_SIZE) p"

definition pmm_reserve_range :: "u32 \<Rightarrow> u32 \<Rightarrow> pmm \<Rightarrow> pmm option" where
  "pmm_reserve_range base sz p = occupy_range (page_down base) (page_up (base + sz)) p"

definition pmm_total_bytes :: "pmm \<Rightarrow> u32" where
  "pmm_total_bytes p = pm_total p * FRAME_SIZE"

section \<open>The bitmap\<close>

lemma and_31: "unat (i AND 31) = unat i mod 32" for i :: u32
proof -
  have "(31 :: u32) = mask 5" by (simp add: mask_eq_exp_minus_1)
  then have "i AND 31 = take_bit 5 i" by (simp add: take_bit_eq_mask)
  then show ?thesis by (simp add: take_bit_eq_mod unat_mod)
qed

lemma word_of_index: "unat (drop_bit 5 i) = unat i div 32" for i :: u32
  unfolding unat_drop_bit_eq by (simp add: drop_bit_eq_div)

lemma bm_test_bit: "bm_test i bm \<longleftrightarrow> bit (bm (unat i div 32)) (unat i mod 32)"
proof -
  have "drop_bit n w AND 1 \<noteq> 0 \<longleftrightarrow> bit w n" for w :: u32 and n
    by (simp add: and_one_eq bit_iff_odd_drop_bit odd_iff_mod_2_eq_one)
  then show ?thesis by (simp add: bm_test_def and_31 word_of_index)
qed

lemma index_eq: "unat i div 32 = unat j div 32 \<Longrightarrow> unat i mod 32 = unat j mod 32 \<Longrightarrow> i = j" for i j :: u32
  by (metis div_mult_mod_eq word_unat_eq_iff)

lemma bm_test_set [simp]: "bm_test j (bm_set i bm) \<longleftrightarrow> j = i \<or> bm_test j bm"
  unfolding bm_test_bit bm_set_def and_31 word_of_index
  by (auto simp: bit_simps dest: index_eq)

lemma bm_test_clear [simp]: "bm_test j (bm_clear i bm) \<longleftrightarrow> j \<noteq> i \<and> bm_test j bm"
  unfolding bm_test_bit bm_clear_def and_31 word_of_index
  by (auto simp: bit_simps dest: index_eq)

section \<open>Ranges\<close>

definition used_frame :: "pmm \<Rightarrow> nat \<Rightarrow> bool" where
  "used_frame p i \<longleftrightarrow> bm_test (of_nat i) (pm_bitmap p)"

definition pmm_ok :: "pmm \<Rightarrow> bool" where
  "pmm_ok p \<longleftrightarrow> pm_total p \<le> MAX_FRAMES \<and> unat (pm_used p) = length (filter (used_frame p) [0..<unat (pm_total p)])"

lemma frame_word:
  assumes "k * 4096 < 2 ^ 32"
  shows "unat (of_nat (k * 4096) :: u32) = k * 4096" "(of_nat (k * 4096) :: u32) div FRAME_SIZE = of_nat k"
    "unat (of_nat k :: u32) = k"
proof -
  show u: "unat (of_nat (k * 4096) :: u32) = k * 4096" using assms by (rule unat_of_nat_u32)
  show k: "unat (of_nat k :: u32) = k" using assms by (intro unat_of_nat_u32) simp
  have "unat ((of_nat (k * 4096) :: u32) div FRAME_SIZE) = k" using u by (simp add: unat_div FRAME_SIZE_def del: of_nat_mult)
  then show "(of_nat (k * 4096) :: u32) div FRAME_SIZE = of_nat k" using k by (simp add: word_unat_eq_iff del: of_nat_mult)
qed

lemma used_release:
  assumes "unat (of_nat k :: u32) = k" "i < 2 ^ 32"
  shows "used_frame (release_frame (of_nat k) p) i \<longleftrightarrow> used_frame p i \<and> \<not> (i = k \<and> k < unat (pm_total p))"
  using assms of_nat_u32_inj[of i k] unat_of_nat_u32[of i] unat_lt_u32[of "of_nat k"]
  by (auto simp: release_frame_def used_frame_def word_less_nat_alt)

lemma used_occupy:
  assumes "unat (of_nat k :: u32) = k" "i < 2 ^ 32"
  shows "used_frame (occupy_frame (of_nat k) p) i \<longleftrightarrow> used_frame p i \<or> (i = k \<and> k < unat (pm_total p))"
  using assms of_nat_u32_inj[of i k] unat_of_nat_u32[of i] unat_lt_u32[of "of_nat k"]
  by (auto simp: occupy_frame_def used_frame_def word_less_nat_alt)

lemma frame_total [simp]: "pm_total (release_frame k p) = pm_total p" "pm_total (occupy_frame k p) = pm_total p"
  by (simp_all add: release_frame_def occupy_frame_def)

lemma count_filter: "length (filter P [0..<n]) = card {i. i < n \<and> P i}"
proof -
  have "length (filter P [0..<n]) = card (set (filter P [0..<n]))" by (simp only: distinct_card distinct_filter distinct_upt)
  also have "set (filter P [0..<n]) = {i. i < n \<and> P i}" by auto
  finally show ?thesis .
qed

lemma pmm_ok_frame:
  assumes "pmm_ok p"
  shows "pmm_ok (release_frame k p)" "pmm_ok (occupy_frame k p)"
proof -
  let ?n = "unat (pm_total p)" and ?k = "unat k"
  have n: "?n \<le> 1048576" using assms by (simp add: pmm_ok_def MAX_FRAMES_def word_le_nat_alt)
  have kk: "k = of_nat ?k" by simp
  have u: "unat (of_nat ?k :: u32) = ?k" by simp
  have c: "unat (pm_used p) = card {i. i < ?n \<and> used_frame p i}" using assms by (simp only: pmm_ok_def count_filter)
  have ck: "used_frame p ?k \<longleftrightarrow> bm_test k (pm_bitmap p)" by (simp add: used_frame_def)
  have le: "card {i. i < ?n \<and> used_frame p i} \<le> ?n" by (rule order_trans[OF card_mono[of "{..<?n}"]]) auto
  show "pmm_ok (release_frame k p)"
  proof (cases "k < pm_total p \<and> bm_test k (pm_bitmap p)")
    case True
    have eq: "{i. i < ?n \<and> used_frame (release_frame k p) i} = {i. i < ?n \<and> used_frame p i} - {?k}"
      using used_release[OF u, of _ p] n kk True by (auto simp: word_less_nat_alt)
    have m: "?k \<in> {i. i < ?n \<and> used_frame p i}" using True ck by (simp add: word_less_nat_alt)
    then have pos: "0 < card {i. i < ?n \<and> used_frame p i}" by (auto simp: card_gt_0_iff)
    have "unat (pm_used p - 1) = unat (pm_used p) - 1"
      using pos c by (intro unat_minus_one) (auto simp: unat_gt_0[symmetric])
    moreover have "card ({i. i < ?n \<and> used_frame p i} - {?k}) = card {i. i < ?n \<and> used_frame p i} - 1"
      using m by (simp add: card_Diff_singleton)
    ultimately show ?thesis
      using assms True c unfolding pmm_ok_def count_filter frame_total eq by (simp add: release_frame_def)
  next
    case False
    then show ?thesis using assms by (auto simp: release_frame_def)
  qed
  show "pmm_ok (occupy_frame k p)"
  proof (cases "k < pm_total p \<and> \<not> bm_test k (pm_bitmap p)")
    case True
    have eq: "{i. i < ?n \<and> used_frame (occupy_frame k p) i} = insert ?k {i. i < ?n \<and> used_frame p i}"
      using used_occupy[OF u, of _ p] n kk True by (auto simp: word_less_nat_alt)
    have m: "?k \<notin> {i. i < ?n \<and> used_frame p i}" using True ck by simp
    have "unat (pm_used p + 1) = unat (pm_used p) + 1" using c le n by (simp add: unat_add_u32)
    then show ?thesis
      using assms True c m unfolding pmm_ok_def count_filter frame_total eq by (simp add: occupy_frame_def)
  next
    case False
    then show ?thesis using assms by (auto simp: occupy_frame_def)
  qed
qed

lemma release_range_spec:
  assumes "k * 4096 + 4096 < 2 ^ 32" "unat e + 4096 < 2 ^ 32"
  shows "\<exists>p'. release_range (of_nat (k * 4096)) e p = Some p' \<and> pm_total p' = pm_total p \<and> (pmm_ok p \<longrightarrow> pmm_ok p') \<and>
    (\<forall>i<2 ^ 32. used_frame p' i \<longleftrightarrow> used_frame p i \<and> \<not> (k \<le> i \<and> i < unat e div 4096 \<and> i < unat (pm_total p)))"
  using assms(1)
proof (induction "unat e div 4096 - k" arbitrary: k p)
  case 0
  have "\<not> (of_nat (k * 4096) :: u32) + FRAME_SIZE \<le> e"
  proof -
    have "unat ((of_nat (k * 4096) :: u32) + FRAME_SIZE) = k * 4096 + 4096"
      using 0(2) frame_word(1)[of k] by (simp add: unat_add_u32 FRAME_SIZE_def del: of_nat_mult)
    moreover have "unat e < k * 4096 + 4096" using 0(1) by linarith
    ultimately show ?thesis by (simp add: word_le_nat_alt del: of_nat_mult)
  qed
  then show ?case using 0(1) by (subst release_range.simps) (auto simp del: of_nat_mult)
next
  case (Suc n)
  have k: "k < unat e div 4096" "n = unat e div 4096 - (k + 1)" using Suc.hyps(2) by linarith+
  have u: "unat ((of_nat (k * 4096) :: u32) + FRAME_SIZE) = k * 4096 + 4096"
    using Suc.prems frame_word(1)[of k] by (simp add: unat_add_u32 FRAME_SIZE_def del: of_nat_mult)
  have le: "(of_nat (k * 4096) :: u32) + FRAME_SIZE \<le> e"
    using u k(1) by (simp add: word_le_nat_alt del: of_nat_mult)
  have nx: "(of_nat (k * 4096) :: u32) + FRAME_SIZE = of_nat ((k + 1) * 4096)"
    by (simp add: FRAME_SIZE_def algebra_simps)
  have b: "(k + 1) * 4096 + 4096 < 2 ^ 32" using k(1) assms(2) div_times_less_eq_dividend[of "unat e" 4096] by simp
  have kk: "k * 4096 < 2 ^ 32" using b by simp
  let ?p = "release_frame (of_nat k) p"
  obtain p' where p': "release_range (of_nat ((k + 1) * 4096)) e ?p = Some p'" "pm_total p' = pm_total ?p"
    "pmm_ok ?p \<longrightarrow> pmm_ok p'"
    "\<forall>i<2 ^ 32. used_frame p' i \<longleftrightarrow> used_frame ?p i \<and> \<not> (k + 1 \<le> i \<and> i < unat e div 4096 \<and> i < unat (pm_total ?p))"
    using Suc.hyps(1)[OF k(2) b] by blast
  have "release_range (of_nat (k * 4096)) e p = Some p'"
    using le p'(1) unfolding nx by (subst release_range.simps) (simp only: nx frame_word(2)[OF kk] if_True)
  moreover have "pmm_ok p \<Longrightarrow> pmm_ok ?p" by (rule pmm_ok_frame)
  moreover have "used_frame p' i \<longleftrightarrow> used_frame p i \<and> \<not> (k \<le> i \<and> i < unat e div 4096 \<and> i < unat (pm_total p))"
    if "i < 2 ^ 32" for i
    using p'(4) used_release[OF frame_word(3)[OF kk] that, of p] that k(1) by auto
  ultimately show ?case using p'(2,3) by auto
qed

lemma occupy_range_spec:
  assumes "k * 4096 + 4096 < 2 ^ 32" "unat e + 4096 < 2 ^ 32" "4096 dvd unat e"
  shows "\<exists>p'. occupy_range (of_nat (k * 4096)) e p = Some p' \<and> pm_total p' = pm_total p \<and> (pmm_ok p \<longrightarrow> pmm_ok p') \<and>
    (\<forall>i<2 ^ 32. used_frame p' i \<longleftrightarrow> used_frame p i \<or> (k \<le> i \<and> i < unat e div 4096 \<and> i < unat (pm_total p)))"
  using assms(1)
proof (induction "unat e div 4096 - k" arbitrary: k p)
  case 0
  have "\<not> (of_nat (k * 4096) :: u32) < e"
    using 0(1) frame_word(1)[of k] 0(2) dvd_div_mult_self[OF assms(3)]
    by (simp add: word_less_nat_alt del: of_nat_mult)
  then show ?case using 0(1) by (subst occupy_range.simps) (auto simp del: of_nat_mult)
next
  case (Suc n)
  have k: "k < unat e div 4096" "n = unat e div 4096 - (k + 1)" using Suc.hyps(2) by linarith+
  have lt: "(of_nat (k * 4096) :: u32) < e"
    using k(1) frame_word(1)[of k] Suc.prems by (simp add: word_less_nat_alt del: of_nat_mult)
  have nx: "(of_nat (k * 4096) :: u32) + FRAME_SIZE = of_nat ((k + 1) * 4096)"
    by (simp add: FRAME_SIZE_def algebra_simps)
  have b: "(k + 1) * 4096 + 4096 < 2 ^ 32" using k(1) assms(2) div_times_less_eq_dividend[of "unat e" 4096] by simp
  have kk: "k * 4096 < 2 ^ 32" using b by simp
  let ?p = "occupy_frame (of_nat k) p"
  obtain p' where p': "occupy_range (of_nat ((k + 1) * 4096)) e ?p = Some p'" "pm_total p' = pm_total ?p"
    "pmm_ok ?p \<longrightarrow> pmm_ok p'"
    "\<forall>i<2 ^ 32. used_frame p' i \<longleftrightarrow> used_frame ?p i \<or> (k + 1 \<le> i \<and> i < unat e div 4096 \<and> i < unat (pm_total ?p))"
    using Suc.hyps(1)[OF k(2) b] by blast
  have "occupy_range (of_nat (k * 4096)) e p = Some p'"
    using lt p'(1) by (subst occupy_range.simps) (simp only: nx frame_word(2)[OF kk] if_True)
  moreover have "pmm_ok p \<Longrightarrow> pmm_ok ?p" by (rule pmm_ok_frame)
  moreover have "used_frame p' i \<longleftrightarrow> used_frame p i \<or> (k \<le> i \<and> i < unat e div 4096 \<and> i < unat (pm_total p))"
    if "i < 2 ^ 32" for i
    using p'(4) used_occupy[OF frame_word(3)[OF kk] that, of p] that k(1) by auto
  ultimately show ?case using p'(2,3) by auto
qed

lemma page_up_unat:
  assumes "unat x + 4096 \<le> 2 ^ 32"
  shows "page_up x = of_nat ((unat x + 4095) div 4096 * 4096)"
proof -
  have m: "(4095 :: u32) = mask 12" by (simp add: mask_eq_exp_minus_1)
  have "page_up x = push_bit 12 (drop_bit 12 (x + 4095))"
  proof -
    have "y AND NOT (mask 12) = push_bit 12 (drop_bit 12 y)" for y :: u32
      by (rule bit_word_eqI) (auto simp: bit_simps)
    moreover have "x + FRAME_SIZE - 1 = x + 4095" "FRAME_SIZE - 1 = mask 12" by (simp_all add: FRAME_SIZE_def m)
    ultimately show ?thesis by (simp only: page_up_def)
  qed
  also have "\<dots> = of_nat ((unat x + 4095) div 4096 * 4096)"
  proof -
    have u: "unat (x + 4095) = unat x + 4095" using assms by (simp add: unat_add_u32)
    have "drop_bit 12 (x + 4095) = of_nat ((unat x + 4095) div 4096)"
    proof -
      have "unat (drop_bit 12 (x + 4095)) = (unat x + 4095) div 4096"
        unfolding unat_drop_bit_eq by (simp add: drop_bit_eq_div u)
      moreover have "drop_bit 12 (x + 4095) = of_nat (unat (drop_bit 12 (x + 4095)))" by simp
      ultimately show ?thesis by (simp only:)
    qed
    then show ?thesis by (simp add: push_bit_eq_mult)
  qed
  finally show ?thesis .
qed

section \<open>Properties\<close>

lemma page_up_bounds:
  assumes "unat x + 8192 \<le> 2 ^ 32"
  shows "unat (page_up x) + 4096 < 2 ^ 32" "4096 dvd unat (page_up x)" "unat x \<le> unat (page_up x)"
    "unat (page_up x) = (unat x + 4095) div 4096 * 4096"
proof -
  have x: "unat x \<le> 4294959104" using assms by simp
  have "(unat x + 4095) div 4096 * 4096 \<le> unat x + 4095" by (rule div_times_less_eq_dividend)
  then have lt: "(unat x + 4095) div 4096 * 4096 < 2 ^ 32" using x by simp
  have u: "unat (page_up x) = (unat x + 4095) div 4096 * 4096"
    using page_up_unat[of x] unat_of_nat_u32[OF lt] assms by (simp del: of_nat_mult)
  show "unat (page_up x) = (unat x + 4095) div 4096 * 4096" by (rule u)
  have d: "unat x + 4095 = (unat x + 4095) div 4096 * 4096 + (unat x + 4095) mod 4096" by simp
  have r: "(unat x + 4095) mod 4096 < 4096" by simp
  show "4096 dvd unat (page_up x)" unfolding u by simp
  show "unat x \<le> unat (page_up x)" using d r unfolding u by linarith
  show "unat (page_up x) + 4096 < 2 ^ 32" using x d unfolding u by simp
qed

text \<open>A map entry below 4 GiB, as the 32-bit loops need it.\<close>

definition map_entry_ok :: "mb_mmap \<Rightarrow> bool" where
  "map_entry_ok m \<longleftrightarrow> unat (mm_addr m) + unat (mm_len m) + 8192 \<le> 2 ^ 32"

definition in_entry :: "mb_mmap \<Rightarrow> nat \<Rightarrow> bool" where
  "in_entry m i \<longleftrightarrow> mm_type m = 1 \<and> unat (mm_addr m) \<le> i * 4096 \<and> (i + 1) * 4096 \<le> unat (mm_addr m) + unat (mm_len m)"

lemma entry_bounds:
  assumes "map_entry_ok m"
  shows "unat (ucast (mm_addr m) :: u32) = unat (mm_addr m)"
    "unat (ucast (mm_addr m + mm_len m) :: u32) = unat (mm_addr m) + unat (mm_len m)"
proof -
  have a: "unat (mm_addr m) < 2 ^ 32" "unat (mm_addr m) + unat (mm_len m) < 2 ^ 32"
    using assms by (simp_all add: map_entry_ok_def)
  then have s: "unat (mm_addr m + mm_len m) = unat (mm_addr m) + unat (mm_len m)" by (simp add: unat_add_u64)
  show "unat (ucast (mm_addr m) :: u32) = unat (mm_addr m)"
    "unat (ucast (mm_addr m + mm_len m) :: u32) = unat (mm_addr m) + unat (mm_len m)"
    using a s by (simp_all add: unsigned_ucast_eq take_bit_nat_eq_self)
qed

lemma release_map_spec:
  assumes "\<forall>m\<in>set ms. map_entry_ok m"
  shows "\<exists>p'. release_map ms p = Some p' \<and> pm_total p' = pm_total p \<and> (pmm_ok p \<longrightarrow> pmm_ok p') \<and>
    (\<forall>i<2 ^ 32. used_frame p' i \<longleftrightarrow> used_frame p i \<and> \<not> (i < unat (pm_total p) \<and> (\<exists>m\<in>set ms. in_entry m i)))"
  using assms
proof (induction ms arbitrary: p)
  case (Cons m ms)
  have ms: "\<forall>m\<in>set ms. map_entry_ok m" using Cons.prems by simp
  show ?case
  proof (cases "mm_type m = 1")
    case False
    obtain p' where "release_map ms p = Some p'" "pm_total p' = pm_total p" "pmm_ok p \<longrightarrow> pmm_ok p'"
      "\<forall>i<2 ^ 32. used_frame p' i \<longleftrightarrow> used_frame p i \<and> \<not> (i < unat (pm_total p) \<and> (\<exists>m\<in>set ms. in_entry m i))"
      using Cons.IH[OF ms, of p] by blast
    then show ?thesis using False by (auto simp: in_entry_def)
  next
    case True
    have e: "map_entry_ok m" using Cons.prems by simp
    let ?b = "ucast (mm_addr m) :: u32" and ?e = "ucast (mm_addr m + mm_len m) :: u32"
    note be = entry_bounds[OF e]
    have bb: "unat ?b + 8192 \<le> 2 ^ 32" "unat ?e + 4096 < 2 ^ 32" using e be by (simp_all add: map_entry_ok_def)
    define k where "k = (unat ?b + 4095) div 4096"
    have up: "page_up ?b = of_nat (k * 4096)" using page_up_unat[of ?b] bb(1) unfolding k_def by simp
    have kb: "k * 4096 + 4096 < 2 ^ 32" using page_up_bounds(1,4)[OF bb(1)] unfolding k_def by simp
    obtain p1 where p1: "release_range (page_up ?b) ?e p = Some p1" "pm_total p1 = pm_total p" "pmm_ok p \<longrightarrow> pmm_ok p1"
      "\<forall>i<2 ^ 32. used_frame p1 i \<longleftrightarrow> used_frame p i \<and> \<not> (k \<le> i \<and> i < unat ?e div 4096 \<and> i < unat (pm_total p))"
      using release_range_spec[OF kb bb(2), of p] unfolding up by blast
    obtain p' where p': "release_map ms p1 = Some p'" "pm_total p' = pm_total p1" "pmm_ok p1 \<longrightarrow> pmm_ok p'"
      "\<forall>i<2 ^ 32. used_frame p' i \<longleftrightarrow> used_frame p1 i \<and> \<not> (i < unat (pm_total p1) \<and> (\<exists>m\<in>set ms. in_entry m i))"
      using Cons.IH[OF ms, of p1] by blast
    have "k \<le> i \<and> i < unat ?e div 4096 \<longleftrightarrow> in_entry m i" for i
    proof -
      have "k \<le> i \<longleftrightarrow> unat ?b \<le> i * 4096" unfolding k_def by linarith
      moreover have "i < unat ?e div 4096 \<longleftrightarrow> (i + 1) * 4096 \<le> unat ?e"
        using less_eq_div_iff_mult_less_eq[of 4096 "i + 1" "unat ?e"] by auto
      ultimately show ?thesis using True be by (simp add: in_entry_def)
    qed
    then show ?thesis using True p1 p' by auto
  qed
qed auto

lemma fresh_ok: "pmm_ok (pmm_fresh b)" "used_frame (pmm_fresh b) i"
proof -
  have "bit (0xFFFFFFFF :: u32) j" if "j < 32" for j
  proof -
    have m: "(0xFFFFFFFF :: u32) = mask 32" by (simp add: mask_eq_exp_minus_1)
    show ?thesis unfolding m using that by (auto simp: bit_mask_iff)
  qed
  then have "used_frame (pmm_fresh b) i" for i by (simp add: used_frame_def pmm_fresh_def Let_def bm_test_bit)
  then show "used_frame (pmm_fresh b) i" "pmm_ok (pmm_fresh b)"
    by (auto simp: pmm_ok_def pmm_fresh_def Let_def not_less)
qed

text \<open>C18. After boot from a memory map that lies below 4 GiB, initialisation ends, the count of used
  frames is exact, and a frame is free exactly when it is managed, lies wholly inside an
  available region and above the end of the kernel.\<close>

theorem pmm_init_exact:
  assumes "\<forall>m\<in>set ms. map_entry_ok m" "unat kend + 8192 \<le> 2 ^ 32"
  shows "\<exists>p. pmm_init kend upper (Some ms) = Some p \<and> pmm_ok p \<and>
    pm_total p = pm_total (pmm_fresh ((upper + 1024) * 1024)) \<and>
    (\<forall>i<2 ^ 32. \<not> used_frame p i \<longleftrightarrow>
       i < unat (pm_total p) \<and> (\<exists>m\<in>set ms. in_entry m i) \<and> unat kend \<le> i * 4096)"
proof -
  let ?p0 = "pmm_fresh ((upper + 1024) * 1024)"
  obtain p1 where p1: "release_map ms ?p0 = Some p1" "pm_total p1 = pm_total ?p0" "pmm_ok p1"
    "\<forall>i<2 ^ 32. used_frame p1 i \<longleftrightarrow> used_frame ?p0 i \<and> \<not> (i < unat (pm_total ?p0) \<and> (\<exists>m\<in>set ms. in_entry m i))"
    using release_map_spec[OF assms(1), of ?p0] fresh_ok(1) by blast
  note up = page_up_bounds[OF assms(2)]
  obtain p2 where p2: "occupy_range 0 (page_up kend) p1 = Some p2" "pm_total p2 = pm_total p1" "pmm_ok p2"
    "\<forall>i<2 ^ 32. used_frame p2 i \<longleftrightarrow> used_frame p1 i \<or> (0 \<le> i \<and> i < unat (page_up kend) div 4096 \<and> i < unat (pm_total p1))"
    using occupy_range_spec[of 0 "page_up kend" p1] up(1,2) p1(3) by auto
  have "i < unat (page_up kend) div 4096 \<longleftrightarrow> i * 4096 < unat kend" for i
    unfolding up(4) by (simp add: less_eq_div_iff_mult_less_eq div_less_iff_less_mult) linarith
  moreover have "pmm_init kend upper (Some ms) = Some p2"
    using p1(1) p2(1) by (simp only: pmm_init_def Let_def option.case)
  ultimately show ?thesis using p1 p2 fresh_ok(2)[of "(upper + 1024) * 1024"] by (auto simp: not_less)
qed

lemma pmm_init_exact_witness:
  "\<exists>p. pmm_init 0x200000 0x7C00 (Some [\<lparr>mm_addr = 0x100000, mm_len = 0x1F00000, mm_type = 1\<rparr>]) = Some p
     \<and> \<not> used_frame p 0x200 \<and> used_frame p 0x1FF"
proof -
  let ?m = "\<lparr>mm_addr = 0x100000, mm_len = 0x1F00000, mm_type = 1\<rparr> :: mb_mmap"
  have ok: "\<forall>m\<in>set [?m]. map_entry_ok m" "unat (0x200000 :: u32) + 8192 \<le> 2 ^ 32" by (simp_all add: map_entry_ok_def)
  have t: "pm_total (pmm_fresh 0x2000000) = 0x2000"
    by (simp add: pmm_fresh_def Let_def FRAME_SIZE_def MAX_FRAMES_def)
  show ?thesis
  proof -
    obtain p where p: "pmm_init 0x200000 0x7C00 (Some [?m]) = Some p" "pm_total p = 0x2000"
      "\<forall>i<2 ^ 32. \<not> used_frame p i \<longleftrightarrow>
         i < unat (pm_total p) \<and> (\<exists>m\<in>set [?m]. in_entry m i) \<and> unat (0x200000 :: u32) \<le> i * 4096"
      using pmm_init_exact[OF ok, of "0x7C00"] t by auto
    show ?thesis using p(1,2) p(3)[rule_format, of "0x200"] p(3)[rule_format, of "0x1FF"]
      by (simp add: in_entry_def)
  qed
qed

lemma pmm_alloc_spec:
  assumes "pmm_ok p" "used_frame p 0" "pmm_alloc_frame p = (p', a)"
  shows "pmm_ok p' \<and>
    (if a = 0 then p' = p \<and> list_all (used_frame p) [0..<unat (pm_total p)] \<and> pm_used p = pm_total p
     else \<exists>i. unat a = i * 4096 \<and> 0 < i \<and> i < unat (pm_total p) \<and> \<not> used_frame p i \<and>
       list_all (used_frame p) [0..<i] \<and> used_frame p' i \<and>
       (\<forall>j<2 ^ 32. j \<noteq> i \<longrightarrow> used_frame p' j = used_frame p j) \<and>
       (\<forall>j<2 ^ 32. used_frame (pmm_free_frame a p') j = used_frame p j))"
proof (cases "find (\<lambda>i. \<not> bm_test (of_nat i) (pm_bitmap p)) [0..<unat (pm_total p)]")
  case None
  then have all: "list_all (used_frame p) [0..<unat (pm_total p)]"
    by (auto simp: find_None_iff list_all_iff used_frame_def)
  then have "filter (used_frame p) [0..<unat (pm_total p)] = [0..<unat (pm_total p)]"
    by (simp add: list_all_iff filter_id_conv)
  then have "pm_used p = pm_total p" using assms(1) by (simp add: pmm_ok_def word_unat_eq_iff)
  then show ?thesis using None all assms by (simp add: pmm_alloc_frame_def)
next
  case (Some i)
  then have i: "i < unat (pm_total p)" "\<not> used_frame p i" "\<forall>j<i. used_frame p j"
    by (auto simp: find_Some_iff used_frame_def)
  have i0: "0 < i" using i(2) assms(2) by (cases i) auto
  have n: "unat (pm_total p) \<le> 1048576" using assms(1) by (simp add: pmm_ok_def MAX_FRAMES_def word_le_nat_alt)
  have ib: "i * 4096 < 2 ^ 32" using i(1) n by simp
  note fw = frame_word[OF ib]
  have p': "p' = occupy_frame (of_nat i) p" "a = of_nat i * FRAME_SIZE"
    using assms(3) Some i(1,2) fw(3)
    by (auto simp: pmm_alloc_frame_def occupy_frame_def used_frame_def word_less_nat_alt)
  have a: "unat a = i * 4096" "a div FRAME_SIZE = of_nat i"
    using fw(1,2) by (simp_all add: p'(2) FRAME_SIZE_def)
  have a0: "a \<noteq> 0" using a(1) i0 by auto
  have free: "pmm_free_frame a p' = release_frame (of_nat i) p'" by (simp add: pmm_free_frame_def a(2))
  have u: "\<forall>j<2 ^ 32. used_frame p' j \<longleftrightarrow> used_frame p j \<or> j = i"
    using used_occupy[OF fw(3), of _ p] i(1) by (auto simp: p'(1))
  have f: "\<forall>j<2 ^ 32. used_frame (pmm_free_frame a p') j \<longleftrightarrow> used_frame p j"
    using used_release[OF fw(3), of _ p'] u i(1,2) unfolding free by (auto simp: p'(1))
  have "pmm_ok p'" unfolding p'(1) by (rule pmm_ok_frame(2)[OF assms(1)])
  moreover have "used_frame p' i" using u i(1) n by simp
  ultimately show ?thesis using a0 a(1) i i0 u f by (auto simp: list_all_iff)
qed

text \<open>C19. Allocation hands out the lowest free frame: a non-zero result is the address of a frame that
  was free and is now used while every other frame keeps its state, and freeing it restores the
  allocator; \<open>0\<close> means that every managed frame is in use.\<close>

theorem pmm_alloc_fresh:
  assumes "pmm_ok p" "used_frame p 0" "pmm_alloc_frame p = (p', a)"
  shows "pmm_ok p' \<and>
    (if a = 0 then p' = p \<and> list_all (used_frame p) [0..<unat (pm_total p)] \<and> pm_used p = pm_total p
     else \<exists>i. unat a = i * 4096 \<and> 0 < i \<and> i < unat (pm_total p) \<and> \<not> used_frame p i \<and>
       list_all (used_frame p) [0..<i] \<and> used_frame p' i \<and>
       (\<forall>j<2 ^ 32. j \<noteq> i \<longrightarrow> used_frame p' j = used_frame p j) \<and>
       (\<forall>j<2 ^ 32. used_frame (pmm_free_frame a p') j = used_frame p j))"
  using assms by (rule pmm_alloc_spec)

lemma pmm_alloc_fresh_witness:
  "snd (pmm_alloc_frame \<lparr>pm_bitmap = (\<lambda>i. 3), pm_total = 4, pm_used = 2\<rparr>) = 0x2000"
proof -
  let ?p = "\<lparr>pm_bitmap = (\<lambda>i. 3), pm_total = 4, pm_used = 2\<rparr> :: pmm"
  have u: "used_frame ?p 0" "used_frame ?p 1" "\<not> used_frame ?p 2" "\<not> used_frame ?p 3"
    by (simp_all add: used_frame_def bm_test_bit bit_numeral_rec)
  have r4: "[0..<4] = [0, 1, 2, 3 :: nat]" by (simp add: upt_rec)
  have ok: "pmm_ok ?p" using u by (simp add: pmm_ok_def MAX_FRAMES_def word_le_nat_alt r4)
  obtain p' a where r: "pmm_alloc_frame ?p = (p', a)" by force
  have "a \<noteq> 0" using pmm_alloc_fresh[OF ok u(1) r] u by (auto simp: r4 split: if_splits)
  then obtain i where "unat a = i * 4096" "i < 4" "\<not> used_frame ?p i" "list_all (used_frame ?p) [0..<i]"
    using pmm_alloc_fresh[OF ok u(1) r] by (auto split: if_splits)
  moreover have "i = 2"
  proof -
    have nf: "\<not> used_frame ?p i" using calculation(3) .
    have "i = 3 \<Longrightarrow> used_frame ?p 2" using calculation(4) by (simp add: list_all_iff)
    then have "i \<noteq> 3" using u(3) by blast
    moreover have "i \<noteq> 0" "i \<noteq> 1" using u(1,2) nf by (metis, metis)
    ultimately show ?thesis using \<open>i < 4\<close> by linarith
  qed
  ultimately have "unat a = unat (0x2000 :: u32)" by simp
  then show ?thesis using r by (simp only: word_unat_eq_iff) simp
qed

text \<open>A memory map that reaches above 4 GiB defeats the reservation of the regions below it: the
  64-bit bounds are cut to 32 bits, so an available region at 4 GiB frees the low frames with
  the same low address bits, and frames of a reserved region are handed out.\<close>

theorem pmm_init_frees_reserved:
  assumes "0x4000 \<le> upper" "upper < 0x3FFC00"
  shows "\<exists>p. pmm_init 0x200000 upper (Some [\<lparr>mm_addr = 0x300000, mm_len = 0x100000, mm_type = 2\<rparr>,
      \<lparr>mm_addr = 0x100000000, mm_len = 0x1000000, mm_type = 1\<rparr>]) = Some p \<and> \<not> used_frame p 0x300"
proof -
  let ?p0 = "pmm_fresh ((upper + 1024) * 1024)"
  have up: "0x4000 \<le> unat upper" "unat upper < 0x3FFC00" using assms by (simp_all add: word_le_nat_alt word_less_nat_alt)
  have "unat ((upper + 1024) * 1024 div FRAME_SIZE) = (unat upper + 1024) div 4"
    using up by (simp add: unat_div unat_word_ariths FRAME_SIZE_def)
  then have fr: "0x1000 \<le> unat (pm_total ?p0)"
    using up by (simp only: pmm_fresh_def Let_def pmm.simps) (auto simp: MAX_FRAMES_def)
  let ?low = "\<lparr>mm_addr = 0, mm_len = 0x1000000, mm_type = 1\<rparr> :: mb_mmap"
  have cut: "(0x100000000 :: u32) = 0" "(0x101000000 :: u32) = 0x1000000" by simp_all
  have same: "release_map [\<lparr>mm_addr = 0x300000, mm_len = 0x100000, mm_type = 2\<rparr>,
      \<lparr>mm_addr = 0x100000000, mm_len = 0x1000000, mm_type = 1\<rparr>] p = release_map [?low] p" for p
    by (simp add: cut)
  have ok: "\<forall>m\<in>set [?low]. map_entry_ok m" by (simp add: map_entry_ok_def)
  obtain p1 where p1: "release_map [?low] ?p0 = Some p1" "pm_total p1 = pm_total ?p0"
    "\<forall>i<2 ^ 32. used_frame p1 i \<longleftrightarrow> used_frame ?p0 i \<and> \<not> (i < unat (pm_total ?p0) \<and> (\<exists>m\<in>set [?low]. in_entry m i))"
    using release_map_spec[OF ok, of ?p0] by blast
  have kend: "unat (0x200000 :: u32) + 8192 \<le> 2 ^ 32" by simp
  note ku = page_up_bounds[OF kend]
  obtain p2 where p2: "occupy_range 0 (page_up 0x200000) p1 = Some p2"
    "\<forall>i<2 ^ 32. used_frame p2 i \<longleftrightarrow> used_frame p1 i \<or> (0 \<le> i \<and> i < unat (page_up 0x200000) div 4096 \<and> i < unat (pm_total p1))"
    using occupy_range_spec[of 0 "page_up 0x200000" p1] ku(1,2) by auto
  have "\<not> used_frame p1 0x300" using p1(3) fr by (simp add: in_entry_def)
  then have "\<not> used_frame p2 0x300" using p2(2) ku(4) by simp
  moreover have "pmm_init 0x200000 upper (Some [\<lparr>mm_addr = 0x300000, mm_len = 0x100000, mm_type = 2\<rparr>,
      \<lparr>mm_addr = 0x100000000, mm_len = 0x1000000, mm_type = 1\<rparr>]) = Some p2"
    using p1(1) p2(1) by (simp only: pmm_init_def Let_def option.case same)
  ultimately show ?thesis by blast
qed

lemma pmm_init_frees_reserved_witness:
  "\<exists>p. pmm_init 0x200000 0x8000 (Some [\<lparr>mm_addr = 0x300000, mm_len = 0x100000, mm_type = 2\<rparr>,
      \<lparr>mm_addr = 0x100000000, mm_len = 0x1000000, mm_type = 1\<rparr>]) = Some p \<and> \<not> used_frame p 0x300"
  by (rule pmm_init_frees_reserved) (simp_all add: word_le_nat_alt word_less_nat_alt)

end
