(* ===== verification/Kstring.thy ===== *)
theory Kstring
  imports KV_Base
begin

text \<open>
  The string routines of \<^verbatim>\<open>kernel/string.c\<close>. The block routines run on a byte memory with
  their word-sized inner loops; the string routines run on C strings, the list of bytes before
  the NUL. Plain \<^verbatim>\<open>int\<close> results are integers.
\<close>

type_synonym mem = "nat \<Rightarrow> u8"

section \<open>Blocks\<close>

fun set_bytes :: "nat \<Rightarrow> u8 \<Rightarrow> nat \<Rightarrow> mem \<Rightarrow> mem" where
  "set_bytes p v 0 m = m"
| "set_bytes p v (Suc n) m = set_bytes (p + 1) v n (m(p := v))"

definition load32 :: "nat \<Rightarrow> mem \<Rightarrow> u32" where
  "load32 a m = ucast (m a) OR push_bit 8 (ucast (m (a + 1))) OR push_bit 16 (ucast (m (a + 2)))
     OR push_bit 24 (ucast (m (a + 3)))"

definition store32 :: "nat \<Rightarrow> u32 \<Rightarrow> mem \<Rightarrow> mem" where
  "store32 a w m = m(a := ucast w, a + 1 := ucast (drop_bit 8 w), a + 2 := ucast (drop_bit 16 w),
     a + 3 := ucast (drop_bit 24 w))"

fun set_words :: "nat \<Rightarrow> u32 \<Rightarrow> nat \<Rightarrow> mem \<Rightarrow> mem" where
  "set_words p w 0 m = m"
| "set_words p w (Suc n) m = set_words (p + 4) w n (store32 p w m)"

text \<open>\<^verbatim>\<open>while (((u32)p & 3u) && n) { *p++ = v; n--; }\<close>\<close>

fun set_head :: "nat \<Rightarrow> u8 \<Rightarrow> nat \<Rightarrow> mem \<Rightarrow> nat \<times> nat \<times> mem" where
  "set_head p v 0 m = (p, 0, m)"
| "set_head p v (Suc n) m = (if p mod 4 \<noteq> 0 then set_head (p + 1) v n (m(p := v)) else (p, Suc n, m))"

definition fill_word :: "u8 \<Rightarrow> u32" where
  "fill_word v = push_bit 24 (ucast v) OR push_bit 16 (ucast v) OR push_bit 8 (ucast v) OR ucast v"

definition kmemset :: "nat \<Rightarrow> u32 \<Rightarrow> nat \<Rightarrow> mem \<Rightarrow> mem" where
  "kmemset d c n m =
     (let v = ucast c in
      if n \<ge> 8
      then (case set_head d v n m of (p, n, m) \<Rightarrow>
              let words = n div 4; m = set_words p (fill_word v) words m
              in set_bytes (p + words * 4) v (n mod 4) m)
      else set_bytes d v n m)"

fun copy_up :: "nat \<Rightarrow> nat \<Rightarrow> nat \<Rightarrow> mem \<Rightarrow> mem" where
  "copy_up d s 0 m = m"
| "copy_up d s (Suc n) m = copy_up (d + 1) (s + 1) n (m(d := m s))"

fun copy_down :: "nat \<Rightarrow> nat \<Rightarrow> nat \<Rightarrow> mem \<Rightarrow> mem" where
  "copy_down d s 0 m = m"
| "copy_down d s (Suc n) m = copy_down d s n (m(d + n := m (s + n)))"

fun copy_words :: "nat \<Rightarrow> nat \<Rightarrow> nat \<Rightarrow> mem \<Rightarrow> mem" where
  "copy_words d s 0 m = m"
| "copy_words d s (Suc n) m = copy_words (d + 4) (s + 4) n (store32 d (load32 s m) m)"

text \<open>\<^verbatim>\<open>(((u32)dp | (u32)sp) & 3u) == 0\<close> says that both addresses are multiples of four.\<close>

definition kmemcpy :: "nat \<Rightarrow> nat \<Rightarrow> nat \<Rightarrow> mem \<Rightarrow> mem" where
  "kmemcpy d s n m =
     (if d mod 4 = 0 \<and> s mod 4 = 0
      then let words = n div 4 in copy_up (d + words * 4) (s + words * 4) (n mod 4) (copy_words d s words m)
      else copy_up d s n m)"

definition kmemmove :: "nat \<Rightarrow> nat \<Rightarrow> nat \<Rightarrow> mem \<Rightarrow> mem" where
  "kmemmove d s n m =
     (if d = s \<or> n = 0 then m else if d < s then copy_up d s n m else copy_down d s n m)"

fun kmemcmp :: "u8 list \<Rightarrow> u8 list \<Rightarrow> int" where
  "kmemcmp (x # xs) (y # ys) = (if x \<noteq> y then int (unat x) - int (unat y) else kmemcmp xs ys)"
| "kmemcmp _ _ = 0"

section \<open>Strings\<close>

definition byte_at :: "cstring \<Rightarrow> u8" where
  "byte_at s = (case s of [] \<Rightarrow> 0 | c # _ \<Rightarrow> c)"

fun kstrcmp :: "cstring \<Rightarrow> cstring \<Rightarrow> int" where
  "kstrcmp (a # as) (b # bs) = (if a = b then kstrcmp as bs else int (unat a) - int (unat b))"
| "kstrcmp as bs = int (unat (byte_at as)) - int (unat (byte_at bs))"

fun kstrncmp :: "cstring \<Rightarrow> cstring \<Rightarrow> nat \<Rightarrow> int" where
  "kstrncmp as bs 0 = 0"
| "kstrncmp (a # as) (b # bs) (Suc n) = (if a = b then kstrncmp as bs n else int (unat a) - int (unat b))"
| "kstrncmp as bs (Suc n) = int (unat (byte_at as)) - int (unat (byte_at bs))"

text \<open>\<^verbatim>\<open>strcpy\<close> and \<^verbatim>\<open>strncpy\<close> into a buffer, which keeps its length.\<close>

definition kstrcpy :: "u8 list \<Rightarrow> cstring \<Rightarrow> u8 list" where
  "kstrcpy d s = (s @ [0]) @ drop (length s + 1) d"

definition kstrncpy :: "u8 list \<Rightarrow> cstring \<Rightarrow> nat \<Rightarrow> u8 list" where
  "kstrncpy d s n =
     (let i = (if n = 0 then 0 else min (n - 1) (length s)); d = take i s @ drop i d
      in if n \<noteq> 0 then d[i := 0] else d)"

definition is_digit :: "u8 \<Rightarrow> bool" where
  "is_digit c \<longleftrightarrow> 0x30 \<le> c \<and> c \<le> 0x39"

fun atoi_digits :: "int \<Rightarrow> cstring \<Rightarrow> int" where
  "atoi_digits v [] = v"
| "atoi_digits v (c # s) = (if is_digit c then atoi_digits (v * 10 + (int (unat c) - 48)) s else v)"

definition katoi :: "cstring \<Rightarrow> int" where
  "katoi s =
     (let s = dropWhile (\<lambda>c. c = 0x20) s in
      if byte_at s = 0x2D then atoi_digits 0 (tl s) * -1
      else if byte_at s = 0x2B then atoi_digits 0 (tl s)
      else atoi_digits 0 s)"

definition str_isnum :: "cstring \<Rightarrow> bool" where
  "str_isnum s =
     (if s = [] then False
      else let s = (if byte_at s = 0x2D \<or> byte_at s = 0x2B then tl s else s)
           in if s = [] then False else list_all is_digit s)"

definition to_upper :: "cstring \<Rightarrow> cstring" where
  "to_upper s = map (\<lambda>c. if 0x61 \<le> c \<and> c \<le> 0x7A then c - 32 else c) s"

section \<open>Lemmas\<close>

lemma set_bytes_exact: "set_bytes p v n m a = (if p \<le> a \<and> a < p + n then v else m a)"
proof (induction n arbitrary: p m)
  case (Suc n)
  show ?case unfolding set_bytes.simps Suc.IH by auto
qed auto

lemma store_fill: "store32 p (fill_word v) m = m(p := v, p + 1 := v, p + 2 := v, p + 3 := v)"
proof -
  have "fill_word v = ucast v OR push_bit 8 (ucast v) OR push_bit 16 (ucast v) OR push_bit 24 (ucast v)"
    by (simp add: fill_word_def or.commute or.left_commute or.assoc)
  then show ?thesis by (simp only: store32_def join_u32_bytes)
qed

lemma set_words_exact: "set_words p (fill_word v) n m a = (if p \<le> a \<and> a < p + n * 4 then v else m a)"
  by (induction n arbitrary: p m) (auto simp: store_fill)

lemma set_head_exact:
  "set_head p v n m = (p', n', m') \<Longrightarrow>
     p' + n' = p + n \<and> p \<le> p' \<and> (\<forall>a. m' a = (if p \<le> a \<and> a < p' then v else m a))"
proof (induction n arbitrary: p m)
  case (Suc n)
  show ?case
  proof (cases "p mod 4 = 0")
    case False
    then have "set_head (p + 1) v n (m(p := v)) = (p', n', m')" using Suc.prems by simp
    from Suc.IH[OF this] show ?thesis by auto
  next
    case True
    then have "p' = p" "n' = Suc n" "m' = m" using Suc.prems by simp_all
    then show ?thesis by auto
  qed
qed auto

lemma copy_up_exact:
  "d \<le> s \<or> s + n \<le> d \<Longrightarrow> copy_up d s n m a = (if d \<le> a \<and> a < d + n then m (s + (a - d)) else m a)"
proof (induction n arbitrary: d s m)
  case (Suc n)
  have d: "d + 1 \<le> s + 1 \<or> s + 1 + n \<le> d + 1" using Suc.prems by auto
  have e: "d + 1 \<le> a \<Longrightarrow> s + 1 + (a - (d + 1)) = s + (a - d)" by simp
  have ne: "d + 1 \<le> a \<Longrightarrow> a < d + 1 + n \<Longrightarrow> s + (a - d) \<noteq> d" using Suc.prems by linarith
  show ?case unfolding copy_up.simps Suc.IH[OF d]
    by (cases "d + 1 \<le> a"; cases "a = d") (use e ne in auto)
qed auto

lemma copy_down_exact:
  "s \<le> d \<Longrightarrow> copy_down d s n m a = (if d \<le> a \<and> a < d + n then m (s + (a - d)) else m a)"
proof (induction n arbitrary: m)
  case (Suc n)
  have ne: "\<lbrakk>d \<le> a; a < d + n\<rbrakk> \<Longrightarrow> s + (a - d) \<noteq> d + n" using Suc.prems by linarith
  consider "a < d" | "d \<le> a" "a < d + n" | "a = d + n" | "d + n < a" by linarith
  then show ?case unfolding copy_down.simps Suc.IH[OF Suc.prems] by cases (use ne in auto)
qed auto

lemma store_load: "store32 d (load32 s m) m = m(d := m s, d + 1 := m (s + 1), d + 2 := m (s + 2), d + 3 := m (s + 3))"
  by (simp only: store32_def load32_def join_u32_bytes)

lemma copy_words_exact:
  "d + 4 \<le> s \<or> d = s \<or> s + n * 4 \<le> d \<Longrightarrow> copy_words d s n m a = (if d \<le> a \<and> a < d + n * 4 then m (s + (a - d)) else m a)"
proof (induction n arbitrary: d s m)
  case (Suc n)
  let ?m = "store32 d (load32 s m) m"
  have d: "d + 4 + 4 \<le> s + 4 \<or> d + 4 = s + 4 \<or> s + 4 + n * 4 \<le> d + 4" using Suc.prems by auto
  have m: "?m b = (if d \<le> b \<and> b < d + 4 then m (s + (b - d)) else m b)" for b
  proof -
    consider "b = d" | "b = d + 1" | "b = d + 2" | "b = d + 3" | "b < d \<or> d + 4 \<le> b" by linarith
    then show ?thesis by cases (auto simp: store_load)
  qed
  consider "a < d + 4" | "d + 4 \<le> a" by linarith
  then show ?case
  proof cases
    case 2
    then have e: "s + 4 + (a - (d + 4)) = s + (a - d)" by simp
    have ne: "a < d + 4 + n * 4 \<Longrightarrow> d = s \<or> s + (a - d) < d \<or> d + 4 \<le> s + (a - d)" using 2 Suc.prems by auto
    show ?thesis unfolding copy_words.simps Suc.IH[OF d] m e using 2 ne by auto
  qed (auto simp: Suc.IH[OF d] m)
next
  case 0
  have "\<not> (d \<le> a \<and> a < d + 0 * 4)" by simp
  then show ?case by (simp only: copy_words.simps if_False)
qed

section \<open>Properties\<close>

text \<open>C20. The word-sized loops do what the byte loops would: \<^verbatim>\<open>memset\<close> fills exactly the block;
  \<^verbatim>\<open>memmove\<close> leaves in the destination what the source held before, however the blocks
  overlap; \<^verbatim>\<open>memcpy\<close> agrees with it whenever the blocks do not overlap; and none of them
  touches a byte outside the destination.\<close>

theorem block_routines_exact:
  "kmemset d c n m = (\<lambda>a. if d \<le> a \<and> a < d + n then ucast c else m a) \<and>
   kmemmove d s n m = (\<lambda>a. if d \<le> a \<and> a < d + n then m (s + (a - d)) else m a) \<and>
   (d + n \<le> s \<or> s + n \<le> d \<longrightarrow> kmemcpy d s n m = kmemmove d s n m)"
proof (intro conjI impI)
  show "kmemset d c n m = (\<lambda>a. if d \<le> a \<and> a < d + n then ucast c else m a)"
  proof (cases "8 \<le> n")
    case True
    obtain p n' m' where h: "set_head d (ucast c) n m = (p, n', m')" using prod_cases3 by blast
    have h': "p + n' = d + n" "d \<le> p" and m': "\<And>a. m' a = (if d \<le> a \<and> a < p then ucast c else m a)"
      using set_head_exact[OF h] by simp_all
    have n: "n' div 4 * 4 + n' mod 4 = n'" by simp
    show ?thesis
      using True h' n by (auto simp: kmemset_def Let_def h fun_eq_iff set_bytes_exact set_words_exact m')
  next
    case False
    then show ?thesis by (auto simp: kmemset_def Let_def fun_eq_iff set_bytes_exact)
  qed
  show mv: "kmemmove d s n m = (\<lambda>a. if d \<le> a \<and> a < d + n then m (s + (a - d)) else m a)"
    by (auto simp: kmemmove_def fun_eq_iff copy_up_exact copy_down_exact)
  assume ov: "d + n \<le> s \<or> s + n \<le> d"
  have n: "n div 4 * 4 + n mod 4 = n" by simp
  show "kmemcpy d s n m = kmemmove d s n m"
  proof (cases "d mod 4 = 0 \<and> s mod 4 = 0")
    case True
    let ?w = "n div 4"
    have cw: "copy_words d s ?w m a = (if d \<le> a \<and> a < d + ?w * 4 then m (s + (a - d)) else m a)" for a
    proof (cases "?w = 0")
      case False
      then have "d + 4 \<le> s \<or> d = s \<or> s + ?w * 4 \<le> d" using ov n by linarith
      then show ?thesis by (rule copy_words_exact)
    next
      case True
      have "\<not> (d \<le> a \<and> a < d + 0 * 4)" by simp
      then show ?thesis unfolding True by (simp only: copy_words.simps if_False)
    qed
    have cu: "d + ?w * 4 \<le> s + ?w * 4 \<or> s + ?w * 4 + n mod 4 \<le> d + ?w * 4" using ov n by linarith
    show ?thesis
      using True ov n unfolding mv by (auto simp: kmemcpy_def Let_def fun_eq_iff copy_up_exact[OF cu] cw)
  next
    case False
    then show ?thesis using ov unfolding mv by (auto simp: kmemcpy_def fun_eq_iff copy_up_exact)
  qed
qed

lemma block_routines_exact_witness:
  "kmemcpy 16 8 8 (\<lambda>a. of_nat a) 20 = 12"
  using block_routines_exact[of 16 0 8 "\<lambda>a. of_nat a" 8] by simp

end
