(* ===== verification/Printf.thy ===== *)
theory Printf
  imports Kstring
begin

text \<open>
  The formatted output of \<^verbatim>\<open>kernel/printf.c\<close>. A formatter is run with a callback and its
  context; a fetch of an argument that is not there, a read past the end of the format and a
  write past the end of \<^verbatim>\<open>tmp[36]\<close> are undefined in C and \<open>None\<close> here.
\<close>

definition ascii :: "string \<Rightarrow> cstring" where
  "ascii s = map of_char s"

text \<open>What \<^verbatim>\<open>va_arg\<close> fetches: a 32-bit number (also a pointer shown as one) or a string,
  \<open>None\<close> being the NULL pointer.\<close>

datatype va = VNum u32 | VStr "cstring option"

type_synonym 'c emitter = "u8 \<Rightarrow> 'c \<Rightarrow> 'c"

definition out_str :: "'c emitter \<Rightarrow> cstring \<Rightarrow> 'c \<Rightarrow> 'c" where
  "out_str emit s ctx = fold emit s ctx"

section \<open>Numbers\<close>

text \<open>\<^verbatim>\<open>tmp[i++] = c\<close>: the digits are collected from the last to the first.\<close>

definition tmp_put :: "u8 \<Rightarrow> u8 list \<Rightarrow> u8 list option" where
  "tmp_put c t = (if length t < 36 then Some (t @ [c]) else None)"

definition digit :: "bool \<Rightarrow> u32 \<Rightarrow> u8" where
  "digit upper d = ascii (if upper then ''0123456789ABCDEF'' else ''0123456789abcdef'') ! unat d"

partial_function (option) num_digits :: "bool \<Rightarrow> u32 \<Rightarrow> u32 \<Rightarrow> u8 list \<Rightarrow> u8 list option" where
  "num_digits upper base v t =
     (if v \<noteq> 0
      then (case tmp_put (digit upper (v mod base)) t of
              None \<Rightarrow> None | Some t \<Rightarrow> num_digits upper base (v div base) t)
      else Some t)"

declare num_digits.simps [code]

fun num_pad :: "nat \<Rightarrow> u8 \<Rightarrow> u8 list \<Rightarrow> u8 list option" where
  "num_pad 0 c t = Some t"
| "num_pad (Suc n) c t = (case tmp_put c t of None \<Rightarrow> None | Some t \<Rightarrow> num_pad n c t)"

definition num_tmp :: "u32 \<Rightarrow> u32 \<Rightarrow> bool \<Rightarrow> nat \<Rightarrow> bool \<Rightarrow> bool \<Rightarrow> u8 list option" where
  "num_tmp val base is_signed width zero upper =
     (let neg = is_signed \<and> sint val < 0; v = (if neg then - val else val) in
      case (if v = 0 then tmp_put 0x30 [] else Some []) of None \<Rightarrow> None | Some t \<Rightarrow>
      case num_digits upper base v t of None \<Rightarrow> None | Some t \<Rightarrow>
      case (if neg then tmp_put 0x2D t else Some t) of None \<Rightarrow> None | Some t \<Rightarrow>
      num_pad (width - length t) (if zero then 0x30 else 0x20) t)"

definition out_num :: "'c emitter \<Rightarrow> 'c \<Rightarrow> u32 \<Rightarrow> u32 \<Rightarrow> bool \<Rightarrow> nat \<Rightarrow> bool \<Rightarrow> bool \<Rightarrow> 'c option" where
  "out_num emit ctx val base is_signed width zero upper =
     map_option (\<lambda>t. fold emit (rev t) ctx) (num_tmp val base is_signed width zero upper)"

section \<open>The format string\<close>

definition out_arg :: "'c emitter \<Rightarrow> 'c \<Rightarrow> va list \<Rightarrow> u32 \<Rightarrow> bool \<Rightarrow> nat \<Rightarrow> bool \<Rightarrow> bool \<Rightarrow> ('c \<times> va list) option" where
  "out_arg emit ctx ap base is_signed width zero upper =
     (case ap of
        VNum v # ap \<Rightarrow> map_option (\<lambda>ctx. (ctx, ap)) (out_num emit ctx v base is_signed width zero upper)
      | _ \<Rightarrow> None)"

definition null_text :: cstring where "null_text = ascii ''(null)''"

definition convert :: "'c emitter \<Rightarrow> 'c \<Rightarrow> u8 \<Rightarrow> bool \<Rightarrow> nat \<Rightarrow> va list \<Rightarrow> ('c \<times> va list) option" where
  "convert emit ctx c zero width ap =
     (if c = 0x64 \<or> c = 0x69 then out_arg emit ctx ap 10 True width zero False
      else if c = 0x75 then out_arg emit ctx ap 10 False width zero False
      else if c = 0x78 then out_arg emit ctx ap 16 False width zero False
      else if c = 0x58 then out_arg emit ctx ap 16 False width zero True
      else if c = 0x62 then out_arg emit ctx ap 2 False width zero False
      else if c = 0x70 then out_arg emit (out_str emit (ascii ''0x'') ctx) ap 16 False 8 True False
      else if c = 0x63 then (case ap of VNum v # ap \<Rightarrow> Some (emit (ucast v) ctx, ap) | _ \<Rightarrow> None)
      else if c = 0x73 then (case ap of
             VStr s # ap \<Rightarrow> Some (out_str emit (case s of Some s \<Rightarrow> s | None \<Rightarrow> null_text) ctx, ap)
           | _ \<Rightarrow> None)
      else if c = 0x25 then Some (emit 0x25 ctx, ap)
      else Some (emit c (emit 0x25 ctx), ap))"

text \<open>The conversion after a \<^verbatim>\<open>%\<close>: the zero flag, the width and what follows them.\<close>

definition field_flag :: "cstring \<Rightarrow> bool \<times> cstring" where
  "field_flag f = (if byte_at f = 0x30 then (True, tl f) else (False, f))"

definition field_width :: "cstring \<Rightarrow> nat \<times> cstring" where
  "field_width f = (nat (atoi_digits 0 f), dropWhile is_digit f)"

lemma field_shorter:
  "field_flag f = (z, f1) \<Longrightarrow> field_width f1 = (w, k # f3) \<Longrightarrow> length f3 < length f"
proof -
  assume f: "field_flag f = (z, f1)" "field_width f1 = (w, k # f3)"
  have "length (dropWhile is_digit f1) \<le> length f1" by (rule length_dropWhile_le)
  then show ?thesis using f by (auto simp: field_flag_def field_width_def split: if_splits)
qed

function (sequential) kvprintf :: "'c emitter \<Rightarrow> 'c \<Rightarrow> cstring \<Rightarrow> va list \<Rightarrow> 'c option" where
  "kvprintf emit ctx [] ap = Some ctx"
| "kvprintf emit ctx (c # f) ap =
     (if c \<noteq> 0x25 then kvprintf emit (emit c ctx) f ap
      else case field_flag f of (zero, f1) \<Rightarrow> case field_width f1 of (width, f2) \<Rightarrow>
        (case f2 of [] \<Rightarrow> None
         | k # f3 \<Rightarrow> (case convert emit ctx k zero width ap of
              None \<Rightarrow> None | Some (ctx, ap) \<Rightarrow> kvprintf emit ctx f3 ap)))"
  by pat_completeness auto
termination
  by (relation "measure (\<lambda>(_, _, f, _). length f)") (auto intro: less_SucI dest!: field_shorter[OF sym sym])

section \<open>Into a buffer\<close>

record sbuf =
  sb_buf :: "u8 list"
  sb_size :: nat
  sb_pos :: nat

definition emit_buf :: "sbuf emitter" where
  "emit_buf c s =
     (let s = (if sb_pos s + 1 < sb_size s then s\<lparr>sb_buf := (sb_buf s)[sb_pos s := c]\<rparr> else s)
      in s\<lparr>sb_pos := sb_pos s + 1\<rparr>)"

definition sbuf_close :: "sbuf \<Rightarrow> u8 list" where
  "sbuf_close s =
     (if sb_size s \<noteq> 0 then (sb_buf s)[(if sb_pos s < sb_size s then sb_pos s else sb_size s - 1) := 0] else sb_buf s)"

definition ksnprintf :: "u8 list \<Rightarrow> nat \<Rightarrow> cstring \<Rightarrow> va list \<Rightarrow> u8 list option" where
  "ksnprintf buf n fmt ap =
     map_option sbuf_close (kvprintf emit_buf \<lparr>sb_buf = buf, sb_size = n, sb_pos = 0\<rparr> fmt ap)"

definition ksnprintf_ret :: "u8 list \<Rightarrow> nat \<Rightarrow> cstring \<Rightarrow> va list \<Rightarrow> (u8 list \<times> nat) option" where
  "ksnprintf_ret buf n fmt ap =
     map_option (\<lambda>s. (sbuf_close s, if sb_pos s < n then sb_pos s else if n \<noteq> 0 then n - 1 else 0))
       (kvprintf emit_buf \<lparr>sb_buf = buf, sb_size = n, sb_pos = 0\<rparr> fmt ap)"

section \<open>Proofs\<close>

section \<open>What is printed\<close>

text \<open>The reference: numbers are written by the usual recursion, and the format is expanded to
  a string, with no buffers.\<close>

function ref_digits :: "bool \<Rightarrow> nat \<Rightarrow> nat \<Rightarrow> cstring" where
  "ref_digits upper b n =
     (if n = 0 \<or> b < 2 then [] else ref_digits upper b (n div b) @ [digit upper (of_nat (n mod b))])"
  by pat_completeness auto
termination
  by (relation "measure (\<lambda>(_, _, n). n)") auto

declare ref_digits.simps [simp del]

definition num_body :: "u32 \<Rightarrow> nat \<Rightarrow> bool \<Rightarrow> bool \<Rightarrow> cstring" where
  "num_body val base is_signed upper =
     (let neg = is_signed \<and> sint val < 0; v = (if neg then - val else val)
      in (if neg then [0x2D] else []) @ (if v = 0 then [0x30] else ref_digits upper base (unat v)))"

definition num_text :: "va list \<Rightarrow> nat \<Rightarrow> bool \<Rightarrow> nat \<Rightarrow> bool \<Rightarrow> bool \<Rightarrow> (cstring \<times> va list) option" where
  "num_text ap base is_signed width zero upper =
     (case ap of
        VNum v # ap \<Rightarrow>
          if width \<le> 36
          then let body = num_body v base is_signed upper
               in Some (replicate (width - length body) (if zero then 0x30 else 0x20) @ body, ap)
          else None
      | _ \<Rightarrow> None)"

definition field_text :: "u8 \<Rightarrow> bool \<Rightarrow> nat \<Rightarrow> va list \<Rightarrow> (cstring \<times> va list) option" where
  "field_text c zero width ap =
     (if c = 0x64 \<or> c = 0x69 then num_text ap 10 True width zero False
      else if c = 0x75 then num_text ap 10 False width zero False
      else if c = 0x78 then num_text ap 16 False width zero False
      else if c = 0x58 then num_text ap 16 False width zero True
      else if c = 0x62 then num_text ap 2 False width zero False
      else if c = 0x70 then map_option (\<lambda>(t, ap). (ascii ''0x'' @ t, ap)) (num_text ap 16 False 8 True False)
      else if c = 0x63 then (case ap of VNum v # ap \<Rightarrow> Some ([ucast v], ap) | _ \<Rightarrow> None)
      else if c = 0x73 then (case ap of
             VStr s # ap \<Rightarrow> Some (case s of Some s \<Rightarrow> s | None \<Rightarrow> null_text, ap)
           | _ \<Rightarrow> None)
      else if c = 0x25 then Some ([0x25], ap)
      else Some ([0x25, c], ap))"

function (sequential) format_text :: "cstring \<Rightarrow> va list \<Rightarrow> cstring option" where
  "format_text [] ap = Some []"
| "format_text (c # f) ap =
     (if c \<noteq> 0x25 then map_option ((#) c) (format_text f ap)
      else case field_flag f of (zero, f1) \<Rightarrow> case field_width f1 of (width, f2) \<Rightarrow>
        (case f2 of [] \<Rightarrow> None
         | k # f3 \<Rightarrow> (case field_text k zero width ap of
              None \<Rightarrow> None | Some (t, ap) \<Rightarrow> map_option ((@) t) (format_text f3 ap))))"
  by pat_completeness auto
termination
  by (relation "measure (\<lambda>(f, _). length f)") (auto intro: less_SucI dest!: field_shorter[OF sym sym])

lemma ref_digits_length: "\<lbrakk>2 \<le> b; n < b ^ k\<rbrakk> \<Longrightarrow> length (ref_digits u b n) \<le> k"
proof (induction k arbitrary: n)
  case 0
  then show ?case by (simp add: ref_digits.simps)
next
  case (Suc k)
  then have "n div b < b ^ k" by (simp add: less_mult_imp_div_less mult.commute)
  then show ?case using Suc by (subst ref_digits.simps) auto
qed

lemma ref_digits_u32: "2 \<le> b \<Longrightarrow> length (ref_digits u b (unat (v :: u32))) \<le> 32"
proof -
  assume b: "2 \<le> b"
  have "unat v < 2 ^ 32" using unat_lt_u32[of v] by simp
  also have "(2 :: nat) ^ 32 \<le> b ^ 32" using b by (rule power_mono) simp
  finally show ?thesis by (rule ref_digits_length[OF b])
qed

lemma ref_digits_10: "length (ref_digits u 10 (unat (v :: u32))) \<le> 10"
  by (rule ref_digits_length) (use unat_lt_u32[of v] in auto)

lemma num_digits_exact:
  "\<lbrakk>2 \<le> unat base; length t + length (ref_digits u (unat base) (unat v)) \<le> 36\<rbrakk> \<Longrightarrow>
     num_digits u base v t = Some (t @ rev (ref_digits u (unat base) (unat v)))"
proof (induction "unat v" arbitrary: v t rule: less_induct)
  case less
  show ?case
  proof (cases "v = 0")
    case False
    then have v: "unat v \<noteq> 0" by (simp add: unat_eq_0)
    let ?d = "digit u (v mod base)"
    have d: "ref_digits u (unat base) (unat v) = ref_digits u (unat base) (unat (v div base)) @ [?d]"
      using v less.prems(1) by (subst ref_digits.simps) (simp add: unat_div[symmetric] unat_mod[symmetric])
    have lt: "unat (v div base) < unat v" using v less.prems(1) by (simp add: unat_div)
    have "num_digits u base (v div base) (t @ [?d]) = Some ((t @ [?d]) @ rev (ref_digits u (unat base) (unat (v div base))))"
      by (rule less.hyps[OF lt less.prems(1)]) (use less.prems(2) d in simp)
    then show ?thesis using False d less.prems(2) by (subst num_digits.simps) (simp add: tmp_put_def)
  qed (simp add: num_digits.simps ref_digits.simps)
qed

lemma num_pad_exact:
  "num_pad n c t = (if n = 0 \<or> length t + n \<le> 36 then Some (t @ replicate n c) else None)"
  by (induction n arbitrary: t) (auto simp: tmp_put_def replicate_append_same)

lemma num_tmp_exact:
  assumes "2 \<le> unat base" "is_signed \<longrightarrow> unat base = 10"
  shows "num_tmp val base is_signed width zero upper =
    (let body = num_body val (unat base) is_signed upper
     in if width \<le> 36 then Some (rev (replicate (width - length body) (if zero then 0x30 else 0x20) @ body)) else None)"
proof -
  define neg where "neg \<longleftrightarrow> is_signed \<and> sint val < 0"
  define v where "v = (if neg then - val else val)"
  let ?r = "ref_digits upper (unat base) (unat v)"
  let ?b = "num_body val (unat base) is_signed upper"
  have b: "?b = (if neg then [0x2D] else []) @ (if v = 0 then [0x30] else ?r)"
    by (simp add: num_body_def Let_def v_def neg_def)
  have l: "length ?r \<le> 32" by (rule ref_digits_u32[OF assms(1)])
  have r0: "v = 0 \<Longrightarrow> ?r = []" by (simp add: ref_digits.simps)
  have len: "length ?b \<le> 33" unfolding b using l by (cases "v = 0"; cases neg; simp)
  have "num_tmp val base is_signed width zero upper =
    num_pad (width - length ?b) (if zero then 0x30 else 0x20) (rev ?b)"
    unfolding num_tmp_def neg_def[symmetric] v_def[symmetric] Let_def b
    using num_digits_exact[OF assms(1), of "[0x30]" upper v] num_digits_exact[OF assms(1), of "[]" upper v] l r0
    by (cases "v = 0"; cases neg; simp add: tmp_put_def)
  then show ?thesis using len by (auto simp: num_pad_exact Let_def)
qed

lemma out_arg_text:
  assumes "2 \<le> unat base" "is_signed \<longrightarrow> unat base = 10"
  shows "out_arg emit ctx ap base is_signed width zero upper =
    map_option (\<lambda>(t, ap). (fold emit t ctx, ap)) (num_text ap (unat base) is_signed width zero upper)"
  by (auto simp: out_arg_def num_text_def out_num_def num_tmp_exact[OF assms] Let_def split: list.split va.split)

lemma convert_text:
  "convert emit ctx c zero width ap = map_option (\<lambda>(t, ap). (fold emit t ctx, ap)) (field_text c zero width ap)"
  by (simp add: convert_def field_text_def out_arg_text out_str_def option.map_comp comp_def case_prod_unfold
      split: list.split va.split)

lemma kvprintf_text: "kvprintf emit ctx f ap = map_option (\<lambda>t. fold emit t ctx) (format_text f ap)"
proof (induction emit ctx f ap rule: kvprintf.induct)
  case (2 emit ctx c f ap)
  show ?case
  proof (cases "c = 0x25")
    case False
    then show ?thesis using 2(1) by (simp add: option.map_comp comp_def)
  next
    case True
    obtain z f1 w f2 where f: "field_flag f = (z, f1)" "field_width f1 = (w, f2)" by fastforce
    show ?thesis
    proof (cases f2)
      case (Cons k f3)
      show ?thesis
      proof (cases "field_text k z w ap")
        case (Some r)
        obtain t ap' where r: "r = (t, ap')" by (cases r)
        have "kvprintf emit (fold emit t ctx) f3 ap' = map_option (\<lambda>t'. fold emit t' (fold emit t ctx)) (format_text f3 ap')"
          using 2(2)[OF _ f(1)[symmetric] f(2)[symmetric] Cons _ refl, of "fold emit t ctx" ap'] True Some r
          by (simp add: convert_text)
        then show ?thesis using True f Cons Some r by (simp add: convert_text option.map_comp comp_def)
      qed (use True f Cons in \<open>simp add: convert_text\<close>)
    qed (use True f in simp)
  qed
qed simp

lemma emit_buf_step:
  "emit_buf c \<lparr>sb_buf = b, sb_size = n, sb_pos = p\<rparr> =
     \<lparr>sb_buf = (if p + 1 < n then b[p := c] else b), sb_size = n, sb_pos = p + 1\<rparr>"
  by (simp add: emit_buf_def)

lemma fold_emit_buf:
  assumes "n \<le> length b" "p \<le> n - 1"
  shows "fold emit_buf out \<lparr>sb_buf = b, sb_size = n, sb_pos = p\<rparr> =
    \<lparr>sb_buf = take p b @ take (n - 1 - p) out @ drop (p + min (n - 1 - p) (length out)) b, sb_size = n, sb_pos = p + length out\<rparr>"
  using assms
proof (induction out arbitrary: b p)
  case (Cons c out)
  show ?case
  proof (cases "p + 1 < n")
    case True
    then have "n - 1 - p = Suc (n - 1 - Suc p)" by simp
    then show ?thesis using True Cons.prems
      by (simp add: emit_buf_step Cons.IH take_Suc_conv_app_nth)
  next
    case False
    have "fold emit_buf out \<lparr>sb_buf = b, sb_size = n, sb_pos = q\<rparr> = \<lparr>sb_buf = b, sb_size = n, sb_pos = q + length out\<rparr>"
      if "n \<le> q + 1" for q
      using that by (induction out arbitrary: q) (simp_all add: emit_buf_step)
    then show ?thesis using False Cons.prems by (simp add: emit_buf_step)
  qed
qed simp

lemma ksnprintf_buffer:
  assumes "n \<le> length buf"
  shows "ksnprintf buf n fmt ap =
    map_option (\<lambda>out. if n = 0 then buf else take (n - 1) out @ 0 # drop (length (take (n - 1) out) + 1) buf) (format_text fmt ap)"
proof -
  have "sbuf_close (fold emit_buf out \<lparr>sb_buf = buf, sb_size = n, sb_pos = 0\<rparr>) =
    (if n = 0 then buf else take (n - 1) out @ 0 # drop (length (take (n - 1) out) + 1) buf)" for out
  proof (cases "length out < n")
    case True
    then have "drop (length out) buf = buf ! length out # drop (length out + 1) buf"
      using assms by (simp add: Cons_nth_drop_Suc)
    then show ?thesis using True assms by (simp add: fold_emit_buf sbuf_close_def list_update_append)
  next
    case False
    show ?thesis
    proof (cases "n = 0")
      case False
      then have "drop (n - 1) buf = buf ! (n - 1) # drop n buf"
        using assms Cons_nth_drop_Suc[of "n - 1" buf] by simp
      then show ?thesis using False \<open>\<not> length out < n\<close> assms
        by (simp add: fold_emit_buf sbuf_close_def list_update_append)
    qed (use assms in \<open>simp add: fold_emit_buf sbuf_close_def\<close>)
  qed
  then show ?thesis by (simp add: ksnprintf_def kvprintf_text option.map_comp comp_def)
qed

text \<open>C21. \<^verbatim>\<open>ksnprintf\<close> writes what the reference formatter prints, cut to \<open>size - 1\<close> bytes and
  terminated, and no byte of the buffer after the terminator; a \<^verbatim>\<open>%d\<close>, \<^verbatim>\<open>%u\<close>, \<^verbatim>\<open>%x\<close> or \<^verbatim>\<open>%b\<close> with
  a width above 36 is exactly what overruns \<^verbatim>\<open>tmp[36]\<close>.\<close>

theorem ksnprintf_exact:
  assumes "n \<le> length buf"
  shows "ksnprintf buf n fmt ap =
    map_option (\<lambda>out. if n = 0 then buf else take (n - 1) out @ 0 # drop (length (take (n - 1) out) + 1) buf) (format_text fmt ap)"
  using assms by (rule ksnprintf_buffer)

lemma ksnprintf_exact_witness:
  "ksnprintf [7, 7, 7, 7, 7, 7, 7] 6 (ascii ''%04d!'') [VNum (-3)] = Some (ascii ''00-3!'' @ [0, 7])"
proof -
  have f: "format_text (ascii ''%04d!'') [VNum (-3)] = Some (ascii ''00-3!'')"
    by code_simp
  show ?thesis by (subst ksnprintf_exact) (simp_all add: f, simp add: ascii_def)
qed

end
