(* ===== verification/Settings.thy ===== *)
theory Settings
  imports Printf Kvfs_Props
begin

text \<open>
  The persistent settings of \<^verbatim>\<open>kernel/settings.c\<close> and the interface language of
  \<^verbatim>\<open>kernel/i18n.c\<close>, over KvFS. The static buffer keeps its contents between calls, so it is a
  part of the state. An \<^verbatim>\<open>int\<close> is a 32-bit word; \<open>None\<close> is a failure of the formatter, which
  is shown not to happen.
\<close>

datatype kv_lang = KV_LANG_EN | KV_LANG_RU

definition kv_lang_code :: "kv_lang \<Rightarrow> cstring" where
  "kv_lang_code l = (if l = KV_LANG_RU then ascii ''ru'' else ascii ''en'')"

record settings =
  st_lang :: kv_lang
  st_accent :: u32
  st_wall :: u32
  st_buf :: "u8 list"

definition SETTINGS_MAX :: nat where "SETTINGS_MAX = 512"
definition SETTINGS_FILE :: cstring where "SETTINGS_FILE = ascii ''settings.cfg''"

definition settings_boot :: settings where
  "settings_boot = \<lparr>st_lang = KV_LANG_EN, st_accent = -1, st_wall = -1, st_buf = replicate SETTINGS_MAX 0\<rparr>"

definition kv_lang_set :: "kv_lang \<Rightarrow> settings \<Rightarrow> settings" where
  "kv_lang_set l st = st\<lparr>st_lang := (if l = KV_LANG_RU then KV_LANG_RU else KV_LANG_EN)\<rparr>"

fun parse_digits :: "u32 \<Rightarrow> cstring \<Rightarrow> u32" where
  "parse_digits v [] = v"
| "parse_digits v (c # s) = (if is_digit c then parse_digits (v * 10 + (ucast c - 48)) s else v)"

definition parse_int :: "cstring \<Rightarrow> u32" where
  "parse_int s = (if byte_at s = 0x2D then - parse_digits 0 (tl s) else parse_digits 0 s)"

definition apply_line :: "cstring \<Rightarrow> cstring \<Rightarrow> settings \<Rightarrow> settings" where
  "apply_line key val st =
     (if kstrcmp key (ascii ''lang'') = 0
      then (if kstrncmp val (ascii ''ru'') 2 = 0 then kv_lang_set KV_LANG_RU st
            else if kstrncmp val (ascii ''en'') 2 = 0 then kv_lang_set KV_LANG_EN st else st)
      else if kstrcmp key (ascii ''accent'') = 0 then st\<lparr>st_accent := parse_int val\<rparr>
      else if kstrcmp key (ascii ''wall'') = 0 then st\<lparr>st_wall := parse_int val\<rparr>
      else st)"

text \<open>One line: the text before the first \<^verbatim>\<open>=\<close> is the key, unless it is empty.\<close>

definition parse_line :: "cstring \<Rightarrow> settings \<Rightarrow> settings" where
  "parse_line line st =
     (let key = takeWhile (\<lambda>c. c \<noteq> 0x3D) line; eq = dropWhile (\<lambda>c. c \<noteq> 0x3D) line
      in if byte_at eq = 0x3D \<and> key \<noteq> [] then apply_line key (tl eq) st else st)"

function parse_lines :: "cstring \<Rightarrow> settings \<Rightarrow> settings" where
  "parse_lines p st =
     (if p = [] then st
      else let st = parse_line (takeWhile (\<lambda>c. c \<noteq> 0x0A) p) st
           in case dropWhile (\<lambda>c. c \<noteq> 0x0A) p of [] \<Rightarrow> st | _ # p \<Rightarrow> parse_lines p st)"
  by pat_completeness auto
termination
proof (relation "measure (\<lambda>(p, _). length p)")
  fix p :: cstring and c p' and x st :: settings
  assume "dropWhile (\<lambda>c. c \<noteq> 0x0A) p = c # p'"
  then show "((p', x), (p, st)) \<in> measure (\<lambda>(p, _). length p)"
    using length_dropWhile_le[of "\<lambda>c. c \<noteq> 0x0A" p] by simp
qed simp

declare parse_lines.simps [simp del]

definition settings_load :: "kvfs \<Rightarrow> settings \<Rightarrow> kvfs \<times> settings" where
  "settings_load kv st =
     (if \<not> kv_mounted kv then (kv, st)
      else case kvfs_read kv SETTINGS_FILE (of_nat (SETTINGS_MAX - 1)) of
        (kv, rc, bs) \<Rightarrow>
          let st = st\<lparr>st_buf := bs @ drop (length bs) (st_buf st)\<rparr>
          in if rc \<le> 0 then (kv, st)
             else let st = st\<lparr>st_buf := (st_buf st)[SETTINGS_MAX - 1 := 0]\<rparr>
                  in (kv, parse_lines (cstr (st_buf st)) st))"

definition settings_fmt :: cstring where
  "settings_fmt = ascii ''lang=%s'' @ [0x0A] @ ascii ''accent=%d'' @ [0x0A] @ ascii ''wall=%d'' @ [0x0A]"

definition settings_save :: "kvfs \<Rightarrow> settings \<Rightarrow> (kvfs \<times> settings) option" where
  "settings_save kv st =
     (if \<not> kv_mounted kv then Some (kv, st)
      else case ksnprintf (st_buf st) SETTINGS_MAX settings_fmt
                  [VStr (Some (kv_lang_code (st_lang st))), VNum (st_accent st), VNum (st_wall st)] of
             None \<Rightarrow> None
           | Some b \<Rightarrow>
               let st = st\<lparr>st_buf := b\<rparr>; s = cstr b
               in Some (fst (kvfs_write kv (Some SETTINGS_FILE) (Some s) (of_nat (length s)) False), st))"

section \<open>Numbers in text\<close>

lemma below_10:
  "(n :: nat) < 10 \<Longrightarrow> n = 0 \<or> n = 1 \<or> n = 2 \<or> n = 3 \<or> n = 4 \<or> n = 5 \<or> n = 6 \<or> n = 7 \<or> n = 8 \<or> n = 9"
  by presburger

lemma digit_10_facts:
  assumes "n < 10"
  shows "is_digit (digit False (of_nat n))" "digit False (of_nat n) \<noteq> 0x2D"
    "(ucast (digit False (of_nat n)) :: u32) - 48 = of_nat n"
  using below_10[OF assms] by (auto simp: digit_def ascii_def is_digit_def)

lemma parse_digits_append:
  "(\<forall>c\<in>set s. is_digit c) \<Longrightarrow> parse_digits v (s @ r) = parse_digits (parse_digits v s) r"
  by (induction s arbitrary: v) auto

lemma ref_digits_set: "c \<in> set (ref_digits False 10 n) \<Longrightarrow> is_digit c \<and> c \<noteq> 0x2D"
proof (induction n rule: less_induct)
  case (less n)
  then have "c \<in> set (ref_digits False 10 (n div 10)) \<or> c = digit False (of_nat (n mod 10))" "n \<noteq> 0"
    unfolding ref_digits.simps[of False 10 n] by (auto split: if_splits)
  then show ?case using less.IH[of "n div 10"] by (auto simp: digit_10_facts)
qed

lemma parse_ref_digits: "parse_digits 0 (ref_digits False 10 n) = of_nat n"
proof (induction n rule: less_induct)
  case (less n)
  show ?case
  proof (cases "n = 0")
    case False
    then have "parse_digits 0 (ref_digits False 10 n) =
      of_nat (n div 10) * 10 + of_nat (n mod 10)"
      using less[of "n div 10"] ref_digits_set[of _ "n div 10"]
      by (subst ref_digits.simps) (simp add: parse_digits_append digit_10_facts)
    also have "\<dots> = (of_nat (n div 10 * 10 + n mod 10) :: u32)" by (simp only: of_nat_add of_nat_mult) simp
    finally show ?thesis by simp
  qed (simp add: ref_digits.simps)
qed

lemma parse_num_body: "parse_int (num_body v 10 True False) = v"
proof -
  have r: "\<not> byte_at (ref_digits False 10 n) = 0x2D" for n
    using ref_digits_set[of "hd (ref_digits False 10 n)" n]
    by (cases "ref_digits False 10 n") (auto simp: byte_at_def)
  show ?thesis
    by (cases "v = 0") (use r in \<open>auto simp: parse_int_def num_body_def Let_def parse_ref_digits byte_at_def is_digit_def\<close>)
qed

lemma num_body_set: "c \<in> set (num_body v 10 True False) \<Longrightarrow> is_digit c \<or> c = 0x2D"
  by (auto simp: num_body_def Let_def is_digit_def split: if_splits dest: ref_digits_set)

lemma num_body_length: "length (num_body v 10 True False) \<le> 11"
  using ref_digits_10[of False v] ref_digits_10[of False "- v"] by (auto simp: num_body_def Let_def)

section \<open>The settings file\<close>


definition settings_text :: "settings \<Rightarrow> cstring" where
  "settings_text st =
     (ascii ''lang'' @ 0x3D # kv_lang_code (st_lang st)) @ 0x0A #
     (ascii ''accent'' @ 0x3D # num_body (st_accent st) 10 True False) @ 0x0A #
     (ascii ''wall'' @ 0x3D # num_body (st_wall st) 10 True False) @ [0x0A]"

lemma settings_format:
  "format_text settings_fmt [VStr (Some (kv_lang_code (st_lang st))), VNum (st_accent st), VNum (st_wall st)] =
     Some (settings_text st)"
  by (simp add: settings_fmt_def ascii_def field_flag_def field_width_def byte_at_def is_digit_def field_text_def
      num_text_def Let_def settings_text_def)

lemma code_facts: "length (kv_lang_code l) = 2" "\<not> (\<exists>c\<in>set (kv_lang_code l). c = 0 \<or> c = 0x0A)"
  by (auto simp: kv_lang_code_def ascii_def)

lemma settings_text_facts: "length (settings_text st) \<le> 48" "0 \<notin> set (settings_text st)"
  using num_body_length[of "st_accent st"] num_body_length[of "st_wall st"] code_facts[of "st_lang st"]
  by (auto simp: settings_text_def ascii_def is_digit_def dest: num_body_set)

lemma settings_saved:
  assumes "kv_mounted kv" "length (st_buf st) = SETTINGS_MAX"
  shows "settings_save kv st = Some
    (fst (kvfs_write kv (Some SETTINGS_FILE) (Some (settings_text st)) (of_nat (length (settings_text st))) False),
     st\<lparr>st_buf := settings_text st @ 0 # drop (length (settings_text st) + 1) (st_buf st)\<rparr>)"
proof -
  note t = settings_text_facts[of st]
  have "take (SETTINGS_MAX - 1) (settings_text st) = settings_text st" using t by (simp add: SETTINGS_MAX_def)
  then have k: "ksnprintf (st_buf st) SETTINGS_MAX settings_fmt
      [VStr (Some (kv_lang_code (st_lang st))), VNum (st_accent st), VNum (st_wall st)] =
    Some (settings_text st @ 0 # drop (length (settings_text st) + 1) (st_buf st))"
    using assms(2) by (subst ksnprintf_buffer) (simp_all add: settings_format SETTINGS_MAX_def)
  have "takeWhile (\<lambda>c. c \<noteq> 0) (settings_text st @ 0 # x) = settings_text st" for x
    using t(2) by (subst takeWhile_append2) auto
  then have "cstr (settings_text st @ 0 # x) = settings_text st" for x by (simp add: cstr_def)
  then show ?thesis using assms(1) k by (simp add: settings_save_def Let_def)
qed

lemma parse_lines_step: "0x0A \<notin> set l \<Longrightarrow> parse_lines (l @ 0x0A # p) st = parse_lines p (parse_line l st)"
  by (subst parse_lines.simps) (auto simp: Let_def takeWhile_append dropWhile_append)

lemma parse_line_key: "0x3D \<notin> set k \<Longrightarrow> k \<noteq> [] \<Longrightarrow> parse_line (k @ 0x3D # v) st = apply_line k v st"
  by (auto simp: parse_line_def Let_def takeWhile_append dropWhile_append byte_at_def)

lemma parse_settings_text:
  "parse_lines (settings_text st) st' = st'\<lparr>st_lang := st_lang st, st_accent := st_accent st, st_wall := st_wall st\<rparr>"
proof -
  have n: "0x0A \<notin> set (num_body v 10 True False)" for v by (auto simp: is_digit_def dest: num_body_set)
  have nl: "0x0A \<notin> set (ascii ''lang'' @ 0x3D # kv_lang_code (st_lang st))"
    "0x0A \<notin> set (ascii ''accent'' @ 0x3D # num_body (st_accent st) 10 True False)"
    "0x0A \<notin> set (ascii ''wall'' @ 0x3D # num_body (st_wall st) 10 True False)"
    using n code_facts by (auto simp: ascii_def)
  have lang: "apply_line (ascii ''lang'') (kv_lang_code l) s = s\<lparr>st_lang := l\<rparr>" for l s
    by (cases l) (simp_all add: apply_line_def[unfolded numeral_2_eq_2] kv_lang_code_def ascii_def kv_lang_set_def byte_at_def)
  have num: "apply_line (ascii ''accent'') (num_body v 10 True False) s = s\<lparr>st_accent := v\<rparr>"
    "apply_line (ascii ''wall'') (num_body v 10 True False) s = s\<lparr>st_wall := v\<rparr>" for v s
    by (simp_all add: apply_line_def parse_num_body, simp_all add: ascii_def)
  have keys: "0x3D \<notin> set (ascii ''lang'')" "0x3D \<notin> set (ascii ''accent'')" "0x3D \<notin> set (ascii ''wall'')"
    "ascii ''lang'' \<noteq> []" "ascii ''accent'' \<noteq> []" "ascii ''wall'' \<noteq> []"
    by (simp_all add: ascii_def)
  have e: "parse_lines [] s = s" for s by (subst parse_lines.simps) simp
  show ?thesis
    unfolding settings_text_def parse_lines_step[OF nl(1)] parse_lines_step[OF nl(2)] parse_lines_step[OF nl(3)]
      parse_line_key[OF keys(1,4)] parse_line_key[OF keys(2,5)] parse_line_key[OF keys(3,6)] lang num e
    by simp
qed

lemma settings_loaded:
  assumes "kvfs_ok kv" "ata_live (kv_ata kv)" "kvfs_files kv SETTINGS_FILE = Some (settings_text st)"
  shows "\<exists>kv' b. settings_load kv settings_boot =
    (kv', \<lparr>st_lang = st_lang st, st_accent = st_accent st, st_wall = st_wall st, st_buf = b\<rparr>)"
proof -
  note t = settings_text_facts[of st]
  have t0: "length (settings_text st) > 0" by (simp add: settings_text_def)
  obtain kv' rc bs where r: "kvfs_read kv SETTINGS_FILE (of_nat (SETTINGS_MAX - 1)) = (kv', rc, bs)"
    using prod_cases3 by blast
  have rc: "rc = int (length (settings_text st))" "bs = settings_text st"
    using read_refines[OF assms(1) r] assms(2,3) t(1) by (auto simp: SETTINGS_MAX_def)
  have "cstr ((settings_text st @ drop (length (settings_text st)) (replicate SETTINGS_MAX 0))[SETTINGS_MAX - 1 := 0]) = settings_text st"
  proof -
    have "(settings_text st @ replicate (512 - length (settings_text st)) 0)[511 := 0] =
      settings_text st @ replicate (512 - length (settings_text st)) 0"
      using t(1) by (simp add: list_update_append list_update_same_conv)
    then show ?thesis using t(2) by (auto simp: cstr_def SETTINGS_MAX_def takeWhile_append takeWhile_all)
  qed
  then show ?thesis
    using r rc kvfs_okD(1)[OF assms(1)] t0
    by (auto simp: settings_load_def Let_def settings_boot_def parse_settings_text)
qed

lemma reboot_live:
  assumes "kvfs_ok kv"
  shows "\<exists>kv'. kvfs_mount (power_cycle kv) = (kv', 0) \<and> kvfs_ok kv' \<and> kvfs_files kv' = kvfs_files kv \<and> ata_live (kv_ata kv')"
proof -
  have f: "fs_on (kv_dev kv) (kv_ata kv) (su_total (kv_super kv)) (kv_dir kv)" using assms by (simp add: kvfs_ok_def)
  show ?thesis
    using mount_found[OF power_cycle_fs(1)[OF f] power_cycle_fs(3)] kvfs_ok_len[OF assms]
    by (auto simp: kvfs_files_def power_cycle_fs kv_med_def)
qed

text \<open>C22. Settings survive a reboot: on a mounted KvFS with a working bus, a directory slot and
  room for one sector, saving the settings, powering the machine off and on, mounting and
  loading gives the saved language, accent and wallpaper, whatever 32-bit values they hold.\<close>

theorem settings_survive_reboot:
  assumes ok: "kvfs_ok kv" "ata_live (kv_ata kv)" "length (st_buf st) = SETTINGS_MAX"
    and room: "pick_slot (kv_dir kv) SETTINGS_FILE \<noteq> None" "fits (kv_dir kv) (su_total (kv_super kv)) 1 s"
  shows "\<exists>kv1 st1 kv2 kv3 b. settings_save kv st = Some (kv1, st1) \<and> kvfs_mount (power_cycle kv1) = (kv2, 0) \<and>
    settings_load kv2 settings_boot = (kv3, \<lparr>st_lang = st_lang st, st_accent = st_accent st, st_wall = st_wall st, st_buf = b\<rparr>)"
proof -
  note t = settings_text_facts[of st]
  let ?sz = "of_nat (length (settings_text st)) :: u32"
  have sz: "length (settings_text st) = unat ?sz" using t(1) by (subst unat_of_nat_u32) simp_all
  have sz2: "?sz \<le> 0x7FFFFFFF" using t(1) sz by (simp add: word_le_nat_alt)
  have pos: "0 < length (settings_text st)" by (simp add: settings_text_def)
  have "?sz div 512 = 0" "?sz mod 512 = ?sz" "?sz \<noteq> 0"
    using sz t(1) pos by (simp_all add: word_unat_eq_iff unat_div unat_mod del: unat_of_nat)
  then have one: "sectors_for ?sz = 1" by (simp add: sectors_for_def)
  have n: "SETTINGS_FILE \<noteq> []" "length SETTINGS_FILE < 40" "0 \<notin> set SETTINGS_FILE"
    by (simp_all add: SETTINGS_FILE_def ascii_def)
  obtain kv1 where w: "kvfs_write kv (Some SETTINGS_FILE) (Some (settings_text st)) ?sz False = (kv1, 0)"
    using write_live[OF ok(1,2) sz n sz2 room(1)] room(2) unfolding one by blast
  have d: "kvfs_ok kv1" "kvfs_files kv1 SETTINGS_FILE = Some (settings_text st)"
    using write_delivers[OF ok(1) w sz n(3)] by (auto simp: delivers_def)
  obtain kv2 where m: "kvfs_mount (power_cycle kv1) = (kv2, 0)" "kvfs_ok kv2" "kvfs_files kv2 = kvfs_files kv1" "ata_live (kv_ata kv2)"
    using reboot_live[OF d(1)] by blast
  show ?thesis
    using settings_saved[OF kvfs_okD(1)[OF ok(1)] ok(3)] w m(1) settings_loaded[OF m(2,4)] m(3) d(2) by auto
qed

lemma settings_survive_reboot_witness:
  "\<exists>kv1 st1 kv2 kv3 b. settings_save lab_fs (settings_boot\<lparr>st_lang := KV_LANG_RU, st_wall := 7\<rparr>) = Some (kv1, st1) \<and>
     kvfs_mount (power_cycle kv1) = (kv2, 0) \<and>
     settings_load kv2 settings_boot = (kv3, \<lparr>st_lang = KV_LANG_RU, st_accent = -1, st_wall = 7, st_buf = b\<rparr>)"
proof -
  have f: "fits (kv_dir lab_fs) (su_total (kv_super lab_fs)) 1 2057"
    unfolding lab_layout using lab_fits by (simp add: sectors_for_def)
  show ?thesis
    using settings_survive_reboot[OF lab_ok(1) lab_format(2) _ _ f, of "settings_boot\<lparr>st_lang := KV_LANG_RU, st_wall := 7\<rparr>"]
    by (simp add: lab_layout lab_pick settings_boot_def)
qed

end
