(* ===== verification/Partition.thy ===== *)
theory Partition
  imports Printf Vfs
begin

text \<open>
  Partition tables and the search for volumes, \<^verbatim>\<open>kernel/partition.c\<close>: the MBR with its
  extended chain, the GPT with its checksums, and the probe of every disk. The FAT and NTFS
  drivers are called through a record of their probe and mount functions; the disks are read
  through the block layer. \<open>lab\<close> is the build option \<^verbatim>\<open>KV_STORAGE_LAB\<close>.
\<close>

record 's fs_drivers =
  fd_fat_probe :: "'s \<Rightarrow> int \<Rightarrow> u32 \<Rightarrow> u32 \<Rightarrow> 's \<times> bool"
  fd_fat_mount :: "'s volumes \<times> 's \<Rightarrow> cstring \<Rightarrow> int \<Rightarrow> u32 \<Rightarrow> u32 \<Rightarrow> ('s volumes \<times> 's) \<times> int"
  fd_ntfs_probe :: "'s \<Rightarrow> int \<Rightarrow> u32 \<Rightarrow> u32 \<Rightarrow> 's \<times> bool"
  fd_ntfs_mount :: "'s volumes \<times> 's \<Rightarrow> cstring \<Rightarrow> int \<Rightarrow> u32 \<Rightarrow> u32 \<Rightarrow> ('s volumes \<times> 's) \<times> int"
  fd_rescan :: "'s \<Rightarrow> 's"
  fd_native :: "'s volumes \<Rightarrow> 's \<Rightarrow> 's volumes"

datatype scan_status = Scan_Silent | Gpt_Invalid | Gpt_No_Volume | Gpt_Lab_Volume | Gpt_Read_Only

record 's scan =
  sc_vols :: "'s volumes"
  sc_dev :: 's
  sc_status :: scan_status

definition read_at :: "'s blk \<Rightarrow> 's scan \<Rightarrow> int \<Rightarrow> u32 \<Rightarrow> u32 \<Rightarrow> 's scan \<times> u8 list option" where
  "read_at b sc disk lba n =
     (case disk_read b (sc_dev sc) disk lba (ucast n) of (s, r) \<Rightarrow> (sc\<lparr>sc_dev := s\<rparr>, r))"

section \<open>The master boot record\<close>

definition type_interesting :: "u8 \<Rightarrow> bool" where
  "type_interesting t \<longleftrightarrow>
     t \<in> {0x01, 0x04, 0x06, 0x0B, 0x0C, 0x0E, 0x07, 0x83, 0x0F, 0x05} \<or> t \<noteq> 0"

definition is_extended :: "u8 \<Rightarrow> bool" where
  "is_extended t \<longleftrightarrow> t = 0x05 \<or> t = 0x0F \<or> t = 0x85"

record mbr_part =
  mp_type :: u8
  mp_lba_start :: u32
  mp_sectors :: u32

definition mbr_entry :: "sector \<Rightarrow> nat \<Rightarrow> mbr_part" where
  "mbr_entry sec i =
     (let p = 0x1BE + 16 * i in \<lparr>mp_type = sec ! (p + 4), mp_lba_start = get32 sec (p + 8), mp_sectors = get32 sec (p + 12)\<rparr>)"

definition has_signature :: "sector \<Rightarrow> bool" where
  "has_signature sec \<longleftrightarrow> sec ! 0x1FE = 0x55 \<and> sec ! 0x1FF = 0xAA"

definition try_mount :: "'s blk \<Rightarrow> 's fs_drivers \<Rightarrow> cstring \<Rightarrow> int \<Rightarrow> u32 \<Rightarrow> u32 \<Rightarrow> 's scan \<Rightarrow> 's scan \<times> bool" where
  "try_mount b fd name disk lba count sc =
     (let sectors = blk_sectors b (sc_dev sc) disk in
      if count = 0 \<or> lba \<ge> sectors \<or> count > sectors - lba then (sc, False)
      else case fd_fat_probe fd (sc_dev sc) disk lba count of (s, hit) \<Rightarrow>
        if hit
        then (case fd_fat_mount fd (sc_vols sc, s) name disk lba count of
                ((vs, s), r) \<Rightarrow> (sc\<lparr>sc_vols := vs, sc_dev := s\<rparr>, r \<ge> 0))
        else (case fd_ntfs_probe fd s disk lba count of (s, hit) \<Rightarrow>
          if hit
          then (case fd_ntfs_mount fd (sc_vols sc, s) name disk lba count of
                  ((vs, s), r) \<Rightarrow> (sc\<lparr>sc_vols := vs, sc_dev := s\<rparr>, r \<ge> 0))
          else (sc\<lparr>sc_dev := s\<rparr>, False)))"

definition volume_format :: "int \<Rightarrow> int \<Rightarrow> cstring \<times> va list" where
  "volume_format disk seq =
     (let seq' = VNum (of_int seq) in
      if blk_is_ahci disk
      then (if seq \<noteq> 0 then (ascii ''sata%dp%d'', [VNum (of_int (disk - 12)), seq'])
            else (ascii ''sata%d'', [VNum (of_int (disk - 12))]))
      else if blk_is_usb disk
      then (if seq \<noteq> 0 then (ascii ''usb%dp%d'', [VNum (of_int (disk - 4)), seq'])
            else (ascii ''usb%d'', [VNum (of_int (disk - 4))]))
      else (if seq \<noteq> 0 then (ascii ''hd%c%d'', [VNum (of_int (0x61 + disk)), seq'])
            else (ascii ''hd%c'', [VNum (of_int (0x61 + disk))])))"

definition volume_name :: "int \<Rightarrow> int \<Rightarrow> cstring" where
  "volume_name disk seq =
     (case volume_format disk seq of (fmt, ap) \<Rightarrow>
        (case ksnprintf (replicate 16 0) 16 fmt ap of None \<Rightarrow> [] | Some b \<Rightarrow> cstr b))"

section \<open>GPT\<close>

record gpt_info =
  gt_first :: u32
  gt_last :: u32
  gt_entries :: u32
  gt_count :: u32
  gt_size :: u32

definition get64 :: "u8 list \<Rightarrow> nat \<Rightarrow> u64" where
  "get64 p i = ucast (get32 p i) OR push_bit 32 (ucast (get32 p (i + 4)))"

definition gpt_crc_bit :: "u32 \<Rightarrow> u32" where
  "gpt_crc_bit crc = drop_bit 1 crc XOR (if crc AND 1 \<noteq> 0 then 0xEDB88320 else 0)"

definition gpt_crc_byte :: "u32 \<Rightarrow> u8 \<Rightarrow> u32" where
  "gpt_crc_byte crc x = (gpt_crc_bit ^^ 8) (crc XOR ucast x)"

definition gpt_crc :: "u32 \<Rightarrow> u8 list \<Rightarrow> u32" where
  "gpt_crc crc p = foldl gpt_crc_byte crc p"

definition efi_part :: cstring where "efi_part = ascii ''EFI PART''"

text \<open>The checks of the header that need no further reading; \<open>total'\<close> is the size of the disk.\<close>

definition gpt_header_ok :: "u8 list \<Rightarrow> u32 \<Rightarrow> u32 \<Rightarrow> bool" where
  "gpt_header_ok h at total' \<longleftrightarrow>
     (let sz = get32 h 12; expected = get32 h 16; h' = take 16 h @ [0, 0, 0, 0] @ drop 20 h in
      take 8 h = efi_part \<and> get32 h 8 = 0x10000 \<and> 92 \<le> sz \<and> sz \<le> 512 \<and> get32 h 20 = 0 \<and>
      gpt_crc 0xFFFFFFFF (take (unat sz) h') XOR 0xFFFFFFFF = expected \<and>
      get64 h 24 = ucast at \<and> get64 h 32 = (if at = 1 then ucast (total' - 1) else 1))"

definition gpt_bounds_ok :: "u8 list \<Rightarrow> u32 \<Rightarrow> u32 \<Rightarrow> bool" where
  "gpt_bounds_ok h at total' \<longleftrightarrow>
     (let first = get64 h 40; last = get64 h 48; entries = get64 h 72; count = get32 h 80; stride = get32 h 84;
          bytes = count * stride; sectors = (bytes + 511) div 512 in
      \<not> (first < 2 \<or> first > last \<or> last \<ge> ucast (total' - 1) \<or> entries < 2 \<or> entries \<ge> ucast (total' - 1)) \<and>
      \<not> (count = 0 \<or> count > 1024 \<or> stride < 128 \<or> stride > 4096 \<or> stride AND (stride - 1) \<noteq> 0) \<and>
      \<not> bytes > 128 * 1024 \<and>
      \<not> (first < 2 + ucast sectors \<or> last + ucast sectors + 2 > ucast total') \<and>
      \<not> ucast sectors > ucast (total' - 1) - entries \<and>
      \<not> (if at = 1 then entries + ucast sectors > first else entries \<le> last))"

text \<open>The checksum over the whole entry array, 4096 bytes at a time.\<close>

function gpt_array_crc :: "'s blk \<Rightarrow> int \<Rightarrow> u32 \<Rightarrow> nat \<Rightarrow> nat \<Rightarrow> u32 \<Rightarrow> 's scan \<Rightarrow> 's scan \<times> u32 option" where
  "gpt_array_crc b disk entries bytes done' crc sc =
     (if done' < bytes
      then let n = min (bytes - done') 4096 in
           (case read_at b sc disk (entries + of_nat (done' div 512)) (of_nat ((n + 511) div 512)) of
              (sc, None) \<Rightarrow> (sc, None)
            | (sc, Some bs) \<Rightarrow> gpt_array_crc b disk entries bytes (done' + n) (gpt_crc crc (take n bs)) sc)
      else (sc, Some crc))"
  by pat_completeness auto
termination
  by (relation "measure (\<lambda>(_, _, _, bytes, d, _). bytes - d)") auto

definition gpt_table :: "'s blk \<Rightarrow> int \<Rightarrow> u32 \<Rightarrow> 's scan \<Rightarrow> 's scan \<times> gpt_info option" where
  "gpt_table b disk at sc =
     (let total' = blk_sectors b (sc_dev sc) disk in
      if total' < 68 then (sc, None)
      else case read_at b sc disk at 1 of
        (sc, None) \<Rightarrow> (sc, None)
      | (sc, Some h) \<Rightarrow>
          if \<not> gpt_header_ok h at total' \<or> \<not> gpt_bounds_ok h at total' then (sc, None)
          else case gpt_array_crc b disk (ucast (get64 h 72)) (unat (get32 h 80 * get32 h 84)) 0 0xFFFFFFFF sc of
                 (sc, None) \<Rightarrow> (sc, None)
               | (sc, Some crc) \<Rightarrow>
                   if crc XOR 0xFFFFFFFF \<noteq> get32 h 88 then (sc, None)
                   else (sc, Some \<lparr>gt_first = ucast (get64 h 40), gt_last = ucast (get64 h 48),
                          gt_entries = ucast (get64 h 72), gt_count = get32 h 80, gt_size = get32 h 84\<rparr>))"

text \<open>A mounted GPT volume is made read-only, except an enrolled one of the lab build.\<close>

definition gpt_lock :: "bool \<Rightarrow> int \<Rightarrow> cstring \<Rightarrow> 's scan \<Rightarrow> 's scan" where
  "gpt_lock lab disk name sc =
     (case vfs_find (sc_vols sc) name of
        None \<Rightarrow> sc\<lparr>sc_status := Gpt_Read_Only\<rparr>
      | Some k \<Rightarrow>
          let v = sc_vols sc ! k;
              v = (if lab \<and> blk_is_usb disk \<and> vol_kind v = FS_FAT32 \<and> vol_writable v then v else v\<lparr>vol_writable := False\<rparr>)
          in sc\<lparr>sc_vols := (sc_vols sc)[k := v], sc_status := (if vol_writable v then Gpt_Lab_Volume else Gpt_Read_Only)\<rparr>)"

text \<open>The slot in the buffer, which holds eight sectors of the entry array at a time.\<close>

record gpt_cursor =
  gc_loaded :: u32
  gc_sector :: "u8 list"

definition gpt_fetch :: "'s blk \<Rightarrow> int \<Rightarrow> gpt_info \<Rightarrow> u32 \<Rightarrow> gpt_cursor \<Rightarrow> 's scan \<Rightarrow> 's scan \<times> gpt_cursor option" where
  "gpt_fetch b disk t off c sc =
     (let block = off div 4096; lba = gt_entries t + block * 8;
          k = (gt_count t * gt_size t + 511) div 512 - block * 8; n = (if k > 8 then 8 else k) in
      if gc_loaded c \<noteq> lba
      then (case read_at b sc disk lba n of
              (sc, None) \<Rightarrow> (sc, None)
            | (sc, Some bs) \<Rightarrow> (sc, Some \<lparr>gc_loaded = lba, gc_sector = bs @ drop (length bs) (gc_sector c)\<rparr>))
      else (sc, Some c))"

definition gpt_slot :: "'s blk \<Rightarrow> 's fs_drivers \<Rightarrow> bool \<Rightarrow> int \<Rightarrow> gpt_info \<Rightarrow> nat \<Rightarrow> u8 list \<Rightarrow> 's scan \<Rightarrow> 's scan \<times> bool" where
  "gpt_slot b fd lab disk t i p sc =
     (let start = get64 p 32; end' = get64 p 40; name = volume_name disk (int i + 1) in
      if list_all (\<lambda>x. x = 0) (take 16 p) then (sc, False)
      else if start < ucast (gt_first t) \<or> start > end' \<or> end' > ucast (gt_last t) then (sc, False)
      else case try_mount b fd name disk (ucast start) (ucast (end' - start + 1)) sc of
             (sc, ok) \<Rightarrow> if ok then (gpt_lock lab disk name sc, True) else (sc, False))"

fun gpt_slots :: "'s blk \<Rightarrow> 's fs_drivers \<Rightarrow> bool \<Rightarrow> int \<Rightarrow> gpt_info \<Rightarrow> nat list \<Rightarrow> gpt_cursor \<Rightarrow> int \<Rightarrow> 's scan \<Rightarrow> 's scan \<times> int" where
  "gpt_slots b fd lab disk t [] c mounted sc = (sc, mounted)"
| "gpt_slots b fd lab disk t (i # slots) c mounted sc =
     (case gpt_fetch b disk t (of_nat i * gt_size t) c sc of
        (sc, None) \<Rightarrow> (sc, mounted)
      | (sc, Some c) \<Rightarrow>
          (case gpt_slot b fd lab disk t i (drop (unat (of_nat i * gt_size t mod 4096)) (gc_sector c)) sc of
             (sc, ok) \<Rightarrow> gpt_slots b fd lab disk t slots c (if ok then mounted + 1 else mounted) sc))"

definition scan_gpt :: "'s blk \<Rightarrow> 's fs_drivers \<Rightarrow> bool \<Rightarrow> int \<Rightarrow> 's scan \<Rightarrow> 's scan \<times> int" where
  "scan_gpt b fd lab disk sc =
     (let sc = sc\<lparr>sc_status := Gpt_Invalid\<rparr>; total' = blk_sectors b (sc_dev sc) disk in
      if total' < 68 then (sc, 0)
      else case (case gpt_table b disk 1 sc of (sc, None) \<Rightarrow> gpt_table b disk (total' - 1) sc | r \<Rightarrow> r) of
        (sc, None) \<Rightarrow> (sc, 0)
      | (sc, Some t) \<Rightarrow>
          gpt_slots b fd lab disk t [0..<unat (gt_count t)] \<lparr>gc_loaded = 0xFFFFFFFF, gc_sector = replicate 4096 0\<rparr> 0 (sc\<lparr>sc_status := Gpt_No_Volume\<rparr>))"

section \<open>One disk\<close>

text \<open>The chain of logical partitions; \<open>seq\<close> numbers the volumes.\<close>

definition mount_next :: "'s blk \<Rightarrow> 's fs_drivers \<Rightarrow> int \<Rightarrow> u32 \<Rightarrow> u32 \<Rightarrow> int \<Rightarrow> int \<Rightarrow> 's scan \<Rightarrow> 's scan \<times> int \<times> int" where
  "mount_next b fd disk lba count seq mounted sc =
     (case try_mount b fd (volume_name disk (seq + 1)) disk lba count sc of
        (sc, ok) \<Rightarrow> (sc, seq + 1, if ok then mounted + 1 else mounted))"

fun ebr_chain :: "nat \<Rightarrow> 's blk \<Rightarrow> 's fs_drivers \<Rightarrow> int \<Rightarrow> u32 \<Rightarrow> u32 \<Rightarrow> int \<Rightarrow> int \<Rightarrow> 's scan \<Rightarrow> 's scan \<times> int \<times> int" where
  "ebr_chain 0 b fd disk base next seq mounted sc = (sc, seq, mounted)"
| "ebr_chain (Suc guard) b fd disk base next seq mounted sc =
     (if next = 0 then (sc, seq, mounted)
      else case read_at b sc disk next 1 of
        (sc, None) \<Rightarrow> (sc, seq, mounted)
      | (sc, Some ebr) \<Rightarrow>
          if \<not> has_signature ebr then (sc, seq, mounted)
          else case (if mp_sectors (mbr_entry ebr 0) \<noteq> 0
                     then mount_next b fd disk (next + mp_lba_start (mbr_entry ebr 0)) (mp_sectors (mbr_entry ebr 0)) seq mounted sc
                     else (sc, seq, mounted)) of
                 (sc, seq, mounted) \<Rightarrow>
                   ebr_chain guard b fd disk base
                     (if mp_sectors (mbr_entry ebr 1) \<noteq> 0 then base + mp_lba_start (mbr_entry ebr 1) else 0) seq mounted sc)"

fun mbr_slots :: "'s blk \<Rightarrow> 's fs_drivers \<Rightarrow> int \<Rightarrow> mbr_part list \<Rightarrow> int \<Rightarrow> int \<Rightarrow> 's scan \<Rightarrow> 's scan \<times> int \<times> int" where
  "mbr_slots b fd disk [] seq mounted sc = (sc, seq, mounted)"
| "mbr_slots b fd disk (p # ps) seq mounted sc =
     (if mp_sectors p = 0 \<or> \<not> type_interesting (mp_type p) then mbr_slots b fd disk ps seq mounted sc
      else if is_extended (mp_type p)
      then (case ebr_chain 16 b fd disk (mp_lba_start p) (mp_lba_start p) seq mounted sc of
              (sc, seq, mounted) \<Rightarrow> mbr_slots b fd disk ps seq mounted sc)
      else (case mount_next b fd disk (mp_lba_start p) (mp_sectors p) seq mounted sc of
              (sc, seq, mounted) \<Rightarrow> mbr_slots b fd disk ps seq mounted sc))"

definition gpt_protective :: "mbr_part \<Rightarrow> bool" where
  "gpt_protective p \<longleftrightarrow> mp_type p = 0xEE \<and> mp_lba_start p = 1 \<and> mp_sectors p \<noteq> 0"

definition scan_disk :: "'s blk \<Rightarrow> 's fs_drivers \<Rightarrow> bool \<Rightarrow> int \<Rightarrow> 's scan \<Rightarrow> 's scan \<times> int" where
  "scan_disk b fd lab disk sc =
     (case read_at b sc disk 0 1 of
        (sc, None) \<Rightarrow> (sc, 0)
      | (sc, Some sec) \<Rightarrow>
          let parts = map (mbr_entry sec) [0..<4] in
          if has_signature sec \<and> list_ex gpt_protective parts then scan_gpt b fd lab disk sc
          else case (if has_signature sec then mbr_slots b fd disk parts 0 0 sc else (sc, 0, 0)) of
            (sc, seq, mounted) \<Rightarrow>
              if mounted = 0
              then (case try_mount b fd (volume_name disk 0) disk 0 (blk_sectors b (sc_dev sc) disk) sc of
                      (sc, ok) \<Rightarrow> (sc, if ok then 1 else 0))
              else (sc, mounted))"

fun scan_disks :: "'s blk \<Rightarrow> 's fs_drivers \<Rightarrow> bool \<Rightarrow> nat \<Rightarrow> nat \<Rightarrow> int \<Rightarrow> 's scan \<Rightarrow> 's scan \<times> int" where
  "scan_disks b fd lab 0 d n sc = (sc, n)"
| "scan_disks b fd lab (Suc k) d n sc =
     (if int d < blk_count b (sc_dev sc)
      then if blk_sectors b (sc_dev sc) (int d) = 0 then scan_disks b fd lab k (d + 1) n sc
           else (case scan_disk b fd lab (int d) sc of (sc, m) \<Rightarrow> scan_disks b fd lab k (d + 1) (n + m) sc)
      else (sc, n))"

text \<open>Disk numbers stop at 20, so 20 rounds of the loop are enough.\<close>

definition vfs_autoscan :: "'s blk \<Rightarrow> 's fs_drivers \<Rightarrow> bool \<Rightarrow> 's volumes \<Rightarrow> 's \<Rightarrow> 's scan \<times> int" where
  "vfs_autoscan b fd lab vs s =
     (let s = fd_rescan fd s
      in scan_disks b fd lab 20 0 0 \<lparr>sc_vols = fd_native fd vs s, sc_dev = s, sc_status = Scan_Silent\<rparr>)"

end
