(* ===== verification/Gpt_Table.thy ===== *)
theory Gpt_Table
  imports Partition
begin

text \<open>
  The GPT: its checksum notices damage, and an accepted table describes disjoint areas of the
  disk.
\<close>

section \<open>Checksums\<close>

lemma gcrc_bit_top: "bit (gpt_crc_bit c) 31 \<longleftrightarrow> bit c 0"
proof -
  have a: "c AND 1 \<noteq> 0 \<longleftrightarrow> bit c 0" by (simp add: and_one_eq bit_0 odd_iff_mod_2_eq_one)
  have "\<not> bit c 32" by (auto dest: bit_imp_le_length)
  then show ?thesis unfolding gpt_crc_bit_def a by (simp add: bit_simps)
qed

lemma xor_cancel: "c XOR z = d XOR z \<longleftrightarrow> c = d" "c XOR z = c XOR w \<longleftrightarrow> z = w" for c d z w :: u32
  by (auto simp: bit_eq_iff bit_simps)

lemma gcrc_bit_inj: "gpt_crc_bit c = gpt_crc_bit d \<longleftrightarrow> c = d"
proof
  assume e: "gpt_crc_bit c = gpt_crc_bit d"
  then have o0: "bit c 0 = bit d 0" using gcrc_bit_top by metis
  have a: "x AND 1 \<noteq> 0 \<longleftrightarrow> bit x 0" for x :: u32 by (simp add: and_one_eq bit_0 odd_iff_mod_2_eq_one)
  have "drop_bit 1 c = drop_bit 1 d"
    using e o0 unfolding gpt_crc_bit_def a by (cases "bit d 0") (simp_all add: xor_cancel)
  then have "bit (drop_bit 1 c) i = bit (drop_bit 1 d) i" for i by simp
  then have "bit c (Suc i) = bit d (Suc i)" for i unfolding bit_drop_bit_eq by simp
  then have "bit c i = bit d i" for i using o0 by (cases i) auto
  then show "c = d" by (simp add: bit_eq_iff)
qed simp

lemma gcrc_bits_inj: "(gpt_crc_bit ^^ k) c = (gpt_crc_bit ^^ k) d \<longleftrightarrow> c = d"
  by (induction k) (simp_all add: gcrc_bit_inj)

lemma gcrc_byte_inj: "gpt_crc_byte c x = gpt_crc_byte d x \<longleftrightarrow> c = d" "gpt_crc_byte c x = gpt_crc_byte c y \<longleftrightarrow> x = y"
proof -
  have "(ucast x :: u32) = ucast y \<longleftrightarrow> x = y"
    using unat_ucast_8_32[of x] unat_ucast_8_32[of y] by (metis word_unat_eq_iff)
  then show "gpt_crc_byte c x = gpt_crc_byte d x \<longleftrightarrow> c = d" "gpt_crc_byte c x = gpt_crc_byte c y \<longleftrightarrow> x = y"
    unfolding gpt_crc_byte_def gcrc_bits_inj by (simp_all add: xor_cancel)
qed

lemma gpt_crc_inj: "gpt_crc c p = gpt_crc d p \<longleftrightarrow> c = d"
  unfolding gpt_crc_def by (induction p arbitrary: c d) (simp_all add: gcrc_byte_inj)

lemma gpt_crc_append: "gpt_crc c (p @ q) = gpt_crc (gpt_crc c p) q"
  by (simp add: gpt_crc_def)

text \<open>A table with one damaged byte never has the checksum of the intact one.\<close>

lemma gpt_crc_detects:
  assumes "x \<noteq> y"
  shows "gpt_crc c (p @ x # q) \<noteq> gpt_crc c (p @ y # q)"
proof -
  have "gpt_crc c (p @ z # q) = gpt_crc (gpt_crc_byte (gpt_crc c p) z) q" for z
    by (simp add: gpt_crc_def)
  then show ?thesis using assms by (simp add: gpt_crc_inj gcrc_byte_inj(2))
qed

section \<open>The accepted table\<close>

lemma power_of_two_nat: "(x :: nat) AND (x - 1) = 0 \<Longrightarrow> 0 < x \<Longrightarrow> \<exists>k. x = 2 ^ k"
proof (induction x rule: less_induct)
  case (less x)
  show ?case
  proof (cases "even x")
    case True
    then obtain y where y: "x = 2 * y" by blast
    then have "x - 1 = 2 * (y - 1) + 1" using less.prems(2) by simp
    then have "(x - 1) div 2 = y - 1" by simp
    then have "y AND (y - 1) = 0" using less.prems(1) y by (subst (asm) and_nat_rec) simp
    then obtain k where "y = 2 ^ k" using less.IH[of y] y less.prems(2) by auto
    then have "x = 2 ^ Suc k" using y by simp
    then show ?thesis by blast
  next
    case False
    then obtain y where y: "x = 2 * y + 1" by (metis oddE)
    have "2 * (y AND y) = 0" using less.prems(1) y by (subst (asm) and_nat_rec) simp
    then have "x = 2 ^ 0" using y by simp
    then show ?thesis by blast
  qed
qed

lemma stride_power:
  assumes "(s :: u32) AND (s - 1) = 0" "128 \<le> s" "s \<le> 4096"
  shows "unat s dvd 4096"
proof -
  have s: "128 \<le> unat s" "unat s \<le> 4096" using assms(2,3) by (simp_all add: word_le_nat_alt)
  have "unat (s - 1) = unat s - 1" using assms(2) by (subst unat_sub_u32) (auto simp: word_le_nat_alt)
  then have "unat s AND (unat s - 1) = 0" using assms(1) by (metis unsigned_and_eq unsigned_0)
  then obtain k where k: "unat s = 2 ^ k" using power_of_two_nat[of "unat s"] s by auto
  have "k \<le> 12"
  proof (rule ccontr)
    assume "\<not> k \<le> 12"
    then have "(2 :: nat) ^ 13 \<le> 2 ^ k" by (intro power_increasing) auto
    then show False using k s(2) by simp
  qed
  then have "(2 :: nat) ^ k dvd 2 ^ 12" by (rule le_imp_power_dvd)
  then show ?thesis using k by simp
qed

definition gpt_array_sectors :: "gpt_info \<Rightarrow> nat" where
  "gpt_array_sectors t = (unat (gt_count t) * unat (gt_size t) + 511) div 512"

definition gpt_info_ok :: "nat \<Rightarrow> gpt_info \<Rightarrow> bool" where
  "gpt_info_ok total' t \<longleftrightarrow>
     2 + gpt_array_sectors t \<le> unat (gt_first t) \<and> unat (gt_first t) \<le> unat (gt_last t) \<and>
     unat (gt_last t) + gpt_array_sectors t + 2 \<le> total' \<and>
     2 \<le> unat (gt_entries t) \<and> unat (gt_entries t) + gpt_array_sectors t + 1 \<le> total' \<and>
     (unat (gt_entries t) + gpt_array_sectors t \<le> unat (gt_first t) \<or> unat (gt_last t) < unat (gt_entries t)) \<and>
     1 \<le> unat (gt_count t) \<and> unat (gt_count t) * unat (gt_size t) \<le> 131072 \<and>
     unat (gt_size t) dvd 4096 \<and> 128 \<le> unat (gt_size t)"

lemma unat_ucast_64_32: "unat (x :: u64) < 2 ^ 32 \<Longrightarrow> unat (ucast x :: u32) = unat x"
  by (simp add: unsigned_ucast_eq take_bit_nat_eq_self)

lemma unat_sub_u64: "(y :: u64) \<le> x \<Longrightarrow> unat (x - y) = unat x - unat y"
  by (rule unat_sub)

lemma bounds_nat:
  assumes "gpt_bounds_ok h at tot" "68 \<le> tot"
  shows "gpt_info_ok (unat tot) \<lparr>gt_first = ucast (get64 h 40), gt_last = ucast (get64 h 48),
     gt_entries = ucast (get64 h 72), gt_count = get32 h 80, gt_size = get32 h 84\<rparr>"
proof -
  define first where "first = get64 h 40"
  define last' where "last' = get64 h 48"
  define entries where "entries = get64 h 72"
  define count where "count = get32 h 80"
  define stride where "stride = get32 h 84"
  define sectors where "sectors = (count * stride + 511) div 512"
  note d = first_def last'_def entries_def count_def stride_def
  have tot: "unat (tot - 1) = unat tot - 1" "68 \<le> unat tot"
    using assms(2) by (auto simp: word_le_nat_alt unat_sub_u32)
  have u: "unat (ucast (x :: u32) :: u64) = unat x" for x by (rule unat_ucast_32_64)
  have g: "\<not> first < 2" "\<not> first > last'" "\<not> last' \<ge> ucast (tot - 1)" "\<not> entries < 2" "\<not> entries \<ge> ucast (tot - 1)"
    "count \<noteq> 0" "\<not> count > 1024" "\<not> stride < 128" "\<not> stride > 4096" "stride AND (stride - 1) = 0"
    "\<not> count * stride > 131072"
    "\<not> first < 2 + ucast sectors" "\<not> last' + ucast sectors + 2 > ucast tot" "\<not> ucast sectors > ucast (tot - 1) - entries"
    "\<not> (if at = 1 then entries + ucast sectors > first else entries \<le> last')"
    using assms(1) unfolding gpt_bounds_ok_def Let_def d[symmetric] sectors_def[symmetric] by simp_all
  have c: "0 < unat count" "unat count \<le> 1024" "128 \<le> unat stride" "unat stride \<le> 4096"
    using g(6-9) by (auto simp: word_le_nat_alt word_less_nat_alt not_less unat_gt_0)
  have "unat count * unat stride \<le> 1024 * 4096" using c by (intro mult_le_mono)
  then have cs: "unat (count * stride) = unat count * unat stride" by (subst unat_mult_lem[THEN iffD1]) simp_all
  then have b: "unat count * unat stride \<le> 131072" using g(11) by (simp add: word_le_nat_alt word_less_nat_alt not_less)
  have "unat (count * stride + 511) = unat count * unat stride + 511"
    using b cs by (subst unat_add_u32) simp_all
  then have s: "unat sectors = (unat count * unat stride + 511) div 512" by (simp add: sectors_def unat_div)
  then have s2: "unat sectors \<le> 256" using b by simp
  have lt: "unat last' < unat tot - 1" "unat entries < unat tot - 1" "unat first \<le> unat last'" "2 \<le> unat entries"
    using g(2-5) tot u by (simp_all add: word_le_nat_alt word_less_nat_alt not_less not_le)
  have t32: "unat tot < 4294967296" by (rule unat_lt_u32)
  have f: "unat (2 + ucast sectors :: u64) = 2 + unat sectors" using s2 by (subst unat_add_u64) (simp_all add: u)
  have l: "unat (last' + ucast sectors + 2) = unat last' + unat sectors + 2"
  proof -
    have "unat (last' + ucast sectors) = unat last' + unat sectors" using s2 lt t32 by (subst unat_add_u64) (simp_all add: u)
    then show ?thesis using s2 lt t32 by (subst unat_add_u64) simp_all
  qed
  have e: "unat (ucast (tot - 1) - entries) = unat tot - 1 - unat entries"
    using g(5) tot by (subst unat_sub_u64) (auto simp: u)
  have es: "unat (entries + ucast sectors) = unat entries + unat sectors"
    using s2 lt t32 by (subst unat_add_u64) (simp_all add: u)
  have k: "2 + unat sectors \<le> unat first" "unat last' + unat sectors + 2 \<le> unat tot"
    "unat entries + unat sectors + 1 \<le> unat tot"
    "unat entries + unat sectors \<le> unat first \<or> unat last' < unat entries"
    using g(12-15) lt(2) by (auto simp: word_le_nat_alt word_less_nat_alt not_less not_le f l e es u split: if_splits)
  have n: "unat (ucast first :: u32) = unat first" "unat (ucast last' :: u32) = unat last'" "unat (ucast entries :: u32) = unat entries"
    using lt t32 by (auto intro!: unat_ucast_64_32)
  have p: "unat stride dvd 4096" using g(8-10) by (intro stride_power) (auto simp: not_less)
  show ?thesis
    unfolding gpt_info_ok_def gpt_array_sectors_def d[symmetric] using k lt n p b c s by simp
qed

end
