(* ===== verification/Volume_Scan.thy ===== *)
theory Volume_Scan
  imports Gpt_Table
begin

text \<open>
  The search for volumes, step by step: which volumes it can add, whatever is on the disks.
\<close>

section \<open>Where the volumes lie\<close>

definition vol_extent :: "'s vfs_volume \<Rightarrow> int \<times> u32 \<times> u32" where
  "vol_extent v = (vol_disk v, vol_lba_start v, vol_lba_count v)"

definition extents :: "'s volumes \<Rightarrow> (int \<times> u32 \<times> u32) set" where
  "extents vs = vol_extent ` set vs"

text \<open>Between two enumerations every disk has the capacity \<open>cap\<close> it was found with, or no
  sectors at all: a SATA port that was fenced and a USB disk whose route is gone report 0.\<close>

definition dev_ok :: "'s blk \<Rightarrow> (int \<Rightarrow> u32) \<Rightarrow> 's \<Rightarrow> bool" where
  "dev_ok b cap s \<longleftrightarrow> (\<forall>d. blk_sectors b s d = 0 \<or> blk_sectors b s d = cap d)"

text \<open>What the scan relies on in the code it calls: nothing enumerates the disks anew, and a
  mount called with \<open>count\<close> sectors leaves the volumes where they are and may enter one that
  starts at the same sector and has at most \<open>count\<close> sectors. (\<^verbatim>\<open>fat_mount\<close> enters the
  extent and \<^verbatim>\<open>ntfs_mount\<close> the sector number of the boot sector, which each compared
  with \<open>count\<close> before.)\<close>

definition mount_law :: "'s blk \<Rightarrow> (int \<Rightarrow> u32) \<Rightarrow>
    ('s volumes \<times> 's \<Rightarrow> cstring \<Rightarrow> int \<Rightarrow> u32 \<Rightarrow> u32 \<Rightarrow> ('s volumes \<times> 's) \<times> int) \<Rightarrow> bool" where
  "mount_law b cap mount \<longleftrightarrow> (\<forall>vs s name disk lba count vs' s' r.
     mount (vs, s) name disk lba count = ((vs', s'), r) \<and> count \<noteq> 0 \<and> dev_ok b cap s \<longrightarrow> dev_ok b cap s' \<and>
     (\<forall>v\<in>set vs'. vol_extent v \<in> extents vs \<or> (\<exists>w. 0 < w \<and> w \<le> count \<and> vol_extent v = (disk, lba, w))))"

definition scan_law :: "'s blk \<Rightarrow> (int \<Rightarrow> u32) \<Rightarrow> 's fs_drivers \<Rightarrow> bool" where
  "scan_law b cap fd \<longleftrightarrow>
     (\<forall>s disk lba n. dev_ok b cap s \<longrightarrow> dev_ok b cap (fst (disk_read b s disk lba n))) \<and>
     (\<forall>s disk lba n. dev_ok b cap s \<longrightarrow> dev_ok b cap (fst (fd_fat_probe fd s disk lba n))) \<and>
     (\<forall>s disk lba n. dev_ok b cap s \<longrightarrow> dev_ok b cap (fst (fd_ntfs_probe fd s disk lba n))) \<and>
     mount_law b cap (fd_fat_mount fd) \<and> mount_law b cap (fd_ntfs_mount fd)"

text \<open>A step of the scan keeps the disks, and every volume it adds satisfies \<open>P\<close>.\<close>

definition scan_step :: "'s blk \<Rightarrow> (int \<Rightarrow> u32) \<Rightarrow> (int \<times> u32 \<times> u32 \<Rightarrow> bool) \<Rightarrow> 's scan \<Rightarrow> 's scan \<Rightarrow> bool" where
  "scan_step b cap P sc sc' \<longleftrightarrow> (dev_ok b cap (sc_dev sc) \<longrightarrow>
     dev_ok b cap (sc_dev sc') \<and> extents (sc_vols sc') \<subseteq> extents (sc_vols sc) \<union> Collect P)"

lemma scan_step_refl [simp]: "scan_step b cap P sc sc" "scan_step b cap P (sc\<lparr>sc_status := x\<rparr>) sc' = scan_step b cap P sc sc'"
  "scan_step b cap P sc (sc'\<lparr>sc_status := x\<rparr>) = scan_step b cap P sc sc'"
  by (auto simp: scan_step_def)

lemma scan_step_trans: "scan_step b cap P s1 s2 \<Longrightarrow> scan_step b cap P s2 s3 \<Longrightarrow> scan_step b cap P s1 s3"
  unfolding scan_step_def by (auto dest: subsetD)

lemma scan_step_mono: "scan_step b cap P s1 s2 \<Longrightarrow> (\<And>x. P x \<Longrightarrow> Q x) \<Longrightarrow> scan_step b cap Q s1 s2"
  unfolding scan_step_def by (auto dest: subsetD)

lemma scan_step_dev: "scan_step b cap P sc sc' \<Longrightarrow> dev_ok b cap (sc_dev sc) \<Longrightarrow> dev_ok b cap (sc_dev sc')"
  by (simp add: scan_step_def)

lemma mount_lawD:
  assumes "mount_law b cap mount" "mount (vs, s) name disk lba count = ((vs', s'), r)" "count \<noteq> 0" "dev_ok b cap s"
  shows "dev_ok b cap s'" "extents vs' \<subseteq> extents vs \<union> {(d, l, w). d = disk \<and> l = lba \<and> 0 < w \<and> w \<le> count}"
proof -
  note m = assms(1)[unfolded mount_law_def, rule_format, OF conjI[OF assms(2) conjI[OF assms(3,4)]]]
  show "dev_ok b cap s'" using m by blast
  show "extents vs' \<subseteq> extents vs \<union> {(d, l, w). d = disk \<and> l = lba \<and> 0 < w \<and> w \<le> count}"
    using m unfolding extents_def by fastforce
qed

lemma read_at_step:
  assumes "scan_law b cap fd" "read_at b sc disk lba n = (sc', r)"
  shows "scan_step b cap P sc sc'"
proof -
  have "dev_ok b cap (sc_dev sc) \<Longrightarrow> dev_ok b cap (fst (disk_read b (sc_dev sc) disk lba (ucast n)))"
    using assms(1) by (simp add: scan_law_def)
  then show ?thesis using assms(2) by (auto simp: read_at_def scan_step_def split: prod.splits)
qed

definition in_disk :: "(int \<Rightarrow> u32) \<Rightarrow> int \<times> u32 \<times> u32 \<Rightarrow> bool" where
  "in_disk sz e = (case e of (disk, lba, count) \<Rightarrow> 0 < unat count \<and> unat lba + unat count \<le> unat (sz disk))"

definition part_of :: "int \<Rightarrow> u32 \<Rightarrow> u32 \<Rightarrow> int \<times> u32 \<times> u32 \<Rightarrow> bool" where
  "part_of disk lba count e = (case e of (d, l, w) \<Rightarrow> d = disk \<and> l = lba \<and> 0 < w \<and> w \<le> count)"

lemma part_in_disk:
  assumes "dev_ok b cap s" "count \<noteq> 0" "lba < blk_sectors b s disk" "count \<le> blk_sectors b s disk - lba"
    "part_of disk lba count e"
  shows "in_disk cap e"
proof -
  have "cap disk = blk_sectors b s disk"
    using assms(1,3) unfolding dev_ok_def by (metis word_not_simps(1))
  moreover have "unat (blk_sectors b s disk - lba) = unat (blk_sectors b s disk) - unat lba"
    using assms(3) by (intro unat_sub_u32) auto
  ultimately show ?thesis
    using assms(3-5) by (auto simp: in_disk_def part_of_def word_le_nat_alt word_less_nat_alt)
qed

lemma try_mount_step:
  assumes law: "scan_law b cap fd" and t: "try_mount b fd name disk lba count sc = (sc', ok)"
  shows "scan_step b cap (\<lambda>e. part_of disk lba count e \<and> in_disk cap e) sc sc'"
proof (cases "count = 0 \<or> lba \<ge> blk_sectors b (sc_dev sc) disk \<or> count > blk_sectors b (sc_dev sc) disk - lba")
  case True
  then show ?thesis using t by (auto simp: try_mount_def Let_def)
next
  case False
  show ?thesis
    unfolding scan_step_def
  proof
    assume ok: "dev_ok b cap (sc_dev sc)"
    obtain s1 hit where p1: "fd_fat_probe fd (sc_dev sc) disk lba count = (s1, hit)" by fastforce
    obtain s2 hit2 where p2: "fd_ntfs_probe fd s1 disk lba count = (s2, hit2)" by fastforce
    have b1: "dev_ok b cap s1" using law[unfolded scan_law_def] p1 ok by (metis fst_conv)
    have b2: "dev_ok b cap s2" using law[unfolded scan_law_def] p2 b1 by (metis fst_conv)
    obtain vs3 s3 r3 where m1: "fd_fat_mount fd (sc_vols sc, s1) name disk lba count = ((vs3, s3), r3)" by (metis surj_pair)
    obtain vs4 s4 r4 where m2: "fd_ntfs_mount fd (sc_vols sc, s2) name disk lba count = ((vs4, s4), r4)" by (metis surj_pair)
    have l: "mount_law b cap (fd_fat_mount fd)" "mount_law b cap (fd_ntfs_mount fd)" using law by (simp_all add: scan_law_def)
    have "sc' = sc\<lparr>sc_vols := vs3, sc_dev := s3\<rparr> \<or> sc' = sc\<lparr>sc_vols := vs4, sc_dev := s4\<rparr> \<or> sc' = sc\<lparr>sc_dev := s2\<rparr>"
      using t False p1 p2 m1 m2 by (cases hit; cases hit2) (auto simp: try_mount_def Let_def)
    moreover have c: "count \<noteq> 0" using False by simp
    ultimately have r: "dev_ok b cap (sc_dev sc') \<and> extents (sc_vols sc') \<subseteq> extents (sc_vols sc) \<union> Collect (part_of disk lba count)"
      using mount_lawD[OF l(1) m1 c b1] mount_lawD[OF l(2) m2 c b2] b2 by (auto simp: part_of_def)
    have "part_of disk lba count e \<Longrightarrow> in_disk cap e" for e
      using part_in_disk[OF ok, of count lba disk e] False by (simp add: not_le not_less)
    then show "dev_ok b cap (sc_dev sc') \<and> extents (sc_vols sc') \<subseteq>
        extents (sc_vols sc) \<union> {e. part_of disk lba count e \<and> in_disk cap e}"
      using r by auto
  qed
qed

lemma mount_next_step:
  assumes "scan_law b cap fd" "mount_next b fd disk lba count seq mounted sc = (sc', seq', mounted')"
  shows "scan_step b cap (in_disk cap) sc sc'"
proof -
  obtain ok where "try_mount b fd (volume_name disk (seq + 1)) disk lba count sc = (sc', ok)"
    using assms(2) by (auto simp: mount_next_def split: prod.splits)
  from try_mount_step[OF assms(1) this] show ?thesis by (rule scan_step_mono) simp
qed

section \<open>GPT\<close>

lemma gpt_array_crc_step:
  "scan_law b cap fd \<Longrightarrow> gpt_array_crc b disk entries bytes d crc sc = (sc', r) \<Longrightarrow> scan_step b cap P sc sc'"
proof (induction b disk entries bytes d crc sc arbitrary: sc' r rule: gpt_array_crc.induct)
  case (1 b disk entries bytes d crc sc)
  show ?case
  proof (cases "d < bytes")
    case True
    let ?n = "min (bytes - d) 4096"
    obtain sc1 o1 where rd: "read_at b sc disk (entries + of_nat (d div 512)) (of_nat ((?n + 511) div 512)) = (sc1, o1)"
      by fastforce
    have s1: "scan_step b cap P sc sc1" by (rule read_at_step[OF 1(2) rd])
    show ?thesis
    proof (cases o1)
      case None
      then have "sc' = sc1" using 1(3) True rd by (subst (asm) gpt_array_crc.simps) (simp add: Let_def)
      then show ?thesis using s1 by simp
    next
      case (Some bs)
      then have g: "gpt_array_crc b disk entries bytes (d + ?n) (gpt_crc crc (take ?n bs)) sc1 = (sc', r)"
        using 1(3) True rd by (subst (asm) gpt_array_crc.simps) (simp add: Let_def)
      have "scan_step b cap P sc1 sc'" by (rule 1(1)[OF True refl rd[symmetric] Some 1(2) g])
      then show ?thesis by (rule scan_step_trans[OF s1])
    qed
  next
    case False
    then have "sc' = sc" using 1(3) by (subst (asm) gpt_array_crc.simps) simp
    then show ?thesis by simp
  qed
qed

lemma gpt_table_step:
  assumes "scan_law b cap fd" "gpt_table b disk at sc = (sc', r)"
  shows "scan_step b cap P sc sc'"
    "r = Some t \<Longrightarrow> dev_ok b cap (sc_dev sc) \<Longrightarrow> gpt_info_ok (unat (cap disk)) t"
proof -
  let ?tot = "blk_sectors b (sc_dev sc) disk"
  obtain sc1 o1 where rd: "read_at b sc disk at 1 = (sc1, o1)" by fastforce
  note s1 = read_at_step[OF assms(1) rd]
  have "scan_step b cap P sc sc' \<and> (r = Some t \<longrightarrow> gpt_info_ok (unat ?tot) t \<and> \<not> ?tot < 68)"
  proof (cases "?tot < 68")
    case True
    then show ?thesis using assms(2) by (simp add: gpt_table_def)
  next
    case False
    show ?thesis
    proof (cases o1)
      case None
      then show ?thesis using assms(2) False rd s1[of P] by (simp add: gpt_table_def Let_def)
    next
      case (Some h)
      obtain sc2 o2 where c: "gpt_array_crc b disk (ucast (get64 h 72)) (unat (get32 h 80 * get32 h 84)) 0 0xFFFFFFFF sc1 = (sc2, o2)"
        by fastforce
      have s2: "scan_step b cap P sc sc2" by (rule scan_step_trans[OF s1 gpt_array_crc_step[OF assms(1) c]])
      show ?thesis
      proof (cases "gpt_header_ok h at ?tot \<and> gpt_bounds_ok h at ?tot")
        case True
        then have "gpt_info_ok (unat ?tot) \<lparr>gt_first = ucast (get64 h 40), gt_last = ucast (get64 h 48),
            gt_entries = ucast (get64 h 72), gt_count = get32 h 80, gt_size = get32 h 84\<rparr>"
          using False by (intro bounds_nat[of h at]) (auto simp: not_less)
        moreover have "sc' = sc2" "r = None \<or> r = Some \<lparr>gt_first = ucast (get64 h 40), gt_last = ucast (get64 h 48),
            gt_entries = ucast (get64 h 72), gt_count = get32 h 80, gt_size = get32 h 84\<rparr>"
          using assms(2) False rd Some True c by (auto simp: gpt_table_def Let_def split: option.splits if_splits)
        ultimately show ?thesis using s2 False by auto
      next
        case False2: False
        then have "sc' = sc1 \<and> r = None" using assms(2) False rd Some by (auto simp: gpt_table_def Let_def)
        then show ?thesis using s1 by simp
      qed
    qed
  qed
  moreover have "?tot = cap disk" if "dev_ok b cap (sc_dev sc)" "\<not> ?tot < 68"
  proof -
    have "?tot \<noteq> 0" using that(2) by auto
    then show ?thesis using that(1) by (auto simp: dev_ok_def)
  qed
  ultimately show "scan_step b cap P sc sc'"
    "r = Some t \<Longrightarrow> dev_ok b cap (sc_dev sc) \<Longrightarrow> gpt_info_ok (unat (cap disk)) t" by metis+
qed

text \<open>A partition of the table lies inside the usable range.\<close>

definition in_usable :: "int \<Rightarrow> gpt_info \<Rightarrow> int \<times> u32 \<times> u32 \<Rightarrow> bool" where
  "in_usable disk t e = (case e of (d, lba, count) \<Rightarrow>
     d = disk \<and> 0 < unat count \<and> unat (gt_first t) \<le> unat lba \<and> unat lba + unat count \<le> unat (gt_last t) + 1)"

lemma gpt_lock_step: "scan_step b cap P sc (gpt_lock lab disk name sc)"
proof -
  have "extents ((sc_vols sc)[k := (sc_vols sc ! k)\<lparr>vol_writable := w\<rparr>]) \<subseteq> extents (sc_vols sc)" if "k < length (sc_vols sc)" for k w
    using that by (auto simp: extents_def vol_extent_def dest!: set_update_subset_insert[THEN subsetD])
  moreover have "vfs_find (sc_vols sc) name = Some k \<Longrightarrow> k < length (sc_vols sc)" for k
    by (simp add: vfs_find_def first_index_0)
  ultimately show ?thesis by (auto simp: gpt_lock_def scan_step_def Let_def split: option.splits)
qed

lemma gpt_slot_step:
  assumes law: "scan_law b cap fd" and t2: "2 \<le> unat (gt_first t)" and s: "gpt_slot b fd lab disk t i p sc = (sc', ok)"
  shows "scan_step b cap (\<lambda>e. in_usable disk t e \<and> in_disk cap e) sc sc'"
proof -
  let ?st = "get64 p 32" and ?en = "get64 p 40" and ?name = "volume_name disk (int i + 1)"
  let ?p = "part_of disk (ucast ?st) (ucast (?en - ?st + 1))"
  obtain sc1 ok1 where t: "try_mount b fd ?name disk (ucast ?st) (ucast (?en - ?st + 1)) sc = (sc1, ok1)" by fastforce
  show ?thesis
  proof (cases "list_all (\<lambda>x. x = 0) (take 16 p) \<or> ?st < ucast (gt_first t) \<or> ?st > ?en \<or> ?en > ucast (gt_last t)")
    case True
    then have "sc' = sc" using s unfolding gpt_slot_def Let_def by (cases "list_all (\<lambda>x. x = 0) (take 16 p)") simp_all
    then show ?thesis by simp
  next
    case False
    have u: "unat (ucast (x :: u32) :: u64) = unat x" for x by (rule unat_ucast_32_64)
    have n: "unat (gt_first t) \<le> unat ?st" "unat ?st \<le> unat ?en" "unat ?en \<le> unat (gt_last t)"
      using False by (auto simp: word_le_nat_alt word_less_nat_alt not_less u)
    have l: "unat (gt_last t) < 4294967296" by (rule unat_lt_u32)
    have m: "unat (?en - ?st) = unat ?en - unat ?st" using False by (intro unat_sub_u64) (auto simp: not_less)
    then have "unat (?en - ?st + 1) = unat ?en - unat ?st + 1" using n l by (subst unat_add_u64) simp_all
    moreover have "unat (ucast ?st :: u32) = unat ?st" using n l by (intro unat_ucast_64_32) simp
    moreover have "unat (ucast (?en - ?st + 1) :: u32) = unat (?en - ?st + 1)"
      using n l m t2 by (intro unat_ucast_64_32) (subst unat_add_u64, simp_all)
    ultimately have e: "?p e \<Longrightarrow> in_usable disk t e" for e
      using n by (auto simp: in_usable_def part_of_def word_le_nat_alt word_less_nat_alt)
    have "scan_step b cap (\<lambda>e. ?p e \<and> in_disk cap e) sc sc1" by (rule try_mount_step[OF law t])
    then have "scan_step b cap (\<lambda>e. in_usable disk t e \<and> in_disk cap e) sc sc1"
      by (rule scan_step_mono) (use e in auto)
    moreover have "sc' = sc1 \<or> sc' = gpt_lock lab disk ?name sc1" using s False t by (auto simp: gpt_slot_def Let_def split: if_splits)
    ultimately show ?thesis using scan_step_trans gpt_lock_step by metis
  qed
qed

lemma gpt_fetch_step:
  assumes "scan_law b cap fd" "gpt_fetch b disk t off c sc = (sc', r)"
  shows "scan_step b cap P sc sc'"
  using assms(2) read_at_step[OF assms(1)] by (auto simp: gpt_fetch_def Let_def split: if_splits prod.splits option.splits)

lemma gpt_slots_step:
  assumes law: "scan_law b cap fd" and t2: "2 \<le> unat (gt_first t)"
  shows "gpt_slots b fd lab disk t slots c m sc = (sc', m') \<Longrightarrow>
    scan_step b cap (\<lambda>e. in_usable disk t e \<and> in_disk cap e) sc sc'"
proof (induction slots arbitrary: c m sc)
  case (Cons i slots)
  let ?P = "\<lambda>e. in_usable disk t e \<and> in_disk cap e"
  obtain sc1 o1 where f: "gpt_fetch b disk t (of_nat i * gt_size t) c sc = (sc1, o1)" by fastforce
  note s1 = gpt_fetch_step[OF law f]
  show ?case
  proof (cases o1)
    case None
    then show ?thesis using Cons.prems f s1 by auto
  next
    case (Some c')
    obtain sc2 ok where g: "gpt_slot b fd lab disk t i (drop (unat (of_nat i * gt_size t mod 4096)) (gc_sector c')) sc1 = (sc2, ok)"
      by fastforce
    have s2: "scan_step b cap ?P sc1 sc2" by (rule gpt_slot_step[OF law t2 g])
    have "scan_step b cap ?P sc2 sc'"
      by (rule Cons.IH[of c' "if ok then m + 1 else m"]) (use Cons.prems f Some g in simp_all)
    then show ?thesis using scan_step_trans[OF scan_step_trans[OF s1 s2]] by blast
  qed
qed simp

definition gpt_kept :: "int \<Rightarrow> nat \<Rightarrow> int \<times> u32 \<times> u32 \<Rightarrow> bool" where
  "gpt_kept disk total' e \<longleftrightarrow> (\<exists>t. gpt_info_ok total' t \<and> in_usable disk t e)"

lemma scan_gpt_step:
  assumes law: "scan_law b cap fd" and s: "scan_gpt b fd lab disk sc = (sc', n)"
  shows "scan_step b cap (\<lambda>e. gpt_kept disk (unat (cap disk)) e \<and> in_disk cap e) sc sc'"
proof -
  let ?S = "blk_sectors b (sc_dev sc)"
  let ?P = "\<lambda>e. gpt_kept disk (unat (cap disk)) e \<and> in_disk cap e"
  define sc0 where "sc0 = sc\<lparr>sc_status := Gpt_Invalid\<rparr>"
  have d0: "sc_dev sc0 = sc_dev sc" "\<And>x. scan_step b cap ?P sc0 x = scan_step b cap ?P sc x" by (simp_all add: sc0_def)
  obtain sc1 r1 where g1: "gpt_table b disk 1 sc0 = (sc1, r1)" by fastforce
  obtain sc2 r2 where g2: "gpt_table b disk (?S disk - 1) sc1 = (sc2, r2)" by fastforce
  note s1 = gpt_table_step[OF law g1] and s2 = gpt_table_step[OF law g2]
  have cont: "scan_step b cap ?P sc sc'" if "scan_step b cap ?P sc0 x"
    "dev_ok b cap (sc_dev sc) \<Longrightarrow> gpt_info_ok (unat (cap disk)) t"
    "gpt_slots b fd lab disk t slots c 0 (x\<lparr>sc_status := Gpt_No_Volume\<rparr>) = (sc', n)" for x t c slots
  proof (cases "dev_ok b cap (sc_dev sc)")
    case True
    then have t: "gpt_info_ok (unat (cap disk)) t" by (rule that(2))
    then have t2: "2 \<le> unat (gt_first t)" by (auto simp: gpt_info_ok_def)
    have "scan_step b cap (\<lambda>e. in_usable disk t e \<and> in_disk cap e) x sc'"
      using gpt_slots_step[OF law t2 that(3)] by simp
    then have "scan_step b cap ?P x sc'" by (rule scan_step_mono) (use t in \<open>auto simp: gpt_kept_def\<close>)
    then show ?thesis using scan_step_trans[OF that(1)] by (simp add: d0)
  qed (simp add: scan_step_def)
  show ?thesis
  proof (cases "?S disk < 68")
    case True
    then show ?thesis using s by (auto simp: scan_gpt_def Let_def)
  next
    case False
    then have run: "(case (case (sc1, r1) of (sc, None) \<Rightarrow> gpt_table b disk (?S disk - 1) sc | r \<Rightarrow> r) of
        (sc, None) \<Rightarrow> (sc, 0)
      | (sc, Some t) \<Rightarrow>
          gpt_slots b fd lab disk t [0..<unat (gt_count t)] \<lparr>gc_loaded = 0xFFFFFFFF, gc_sector = replicate 4096 0\<rparr> 0
            (sc\<lparr>sc_status := Gpt_No_Volume\<rparr>)) = (sc', n)"
      using s g1 by (simp add: scan_gpt_def Let_def sc0_def[symmetric] d0)
    show ?thesis
    proof (cases r1)
      case (Some t)
      then show ?thesis using run cont[OF s1(1)] s1(2) by (auto simp: d0)
    next
      case r1: None
      have s12: "scan_step b cap ?P sc0 sc2" by (rule scan_step_trans[OF s1(1) s2(1)])
      show ?thesis
      proof (cases r2)
        case (Some t)
        then show ?thesis using run r1 g2 cont[OF s12] s2(2) scan_step_dev[OF s1(1)[of ?P]] by (auto simp: d0)
      next
        case None
        then show ?thesis using run r1 g2 s12 by (simp add: d0)
      qed
    qed
  qed
qed

section \<open>Every disk\<close>

lemma ebr_chain_step:
  assumes law: "scan_law b cap fd"
  shows "ebr_chain g b fd disk base nxt seq m sc = (sc', seq', m') \<Longrightarrow>
    scan_step b cap (in_disk cap) sc sc'"
proof (induction g arbitrary: nxt seq m sc)
  case (Suc g)
  obtain sc1 o1 where rd: "read_at b sc disk nxt 1 = (sc1, o1)" by fastforce
  note s1 = read_at_step[OF law rd]
  show ?case
  proof (cases "nxt = 0 \<or> o1 = None \<or> \<not> has_signature (the o1)")
    case True
    then have "sc' = sc \<or> sc' = sc1" using Suc.prems rd by (auto split: option.splits if_splits)
    then show ?thesis using s1 by auto
  next
    case False
    then obtain ebr where e: "o1 = Some ebr" "has_signature ebr" "nxt \<noteq> 0" by auto
    let ?l0 = "mbr_entry ebr 0"
    obtain sc2 q2 m2 where t: "(if mp_sectors ?l0 \<noteq> 0
        then mount_next b fd disk (nxt + mp_lba_start ?l0) (mp_sectors ?l0) seq m sc1 else (sc1, seq, m)) = (sc2, q2, m2)"
      by (metis prod_cases3)
    have s2: "scan_step b cap (in_disk cap) sc1 sc2"
      using t mount_next_step[OF law] by (auto split: if_splits)
    have "scan_step b cap (in_disk cap) sc2 sc'"
      by (rule Suc.IH) (use Suc.prems rd e t in simp_all)
    then show ?thesis using scan_step_trans[OF scan_step_trans[OF s1 s2]] by blast
  qed
qed simp

lemma mbr_slots_step:
  assumes law: "scan_law b cap fd"
  shows "mbr_slots b fd disk ps seq m sc = (sc', seq', m') \<Longrightarrow>
    scan_step b cap (in_disk cap) sc sc'"
proof (induction ps arbitrary: seq m sc)
  case (Cons p ps)
  consider (skip) "mp_sectors p = 0 \<or> \<not> type_interesting (mp_type p)"
    | (ext) "\<not> (mp_sectors p = 0 \<or> \<not> type_interesting (mp_type p))" "is_extended (mp_type p)"
    | (prim) "\<not> (mp_sectors p = 0 \<or> \<not> type_interesting (mp_type p))" "\<not> is_extended (mp_type p)" by blast
  then show ?case
  proof cases
    case skip
    then show ?thesis using Cons by simp
  next
    case ext
    obtain sc1 q1 m1 where e: "ebr_chain 16 b fd disk (mp_lba_start p) (mp_lba_start p) seq m sc = (sc1, q1, m1)"
      by (metis prod_cases3)
    have s1: "scan_step b cap (in_disk cap) sc sc1" by (rule ebr_chain_step[OF law e])
    have "scan_step b cap (in_disk cap) sc1 sc'"
      by (rule Cons.IH) (use Cons.prems ext e in simp_all)
    then show ?thesis by (rule scan_step_trans[OF s1])
  next
    case prim
    obtain sc1 q1 m1 where e: "mount_next b fd disk (mp_lba_start p) (mp_sectors p) seq m sc = (sc1, q1, m1)"
      by (metis prod_cases3)
    have s1: "scan_step b cap (in_disk cap) sc sc1" by (rule mount_next_step[OF law e])
    have "scan_step b cap (in_disk cap) sc1 sc'"
      by (rule Cons.IH) (use Cons.prems prim e in simp_all)
    then show ?thesis by (rule scan_step_trans[OF s1])
  qed
qed simp

lemma scan_disk_step:
  assumes law: "scan_law b cap fd" and s: "scan_disk b fd lab disk sc = (sc', n)"
  shows "scan_step b cap (in_disk cap) sc sc'"
proof -
  obtain sc1 o1 where rd: "read_at b sc disk 0 1 = (sc1, o1)" by fastforce
  note s1 = read_at_step[OF law rd]
  show ?thesis
  proof (cases o1)
    case None
    then show ?thesis using s rd s1 by (simp add: scan_disk_def)
  next
    case (Some sec)
    let ?parts = "map (mbr_entry sec) [0..<4]"
    show ?thesis
    proof (cases "has_signature sec \<and> list_ex gpt_protective ?parts")
      case True
      then have "scan_gpt b fd lab disk sc1 = (sc', n)" using s rd Some by (simp add: scan_disk_def Let_def)
      from scan_gpt_step[OF law this] have "scan_step b cap (in_disk cap) sc1 sc'" by (rule scan_step_mono) simp
      then show ?thesis by (rule scan_step_trans[OF s1])
    next
      case False
      obtain sc2 q2 m2 where m: "(if has_signature sec then mbr_slots b fd disk ?parts 0 0 sc1 else (sc1, 0, 0)) = (sc2, q2, m2)"
        by (metis prod_cases3)
      have s2: "scan_step b cap (in_disk cap) sc1 sc2" using m mbr_slots_step[OF law] by (auto split: if_splits)
      obtain sc3 ok where t: "try_mount b fd (volume_name disk 0) disk 0 (blk_sectors b (sc_dev sc2) disk) sc2 = (sc3, ok)"
        by fastforce
      have s3: "scan_step b cap (in_disk cap) sc2 sc3"
        using try_mount_step[OF law t] by (rule scan_step_mono) simp
      have "sc' = sc2 \<or> sc' = sc3" using s rd Some False m t by (auto simp: scan_disk_def Let_def split: if_splits)
      then show ?thesis using scan_step_trans[OF s1 s2] scan_step_trans[OF scan_step_trans[OF s1 s2] s3] by auto
    qed
  qed
qed

lemma scan_disks_step:
  assumes law: "scan_law b cap fd"
  shows "scan_disks b fd lab k d n sc = (sc', n') \<Longrightarrow> scan_step b cap (in_disk cap) sc sc'"
proof (induction k arbitrary: d n sc)
  case (Suc k)
  obtain sc1 m where e: "scan_disk b fd lab (int d) sc = (sc1, m)" by fastforce
  have s1: "scan_step b cap (in_disk cap) sc sc1" by (rule scan_disk_step[OF law e])
  show ?case
  proof (cases "int d < blk_count b (sc_dev sc) \<and> blk_sectors b (sc_dev sc) (int d) \<noteq> 0")
    case True
    then have "scan_step b cap (in_disk cap) sc1 sc'"
      using Suc.prems e Suc.IH by simp
    then show ?thesis by (rule scan_step_trans[OF s1])
  next
    case False
    then show ?thesis using Suc by (auto split: if_splits)
  qed
qed simp

section \<open>Properties\<close>

text \<open>Whatever the partition tables of the disks say, the search only mounts volumes that
  are not empty and lie inside their disk.\<close>

theorem vfs_autoscan_in_range:
  assumes "scan_law b cap fd" "dev_ok b cap (fd_rescan fd s)" "vfs_autoscan b fd lab vs s = (sc, n)" "v \<in> set (sc_vols sc)"
  shows "vol_extent v \<in> vol_extent ` set (fd_native fd vs (fd_rescan fd s)) \<or>
    0 < unat (vol_lba_count v) \<and>
    unat (vol_lba_start v) + unat (vol_lba_count v) \<le> unat (cap (vol_disk v))"
proof -
  have "scan_step b cap (in_disk cap)
      \<lparr>sc_vols = fd_native fd vs (fd_rescan fd s), sc_dev = fd_rescan fd s, sc_status = Scan_Silent\<rparr> sc"
    using assms(3) by (intro scan_disks_step[OF assms(1)]) (simp add: vfs_autoscan_def Let_def)
  then have "extents (sc_vols sc) \<subseteq> extents (fd_native fd vs (fd_rescan fd s)) \<union> Collect (in_disk cap)"
    using assms(2) by (simp add: scan_step_def)
  moreover have "vol_extent v \<in> extents (sc_vols sc)" using assms(4) by (simp add: extents_def)
  ultimately show ?thesis by (auto simp: in_disk_def extents_def vol_extent_def)
qed

text \<open>A blank disk of 1000 sectors, and a driver that takes all but one sector of what it is
  offered, as a file system may be smaller than its partition.\<close>

definition lab_driver :: "unit blk_driver" where
  "lab_driver = \<lparr>bd_count = (\<lambda>_. 1), bd_sectors = (\<lambda>_ i. if i = 0 then 1000 else 0), bd_read = (\<lambda>s _ _ _. (s, Some (replicate 512 0))),
     bd_write = (\<lambda>s _ _ _ _. (s, False)), bd_sync = (\<lambda>s _. (s, True)), bd_generation = (\<lambda>_ _. 0),
     bd_authorize = (\<lambda>s _ _ _ _. (s, False)), bd_revoke = (\<lambda>s _. s)\<rparr>"

definition lab_blk :: "unit blk" where
  "lab_blk = \<lparr>bk_ata = lab_driver, bk_usb = lab_driver\<lparr>bd_count := (\<lambda>_. 0)\<rparr>, bk_ahci = lab_driver\<lparr>bd_count := (\<lambda>_. 0)\<rparr>\<rparr>"

definition lab_mount :: "unit volumes \<times> unit \<Rightarrow> cstring \<Rightarrow> int \<Rightarrow> u32 \<Rightarrow> u32 \<Rightarrow> (unit volumes \<times> unit) \<times> int" where
  "lab_mount vs_s name disk lba count =
     (case vfs_mount (fst vs_s) name FS_FAT16 None 0 disk lba (if 1 < count then count - 1 else count) None False of (vs, r) \<Rightarrow> ((vs, ()), r))"

definition lab_drivers :: "unit fs_drivers" where
  "lab_drivers = \<lparr>fd_fat_probe = (\<lambda>s _ _ _. (s, True)), fd_fat_mount = lab_mount, fd_ntfs_probe = (\<lambda>s _ _ _. (s, False)),
     fd_ntfs_mount = lab_mount, fd_rescan = (\<lambda>s. s), fd_native = (\<lambda>vs _. vs)\<rparr>"

lemma vfs_mount_extents:
  "extents (fst (vfs_mount vs name kind ops fs disk lba count label w)) \<subseteq>
     extents vs \<union> {(disk, lba, count)}"
  by (auto simp: vfs_mount_def extents_def vol_extent_def split: option.split dest!: set_update_subset_insert[THEN subsetD])

lemma lab_mount_law: "mount_law b cap lab_mount"
  unfolding mount_law_def
proof (intro allI impI conjI)
  fix vs s name disk lba count vs' s' r
  assume a: "lab_mount (vs, s) name disk lba count = ((vs', s'), r) \<and> count \<noteq> 0 \<and> dev_ok b cap s"
  show "dev_ok b cap s'" using a by (simp add: dev_ok_def)
  let ?w = "if 1 < count then count - 1 else count"
  have m: "vs' = fst (vfs_mount vs name FS_FAT16 None 0 disk lba ?w None False)"
    using a by (auto simp: lab_mount_def split: prod.splits)
  have w: "0 < ?w" "?w \<le> count" using a by (auto simp: word_gt_0 word_sub_le)
  show "\<forall>v\<in>set vs'. vol_extent v \<in> extents vs \<or> (\<exists>w. 0 < w \<and> w \<le> count \<and> vol_extent v = (disk, lba, w))"
  proof
    fix v assume "v \<in> set vs'"
    then have "vol_extent v \<in> extents vs'" by (simp add: extents_def)
    then have "vol_extent v \<in> extents vs \<or> vol_extent v = (disk, lba, ?w)" using vfs_mount_extents unfolding m by blast
    then show "vol_extent v \<in> extents vs \<or> (\<exists>w. 0 < w \<and> w \<le> count \<and> vol_extent v = (disk, lba, w))" using w by blast
  qed
qed

lemma lab_law: "scan_law b cap lab_drivers"
  by (simp add: scan_law_def lab_mount_law dev_ok_def) (simp add: lab_drivers_def lab_mount_law)

lemma vfs_autoscan_in_range_witness:
  "\<exists>sc. vfs_autoscan lab_blk lab_drivers False (replicate 8 no_volume) () = (sc, 1) \<and>
     cstr (vol_name (sc_vols sc ! 0)) = ascii ''hda'' \<and>
     0 < unat (vol_lba_count (sc_vols sc ! 0)) \<and> unat (vol_lba_count (sc_vols sc ! 0)) \<le> 1000"
proof -
  let ?r = "vfs_autoscan lab_blk lab_drivers False (replicate 8 no_volume) ()"
  have n: "snd ?r = 1" by code_simp
  obtain sc where r: "?r = (sc, 1)" using n by (metis prod.collapse)
  have v: "vol_lba_count (sc_vols (fst ?r) ! 0) = 999" "length (sc_vols (fst ?r)) = 8" "vol_disk (sc_vols (fst ?r) ! 0) = 0"
    "vol_lba_start (sc_vols (fst ?r) ! 0) = 0" "cstr (vol_name (sc_vols (fst ?r) ! 0)) = ascii ''hda''"
    by code_simp+
  then have m: "sc_vols sc ! 0 \<in> set (sc_vols sc)" using r by simp
  have "vol_extent (sc_vols sc ! 0) \<notin> vol_extent ` set (fd_native lab_drivers (replicate 8 no_volume) (fd_rescan lab_drivers ()))"
    using v r by (auto simp: lab_drivers_def vol_extent_def no_volume_def)
  moreover have "dev_ok lab_blk (blk_sectors lab_blk ()) (fd_rescan lab_drivers ())" by (simp add: dev_ok_def)
  ultimately show ?thesis using vfs_autoscan_in_range[OF lab_law _ r m, of "blk_sectors lab_blk ()"] v r
    by (auto simp: blk_sectors_def lab_blk_def lab_driver_def blk_is_ahci_def blk_is_usb_def)
qed

section \<open>A disk with a GPT\<close>

text \<open>A header with its checksum filled in, and what the rest of it is.\<close>

definition gpt_seal :: "u8 list \<Rightarrow> u8 list" where
  "gpt_seal h = take 16 h @ bytes32 (gpt_crc 0xFFFFFFFF (take 92 h) XOR 0xFFFFFFFF) @ drop 20 h"

lemma gpt_seal_fields:
  assumes "length h = 512"
  shows "length (gpt_seal h) = 512" "take 8 (gpt_seal h) = take 8 h"
    "i + 4 \<le> 16 \<Longrightarrow> get32 (gpt_seal h) i = get32 h i"
    "20 \<le> i \<Longrightarrow> i + 4 \<le> 512 \<Longrightarrow> get32 (gpt_seal h) i = get32 h i"
    "20 \<le> i \<Longrightarrow> i + 8 \<le> 512 \<Longrightarrow> get64 (gpt_seal h) i = get64 h i"
    "get32 (gpt_seal h) 16 = gpt_crc 0xFFFFFFFF (take 92 h) XOR 0xFFFFFFFF"
proof -
  show "length (gpt_seal h) = 512" "take 8 (gpt_seal h) = take 8 h" using assms by (simp_all add: gpt_seal_def)
  show "i + 4 \<le> 16 \<Longrightarrow> get32 (gpt_seal h) i = get32 h i"
    using assms by (simp add: gpt_seal_def get32_prefix get32_def nth_append)
  have post: "get32 (gpt_seal h) i = get32 h i" if "20 \<le> i" "i + 4 \<le> 512" for i
  proof -
    have "get32 ((take 16 h @ bytes32 c) @ drop 20 h) i =
        get32 (drop 20 h) (i - length (take 16 h @ bytes32 c))" for c
      by (rule get32_append) (use that assms in simp)
    then have "get32 (gpt_seal h) i = get32 (drop 20 h) (i - 20)" using assms by (simp add: gpt_seal_def)
    then show ?thesis using that assms by (simp add: get32_drop)
  qed
  then show "20 \<le> i \<Longrightarrow> i + 4 \<le> 512 \<Longrightarrow> get32 (gpt_seal h) i = get32 h i" .
  show "20 \<le> i \<Longrightarrow> i + 8 \<le> 512 \<Longrightarrow> get64 (gpt_seal h) i = get64 h i"
    using post[of i] post[of "i + 4"] by (simp add: get64_def)
  show "get32 (gpt_seal h) 16 = gpt_crc 0xFFFFFFFF (take 92 h) XOR 0xFFFFFFFF"
    using assms by (simp add: gpt_seal_def)
qed

lemma gpt_seal_ok:
  assumes "length h = 512" "take 4 (drop 16 h) = [0, 0, 0, 0]" "take 8 h = efi_part" "get32 h 8 = 0x10000"
    "get32 h 12 = 92" "get32 h 20 = 0" "get64 h 24 = ucast at" "get64 h 32 = (if at = 1 then ucast (tot - 1) else 1)"
  shows "gpt_header_ok (gpt_seal h) at tot"
proof -
  note f = gpt_seal_fields[OF assms(1)]
  have "h = take 16 h @ take 4 (drop 16 h) @ drop 20 h" using peel_bytes[of 4 16 h] by simp
  then have z: "take 16 (gpt_seal h) @ [0, 0, 0, 0] @ drop 20 (gpt_seal h) = h"
    using assms(1,2) by (simp add: gpt_seal_def)
  show ?thesis
    unfolding gpt_header_ok_def Let_def z f(2,6) using f(3)[of 8] f(3)[of 12] f(4)[of 20] f(5)[of 24] f(5)[of 32] assms by simp
qed

















lemma gpt_crc_update: "i < length l \<Longrightarrow> x \<noteq> l ! i \<Longrightarrow> gpt_crc c (l[i := x]) \<noteq> gpt_crc c l"
  using gpt_crc_detects[of x "l ! i" c "take i l" "drop (Suc i) l"]
  by (simp add: upd_conv_take_nth_drop id_take_nth_drop[symmetric])

text \<open>Damage to any one byte of a GPT header that its checksum covers, or of the checksum
  itself, is noticed; the size field decides what is covered and is left out.\<close>

theorem gpt_header_damage:
  assumes "length h = 512" "gpt_header_ok h at tot" "x \<noteq> h ! i"
    and "i < unat (get32 h 12)" "i < 12 \<or> 16 \<le> i"
  shows "\<not> gpt_header_ok (h[i := x]) at tot"
proof
  assume bad: "gpt_header_ok (h[i := x]) at tot"
  let ?z = "\<lambda>g :: u8 list. take 16 g @ [0, 0, 0, 0] @ drop 20 g" and ?n = "unat (get32 h 12)"
  have n: "?n \<le> 512" using assms(2) by (auto simp: gpt_header_ok_def Let_def word_le_nat_alt)
  then have i: "i < 512" using assms(4) by simp
  have sz: "get32 (h[i := x]) 12 = get32 h 12" using assms(5) by (auto simp: get32_def)
  have ok: "gpt_crc 0xFFFFFFFF (take ?n (?z h)) XOR 0xFFFFFFFF = get32 h 16"
    "gpt_crc 0xFFFFFFFF (take ?n (?z (h[i := x]))) XOR 0xFFFFFFFF = get32 (h[i := x]) 16"
    using assms(2) bad unfolding gpt_header_ok_def Let_def sz by simp_all
  show False
  proof (cases "16 \<le> i \<and> i < 20")
    case True
    have "?z (h[i := x]) = ?z h" using True assms(1) by (intro nth_equalityI) (auto simp: nth_append nth_Cons')
    then have "bytes32 (get32 (h[i := x]) 16) = bytes32 (get32 h 16)" using ok by simp
    then have "take 4 (drop 16 (h[i := x])) = take 4 (drop 16 h)" using assms(1) by (simp add: bytes32_get32)
    then have "take 4 (drop 16 (h[i := x])) ! (i - 16) = take 4 (drop 16 h) ! (i - 16)" by (rule arg_cong)
    moreover have "take 4 (drop 16 g) ! (i - 16) = g ! i" if "length g = 512" for g :: "u8 list"
    proof -
      have "take 4 (drop 16 g) ! (i - 16) = g ! (16 + (i - 16))" using True that by (subst nth_take) auto
      then show ?thesis using True by (simp add: le_add_diff_inverse)
    qed
    ultimately have "h[i := x] ! i = h ! i" using assms(1) by (metis length_list_update)
    then show False using True assms(1,3) by simp
  next
    case False
    then have o': "i < 12 \<or> 20 \<le> i" using assms(5) by auto
    then have "get32 (h[i := x]) 16 = get32 h 16" by (auto simp: get32_def)
    then have same: "gpt_crc 0xFFFFFFFF (take ?n (?z (h[i := x]))) = gpt_crc 0xFFFFFFFF (take ?n (?z h))"
      using ok xor_cancel(1) by metis
    have z: "?z (h[i := x]) = (?z h)[i := x]" "?z h ! i = h ! i" "length (?z h) = 512"
      using o' i assms(1) by (auto intro!: nth_equalityI simp: nth_append nth_list_update nth_Cons')
    let ?t = "take ?n (?z h)"
    have "take ?n y ! i = y ! i" for y :: "u8 list" using assms(4) by simp
    then have t: "i < length ?t" "?t ! i = h ! i" using z(2,3) assms(4) n by (simp_all only: length_take z(3) min_def) auto
    have "gpt_crc 0xFFFFFFFF (?t[i := x]) = gpt_crc 0xFFFFFFFF ?t" by (rule same[unfolded z(1), unfolded take_update_swap])
    moreover have "gpt_crc 0xFFFFFFFF (?t[i := x]) \<noteq> gpt_crc 0xFFFFFFFF ?t"
      by (rule gpt_crc_update[OF t(1)]) (use t(2) assms(3) in metis)
    ultimately show False by blast
  qed
qed

definition lab_body :: "u8 list" where
  "lab_body = efi_part @ bytes32 0x10000 @ bytes32 92 @ replicate 8 0 @ [1, 0, 0, 0, 0, 0, 0, 0] @
     [0xE7, 3, 0, 0, 0, 0, 0, 0] @ replicate 472 0"

definition lab_header :: "u8 list" where
  "lab_header = gpt_seal lab_body"

lemma lab_header_ok: "length lab_header = 512" "gpt_header_ok lab_header 1 1000" "get32 lab_header 12 = 92"
proof -
  have b: "length lab_body = 512" "take 4 (drop 16 lab_body) = [0, 0, 0, 0]" "take 8 lab_body = efi_part"
    "get32 lab_body 8 = 0x10000" "get32 lab_body 12 = 92" "get32 lab_body 20 = 0" "get64 lab_body 24 = 1" "get64 lab_body 32 = 999"
    by code_simp+
  show "length lab_header = 512" "get32 lab_header 12 = 92"
    using gpt_seal_fields[OF b(1)] b(5) by (simp_all add: lab_header_def)
  show "gpt_header_ok lab_header 1 1000"
    unfolding lab_header_def by (rule gpt_seal_ok) (simp_all add: b)
qed

lemma gpt_header_damage_witness:
  "gpt_header_ok lab_header 1 1000 \<and> \<not> gpt_header_ok (lab_header[40 := 7]) 1 1000"
proof -
  have "lab_header ! 40 = lab_body ! 40"
    by (simp add: lab_header_def gpt_seal_def nth_append lab_body_def efi_part_def ascii_def)
  also have "\<dots> = 0" by code_simp
  finally have c: "7 \<noteq> lab_header ! 40" by simp
  show ?thesis using gpt_header_damage[OF lab_header_ok(1,2) c] lab_header_ok(2,3) by simp
qed

end
