(* ===== verification/Sched.thy ===== *)
theory Sched
  imports Heap_Inv Clock
begin

text \<open>
  The scheduler, \<^verbatim>\<open>kernel/sched.c\<close>: a ring of tasks linked by their \<^verbatim>\<open>next\<close> pointers, whose
  records and stacks come from the kernel heap. \<open>H\<close> is the size of a heap header. Interrupts are
  off inside every operation, so an operation is one step. \<open>None\<close> is a call of the heap that does
  not return; it is shown not to happen.
\<close>

datatype task_state = TASK_READY | TASK_SLEEPING | TASK_DEAD

record task =
  tk_esp :: u32
  tk_id :: u32
  tk_name :: "u8 list"
  tk_state :: task_state
  tk_wake :: u64
  tk_stack :: nat
  tk_switches :: u32
  tk_next :: nat

record sched =
  sd_heap :: heap
  sd_task :: "nat \<Rightarrow> task"
  sd_word :: "nat \<Rightarrow> u32"
  sd_current :: nat
  sd_tasks :: nat
  sd_next_id :: u32
  sd_ready :: bool

text \<open>\<^verbatim>\<open>sizeof(task_t)\<close> on i386.\<close>

definition TASK_SIZE :: u32 where "TASK_SIZE = 48"
definition STACK_SIZE :: u32 where "STACK_SIZE = 8192"

definition task_upd :: "nat \<Rightarrow> (task \<Rightarrow> task) \<Rightarrow> sched \<Rightarrow> sched" where
  "task_upd t f st = st\<lparr>sd_task := (sd_task st)(t := f (sd_task st t))\<rparr>"

section \<open>Creation\<close>

definition new_task :: "cstring \<Rightarrow> u32 \<Rightarrow> task" where
  "new_task name id' = \<lparr>tk_esp = 0, tk_id = id', tk_name = strfield 16 name, tk_state = TASK_READY, tk_wake = 0,
     tk_stack = 0, tk_switches = 0, tk_next = 0\<rparr>"

definition kernel_name :: cstring where
  "kernel_name = [0x6B, 0x65, 0x72, 0x6E, 0x65, 0x6C]"

definition sched_init :: "u32 \<Rightarrow> sched \<Rightarrow> sched option" where
  "sched_init H st =
     (case kmalloc H TASK_SIZE (sd_heap st) of
        None \<Rightarrow> None
      | Some (h, t) \<Rightarrow>
          if t = 0 then None
          else Some (st\<lparr>sd_heap := h, sd_task := (sd_task st)(t := (new_task kernel_name (sd_next_id st))\<lparr>tk_next := t\<rparr>),
                 sd_next_id := sd_next_id st + 1, sd_tasks := t, sd_current := t, sd_ready := True\<rparr>))"

text \<open>The first frame of a task: what \<^verbatim>\<open>context_switch\<close> pops, from the top of the stack down.\<close>

fun push_words :: "nat \<Rightarrow> u32 list \<Rightarrow> (nat \<Rightarrow> u32) \<Rightarrow> nat \<times> (nat \<Rightarrow> u32)" where
  "push_words sp [] m = (sp, m)"
| "push_words sp (w # ws) m = push_words (sp - 4) ws (m(sp - 4 := w))"

definition first_frame :: "u32 \<Rightarrow> u32 \<Rightarrow> u32 list" where
  "first_frame entry exit = [exit, entry, 0, 0, 0, 0, 0x202]"

definition task_create :: "u32 \<Rightarrow> u32 \<Rightarrow> cstring \<Rightarrow> u32 \<Rightarrow> sched \<Rightarrow> (sched \<times> nat) option" where
  "task_create H exit name entry st =
     (if entry = 0 then Some (st, 0)
      else if sd_current st = 0 then Some (st, 0)
      else case kmalloc H TASK_SIZE (sd_heap st) of
        None \<Rightarrow> None
      | Some (h, t) \<Rightarrow>
          let st = st\<lparr>sd_heap := h\<rparr> in
          if t = 0 then Some (st, 0)
          else
            let st = st\<lparr>sd_task := (sd_task st)(t := new_task name (sd_next_id st)), sd_next_id := sd_next_id st + 1\<rparr> in
            (case kmalloc H STACK_SIZE (sd_heap st) of
               None \<Rightarrow> None
             | Some (h, stack) \<Rightarrow>
                 let st = st\<lparr>sd_heap := h\<rparr> in
                 if stack = 0
                 then (case kfree H t (sd_heap st) of None \<Rightarrow> None | Some h \<Rightarrow> Some (st\<lparr>sd_heap := h\<rparr>, 0))
                 else
                   let (sp, m) = push_words (stack + unat STACK_SIZE) (first_frame entry exit) (sd_word st);
                       st = task_upd t (\<lambda>k. k\<lparr>tk_stack := stack, tk_esp := of_nat sp, tk_next := tk_next (sd_task st (sd_current st))\<rparr>)
                              (st\<lparr>sd_word := m\<rparr>)
                   in Some (task_upd (sd_current st) (\<lambda>k. k\<lparr>tk_next := t\<rparr>) st, t)))"

section \<open>Switching\<close>

text \<open>\<^verbatim>\<open>reap_one\<close>: the loop looks at no more than 64 tasks.\<close>

definition unlink :: "nat \<Rightarrow> nat \<Rightarrow> sched \<Rightarrow> sched" where
  "unlink p n st =
     (let st = task_upd p (\<lambda>k. k\<lparr>tk_next := tk_next (sd_task st n)\<rparr>) st
      in if sd_tasks st = n then st\<lparr>sd_tasks := tk_next (sd_task st n)\<rparr> else st)"

definition free_task :: "u32 \<Rightarrow> nat \<Rightarrow> sched \<Rightarrow> sched option" where
  "free_task H n st =
     (let sb = tk_stack (sd_task st n) in
      case kfree H n (sd_heap st) of None \<Rightarrow> None | Some h \<Rightarrow>
      (if sb \<noteq> 0 then (case kfree H sb h of None \<Rightarrow> None | Some h \<Rightarrow> Some (st\<lparr>sd_heap := h\<rparr>))
       else Some (st\<lparr>sd_heap := h\<rparr>)))"

fun reap_loop :: "u32 \<Rightarrow> nat \<Rightarrow> nat \<Rightarrow> sched \<Rightarrow> sched option" where
  "reap_loop H 0 p st = Some st"
| "reap_loop H (Suc k) p st =
     (let n = tk_next (sd_task st p) in
      if n = sd_current st then Some st
      else if tk_state (sd_task st n) = TASK_DEAD then free_task H n (unlink p n st)
      else reap_loop H k n st)"

definition reap_one :: "u32 \<Rightarrow> sched \<Rightarrow> sched option" where
  "reap_one H st = reap_loop H 64 (sd_current st) st"

definition wake_up :: "u64 \<Rightarrow> nat \<Rightarrow> sched \<Rightarrow> sched" where
  "wake_up now t st =
     (if tk_state (sd_task st t) = TASK_SLEEPING \<and> now \<ge> tk_wake (sd_task st t)
      then task_upd t (\<lambda>k. k\<lparr>tk_state := TASK_READY\<rparr>) st else st)"

fun pick_loop :: "nat \<Rightarrow> u64 \<Rightarrow> nat \<Rightarrow> sched \<Rightarrow> sched \<times> nat option" where
  "pick_loop 0 now t st = (st, None)"
| "pick_loop (Suc k) now t st =
     (let st = wake_up now t st in
      if tk_state (sd_task st t) = TASK_READY then (st, Some t)
      else if t = sd_current st then (st, None)
      else pick_loop k now (tk_next (sd_task st t)) st)"

definition pick_next :: "u64 \<Rightarrow> sched \<Rightarrow> sched \<times> nat" where
  "pick_next now st =
     (case pick_loop 256 now (tk_next (sd_task st (sd_current st))) st of
        (st, Some t) \<Rightarrow> (st, t)
      | (st, None) \<Rightarrow> (st, if tk_state (sd_task st (sd_current st)) = TASK_READY then sd_current st else 0))"

text \<open>\<open>esp\<close> is the stack pointer that \<^verbatim>\<open>context_switch\<close> saves for the task it leaves.\<close>

definition schedule :: "u32 \<Rightarrow> u64 \<Rightarrow> u32 \<Rightarrow> sched \<Rightarrow> sched option" where
  "schedule H now esp st =
     (if \<not> sd_ready st \<or> sd_current st = 0 then Some st
      else case reap_one H st of
        None \<Rightarrow> None
      | Some st \<Rightarrow>
          (case pick_next now st of
             (st, nxt) \<Rightarrow>
               if nxt = 0 \<or> nxt = sd_current st then Some st
               else let prev = sd_current st;
                        st = task_upd nxt (\<lambda>k. k\<lparr>tk_switches := tk_switches k + 1\<rparr>) (st\<lparr>sd_current := nxt\<rparr>)
                    in Some (task_upd prev (\<lambda>k. k\<lparr>tk_esp := esp\<rparr>) st)))"

definition task_sleep :: "u32 \<Rightarrow> timer \<Rightarrow> u32 \<Rightarrow> u32 \<Rightarrow> sched \<Rightarrow> sched option" where
  "task_sleep H ti esp ms st =
     (if \<not> sd_ready st then Some st
      else schedule H (ti_ticks ti) esp
             (task_upd (sd_current st) (\<lambda>k. k\<lparr>tk_state := TASK_SLEEPING, tk_wake := ti_ticks ti + sleep_delay ms ti\<rparr>) st))"

section \<open>The other calls\<close>

fun kill_loop :: "nat \<Rightarrow> u32 \<Rightarrow> nat \<Rightarrow> sched \<Rightarrow> sched \<times> int" where
  "kill_loop 0 id' t st = (st, -1)"
| "kill_loop (Suc guard) id' t st =
     (if tk_id (sd_task st t) = id' \<and> tk_state (sd_task st t) \<noteq> TASK_DEAD
      then if t = sd_current st then (st, -2) else (task_upd t (\<lambda>k. k\<lparr>tk_state := TASK_DEAD\<rparr>) st, 0)
      else let t = tk_next (sd_task st t) in
        if t \<noteq> sd_current st then kill_loop guard id' t st else (st, -1))"

definition task_kill :: "u32 \<Rightarrow> sched \<Rightarrow> sched \<times> int" where
  "task_kill id' st =
     (if \<not> sd_ready st \<or> sd_current st = 0 then (st, -1) else kill_loop 256 id' (sd_current st) st)"

text \<open>The task that exits marks itself and gives up the processor; it is never resumed.\<close>

definition task_exit :: "u32 \<Rightarrow> u64 \<Rightarrow> u32 \<Rightarrow> sched \<Rightarrow> sched option" where
  "task_exit H now esp st =
     schedule H now esp (task_upd (sd_current st) (\<lambda>k. k\<lparr>tk_state := TASK_DEAD\<rparr>) st)"

partial_function (option) count_loop :: "sched \<Rightarrow> nat \<Rightarrow> nat \<Rightarrow> nat option" where
  "count_loop st t n =
     (let n = (if tk_state (sd_task st t) \<noteq> TASK_DEAD then n + 1 else n); t = tk_next (sd_task st t)
      in if t \<noteq> sd_current st \<and> n < 256 then count_loop st t n else Some n)"

declare count_loop.simps [code]

definition task_count :: "sched \<Rightarrow> nat option" where
  "task_count st = (if sd_current st = 0 then Some 0 else count_loop st (sd_current st) 0)"

end
