(* ===== verification/Sched_Inv.thy ===== *)
theory Sched_Inv
  imports Sched "HOL-Library.Multiset"
begin

text \<open>
  The invariant of the scheduler: the ring of tasks and what each of them owns in the heap. The
  heap is used through a contract, which \<^verbatim>\<open>kmalloc\<close> and \<^verbatim>\<open>kfree\<close> are shown to keep.
\<close>

section \<open>An allocator and what its clients hold\<close>

text \<open>The contract of a heap: \<open>holds h L\<close> says that the blocks of \<open>L\<close>, addresses with sizes, are
  allocated to the clients.\<close>

locale allocator =
  fixes malloc :: "u32 \<Rightarrow> 'h \<Rightarrow> ('h \<times> nat) option"
    and free :: "nat \<Rightarrow> 'h \<Rightarrow> 'h option"
    and holds :: "'h \<Rightarrow> (nat \<times> u32) list \<Rightarrow> bool"
  assumes malloc_law: "holds h L \<Longrightarrow> \<exists>h' p. malloc n h = Some (h', p) \<and> holds h' (if p = 0 then L else (p, n) # L)"
    and free_law: "holds h ((p, n) # L) \<Longrightarrow> \<exists>h'. free p h = Some h' \<and> holds h' L"
    and holds_perm: "holds h L \<Longrightarrow> mset L' = mset L \<Longrightarrow> holds h L'"
    and holds_distinct: "holds h L \<Longrightarrow> distinct (map fst L) \<and> 0 \<notin> fst ` set L"
begin

lemma fresh: "holds h L \<Longrightarrow> malloc n h = Some (h', p) \<Longrightarrow> p \<noteq> 0 \<Longrightarrow> p \<notin> fst ` set L"
  using malloc_law[of h L n] holds_distinct[of h' "(p, n) # L"] by auto

lemma free_mid: "holds h (A @ (p, n) # B) \<Longrightarrow> \<exists>h'. free p h = Some h' \<and> holds h' (A @ B)"
  by (rule free_law, erule holds_perm) simp

lemma free_two:
  assumes "holds h (A @ (p, n) # (q, k) # B)"
  shows "\<exists>h1 h2. free p h = Some h1 \<and> free q h1 = Some h2 \<and> holds h2 (A @ B)"
  using free_mid[OF assms] free_mid by metis

end

definition heap_holds :: "u32 \<Rightarrow> heap \<Rightarrow> (nat \<times> u32) list \<Rightarrow> bool" where
  "heap_holds H h L \<longleftrightarrow> (\<exists>xs. client_inv H h xs L)"

interpretation hpa: allocator "kmalloc H" "kfree H" "heap_holds H" for H
proof
  fix h L n
  assume "heap_holds H h L"
  then obtain xs where c: "client_inv H h xs L" by (auto simp: heap_holds_def)
  show "\<exists>h' p. kmalloc H n h = Some (h', p) \<and> heap_holds H h' (if p = 0 then L else (p, n) # L)"
    by (rule client_alloc[OF c, of n]) (auto simp: heap_holds_def)
  have "0 < p" if "(p, k) \<in> set L" for p k using c that by (fastforce simp: client_inv_def)
  then show "distinct (map fst L) \<and> 0 \<notin> fst ` set L" using c by (fastforce simp: client_inv_def)
next
  fix h p n L
  assume "heap_holds H h ((p, n) # L)"
  then obtain xs where c: "client_inv H h xs ((p, n) # L)" by (auto simp: heap_holds_def)
  show "\<exists>h'. kfree H p h = Some h' \<and> heap_holds H h' L"
    by (rule client_release[OF c, of 0]) (auto simp: heap_holds_def)
next
  fix h L L'
  assume "heap_holds H h L" and m: "mset L' = mset L"
  then obtain xs where c: "client_inv H h xs L" by (auto simp: heap_holds_def)
  have "set L' = set L" by (rule mset_eq_setD[OF m])
  moreover have "mset (map fst L') = mset (map fst L)" using m by simp
  then have "distinct (map fst L') \<longleftrightarrow> distinct (map fst L)" by (rule mset_eq_imp_distinct_iff)
  ultimately have "client_inv H h xs L'" using c by (simp add: client_inv_def)
  then show "heap_holds H h L'" by (auto simp: heap_holds_def)
qed

section \<open>The ring\<close>

fun links :: "(nat \<Rightarrow> task) \<Rightarrow> nat list \<Rightarrow> nat \<Rightarrow> bool" where
  "links m [] z \<longleftrightarrow> True"
| "links m (x # xs) z \<longleftrightarrow> tk_next (m x) = hd_or xs z \<and> links m xs z"

definition ring :: "(nat \<Rightarrow> task) \<Rightarrow> nat list \<Rightarrow> bool" where
  "ring m xs \<longleftrightarrow> xs \<noteq> [] \<and> distinct xs \<and> 0 \<notin> set xs \<and> links m xs (hd xs)"

lemma hd_or_append [simp]: "hd_or (xs @ ys) z = hd_or xs (hd_or ys z)"
  by (cases xs) auto

lemma links_append: "links m (xs @ ys) z \<longleftrightarrow> links m xs (hd_or ys z) \<and> links m ys z"
  by (induction xs) (auto simp: hd_or_def split: list.splits)

lemma links_cong: "(\<And>x. x \<in> set xs \<Longrightarrow> tk_next (m x) = tk_next (m' x)) \<Longrightarrow> links m xs z \<longleftrightarrow> links m' xs z"
  by (induction xs) auto

lemma links_upd [simp]: "x \<notin> set xs \<Longrightarrow> links (m(x := y)) xs z \<longleftrightarrow> links m xs z"
  by (rule links_cong) auto

lemma ring_cong: "(\<And>x. x \<in> set xs \<Longrightarrow> tk_next (m x) = tk_next (m' x)) \<Longrightarrow> ring m xs \<longleftrightarrow> ring m' xs"
  using links_cong[of xs m m'] by (auto simp: ring_def)

lemma ring_rotate: "ring m (xs @ ys) \<Longrightarrow> ys \<noteq> [] \<Longrightarrow> ring m (ys @ xs)"
  by (cases xs; cases ys) (auto simp: ring_def links_append)

text \<open>What a task owns: its record and its stack.\<close>

definition task_blocks :: "(nat \<Rightarrow> task) \<Rightarrow> nat \<Rightarrow> (nat \<times> u32) list" where
  "task_blocks m x = (x, TASK_SIZE) # (if tk_stack (m x) = 0 then [] else [(tk_stack (m x), STACK_SIZE)])"

definition owned :: "(nat \<Rightarrow> task) \<Rightarrow> nat list \<Rightarrow> (nat \<times> u32) list" where
  "owned m xs = concat (map (task_blocks m) xs)"

lemma owned_simps [simp]: "owned m [] = []" "owned m (x # xs) = task_blocks m x @ owned m xs" "owned m (xs @ ys) = owned m xs @ owned m ys"
  by (simp_all add: owned_def)

lemma owned_cong: "(\<And>x. x \<in> set xs \<Longrightarrow> tk_stack (m x) = tk_stack (m' x)) \<Longrightarrow> owned m xs = owned m' xs"
  by (induction xs) (auto simp: task_blocks_def)

text \<open>\<open>xs\<close> is the ring from the current task on, \<open>R\<close> what the other clients of the heap hold.\<close>

definition sched_inv :: "u32 \<Rightarrow> sched \<Rightarrow> (nat \<times> u32) list \<Rightarrow> nat list \<Rightarrow> bool" where
  "sched_inv H st R xs \<longleftrightarrow> sd_ready st \<and> ring (sd_task st) xs \<and> sd_current st = hd xs \<and> sd_tasks st \<in> set xs \<and>
     heap_holds H (sd_heap st) (owned (sd_task st) xs @ R)"

lemma sched_invD:
  assumes "sched_inv H st R xs"
  shows "sd_ready st" "ring (sd_task st) xs" "sd_current st = hd xs" "sd_tasks st \<in> set xs"
    "heap_holds H (sd_heap st) (owned (sd_task st) xs @ R)" "xs \<noteq> []" "distinct xs" "0 \<notin> set xs" "sd_current st \<noteq> 0"
    "sd_current st \<in> set xs"
proof -
  show i: "sd_ready st" "ring (sd_task st) xs" "sd_current st = hd xs" "sd_tasks st \<in> set xs"
    "heap_holds H (sd_heap st) (owned (sd_task st) xs @ R)" "xs \<noteq> []" "distinct xs" "0 \<notin> set xs"
    using assms by (auto simp: sched_inv_def ring_def)
  then show "sd_current st \<in> set xs" by simp
  then show "sd_current st \<noteq> 0" using i(8) by metis
qed

lemma task_upd_simps [simp]:
  "sd_task (task_upd t f st) = (sd_task st)(t := f (sd_task st t))" "sd_heap (task_upd t f st) = sd_heap st"
  "sd_current (task_upd t f st) = sd_current st" "sd_tasks (task_upd t f st) = sd_tasks st"
  "sd_ready (task_upd t f st) = sd_ready st"
  by (simp_all add: task_upd_def)

lemma sched_inv_upd:
  assumes "sched_inv H st R xs" "tk_next (f (sd_task st t)) = tk_next (sd_task st t)" "tk_stack (f (sd_task st t)) = tk_stack (sd_task st t)"
  shows "sched_inv H (task_upd t f st) R xs"
proof -
  have "ring (sd_task (task_upd t f st)) xs \<longleftrightarrow> ring (sd_task st) xs" using assms(2) by (intro ring_cong) auto
  moreover have "owned (sd_task (task_upd t f st)) xs = owned (sd_task st) xs" using assms(3) by (intro owned_cong) auto
  ultimately show ?thesis using assms(1) by (simp add: sched_inv_def)
qed

section \<open>Reaping\<close>

lemma links_next: "links m (xs @ x # ys) z \<Longrightarrow> tk_next (m x) = hd_or ys z"
  by (simp add: links_append)

lemma free_task_inv:
  assumes inv: "sched_inv H st R (xs @ n # ys)" and xs: "xs \<noteq> []" and p: "p = last xs"
  shows "\<exists>st'. free_task H n (unlink p n st) = Some st' \<and> sched_inv H st' R (xs @ ys) \<and>
    (\<forall>x. x \<noteq> p \<longrightarrow> sd_task st' x = sd_task st x) \<and> (\<exists>z. sd_task st' p = (sd_task st p)\<lparr>tk_next := z\<rparr>)"
proof -
  note i = sched_invD[OF inv]
  obtain us where us: "xs = us @ [p]" using xs p by (metis append_butlast_last_id)
  let ?m = "sd_task st" and ?z = "hd_or ys (hd xs)"
  have r: "links ?m (us @ p # n # ys) (hd xs)" "distinct (us @ p # n # ys)" "0 \<notin> set (us @ p # n # ys)"
    using i(2) us by (auto simp: ring_def hd_append)
  have nx: "tk_next (?m n) = ?z" using links_next[of ?m "us @ [p]" n ys "hd xs"] r(1) by simp
  let ?m' = "?m(p := (?m p)\<lparr>tk_next := ?z\<rparr>)"
  have l: "links ?m' us p" "links ?m' ys (hd xs)"
    using r by (simp_all add: links_append)
  have rg: "ring ?m' (xs @ ys)"
    using l r us xs by (auto simp: ring_def links_append hd_append)
  have ow: "owned ?m' zs = owned ?m zs" "task_blocks ?m' x = task_blocks ?m x" for zs x
    by (rule owned_cong) (simp_all add: task_blocks_def)
  have h: "heap_holds H (sd_heap st) (owned ?m' xs @ task_blocks ?m' n @ (owned ?m' ys @ R))" using i(5) by (simp add: ow)
  obtain h' where f: "heap_holds H h' (owned ?m' xs @ owned ?m' ys @ R)"
    "free_task H n (unlink p n st) = Some ((unlink p n st)\<lparr>sd_heap := h'\<rparr>)"
  proof (cases "tk_stack (?m n) = 0")
    case True
    then obtain h' where "kfree H n (sd_heap st) = Some h'" "heap_holds H h' (owned ?m' xs @ owned ?m' ys @ R)"
      using hpa.free_mid[of H "sd_heap st" "owned ?m' xs" n TASK_SIZE "owned ?m' ys @ R"] h r
      by (auto simp: task_blocks_def)
    then show thesis using that True r nx by (simp add: free_task_def unlink_def Let_def)
  next
    case False
    then obtain h1 h' where "kfree H n (sd_heap st) = Some h1" "kfree H (tk_stack (?m n)) h1 = Some h'"
      "heap_holds H h' (owned ?m' xs @ owned ?m' ys @ R)"
      using hpa.free_two[of H "sd_heap st" "owned ?m' xs" n TASK_SIZE "tk_stack (?m n)" STACK_SIZE "owned ?m' ys @ R"] h r
      by (auto simp: task_blocks_def)
    then show thesis using that False r nx by (simp add: free_task_def unlink_def Let_def)
  qed
  have "sd_tasks (unlink p n st) \<in> set (xs @ ys)"
    using i(4) nx hd_in_set[OF xs] by (cases ys) (auto simp: unlink_def Let_def)
  then have "sched_inv H ((unlink p n st)\<lparr>sd_heap := h'\<rparr>) R (xs @ ys)"
    using rg f(1) i xs nx r by (simp add: sched_inv_def unlink_def Let_def)
  moreover have "sd_task ((unlink p n st)\<lparr>sd_heap := h'\<rparr>) = ?m'" using nx by (simp add: unlink_def Let_def)
  ultimately show ?thesis using f(2) by auto
qed

text \<open>A round of the reaper removes at most one task, a dead one that is not current.\<close>

lemma reap_loop_inv:
  "sched_inv H st R (xs @ ys) \<Longrightarrow> xs \<noteq> [] \<Longrightarrow>
   \<exists>st' zs. reap_loop H k (last xs) st = Some st' \<and> sched_inv H st' R zs \<and> hd zs = hd xs \<and>
     (\<forall>x. tk_state (sd_task st' x) = tk_state (sd_task st x) \<and> tk_wake (sd_task st' x) = tk_wake (sd_task st x)) \<and>
     (zs = xs @ ys \<or> (\<exists>n us vs. xs @ ys = us @ n # vs \<and> us \<noteq> [] \<and> zs = us @ vs \<and> tk_state (sd_task st n) = TASK_DEAD))"
proof (induction k arbitrary: xs ys)
  case (Suc k)
  note i = sched_invD[OF Suc.prems(1)]
  have nx: "tk_next (sd_task st (last xs)) = hd_or ys (hd xs)"
  proof -
    have "links (sd_task st) ((butlast xs @ [last xs]) @ ys) (hd xs)"
      using i(2) Suc.prems(2) by (simp add: ring_def)
    then show ?thesis using links_next[of "sd_task st" "butlast xs" "last xs" ys] by simp
  qed
  show ?case
  proof (cases ys)
    case Nil
    then show ?thesis using Suc.prems nx i(3) by (intro exI[of _ st] exI[of _ "xs @ ys"]) simp
  next
    case (Cons n r)
    have nc: "n \<noteq> sd_current st" using i(3,7) Cons Suc.prems(2) by (cases xs) auto
    show ?thesis
    proof (cases "tk_state (sd_task st n) = TASK_DEAD")
      case True
      obtain st' z where f: "free_task H n (unlink (last xs) n st) = Some st'" "sched_inv H st' R (xs @ r)"
        "\<forall>x. x \<noteq> last xs \<longrightarrow> sd_task st' x = sd_task st x" "sd_task st' (last xs) = (sd_task st (last xs))\<lparr>tk_next := z\<rparr>"
        using free_task_inv[OF _ Suc.prems(2) refl] Suc.prems(1) Cons by blast
      have "tk_state (sd_task st' x) = tk_state (sd_task st x) \<and> tk_wake (sd_task st' x) = tk_wake (sd_task st x)" for x
        using f(3,4) by (cases "x = last xs") simp_all
      moreover have "reap_loop H (Suc k) (last xs) st = Some st'" using f(1) nx nc Cons True by simp
      ultimately show ?thesis using f(2) Suc.prems(2) Cons True by (intro exI[of _ st'] exI[of _ "xs @ r"]) auto
    next
      case False
      have "reap_loop H (Suc k) (last xs) st = reap_loop H k (last (xs @ [n])) st"
        using nx nc Cons False by simp
      then show ?thesis using Suc.IH[of "xs @ [n]" r] Suc.prems Cons by simp
    qed
  qed
qed auto

lemma reap_one_inv:
  assumes "sched_inv H st R xs"
  shows "\<exists>st' zs. reap_one H st = Some st' \<and> sched_inv H st' R zs \<and> hd zs = hd xs \<and>
     (\<forall>x. tk_state (sd_task st' x) = tk_state (sd_task st x) \<and> tk_wake (sd_task st' x) = tk_wake (sd_task st x)) \<and>
     (zs = xs \<or> (\<exists>n us vs. xs = us @ n # vs \<and> us \<noteq> [] \<and> zs = us @ vs \<and> tk_state (sd_task st n) = TASK_DEAD))"
proof -
  note i = sched_invD[OF assms]
  have xs: "xs = [hd xs] @ tl xs" using i(6) by simp
  show ?thesis
    using reap_loop_inv[of H st R "[hd xs]" "tl xs" 64] assms xs i(3) by (simp add: reap_one_def)
qed

section \<open>Picking\<close>

definition awake :: "u64 \<Rightarrow> task \<Rightarrow> bool" where
  "awake now k \<longleftrightarrow> tk_state k = TASK_READY \<or> tk_state k = TASK_SLEEPING \<and> tk_wake k \<le> now"

lemma wake_up_awake: "tk_state (sd_task (wake_up now t st) t) = TASK_READY \<longleftrightarrow> awake now (sd_task st t)"
  by (auto simp: wake_up_def awake_def)

lemma wake_up_asleep: "\<not> awake now (sd_task st t) \<Longrightarrow> wake_up now t st = st"
  by (auto simp: wake_up_def awake_def)

lemma pick_loop_exact:
  assumes "links (sd_task st) (ys @ [sd_current st]) z" "sd_current st \<notin> set ys"
  shows "pick_loop k now (hd (ys @ [sd_current st])) st =
    (case find (\<lambda>t. awake now (sd_task st t)) (take k (ys @ [sd_current st])) of
       None \<Rightarrow> (st, None) | Some t \<Rightarrow> (wake_up now t st, Some t))"
  using assms
proof (induction k arbitrary: ys)
  case (Suc k)
  show ?case
  proof (cases ys)
    case Nil
    show ?thesis
    proof (cases "awake now (sd_task st (sd_current st))")
      case True
      then show ?thesis using Nil wake_up_awake[of now "sd_current st" st] by (simp add: Let_def)
    next
      case False
      then have "tk_state (sd_task st (sd_current st)) \<noteq> TASK_READY" by (auto simp: awake_def)
      then show ?thesis using Nil False wake_up_asleep[OF False] by (simp add: Let_def)
    qed
  next
    case (Cons y r)
    show ?thesis
    proof (cases "awake now (sd_task st y)")
      case True
      then show ?thesis using Cons wake_up_awake[of now y st] by (simp add: Let_def)
    next
      case False
      then have w: "wake_up now y st = st" by (rule wake_up_asleep)
      have s: "tk_state (sd_task st y) \<noteq> TASK_READY" using False by (auto simp: awake_def)
      have nx: "tk_next (sd_task st y) = hd (r @ [sd_current st])" using Suc.prems(1) Cons by (cases r) auto
      have "pick_loop (Suc k) now y st = pick_loop k now (hd (r @ [sd_current st])) st"
        using w s nx Suc.prems(2) Cons by (simp add: Let_def)
      then show ?thesis using Suc.IH[of r] Suc.prems Cons False by simp
    qed
  qed
qed simp

text \<open>The tasks in the order in which the search looks at them: the current task comes last.\<close>

definition search_order :: "nat list \<Rightarrow> nat list" where
  "search_order xs = tl xs @ [hd xs]"

lemma pick_next_inv:
  assumes inv: "sched_inv H st R xs"
  shows "pick_next now st =
    (case find (\<lambda>t. awake now (sd_task st t)) (take 256 (search_order xs)) of
       None \<Rightarrow> (st, if tk_state (sd_task st (hd xs)) = TASK_READY then hd xs else 0) | Some t \<Rightarrow> (wake_up now t st, t))"
proof -
  note i = sched_invD[OF inv]
  obtain c r where xs: "xs = c # r" using i(6) by (cases xs) auto
  have c: "sd_current st = c" "c \<notin> set r" using i(3,7) xs by simp_all
  have l: "links (sd_task st) (r @ [sd_current st]) (hd_or r c)" "tk_next (sd_task st c) = hd (r @ [sd_current st])"
    using i(2) xs c by (auto simp: ring_def links_append hd_or_def split: list.splits)
  have p: "pick_loop 256 now (hd (r @ [sd_current st])) st =
    (case find (\<lambda>t. awake now (sd_task st t)) (take 256 (r @ [c])) of None \<Rightarrow> (st, None) | Some t \<Rightarrow> (wake_up now t st, Some t))"
    using pick_loop_exact[OF l(1), of 256 now] c xs by simp
  then show ?thesis unfolding pick_next_def c(1) l(2)[unfolded c(1)] p[unfolded c(1)] search_order_def
    by (simp add: xs c split: option.split)
qed

lemma pick_next_all:
  assumes inv: "sched_inv H st R xs" and len: "length xs \<le> 256"
  shows "pick_next now st =
    (case find (\<lambda>t. awake now (sd_task st t)) (search_order xs) of
       None \<Rightarrow> (st, 0) | Some t \<Rightarrow> (wake_up now t st, t))"
proof -
  have t: "take 256 (search_order xs) = search_order xs"
    using len sched_invD(6)[OF inv] by (cases xs) (simp_all add: search_order_def)
  have "find (\<lambda>t. awake now (sd_task st t)) (search_order xs) = None \<Longrightarrow> tk_state (sd_task st (hd xs)) \<noteq> TASK_READY"
    by (auto simp: find_None_iff awake_def search_order_def)
  then show ?thesis unfolding pick_next_inv[OF inv] t by (simp split: option.split)
qed

lemma wake_up_inv: "sched_inv H st R xs \<Longrightarrow> sched_inv H (wake_up now t st) R xs"
  by (simp add: wake_up_def sched_inv_upd)

section \<open>Switching\<close>

lemma sched_inv_switch:
  assumes "sched_inv H st R (us @ t # vs)"
  shows "sched_inv H (st\<lparr>sd_current := t\<rparr>) R (t # vs @ us)"
proof -
  note i = sched_invD[OF assms]
  have "ring (sd_task st) (t # vs @ us)" using ring_rotate[of "sd_task st" us "t # vs"] i(2) by simp
  moreover have "heap_holds H (sd_heap st) (owned (sd_task st) (t # vs @ us) @ R)"
    by (rule hpa.holds_perm[OF i(5)]) (simp add: union_ac)
  ultimately show ?thesis using i by (auto simp: sched_inv_def)
qed

lemma find_split: "find P xs = Some t \<Longrightarrow> \<exists>us vs. xs = us @ t # vs \<and> P t \<and> (\<forall>x\<in>set us. \<not> P x)"
proof (induction xs)
  case (Cons x xs)
  show ?case
  proof (cases "P x")
    case True
    then show ?thesis using Cons.prems by (intro exI[of _ "[]"] exI[of _ xs]) simp
  next
    case False
    then obtain us vs where "xs = us @ t # vs" "P t" "\<forall>x\<in>set us. \<not> P x" using Cons by auto
    then show ?thesis using False by (intro exI[of _ "x # us"] exI[of _ vs]) simp
  qed
qed simp

lemma search_order_set: "xs \<noteq> [] \<Longrightarrow> set (search_order xs) = set xs"
  by (cases xs) (auto simp: search_order_def)

text \<open>The part of \<^verbatim>\<open>schedule\<close> after the search.\<close>

definition switch_to :: "nat \<Rightarrow> u32 \<Rightarrow> sched \<Rightarrow> sched" where
  "switch_to nxt esp st =
     task_upd (sd_current st) (\<lambda>k. k\<lparr>tk_esp := esp\<rparr>) (task_upd nxt (\<lambda>k. k\<lparr>tk_switches := tk_switches k + 1\<rparr>) (st\<lparr>sd_current := nxt\<rparr>))"

lemma switch_to_inv: "sched_inv H st R (us @ t # vs) \<Longrightarrow> sched_inv H (switch_to t esp st) R (t # vs @ us)"
  unfolding switch_to_def by (intro sched_inv_upd sched_inv_switch) simp_all

lemma switch_to_state [simp]: "tk_state (sd_task (switch_to t esp st) x) = tk_state (sd_task st x)"
  by (simp add: switch_to_def)

lemma schedule_inv:
  assumes inv: "sched_inv H st R xs"
  obtains st1 zs st' ys where "schedule H now esp st = Some st'" "sched_inv H st' R ys" "set ys = set zs"
    "reap_one H st = Some st1" "sched_inv H st1 R zs" "hd zs = hd xs"
    "\<forall>x. tk_state (sd_task st1 x) = tk_state (sd_task st x) \<and> tk_wake (sd_task st1 x) = tk_wake (sd_task st x)"
    "zs = xs \<or> (\<exists>n us vs. xs = us @ n # vs \<and> us \<noteq> [] \<and> zs = us @ vs \<and> tk_state (sd_task st n) = TASK_DEAD)"
    "\<forall>t us vs. find (\<lambda>t. awake now (sd_task st1 t)) (take 256 (search_order zs)) = Some t \<longrightarrow> zs = us @ t # vs \<longrightarrow> ys = t # vs @ us"
    "\<forall>x. tk_state (sd_task st x) = TASK_READY \<longrightarrow> tk_state (sd_task st' x) = TASK_READY"
proof -
  note i = sched_invD[OF inv]
  obtain st1 zs where r: "reap_one H st = Some st1" "sched_inv H st1 R zs" "hd zs = hd xs"
    "\<forall>x. tk_state (sd_task st1 x) = tk_state (sd_task st x) \<and> tk_wake (sd_task st1 x) = tk_wake (sd_task st x)"
    "zs = xs \<or> (\<exists>n us vs. xs = us @ n # vs \<and> us \<noteq> [] \<and> zs = us @ vs \<and> tk_state (sd_task st n) = TASK_DEAD)"
    using reap_one_inv[OF inv] by blast
  note j = sched_invD[OF r(2)]
  let ?f = "find (\<lambda>t. awake now (sd_task st1 t)) (take 256 (search_order zs))"
  have sc: "schedule H now esp st = (case pick_next now st1 of (s, n) \<Rightarrow>
      if n = 0 \<or> n = sd_current s then Some s else Some (switch_to n esp s))"
    using i(1,9) r(1) by (simp add: schedule_def switch_to_def Let_def split: prod.split)
  show thesis
  proof (cases ?f)
    case None
    then have s: "schedule H now esp st = Some st1"
      unfolding sc pick_next_inv[OF r(2)] using j(3,9) by simp
    show thesis
      by (rule that[OF s r(2) refl r(1,2,3,4,5)]) (use r(4) None in simp_all)
  next
    case (Some t)
    let ?s = "wake_up now t st1"
    have "t \<in> set (take 256 (search_order zs))" using find_split[OF Some] by auto
    then have tz: "t \<in> set zs" using search_order_set[OF j(6)] by (auto dest: in_set_takeD)
    then obtain us vs where z: "zs = us @ t # vs" by (metis split_list)
    have uniq: "us' = us \<and> vs' = vs" if "zs = us' @ t # vs'" for us' vs'
    proof -
      have a: "t \<notin> set us \<union> set vs" using z j(7) by auto
      have b: "us @ t # vs = us' @ t # vs'" using z that by simp
      show ?thesis using append_Cons_eq_iff[OF _ _, of t us vs us' vs'] a b by auto
    qed
    have w: "sched_inv H ?s R zs" "sd_current ?s = hd zs" using wake_up_inv[OF r(2)] by (auto dest: sched_invD)
    have rd: "tk_state (sd_task st x) = TASK_READY \<Longrightarrow> tk_state (sd_task ?s x) = TASK_READY" for x
      using r(4) by (simp add: wake_up_def)
    have t0: "t \<noteq> 0" using tz j(8) by metis
    show thesis
    proof (cases "t = hd zs")
      case True
      then have u: "us = []" using z j(7) by (cases us) auto
      have s: "schedule H now esp st = Some ?s" unfolding sc pick_next_inv[OF r(2)] using Some w(2) True by simp
      have one: "zs = t' # vs' @ us'" if "find (\<lambda>t. awake now (sd_task st1 t)) (take 256 (search_order zs)) = Some t'"
        "zs = us' @ t' # vs'" for t' us' vs'
      proof -
        have e: "t' = t" using that(1) Some by simp
        then have "us' = us \<and> vs' = vs" using uniq that(2) by blast
        then show ?thesis using e u z by simp
      qed
      have k: "\<forall>x. tk_state (sd_task st x) = TASK_READY \<longrightarrow> tk_state (sd_task ?s x) = TASK_READY" using rd by blast
      show thesis by (rule that[OF s w(1) refl r(1,2,3,4,5) _ k]) (use one in blast)
    next
      case False
      have s: "schedule H now esp st = Some (switch_to t esp ?s)"
        unfolding sc pick_next_inv[OF r(2)] using Some w(2) False t0 by simp
      have i': "sched_inv H (switch_to t esp ?s) R (t # vs @ us)" using switch_to_inv w(1) z by simp
      have one: "t # vs @ us = t' # vs' @ us'" if "find (\<lambda>t. awake now (sd_task st1 t)) (take 256 (search_order zs)) = Some t'"
        "zs = us' @ t' # vs'" for t' us' vs'
      proof -
        have e: "t' = t" using that(1) Some by simp
        then have "us' = us \<and> vs' = vs" using uniq that(2) by blast
        then show ?thesis using e by simp
      qed
      have k: "\<forall>x. tk_state (sd_task st x) = TASK_READY \<longrightarrow> tk_state (sd_task (switch_to t esp ?s) x) = TASK_READY"
        using rd by simp
      have e: "set (t # vs @ us) = set zs" using z by auto
      show thesis by (rule that[OF s i' e r(1,2,3,4,5) _ k]) (use one in blast)
    qed
  qed
qed

section \<open>The other calls\<close>

lemma kill_loop_inv: "sched_inv H st R xs \<Longrightarrow> kill_loop k id' t st = (st', r) \<Longrightarrow> sched_inv H st' R xs"
proof (induction k arbitrary: t)
  case (Suc k)
  then show ?case by (auto simp: Let_def intro: sched_inv_upd split: if_splits)
qed simp

lemma task_kill_inv: "sched_inv H st R xs \<Longrightarrow> sched_inv H (fst (task_kill id' st)) R xs"
  by (cases "task_kill id' st") (auto simp: task_kill_def intro: kill_loop_inv split: if_splits)

lemma task_sleep_inv:
  assumes "sched_inv H st R xs"
  shows "\<exists>st' ys. task_sleep H ti esp ms st = Some st' \<and> sched_inv H st' R ys"
proof -
  let ?st = "task_upd (sd_current st) (\<lambda>k. k\<lparr>tk_state := TASK_SLEEPING, tk_wake := ti_ticks ti + sleep_delay ms ti\<rparr>) st"
  have "sched_inv H ?st R xs" using assms by (rule sched_inv_upd) simp_all
  then show ?thesis using sched_invD(1)[OF assms] by (elim schedule_inv[of H ?st R xs "ti_ticks ti" esp]) (auto simp: task_sleep_def)
qed

lemma task_exit_inv:
  assumes "sched_inv H st R xs"
  shows "\<exists>st' ys. task_exit H now esp st = Some st' \<and> sched_inv H st' R ys"
proof -
  let ?st = "task_upd (sd_current st) (\<lambda>k. k\<lparr>tk_state := TASK_DEAD\<rparr>) st"
  have "sched_inv H ?st R xs" using assms by (rule sched_inv_upd) simp_all
  then show ?thesis by (elim schedule_inv[of H ?st R xs now esp]) (auto simp: task_exit_def)
qed

lemma task_create_inv:
  assumes inv: "sched_inv H st R xs"
  shows "\<exists>st' t. task_create H exit name entry st = Some (st', t) \<and>
    (if t = 0 then sched_inv H st' R xs else sched_inv H st' R (hd xs # t # tl xs) \<and> t \<notin> set xs \<and>
       tk_state (sd_task st' t) = TASK_READY)"
proof (cases "entry = 0")
  case True
  then show ?thesis using inv by (simp add: task_create_def)
next
  case entry: False
  note i = sched_invD[OF inv]
  obtain c r where xs: "xs = c # r" using i(6) by (cases xs) auto
  let ?m = "sd_task st" and ?O = "owned (sd_task st) xs"
  obtain h1 t where k1: "kmalloc H TASK_SIZE (sd_heap st) = Some (h1, t)"
    "heap_holds H h1 (if t = 0 then ?O @ R else (t, TASK_SIZE) # ?O @ R)"
    using hpa.malloc_law[OF i(5)] by blast
  show ?thesis
  proof (cases "t = 0")
    case True
    then show ?thesis using inv k1 entry i(9) by (simp add: task_create_def sched_inv_def)
  next
    case t0: False
    have tx: "t \<notin> set xs"
    proof
      assume "t \<in> set xs"
      then have "t \<in> fst ` set (?O @ R)" by (force simp: owned_def task_blocks_def)
      then show False using hpa.fresh[OF i(5) k1(1) t0] by simp
    qed
    let ?m1 = "?m(t := new_task name (sd_next_id st))"
    have kept: "ring ?m1 xs" "owned ?m1 xs = ?O"
      using i(2) tx ring_cong[of xs ?m ?m1] owned_cong[of xs ?m1 ?m] by fastforce+
    obtain h2 s where k2: "kmalloc H STACK_SIZE h1 = Some (h2, s)"
      "heap_holds H h2 (if s = 0 then (t, TASK_SIZE) # ?O @ R else (s, STACK_SIZE) # (t, TASK_SIZE) # ?O @ R)"
      using hpa.malloc_law[of H h1 "(t, TASK_SIZE) # ?O @ R" STACK_SIZE] k1(2) t0 by auto
    show ?thesis
    proof (cases "s = 0")
      case True
      obtain h3 where f: "kfree H t h2 = Some h3" "heap_holds H h3 (?O @ R)"
        using hpa.free_law[of H h2 t TASK_SIZE "?O @ R"] k2(2) True by auto
      then show ?thesis
        using inv kept entry i(9) t0 k1(1) k2(1) True by (simp add: task_create_def Let_def sched_inv_def)
    next
      case s0: False
      obtain sp w where p: "push_words (s + unat STACK_SIZE) (first_frame entry exit) (sd_word st) = (sp, w)" by fastforce
      have c: "sd_current st = c" "c \<noteq> t" using i(3) xs tx by auto
      let ?t = "(new_task name (sd_next_id st))\<lparr>tk_stack := s, tk_esp := of_nat sp, tk_next := tk_next (?m c)\<rparr>"
      let ?m2 = "?m(t := ?t, c := (?m c)\<lparr>tk_next := t\<rparr>)"
      let ?st = "st\<lparr>sd_heap := h2, sd_next_id := sd_next_id st + 1, sd_word := w, sd_task := ?m2\<rparr>"
      have run: "task_create H exit name entry st = Some (?st, t)"
        using entry i(9) t0 s0 k1(1) k2(1) p c by (simp add: task_create_def Let_def task_upd_def fun_upd_twist)
      have rt: "c \<notin> set r" "t \<notin> set r" "tk_next (?m c) = hd_or r c" "links ?m r c"
        using i(2) xs tx by (auto simp: ring_def)
      have rg: "ring ?m2 (c # t # r)"
        using i(2) xs tx t0 c rt by (auto simp: ring_def)
      have or': "owned ?m2 r = owned ?m r" using rt by (intro owned_cong) auto
      have "owned ?m2 (c # t # r) = task_blocks ?m c @ [(t, TASK_SIZE), (s, STACK_SIZE)] @ owned ?m r"
        using or' c s0 by (simp add: task_blocks_def)
      then have "mset (owned ?m2 (c # t # r) @ R) = mset ((s, STACK_SIZE) # (t, TASK_SIZE) # ?O @ R)"
        using xs by simp
      moreover have "heap_holds H h2 ((s, STACK_SIZE) # (t, TASK_SIZE) # ?O @ R)" using k2(2) s0 by simp
      ultimately have "heap_holds H h2 (owned ?m2 (c # t # r) @ R)" by (rule hpa.holds_perm[rotated])
      then have "sched_inv H ?st R (c # t # r)" using rg i(1,3,4) xs by (auto simp: sched_inv_def)
      moreover have "tk_state (sd_task ?st t) = TASK_READY" using c by (simp add: new_task_def)
      ultimately show ?thesis using run t0 tx xs by auto
    qed
  qed
qed

lemma sched_init_inv:
  assumes "heap_holds H (sd_heap st) R" "sched_init H st = Some st'"
  shows "sched_inv H st' R [sd_current st']"
proof -
  obtain h t where k: "kmalloc H TASK_SIZE (sd_heap st) = Some (h, t)"
    "heap_holds H h (if t = 0 then R else (t, TASK_SIZE) # R)"
    using hpa.malloc_law[OF assms(1)] by blast
  have t: "t \<noteq> 0" using k(1) assms(2) by (cases "t = 0") (simp_all add: sched_init_def)
  show ?thesis using assms(2) k t
    by (auto simp: sched_init_def sched_inv_def ring_def task_blocks_def new_task_def)
qed

section \<open>Runs\<close>

datatype sched_op = Create cstring u32 | Schedule u64 u32 | Sleep timer u32 u32 | Kill u32 | Exit u64 u32

fun sched_step :: "u32 \<Rightarrow> u32 \<Rightarrow> sched_op \<Rightarrow> sched \<Rightarrow> sched option" where
  "sched_step H exit (Create name entry) st = map_option fst (task_create H exit name entry st)"
| "sched_step H exit (Schedule now esp) st = schedule H now esp st"
| "sched_step H exit (Sleep ti esp ms) st = task_sleep H ti esp ms st"
| "sched_step H exit (Kill id') st = Some (fst (task_kill id' st))"
| "sched_step H exit (Exit now esp) st = task_exit H now esp st"

fun sched_run :: "u32 \<Rightarrow> u32 \<Rightarrow> sched_op list \<Rightarrow> sched \<Rightarrow> sched option" where
  "sched_run H exit [] st = Some st"
| "sched_run H exit (op # ops) st = (case sched_step H exit op st of None \<Rightarrow> None | Some st \<Rightarrow> sched_run H exit ops st)"

lemma sched_step_inv:
  assumes "sched_inv H st R xs"
  shows "\<exists>st' ys. sched_step H exit op st = Some st' \<and> sched_inv H st' R ys"
proof (cases op)
  case (Create name entry)
  then show ?thesis using task_create_inv[OF assms, of exit name entry] by (auto split: if_splits)
next
  case (Schedule now esp)
  show ?thesis unfolding Schedule sched_step.simps by (rule schedule_inv[OF assms, of now esp]) blast
next
  case (Sleep ti esp ms)
  then show ?thesis using task_sleep_inv[OF assms] by simp
next
  case (Kill id')
  then show ?thesis using task_kill_inv[OF assms] by auto
next
  case (Exit now esp)
  then show ?thesis using task_exit_inv[OF assms] by simp
qed

lemma sched_run_inv: "sched_inv H st R xs \<Longrightarrow> \<exists>st' ys. sched_run H exit ops st = Some st' \<and> sched_inv H st' R ys"
proof (induction ops arbitrary: st xs)
  case (Cons op ops)
  then show ?case using sched_step_inv[OF Cons.prems, of exit op] by fastforce
qed auto

end
