(* ===== verification/Sched_Props.thy ===== *)
theory Sched_Props
  imports Sched_Inv
begin

text \<open>Progress of the scheduler, and its properties.\<close>

section \<open>Waiting\<close>

text \<open>How many tasks the search looks at before \<open>t\<close>.\<close>

definition wait_pos :: "nat \<Rightarrow> nat list \<Rightarrow> nat" where
  "wait_pos t xs = length (takeWhile (\<lambda>x. x \<noteq> t) (search_order xs))"

lemma wait_pos_less: "t \<in> set xs \<Longrightarrow> wait_pos t xs < length xs"
proof -
  assume t: "t \<in> set xs"
  then have ne: "xs \<noteq> []" by auto
  then have "t \<in> set (search_order xs)" using t by (simp add: search_order_set)
  then obtain us vs where so: "search_order xs = us @ t # vs" "t \<notin> set us" by (metis split_list_first)
  then have "takeWhile (\<lambda>x. x \<noteq> t) (search_order xs) = us" by (subst so(1), subst takeWhile_append2) auto
  moreover have "length (search_order xs) = length xs" using ne by (cases xs) (simp_all add: search_order_def)
  ultimately show ?thesis
    using so(1) by (simp add: wait_pos_def)
qed

lemma takeWhile_drop_one: "P n \<Longrightarrow> length (takeWhile P (us @ vs)) \<le> length (takeWhile P (us @ n # vs))"
  by (induction us) auto

lemma wait_pos_reap: "us \<noteq> [] \<Longrightarrow> n \<noteq> t \<Longrightarrow> wait_pos t (us @ vs) \<le> wait_pos t (us @ n # vs)"
  using takeWhile_drop_one[of "\<lambda>x. x \<noteq> t" n "tl us" "vs @ [hd us]"] by (simp add: wait_pos_def search_order_def)

lemma wait_pos_switch:
  assumes d: "distinct (us @ s # vs)" and t: "t \<in> set (us @ s # vs)" "t \<noteq> s" and us: "us \<noteq> []"
    and no: "t \<notin> set (tl us)"
  shows "wait_pos t (s # vs @ us) < wait_pos t (us @ s # vs)"
proof -
  obtain h r where u: "us = h # r" using us by (cases us) auto
  have th: "t \<in> set (vs @ [h])" "t \<notin> set r" using t no u by auto
  have a: "takeWhile (\<lambda>x. x \<noteq> t) (vs @ h # r @ [s]) = takeWhile (\<lambda>x. x \<noteq> t) (vs @ [h])"
    using th(1) takeWhile_append1[of t "vs @ [h]" "\<lambda>x. x \<noteq> t" "r @ [s]"] by simp
  have b: "takeWhile (\<lambda>x. x \<noteq> t) (r @ s # vs @ [h]) = r @ s # takeWhile (\<lambda>x. x \<noteq> t) (vs @ [h])"
    using th(2) t(2) by (subst takeWhile_append2) auto
  show ?thesis using a b by (simp add: wait_pos_def search_order_def u)
qed

lemma schedule_progress:
  assumes inv: "sched_inv H st R xs" and len: "length xs \<le> 256"
    and t: "t \<in> set xs" "tk_state (sd_task st t) = TASK_READY"
  shows "\<exists>st' ys. schedule H now esp st = Some st' \<and> sched_inv H st' R ys \<and> length ys \<le> length xs \<and>
    t \<in> set ys \<and> tk_state (sd_task st' t) = TASK_READY \<and> (sd_current st' = t \<or> wait_pos t ys < wait_pos t xs)"
proof -
  obtain st1 zs st' ys where s: "schedule H now esp st = Some st'" "sched_inv H st' R ys" "set ys = set zs"
    "reap_one H st = Some st1" "sched_inv H st1 R zs" "hd zs = hd xs"
    "\<forall>x. tk_state (sd_task st1 x) = tk_state (sd_task st x) \<and> tk_wake (sd_task st1 x) = tk_wake (sd_task st x)"
    "zs = xs \<or> (\<exists>n us vs. xs = us @ n # vs \<and> us \<noteq> [] \<and> zs = us @ vs \<and> tk_state (sd_task st n) = TASK_DEAD)"
    and sw: "\<forall>t us vs. find (\<lambda>t. awake now (sd_task st1 t)) (take 256 (search_order zs)) = Some t \<longrightarrow> zs = us @ t # vs \<longrightarrow> ys = t # vs @ us"
    and rd: "\<forall>x. tk_state (sd_task st x) = TASK_READY \<longrightarrow> tk_state (sd_task st' x) = TASK_READY"
    by (rule schedule_inv[OF inv, of now esp]) blast
  note j = sched_invD[OF s(5)]
  have z: "t \<in> set zs" "length zs \<le> length xs" "wait_pos t zs \<le> wait_pos t xs"
  proof -
    have "t \<in> set zs \<and> length zs \<le> length xs \<and> wait_pos t zs \<le> wait_pos t xs"
      using s(8)
    proof
      assume "\<exists>n us vs. xs = us @ n # vs \<and> us \<noteq> [] \<and> zs = us @ vs \<and> tk_state (sd_task st n) = TASK_DEAD"
      then obtain n us vs where n: "xs = us @ n # vs" "us \<noteq> []" "zs = us @ vs" "tk_state (sd_task st n) = TASK_DEAD" by blast
      then have "n \<noteq> t" using t(2) by auto
      then show ?thesis using n t(1) wait_pos_reap by auto
    qed (use t(1) in simp)
    then show "t \<in> set zs" "length zs \<le> length xs" "wait_pos t zs \<le> wait_pos t xs" by simp_all
  qed
  have full: "take 256 (search_order zs) = search_order zs"
    using z(2) len j(6) by (cases zs) (simp_all add: search_order_def)
  have tz: "t \<in> set (search_order zs)" using z(1) j(6) by (simp add: search_order_set)
  have at: "awake now (sd_task st1 t)" using t(2) s(7) by (simp add: awake_def)
  obtain x where x: "find (\<lambda>t. awake now (sd_task st1 t)) (search_order zs) = Some x"
    using tz at by (cases "find (\<lambda>t. awake now (sd_task st1 t)) (search_order zs)") (auto simp: find_None_iff)
  obtain as bs where so: "search_order zs = as @ x # bs" "\<forall>y\<in>set as. \<not> awake now (sd_task st1 y)"
    using find_split[OF x] by blast
  have xz: "x \<in> set zs" using so(1) j(6) search_order_set[of zs] by auto
  then obtain us vs where uv: "zs = us @ x # vs" by (metis split_list)
  have ys: "ys = x # vs @ us" using sw uv x full by metis
  have cur: "sd_current st' = x" using sched_invD(3)[OF s(2)] ys by simp
  have ly: "length ys \<le> length xs" using ys uv z(2) by simp
  have "x = t \<or> wait_pos t ys < wait_pos t zs"
  proof (cases "x = t")
    case False
    have "us \<noteq> []"
    proof
      assume "us = []"
      then have "vs @ x # [] = as @ x # bs" "x \<notin> set vs" using so(1) uv j(7) by (simp_all add: search_order_def)
      then have "as = vs" "bs = []" using append_Cons_eq_iff[of x vs "[]" as bs] by simp_all
      then have "t \<in> set as" using tz so(1) False by auto
      then show False using so(2) at by auto
    qed
    moreover have "as = tl us"
    proof -
      have "search_order zs = tl us @ x # (vs @ [hd us])" using uv \<open>us \<noteq> []\<close> by (simp add: search_order_def)
      moreover have "distinct (search_order zs)" using j(6,7) by (cases zs) (auto simp: search_order_def)
      ultimately show ?thesis using so(1) by (metis append_Cons_eq_iff distinct_append disjoint_iff not_distinct_conv_prefix distinct.simps(2) list.set_intros(1))
    qed
    then have "t \<notin> set (tl us)" using so(2) at by auto
    ultimately show ?thesis using wait_pos_switch[of us x vs t] j(7) uv ys z(1) False by auto
  qed simp
  then show ?thesis using s(1,2) ly z s(3) rd t(2) cur by (intro exI[of _ st'] exI[of _ ys]) auto
qed

fun sched_calls :: "u32 \<Rightarrow> (u64 \<times> u32) list \<Rightarrow> sched \<Rightarrow> (sched \<times> nat list) option" where
  "sched_calls H [] st = Some (st, [])"
| "sched_calls H ((now, esp) # calls) st =
     (case schedule H now esp st of
        None \<Rightarrow> None
      | Some st \<Rightarrow> map_option (\<lambda>(st', cs). (st', sd_current st # cs)) (sched_calls H calls st))"

lemma calls_total: "sched_inv H st R xs \<Longrightarrow> \<exists>st' cs. sched_calls H calls st = Some (st', cs)"
proof (induction calls arbitrary: st xs)
  case (Cons a calls)
  obtain now esp where a: "a = (now, esp)" by fastforce
  obtain st1 ys where s: "schedule H now esp st = Some st1" "sched_inv H st1 R ys"
    by (rule schedule_inv[OF Cons.prems, of now esp])
  then show ?case using Cons.IH[OF s(2)] a by auto
qed simp

lemma calls_reach:
  "\<lbrakk>sched_inv H st R xs; length xs \<le> 256; t \<in> set xs; tk_state (sd_task st t) = TASK_READY; wait_pos t xs < length calls\<rbrakk> \<Longrightarrow>
     \<exists>st' cs. sched_calls H calls st = Some (st', cs) \<and> t \<in> set cs"
proof (induction calls arbitrary: st xs)
  case (Cons a calls)
  obtain now esp where a: "a = (now, esp)" by fastforce
  obtain st1 ys where s: "schedule H now esp st = Some st1" "sched_inv H st1 R ys" "length ys \<le> length xs" "t \<in> set ys"
    "tk_state (sd_task st1 t) = TASK_READY" "sd_current st1 = t \<or> wait_pos t ys < wait_pos t xs"
    using schedule_progress[OF Cons.prems(1-4), of now esp] by blast
  show ?case
  proof (cases "sd_current st1 = t")
    case True
    then show ?thesis using calls_total[OF s(2), of calls] s(1) a by auto
  next
    case False
    then have "wait_pos t ys < length calls" using s(6) Cons.prems(5) by simp
    then show ?thesis using Cons.IH[OF s(2) _ s(4,5)] s(1,3) Cons.prems(2) a by fastforce
  qed
qed simp

section \<open>Properties\<close>

text \<open>C24. On a working heap every sequence of creations, switches, sleeps, kills and exits returns,
  and the tasks always form one ring through \<^verbatim>\<open>current\<close> and \<^verbatim>\<open>tasks\<close>; the heap holds exactly the records and
  stacks of the tasks of the ring, so that no task record is used after it was freed, none is
  freed twice and none leaks.\<close>

theorem sched_wellformed:
  assumes "heap_holds H (sd_heap st) []" "sched_init H st = Some st0"
  shows "\<exists>st' xs. sched_run H exit ops st0 = Some st' \<and> ring (sd_task st') xs \<and> sd_current st' = hd xs \<and>
    sd_tasks st' \<in> set xs \<and> heap_holds H (sd_heap st') (owned (sd_task st') xs)"
  using sched_run_inv[OF sched_init_inv[OF assms], of exit ops] by (auto simp: sched_inv_def)

definition blank_sched :: sched where
  "blank_sched = \<lparr>sd_heap = lab_heap, sd_task = (\<lambda>_. new_task [] 0), sd_word = (\<lambda>_. 0), sd_current = 0, sd_tasks = 0,
     sd_next_id = 0, sd_ready = False\<rparr>"

lemma lab_holds: "heap_holds 20 (sd_heap blank_sched) []"
proof -
  have u: "unat (0x400000 :: u32) = 0x400000" "unat (0x100000 :: u32) = 0x100000" by simp_all
  show ?thesis
    using client_init[of "0x400000" "0x100000" 20] unfolding heap_holds_def blank_sched_def lab_heap_def u
    by (auto simp: word_le_nat_alt word_less_nat_alt)
qed

lemma lab_sched_init: "\<exists>st0. sched_init 20 blank_sched = Some st0"
proof -
  have "find_fit (hp_mem lab_heap) 48 (hp_head lab_heap) = Some 0x400000"
    by (simp add: find_fit.simps lab_heap_def heap_init_def word_le_nat_alt)
  then have "kmalloc 20 TASK_SIZE lab_heap = Some (take_block 20 48 0x400000 lab_heap, 0x400000 + 20)"
    by (simp add: kmalloc_def TASK_SIZE_def align8_def lab_heap_def heap_init_def word_le_nat_alt word_less_nat_alt)
  then show ?thesis by (simp add: sched_init_def blank_sched_def)
qed

lemma sched_wellformed_witness:
  "\<exists>st0 st' xs. sched_init 20 blank_sched = Some st0 \<and>
     sched_run 20 1 [Create [0x61] 2, Schedule 5 6, Exit 7 8, Schedule 9 1] st0 = Some st' \<and> ring (sd_task st') xs"
proof -
  obtain st0 where s: "sched_init 20 blank_sched = Some st0" using lab_sched_init by blast
  then show ?thesis
    using sched_wellformed[OF lab_holds s, of 1 "[Create [0x61] 2, Schedule 5 6, Exit 7 8, Schedule 9 1]"] by blast
qed

text \<open>C25. Nobody starves: with at most 256 tasks, a task that is ready runs within as many switches
  as there are tasks, whatever the clock shows and whatever the other tasks' states are.\<close>

theorem sched_no_starvation:
  assumes "sched_inv H st R xs" "length xs \<le> 256" "t \<in> set xs" "tk_state (sd_task st t) = TASK_READY"
    and "length xs \<le> length calls"
  shows "\<exists>st' cs. sched_calls H calls st = Some (st', cs) \<and> t \<in> set cs"
  using calls_reach[OF assms(1-4)] wait_pos_less[OF assms(3)] assms(5) by simp

lemma sched_no_starvation_witness:
  "\<exists>st0 st1 t st' cs. sched_init 20 blank_sched = Some st0 \<and> task_create 20 1 [0x61] 2 st0 = Some (st1, t) \<and>
     (t = 0 \<or> sched_calls 20 [(5, 6), (7, 8)] st1 = Some (st', cs) \<and> t \<in> set cs)"
proof -
  obtain st0 where s: "sched_init 20 blank_sched = Some st0" using lab_sched_init by blast
  note i = sched_init_inv[OF lab_holds s]
  obtain st1 t where c: "task_create 20 1 [0x61] 2 st0 = Some (st1, t)"
    "t = 0 \<or> sched_inv 20 st1 [] (hd [sd_current st0] # t # tl [sd_current st0]) \<and> tk_state (sd_task st1 t) = TASK_READY"
    using task_create_inv[OF i, of 1 "[0x61]" 2] by (auto split: if_splits)
  show ?thesis
  proof (cases "t = 0")
    case False
    then have v: "sched_inv 20 st1 [] [sd_current st0, t]" "tk_state (sd_task st1 t) = TASK_READY" using c(2) by simp_all
    then obtain st' cs where "sched_calls 20 [(5, 6), (7, 8)] st1 = Some (st', cs)" "t \<in> set cs"
      using sched_no_starvation[OF v(1) _ _ v(2), of "[(5, 6), (7, 8)]"] by auto
    then show ?thesis using s c(1) by blast
  qed (use s c(1) in auto)
qed

end
