(* ===== verification/User_Space.thy ===== *)
theory User_Space
  imports Partition
begin

text \<open>
  The private address spaces of user programs, \<^verbatim>\<open>kernel/user_space.c\<close>, for both page-table
  formats. The machine is the state of the frame allocator and the contents of every physical
  page, as bytes; page tables are read and written in those bytes. The allocator's callbacks are
  a record; \<open>op_direct\<close> says which frames have a kernel mapping.
\<close>

definition KU_BASE :: u32 where "KU_BASE = 0xE00000"
definition KU_SIZE :: u32 where "KU_SIZE = 0x200000"
definition KU_PAGE :: nat where "KU_PAGE = 4096"
definition KU_PAGES :: nat where "KU_PAGES = 512"
definition KU_DIRECT_LIMIT :: u32 where "KU_DIRECT_LIMIT = 0x8000000"
definition KU_R :: u32 where "KU_R = 1"
definition KU_W :: u32 where "KU_W = 2"
definition KU_X :: u32 where "KU_X = 4"

definition PTE_P :: u64 where "PTE_P = 1"
definition PTE_W :: u64 where "PTE_W = 2"
definition PTE_U :: u64 where "PTE_U = 4"
definition PTE_PS :: u64 where "PTE_PS = 128"
definition PTE_NX :: u64 where "PTE_NX = push_bit 63 1"
definition PTE_ADDRESS :: u64 where "PTE_ADDRESS = 0x000ffffffffff000"

record 'c ku_ops =
  op_alloc :: "'c \<Rightarrow> 'c \<times> u32"
  op_release :: "'c \<Rightarrow> u32 \<Rightarrow> 'c"
  op_direct :: "u32 \<Rightarrow> bool"

record 'c machine =
  ma_ctx :: 'c
  ma_page :: "u32 \<Rightarrow> u8 list"

record ku_space =
  sp_root :: u32
  sp_tables :: "u32 list"
  sp_borrowed :: "u32 list"
  sp_frames :: "u32 list"
  sp_rights :: "u8 list"
  sp_pins :: u32
  sp_live :: bool
  sp_arch64 :: bool
  sp_nx :: bool

text \<open>\<open>sp_tables\<close> and \<open>sp_borrowed\<close> are the used parts of the arrays, up to their counts.\<close>

definition ku_zero :: ku_space where
  "ku_zero = \<lparr>sp_root = 0, sp_tables = [], sp_borrowed = [], sp_frames = replicate KU_PAGES 0,
     sp_rights = replicate KU_PAGES 0, sp_pins = 0, sp_live = False, sp_arch64 = False, sp_nx = False\<rparr>"

section \<open>Frames\<close>

definition valid_frame :: "u32 \<Rightarrow> bool" where
  "valid_frame p \<longleftrightarrow> p \<noteq> 0 \<and> p AND 4095 = 0 \<and> p < KU_DIRECT_LIMIT"

definition direct :: "'c ku_ops \<Rightarrow> u32 \<Rightarrow> bool" where
  "direct ops p \<longleftrightarrow> valid_frame p \<and> op_direct ops p"

definition pte_address :: "u64 \<Rightarrow> u32" where
  "pte_address e = (let p = e AND PTE_ADDRESS in if p < ucast KU_DIRECT_LIMIT then ucast p else 0)"

definition set_page :: "u32 \<Rightarrow> u8 list \<Rightarrow> 'c machine \<Rightarrow> 'c machine" where
  "set_page p pg m = m\<lparr>ma_page := (ma_page m)(p := pg)\<rparr>"

definition zero_page :: "u8 list" where
  "zero_page = replicate KU_PAGE 0"

definition release :: "'c ku_ops \<Rightarrow> u32 \<Rightarrow> 'c machine \<Rightarrow> 'c machine" where
  "release ops p m = m\<lparr>ma_ctx := op_release ops (ma_ctx m) p\<rparr>"

definition new_frame :: "'c ku_ops \<Rightarrow> ku_space \<Rightarrow> 'c machine \<Rightarrow> 'c machine \<times> u32" where
  "new_frame ops s m =
     (case op_alloc ops (ma_ctx m) of
        (c, p) \<Rightarrow>
          let m = m\<lparr>ma_ctx := c\<rparr> in
          if \<not> valid_frame p then (if p \<noteq> 0 then release ops p m else m, 0)
          else if p \<in> set (sp_borrowed s) then (m, 0)
          else if p \<in> set (sp_tables s) then (m, 0)
          else if p \<in> set (sp_frames s) then (m, 0)
          else if \<not> direct ops p then (release ops p m, 0)
          else (set_page p zero_page m, p))"

definition borrow :: "'c ku_ops \<Rightarrow> u32 \<Rightarrow> ku_space \<Rightarrow> ku_space option" where
  "borrow ops p s =
     (if \<not> direct ops p \<or> length (sp_borrowed s) = 3 then None
      else if p \<in> set (sp_borrowed s) then None
      else Some (s\<lparr>sp_borrowed := sp_borrowed s @ [p]\<rparr>))"

definition table :: "'c ku_ops \<Rightarrow> ku_space \<times> 'c machine \<Rightarrow> (ku_space \<times> 'c machine) \<times> bool" where
  "table ops sm =
     (case sm of (s, m) \<Rightarrow> case new_frame ops s m of
        (m, p) \<Rightarrow> if p = 0 then ((s, m), False) else ((s\<lparr>sp_tables := sp_tables s @ [p]\<rparr>, m), True))"

fun add_tables :: "nat \<Rightarrow> 'c ku_ops \<Rightarrow> ku_space \<times> 'c machine \<Rightarrow> (ku_space \<times> 'c machine) \<times> bool" where
  "add_tables 0 ops sm = (sm, True)"
| "add_tables (Suc n) ops sm = (case table ops sm of (sm, ok) \<Rightarrow> if ok then add_tables n ops sm else (sm, False))"

section \<open>Page-table entries\<close>

definition put64 :: "nat \<Rightarrow> u64 \<Rightarrow> u8 list \<Rightarrow> u8 list" where
  "put64 i e p = put32 (i + 4) (ucast (drop_bit 32 e)) (put32 i (ucast e) p)"

definition pte_get :: "bool \<Rightarrow> u8 list \<Rightarrow> nat \<Rightarrow> u64" where
  "pte_get arch64 pg i = (if arch64 then get64 pg (8 * i) else ucast (get32 pg (4 * i)))"

definition pte_put :: "bool \<Rightarrow> nat \<Rightarrow> u64 \<Rightarrow> u8 list \<Rightarrow> u8 list" where
  "pte_put arch64 i e pg = (if arch64 then put64 (8 * i) e pg else put32 (4 * i) (ucast e) pg)"

definition pte_write :: "bool \<Rightarrow> u32 \<Rightarrow> nat \<Rightarrow> u64 \<Rightarrow> 'c machine \<Rightarrow> 'c machine" where
  "pte_write arch64 p i e m = set_page p (pte_put arch64 i e (ma_page m p)) m"

definition pte_read :: "bool \<Rightarrow> 'c machine \<Rightarrow> u32 \<Rightarrow> nat \<Rightarrow> u64" where
  "pte_read arch64 m p i = pte_get arch64 (ma_page m p) i"

text \<open>\<^verbatim>\<open>for (i \<dots>) dst[i] = src[i] & ~U\<close>, over the listed entries.\<close>

definition copy_supervisor :: "bool \<Rightarrow> u32 \<Rightarrow> u32 \<Rightarrow> nat list \<Rightarrow> 'c machine \<Rightarrow> 'c machine" where
  "copy_supervisor arch64 src dst ixs m =
     fold (\<lambda>i m. pte_write arch64 dst i (pte_read arch64 m src i AND NOT PTE_U) m) ixs m"

section \<open>Creation and destruction\<close>

definition wipe :: "'c ku_ops \<Rightarrow> u32 \<Rightarrow> 'c machine \<Rightarrow> 'c machine" where
  "wipe ops p m = release ops p (set_page p zero_page m)"

definition ku_destroy :: "'c ku_ops \<Rightarrow> ku_space \<times> 'c machine \<Rightarrow> (ku_space \<times> 'c machine) \<times> int" where
  "ku_destroy ops sm =
     (case sm of (s, m) \<Rightarrow>
        if sp_pins s \<noteq> 0 then (sm, -1)
        else if \<not> sp_live s then (sm, 0)
        else ((ku_zero, fold (wipe ops) (sp_tables s) (fold (wipe ops) (filter (\<lambda>p. p \<noteq> 0) (sp_frames s)) m)), 0))"

text \<open>One step down the kernel's tables: the frame of a present entry that is not a large page.\<close>

definition borrow_entry :: "'c ku_ops \<Rightarrow> u64 \<Rightarrow> ku_space \<Rightarrow> ku_space option" where
  "borrow_entry ops e s = (if e AND PTE_P = 0 \<or> e AND PTE_PS \<noteq> 0 then None else borrow ops (pte_address e) s)"

definition arena_index :: "bool \<Rightarrow> nat" where
  "arena_index arch64 = unat (drop_bit (if arch64 then 21 else 22) KU_BASE)"

definition link_entry :: "u32 \<Rightarrow> u64" where
  "link_entry p = ucast p OR PTE_P OR PTE_W OR PTE_U"

definition spine64 :: "ku_space \<Rightarrow> 'c machine \<Rightarrow> 'c machine" where
  "spine64 s m =
     (let t = sp_tables s; b = sp_borrowed s;
          m = fold (\<lambda>l. copy_supervisor True (b ! l) (t ! l) [0..<512]) [0..<3] m;
          m = pte_write True (t ! 0) 0 (link_entry (t ! 1)) m;
          m = pte_write True (t ! 1) 0 (link_entry (t ! 2)) m
      in pte_write True (t ! 2) (arena_index True) (link_entry (t ! 3)) m)"

definition first_pte :: nat where
  "first_pte = unat (drop_bit 12 KU_BASE AND 1023)"

definition spine32 :: "ku_space \<Rightarrow> 'c machine \<Rightarrow> 'c machine" where
  "spine32 s m =
     (let t = sp_tables s; b = sp_borrowed s;
          m = fold (\<lambda>l. copy_supervisor False (b ! l) (t ! l) [0..<1024]) [0..<2] m;
          m = fold (\<lambda>i. pte_write False (t ! 1) i 0) [first_pte..<1024] m
      in pte_write False (t ! 0) (arena_index False) (link_entry (t ! 1)) m)"

definition borrow_spine :: "'c ku_ops \<Rightarrow> u32 \<Rightarrow> 'c machine \<Rightarrow> ku_space \<Rightarrow> ku_space \<times> bool" where
  "borrow_spine ops root m s =
     (case borrow ops root s of None \<Rightarrow> (s, False) | Some s \<Rightarrow>
      if sp_arch64 s
      then let e = pte_read True m root 0 in
           (case borrow_entry ops e s of None \<Rightarrow> (s, False) | Some s \<Rightarrow>
            (case borrow_entry ops (pte_read True m (pte_address e) 0) s of None \<Rightarrow> (s, False) | Some s \<Rightarrow> (s, True)))
      else (case borrow_entry ops (pte_read False m root (arena_index False)) s of None \<Rightarrow> (s, False) | Some s \<Rightarrow> (s, True)))"

definition ku_create :: "'c ku_ops \<Rightarrow> u32 \<Rightarrow> int \<Rightarrow> int \<Rightarrow> ku_space \<times> 'c machine \<Rightarrow> (ku_space \<times> 'c machine) \<times> int" where
  "ku_create ops root arch64 nx sm =
     (case sm of (s, m) \<Rightarrow>
        if sp_live s \<or> (arch64 \<noteq> 0 \<and> arch64 \<noteq> 1) \<or> (nx \<noteq> 0 \<and> nx \<noteq> 1) \<or> (nx \<noteq> 0 \<and> arch64 = 0) then (sm, -1)
        else
          let s = ku_zero\<lparr>sp_live := True, sp_arch64 := arch64 \<noteq> 0, sp_nx := nx \<noteq> 0\<rparr> in
          (case borrow_spine ops root m s of
             (s, False) \<Rightarrow> (fst (ku_destroy ops (s, m)), -1)
           | (s, True) \<Rightarrow>
               (case add_tables (if sp_arch64 s then 4 else 2) ops (s, m) of
                  (sm, False) \<Rightarrow> (fst (ku_destroy ops sm), -1)
                | ((s, m), True) \<Rightarrow>
                    ((s\<lparr>sp_root := sp_tables s ! 0\<rparr>, if sp_arch64 s then spine64 s m else spine32 s m), 0))))"

section \<open>Refreshing and pinning\<close>

definition spine_stable :: "'c ku_ops \<Rightarrow> ku_space \<Rightarrow> 'c machine \<Rightarrow> bool" where
  "spine_stable ops s m \<longleftrightarrow>
     (let b = sp_borrowed s; t = sp_tables s;
          same = (\<lambda>e p. e AND PTE_P \<noteq> 0 \<and> e AND PTE_PS = 0 \<and> pte_address e = p) in
      if sp_arch64 s
      then length b = 3 \<and> length t = 4 \<and> list_all (\<lambda>l. direct ops (b ! l) \<and> direct ops (t ! l)) [0..<3] \<and>
           list_all (\<lambda>l. same (pte_read True m (b ! l) 0) (b ! (l + 1))) [0..<2]
      else length b = 2 \<and> length t = 2 \<and> list_all (\<lambda>l. direct ops (b ! l) \<and> direct ops (t ! l)) [0..<2] \<and>
           same (pte_read False m (b ! 0) (arena_index False)) (b ! 1))"

definition ku_refresh :: "'c ku_ops \<Rightarrow> u32 \<Rightarrow> ku_space \<Rightarrow> 'c machine \<Rightarrow> 'c machine \<times> int" where
  "ku_refresh ops root s m =
     (if \<not> sp_live s \<or> root \<noteq> sp_borrowed s ! 0 then (m, -1)
      else if \<not> spine_stable ops s m then (m, -1)
      else let b = sp_borrowed s; t = sp_tables s in
        if sp_arch64 s
        then (fold (\<lambda>l. copy_supervisor True (b ! l) (t ! l)
                      (filter (\<lambda>i. i \<noteq> (if l = 2 then arena_index True else 0)) [0..<512])) [0..<3] m, 0)
        else (copy_supervisor False (b ! 1) (t ! 1) [0..<first_pte]
                (copy_supervisor False (b ! 0) (t ! 0) (filter (\<lambda>i. i \<noteq> arena_index False) [0..<1024]) m), 0))"

definition ku_pin :: "ku_space \<Rightarrow> ku_space \<times> int" where
  "ku_pin s = (if \<not> sp_live s \<or> sp_pins s = 0xFFFFFFFF then (s, -1) else (s\<lparr>sp_pins := sp_pins s + 1\<rparr>, 0))"

definition ku_unpin :: "ku_space \<Rightarrow> ku_space \<times> int" where
  "ku_unpin s = (if \<not> sp_live s \<or> sp_pins s = 0 then (s, -1) else (s\<lparr>sp_pins := sp_pins s - 1\<rparr>, 0))"

section \<open>Mapping and copying\<close>

definition page_entry :: "ku_space \<Rightarrow> u32 \<Rightarrow> u32 \<Rightarrow> u64" where
  "page_entry s p rights =
     ucast p OR PTE_P OR PTE_U OR (if rights AND KU_W \<noteq> 0 then PTE_W else 0)
       OR (if sp_arch64 s \<and> sp_nx s \<and> rights AND KU_X = 0 then PTE_NX else 0)"

definition ku_map :: "'c ku_ops \<Rightarrow> u32 \<Rightarrow> u32 \<Rightarrow> ku_space \<times> 'c machine \<Rightarrow> (ku_space \<times> 'c machine) \<times> int" where
  "ku_map ops off rights sm =
     (case sm of (s, m) \<Rightarrow>
        if \<not> sp_live s \<or> sp_pins s \<noteq> 0 \<or> off \<ge> KU_SIZE \<or> off AND 4095 \<noteq> 0 \<or> rights AND KU_R = 0
           \<or> rights AND NOT 7 \<noteq> 0 \<or> rights AND (KU_W OR KU_X) = KU_W OR KU_X then (sm, -1)
        else let i = unat (drop_bit 12 off) in
          if sp_frames s ! i \<noteq> 0 then (sm, -1)
          else (case new_frame ops s m of
                  (m, p) \<Rightarrow>
                    if p = 0 then ((s, m), -1)
                    else
                      let s = s\<lparr>sp_frames := (sp_frames s)[i := p], sp_rights := (sp_rights s)[i := ucast rights]\<rparr> in
                      ((s, if sp_arch64 s then pte_write True (sp_tables s ! 3) i (page_entry s p rights) m
                           else pte_write False (sp_tables s ! 1) (unat (drop_bit 12 (KU_BASE + off) AND 1023)) (page_entry s p rights) m), 0)))"

text \<open>The page walk of \<^verbatim>\<open>translate\<close>, from the root down.\<close>

definition walk_index :: "bool \<Rightarrow> u32 \<Rightarrow> nat \<Rightarrow> nat" where
  "walk_index arch64 virt l =
     unat (drop_bit (12 + (if arch64 then 9 else 10) * l) (ucast virt :: u64) AND (if arch64 then 511 else 1023))"

definition entry_denied :: "ku_space \<Rightarrow> u32 \<Rightarrow> nat \<Rightarrow> u64 \<Rightarrow> bool" where
  "entry_denied s rights l e \<longleftrightarrow>
     e AND (PTE_P OR PTE_U) \<noteq> PTE_P OR PTE_U \<or> (rights AND KU_W \<noteq> 0 \<and> e AND PTE_W = 0) \<or>
     (sp_arch64 s \<and> e AND PTE_NX \<noteq> 0 \<and> (\<not> sp_nx s \<or> rights AND KU_X \<noteq> 0)) \<or> (l \<noteq> 0 \<and> e AND PTE_PS \<noteq> 0)"

fun walk :: "'c ku_ops \<Rightarrow> ku_space \<Rightarrow> 'c machine \<Rightarrow> u32 \<Rightarrow> u32 \<Rightarrow> nat list \<Rightarrow> u32 \<Rightarrow> u32" where
  "walk ops s m virt rights [] frame = frame"
| "walk ops s m virt rights (l # ls) frame =
     (if \<not> direct ops frame then 0
      else let e = pte_read (sp_arch64 s) m frame (walk_index (sp_arch64 s) virt l) in
        if entry_denied s rights l e then 0
        else if pte_address e = 0 then 0 else walk ops s m virt rights ls (pte_address e))"

definition translate :: "'c ku_ops \<Rightarrow> ku_space \<Rightarrow> 'c machine \<Rightarrow> u32 \<Rightarrow> u32 \<Rightarrow> u32" where
  "translate ops s m off rights =
     (let frame = walk ops s m (KU_BASE + off) rights (if sp_arch64 s then [3, 2, 1, 0] else [1, 0]) (sp_root s)
      in if frame = sp_frames s ! unat (drop_bit 12 off) \<and> direct ops frame then frame else 0)"

definition ku_check :: "'c ku_ops \<Rightarrow> ku_space \<Rightarrow> 'c machine \<Rightarrow> u32 \<Rightarrow> u32 \<Rightarrow> u32 \<Rightarrow> bool" where
  "ku_check ops s m off len rights \<longleftrightarrow>
     sp_live s \<and> rights \<noteq> 0 \<and> rights AND NOT 7 = 0 \<and> off \<le> KU_SIZE \<and> len \<le> KU_SIZE - off \<and>
     (len = 0 \<or>
      list_all (\<lambda>i. ucast (sp_rights s ! i) AND rights = rights \<and> translate ops s m (push_bit 12 (of_nat i)) rights \<noteq> 0)
        [unat (drop_bit 12 off)..<unat (drop_bit 12 (off + len - 1)) + 1])"

text \<open>\<^verbatim>\<open>copy\<close> between a kernel buffer and the space, page by page; reading yields the bytes.\<close>

function copy_in_pages :: "ku_space \<Rightarrow> 'c machine \<Rightarrow> nat \<Rightarrow> nat \<Rightarrow> u8 list" where
  "copy_in_pages s m off len =
     (if len = 0 then []
      else let inside = off mod 4096; n = min (KU_PAGE - inside) len in
        take n (drop inside (ma_page m (sp_frames s ! (off div 4096)))) @ copy_in_pages s m (off + n) (len - n))"
  by pat_completeness auto
termination
  by (relation "measure (\<lambda>(_, _, _, len). len)") (auto simp: KU_PAGE_def)

declare copy_in_pages.simps [simp del]

definition page_splice :: "nat \<Rightarrow> u8 list \<Rightarrow> u8 list \<Rightarrow> u8 list" where
  "page_splice i bs pg = take i pg @ bs @ drop (i + length bs) pg"

function copy_out_pages :: "ku_space \<Rightarrow> nat \<Rightarrow> u8 list \<Rightarrow> 'c machine \<Rightarrow> 'c machine" where
  "copy_out_pages s off bs m =
     (if bs = [] then m
      else let inside = off mod 4096; n = min (KU_PAGE - inside) (length bs); p = sp_frames s ! (off div 4096) in
        copy_out_pages s (off + n) (drop n bs) (set_page p (page_splice inside (take n bs) (ma_page m p)) m))"
  by pat_completeness auto
termination
  by (relation "measure (\<lambda>(_, _, bs, _). length bs)") (auto simp: KU_PAGE_def)

declare copy_out_pages.simps [simp del]

definition ku_copyin :: "'c ku_ops \<Rightarrow> ku_space \<Rightarrow> 'c machine \<Rightarrow> u32 \<Rightarrow> u32 \<Rightarrow> u8 list option" where
  "ku_copyin ops s m off len =
     (if \<not> ku_check ops s m off len KU_R then None else Some (copy_in_pages s m (unat off) (unat len)))"

definition ku_copyout :: "'c ku_ops \<Rightarrow> ku_space \<Rightarrow> u32 \<Rightarrow> u8 list \<Rightarrow> 'c machine \<Rightarrow> 'c machine option" where
  "ku_copyout ops s off bs m =
     (if \<not> ku_check ops s m off (of_nat (length bs)) (KU_R OR KU_W) then None else Some (copy_out_pages s (unat off) bs m))"

definition ku_load :: "'c ku_ops \<Rightarrow> ku_space \<Rightarrow> u32 \<Rightarrow> u8 list \<Rightarrow> 'c machine \<Rightarrow> 'c machine option" where
  "ku_load ops s off bs m =
     (if sp_pins s \<noteq> 0 then None
      else if \<not> ku_check ops s m off (of_nat (length bs)) KU_R then None else Some (copy_out_pages s (unat off) bs m))"

end
