(* ===== verification/User_Image.thy ===== *)
theory User_Image
  imports User_Space
begin

text \<open>
  The loader of sandboxed program images, \<^verbatim>\<open>kernel/user_image.c\<close>: validation of the image header into a
  plan of the address space, and its execution by the operations of the address space.
\<close>

definition KI_HEADER :: nat where "KI_HEADER = 96"
definition KI_PAYLOAD_MAX :: nat where "KI_PAYLOAD_MAX = 65536"
definition KI_BOOT_OFF :: u32 where "KI_BOOT_OFF = KU_SIZE - 0x20000"

definition get16 :: "u8 list \<Rightarrow> nat \<Rightarrow> u32" where
  "get16 p i = ucast (p ! i) OR push_bit 8 (ucast (p ! (i + 1)))"

record ki_plan =
  pl_entry :: u32
  pl_text_bytes :: u32
  pl_data_va :: u32
  pl_data_file :: u32
  pl_data_bytes :: u32
  pl_bss_bytes :: u32
  pl_stack_bytes :: u32
  pl_title :: "u8 list"

definition ki_plan_at :: "u8 list \<Rightarrow> ki_plan" where
  "ki_plan_at b = \<lparr>pl_entry = get32 b 20, pl_text_bytes = get32 b 64, pl_data_va = get32 b 68, pl_data_file = get32 b 72,
     pl_data_bytes = get32 b 76, pl_bss_bytes = get32 b 80, pl_stack_bytes = get32 b 84, pl_title = take 32 (drop 32 b)\<rparr>"

definition header_bad :: "u8 list \<Rightarrow> u32 \<Rightarrow> int \<Rightarrow> bool" where
  "header_bad b payload arch64 \<longleftrightarrow>
     take 4 b \<noteq> [0x4B, 0x41, 0x50, 0x50] \<or> get16 b 4 \<noteq> 2 \<or> get16 b 6 \<noteq> of_nat KI_HEADER \<or> get32 b 8 \<noteq> 4 \<or>
     get32 b 12 \<noteq> 1 OR (if arch64 \<noteq> 0 then 256 else 0) \<or> get32 b 16 \<noteq> KU_BASE \<or> get32 b 24 \<noteq> payload \<or>
     get32 b 88 \<noteq> 1 \<or> get32 b 92 \<noteq> 0"

definition plan_bad :: "ki_plan \<Rightarrow> u32 \<Rightarrow> u32 \<Rightarrow> bool" where
  "plan_bad p payload memory \<longleftrightarrow>
     pl_text_bytes p = 0 \<or> pl_text_bytes p > payload \<or> pl_entry p < KU_BASE \<or> pl_entry p - KU_BASE \<ge> pl_text_bytes p \<or>
     pl_data_va p AND 4095 \<noteq> 0 \<or> pl_data_va p < (pl_text_bytes p + 4095) AND NOT 4095 \<or> pl_data_va p > KI_BOOT_OFF \<or>
     pl_data_bytes p > KI_BOOT_OFF - pl_data_va p \<or> pl_bss_bytes p > KI_BOOT_OFF - pl_data_va p - pl_data_bytes p \<or>
     pl_bss_bytes p \<noteq> memory \<or> pl_data_file p < pl_text_bytes p \<or> pl_data_file p AND 15 \<noteq> 0 \<or>
     pl_data_file p > payload \<or> pl_data_bytes p \<noteq> payload - pl_data_file p \<or>
     pl_stack_bytes p < 4096 \<or> pl_stack_bytes p > 65536 \<or> pl_stack_bytes p AND 4095 \<noteq> 0"

definition ki_validate :: "u8 list \<Rightarrow> int \<Rightarrow> ki_plan option" where
  "ki_validate b arch64 =
     (if (arch64 \<noteq> 0 \<and> arch64 \<noteq> 1) \<or> length b < KI_HEADER \<or> length b > KI_HEADER + KI_PAYLOAD_MAX then None
      else let payload = of_nat (length b - KI_HEADER); p = ki_plan_at b in
        if header_bad b payload arch64 then None
        else if plan_bad p payload (get32 b 28) then None
        else if 0 \<notin> set (pl_title p) then None
        else if \<not> list_all (\<lambda>i. b ! (KI_HEADER + i) = 0) [unat (pl_text_bytes p)..<unat (pl_data_file p)] then None
        else Some p)"

text \<open>\<^verbatim>\<open>for (off = a; off < b; off += 4096) if (ku_map(\<dots>)) goto fail\<close>; the bounds of a validated plan are
  far below the wrap-around, and the pages are counted from \<open>base\<close>.\<close>

fun map_pages :: "'c ku_ops \<Rightarrow> u32 \<Rightarrow> u32 \<Rightarrow> nat \<Rightarrow> ku_space \<times> 'c machine \<Rightarrow> (ku_space \<times> 'c machine) \<times> bool" where
  "map_pages ops base rights 0 sm = (sm, True)"
| "map_pages ops base rights (Suc n) sm =
     (case ku_map ops base rights sm of
        (sm, c) \<Rightarrow> if c \<noteq> 0 then (sm, False) else map_pages ops (base + 4096) rights n sm)"

definition pages_of :: "u32 \<Rightarrow> nat" where
  "pages_of n = (unat n + 4095) div 4096"

definition ki_map :: "'c ku_ops \<Rightarrow> ki_plan \<Rightarrow> ku_space \<times> 'c machine \<Rightarrow> (ku_space \<times> 'c machine) \<times> bool" where
  "ki_map ops p sm =
     (case map_pages ops 0 (KU_R OR KU_X) (pages_of (pl_text_bytes p)) sm of
        (sm, False) \<Rightarrow> (sm, False)
      | (sm, True) \<Rightarrow>
          (case map_pages ops (pl_data_va p) (KU_R OR KU_W) (pages_of (pl_data_bytes p + pl_bss_bytes p)) sm of
             (sm, False) \<Rightarrow> (sm, False)
           | (sm, True) \<Rightarrow>
               (case map_pages ops (KU_SIZE - pl_stack_bytes p) (KU_R OR KU_W) (pages_of (pl_stack_bytes p)) sm of
                  (sm, False) \<Rightarrow> (sm, False)
                | (sm, True) \<Rightarrow> (case ku_map ops KI_BOOT_OFF KU_R sm of (sm, c) \<Rightarrow> (sm, c = 0)))))"

definition ki_fill :: "'c ku_ops \<Rightarrow> u8 list \<Rightarrow> ki_plan \<Rightarrow> ku_space \<Rightarrow> 'c machine \<Rightarrow> 'c machine \<times> bool" where
  "ki_fill ops b p s m =
     (case ku_load ops s 0 (take (unat (pl_text_bytes p)) (drop KI_HEADER b)) m of
        None \<Rightarrow> (m, False)
      | Some m \<Rightarrow>
          (case ku_load ops s (pl_data_va p) (take (unat (pl_data_bytes p)) (drop (KI_HEADER + unat (pl_data_file p)) b)) m of
             None \<Rightarrow> (m, False) | Some m \<Rightarrow> (m, True)))"

definition ki_load :: "'c ku_ops \<Rightarrow> u32 \<Rightarrow> u8 list \<Rightarrow> int \<Rightarrow> int \<Rightarrow> ku_space \<times> 'c machine \<Rightarrow>
    (ku_space \<times> 'c machine) \<times> ki_plan option" where
  "ki_load ops root b arch64 nx sm =
     (case ki_validate b arch64 of
        None \<Rightarrow> (sm, None)
      | Some p \<Rightarrow>
          (case ku_create ops root arch64 nx sm of
             (sm, c) \<Rightarrow>
               if c \<noteq> 0 then (sm, None)
               else (case ki_map ops p sm of
                       (sm, False) \<Rightarrow> (fst (ku_destroy ops sm), None)
                     | ((s, m), True) \<Rightarrow>
                         (case ki_fill ops b p s m of
                            (m, False) \<Rightarrow> (fst (ku_destroy ops (s, m)), None)
                          | (m, True) \<Rightarrow> ((s, m), Some p)))))"

end
