(* ===== verification/User_Tables.thy ===== *)
theory User_Tables
  imports User_Space
begin

text \<open>
  Page-table entries of \<^verbatim>\<open>kernel/user_space.c\<close>: what is read back after a write, and the bits of the entries the code builds.
\<close>

section \<open>Entries\<close>

lemma join_u64: "(ucast (ucast (e :: u64) :: u32) :: u64) OR push_bit 32 (ucast (ucast (drop_bit 32 e) :: u32)) = e"
proof (rule bit_word_eqI)
  fix k assume k: "k < LENGTH(64)"
  show "bit ((ucast (ucast (e :: u64) :: u32) :: u64) OR push_bit 32 (ucast (ucast (drop_bit 32 e) :: u32))) k = bit e k"
    using k by (cases "k < 32") (auto simp: bit_simps)
qed

lemma length_put64 [simp, len_simps]: "length (put64 i e p) = length p"
  by (simp add: put64_def)

lemma get64_put64:
  "i + 8 \<le> length p \<Longrightarrow> get64 (put64 i e p) i = e"
  "j + 8 \<le> i \<or> i + 8 \<le> j \<Longrightarrow> get64 (put64 i e p) j = get64 p j"
  by (simp_all add: get64_def put64_def join_u64) auto

lemma length_pte_put [simp]: "length (pte_put a i e pg) = length pg"
  by (simp add: pte_put_def)

definition entries :: "bool \<Rightarrow> nat" where
  "entries a = (if a then 512 else 1024)"

text \<open>An entry of a table: on i386 only the low half is there.\<close>

definition pte_trim :: "bool \<Rightarrow> u64 \<Rightarrow> u64" where
  "pte_trim a e = (if a then e else ucast (ucast e :: u32))"

lemma pte_get_put:
  assumes "length pg = 4096" "i < entries a"
  shows "pte_get a (pte_put a i e pg) j = (if j = i then pte_trim a e else pte_get a pg j)"
proof (cases "j = i")
  case True
  then show ?thesis using assms by (auto simp: pte_get_def pte_put_def pte_trim_def entries_def get64_put64 split: if_splits)
next
  case False
  then have "j < i \<or> i < j" by auto
  then show ?thesis using False by (auto simp: pte_get_def pte_put_def get64_put64)
qed

lemma page_set [simp]: "ma_page (set_page p pg m) = (ma_page m)(p := pg)" "ma_ctx (set_page p pg m) = ma_ctx m"
  by (simp_all add: set_page_def)

lemma page_release [simp]: "ma_page (release ops p m) = ma_page m"
  by (simp add: release_def)

definition pages_ok :: "'c machine \<Rightarrow> bool" where
  "pages_ok m \<longleftrightarrow> (\<forall>p. length (ma_page m p) = 4096)"

lemma pte_read_write:
  assumes "pages_ok m" "i < entries a"
  shows "pte_read a (pte_write a p i e m) q j = (if q = p \<and> j = i then pte_trim a e else pte_read a m q j)"
  using assms by (simp add: pte_read_def pte_write_def pages_ok_def pte_get_put)

lemma pages_ok_simps [simp]:
  "pages_ok (pte_write a p i e m) = pages_ok m" "pages_ok (release ops p m) = pages_ok m"
  "pages_ok m \<Longrightarrow> pages_ok (set_page p zero_page m)"
  by (auto simp: pages_ok_def pte_write_def zero_page_def KU_PAGE_def)

lemma pte_write_other [simp]: "q \<noteq> p \<Longrightarrow> ma_page (pte_write a p i e m) q = ma_page m q"
  by (simp add: pte_write_def)

lemma get32_zero: "i + 4 \<le> n \<Longrightarrow> get32 (replicate n 0) i = 0"
  by (simp add: get32_def)

lemma pte_zero_page: "i < entries a \<Longrightarrow> pte_get a zero_page i = 0"
  by (auto simp: pte_get_def zero_page_def KU_PAGE_def get64_def get32_zero entries_def split: if_splits)

lemma pte_trim_user: "pte_trim a e AND PTE_U = e AND PTE_U" "pte_trim a (e AND NOT PTE_U) AND PTE_U = 0"
proof -
  have "(ucast (ucast e :: u32) :: u64) AND 4 = e AND 4" for e :: u64
  proof (rule bit_word_eqI)
    fix k assume "k < LENGTH(64)"
    have "bit (4 :: u64) k \<longleftrightarrow> k = 2" using bit_exp_iff[of 2 k, where 'a = u64] \<open>k < LENGTH(64)\<close> by auto
    then show "bit ((ucast (ucast e :: u32) :: u64) AND 4) k = bit (e AND 4) k" by (auto simp: bit_simps)
  qed
  then have t: "pte_trim a e AND PTE_U = e AND PTE_U" for e by (simp add: pte_trim_def PTE_U_def)
  then show "pte_trim a e AND PTE_U = e AND PTE_U" "pte_trim a (e AND NOT PTE_U) AND PTE_U = 0"
    by (simp_all add: and.assoc)
qed

lemma copy_supervisor_read:
  assumes "pages_ok m" "src \<noteq> dst" "\<forall>i\<in>set ixs. i < entries a"
  shows "pages_ok (copy_supervisor a src dst ixs m)"
    "pte_read a (copy_supervisor a src dst ixs m) q j =
       (if q = dst \<and> j \<in> set ixs then pte_trim a (pte_read a m src j AND NOT PTE_U) else pte_read a m q j)"
proof -
  have "pages_ok (copy_supervisor a src dst ixs m) \<and>
    (\<forall>q j. pte_read a (copy_supervisor a src dst ixs m) q j =
       (if q = dst \<and> j \<in> set ixs then pte_trim a (pte_read a m src j AND NOT PTE_U) else pte_read a m q j))"
    using assms(1,3) unfolding copy_supervisor_def
  proof (induction ixs arbitrary: m)
    case (Cons i ixs)
    let ?m = "pte_write a dst i (pte_read a m src i AND NOT PTE_U) m"
    have r: "pte_read a ?m q j = (if q = dst \<and> j = i then pte_trim a (pte_read a m src i AND NOT PTE_U) else pte_read a m q j)" for q j
      using Cons.prems by (intro pte_read_write) auto
    have p: "pages_ok ?m" "\<forall>i\<in>set ixs. i < entries a" using Cons.prems by simp_all
    note ih = Cons.IH[OF p]
    show ?case using ih assms(2) by (auto simp: r)
  qed simp
  then show "pages_ok (copy_supervisor a src dst ixs m)"
    "pte_read a (copy_supervisor a src dst ixs m) q j =
       (if q = dst \<and> j \<in> set ixs then pte_trim a (pte_read a m src j AND NOT PTE_U) else pte_read a m q j)" by auto
qed

lemma copy_supervisor_other: "q \<noteq> dst \<Longrightarrow> ma_page (copy_supervisor a src dst ixs m) q = ma_page m q"
  unfolding copy_supervisor_def by (induction ixs arbitrary: m) simp_all

section \<open>Bits of an entry\<close>

lemma pte_bits:
  "bit PTE_P k \<longleftrightarrow> k = 0" "bit PTE_W k \<longleftrightarrow> k = 1" "bit PTE_U k \<longleftrightarrow> k = 2" "bit PTE_PS k \<longleftrightarrow> k = 7" "bit PTE_NX k \<longleftrightarrow> k = 63"
  "bit PTE_ADDRESS k \<longleftrightarrow> 12 \<le> k \<and> k < 52"
proof -
  have c: "PTE_P = 2 ^ 0" "PTE_W = 2 ^ 1" "PTE_U = 2 ^ 2" "PTE_PS = 2 ^ 7"
    by (simp_all add: PTE_P_def PTE_W_def PTE_U_def PTE_PS_def)
  show "bit PTE_P k \<longleftrightarrow> k = 0" "bit PTE_W k \<longleftrightarrow> k = 1" "bit PTE_U k \<longleftrightarrow> k = 2" "bit PTE_PS k \<longleftrightarrow> k = 7"
    unfolding c bit_exp_iff by auto
  have n: "PTE_NX = 2 ^ 63" by (simp add: PTE_NX_def)
  show "bit PTE_NX k \<longleftrightarrow> k = 63" unfolding n bit_exp_iff by auto
  have a: "PTE_ADDRESS = push_bit 12 (mask 40)" by (simp add: PTE_ADDRESS_def mask_eq_exp_minus_1)
  show "bit PTE_ADDRESS k \<longleftrightarrow> 12 \<le> k \<and> k < 52" unfolding a by (auto simp: bit_simps)
qed

lemma and_single_bit:
  assumes "\<And>k. bit f k \<longleftrightarrow> k = n" "n < 64"
  shows "(e :: u64) AND f = 0 \<longleftrightarrow> \<not> bit e n"
proof
  assume "e AND f = 0"
  then have "\<not> bit (e AND f) n" by simp
  then show "\<not> bit e n" using assms by (simp add: bit_and_iff)
next
  assume "\<not> bit e n"
  then show "e AND f = 0" using assms(1) by (intro bit_word_eqI) (auto simp: bit_and_iff)
qed

lemma and_flag: "e AND PTE_P = 0 \<longleftrightarrow> \<not> bit e 0" "e AND PTE_W = 0 \<longleftrightarrow> \<not> bit e 1" "e AND PTE_U = 0 \<longleftrightarrow> \<not> bit e 2"
  "e AND PTE_PS = 0 \<longleftrightarrow> \<not> bit e 7" "e AND PTE_NX = 0 \<longleftrightarrow> \<not> bit e 63"
  by (rule and_single_bit; simp add: pte_bits)+

lemma and_present_user: "e AND (PTE_P OR PTE_U) = PTE_P OR PTE_U \<longleftrightarrow> bit e 0 \<and> bit e 2"
proof
  assume "e AND (PTE_P OR PTE_U) = PTE_P OR PTE_U"
  then have "bit (e AND (PTE_P OR PTE_U)) k = bit (PTE_P OR PTE_U) k" for k by simp
  from this[of 0] this[of 2] show "bit e 0 \<and> bit e 2" by (simp add: bit_and_iff bit_or_iff pte_bits)
next
  assume "bit e 0 \<and> bit e 2"
  then show "e AND (PTE_P OR PTE_U) = PTE_P OR PTE_U"
    by (intro bit_word_eqI) (auto simp: bit_and_iff bit_or_iff pte_bits)
qed

lemma valid_frame_bits:
  assumes "valid_frame p" "bit p k"
  shows "12 \<le> k" "k < 27"
proof -
  have m: "(4095 :: u32) = mask 12" by (simp add: mask_eq_exp_minus_1)
  have "p AND mask 12 = 0" using assms(1) by (simp add: valid_frame_def m[symmetric])
  then have "\<not> bit (p AND mask 12) k" by simp
  then show "12 \<le> k" using assms(2) bit_imp_le_length[OF assms(2)] by (simp add: bit_simps)
  show "k < 27"
  proof (rule ccontr)
    assume "\<not> k < 27"
    then have "(2 :: nat) ^ 27 \<le> 2 ^ k" by (intro power_increasing) auto
    moreover have "unat p < 2 ^ 27" using assms(1) by (simp add: valid_frame_def KU_DIRECT_LIMIT_def word_less_nat_alt)
    ultimately have "unat (drop_bit k p) = 0" unfolding unat_drop_bit_eq by (simp add: drop_bit_eq_div)
    then have "drop_bit k p = 0" by (simp add: unat_eq_0)
    then show False using assms(2) by (simp add: bit_iff_odd_drop_bit)
  qed
qed

lemma valid_frame_flags:
  assumes "valid_frame p"
  shows "\<not> bit p 0" "\<not> bit p (Suc 0)" "\<not> bit p 2" "\<not> bit p 7" "\<not> bit p 63"
  using valid_frame_bits[OF assms] by fastforce+

text \<open>An entry with the given flags that refers to \<open>p\<close>.\<close>

definition refers :: "u64 \<Rightarrow> u32 \<Rightarrow> bool" where
  "refers e p \<longleftrightarrow> (\<forall>k. 12 \<le> k \<and> k < 52 \<longrightarrow> bit e k = bit p k)"

lemma refers_address:
  assumes "refers e p" "valid_frame p"
  shows "pte_address e = p" "e AND PTE_ADDRESS = ucast p"
proof -
  show e: "e AND PTE_ADDRESS = ucast p"
  proof (rule bit_word_eqI)
    fix k assume "k < LENGTH(64)"
    show "bit (e AND PTE_ADDRESS) k = bit (ucast p :: u64) k"
      using assms(1) valid_frame_bits[OF assms(2), of k] \<open>k < LENGTH(64)\<close>
      by (auto simp: refers_def bit_simps pte_bits dest: bit_imp_le_length)
  qed
  have "(ucast p :: u64) < ucast KU_DIRECT_LIMIT"
    using assms(2) by (simp add: valid_frame_def word_less_nat_alt unat_ucast_32_64)
  moreover have "ucast (ucast p :: u64) = p" by (rule bit_word_eqI) (auto simp: bit_simps)
  ultimately show "pte_address e = p" by (simp add: pte_address_def e Let_def)
qed

lemma bit_trim: "bit (pte_trim a e) k \<longleftrightarrow> bit e k \<and> (a \<or> k < 32)"
  by (auto simp: pte_trim_def bit_simps dest: bit_imp_le_length)

lemma link_entry_facts:
  assumes "valid_frame p"
  shows "refers (pte_trim a (link_entry p)) p" "bit (pte_trim a (link_entry p)) 0" "bit (pte_trim a (link_entry p)) 1"
    "bit (pte_trim a (link_entry p)) 2" "\<not> bit (pte_trim a (link_entry p)) 7" "\<not> bit (pte_trim a (link_entry p)) 63"
  using valid_frame_flags[OF assms]
  by (auto simp: refers_def bit_trim link_entry_def bit_simps pte_bits dest: bit_imp_le_length)

lemma page_entry_facts:
  assumes "valid_frame p"
  shows "refers (pte_trim (sp_arch64 s) (page_entry s p r)) p" "bit (pte_trim (sp_arch64 s) (page_entry s p r)) 0"
    "bit (pte_trim (sp_arch64 s) (page_entry s p r)) 1 \<longleftrightarrow> r AND KU_W \<noteq> 0"
    "bit (pte_trim (sp_arch64 s) (page_entry s p r)) 2"
    "bit (pte_trim (sp_arch64 s) (page_entry s p r)) 63 \<longleftrightarrow> sp_arch64 s \<and> sp_nx s \<and> r AND KU_X = 0"
  using valid_frame_flags[OF assms]
  by (auto simp: refers_def bit_trim page_entry_def bit_simps pte_bits dest: bit_imp_le_length split: if_splits)

end
