(* ===== verification/User_Walk.thy ===== *)
theory User_Walk
  imports User_Tables
begin

text \<open>
  The invariant of a live address space, and the processor's view of it: what a user access finds when it walks the tables.
\<close>

section \<open>What the tables of a live space hold\<close>

definition leaf_slot :: "bool \<Rightarrow> nat \<Rightarrow> nat" where
  "leaf_slot a i = (if a then i else first_pte + i)"

text \<open>The way down to the arena: table \<open>l\<close> is left through entry \<open>k\<close>.\<close>

definition spine_links :: "bool \<Rightarrow> (nat \<times> nat) list" where
  "spine_links a = (if a then [(0, 0), (1, 0), (2, arena_index a)] else [(0, arena_index a)])"

lemma spine_values: "arena_index True = 7" "arena_index False = 3" "first_pte = 512"
  by code_simp+

definition rights_ok :: "u8 \<Rightarrow> bool" where
  "rights_ok r \<longleftrightarrow> (let r = ucast r :: u32 in r AND KU_R \<noteq> 0 \<and> r AND NOT 7 = 0 \<and> \<not> (r AND KU_W \<noteq> 0 \<and> r AND KU_X \<noteq> 0))"

definition spine_ok :: "ku_space \<Rightarrow> 'c machine \<Rightarrow> bool" where
  "spine_ok s m \<longleftrightarrow> (let a = sp_arch64 s; t = sp_tables s in
     \<forall>(l, k)\<in>set (spine_links a). pte_read a m (t ! l) k = pte_trim a (link_entry (t ! (l + 1))) \<and>
       (\<forall>j<entries a. j \<noteq> k \<longrightarrow> \<not> bit (pte_read a m (t ! l) j) 2))"

definition leaf_ok :: "ku_space \<Rightarrow> 'c machine \<Rightarrow> bool" where
  "leaf_ok s m \<longleftrightarrow> (let a = sp_arch64 s; t = last (sp_tables s) in
     (\<forall>i<512. pte_read a m t (leaf_slot a i) =
        (if sp_frames s ! i = 0 then 0 else pte_trim a (page_entry s (sp_frames s ! i) (ucast (sp_rights s ! i))))) \<and>
     (\<forall>j<entries a. (\<forall>i<512. j \<noteq> leaf_slot a i) \<longrightarrow> \<not> bit (pte_read a m t j) 2))"

definition space_shape :: "'c ku_ops \<Rightarrow> ku_space \<Rightarrow> bool" where
  "space_shape ops s \<longleftrightarrow> sp_live s \<and> length (sp_frames s) = 512 \<and> length (sp_rights s) = 512 \<and>
     length (sp_tables s) = (if sp_arch64 s then 4 else 2) \<and> length (sp_borrowed s) = (if sp_arch64 s then 3 else 2) \<and>
     distinct (sp_tables s @ sp_borrowed s) \<and> (\<forall>p\<in>set (sp_tables s) \<union> set (sp_borrowed s). direct ops p) \<and>
     distinct (filter (\<lambda>p. p \<noteq> 0) (sp_frames s)) \<and>
     (\<forall>p\<in>set (sp_frames s). p \<noteq> 0 \<longrightarrow> direct ops p \<and> p \<notin> set (sp_tables s) \<and> p \<notin> set (sp_borrowed s)) \<and>
     sp_root s = sp_tables s ! 0 \<and>
     (\<forall>i<512. if sp_frames s ! i = 0 then sp_rights s ! i = 0 else rights_ok (sp_rights s ! i))"

definition space_inv :: "'c ku_ops \<Rightarrow> ku_space \<Rightarrow> 'c machine \<Rightarrow> bool" where
  "space_inv ops s m \<longleftrightarrow> pages_ok m \<and> space_shape ops s \<and> spine_ok s m \<and> leaf_ok s m"

lemma space_inv_cong:
  assumes "space_inv ops s m" "pages_ok m'" "\<forall>p\<in>set (sp_tables s). ma_page m' p = ma_page m p"
  shows "space_inv ops s m'"
proof -
  have l: "length (sp_tables s) = (if sp_arch64 s then 4 else 2)" using assms(1) by (simp add: space_inv_def space_shape_def)
  have r: "pte_read a m' (sp_tables s ! k) j = pte_read a m (sp_tables s ! k) j" if "k < length (sp_tables s)" for a k j
    using assms(3) that by (simp add: pte_read_def)
  have "sp_tables s \<noteq> []" using l by (cases "sp_arch64 s") auto
  then have "last (sp_tables s) = sp_tables s ! (length (sp_tables s) - 1)" by (rule last_conv_nth)
  then have "pte_read a m' (last (sp_tables s)) j = pte_read a m (last (sp_tables s)) j" for a j
    using r[of "length (sp_tables s) - 1"] l by (simp split: if_splits)
  then show ?thesis
    using assms(1,2) r l by (auto simp: space_inv_def spine_ok_def leaf_ok_def spine_links_def Let_def split: if_splits)
qed

section \<open>The processor's view\<close>

text \<open>A user access as the processor makes it: every entry on the way must be present and open to
  the user; a large page ends the walk. The result is the frame, and whether all entries
  allow writing and none forbids execution.\<close>

definition hw_index :: "bool \<Rightarrow> u64 \<Rightarrow> nat \<Rightarrow> nat" where
  "hw_index a virt l = unat (drop_bit (12 + (if a then 9 else 10) * l) virt AND (if a then 511 else 1023))"

fun hw_walk :: "bool \<Rightarrow> 'c machine \<Rightarrow> u64 \<Rightarrow> nat list \<Rightarrow> u64 \<Rightarrow> bool \<Rightarrow> bool \<Rightarrow> (u64 \<times> bool \<times> bool) option" where
  "hw_walk a m virt [] frame w x = Some (frame, w, x)"
| "hw_walk a m virt (l # ls) frame w x =
     (let e = pte_read a m (ucast frame) (hw_index a virt l) in
      if \<not> bit e 0 \<or> \<not> bit e 2 then None
      else if l \<noteq> 0 \<and> bit e 7 then Some (e AND PTE_ADDRESS, w \<and> bit e 1, x \<and> \<not> bit e 63)
      else hw_walk a m virt ls (e AND PTE_ADDRESS) (w \<and> bit e 1) (x \<and> \<not> bit e 63))"

definition user_access :: "ku_space \<Rightarrow> 'c machine \<Rightarrow> u64 \<Rightarrow> (u64 \<times> bool \<times> bool) option" where
  "user_access s m virt =
     hw_walk (sp_arch64 s) m virt (if sp_arch64 s then [3, 2, 1, 0] else [1, 0]) (ucast (sp_root s)) True True"

lemma ucast_ucast_frame: "ucast (ucast (p :: u32) :: u64) = p"
  by (rule bit_word_eqI) (auto simp: bit_simps)

lemma hw_index_nat: "hw_index True v l = unat v div 2 ^ (12 + 9 * l) mod 512" "hw_index False v l = unat v div 2 ^ (12 + 10 * l) mod 1024"
proof -
  have m: "(511 :: u64) = mask 9" "(1023 :: u64) = mask 10" by (simp_all add: mask_eq_exp_minus_1)
  have "unat (x AND mask 9) = unat x mod 512" "unat (x AND mask 10) = unat x mod 1024" for x :: u64
    by (simp_all add: take_bit_eq_mask[symmetric] take_bit_eq_mod unat_mod)
  moreover have "unat (drop_bit k v) = unat v div 2 ^ k" for k
    unfolding unat_drop_bit_eq by (simp add: drop_bit_eq_div)
  ultimately show "hw_index True v l = unat v div 2 ^ (12 + 9 * l) mod 512" "hw_index False v l = unat v div 2 ^ (12 + 10 * l) mod 1024"
    by (simp_all add: hw_index_def m)
qed

lemma hw_link:
  assumes "pte_read a m p (hw_index a virt l) = pte_trim a (link_entry q)" "valid_frame q"
  shows "hw_walk a m virt (l # ls) (ucast p) w x = hw_walk a m virt ls (ucast q) w x"
  using assms link_entry_facts[OF assms(2), of a] refers_address[of "pte_trim a (link_entry q)" q]
  by (simp add: ucast_ucast_frame)

lemma hw_spine:
  assumes inv: "space_inv ops s m" and k: "(l, k) \<in> set (spine_links (sp_arch64 s))"
    and w: "hw_walk (sp_arch64 s) m virt (lv # ls) (ucast (sp_tables s ! l)) True True = Some r"
  shows "hw_index (sp_arch64 s) virt lv = k"
    "hw_walk (sp_arch64 s) m virt ls (ucast (sp_tables s ! (l + 1))) True True = Some r"
proof -
  let ?a = "sp_arch64 s" and ?t = "sp_tables s"
  have sp: "pte_read ?a m (?t ! l) k = pte_trim ?a (link_entry (?t ! (l + 1)))"
    "\<forall>j<entries ?a. j \<noteq> k \<longrightarrow> \<not> bit (pte_read ?a m (?t ! l) j) 2"
    using inv k by (auto simp: space_inv_def spine_ok_def Let_def)
  have "hw_index ?a virt lv < entries ?a"
    using hw_index_nat[of virt lv] by (cases ?a) (simp_all add: entries_def)
  moreover have "bit (pte_read ?a m (?t ! l) (hw_index ?a virt lv)) 2"
    using w by (auto simp: Let_def ucast_ucast_frame split: if_splits)
  ultimately show i: "hw_index ?a virt lv = k" using sp(2) by blast
  have "l + 1 < length ?t" using inv k by (auto simp: space_inv_def space_shape_def spine_links_def split: if_splits)
  then have "valid_frame (?t ! (l + 1))" using inv by (auto simp: space_inv_def space_shape_def direct_def)
  from hw_link[OF _ this, of ?a m "?t ! l" virt lv ls True True]
  show "hw_walk ?a m virt ls (ucast (?t ! (l + 1))) True True = Some r" using w i sp(1) by simp
qed

lemma hw_leaf:
  assumes inv: "space_inv ops s m"
    and w: "hw_walk (sp_arch64 s) m virt [0] (ucast (last (sp_tables s))) True True = Some (f, w, x)"
  shows "\<exists>i<512. hw_index (sp_arch64 s) virt 0 = leaf_slot (sp_arch64 s) i \<and> sp_frames s ! i \<noteq> 0 \<and> f = ucast (sp_frames s ! i) \<and>
    rights_ok (sp_rights s ! i) \<and> w = (ucast (sp_rights s ! i) AND KU_W \<noteq> 0) \<and>
    (sp_arch64 s \<and> sp_nx s \<longrightarrow> x = (ucast (sp_rights s ! i) AND KU_X \<noteq> 0))"
proof -
  let ?a = "sp_arch64 s" and ?t = "last (sp_tables s)"
  let ?e = "pte_read ?a m ?t (hw_index ?a virt 0)"
  have e: "bit ?e 0" "bit ?e 2" "f = ?e AND PTE_ADDRESS" "w = bit ?e 1" "x = (\<not> bit ?e 63)"
    using w by (auto simp: Let_def ucast_ucast_frame split: if_splits)
  have "hw_index ?a virt 0 < entries ?a"
    using hw_index_nat[of virt 0] by (cases ?a) (simp_all add: entries_def)
  then obtain i where i: "i < 512" "hw_index ?a virt 0 = leaf_slot ?a i"
    using inv e(2) by (auto simp: space_inv_def leaf_ok_def Let_def)
  have v: "?e = (if sp_frames s ! i = 0 then 0 else pte_trim ?a (page_entry s (sp_frames s ! i) (ucast (sp_rights s ! i))))"
    using inv i by (auto simp: space_inv_def leaf_ok_def Let_def)
  then have nz: "sp_frames s ! i \<noteq> 0" using e(1) by auto
  have sh: "valid_frame (sp_frames s ! i)" "rights_ok (sp_rights s ! i)"
    using inv i(1) nz by (auto simp: space_inv_def space_shape_def direct_def all_set_conv_all_nth)
  have "?e = pte_trim ?a (page_entry s (sp_frames s ! i) (ucast (sp_rights s ! i)))" using v nz by simp
  then show ?thesis
    using i nz sh e page_entry_facts[OF sh(1), of s "ucast (sp_rights s ! i)"]
      refers_address(2)[OF page_entry_facts(1)[OF sh(1)] sh(1), of s "ucast (sp_rights s ! i)"] by auto
qed

lemma user_access_inside:
  assumes inv: "space_inv ops s m" and u: "user_access s m virt = Some (f, w, x)"
    and v: "unat virt < (if sp_arch64 s then 2 ^ 48 else 2 ^ 32)"
  shows "\<exists>i<512. unat virt div 4096 = unat KU_BASE div 4096 + i \<and> sp_frames s ! i \<noteq> 0 \<and> f = ucast (sp_frames s ! i) \<and>
    rights_ok (sp_rights s ! i) \<and> w = (ucast (sp_rights s ! i) AND KU_W \<noteq> 0) \<and>
    (sp_arch64 s \<and> sp_nx s \<longrightarrow> x = (ucast (sp_rights s ! i) AND KU_X \<noteq> 0))"
proof -
  let ?n = "unat virt" and ?t = "sp_tables s"
  have root: "sp_root s = ?t ! 0" using inv by (simp add: space_inv_def space_shape_def)
  have base: "unat KU_BASE div 4096 = 3584" by (simp add: KU_BASE_def)
  show ?thesis
  proof (cases "sp_arch64 s")
    case True
    have a: "sp_arch64 s = True" using True by simp
    have l: "last ?t = ?t ! 3" using inv True by (subst last_conv_nth) (auto simp: space_inv_def space_shape_def)
    have w3: "hw_walk True m virt [3, 2, 1, 0] (ucast (?t ! 0)) True True = Some (f, w, x)"
      using u True root by (simp add: user_access_def)
    note s3 = hw_spine[OF inv, of 0 0 virt 3 "[2, 1, 0]" "(f, w, x)", unfolded a]
    note s2 = hw_spine[OF inv, of 1 0 virt 2 "[1, 0]" "(f, w, x)", unfolded a]
    note s1 = hw_spine[OF inv, of 2 7 virt 1 "[0]" "(f, w, x)", unfolded a]
    have k: "(0, 0) \<in> set (spine_links True)" "(1, 0) \<in> set (spine_links True)" "(2, 7) \<in> set (spine_links True)"
      by (simp_all add: spine_links_def spine_values)
    have i3: "hw_index True virt 3 = 0" "hw_walk True m virt [2, 1, 0] (ucast (?t ! 1)) True True = Some (f, w, x)"
      using s3[OF k(1) w3] by simp_all
    have i2: "hw_index True virt 2 = 0" "hw_walk True m virt [1, 0] (ucast (?t ! 2)) True True = Some (f, w, x)"
      using s2[OF k(2)] i3(2) by (simp_all add: numeral_2_eq_2)
    have i1: "hw_index True virt 1 = 7" "hw_walk True m virt [0] (ucast (?t ! 3)) True True = Some (f, w, x)"
      using s1[OF k(3)] i2(2) by (simp_all add: numeral_3_eq_3)
    obtain i where i: "i < 512" "hw_index True virt 0 = i" "sp_frames s ! i \<noteq> 0" "f = ucast (sp_frames s ! i)"
      "rights_ok (sp_rights s ! i)" "w = (ucast (sp_rights s ! i) AND KU_W \<noteq> 0)"
      "sp_nx s \<longrightarrow> x = (ucast (sp_rights s ! i) AND KU_X \<noteq> 0)"
      using hw_leaf[OF inv, unfolded a l, OF i1(2)] by (auto simp: leaf_slot_def)
    have d: "?n div 2 ^ 39 mod 512 = 0" "?n div 2 ^ 30 mod 512 = 0" "?n div 2 ^ 21 mod 512 = 7" "?n div 2 ^ 12 mod 512 = i"
      using i3(1) i2(1) i1(1) i(2) by (simp_all add: hw_index_nat)
    have "?n div 2 ^ 39 < 512" using v True by (simp add: less_mult_imp_div_less)
    then have "?n div 2 ^ 39 = 0" using d(1) by simp
    then have "?n < 2 ^ 39" by (simp add: div_eq_0_iff)
    then have "?n div 2 ^ 30 < 512" by (simp add: less_mult_imp_div_less)
    then have "?n div 2 ^ 30 = 0" using d(2) by simp
    then have "?n < 2 ^ 30" by (simp add: div_eq_0_iff)
    then have "?n div 2 ^ 21 < 512" by (simp add: less_mult_imp_div_less)
    then have "?n div 2 ^ 21 = 7" using d(3) by simp
    moreover have "?n div 2 ^ 12 div 512 = ?n div 2 ^ 21" by (simp add: div_mult2_eq[symmetric])
    ultimately have "?n div 2 ^ 12 = 7 * 512 + i" using d(4) div_mult_mod_eq[of "?n div 2 ^ 12" 512] by simp
    then have "?n div 4096 = 3584 + i" by simp
    then show ?thesis using i True base by auto
  next
    case False
    have a: "sp_arch64 s = False" using False by simp
    have l: "last ?t = ?t ! 1" using inv False by (subst last_conv_nth) (auto simp: space_inv_def space_shape_def)
    have w1: "hw_walk False m virt [1, 0] (ucast (?t ! 0)) True True = Some (f, w, x)"
      using u False root by (simp add: user_access_def)
    note s1 = hw_spine[OF inv, of 0 3 virt 1 "[0]" "(f, w, x)", unfolded a]
    have i1: "hw_index False virt 1 = 3" "hw_walk False m virt [0] (ucast (?t ! 1)) True True = Some (f, w, x)"
      using s1 w1 by (simp_all add: spine_links_def spine_values numeral_2_eq_2)
    obtain i where i: "i < 512" "hw_index False virt 0 = 512 + i" "sp_frames s ! i \<noteq> 0" "f = ucast (sp_frames s ! i)"
      "rights_ok (sp_rights s ! i)" "w = (ucast (sp_rights s ! i) AND KU_W \<noteq> 0)"
      using hw_leaf[OF inv, unfolded a l, OF i1(2)] by (auto simp: leaf_slot_def spine_values)
    have d: "?n div 2 ^ 22 mod 1024 = 3" "?n div 2 ^ 12 mod 1024 = 512 + i"
      using i1(1) i(2) by (simp_all add: hw_index_nat)
    have "?n div 2 ^ 22 < 1024" using v False by (simp add: less_mult_imp_div_less)
    then have "?n div 2 ^ 22 = 3" using d(1) by simp
    moreover have "?n div 2 ^ 12 div 1024 = ?n div 2 ^ 22" by (simp add: div_mult2_eq[symmetric])
    ultimately have "?n div 2 ^ 12 = 3 * 1024 + (512 + i)" using d(2) div_mult_mod_eq[of "?n div 2 ^ 12" 1024] by simp
    then have "?n div 4096 = 3584 + i" by simp
    then show ?thesis using i False base by auto
  qed
qed

end
