(* ===== verification/User_Build.thy ===== *)
theory User_Build
  imports User_Walk
begin

text \<open>
  Building a space: \<^verbatim>\<open>ku_create\<close> ends with tables that satisfy the invariant.
\<close>

section \<open>Every operation keeps the tables in order\<close>

lemma new_frame_facts:
  assumes "new_frame ops s m = (m', p)"
  shows "ma_page m' = (if p = 0 then ma_page m else (ma_page m)(p := zero_page))"
    "p \<noteq> 0 \<Longrightarrow> direct ops p \<and> p \<notin> set (sp_borrowed s) \<and> p \<notin> set (sp_tables s) \<and> p \<notin> set (sp_frames s)"
proof -
  obtain c q where q: "op_alloc ops (ma_ctx m) = (c, q)" by fastforce
  have v: "direct ops q \<Longrightarrow> q \<noteq> 0" by (simp add: direct_def valid_frame_def)
  show "ma_page m' = (if p = 0 then ma_page m else (ma_page m)(p := zero_page))"
    "p \<noteq> 0 \<Longrightarrow> direct ops p \<and> p \<notin> set (sp_borrowed s) \<and> p \<notin> set (sp_tables s) \<and> p \<notin> set (sp_frames s)"
    using assms v by (auto simp: new_frame_def q Let_def split: if_splits)
qed

lemma new_frame_pages: "new_frame ops s m = (m', p) \<Longrightarrow> pages_ok m \<Longrightarrow> pages_ok m'"
  using new_frame_facts(1)[of ops s m m' p] by (auto simp: pages_ok_def zero_page_def KU_PAGE_def)

text \<open>What holds while a space is being built: the frames taken so far are distinct and mapped, and the
  new tables are blank.\<close>

definition building :: "'c ku_ops \<Rightarrow> ku_space \<times> 'c machine \<Rightarrow> bool" where
  "building ops sm \<longleftrightarrow> (case sm of (s, m) \<Rightarrow>
     pages_ok m \<and> distinct (sp_tables s @ sp_borrowed s) \<and> (\<forall>p\<in>set (sp_tables s) \<union> set (sp_borrowed s). direct ops p) \<and>
     (\<forall>p\<in>set (sp_tables s). ma_page m p = zero_page))"

definition same_kind :: "ku_space \<Rightarrow> ku_space \<Rightarrow> bool" where
  "same_kind s s' \<longleftrightarrow> sp_frames s' = sp_frames s \<and> sp_rights s' = sp_rights s \<and> sp_live s' = sp_live s \<and>
     sp_arch64 s' = sp_arch64 s \<and> sp_nx s' = sp_nx s \<and> sp_pins s' = sp_pins s"

lemma same_kind_trans: "same_kind s s' \<Longrightarrow> same_kind s' s'' \<Longrightarrow> same_kind s s''"
  by (simp add: same_kind_def)

lemma borrow_building:
  assumes "borrow ops p s = Some s'" "building ops (s, m)"
  shows "building ops (s', m) \<longleftrightarrow> p \<notin> set (sp_tables s)" "same_kind s s'" "sp_tables s' = sp_tables s"
    "length (sp_borrowed s') = Suc (length (sp_borrowed s))"
  using assms by (auto simp: borrow_def building_def same_kind_def split: if_splits)

lemma borrow_entry_some: "borrow_entry ops e s = Some s' \<Longrightarrow> borrow ops (pte_address e) s = Some s'"
  by (simp add: borrow_entry_def split: if_splits)

lemma borrow_spine_building:
  assumes "borrow_spine ops root m s = (s', True)" "building ops (s, m)" "sp_tables s = []" "sp_borrowed s = []"
  shows "building ops (s', m)" "same_kind s s'" "sp_tables s' = []" "length (sp_borrowed s') = (if sp_arch64 s then 3 else 2)"
proof -
  have "building ops (s', m) \<and> same_kind s s' \<and> sp_tables s' = [] \<and> length (sp_borrowed s') = (if sp_arch64 s then 3 else 2)"
  proof -
    obtain s1 where s1: "borrow ops root s = Some s1" using assms(1) by (auto simp: borrow_spine_def split: option.splits)
    note b1 = borrow_building[OF s1 assms(2)]
    then have B1: "building ops (s1, m)" "sp_tables s1 = []" "same_kind s s1" using assms(3) by simp_all
    then have a: "sp_arch64 s1 = sp_arch64 s" by (simp add: same_kind_def)
    show ?thesis
    proof (cases "sp_arch64 s")
      case True
      obtain s2 where s2: "borrow_entry ops (pte_read True m root 0) s1 = Some s2"
        "borrow_entry ops (pte_read True m (pte_address (pte_read True m root 0)) 0) s2 = Some s'"
        using assms(1) s1 True a by (auto simp: borrow_spine_def Let_def split: option.splits)
      note b2 = borrow_building[OF borrow_entry_some[OF s2(1)] B1(1)]
      then have B2: "building ops (s2, m)" "sp_tables s2 = []" using B1(2) by simp_all
      note b3 = borrow_building[OF borrow_entry_some[OF s2(2)] B2(1)]
      then have "building ops (s', m)" "sp_tables s' = []" using B2(2) by simp_all
      then show ?thesis using b1 b2 b3 assms(4) True by (auto intro: same_kind_trans)
    next
      case False
      have s2: "borrow_entry ops (pte_read False m root (arena_index False)) s1 = Some s'"
        using assms(1) s1 False a by (auto simp: borrow_spine_def Let_def split: option.splits)
      note b2 = borrow_building[OF borrow_entry_some[OF s2] B1(1)]
      then show ?thesis using b1 B1 assms(4) False by (auto intro: same_kind_trans)
    qed
  qed
  then show "building ops (s', m)" "same_kind s s'" "sp_tables s' = []" "length (sp_borrowed s') = (if sp_arch64 s then 3 else 2)" by auto
qed

lemma table_building:
  assumes "table ops (s, m) = ((s', m'), True)" "building ops (s, m)"
  shows "building ops (s', m')" "same_kind s s'" "sp_borrowed s' = sp_borrowed s" "length (sp_tables s') = Suc (length (sp_tables s))"
proof -
  obtain n p where n: "new_frame ops s m = (n, p)" by fastforce
  then have p: "p \<noteq> 0" "s' = s\<lparr>sp_tables := sp_tables s @ [p]\<rparr>" "m' = n" using assms(1) by (auto simp: table_def split: if_splits)
  note f = new_frame_facts[OF n]
  show "building ops (s', m')" using assms(2) f p new_frame_pages[OF n] by (auto simp: building_def)
  show "same_kind s s'" "sp_borrowed s' = sp_borrowed s" "length (sp_tables s') = Suc (length (sp_tables s))"
    using p by (simp_all add: same_kind_def)
qed

lemma add_tables_building:
  "add_tables n ops (s, m) = ((s', m'), True) \<Longrightarrow> building ops (s, m) \<Longrightarrow>
     building ops (s', m') \<and> same_kind s s' \<and> sp_borrowed s' = sp_borrowed s \<and> length (sp_tables s') = length (sp_tables s) + n"
proof (induction n arbitrary: s m)
  case (Suc n)
  obtain s1 m1 where t: "table ops (s, m) = ((s1, m1), True)" "add_tables n ops (s1, m1) = ((s', m'), True)"
    using Suc.prems(1) by (auto split: prod.splits if_splits)
  note b = table_building[OF t(1) Suc.prems(2)]
  show ?case using Suc.IH[OF t(2) b(1)] b by (auto intro: same_kind_trans)
qed (simp add: same_kind_def)


section \<open>A new space\<close>

declare upt_rec_numeral [simp del]

lemma user_bit_cleared: "\<not> bit (pte_trim a (e AND NOT PTE_U)) 2"
  using pte_trim_user(2)[of a e] by (simp add: and_flag)

lemma arena_below: "arena_index a < entries a" "0 < entries a" "first_pte + 512 = entries False"
  using spine_values by (cases a; simp add: entries_def)+

text \<open>Tables are written one entry, or one row of supervisor copies, at a time.\<close>

lemma clear_rest:
  assumes "pages_ok m" "\<forall>i\<in>set ixs. i < entries a"
  shows "pages_ok (fold (\<lambda>i. pte_write a p i 0) ixs m)"
    "pte_read a (fold (\<lambda>i. pte_write a p i 0) ixs m) q j = (if q = p \<and> j \<in> set ixs then 0 else pte_read a m q j)"
proof -
  have "pages_ok (fold (\<lambda>i. pte_write a p i 0) ixs m) \<and>
    (\<forall>q j. pte_read a (fold (\<lambda>i. pte_write a p i 0) ixs m) q j = (if q = p \<and> j \<in> set ixs then 0 else pte_read a m q j))"
    using assms
  proof (induction ixs arbitrary: m)
    case (Cons i ixs)
    have p: "pages_ok (pte_write a p i 0 m)" "\<forall>i\<in>set ixs. i < entries a" using Cons.prems by simp_all
    have "pte_trim a 0 = 0" by (simp add: pte_trim_def)
    then have "pte_read a (pte_write a p i 0 m) q j = (if q = p \<and> j = i then 0 else pte_read a m q j)" for q j
      using Cons.prems by (simp add: pte_read_write)
    then show ?case using Cons.IH[OF p] by auto
  qed simp
  then show "pages_ok (fold (\<lambda>i. pte_write a p i 0) ixs m)"
    "pte_read a (fold (\<lambda>i. pte_write a p i 0) ixs m) q j = (if q = p \<and> j \<in> set ixs then 0 else pte_read a m q j)" by auto
qed

definition built :: "'c ku_ops \<Rightarrow> ku_space \<Rightarrow> 'c machine \<Rightarrow> bool" where
  "built ops s m \<longleftrightarrow> building ops (s, m) \<and> sp_live s \<and> sp_frames s = replicate 512 0 \<and> sp_rights s = replicate 512 0 \<and>
     length (sp_tables s) = (if sp_arch64 s then 4 else 2) \<and> length (sp_borrowed s) = (if sp_arch64 s then 3 else 2)"

lemma nth_four: "length t = 4 \<Longrightarrow> \<exists>a b c d. t = [a, b, c, d]"
  "length t = 3 \<Longrightarrow> \<exists>a b c. t = [a, b, c]" "length t = 2 \<Longrightarrow> \<exists>a b. t = [a, b]"
  by (auto simp: numeral_eq_Suc length_Suc_conv)

lemma spine64_inv:
  assumes "built ops s m" "sp_arch64 s"
  shows "space_inv ops (s\<lparr>sp_root := sp_tables s ! 0\<rparr>) (spine64 s m)"
proof -
  obtain t0 t1 t2 t3 b0 b1 b2 where t: "sp_tables s = [t0, t1, t2, t3]" "sp_borrowed s = [b0, b1, b2]"
    using assms nth_four(1)[of "sp_tables s"] nth_four(2)[of "sp_borrowed s"] by (auto simp: built_def)
  have m: "pages_ok m" "ma_page m t3 = zero_page" and d: "distinct [t0, t1, t2, t3, b0, b1, b2]"
    using assms(1) t by (auto simp: built_def building_def)
  define m1 where "m1 = copy_supervisor True b0 t0 [0..<512] m"
  define m2 where "m2 = copy_supervisor True b1 t1 [0..<512] m1"
  define m3 where "m3 = copy_supervisor True b2 t2 [0..<512] m2"
  have three: "[0..<3::nat] = [0, 1, 2]" by (simp add: upt_rec)
  have sp: "spine64 s m = pte_write True t2 7 (link_entry t3) (pte_write True t1 0 (link_entry t2) (pte_write True t0 0 (link_entry t1) m3))"
    by (simp add: spine64_def t Let_def three m1_def m2_def m3_def spine_values)
  have ne: "b0 \<noteq> t0" "b1 \<noteq> t1" "b2 \<noteq> t2" using d by auto
  have e: "\<forall>i\<in>set [0..<512]. i < entries True" by (simp add: entries_def)
  note r1 = copy_supervisor_read[OF m(1) ne(1) e, folded m1_def]
  have p1: "pages_ok m1" using r1 d by simp
  note r2 = copy_supervisor_read[OF p1 ne(2) e, folded m2_def]
  have p2: "pages_ok m2" using r2 d by simp
  note r3 = copy_supervisor_read[OF p2 ne(3) e, folded m3_def]
  have p3: "pages_ok m3" using r3 d by simp
  have e': "7 < entries True" "0 < entries True" by (simp_all add: entries_def)
  have r: "pte_read True (spine64 s m) q j = (if q = t2 \<and> j = 7 then link_entry t3 else if q = t1 \<and> j = 0 then link_entry t2
      else if q = t0 \<and> j = 0 then link_entry t1 else pte_read True m3 q j)" for q j
    using p3 e' d by (simp add: sp pte_read_write pte_trim_def)
  have n3: "t3 \<noteq> t0" "t3 \<noteq> t1" "t3 \<noteq> t2" using d by auto
  have r': "pte_read True m3 t3 j = pte_read True m t3 j" for j
    by (simp add: r1 r2 r3 n3)
  have u: "\<not> bit (pte_read True m3 q j) 2" if "q \<in> {t0, t1, t2}" "j < 512" for q j
    using that r1 r2 r3 d user_bit_cleared by auto
  have z: "pte_read True m3 t3 j = 0" if "j < 512" for j
    using that r'[of j] m(2) by (simp add: pte_read_def pte_zero_page entries_def)
  have "spine_ok (s\<lparr>sp_root := sp_tables s ! 0\<rparr>) (spine64 s m)"
    using assms(2) d u by (auto simp: spine_ok_def spine_links_def t r entries_def pte_trim_def spine_values)
  moreover have "leaf_ok (s\<lparr>sp_root := sp_tables s ! 0\<rparr>) (spine64 s m)"
    using assms d z by (auto simp: leaf_ok_def t r entries_def leaf_slot_def built_def)
  moreover have "pages_ok (spine64 s m)" using p3 by (simp add: sp)
  ultimately show ?thesis using assms by (simp add: space_inv_def space_shape_def built_def building_def)
qed

lemma spine32_inv:
  assumes "built ops s m" "\<not> sp_arch64 s"
  shows "space_inv ops (s\<lparr>sp_root := sp_tables s ! 0\<rparr>) (spine32 s m)"
proof -
  obtain t0 t1 b0 b1 where t: "sp_tables s = [t0, t1]" "sp_borrowed s = [b0, b1]"
    using assms nth_four(3)[of "sp_tables s"] nth_four(3)[of "sp_borrowed s"] by (auto simp: built_def)
  have m: "pages_ok m" and d: "distinct [t0, t1, b0, b1]"
    using assms(1) t by (auto simp: built_def building_def)
  define m1 where "m1 = copy_supervisor False b0 t0 [0..<1024] m"
  define m2 where "m2 = copy_supervisor False b1 t1 [0..<1024] m1"
  define m3 where "m3 = fold (\<lambda>i. pte_write False t1 i 0) [512..<1024] m2"
  have two: "[0..<2::nat] = [0, 1]" by (simp add: upt_rec)
  have sp: "spine32 s m = pte_write False t0 3 (link_entry t1) m3"
    by (simp add: spine32_def t Let_def two m1_def m2_def m3_def spine_values)
  have ne: "b0 \<noteq> t0" "b1 \<noteq> t1" using d by auto
  have e: "\<forall>i\<in>set [0..<1024]. i < entries False" "\<forall>i\<in>set [512..<1024]. i < entries False" "3 < entries False" by (simp_all add: entries_def)
  note r1 = copy_supervisor_read[OF m ne(1) e(1), folded m1_def]
  have p1: "pages_ok m1" using r1 d by simp
  note r2 = copy_supervisor_read[OF p1 ne(2) e(1), folded m2_def]
  have p2: "pages_ok m2" using r2 d by simp
  note r3 = clear_rest[OF p2 e(2), of t1, folded m3_def]
  have r: "pte_read False (spine32 s m) q j = (if q = t0 \<and> j = 3 then pte_trim False (link_entry t1) else pte_read False m3 q j)" for q j
    using r3(1) e(3) by (simp add: sp pte_read_write)
  have u: "\<not> bit (pte_read False m3 q j) 2" if "q \<in> {t0, t1}" "j < 1024" for q j
    using that r1 r2 r3 d user_bit_cleared by auto
  have z: "pte_read False m3 t1 (512 + j) = 0" if "j < 512" for j
    using that r3 by simp
  have "spine_ok (s\<lparr>sp_root := sp_tables s ! 0\<rparr>) (spine32 s m)"
    using assms(2) d u by (auto simp: spine_ok_def spine_links_def t r entries_def spine_values)
  moreover have "leaf_ok (s\<lparr>sp_root := sp_tables s ! 0\<rparr>) (spine32 s m)"
    using assms d z u by (auto simp: leaf_ok_def t r entries_def leaf_slot_def built_def spine_values)
  moreover have "pages_ok (spine32 s m)" using r3 by (simp add: sp)
  ultimately show ?thesis using assms by (simp add: space_inv_def space_shape_def built_def building_def)
qed

end
