(* ===== verification/User_Keep.thy ===== *)
theory User_Keep
  imports User_Build
begin

text \<open>
  The user's view of a space is exactly its arena pages; \<^verbatim>\<open>ku_create\<close> and \<^verbatim>\<open>ku_map\<close> keep the invariant.
\<close>

section \<open>Completeness of the walk\<close>

lemma hw_spine_down:
  assumes inv: "space_inv ops s m" and k: "(l, k) \<in> set (spine_links (sp_arch64 s))" "hw_index (sp_arch64 s) virt lv = k"
  shows "hw_walk (sp_arch64 s) m virt (lv # ls) (ucast (sp_tables s ! l)) True True =
    hw_walk (sp_arch64 s) m virt ls (ucast (sp_tables s ! (l + 1))) True True"
proof -
  let ?a = "sp_arch64 s" and ?t = "sp_tables s"
  have e: "pte_read ?a m (?t ! l) k = pte_trim ?a (link_entry (?t ! (l + 1)))"
    using inv k by (auto simp: space_inv_def spine_ok_def Let_def)
  have "l + 1 < length ?t" using inv k by (auto simp: space_inv_def space_shape_def spine_links_def split: if_splits)
  then have "valid_frame (?t ! (l + 1))" using inv by (auto simp: space_inv_def space_shape_def direct_def)
  with e show ?thesis by (intro hw_link) (simp_all add: k)
qed

lemma hw_leaf_down:
  assumes inv: "space_inv ops s m" and i: "i < 512" "hw_index (sp_arch64 s) virt 0 = leaf_slot (sp_arch64 s) i" "sp_frames s ! i \<noteq> 0"
  shows "hw_walk (sp_arch64 s) m virt [0] (ucast (last (sp_tables s))) True True =
    Some (ucast (sp_frames s ! i), ucast (sp_rights s ! i) AND KU_W \<noteq> 0, sp_arch64 s \<and> sp_nx s \<longrightarrow> ucast (sp_rights s ! i) AND KU_X \<noteq> 0)"
proof -
  let ?a = "sp_arch64 s" and ?e = "pte_read (sp_arch64 s) m (last (sp_tables s)) (hw_index (sp_arch64 s) virt 0)"
  have e: "?e = pte_trim ?a (page_entry s (sp_frames s ! i) (ucast (sp_rights s ! i)))"
    using inv i by (auto simp: space_inv_def leaf_ok_def Let_def)
  have v: "valid_frame (sp_frames s ! i)" using inv i by (auto simp: space_inv_def space_shape_def direct_def all_set_conv_all_nth)
  note f = page_entry_facts[OF v, of s "ucast (sp_rights s ! i)"]
  show ?thesis using f refers_address(2)[OF f(1) v] by (auto simp: Let_def ucast_ucast_frame e)
qed

lemma user_access_complete:
  assumes inv: "space_inv ops s m" and i: "i < 512" "unat virt div 4096 = unat KU_BASE div 4096 + i" "sp_frames s ! i \<noteq> 0"
  shows "user_access s m virt = Some (ucast (sp_frames s ! i), ucast (sp_rights s ! i) AND KU_W \<noteq> 0,
    sp_arch64 s \<and> sp_nx s \<longrightarrow> ucast (sp_rights s ! i) AND KU_X \<noteq> 0)"
proof -
  let ?n = "unat virt" and ?t = "sp_tables s"
  have root: "sp_root s = ?t ! 0" using inv by (simp add: space_inv_def space_shape_def)
  have n: "?n div 4096 = 3584 + i" using i(2) by (simp add: KU_BASE_def)
  have d: "?n div (4096 * k) = (3584 + i) div k" for k using n by (simp add: div_mult2_eq)
  have "(i + 7 * 512) mod 512 = i" "(512 + i + 3 * 1024) mod 1024 = 512 + i" using i(1) by (simp_all only: mod_mult_self1) simp_all
  then have md: "(3584 + i) mod 512 = i" "(3584 + i) mod 1024 = 512 + i" by (simp_all add: ac_simps)
  show ?thesis
  proof (cases "sp_arch64 s")
    case True
    have l: "last ?t = ?t ! 3" using inv True by (subst last_conv_nth) (auto simp: space_inv_def space_shape_def)
    have ix: "hw_index True virt 3 = 0" "hw_index True virt 2 = 0" "hw_index True virt 1 = 7" "hw_index True virt 0 = i"
      using d[of "2 ^ 27"] d[of "2 ^ 18"] d[of "2 ^ 9"] d[of 1] i(1) md by (simp_all add: hw_index_nat)
    have k: "(0, 0) \<in> set (spine_links True)" "(1, 0) \<in> set (spine_links True)" "(2, 7) \<in> set (spine_links True)"
      by (simp_all add: spine_links_def spine_values)
    have a: "sp_arch64 s = True" using True by simp
    note down = hw_spine_down[OF inv, unfolded a]
    show ?thesis
      using down[OF k(1) ix(1), of "[2, 1, 0]"] down[OF k(2) ix(2), of "[1, 0]"] down[OF k(3) ix(3), of "[0]"]
        hw_leaf_down[OF inv i(1) _ i(3), of virt, unfolded a l] ix(4) root
      by (simp add: user_access_def a leaf_slot_def numeral_2_eq_2 numeral_3_eq_3 del: hw_walk.simps)
  next
    case False
    have l: "last ?t = ?t ! 1" using inv False by (subst last_conv_nth) (auto simp: space_inv_def space_shape_def)
    have ix: "hw_index False virt 1 = 3" "hw_index False virt 0 = 512 + i"
      using d[of "2 ^ 10"] d[of 1] i(1) md by (simp_all add: hw_index_nat)
    have k: "(0, 3) \<in> set (spine_links False)" by (simp add: spine_links_def spine_values)
    have a: "sp_arch64 s = False" using False by simp
    note down = hw_spine_down[OF inv, unfolded a]
    show ?thesis
      using down[OF k ix(1), of "[0]"] hw_leaf_down[OF inv i(1) _ i(3), of virt, unfolded a l] ix(2) root
      by (simp add: user_access_def a leaf_slot_def spine_values del: hw_walk.simps)
  qed
qed

text \<open>The user's view of a space: its own frames in the arena, with the rights they were given.\<close>

definition arena_view :: "ku_space \<Rightarrow> u64 \<Rightarrow> (u64 \<times> bool \<times> bool) option" where
  "arena_view s virt =
     (let i = unat virt div 4096 - unat KU_BASE div 4096 in
      if virt < ucast KU_BASE \<or> virt \<ge> ucast (KU_BASE + KU_SIZE) \<or> sp_frames s ! i = 0 then None
      else Some (ucast (sp_frames s ! i), ucast (sp_rights s ! i) AND KU_W \<noteq> 0,
             sp_arch64 s \<and> sp_nx s \<longrightarrow> ucast (sp_rights s ! i) AND KU_X \<noteq> 0))"

lemma arena_pages:
  "\<not> (virt < ucast KU_BASE \<or> virt \<ge> ucast (KU_BASE + KU_SIZE)) \<longleftrightarrow> (\<exists>i<512. unat (virt :: u64) div 4096 = unat KU_BASE div 4096 + i)"
proof -
  have "\<not> (virt < ucast KU_BASE \<or> virt \<ge> ucast (KU_BASE + KU_SIZE)) \<longleftrightarrow> 0xE00000 \<le> unat virt \<and> unat virt < 0x1000000"
    by (auto simp: word_less_nat_alt word_le_nat_alt KU_BASE_def KU_SIZE_def)
  also have "\<dots> \<longleftrightarrow> 3584 \<le> unat virt div 4096 \<and> unat virt div 4096 < 4096" by (auto simp: less_eq_div_iff_mult_less_eq div_less_iff_less_mult)
  also have "\<dots> \<longleftrightarrow> (\<exists>i<512. unat virt div 4096 = 3584 + i)"
    by (auto intro: exI[of _ "unat virt div 4096 - 3584"])
  finally show ?thesis by (simp add: KU_BASE_def)
qed

lemma user_access_view:
  assumes inv: "space_inv ops s m" and v: "unat virt < (if sp_arch64 s then 2 ^ 48 else 2 ^ 32)"
  shows "user_access s m virt = arena_view s virt"
proof (cases "user_access s m virt")
  case None
  have "arena_view s virt = None"
  proof (rule ccontr)
    assume "arena_view s virt \<noteq> None"
    then have a: "\<not> (virt < ucast KU_BASE \<or> virt \<ge> ucast (KU_BASE + KU_SIZE))"
      "sp_frames s ! (unat virt div 4096 - unat KU_BASE div 4096) \<noteq> 0"
      by (auto simp: arena_view_def Let_def split: if_splits)
    then obtain i where i: "i < 512" "unat virt div 4096 = unat KU_BASE div 4096 + i" using arena_pages by blast
    then show False using user_access_complete[OF inv i] a(2) None by simp
  qed
  then show ?thesis using None by simp
next
  case (Some r)
  obtain f w x where r: "r = (f, w, x)" by (cases r)
  obtain i where i: "i < 512" "unat virt div 4096 = unat KU_BASE div 4096 + i" "sp_frames s ! i \<noteq> 0"
    using user_access_inside[OF inv Some[unfolded r] v] by blast
  have "\<not> (virt < ucast KU_BASE \<or> virt \<ge> ucast (KU_BASE + KU_SIZE))" using i arena_pages by blast
  then show ?thesis using user_access_complete[OF inv i] i by (simp add: arena_view_def Let_def)
qed


section \<open>Preservation\<close>

lemma ku_create_inv:
  assumes "ku_create ops root arch nx (s0, m0) = ((s, m), 0)" "pages_ok m0"
  shows "space_inv ops s m"
proof -
  let ?z = "ku_zero\<lparr>sp_live := True, sp_arch64 := arch \<noteq> 0, sp_nx := nx \<noteq> 0\<rparr>"
  obtain s1 where s1: "borrow_spine ops root m0 ?z = (s1, True)"
    using assms(1) by (cases "borrow_spine ops root m0 ?z"; cases "snd (borrow_spine ops root m0 ?z)")
      (auto simp: ku_create_def Let_def split: if_splits)
  obtain s2 m2 where s2: "add_tables (if sp_arch64 s1 then 4 else 2) ops (s1, m0) = ((s2, m2), True)"
    using assms(1) s1 by (cases "add_tables (if sp_arch64 s1 then 4 else 2) ops (s1, m0)"; cases "snd (add_tables (if sp_arch64 s1 then 4 else 2) ops (s1, m0))")
      (auto simp: ku_create_def Let_def split: if_splits)
  have e: "s = s2\<lparr>sp_root := sp_tables s2 ! 0\<rparr>" "m = (if sp_arch64 s2 then spine64 s2 m2 else spine32 s2 m2)"
    using assms(1) s1 s2 by (auto simp: ku_create_def Let_def split: if_splits)
  have b0: "building ops (?z, m0)" using assms(2) by (simp add: building_def ku_zero_def)
  note b1 = borrow_spine_building[OF s1 b0]
  have b1: "building ops (s1, m0)" "same_kind ?z s1" "sp_tables s1 = []" "length (sp_borrowed s1) = (if sp_arch64 ?z then 3 else 2)"
    using b1 by (simp_all add: ku_zero_def)
  note b2 = add_tables_building[OF s2 b1(1)]
  have "built ops s2 m2"
    using b1 b2 by (auto simp: built_def same_kind_def ku_zero_def KU_PAGES_def)
  then show ?thesis using spine64_inv spine32_inv e by (cases "sp_arch64 s2") auto
qed

lemma table_pages_other:
  assumes "space_inv ops s m" "p \<notin> set (sp_tables s)" "length pg = 4096"
  shows "space_inv ops s (set_page p pg m)"
  using assms by (intro space_inv_cong[OF assms(1)]) (auto simp: space_inv_def pages_ok_def)

lemma new_frame_inv: "space_inv ops s m \<Longrightarrow> new_frame ops s m = (m', p) \<Longrightarrow> space_inv ops s m'"
proof -
  assume inv: "space_inv ops s m" and f: "new_frame ops s m = (m', p)"
  have "pages_ok m'" using new_frame_pages[OF f] inv by (simp add: space_inv_def)
  moreover have "ma_page m' q = ma_page m q" if "q \<in> set (sp_tables s)" for q
    using new_frame_facts[OF f] that by auto
  ultimately show "space_inv ops s m'" by (intro space_inv_cong[OF inv]) auto
qed

lemma distinct_filter_update:
  "distinct (filter P xs) \<Longrightarrow> i < length xs \<Longrightarrow> \<not> P (xs ! i) \<Longrightarrow> p \<notin> set xs \<Longrightarrow> distinct (filter P (xs[i := p]))"
proof (induction xs arbitrary: i)
  case (Cons x xs)
  then show ?case by (cases i) (auto split: if_splits dest!: subsetD[OF set_update_subset_insert])
qed simp

text \<open>A fresh page enters the leaf table at its slot; nothing else there changes.\<close>

lemma leaf_slot_inj: "leaf_slot a i = leaf_slot a j \<longleftrightarrow> i = j" "i < 512 \<Longrightarrow> leaf_slot a i < entries a"
  by (auto simp: leaf_slot_def entries_def spine_values)

lemma enter_page_inv:
  assumes inv: "space_inv ops s m" and i: "i < 512" "sp_frames s ! i = 0" and r: "rights_ok (ucast rights)" "ucast (ucast rights :: u8) = rights"
    and p: "direct ops p" "p \<notin> set (sp_borrowed s)" "p \<notin> set (sp_tables s)" "p \<notin> set (sp_frames s)"
  shows "space_inv ops (s\<lparr>sp_frames := (sp_frames s)[i := p], sp_rights := (sp_rights s)[i := ucast rights]\<rparr>)
    (pte_write (sp_arch64 s) (last (sp_tables s)) (leaf_slot (sp_arch64 s) i) (page_entry s p rights) m)"
proof -
  let ?a = "sp_arch64 s" and ?t = "sp_tables s"
  let ?s = "s\<lparr>sp_frames := (sp_frames s)[i := p], sp_rights := (sp_rights s)[i := ucast rights]\<rparr>"
  let ?m = "pte_write ?a (last ?t) (leaf_slot ?a i) (page_entry s p rights) m"
  have ok: "pages_ok m" and sh: "space_shape ops s" and sp: "spine_ok s m" and lf: "leaf_ok s m" using inv by (auto simp: space_inv_def)
  have len: "length (sp_frames s) = 512" "length (sp_rights s) = 512" "length ?t = (if ?a then 4 else 2)" "distinct ?t"
    using sh by (auto simp: space_shape_def)
  have rd: "pte_read ?a ?m q j = (if q = last ?t \<and> j = leaf_slot ?a i then pte_trim ?a (page_entry s p rights) else pte_read ?a m q j)" for q j
    using ok i(1) leaf_slot_inj(2) by (simp add: pte_read_write)
  have nz: "p \<noteq> 0" using p(1) by (simp add: direct_def valid_frame_def)
  have pe: "page_entry ?s = page_entry s" by (simp add: page_entry_def fun_eq_iff)
  have "distinct (filter (\<lambda>p. p \<noteq> 0) ((sp_frames s)[i := p]))"
    using sh i len p(4) by (intro distinct_filter_update) (auto simp: space_shape_def)
  then have "space_shape ops ?s"
    using sh p i len r nz by (auto simp: space_shape_def nth_list_update dest!: subsetD[OF set_update_subset_insert])
  moreover have "spine_ok ?s ?m"
  proof -
    have "?t ! l \<noteq> last ?t" if "Suc l < length ?t" for l
    proof -
      have "?t \<noteq> []" using that by auto
      then show ?thesis using that len(4) by (simp add: last_conv_nth nth_eq_iff_index_eq)
    qed
    then have "pte_read ?a ?m (?t ! l) j = pte_read ?a m (?t ! l) j" if "Suc l < length ?t" for l j using that by (simp add: rd)
    then show ?thesis using sp len(3) by (cases ?a) (simp_all add: spine_ok_def spine_links_def Let_def)
  qed
  moreover have "leaf_ok ?s ?m"
    using lf i len r(2) nz by (auto simp: leaf_ok_def Let_def rd leaf_slot_inj nth_list_update pe)
  ultimately show ?thesis using ok by (simp add: space_inv_def)
qed


lemma rights_word:
  assumes "r AND KU_R \<noteq> 0" "r AND NOT 7 = 0" "r AND (KU_W OR KU_X) \<noteq> KU_W OR KU_X"
  shows "ucast (ucast r :: u8) = r" "rights_ok (ucast r)"
proof -
  have s: "r < 8"
  proof -
    have "r = r AND mask 3"
    proof (rule bit_word_eqI)
      fix k assume k: "k < LENGTH(32)"
      have n: "(7 :: u32) = mask 3" by (simp add: mask_eq_exp_minus_1)
      have "\<not> bit (r AND NOT (mask 3)) k" using assms(2) n by simp
      then show "bit r k = bit (r AND mask 3) k" using k by (auto simp: bit_simps)
    qed
    moreover have "r AND mask 3 < 2 ^ 3" by (rule and_mask_less_size) (simp add: word_size)
    ultimately show ?thesis by simp
  qed
  have "unat r < 8" using s by (simp add: word_less_nat_alt)
  then have "unat r = 0 \<or> unat r = 1 \<or> unat r = 2 \<or> unat r = 3 \<or> unat r = 4 \<or> unat r = 5 \<or> unat r = 6 \<or> unat r = 7" by arith
  moreover have "r = of_nat (unat r)" by simp
  ultimately have c: "r \<in> {0, 1, 2, 3, 4, 5, 6, 7}" by (elim disjE) simp_all
  show "ucast (ucast r :: u8) = r" using c by auto
  show "rights_ok (ucast r)" using assms c by (auto simp: rights_ok_def Let_def KU_R_def KU_W_def KU_X_def)
qed

lemma last_table: "space_inv ops s m \<Longrightarrow> last (sp_tables s) = sp_tables s ! (if sp_arch64 s then 3 else 1)"
proof -
  assume "space_inv ops s m"
  then have l: "length (sp_tables s) = (if sp_arch64 s then 4 else 2)" by (simp add: space_inv_def space_shape_def)
  then have "sp_tables s \<noteq> []" by (cases "sp_arch64 s") auto
  then show "last (sp_tables s) = sp_tables s ! (if sp_arch64 s then 3 else 1)" using l by (simp add: last_conv_nth)
qed

lemma arena_page:
  assumes "off < KU_SIZE" "off AND 4095 = 0"
  shows "unat (drop_bit 12 off) < 512" "unat (drop_bit 12 (KU_BASE + off) AND 1023) = 512 + unat (drop_bit 12 off)"
proof -
  have o: "unat off < 0x200000" using assms(1) by (simp add: KU_SIZE_def word_less_nat_alt)
  have d: "unat (drop_bit 12 v) = unat v div 4096" for v :: u32 unfolding unat_drop_bit_eq by (simp add: drop_bit_eq_div)
  show "unat (drop_bit 12 off) < 512" using o by (simp add: d)
  have a: "unat (KU_BASE + off) = 0xE00000 + unat off" using o by (subst unat_add_u32) (simp_all add: KU_BASE_def)
  have m: "(1023 :: u32) = mask 10" by (simp add: mask_eq_exp_minus_1)
  have "unat (drop_bit 12 (KU_BASE + off) AND 1023) = (0xE00000 + unat off) div 4096 mod 1024"
    unfolding m by (simp add: take_bit_eq_mask[symmetric] take_bit_eq_mod unat_mod d a)
  also have "\<dots> = 512 + unat off div 4096"
  proof -
    have "(0xE00000 + unat off) div 4096 = unat off div 4096 + 3584" using div_mult_self3[of 4096 3584 "unat off"] by simp
    moreover have "unat off div 4096 < 512" using o by simp
    ultimately show ?thesis using mod_mult_self1[of "unat off div 4096 + 512" 3 1024] by (simp add: ac_simps)
  qed
  finally show "unat (drop_bit 12 (KU_BASE + off) AND 1023) = 512 + unat (drop_bit 12 off)" by (simp add: d)
qed

lemma ku_map_inv:
  assumes "space_inv ops s m" "ku_map ops off rights (s, m) = ((s', m'), c)"
  shows "space_inv ops s' m'"
proof (cases "sp_frames s ! unat (drop_bit 12 off) \<noteq> 0 \<or> c = -1")
  case True
  obtain n p where n: "new_frame ops s m = (n, p)" by fastforce
  show ?thesis using True assms new_frame_inv[OF assms(1) n] by (auto simp: ku_map_def Let_def n split: if_splits)
next
  case False
  obtain n p where n: "new_frame ops s m = (n, p)" by fastforce
  let ?i = "unat (drop_bit 12 off)"
  have g: "off < KU_SIZE" "off AND 4095 = 0" "rights AND KU_R \<noteq> 0" "rights AND NOT 7 = 0" "rights AND (KU_W OR KU_X) \<noteq> KU_W OR KU_X"
    and p: "p \<noteq> 0" and s': "s' = s\<lparr>sp_frames := (sp_frames s)[?i := p], sp_rights := (sp_rights s)[?i := ucast rights]\<rparr>"
    and m': "m' = (if sp_arch64 s then pte_write True (sp_tables s ! 3) ?i (page_entry s p rights) n
       else pte_write False (sp_tables s ! 1) (unat (drop_bit 12 (KU_BASE + off) AND 1023)) (page_entry s p rights) n)"
    using False assms(2) by (auto simp: ku_map_def Let_def n page_entry_def split: if_splits)
  have m'': "m' = pte_write (sp_arch64 s) (last (sp_tables s)) (leaf_slot (sp_arch64 s) ?i) (page_entry s p rights) n"
    using m' last_table[OF assms(1)] arena_page[OF g(1,2)] by (simp add: leaf_slot_def spine_values)
  show ?thesis unfolding s' m''
    using new_frame_facts(2)[OF n p] rights_word[OF g(3-5)] arena_page(1)[OF g(1,2)] False new_frame_inv[OF assms(1) n]
    by (intro enter_page_inv) auto
qed

end
