(* ===== verification/User_Copy.thy ===== *)
theory User_Copy
  imports User_Keep
begin

text \<open>
  \<^verbatim>\<open>ku_refresh\<close>, the copies into user memory and the pins keep the invariant.
\<close>

section \<open>Refreshing\<close>

text \<open>Copying supervisor entries over a table, the way down left out, keeps the way down and closes the rest to the user.\<close>

lemma refresh_row:
  assumes "pages_ok m" "src \<noteq> dst" "ixs = filter (\<lambda>i. i \<noteq> k) [0..<entries a]"
  shows "pages_ok (copy_supervisor a src dst ixs m)"
    "pte_read a (copy_supervisor a src dst ixs m) dst k = pte_read a m dst k"
    "j < entries a \<Longrightarrow> j \<noteq> k \<Longrightarrow> \<not> bit (pte_read a (copy_supervisor a src dst ixs m) dst j) 2"
    "q \<noteq> dst \<Longrightarrow> pte_read a (copy_supervisor a src dst ixs m) q j = pte_read a m q j"
  using copy_supervisor_read[OF assms(1,2), of ixs a] user_bit_cleared by (auto simp: assms(3))

lemma refresh64_inv:
  assumes inv: "space_inv ops s m" and a: "sp_arch64 s"
  shows "space_inv ops s (fold (\<lambda>l. copy_supervisor True (sp_borrowed s ! l) (sp_tables s ! l)
    (filter (\<lambda>i. i \<noteq> (if l = 2 then arena_index True else 0)) [0..<512])) [0..<3] m)" (is "space_inv ops s ?m")
proof -
  have sh: "space_shape ops s" and m: "pages_ok m" using inv by (auto simp: space_inv_def)
  obtain t0 t1 t2 t3 b0 b1 b2 where t: "sp_tables s = [t0, t1, t2, t3]" "sp_borrowed s = [b0, b1, b2]"
    using sh a nth_four(1)[of "sp_tables s"] nth_four(2)[of "sp_borrowed s"] by (auto simp: space_shape_def)
  have d: "distinct [t0, t1, t2, t3, b0, b1, b2]" using sh t by (auto simp: space_shape_def)
  define r0 where "r0 = filter (\<lambda>i. i \<noteq> 0) [0..<entries True]"
  define r7 where "r7 = filter (\<lambda>i. i \<noteq> 7) [0..<entries True]"
  define m1 where "m1 = copy_supervisor True b0 t0 r0 m"
  define m2 where "m2 = copy_supervisor True b1 t1 r0 m1"
  define m3 where "m3 = copy_supervisor True b2 t2 r7 m2"
  have three: "[0..<3::nat] = [0, 1, 2]" by (simp add: upt_rec)
  have e: "entries True = 512" by (simp add: entries_def)
  have mm: "?m = m3" by (simp add: three t m1_def m2_def m3_def r0_def r7_def e spine_values)
  have ne: "b0 \<noteq> t0" "b1 \<noteq> t1" "b2 \<noteq> t2" using d by auto
  note f1 = refresh_row[OF m ne(1) r0_def, folded m1_def]
  note f2 = refresh_row[OF f1(1) ne(2) r0_def, folded m2_def]
  note f3 = refresh_row[OF f2(1) ne(3) r7_def, folded m3_def]
  have rd: "pte_read True m3 t0 j = pte_read True m1 t0 j" "pte_read True m3 t1 j = pte_read True m2 t1 j"
    "pte_read True m2 t1 0 = pte_read True m t1 0" "pte_read True m3 t3 j = pte_read True m t3 j"
    "pte_read True m3 t2 7 = pte_read True m t2 7" for j
    using f1(2,4) f2(2,4) f3(2,4) d by auto
  have sp: "spine_ok s m" and lf: "leaf_ok s m" using inv by (auto simp: space_inv_def)
  have "spine_ok s m3"
    using sp f1(2,3) f2(3) f3(3) a by (auto simp: spine_ok_def spine_links_def t rd spine_values)
  moreover have "leaf_ok s m3" using lf a by (simp add: leaf_ok_def t rd Let_def)
  ultimately show ?thesis using sh f3(1) by (simp add: space_inv_def mm)
qed

lemma refresh32_inv:
  assumes inv: "space_inv ops s m" and a: "\<not> sp_arch64 s"
  shows "space_inv ops s (copy_supervisor False (sp_borrowed s ! 1) (sp_tables s ! 1) [0..<first_pte]
    (copy_supervisor False (sp_borrowed s ! 0) (sp_tables s ! 0) (filter (\<lambda>i. i \<noteq> arena_index False) [0..<1024]) m))"
    (is "space_inv ops s ?m")
proof -
  have sh: "space_shape ops s" and m: "pages_ok m" using inv by (auto simp: space_inv_def)
  obtain t0 t1 b0 b1 where t: "sp_tables s = [t0, t1]" "sp_borrowed s = [b0, b1]"
    using sh a nth_four(3)[of "sp_tables s"] nth_four(3)[of "sp_borrowed s"] by (auto simp: space_shape_def)
  have d: "distinct [t0, t1, b0, b1]" using sh t by (auto simp: space_shape_def)
  define r3 where "r3 = filter (\<lambda>i. i \<noteq> 3) [0..<entries False]"
  define m1 where "m1 = copy_supervisor False b0 t0 r3 m"
  define m2 where "m2 = copy_supervisor False b1 t1 [0..<512] m1"
  have e: "entries False = 1024" by (simp add: entries_def)
  have mm: "?m = m2" by (simp add: t m1_def m2_def r3_def e spine_values)
  have ne: "b0 \<noteq> t0" "b1 \<noteq> t1" using d by auto
  note f1 = refresh_row[OF m ne(1) r3_def, folded m1_def]
  have u: "\<forall>i\<in>set [0..<512]. i < entries False" by (simp add: e)
  note f2 = copy_supervisor_read[OF f1(1) ne(2) u, folded m2_def]
  have rd: "pte_read False m2 t0 j = pte_read False m1 t0 j" "\<not> j < 512 \<Longrightarrow> pte_read False m2 t1 j = pte_read False m t1 j"
    "j < 512 \<Longrightarrow> \<not> bit (pte_read False m2 t1 j) 2" for j
    using f1(4) f2(2) d user_bit_cleared by auto
  have sp: "spine_ok s m" and lf: "leaf_ok s m" using inv by (auto simp: space_inv_def)
  have "spine_ok s m2" using sp f1(2,3) a by (auto simp: spine_ok_def spine_links_def t rd spine_values)
  moreover have "leaf_ok s m2"
  proof -
    have "\<exists>i<512. j = 512 + i" if "j < 1024" "\<not> j < 512" for j :: nat using that by presburger
    then have "\<not> bit (pte_read False m2 t1 j) 2" if "j < 1024" "\<forall>i<512. j \<noteq> 512 + i" for j using that rd(3) by blast
    then show ?thesis using lf a by (simp add: leaf_ok_def t rd(2) Let_def leaf_slot_def spine_values e)
  qed
  ultimately show ?thesis unfolding mm using sh f2(1) by (simp add: space_inv_def)
qed

lemma ku_refresh_inv: "space_inv ops s m \<Longrightarrow> ku_refresh ops root s m = (m', c) \<Longrightarrow> space_inv ops s m'"
  using refresh64_inv[of ops s m] refresh32_inv[of ops s m] by (auto simp: ku_refresh_def Let_def split: if_splits)

section \<open>Writing to user memory\<close>

lemma ku_check_page:
  assumes inv: "space_inv ops s m" and c: "ku_check ops s m off len r" and j: "j < unat len"
  shows "(unat off + j) div 4096 < 512" "sp_frames s ! ((unat off + j) div 4096) \<noteq> 0"
    "ucast (sp_rights s ! ((unat off + j) div 4096)) AND r = r"
proof -
  have b: "unat off \<le> 0x200000" "unat len \<le> 0x200000 - unat off" "len \<noteq> 0"
    using c j unfolding ku_check_def by (auto simp: KU_SIZE_def word_le_nat_alt unat_sub_u32)
  have d: "unat (drop_bit 12 v) = unat v div 4096" for v :: u32 unfolding unat_drop_bit_eq by (simp add: drop_bit_eq_div)
  show i: "(unat off + j) div 4096 < 512" using b j by simp
  have e: "unat (off + len - 1) = unat off + unat len - 1"
  proof -
    have "1 \<le> unat len" using j by simp
    moreover have "unat (off + len) = unat off + unat len" using b by (intro unat_add_u32) simp
    ultimately show ?thesis by (subst unat_sub_u32) (auto simp: word_le_nat_alt)
  qed
  have "list_all (\<lambda>i. ucast (sp_rights s ! i) AND r = r \<and> translate ops s m (push_bit 12 (of_nat i)) r \<noteq> 0)
        [unat off div 4096..<(unat off + unat len - 1) div 4096 + 1]"
    using c b(3) unfolding ku_check_def d e by simp
  moreover have "(unat off + j) div 4096 \<in> set [unat off div 4096..<(unat off + unat len - 1) div 4096 + 1]"
  proof -
    have "(unat off + j) div 4096 \<le> (unat off + unat len - 1) div 4096" "unat off div 4096 \<le> (unat off + j) div 4096"
      using j by (auto intro: div_le_mono)
    then show ?thesis by (simp del: upt_Suc)
  qed
  ultimately have p: "ucast (sp_rights s ! ((unat off + j) div 4096)) AND r = r"
    "translate ops s m (push_bit 12 (of_nat ((unat off + j) div 4096))) r \<noteq> 0"
    unfolding list_all_iff by blast+
  show "ucast (sp_rights s ! ((unat off + j) div 4096)) AND r = r" by (rule p(1))
  let ?p = "(unat off + j) div 4096"
  have "unat (drop_bit 12 (push_bit 12 (of_nat ?p) :: u32)) = ?p"
    using i by (simp add: d push_bit_eq_mult unat_mult_lem[THEN iffD1] unat_of_nat_u32 unat_word_ariths)
  then show "sp_frames s ! ?p \<noteq> 0" using p(2) by (auto simp: translate_def Let_def split: if_splits)
qed


lemma page_splice_length: "i + length bs \<le> length pg \<Longrightarrow> length (page_splice i bs pg) = length pg"
  by (simp add: page_splice_def)

lemma copy_out_pages_inv:
  "space_inv ops s m \<Longrightarrow> (\<forall>j<length bs. (off + j) div 4096 < 512 \<and> sp_frames s ! ((off + j) div 4096) \<noteq> 0) \<Longrightarrow>
     space_inv ops s (copy_out_pages s off bs m)"
proof (induction s off bs m rule: copy_out_pages.induct)
  case (1 s off bs m)
  show ?case
  proof (cases "bs = []")
    case True
    then show ?thesis using 1 by (simp add: copy_out_pages.simps)
  next
    case False
    let ?n = "min (KU_PAGE - off mod 4096) (length bs)" and ?p = "sp_frames s ! (off div 4096)"
    let ?m = "set_page ?p (page_splice (off mod 4096) (take ?n bs) (ma_page m ?p)) m"
    have h: "off div 4096 < 512" "?p \<noteq> 0" using 1(3) False by (metis add.right_neutral length_greater_0_conv)+
    have "?p \<notin> set (sp_tables s)" using 1(2) h by (auto simp: space_inv_def space_shape_def)
    moreover have "length (ma_page m ?p) = 4096" using 1(2) by (simp add: space_inv_def pages_ok_def)
    ultimately have i: "space_inv ops s ?m"
      using 1(2) by (intro table_pages_other) (auto simp: page_splice_length KU_PAGE_def min_def)
    have r: "\<forall>j<length (drop ?n bs). (off + ?n + j) div 4096 < 512 \<and> sp_frames s ! ((off + ?n + j) div 4096) \<noteq> 0"
    proof (intro allI impI)
      fix j assume "j < length (drop ?n bs)"
      then have "?n + j < length bs" by simp
      then show "(off + ?n + j) div 4096 < 512 \<and> sp_frames s ! ((off + ?n + j) div 4096) \<noteq> 0" using 1(3) unfolding add.assoc by blast
    qed
    have "copy_out_pages s off bs m = copy_out_pages s (off + ?n) (drop ?n bs) ?m"
      using False by (subst copy_out_pages.simps) (simp add: Let_def)
    then show ?thesis using 1(1)[OF False refl refl refl i r] by simp
  qed
qed

lemma ku_copyout_inv: "space_inv ops s m \<Longrightarrow> length bs < 2 ^ 32 \<Longrightarrow> ku_copyout ops s off bs m = Some m' \<Longrightarrow> space_inv ops s m'"
  and ku_load_inv: "space_inv ops s m \<Longrightarrow> length bs < 2 ^ 32 \<Longrightarrow> ku_load ops s off bs m = Some m' \<Longrightarrow> space_inv ops s m'"
proof -
  assume inv: "space_inv ops s m" and len: "length bs < 2 ^ 32"
  have c: "space_inv ops s (copy_out_pages s (unat off) bs m)" if "ku_check ops s m off (of_nat (length bs)) r" for r
    using inv ku_check_page[OF inv that] len by (intro copy_out_pages_inv) (auto simp: unat_of_nat_u32)
  show "ku_copyout ops s off bs m = Some m' \<Longrightarrow> space_inv ops s m'" "ku_load ops s off bs m = Some m' \<Longrightarrow> space_inv ops s m'"
    using c by (auto simp: ku_copyout_def ku_load_def split: if_splits)
qed

lemma ku_pins_inv: "space_inv ops s m \<Longrightarrow> space_inv ops (fst (ku_pin s)) m \<and> space_inv ops (fst (ku_unpin s)) m"
  by (auto simp: ku_pin_def ku_unpin_def space_inv_def space_shape_def spine_ok_def leaf_ok_def page_entry_def Let_def)

end
