(* ===== verification/User_Bytes.thy ===== *)
theory User_Bytes
  imports User_Copy
begin

text \<open>
  The steps of a live space, its memory as bytes, and the kernel's range check against the tables.
\<close>

section \<open>The life of a space\<close>

text \<open>What happens to a live space: its operations, and stores by the kernel and by the program itself to
  any page that is not one of its tables.\<close>

inductive ku_step :: "'c ku_ops \<Rightarrow> ku_space \<times> 'c machine \<Rightarrow> ku_space \<times> 'c machine \<Rightarrow> bool" for ops where
  step_map: "ku_map ops off rights sm = (sm', c) \<Longrightarrow> ku_step ops sm sm'"
| step_refresh: "ku_refresh ops root s m = (m', c) \<Longrightarrow> ku_step ops (s, m) (s, m')"
| step_pin: "ku_pin s = (s', c) \<Longrightarrow> ku_step ops (s, m) (s', m)"
| step_unpin: "ku_unpin s = (s', c) \<Longrightarrow> ku_step ops (s, m) (s', m)"
| step_copyout: "length bs < 2 ^ 32 \<Longrightarrow> ku_copyout ops s off bs m = Some m' \<Longrightarrow> ku_step ops (s, m) (s, m')"
| step_load: "length bs < 2 ^ 32 \<Longrightarrow> ku_load ops s off bs m = Some m' \<Longrightarrow> ku_step ops (s, m) (s, m')"
| step_store: "pages_ok m' \<Longrightarrow> ma_ctx m' = ma_ctx m \<Longrightarrow> (\<forall>p\<in>set (sp_tables s). ma_page m' p = ma_page m p) \<Longrightarrow>
    ku_step ops (s, m) (s, m')"

lemma ku_step_inv: "ku_step ops sm sm' \<Longrightarrow> space_inv ops (fst sm) (snd sm) \<Longrightarrow> space_inv ops (fst sm') (snd sm')"
proof (induction rule: ku_step.induct)
  case (step_map off rights sm sm' c)
  then show ?case using ku_map_inv[of ops "fst sm" "snd sm" off rights "fst sm'" "snd sm'" c] by simp
next
  case (step_refresh root s m m' c)
  then show ?case using ku_refresh_inv by fastforce
next
  case (step_pin s s' c m)
  then show ?case using ku_pins_inv[of ops s m] by simp
next
  case (step_unpin s s' c m)
  then show ?case using ku_pins_inv[of ops s m] by simp
next
  case (step_copyout bs s off m m')
  then show ?case using ku_copyout_inv by fastforce
next
  case (step_load bs s off m m')
  then show ?case using ku_load_inv by fastforce
next
  case (step_store m' m s)
  then show ?case by (auto intro: space_inv_cong)
qed

lemma ku_steps_inv: "(ku_step ops)\<^sup>*\<^sup>* sm sm' \<Longrightarrow> space_inv ops (fst sm) (snd sm) \<Longrightarrow> space_inv ops (fst sm') (snd sm')"
  by (induction rule: rtranclp_induct) (auto intro: ku_step_inv)

section \<open>User memory as bytes\<close>

definition user_byte :: "ku_space \<Rightarrow> 'c machine \<Rightarrow> nat \<Rightarrow> u8" where
  "user_byte s m z = ma_page m (sp_frames s ! (z div 4096)) ! (z mod 4096)"

definition mapped :: "ku_space \<Rightarrow> nat \<Rightarrow> bool" where
  "mapped s z \<longleftrightarrow> z div 4096 < 512 \<and> sp_frames s ! (z div 4096) \<noteq> 0"

lemma frames_inj:
  assumes "space_inv ops s m" "i < 512" "j < 512" "sp_frames s ! i \<noteq> 0" "sp_frames s ! i = sp_frames s ! j"
  shows "i = j"
proof -
  have d: "distinct (filter (\<lambda>p. p \<noteq> 0) (sp_frames s))" "length (sp_frames s) = 512" using assms(1) by (auto simp: space_inv_def space_shape_def)
  have "\<forall>i j. i < length xs \<longrightarrow> j < length xs \<longrightarrow> xs ! i \<noteq> 0 \<longrightarrow> xs ! i = xs ! j \<longrightarrow> i = j" if "distinct (filter (\<lambda>p. p \<noteq> 0) xs)" for xs :: "u32 list"
    using that
  proof (induction xs)
    case (Cons x xs)
    then have "distinct (filter (\<lambda>p. p \<noteq> 0) xs)" by (auto split: if_splits)
    note ih = Cons.IH[OF this]
    show ?case
    proof (intro allI impI)
      fix i j assume a: "i < length (x # xs)" "j < length (x # xs)" "(x # xs) ! i \<noteq> 0" "(x # xs) ! i = (x # xs) ! j"
      show "i = j"
        using a ih Cons.prems by (cases i; cases j) (auto split: if_splits)
    qed
  qed simp
  then show ?thesis using d assms by simp
qed

lemma user_byte_splice:
  assumes inv: "space_inv ops s m" and i: "mapped s off" and n: "off mod 4096 + length bs \<le> 4096" and z: "mapped s z"
  shows "user_byte s (set_page (sp_frames s ! (off div 4096)) (page_splice (off mod 4096) bs (ma_page m (sp_frames s ! (off div 4096)))) m) z
    = (if off \<le> z \<and> z < off + length bs then bs ! (z - off) else user_byte s m z)"
proof -
  let ?p = "sp_frames s ! (off div 4096)"
  have len: "length (ma_page m ?p) = 4096" using inv by (simp add: space_inv_def pages_ok_def)
  show ?thesis
  proof (cases "z div 4096 = off div 4096")
    case True
    have e: "z = off div 4096 * 4096 + z mod 4096" "off = off div 4096 * 4096 + off mod 4096" using True div_mult_mod_eq[of z 4096] div_mult_mod_eq[of off 4096] by simp_all
    define q where "q = off div 4096"
    define x where "x = z mod 4096"
    define y where "y = off mod 4096"
    have oe: "z = q * 4096 + x" "off = q * 4096 + y" and x: "x < 4096" "y + length bs \<le> 4096"
      using e n by (simp_all add: q_def x_def y_def)
    have "page_splice y bs (ma_page m ?p) ! x = (if y \<le> x \<and> x < y + length bs then bs ! (x - y) else ma_page m ?p ! x)"
      using x len by (auto simp: page_splice_def nth_append)
    then show ?thesis unfolding user_byte_def True x_def[symmetric] y_def[symmetric] using oe by auto
  next
    case False
    have "sp_frames s ! (z div 4096) \<noteq> ?p" using frames_inj[OF inv] False i z by (auto simp: mapped_def)
    moreover have "\<not> (off \<le> z \<and> z < off + length bs)"
    proof
      assume a: "off \<le> z \<and> z < off + length bs"
      have "off div 4096 \<le> z div 4096" using a by (auto intro: div_le_mono)
      moreover have "z < (off div 4096 + 1) * 4096" using a n div_mult_mod_eq[of off 4096] by (simp only: distrib_right) linarith
      then have "z div 4096 < off div 4096 + 1" by (simp only: less_mult_imp_div_less)
      ultimately have "z div 4096 = off div 4096" by simp
      then show False using False by simp
    qed
    ultimately show ?thesis by (auto simp: user_byte_def)
  qed
qed


lemma copy_out_bytes:
  "space_inv ops s m \<Longrightarrow> (\<forall>j<length bs. mapped s (off + j)) \<Longrightarrow> mapped s z \<Longrightarrow>
     user_byte s (copy_out_pages s off bs m) z = (if off \<le> z \<and> z < off + length bs then bs ! (z - off) else user_byte s m z)"
proof (induction s off bs m rule: copy_out_pages.induct)
  case (1 s off bs m)
  show ?case
  proof (cases "bs = []")
    case True
    then show ?thesis by (auto simp: copy_out_pages.simps)
  next
    case False
    let ?n = "min (KU_PAGE - off mod 4096) (length bs)" and ?p = "sp_frames s ! (off div 4096)"
    let ?m = "set_page ?p (page_splice (off mod 4096) (take ?n bs) (ma_page m ?p)) m"
    have h: "mapped s off" using 1(3) False by (metis add.right_neutral length_greater_0_conv)
    have len: "length (ma_page m ?p) = 4096" using 1(2) by (simp add: space_inv_def pages_ok_def)
    have "?p \<notin> set (sp_tables s)" using 1(2) h by (auto simp: space_inv_def space_shape_def mapped_def)
    then have i: "space_inv ops s ?m"
      using 1(2) len by (intro table_pages_other) (auto simp: page_splice_length KU_PAGE_def min_def)
    have r: "\<forall>j<length (drop ?n bs). mapped s (off + ?n + j)"
    proof (intro allI impI)
      fix j assume "j < length (drop ?n bs)"
      then have "?n + j < length bs" by simp
      then show "mapped s (off + ?n + j)" using 1(3) by (metis add.assoc)
    qed
    have u: "copy_out_pages s off bs m = copy_out_pages s (off + ?n) (drop ?n bs) ?m"
      using False by (subst copy_out_pages.simps) (simp add: Let_def)
    have w: "user_byte s ?m z = (if off \<le> z \<and> z < off + ?n then take ?n bs ! (z - off) else user_byte s m z)"
      using user_byte_splice[OF 1(2) h _ 1(4), of "take ?n bs"] by (simp add: KU_PAGE_def)
    show ?thesis
      unfolding u 1(1)[OF False refl refl refl i r 1(4)] w by (auto simp: less_diff_conv2 less_diff_conv)
  qed
qed

lemma page_offset: "r < 4096 \<Longrightarrow> (q * 4096 + r) div 4096 = q" "r < 4096 \<Longrightarrow> (q * 4096 + r) mod 4096 = r" for q r :: nat
  by simp_all

lemma copy_in_bytes:
  "space_inv ops s m \<Longrightarrow> copy_in_pages s m off len = map (user_byte s m) [off..<off + len]"
proof (induction s m off len rule: copy_in_pages.induct)
  case (1 s m off len)
  show ?case
  proof (cases "len = 0")
    case True
    then show ?thesis by (simp add: copy_in_pages.simps)
  next
    case False
    let ?n = "min (KU_PAGE - off mod 4096) len" and ?p = "sp_frames s ! (off div 4096)"
    have plen: "length (ma_page m ?p) = 4096" using 1(2) by (simp add: space_inv_def pages_ok_def)
    have "take ?n (drop (off mod 4096) (ma_page m ?p)) = map (user_byte s m) [off..<off + ?n]"
    proof (rule nth_equalityI)
      show "length (take ?n (drop (off mod 4096) (ma_page m ?p))) = length (map (user_byte s m) [off..<off + ?n])"
        using plen by (simp add: KU_PAGE_def)
      fix k assume "k < length (take ?n (drop (off mod 4096) (ma_page m ?p)))"
      then have k: "k < ?n" "off mod 4096 + k < 4096" using plen by (auto simp: KU_PAGE_def)
      have "off + k = off div 4096 * 4096 + (off mod 4096 + k)" using div_mult_mod_eq[of off 4096] by simp
      then have "(off + k) div 4096 = off div 4096" "(off + k) mod 4096 = off mod 4096 + k" using page_offset[OF k(2)] by metis+
      then show "take ?n (drop (off mod 4096) (ma_page m ?p)) ! k = map (user_byte s m) [off..<off + ?n] ! k"
        using k plen by (simp add: user_byte_def)
    qed
    moreover have "copy_in_pages s m (off + ?n) (len - ?n) = map (user_byte s m) [off + ?n..<off + len]"
      using 1(1)[OF False refl refl 1(2)] by simp
    moreover have "[off..<off + len] = [off..<off + ?n] @ [off + ?n..<off + len]"
      using upt_add_eq_append[of off "off + ?n" "len - ?n"] by simp
    moreover have "copy_in_pages s m off len = take ?n (drop (off mod 4096) (ma_page m ?p)) @ copy_in_pages s m (off + ?n) (len - ?n)"
      using False by (subst copy_in_pages.simps) (simp add: Let_def)
    ultimately show ?thesis by simp
  qed
qed



section \<open>The kernel's check against the tables\<close>

lemma walk_index_hw: "walk_index a virt l = hw_index a (ucast virt) l"
  by (simp add: walk_index_def hw_index_def)

lemma walk_link:
  assumes "pte_read (sp_arch64 s) m p (walk_index (sp_arch64 s) virt l) = pte_trim (sp_arch64 s) (link_entry q)" "direct ops p" "valid_frame q"
  shows "walk ops s m virt r (l # ls) p = walk ops s m virt r ls q"
proof -
  have "q \<noteq> 0" using assms(3) by (simp add: valid_frame_def)
  then show ?thesis
    using assms(1,2) link_entry_facts[OF assms(3), of "sp_arch64 s"] refers_address(1)[OF _ assms(3), of "pte_trim (sp_arch64 s) (link_entry q)"]
    by (simp add: entry_denied_def and_present_user and_flag)
qed

lemma and_sub: "x AND r = r \<Longrightarrow> r AND f \<noteq> 0 \<Longrightarrow> x AND f \<noteq> (0 :: u32)"
proof
  assume x: "x AND r = r" and r: "r AND f \<noteq> 0" and "x AND f = 0"
  then have "(x AND f) AND r = 0" by simp
  moreover have "(x AND f) AND r = (x AND r) AND f" by (simp add: ac_simps)
  ultimately show False using x r by simp
qed

lemma translate_exact:
  assumes inv: "space_inv ops s m" and i: "i < 512" "sp_frames s ! i \<noteq> 0" and r: "ucast (sp_rights s ! i) AND r = r"
  shows "translate ops s m (push_bit 12 (of_nat i)) r = sp_frames s ! i"
proof -
  let ?t = "sp_tables s" and ?a = "sp_arch64 s" and ?off = "push_bit 12 (of_nat i) :: u32"
  let ?v = "ucast (KU_BASE + ?off) :: u64"
  have sh: "space_shape ops s" and sp: "spine_ok s m" and lf: "leaf_ok s m" using inv by (auto simp: space_inv_def)
  have len: "length ?t = (if ?a then 4 else 2)" and dir: "\<forall>p\<in>set ?t. direct ops p" and root: "sp_root s = ?t ! 0"
    using sh by (auto simp: space_shape_def)
  have fr: "direct ops (sp_frames s ! i)" "valid_frame (sp_frames s ! i)" "length (sp_frames s) = 512"
    using sh i by (auto simp: space_shape_def direct_def all_set_conv_all_nth)
  have off: "unat ?off = 4096 * i" using i(1) by (simp add: push_bit_eq_mult unat_mult_lem[THEN iffD1] unat_of_nat_u32 unat_word_ariths)
  have "unat (KU_BASE + ?off) = 0xE00000 + 4096 * i" using off i(1) by (subst unat_add_u32) (simp_all add: KU_BASE_def)
  then have v: "unat ?v = 0xE00000 + 4096 * i" by (simp add: unat_ucast_32_64)
  have n: "unat ?v div 4096 = 3584 + i" using v by simp
  have d: "unat ?v div (4096 * k) = (3584 + i) div k" for k using n by (simp add: div_mult2_eq)
  have "(i + 7 * 512) mod 512 = i" "(512 + i + 3 * 1024) mod 1024 = 512 + i" using i(1) by (simp_all only: mod_mult_self1) simp_all
  then have md: "(3584 + i) mod 512 = i" "(3584 + i) mod 1024 = 512 + i" by (simp_all add: ac_simps)
  have page: "unat (drop_bit 12 ?off) = i" using off unfolding unat_drop_bit_eq by (simp add: drop_bit_eq_div)
  have leaf: "walk ops s m (KU_BASE + ?off) r [0] (last ?t) = sp_frames s ! i"
    if "walk_index ?a (KU_BASE + ?off) 0 = leaf_slot ?a i"
  proof -
    have e: "pte_read ?a m (last ?t) (leaf_slot ?a i) = pte_trim ?a (page_entry s (sp_frames s ! i) (ucast (sp_rights s ! i)))"
      using lf i by (auto simp: leaf_ok_def Let_def)
    note f = page_entry_facts[OF fr(2), of s "ucast (sp_rights s ! i)"]
    have "?t \<noteq> []" using len by (cases ?a) auto
    then have "direct ops (last ?t)" using dir by simp
    moreover have "\<not> entry_denied s r 0 (pte_trim ?a (page_entry s (sp_frames s ! i) (ucast (sp_rights s ! i))))"
      using f and_sub[OF r, of KU_W] and_sub[OF r, of KU_X] by (simp add: entry_denied_def and_present_user and_flag) blast
    ultimately show ?thesis using that e refers_address(1)[OF f(1) fr(2)] i(2) by (simp add: Let_def)
  qed
  have link: "walk ops s m (KU_BASE + ?off) r (lv # ls) (?t ! l) = walk ops s m (KU_BASE + ?off) r ls (?t ! Suc l)"
    if "(l, k) \<in> set (spine_links ?a)" "walk_index ?a (KU_BASE + ?off) lv = k" for l k lv ls
  proof -
    have l: "Suc l < length ?t" using that len by (auto simp: spine_links_def split: if_splits)
    have "pte_read ?a m (?t ! l) k = pte_trim ?a (link_entry (?t ! Suc l))" using sp that by (auto simp: spine_ok_def Let_def)
    then show ?thesis using that(2) l dir by (intro walk_link) (auto simp: direct_def)
  qed
  have w: "walk ops s m (KU_BASE + ?off) r (if ?a then [3, 2, 1, 0] else [1, 0]) (sp_root s) = sp_frames s ! i"
  proof (cases ?a)
    case True
    have a: "?a = True" using True by simp
    have ix: "walk_index ?a (KU_BASE + ?off) 3 = 0" "walk_index ?a (KU_BASE + ?off) 2 = 0" "walk_index ?a (KU_BASE + ?off) 1 = 7"
      "walk_index ?a (KU_BASE + ?off) 0 = leaf_slot ?a i"
      using d[of "2 ^ 27"] d[of "2 ^ 18"] d[of "2 ^ 9"] d[of 1] i(1) md by (simp_all add: a walk_index_hw hw_index_nat leaf_slot_def)
    show ?thesis
      using link[of 0 0 3 "[2, 1, 0]"] link[of 1 0 2 "[1, 0]"] link[of 2 7 1 "[0]"] leaf[OF ix(4)] ix(1-3) last_table[OF inv] root
      by (simp add: a spine_links_def spine_values numeral_2_eq_2 numeral_3_eq_3 del: walk.simps)
  next
    case False
    have a: "?a = False" using False by simp
    have ix: "walk_index ?a (KU_BASE + ?off) 1 = 3" "walk_index ?a (KU_BASE + ?off) 0 = leaf_slot ?a i"
      using d[of "2 ^ 10"] d[of 1] i(1) md by (simp_all add: a walk_index_hw hw_index_nat leaf_slot_def spine_values)
    show ?thesis using link[of 0 3 1 "[0]"] leaf[OF ix(2)] ix(1) last_table[OF inv] root
      by (simp add: a spine_links_def spine_values del: walk.simps)
  qed
  then show ?thesis using fr(1) by (simp add: translate_def Let_def page)
qed

text \<open>In a consistent space the check on the tables comes down to the recorded rights of the pages.\<close>

definition range_granted :: "ku_space \<Rightarrow> u32 \<Rightarrow> u32 \<Rightarrow> u32 \<Rightarrow> bool" where
  "range_granted s off len r \<longleftrightarrow> r \<noteq> 0 \<and> r AND NOT 7 = 0 \<and> unat off + unat len \<le> unat KU_SIZE \<and>
     (\<forall>z. unat off \<le> z \<and> z < unat off + unat len \<longrightarrow> mapped s z \<and> ucast (sp_rights s ! (z div 4096)) AND r = r)"

lemma ku_check_granted:
  assumes inv: "space_inv ops s m"
  shows "ku_check ops s m off len r \<longleftrightarrow> range_granted s off len r"
proof
  assume c: "ku_check ops s m off len r"
  have g: "mapped s z \<and> ucast (sp_rights s ! (z div 4096)) AND r = r" if "unat off \<le> z" "z < unat off + unat len" for z
    using ku_check_page[OF inv c, of "z - unat off"] that by (simp add: mapped_def)
  have "unat off + unat len \<le> unat KU_SIZE"
    using c unfolding ku_check_def by (auto simp: word_le_nat_alt unat_sub_u32)
  then show "range_granted s off len r" using c g by (auto simp: range_granted_def ku_check_def)
next
  assume g: "range_granted s off len r"
  then have b: "unat off + unat len \<le> 0x200000" and r: "r \<noteq> 0" "r AND NOT 7 = 0" by (auto simp: range_granted_def KU_SIZE_def)
  have live: "sp_live s" using inv by (simp add: space_inv_def space_shape_def)
  have le: "off \<le> KU_SIZE" "len \<le> KU_SIZE - off"
    using b by (auto simp: KU_SIZE_def word_le_nat_alt unat_sub_u32)
  have "list_all (\<lambda>i. ucast (sp_rights s ! i) AND r = r \<and> translate ops s m (push_bit 12 (of_nat i)) r \<noteq> 0)
        [unat (drop_bit 12 off)..<unat (drop_bit 12 (off + len - 1)) + 1]" if "len \<noteq> 0"
    unfolding list_all_iff
  proof
    have d: "unat (drop_bit 12 v) = unat v div 4096" for v :: u32 unfolding unat_drop_bit_eq by (simp add: drop_bit_eq_div)
    have l: "0 < unat len" using that by (simp add: unat_gt_0)
    have e: "unat (off + len - 1) = unat off + unat len - 1"
    proof -
      have "unat (off + len) = unat off + unat len" using b by (intro unat_add_u32) simp
      then show ?thesis using l by (subst unat_sub_u32) (auto simp: word_le_nat_alt)
    qed
    fix i assume "i \<in> set [unat (drop_bit 12 off)..<unat (drop_bit 12 (off + len - 1)) + 1]"
    then have i: "unat off div 4096 \<le> i" "i \<le> (unat off + unat len - 1) div 4096" by (simp_all add: d e del: upt_Suc)
    define z where "z = max (unat off) (i * 4096)"
    have z: "unat off \<le> z" "z < unat off + unat len" "z div 4096 = i"
    proof -
      show "unat off \<le> z" by (simp add: z_def)
      have "i * 4096 \<le> unat off + unat len - 1" using i(2) by (simp add: less_eq_div_iff_mult_less_eq)
      then show "z < unat off + unat len" using l by (auto simp: z_def)
      have "unat off < (i + 1) * 4096" using i(1) by (simp add: div_less_iff_less_mult[symmetric] less_Suc_eq_le)
      then show "z div 4096 = i" unfolding z_def by (intro div_nat_eqI) auto
    qed
    have m: "mapped s z" "ucast (sp_rights s ! i) AND r = r" using g z by (auto simp: range_granted_def)
    have "translate ops s m (push_bit 12 (of_nat i)) r = sp_frames s ! i"
      using translate_exact[OF inv _ _ m(2)] m(1) z(3) by (auto simp: mapped_def)
    then show "ucast (sp_rights s ! i) AND r = r \<and> translate ops s m (push_bit 12 (of_nat i)) r \<noteq> 0"
      using m z(3) by (auto simp: mapped_def)
  qed
  then show "ku_check ops s m off len r" using live r le by (auto simp: ku_check_def)
qed

end
