(* ===== verification/User_Pool.thy ===== *)
theory User_Pool
  imports User_Bytes Pmm
begin

text \<open>
  Frames and their owners. The contract of a frame allocator is a locale; under it the frames of a
  space come out of the pool one by one and all go back. The kernel's allocator callbacks,
  \<^verbatim>\<open>kernel/user_mode.c\<close>, are an instance of it.
\<close>

definition held :: "ku_space \<Rightarrow> u32 set" where
  "held s = set (sp_tables s) \<union> (set (sp_frames s) - {0})"

text \<open>Nothing but the allocator's callbacks touches its state.\<close>

lemma ctx_write: "ma_ctx (pte_write a p i e m) = ma_ctx m" "ma_ctx (set_page p pg m) = ma_ctx m"
  by (simp_all add: pte_write_def)

lemma ctx_copy: "ma_ctx (copy_supervisor a src dst ixs m) = ma_ctx m"
  unfolding copy_supervisor_def by (induction ixs arbitrary: m) (simp_all add: ctx_write)

lemma ctx_fold: "(\<And>i m. ma_ctx (f i m) = ma_ctx m) \<Longrightarrow> ma_ctx (fold f is m) = ma_ctx m"
  by (induction "is" arbitrary: m) simp_all

lemma ctx_spine: "ma_ctx (spine64 s m) = ma_ctx m" "ma_ctx (spine32 s m) = ma_ctx m"
  by (simp_all add: spine64_def spine32_def Let_def ctx_write ctx_fold ctx_copy)

lemma ctx_copy_out: "ma_ctx (copy_out_pages s off bs m) = ma_ctx m"
proof (induction s off bs m rule: copy_out_pages.induct)
  case (1 s off bs m)
  show ?case
  proof (cases "bs = []")
    case True
    then show ?thesis by (subst copy_out_pages.simps) simp
  next
    case False
    show ?thesis by (subst copy_out_pages.simps) (simp add: False 1[OF False refl refl refl] Let_def ctx_write)
  qed
qed

lemmas ctx_simps = ctx_write ctx_copy ctx_fold ctx_spine ctx_copy_out

definition ku_blank :: "int \<Rightarrow> int \<Rightarrow> ku_space" where
  "ku_blank arch nx = ku_zero\<lparr>sp_live := True, sp_arch64 := arch \<noteq> 0, sp_nx := nx \<noteq> 0\<rparr>"

lemma borrow_fields: "borrow ops p s = Some s' \<Longrightarrow> same_kind s s' \<and> sp_tables s' = sp_tables s"
  by (auto simp: borrow_def same_kind_def split: if_splits)

lemma borrow_spine_fields: "borrow_spine ops root m s = (s', k) \<Longrightarrow> same_kind s s' \<and> sp_tables s' = sp_tables s"
  by (auto simp: borrow_spine_def Let_def same_kind_def split: option.splits if_splits dest!: borrow_entry_some borrow_fields)

lemma add_tables_fields: "add_tables n ops (s, m) = ((s', m'), k) \<Longrightarrow> same_kind s s'"
proof (induction n arbitrary: s m)
  case (Suc n)
  obtain s1 m1 k1 where t: "table ops (s, m) = ((s1, m1), k1)" by (metis prod.exhaust)
  then have "same_kind s s1" by (auto simp: table_def same_kind_def split: prod.splits if_splits)
  then show ?case using Suc t by (cases k1) (auto intro: same_kind_trans)
qed (simp add: same_kind_def)

lemma set_fill_slot:
  assumes "i < length xs" "xs ! i = 0" "p \<noteq> (0 :: u32)"
  shows "set (xs[i := p]) - {0} = insert p (set xs - {0})"
proof -
  have "xs = take i xs @ 0 # drop (Suc i) xs" "xs[i := p] = take i xs @ p # drop (Suc i) xs"
    using assms id_take_nth_drop[of i xs] by (simp_all add: upd_conv_take_nth_drop)
  then have "set xs = insert 0 (set (take i xs) \<union> set (drop (Suc i) xs))" "set (xs[i := p]) = insert p (set (take i xs) \<union> set (drop (Suc i) xs))"
    by (metis Un_insert_right list.set(2) set_append)+
  then show ?thesis using assms(3) by auto
qed

text \<open>The outcomes of \<^verbatim>\<open>ku_map\<close> and \<^verbatim>\<open>ku_create\<close>.\<close>

lemma ku_map_result:
  assumes r: "ku_map ops off rights (s, m) = ((s', m'), c)" and n: "new_frame ops s m = (n, p)"
  shows "(s' = s \<and> m' = m) \<or> (s' = s \<and> m' = n \<and> p = 0) \<or>
    (\<exists>i<512. sp_frames s ! i = 0 \<and> p \<noteq> 0 \<and> sp_frames s' = (sp_frames s)[i := p] \<and> sp_tables s' = sp_tables s \<and>
       sp_borrowed s' = sp_borrowed s \<and> ma_ctx m' = ma_ctx n)"
proof (cases "c = -1")
  case True
  then show ?thesis using r unfolding ku_map_def prod.case n Let_def by (simp split: if_split_asm)
next
  case False
  let ?i = "unat (drop_bit 12 off)"
  have "\<not> (off \<ge> KU_SIZE \<or> off AND 4095 \<noteq> 0)" using r False by (auto simp: ku_map_def split: if_split_asm)
  then have "?i < 512" using arena_page(1)[of off] by (auto simp: not_le)
  moreover have "sp_frames s ! ?i = 0 \<and> p \<noteq> 0 \<and> sp_frames s' = (sp_frames s)[?i := p] \<and> sp_tables s' = sp_tables s \<and>
       sp_borrowed s' = sp_borrowed s \<and> ma_ctx m' = ma_ctx n"
    using r False unfolding ku_map_def prod.case n Let_def by (auto simp: ctx_write split: if_split_asm)
  ultimately show ?thesis by blast
qed

lemma ku_create_result:
  assumes r: "ku_create ops root arch nx (s0, m0) = ((s, m), c)"
    and s1: "borrow_spine ops root m0 (ku_blank arch nx) = (s1, k1)"
    and s2: "add_tables (if sp_arch64 s1 then 4 else 2) ops (s1, m0) = ((s2, m2), k2)"
  shows "(c = -1 \<and> s = s0 \<and> m = m0) \<or> (\<not> k1 \<and> c = -1 \<and> ku_destroy ops (s1, m0) = ((s, m), snd (ku_destroy ops (s1, m0)))) \<or>
    (k1 \<and> \<not> k2 \<and> c = -1 \<and> ku_destroy ops (s2, m2) = ((s, m), snd (ku_destroy ops (s2, m2)))) \<or>
    (k1 \<and> k2 \<and> c = 0 \<and> s = s2\<lparr>sp_root := sp_tables s2 ! 0\<rparr> \<and> m = (if sp_arch64 s2 then spine64 s2 m2 else spine32 s2 m2))"
proof (cases "sp_live s0 \<or> (arch \<noteq> 0 \<and> arch \<noteq> 1) \<or> (nx \<noteq> 0 \<and> nx \<noteq> 1) \<or> (nx \<noteq> 0 \<and> arch = 0)")
  case True
  then have "ku_create ops root arch nx (s0, m0) = ((s0, m0), -1)" unfolding ku_create_def prod.case by (simp only: if_True)
  then show ?thesis using r by simp
next
  case False
  have e: "ku_create ops root arch nx (s0, m0) = (if \<not> k1 then (fst (ku_destroy ops (s1, m0)), -1)
    else if \<not> k2 then (fst (ku_destroy ops (s2, m2)), -1)
    else ((s2\<lparr>sp_root := sp_tables s2 ! 0\<rparr>, if sp_arch64 s2 then spine64 s2 m2 else spine32 s2 m2), 0))"
    using False s1[unfolded ku_blank_def] s2 by (cases k1; cases k2) (simp_all only: ku_create_def prod.case Let_def if_False bool.case simp_thms if_True)
  have d: "fst (ku_destroy ops x) = (s, m) \<Longrightarrow> ku_destroy ops x = ((s, m), snd (ku_destroy ops x))" for x by (simp add: prod_eq_iff)
  show ?thesis using r d unfolding e by (cases k1; cases k2) simp_all
qed

locale frame_pool =
  fixes ops :: "'c ku_ops"
    and ok :: "'c \<Rightarrow> bool"
    and managed :: "'c \<Rightarrow> u32 set"
    and free :: "'c \<Rightarrow> u32 set"
  assumes take_frame: "ok c \<Longrightarrow> op_alloc ops c = (c', p) \<Longrightarrow> ok c' \<and> managed c' = managed c \<and>
      (if p = 0 then free c' = free c else p \<in> free c \<and> free c' = free c - {p})"
    and give_frame: "ok c \<Longrightarrow> p \<in> managed c \<Longrightarrow>
      ok (op_release ops c p) \<and> managed (op_release ops c p) = managed c \<and> free (op_release ops c p) = insert p (free c)"
    and free_managed: "ok c \<Longrightarrow> free c \<subseteq> managed c"
begin

text \<open>The frames of the pool are either free or held by the space, never both.\<close>

definition shares :: "u32 set \<Rightarrow> ku_space \<Rightarrow> 'c machine \<Rightarrow> bool" where
  "shares F s m \<longleftrightarrow> ok (ma_ctx m) \<and> held s \<subseteq> managed (ma_ctx m) \<and> held s \<inter> free (ma_ctx m) = {} \<and>
     set (sp_borrowed s) \<inter> free (ma_ctx m) = {} \<and> free (ma_ctx m) \<union> held s = F"

lemma new_frame_pool:
  assumes sh: "shares F s m" and n: "new_frame ops s m = (m', p)"
  shows "ok (ma_ctx m')" "managed (ma_ctx m') = managed (ma_ctx m)"
    "p = 0 \<Longrightarrow> free (ma_ctx m') = free (ma_ctx m)"
    "p \<noteq> 0 \<Longrightarrow> p \<in> free (ma_ctx m) \<and> free (ma_ctx m') = free (ma_ctx m) - {p}"
proof -
  obtain c q where q: "op_alloc ops (ma_ctx m) = (c, q)" by fastforce
  have o: "ok (ma_ctx m)" and d: "held s \<inter> free (ma_ctx m) = {}" "set (sp_borrowed s) \<inter> free (ma_ctx m) = {}"
    using sh by (auto simp: shares_def)
  note t = take_frame[OF o q]
  have z: "q \<noteq> 0 \<Longrightarrow> q \<notin> set (sp_tables s) \<and> q \<notin> set (sp_frames s) \<and> q \<notin> set (sp_borrowed s)"
    using t d by (auto simp: held_def)
  have v: "valid_frame q \<Longrightarrow> q \<noteq> 0" by (simp add: valid_frame_def)
  have r: "q \<noteq> 0 \<Longrightarrow> ok (op_release ops c q) \<and> managed (op_release ops c q) = managed (ma_ctx m) \<and> free (op_release ops c q) = free (ma_ctx m)"
    using t give_frame[of c q] free_managed[OF o] by auto
  have "ok (ma_ctx m') \<and> managed (ma_ctx m') = managed (ma_ctx m) \<and> (p = 0 \<longrightarrow> free (ma_ctx m') = free (ma_ctx m)) \<and>
    (p \<noteq> 0 \<longrightarrow> p \<in> free (ma_ctx m) \<and> free (ma_ctx m') = free (ma_ctx m) - {p})"
    using n t r z v by (auto simp: new_frame_def q Let_def release_def split: if_splits)
  then show "ok (ma_ctx m')" "managed (ma_ctx m') = managed (ma_ctx m)"
    "p = 0 \<Longrightarrow> free (ma_ctx m') = free (ma_ctx m)"
    "p \<noteq> 0 \<Longrightarrow> p \<in> free (ma_ctx m) \<and> free (ma_ctx m') = free (ma_ctx m) - {p}" by auto
qed

lemma shares_take:
  assumes sh: "shares F s m" and n: "new_frame ops s m = (m', p)"
    and h: "held s' = (if p = 0 then held s else insert p (held s))" "sp_borrowed s' = sp_borrowed s" "ma_ctx m'' = ma_ctx m'"
  shows "shares F s' m''"
  using new_frame_pool[OF sh n] sh free_managed[of "ma_ctx m"] h by (cases "p = 0") (auto simp: shares_def)

lemma add_tables_shares:
  "shares F s m \<Longrightarrow> add_tables n ops (s, m) = ((s', m'), ok') \<Longrightarrow> shares F s' m'"
proof (induction n arbitrary: s m)
  case (Suc n)
  obtain k p where n: "new_frame ops s m = (k, p)" by fastforce
  show ?case
  proof (cases "p = 0")
    case True
    then have "s' = s" "m' = k" using Suc.prems(2) by (auto simp: table_def n)
    then show ?thesis using shares_take[OF Suc.prems(1) n, of s' m'] True by simp
  next
    case False
    have "shares F (s\<lparr>sp_tables := sp_tables s @ [p]\<rparr>) k"
      by (rule shares_take[OF Suc.prems(1) n]) (auto simp: held_def False)
    moreover have "add_tables n ops (s\<lparr>sp_tables := sp_tables s @ [p]\<rparr>, k) = ((s', m'), ok')"
      using Suc.prems(2) False by (simp add: table_def n)
    ultimately show ?thesis by (rule Suc.IH)
  qed
qed simp

lemma wipe_shares:
  "ok (ma_ctx m) \<Longrightarrow> set ps \<subseteq> managed (ma_ctx m) \<Longrightarrow>
     ok (ma_ctx (fold (wipe ops) ps m)) \<and> managed (ma_ctx (fold (wipe ops) ps m)) = managed (ma_ctx m) \<and>
     free (ma_ctx (fold (wipe ops) ps m)) = free (ma_ctx m) \<union> set ps"
proof (induction ps arbitrary: m)
  case (Cons p ps)
  have g: "ok (ma_ctx (wipe ops p m)) \<and> managed (ma_ctx (wipe ops p m)) = managed (ma_ctx m) \<and>
    free (ma_ctx (wipe ops p m)) = insert p (free (ma_ctx m))"
    using Cons.prems give_frame by (simp add: wipe_def release_def)
  then have "ok (ma_ctx (fold (wipe ops) ps (wipe ops p m))) \<and>
    managed (ma_ctx (fold (wipe ops) ps (wipe ops p m))) = managed (ma_ctx (wipe ops p m)) \<and>
     free (ma_ctx (fold (wipe ops) ps (wipe ops p m))) = free (ma_ctx (wipe ops p m)) \<union> set ps"
    using Cons.prems by (intro Cons.IH) auto
  then show ?case using g by auto
qed simp

lemma ku_destroy_shares:
  assumes "shares F s m" "ku_destroy ops (s, m) = ((s', m'), c)" "sp_pins s = 0" "sp_live s"
  shows "s' = ku_zero" "ok (ma_ctx m')" "free (ma_ctx m') = F" "c = 0"
proof -
  let ?fr = "filter (\<lambda>p. p \<noteq> 0) (sp_frames s)"
  have m': "m' = fold (wipe ops) (?fr @ sp_tables s) m" and z: "s' = ku_zero" "c = 0"
    using assms(2-4) by (auto simp: ku_destroy_def)
  have "set (?fr @ sp_tables s) = held s" by (auto simp: held_def)
  then show "s' = ku_zero" "ok (ma_ctx m')" "free (ma_ctx m') = F" "c = 0"
    using wipe_shares[of m "?fr @ sp_tables s"] assms(1) z unfolding m' by (auto simp: shares_def)
qed

lemma ku_map_shares:
  assumes sh: "shares F s m" and inv: "space_inv ops s m" and r: "ku_map ops off rights (s, m) = ((s', m'), c)"
  shows "shares F s' m'"
proof -
  obtain n p where n: "new_frame ops s m = (n, p)" by fastforce
  have len: "length (sp_frames s) = 512" using inv by (simp add: space_inv_def space_shape_def)
  from ku_map_result[OF r n] consider "s' = s" "m' = m" | "s' = s" "m' = n" "p = 0"
    | i where "i < 512" "sp_frames s ! i = 0" "p \<noteq> 0" "sp_frames s' = (sp_frames s)[i := p]" "sp_tables s' = sp_tables s"
        "sp_borrowed s' = sp_borrowed s" "ma_ctx m' = ma_ctx n"
    by blast
  then show ?thesis
  proof cases
    case 1 then show ?thesis using sh by simp
  next
    case 2 then show ?thesis using shares_take[OF sh n] by simp
  next
    case (3 i)
    have "held s' = insert p (held s)"
      using 3 len set_fill_slot[of i "sp_frames s" p] by (simp add: held_def)
    then show ?thesis using shares_take[OF sh n] 3 by simp
  qed
qed

lemma shares_same:
  "shares F s m \<Longrightarrow> ma_ctx m' = ma_ctx m \<Longrightarrow> held s' = held s \<Longrightarrow> sp_borrowed s' = sp_borrowed s \<Longrightarrow> shares F s' m'"
  by (simp add: shares_def)

lemma ku_step_shares:
  "ku_step ops sm sm' \<Longrightarrow> space_inv ops (fst sm) (snd sm) \<Longrightarrow> shares F (fst sm) (snd sm) \<Longrightarrow> shares F (fst sm') (snd sm')"
proof (induction rule: ku_step.induct)
  case (step_map off rights sm sm' c)
  then show ?case using ku_map_shares[of F "fst sm" "snd sm" off rights "fst sm'" "snd sm'" c] by simp
next
  case (step_refresh root s m m' c)
  then show ?case by (auto intro: shares_same simp: ku_refresh_def ctx_simps Let_def split: if_splits)
next
  case (step_pin s s' c m)
  then show ?case by (auto intro: shares_same simp: ku_pin_def held_def split: if_splits)
next
  case (step_unpin s s' c m)
  then show ?case by (auto intro: shares_same simp: ku_unpin_def held_def split: if_splits)
next
  case (step_copyout bs s off m m')
  then show ?case by (auto intro: shares_same simp: ku_copyout_def ctx_simps split: if_splits)
next
  case (step_load bs s off m m')
  then show ?case by (auto intro: shares_same simp: ku_load_def ctx_simps split: if_splits)
next
  case (step_store m' m s)
  then show ?case by (auto intro: shares_same)
qed

lemma ku_steps_shares:
  "(ku_step ops)\<^sup>*\<^sup>* sm sm' \<Longrightarrow> space_inv ops (fst sm) (snd sm) \<Longrightarrow> shares F (fst sm) (snd sm) \<Longrightarrow> shares F (fst sm') (snd sm')"
  by (induction rule: rtranclp_induct) (auto intro: ku_step_shares ku_steps_inv)

lemma ku_create_shares:
  assumes o: "ok (ma_ctx m0)" and r: "ku_create ops root arch nx (s0, m0) = ((s, m), c)"
    and b: "set (sp_borrowed (fst (borrow_spine ops root m0 (ku_blank arch nx)))) \<inter> free (ma_ctx m0) = {}"
  shows "c = 0 \<Longrightarrow> shares (free (ma_ctx m0)) s m"
    "c \<noteq> 0 \<Longrightarrow> ok (ma_ctx m) \<and> free (ma_ctx m) = free (ma_ctx m0)"
proof -
  obtain s1 k1 where s1: "borrow_spine ops root m0 (ku_blank arch nx) = (s1, k1)" by fastforce
  note f1 = borrow_spine_fields[OF s1, unfolded same_kind_def]
  have held1: "held s1 = {}" using f1 by (auto simp: held_def ku_blank_def ku_zero_def)
  have b1: "set (sp_borrowed s1) \<inter> free (ma_ctx m0) = {}" using b by (simp add: s1)
  have sh1: "shares (free (ma_ctx m0)) s1 m0" using o b1 held1 by (simp add: shares_def)
  obtain s2 m2 k2 where s2: "add_tables (if sp_arch64 s1 then 4 else 2) ops (s1, m0) = ((s2, m2), k2)" by (metis prod.exhaust)
  note f2 = add_tables_fields[OF s2, unfolded same_kind_def]
  have sh2: "shares (free (ma_ctx m0)) s2 m2" by (rule add_tables_shares[OF sh1 s2])
  have live: "sp_live s1" "sp_pins s1 = 0" "sp_live s2" "sp_pins s2 = 0"
    using f1 f2 by (simp_all add: ku_blank_def ku_zero_def)
  from ku_create_result[OF r s1 s2] consider "c = -1" "m = m0"
    | "c = -1" "ku_destroy ops (s1, m0) = ((s, m), snd (ku_destroy ops (s1, m0)))"
    | "c = -1" "ku_destroy ops (s2, m2) = ((s, m), snd (ku_destroy ops (s2, m2)))"
    | "c = 0" "s = s2\<lparr>sp_root := sp_tables s2 ! 0\<rparr>" "m = (if sp_arch64 s2 then spine64 s2 m2 else spine32 s2 m2)"
    by blast
  then have "(c = 0 \<longrightarrow> shares (free (ma_ctx m0)) s m) \<and> (c \<noteq> 0 \<longrightarrow> ok (ma_ctx m) \<and> free (ma_ctx m) = free (ma_ctx m0))"
  proof cases
    case 1 then show ?thesis using o by simp
  next
    case 2 then show ?thesis using ku_destroy_shares[OF sh1 2(2)] live by simp
  next
    case 3 then show ?thesis using ku_destroy_shares[OF sh2 3(2)] live by simp
  next
    case 4 then show ?thesis using shares_same[OF sh2, of m s] by (simp add: ctx_simps held_def)
  qed
  then show "c = 0 \<Longrightarrow> shares (free (ma_ctx m0)) s m"
    "c \<noteq> 0 \<Longrightarrow> ok (ma_ctx m) \<and> free (ma_ctx m) = free (ma_ctx m0)" by auto
qed

end

end
