(* ===== verification/User_Props.thy ===== *)
theory User_Props
  imports User_Pool
begin

text \<open>
  The kernel's allocator callbacks for user programs, \<^verbatim>\<open>kernel/user_mode.c\<close>, as an instance of the frame
  pool, and the properties of the address spaces: isolation, exact copies, no leaked frames.
\<close>

definition page_alloc :: "pmm \<Rightarrow> pmm \<times> u32" where
  "page_alloc c =
     (case pmm_alloc_frame c of
        (c, p) \<Rightarrow>
          if p \<ge> KU_DIRECT_LIMIT \<or> (p \<ge> KU_BASE \<and> p < KU_BASE + KU_SIZE)
          then (if p \<noteq> 0 then pmm_free_frame p c else c, 0) else (c, p))"

definition memory_ops :: "pmm ku_ops" where
  "memory_ops = \<lparr>op_alloc = page_alloc, op_release = (\<lambda>c p. pmm_free_frame p c), op_direct = (\<lambda>p. True)\<rparr>"

definition pmm_managed :: "pmm \<Rightarrow> u32 set" where
  "pmm_managed c = {a. a \<noteq> 0 \<and> unat a mod 4096 = 0 \<and> unat a div 4096 < unat (pm_total c)}"

definition pmm_free :: "pmm \<Rightarrow> u32 set" where
  "pmm_free c = {a \<in> pmm_managed c. \<not> used_frame c (unat a div 4096)}"

definition pmm_pool :: "pmm \<Rightarrow> bool" where
  "pmm_pool c \<longleftrightarrow> pmm_ok c \<and> used_frame c 0"

lemma managed_index:
  assumes "pmm_ok c" "a \<in> pmm_managed c"
  shows "unat a = unat a div 4096 * 4096" "0 < unat a div 4096" "unat a div 4096 < 1048576" "a div FRAME_SIZE = of_nat (unat a div 4096)"
    "unat (of_nat (unat a div 4096) :: u32) = unat a div 4096"
proof -
  let ?i = "unat a div 4096"
  have m: "unat a mod 4096 = 0" "a \<noteq> 0" "?i < unat (pm_total c)" using assms(2) by (auto simp: pmm_managed_def)
  show e: "unat a = ?i * 4096" using m(1) div_mult_mod_eq[of "unat a" 4096] by linarith
  show "0 < ?i" using e m(2) by (metis gr0I mult_zero_left unat_0_iff)
  show b: "?i < 1048576" using m(3) assms(1) by (simp add: pmm_ok_def MAX_FRAMES_def word_le_nat_alt)
  have i: "?i * 4096 < 2 ^ 32" using b by simp
  have "of_nat (unat a) = a" by simp
  then have "a = of_nat (?i * 4096)" using e by metis
  then show "a div FRAME_SIZE = of_nat ?i" using frame_word(2)[OF i] by metis
  show "unat (of_nat ?i :: u32) = ?i" by (rule frame_word(3)[OF i])
qed

lemma pmm_give:
  assumes "pmm_pool c" "p \<in> pmm_managed c"
  shows "pmm_pool (pmm_free_frame p c) \<and> pmm_managed (pmm_free_frame p c) = pmm_managed c \<and> pmm_free (pmm_free_frame p c) = insert p (pmm_free c)"
proof -
  let ?k = "unat p div 4096"
  have ok: "pmm_ok c" "used_frame c 0" using assms(1) by (auto simp: pmm_pool_def)
  note k = managed_index[OF ok(1) assms(2)]
  have f: "pmm_free_frame p c = release_frame (of_nat ?k) c" using k(4) by (simp add: pmm_free_frame_def)
  have t: "?k < unat (pm_total c)" using assms(2) by (simp add: pmm_managed_def)
  have u: "i < 2 ^ 32 \<Longrightarrow> used_frame (release_frame (of_nat ?k) c) i \<longleftrightarrow> used_frame c i \<and> i \<noteq> ?k" for i
    using used_release[OF k(5), of i c] t by auto
  have m: "pmm_managed (release_frame (of_nat ?k) c) = pmm_managed c" by (simp add: pmm_managed_def)
  have "pmm_free (release_frame (of_nat ?k) c) = insert p (pmm_free c)"
  proof -
    have "a \<in> pmm_free (release_frame (of_nat ?k) c) \<longleftrightarrow> a = p \<or> a \<in> pmm_free c" for a
    proof (cases "a \<in> pmm_managed c")
      case True
      note a = managed_index[OF ok(1) True]
      have "a = p \<longleftrightarrow> unat a div 4096 = ?k" using a(1) k(1) by (metis word_unat_eq_iff)
      then show ?thesis using u[of "unat a div 4096"] a(3) True by (auto simp: pmm_free_def m)
    next
      case False
      then show ?thesis using assms(2) m by (auto simp: pmm_free_def)
    qed
    then show ?thesis by auto
  qed
  moreover have "pmm_pool (release_frame (of_nat ?k) c)"
    using pmm_ok_frame(1)[OF ok(1)] u[of 0] ok(2) k(2) by (simp add: pmm_pool_def)
  ultimately show ?thesis unfolding f using m by simp
qed

lemma pmm_take:
  assumes "pmm_pool c" "pmm_alloc_frame c = (c', p)"
  shows "pmm_pool c' \<and> pmm_managed c' = pmm_managed c \<and> (if p = 0 then pmm_free c' = pmm_free c else p \<in> pmm_free c \<and> pmm_free c' = pmm_free c - {p})"
proof -
  have ok: "pmm_ok c" "used_frame c 0" using assms(1) by (auto simp: pmm_pool_def)
  note s = pmm_alloc_spec[OF ok assms(2)]
  have tot: "pm_total c' = pm_total c" using assms(2) by (auto simp: pmm_alloc_frame_def split: option.splits)
  then have m: "pmm_managed c' = pmm_managed c" by (simp add: pmm_managed_def)
  show ?thesis
  proof (cases "p = 0")
    case True
    then show ?thesis using s assms(1) by simp
  next
    case False
    then obtain i where i: "unat p = i * 4096" "0 < i" "i < unat (pm_total c)" "\<not> used_frame c i" "used_frame c' i"
      "\<forall>j<2 ^ 32. j \<noteq> i \<longrightarrow> used_frame c' j = used_frame c j" using s by auto
    have pi: "unat p div 4096 = i" "p \<in> pmm_managed c" using i False by (auto simp: pmm_managed_def)
    have "a \<in> pmm_free c' \<longleftrightarrow> a \<in> pmm_free c \<and> a \<noteq> p" for a
    proof (cases "a \<in> pmm_managed c")
      case True
      note a = managed_index[OF ok(1) True]
      have "a = p \<longleftrightarrow> unat a div 4096 = i" using a(1) i(1) by (metis word_unat_eq_iff pi(1))
      then show ?thesis using i(5,6) a(3) True m by (auto simp: pmm_free_def)
    next
      case False
      then show ?thesis using m by (auto simp: pmm_free_def)
    qed
    then have "pmm_free c' = pmm_free c - {p}" by auto
    moreover have "pmm_pool c'" using s i(2,6) ok(2) by (simp add: pmm_pool_def)
    moreover have "p \<in> pmm_free c" using pi i(4) by (simp add: pmm_free_def)
    ultimately show ?thesis using m False by simp
  qed
qed

interpretation pages: frame_pool memory_ops pmm_pool pmm_managed pmm_free
proof unfold_locales
  fix c c' p
  assume o: "pmm_pool c" and r: "op_alloc memory_ops c = (c', p)"
  obtain d q where d: "pmm_alloc_frame c = (d, q)" by fastforce
  note t = pmm_take[OF o d]
  have z: "0 < KU_DIRECT_LIMIT" by (simp add: KU_DIRECT_LIMIT_def)
  show "pmm_pool c' \<and> pmm_managed c' = pmm_managed c \<and> (if p = 0 then pmm_free c' = pmm_free c else p \<in> pmm_free c \<and> pmm_free c' = pmm_free c - {p})"
  proof (cases "q = 0 \<or> \<not> (q \<ge> KU_DIRECT_LIMIT \<or> (q \<ge> KU_BASE \<and> q < KU_BASE + KU_SIZE))")
    case True
    then have "c' = d \<and> p = q" using r by (auto simp: memory_ops_def page_alloc_def d split: if_splits)
    then show ?thesis using t by simp
  next
    case False
    then have "c' = pmm_free_frame q d \<and> p = 0" using r by (auto simp: memory_ops_def page_alloc_def d split: if_splits)
    moreover have "q \<in> pmm_managed d" using t False by (auto simp: pmm_free_def)
    ultimately show ?thesis using pmm_give[of d q] t False by auto
  qed
next
  fix c p assume "pmm_pool c" "p \<in> pmm_managed c"
  then show "pmm_pool (op_release memory_ops c p) \<and> pmm_managed (op_release memory_ops c p) = pmm_managed c \<and>
    pmm_free (op_release memory_ops c p) = insert p (pmm_free c)"
    using pmm_give by (simp add: memory_ops_def)
next
  fix c :: pmm show "pmm_free c \<subseteq> pmm_managed c" by (auto simp: pmm_free_def)
qed


section \<open>A small machine\<close>

text \<open>Sixteen words of bitmap are enough for the example: frames 0 to 2 are in use, frame 1 holds the
  kernel's page directory and frame 2 the table behind its entry for the arena.\<close>

definition lab_pmm :: "nat \<Rightarrow> pmm" where
  "lab_pmm k = \<lparr>pm_bitmap = (\<lambda>i. if i = 0 then mask k else 0), pm_total = 64, pm_used = of_nat k\<rparr>"

definition lab_machine :: "pmm machine" where
  "lab_machine = \<lparr>ma_ctx = lab_pmm 3,
     ma_page = (\<lambda>p. if p = 0x1000 then pte_put False 3 (link_entry 0x2000) zero_page else zero_page)\<rparr>"

lemma lab_used: "k \<le> 32 \<Longrightarrow> i < 64 \<Longrightarrow> used_frame (lab_pmm k) i \<longleftrightarrow> i < k"
proof -
  assume k: "k \<le> 32" and i: "i < 64"
  have u: "unat (of_nat i :: u32) = i" using i by (intro unat_of_nat_u32) simp
  have "used_frame (lab_pmm k) i \<longleftrightarrow> bit ((if i div 32 = 0 then mask k else 0) :: u32) (i mod 32)"
    by (simp only: used_frame_def bm_test_bit u) (simp add: lab_pmm_def)
  also have "\<dots> \<longleftrightarrow> i < k" using k i by (auto simp: bit_mask_iff div_eq_0_iff)
  finally show ?thesis .
qed

lemma lab_total: "unat (pm_total (lab_pmm k)) = 64"
  by (simp add: lab_pmm_def)

lemma lab_alloc:
  assumes "0 < k" "k < 32"
  shows "page_alloc (lab_pmm k) = (lab_pmm (Suc k), of_nat (k * 4096))"
proof -
  have f: "find (\<lambda>i. \<not> bm_test (of_nat i) (pm_bitmap (lab_pmm k))) [0..<unat (pm_total (lab_pmm k))] = Some k"
    unfolding used_frame_def[symmetric] lab_total using assms lab_used[of k] by (auto simp: find_Some_iff intro!: exI[of _ k])
  have u: "unat (of_nat k :: u32) = k" using assms by (intro unat_of_nat_u32) simp
  have w: "(of_nat k :: u32) AND 31 = of_nat k" "drop_bit 5 (of_nat k :: u32) = 0"
    using assms u by (simp_all add: word_unat_eq_iff and_31 word_of_index)
  have a: "pmm_alloc_frame (lab_pmm k) = (lab_pmm (Suc k), of_nat (k * 4096))"
    unfolding pmm_alloc_frame_def f by (simp add: bm_set_def w u lab_pmm_def FRAME_SIZE_def fun_eq_iff mask_Suc_exp or.commute)
  have "unat (of_nat (k * 4096) :: u32) < 0x200000" using assms by (subst unat_of_nat_u32) simp_all
  then show ?thesis
    unfolding page_alloc_def a by (auto simp: KU_DIRECT_LIMIT_def KU_BASE_def word_le_nat_alt)
qed

lemma lab_pool: "pmm_pool (lab_pmm 3)"
proof -
  have "{i. i < 64 \<and> used_frame (lab_pmm 3) i} = {..<3}" using lab_used[of 3] by auto
  then have "length (filter (used_frame (lab_pmm 3)) [0..<64]) = 3" by (simp only: count_filter card_lessThan)
  then show ?thesis using lab_used[of 3 0] by (simp add: pmm_pool_def pmm_ok_def) (simp add: lab_pmm_def MAX_FRAMES_def)
qed

lemma lab_pages: "pages_ok lab_machine"
  by (simp add: pages_ok_def lab_machine_def zero_page_def KU_PAGE_def)

definition lab_root :: "ku_space" where
  "lab_root = (ku_blank 0 0)\<lparr>sp_borrowed := [0x1000, 0x2000]\<rparr>"

lemma lab_borrow: "borrow_spine memory_ops 0x1000 lab_machine (ku_blank 0 0) = (lab_root, True)"
proof -
  have "length zero_page = 4096" "3 < entries False" by (simp_all add: zero_page_def KU_PAGE_def entries_def)
  then have e: "pte_read False lab_machine 0x1000 3 = 0x2007"
    by (simp add: pte_read_def lab_machine_def pte_get_put pte_trim_def link_entry_def PTE_P_def PTE_W_def PTE_U_def)
  have a: "pte_address 0x2007 = 0x2000" by (simp add: pte_address_def PTE_ADDRESS_def KU_DIRECT_LIMIT_def)
  show ?thesis
    by (simp add: borrow_spine_def borrow_def direct_def valid_frame_def memory_ops_def KU_DIRECT_LIMIT_def ku_blank_def ku_zero_def
      lab_root_def spine_values Let_def e borrow_entry_def a PTE_P_def PTE_PS_def)
qed


lemma lab_create:
  obtains s m where "ku_create memory_ops 0x1000 0 0 (ku_zero, lab_machine) = ((s, m), 0)" "sp_frames s = replicate 512 0"
    "sp_borrowed s = [0x1000, 0x2000]" "sp_tables s = [0x3000, 0x4000]" "ma_ctx m = lab_pmm 5" "\<not> sp_arch64 s" "sp_pins s = 0" "sp_live s"
proof -
  obtain s2 m2 k2 where s2: "add_tables (if sp_arch64 lab_root then 4 else 2) memory_ops (lab_root, lab_machine) = ((s2, m2), k2)"
    by (metis prod.exhaust)
  have fr: "sp_frames lab_root = replicate 512 0" "sp_borrowed lab_root = [0x1000, 0x2000]" "sp_tables lab_root = []" "\<not> sp_arch64 lab_root"
    by (simp_all add: lab_root_def ku_blank_def ku_zero_def KU_PAGES_def)
  have n: "new_frame memory_ops s m = (set_page (of_nat (k * 4096)) zero_page (m\<lparr>ma_ctx := lab_pmm (Suc k)\<rparr>), of_nat (k * 4096))"
    if "ma_ctx m = lab_pmm k" "2 < k" "k < 32" "of_nat (k * 4096) \<notin> set (sp_borrowed s) \<union> set (sp_tables s) \<union> set (sp_frames s)"
      "valid_frame (of_nat (k * 4096))" for s m k
    using that lab_alloc[of k] by (simp add: new_frame_def memory_ops_def direct_def Let_def)
  have c0: "ma_ctx lab_machine = lab_pmm 3" by (simp add: lab_machine_def)
  have t1: "table memory_ops (lab_root, lab_machine) = ((lab_root\<lparr>sp_tables := [0x3000]\<rparr>, set_page 0x3000 zero_page (lab_machine\<lparr>ma_ctx := lab_pmm 4\<rparr>)), True)"
    using n[OF c0, of lab_root] fr by (simp add: table_def valid_frame_def KU_DIRECT_LIMIT_def)
  let ?s = "lab_root\<lparr>sp_tables := [0x3000]\<rparr>" and ?m = "set_page 0x3000 zero_page (lab_machine\<lparr>ma_ctx := lab_pmm 4\<rparr>)"
  have c1: "ma_ctx ?m = lab_pmm 4" by simp
  have t2: "table memory_ops (?s, ?m) = ((lab_root\<lparr>sp_tables := [0x3000, 0x4000]\<rparr>, set_page 0x4000 zero_page (?m\<lparr>ma_ctx := lab_pmm 5\<rparr>)), True)"
    using n[OF c1, of ?s] fr by (simp add: table_def valid_frame_def KU_DIRECT_LIMIT_def)
  have r: "s2 = lab_root\<lparr>sp_tables := [0x3000, 0x4000]\<rparr>" "m2 = set_page 0x4000 zero_page (?m\<lparr>ma_ctx := lab_pmm 5\<rparr>)" "k2"
    using s2 t1 t2 fr(4) by (simp_all add: numeral_2_eq_2)
  have z: "\<not> sp_live ku_zero" by (simp add: ku_zero_def)
  obtain s m c where sm: "ku_create memory_ops 0x1000 0 0 (ku_zero, lab_machine) = ((s, m), c)" by (metis prod.exhaust)
  have "c = 0 \<and> s = s2\<lparr>sp_root := sp_tables s2 ! 0\<rparr> \<and> m = (if sp_arch64 s2 then spine64 s2 m2 else spine32 s2 m2)"
    using sm lab_borrow[unfolded ku_blank_def] s2 r(3) z by (auto simp: ku_create_def Let_def)
  then show ?thesis using that[of s m] sm r fr by (auto simp: ctx_simps lab_root_def ku_blank_def ku_zero_def)
qed

lemma lab_map:
  obtains s m s' m' where "ku_create memory_ops 0x1000 0 0 (ku_zero, lab_machine) = ((s, m), 0)"
    "ku_map memory_ops 0 3 (s, m) = ((s', m'), 0)" "sp_frames s' = (replicate 512 0)[0 := 0x5000]" "sp_rights s' ! 0 = 3"
    "\<not> sp_arch64 s'" "sp_pins s' = 0" "space_inv memory_ops s' m'" "sp_borrowed s = [0x1000, 0x2000]"
proof -
  obtain s m where c: "ku_create memory_ops 0x1000 0 0 (ku_zero, lab_machine) = ((s, m), 0)" "sp_frames s = replicate 512 0"
    "sp_borrowed s = [0x1000, 0x2000]" "sp_tables s = [0x3000, 0x4000]" "ma_ctx m = lab_pmm 5" "\<not> sp_arch64 s" "sp_pins s = 0" "sp_live s"
    by (rule lab_create)
  have inv: "space_inv memory_ops s m" by (rule ku_create_inv[OF c(1) lab_pages])
  have lr: "length (sp_rights s) = 512" using inv by (simp add: space_inv_def space_shape_def)
  have n: "new_frame memory_ops s m = (set_page 0x5000 zero_page (m\<lparr>ma_ctx := lab_pmm 6\<rparr>), 0x5000)"
    using lab_alloc[of 5] c by (simp add: new_frame_def memory_ops_def direct_def Let_def valid_frame_def KU_DIRECT_LIMIT_def)
  obtain s' m' k where k: "ku_map memory_ops 0 3 (s, m) = ((s', m'), k)" by (metis prod.exhaust)
  have "k = 0 \<and> sp_frames s' = (replicate 512 0)[0 := 0x5000] \<and> sp_rights s' = (sp_rights s)[0 := 3] \<and> \<not> sp_arch64 s' \<and> sp_pins s' = 0"
    using k c by (auto simp: ku_map_def Let_def n KU_SIZE_def KU_R_def KU_W_def KU_X_def)
  then show ?thesis using that[of s m s' m'] c k lr ku_map_inv[OF inv k] by auto
qed


text \<open>A copy out is seen by the byte view, and a copy in reads it back.\<close>

lemma copy_back:
  assumes inv: "space_inv ops s m" and bs: "length bs < 2 ^ 32" "ku_copyout ops s off bs m = Some m'"
  shows "(\<forall>z. mapped s z \<longrightarrow>
      user_byte s m' z = (if unat off \<le> z \<and> z < unat off + length bs then bs ! (z - unat off) else user_byte s m z)) \<and>
    ku_copyin ops s m' off (of_nat (length bs)) = Some bs"
proof -
  have inv': "space_inv ops s m'" by (rule ku_copyout_inv[OF inv bs])
  have len: "unat (of_nat (length bs) :: u32) = length bs" using bs(1) by (intro unat_of_nat_u32) simp
  have g: "range_granted s off (of_nat (length bs)) (KU_R OR KU_W)" and m': "m' = copy_out_pages s (unat off) bs m"
    using bs(2) ku_check_granted[OF inv] by (auto simp: ku_copyout_def split: if_splits)
  have mp: "mapped s z" if "unat off \<le> z" "z < unat off + length bs" for z using g that by (simp add: range_granted_def len)
  then have all: "\<forall>j<length bs. mapped s (unat off + j)" by simp
  have b: "user_byte s m' z = (if unat off \<le> z \<and> z < unat off + length bs then bs ! (z - unat off) else user_byte s m z)" if "mapped s z" for z
    unfolding m' by (rule copy_out_bytes[OF inv all that])
  have "x AND KU_R = KU_R" if "x AND (KU_R OR KU_W) = KU_R OR KU_W" for x
    using arg_cong[OF that, of "\<lambda>y. y AND KU_R"] by (simp add: and.assoc KU_R_def KU_W_def)
  then have "range_granted s off (of_nat (length bs)) KU_R"
    using g unfolding range_granted_def by (auto simp: KU_R_def)
  then have "ku_copyin ops s m' off (of_nat (length bs)) = Some (map (user_byte s m') [unat off..<unat off + length bs])"
    using ku_check_granted[OF inv'] by (simp add: ku_copyin_def copy_in_bytes[OF inv'] len)
  also have "map (user_byte s m') [unat off..<unat off + length bs] = bs"
    by (rule nth_equalityI) (auto simp: b mp)
  finally show ?thesis using b by blast
qed


text \<open>A pinned space whose first page holds given bytes.\<close>

lemma lab_filled:
  assumes len: "length bs \<le> 4096"
  obtains s and m :: "pmm machine" where "space_inv memory_ops s m" "sp_live s" "sp_pins s = 1" "pages_ok m"
    "\<And>off n. unat off + unat n \<le> length bs \<Longrightarrow> ku_copyin memory_ops s m off n = Some (take (unat n) (drop (unat off) bs))"
    "\<And>off n. unat off + unat n \<le> 4096 \<Longrightarrow> ku_check memory_ops s m off n (KU_R OR KU_W)"
proof -
  obtain s0 m0 s m where l: "ku_create memory_ops 0x1000 0 0 (ku_zero, lab_machine) = ((s0, m0), 0)"
    "ku_map memory_ops 0 3 (s0, m0) = ((s, m), 0)" "sp_frames s = (replicate 512 0)[0 := 0x5000]" "sp_rights s ! 0 = 3"
    "sp_pins s = 0" "space_inv memory_ops s m"
    by (rule lab_map)
  have "KU_R OR KU_W = (3 :: u32)" by (simp add: KU_R_def KU_W_def)
  then have rg: "range_granted s off n (KU_R OR KU_W)" "range_granted s off n KU_R" if "unat off + unat n \<le> 4096" for off n
    using l(3,4) that by (auto simp: range_granted_def mapped_def KU_SIZE_def KU_R_def)
  obtain m1 where m1: "ku_copyout memory_ops s 0 bs m = Some m1"
    using ku_check_granted[OF l(6)] rg(1)[of 0 "of_nat (length bs)"] len by (simp add: ku_copyout_def unat_of_nat_u32)
  have cb: "length bs < 2 ^ 32" using len by simp
  have inv1: "space_inv memory_ops s m1" by (rule ku_copyout_inv[OF l(6) cb m1])
  have live: "sp_live s" using inv1 by (simp add: space_inv_def space_shape_def)
  obtain s' k where p: "ku_pin s = (s', k)" by fastforce
  have s': "s' = s\<lparr>sp_pins := 1\<rparr>" using p l(5) live by (auto simp: ku_pin_def split: if_splits)
  have inv: "space_inv memory_ops s' m1" using ku_pins_inv[OF inv1] p by simp
  note v = copy_back[OF l(6) cb m1, THEN conjunct1, rule_format]
  have b: "user_byte s' m1 z = bs ! z" if "z < length bs" for z
    using v[of z] that len l(3) by (simp add: s' user_byte_def mapped_def)
  show ?thesis
  proof (rule that[OF inv])
    show "sp_live s'" "sp_pins s' = 1" "pages_ok m1" using live inv by (simp_all add: s' space_inv_def)
    have g: "range_granted s' off n r = range_granted s off n r" for off n r by (simp add: range_granted_def mapped_def s')
    show "ku_check memory_ops s' m1 off n (KU_R OR KU_W)" if "unat off + unat n \<le> 4096" for off n
      using ku_check_granted[OF inv] rg(1)[OF that] by (simp add: g)
    show "ku_copyin memory_ops s' m1 off n = Some (take (unat n) (drop (unat off) bs))" if "unat off + unat n \<le> length bs" for off n
    proof -
      have "ku_check memory_ops s' m1 off n KU_R" using ku_check_granted[OF inv] rg(2)[of off n] that len by (simp add: g)
      then have "ku_copyin memory_ops s' m1 off n = Some (map (user_byte s' m1) [unat off..<unat off + unat n])"
        by (simp add: ku_copyin_def copy_in_bytes[OF inv])
      also have "map (user_byte s' m1) [unat off..<unat off + unat n] = take (unat n) (drop (unat off) bs)"
        using that by (intro nth_equalityI) (auto simp: b)
      finally show ?thesis .
    qed
  qed
qed

section \<open>Properties\<close>

text \<open>C26. Isolation. Whatever is done with a space after its creation, the memory a user access can reach is
  exactly the space's own pages of the arena, with the rights each page was given: kernel memory and
  the page tables are never reachable, and with NX no page is both writable and executable.\<close>

theorem user_space_isolated:
  assumes "pages_ok m0" "ku_create ops root arch nx (s0, m0) = (sm, 0)" "(ku_step ops)\<^sup>*\<^sup>* sm (s, m)"
    "unat virt < (if sp_arch64 s then 2 ^ 48 else 2 ^ 32)"
  shows "user_access s m virt = arena_view s virt \<and>
    (\<forall>f w x. user_access s m virt = Some (f, w, x) \<longrightarrow>
       f \<notin> ucast ` (set (sp_tables s) \<union> set (sp_borrowed s)) \<and> (sp_arch64 s \<and> sp_nx s \<longrightarrow> \<not> (w \<and> x)))"
proof (intro conjI allI impI)
  have inv: "space_inv ops s m"
    using ku_steps_inv[OF assms(3)] ku_create_inv[of ops root arch nx s0 m0 "fst sm" "snd sm"] assms(1,2) by simp
  show v: "user_access s m virt = arena_view s virt" by (rule user_access_view[OF inv assms(4)])
  fix f w x assume u: "user_access s m virt = Some (f, w, x)"
  obtain i where i: "i < 512" "sp_frames s ! i \<noteq> 0" "f = ucast (sp_frames s ! i)" "rights_ok (sp_rights s ! i)"
    "w = (ucast (sp_rights s ! i) AND KU_W \<noteq> 0)" "sp_arch64 s \<and> sp_nx s \<longrightarrow> x = (ucast (sp_rights s ! i) AND KU_X \<noteq> 0)"
    using user_access_inside[OF inv u assms(4)] by blast
  have "sp_frames s ! i \<notin> set (sp_tables s) \<union> set (sp_borrowed s)"
    using inv i(1,2) by (auto simp: space_inv_def space_shape_def)
  moreover have "(ucast a :: u64) = ucast b \<longleftrightarrow> a = b" for a b :: u32 by (metis ucast_ucast_frame)
  ultimately show "f \<notin> ucast ` (set (sp_tables s) \<union> set (sp_borrowed s))" using i(3) by auto
  assume "sp_arch64 s \<and> sp_nx s"
  then show "\<not> (w \<and> x)" using i(4-6) by (auto simp: rights_ok_def Let_def)
qed

lemma user_space_isolated_witness:
  "\<exists>s (m :: pmm machine). user_access s m 0xE00000 = Some (0x5000, True, True) \<and> user_access s m 0xE01000 = None \<and> user_access s m 0x3000 = None"
proof -
  obtain s m s' m' where l: "ku_create memory_ops 0x1000 0 0 (ku_zero, lab_machine) = ((s, m), 0)"
    "ku_map memory_ops 0 3 (s, m) = ((s', m'), 0)" "sp_frames s' = (replicate 512 0)[0 := 0x5000]" "sp_rights s' ! 0 = 3" "\<not> sp_arch64 s'"
    by (rule lab_map)
  have st: "(ku_step memory_ops)\<^sup>*\<^sup>* (s, m) (s', m')" using step_map[OF l(2)] by (rule r_into_rtranclp)
  note v = user_space_isolated[OF lab_pages l(1) st, THEN conjunct1]
  have "user_access s' m' 0xE00000 = Some (0x5000, True, True)" "user_access s' m' 0xE01000 = None" "user_access s' m' 0x3000 = None"
    using v[of "0xE00000"] v[of "0xE01000"] v[of "0x3000"] l(3-5)
    by (simp_all add: arena_view_def Let_def KU_BASE_def KU_SIZE_def KU_W_def KU_X_def)
  then show ?thesis by blast
qed

text \<open>C27. The range check of the kernel walks the page tables for every page of the range; in a space in use
  it accepts exactly the ranges inside the arena all of whose bytes are mapped with the rights asked for.\<close>

theorem ku_check_exact:
  assumes "pages_ok m0" "ku_create ops root arch nx (s0, m0) = (sm, 0)" "(ku_step ops)\<^sup>*\<^sup>* sm (s, m)"
  shows "ku_check ops s m off len r \<longleftrightarrow> range_granted s off len r"
proof -
  have "space_inv ops s m"
    using ku_steps_inv[OF assms(3)] ku_create_inv[of ops root arch nx s0 m0 "fst sm" "snd sm"] assms(1,2) by simp
  then show ?thesis by (rule ku_check_granted)
qed

lemma ku_check_exact_witness: "\<exists>s m. ku_check memory_ops s m 0 4096 3 \<and> \<not> ku_check memory_ops s m 1 4096 3"
proof -
  obtain s m s' m' where l: "ku_create memory_ops 0x1000 0 0 (ku_zero, lab_machine) = ((s, m), 0)"
    "ku_map memory_ops 0 3 (s, m) = ((s', m'), 0)" "sp_frames s' = (replicate 512 0)[0 := 0x5000]" "sp_rights s' ! 0 = 3"
    by (rule lab_map)
  have st: "(ku_step memory_ops)\<^sup>*\<^sup>* (s, m) (s', m')" using step_map[OF l(2)] by (rule r_into_rtranclp)
  have "range_granted s' 0 4096 3" using l(3,4) by (auto simp: range_granted_def mapped_def KU_SIZE_def)
  moreover have "\<not> range_granted s' 1 4096 3"
  proof
    assume "range_granted s' 1 4096 3"
    then have "mapped s' 4096" unfolding range_granted_def by simp
    then show False using l(3) by (simp add: mapped_def)
  qed
  ultimately show ?thesis using ku_check_exact[OF lab_pages l(1) st] by blast
qed

text \<open>Copying out to user memory changes exactly the bytes of the range and copying in returns
  them, across page boundaries and with no effect on the other pages.\<close>

theorem user_copy_roundtrip:
  assumes "pages_ok m0" "ku_create ops root arch nx (s0, m0) = (sm, 0)" "(ku_step ops)\<^sup>*\<^sup>* sm (s, m)"
    "length bs < 2 ^ 32" "ku_copyout ops s off bs m = Some m'"
  shows "(\<forall>z. mapped s z \<longrightarrow>
      user_byte s m' z = (if unat off \<le> z \<and> z < unat off + length bs then bs ! (z - unat off) else user_byte s m z)) \<and>
    ku_copyin ops s m' off (of_nat (length bs)) = Some bs"
proof -
  have "space_inv ops s m"
    using ku_steps_inv[OF assms(3)] ku_create_inv[of ops root arch nx s0 m0 "fst sm" "snd sm"] assms(1,2) by simp
  then show ?thesis by (rule copy_back[OF _ assms(4,5)])
qed

lemma user_copy_roundtrip_witness:
  "\<exists>s m m'. ku_copyout memory_ops s 16 [1, 2, 3] m = Some m' \<and> ku_copyin memory_ops s m' 16 3 = Some [1, 2, 3]"
proof -
  obtain s m s' m' where l: "ku_create memory_ops 0x1000 0 0 (ku_zero, lab_machine) = ((s, m), 0)"
    "ku_map memory_ops 0 3 (s, m) = ((s', m'), 0)" "sp_frames s' = (replicate 512 0)[0 := 0x5000]" "sp_rights s' ! 0 = 3"
    "space_inv memory_ops s' m'"
    by (rule lab_map)
  have st: "(ku_step memory_ops)\<^sup>*\<^sup>* (s, m) (s', m')" using step_map[OF l(2)] by (rule r_into_rtranclp)
  have "range_granted s' 16 3 (KU_R OR KU_W)" using l(3,4) by (auto simp: range_granted_def mapped_def KU_SIZE_def KU_R_def KU_W_def)
  then obtain n where n: "ku_copyout memory_ops s' 16 [1, 2, 3] m' = Some n"
    using ku_check_granted[OF l(5)] by (simp add: ku_copyout_def)
  show ?thesis using user_copy_roundtrip[OF lab_pages l(1) st _ n] n by auto
qed

text \<open>C28. No frame is lost. On the physical page allocator, if the kernel's own tables are not free frames,
  then a creation that fails gives back every frame it took, and destroying a space after any
  operations on it leaves exactly the frames free that were free before its creation.\<close>

theorem user_frames_conserved:
  assumes "pages_ok m0" "pmm_ok (ma_ctx m0)" "used_frame (ma_ctx m0) 0"
    "set (sp_borrowed (fst (borrow_spine memory_ops root m0 (ku_blank arch nx)))) \<inter> pmm_free (ma_ctx m0) = {}"
    "ku_create memory_ops root arch nx (s0, m0) = ((s, m), c)"
  shows "(c \<noteq> 0 \<longrightarrow> pmm_free (ma_ctx m) = pmm_free (ma_ctx m0)) \<and>
    (\<forall>s1 m1 s2 m2 d. c = 0 \<longrightarrow> (ku_step memory_ops)\<^sup>*\<^sup>* (s, m) (s1, m1) \<longrightarrow> sp_pins s1 = 0 \<longrightarrow>
       ku_destroy memory_ops (s1, m1) = ((s2, m2), d) \<longrightarrow> d = 0 \<and> s2 = ku_zero \<and> pmm_free (ma_ctx m2) = pmm_free (ma_ctx m0))"
proof (rule conjI; intro allI impI)
  have o: "pmm_pool (ma_ctx m0)" using assms(2,3) by (simp add: pmm_pool_def)
  note k = pages.ku_create_shares[OF o assms(5,4)]
  show "pmm_free (ma_ctx m) = pmm_free (ma_ctx m0)" if "c \<noteq> 0" using k(2) that by simp
  fix s1 m1 s2 m2 d
  assume c: "c = 0" and st: "(ku_step memory_ops)\<^sup>*\<^sup>* (s, m) (s1, m1)" and p: "sp_pins s1 = 0"
    and d: "ku_destroy memory_ops (s1, m1) = ((s2, m2), d)"
  have inv: "space_inv memory_ops s m" using ku_create_inv assms(1,5) c by blast
  then have i1: "space_inv memory_ops s1 m1" using ku_steps_inv[OF st] by simp
  have "pages.shares (pmm_free (ma_ctx m0)) s1 m1" using pages.ku_steps_shares[OF st] inv k(1)[OF c] by simp
  then show "d = 0 \<and> s2 = ku_zero \<and> pmm_free (ma_ctx m2) = pmm_free (ma_ctx m0)"
    using pages.ku_destroy_shares[OF _ d p] i1 by (simp add: space_inv_def space_shape_def)
qed

lemma user_frames_conserved_witness:
  "\<exists>s m s2 m2. ku_map memory_ops 0 3 (s, m) = ((s2, m2), 0) \<and>
     pmm_free (ma_ctx (snd (fst (ku_destroy memory_ops (s2, m2))))) = pmm_free (lab_pmm 3)"
proof -
  obtain s m s' m' where l: "ku_create memory_ops 0x1000 0 0 (ku_zero, lab_machine) = ((s, m), 0)"
    "ku_map memory_ops 0 3 (s, m) = ((s', m'), 0)" "sp_pins s' = 0"
    by (rule lab_map)
  have st: "(ku_step memory_ops)\<^sup>*\<^sup>* (s, m) (s', m')" using step_map[OF l(2)] by (rule r_into_rtranclp)
  have c: "ma_ctx lab_machine = lab_pmm 3" by (simp add: lab_machine_def)
  have "set (sp_borrowed (fst (borrow_spine memory_ops 0x1000 lab_machine (ku_blank 0 0)))) \<inter> pmm_free (ma_ctx lab_machine) = {}"
    using lab_used[of 3 1] lab_used[of 3 2] by (simp add: lab_borrow lab_root_def c pmm_free_def)
  from user_frames_conserved[OF lab_pages _ _ this l(1)] lab_pool c st l(3)
  have "\<forall>s2 m2 d. ku_destroy memory_ops (s', m') = ((s2, m2), d) \<longrightarrow> pmm_free (ma_ctx m2) = pmm_free (lab_pmm 3)"
    by (simp add: pmm_pool_def)
  then show ?thesis using l(2) by (metis prod.collapse)
qed

end
