(* ===== verification/Image_Map.thy ===== *)
theory Image_Map
  imports User_Image User_Props
begin

text \<open>
  The plan of an accepted image, \<^verbatim>\<open>ki_validate\<close> in \<^verbatim>\<open>kernel/user_image.c\<close>, and what mapping it does to the
  address space.
\<close>

section \<open>The plan\<close>

lemma align_up:
  assumes "unat n \<le> 65536"
  shows "unat ((n + 4095) AND NOT 4095 :: u32) = 4096 * pages_of n"
proof -
  have u: "unat (n + 4095) = unat n + 4095" using assms by (subst unat_add_u32) simp_all
  have "(n + 4095) AND NOT 4095 = push_bit 12 (drop_bit 12 (n + 4095))"
  proof -
    have m: "(4095 :: u32) = mask 12" by (simp add: mask_eq_exp_minus_1)
    show ?thesis unfolding m by (rule bit_word_eqI) (auto simp: bit_and_iff bit_not_iff bit_mask_iff bit_push_bit_iff bit_drop_bit_eq)
  qed
  also have "unat \<dots> = 4096 * ((unat n + 4095) div 4096)"
  proof -
    have d: "unat (drop_bit 12 (n + 4095)) = (unat n + 4095) div 4096" unfolding unat_drop_bit_eq u by (simp add: drop_bit_eq_div)
    have "unat (push_bit 12 (drop_bit 12 (n + 4095))) = 2 ^ 12 * unat (drop_bit 12 (n + 4095)) mod 2 ^ 32"
      by (simp add: push_bit_eq_mult unat_word_ariths mult.commute)
    then show ?thesis using assms by (simp add: d) 
  qed
  finally show ?thesis by (simp add: pages_of_def)
qed

text \<open>The regions of an accepted plan: text at 0, data and BSS behind it, the boot page, the stack at the end.\<close>

definition plan_ok :: "ki_plan \<Rightarrow> bool" where
  "plan_ok p \<longleftrightarrow> 0 < unat (pl_text_bytes p) \<and> unat KU_BASE \<le> unat (pl_entry p) \<and>
     unat (pl_entry p) < unat KU_BASE + unat (pl_text_bytes p) \<and>
     4096 * pages_of (pl_text_bytes p) \<le> unat (pl_data_va p) \<and> 4096 dvd unat (pl_data_va p) \<and>
     unat (pl_data_va p) + unat (pl_data_bytes p) + unat (pl_bss_bytes p) \<le> unat KI_BOOT_OFF \<and>
     4096 \<le> unat (pl_stack_bytes p) \<and> 4096 dvd unat (pl_stack_bytes p) \<and>
     unat KI_BOOT_OFF + 4096 \<le> unat KU_SIZE - unat (pl_stack_bytes p)"

lemma and_4095: "x AND 4095 = 0 \<longleftrightarrow> 4096 dvd unat (x :: u32)"
proof -
  have m: "(4095 :: u32) = mask 12" by (simp add: mask_eq_exp_minus_1)
  have "unat (x AND 4095) = unat x mod 4096"
    unfolding m take_bit_eq_mask[symmetric] unsigned_take_bit_eq by (simp add: take_bit_eq_mod)
  then show ?thesis using unat_eq_0[of "x AND 4095"] by (simp add: dvd_eq_mod_eq_0)
qed

lemma plan_good:
  assumes "\<not> plan_bad p payload memory" "unat payload \<le> KI_PAYLOAD_MAX"
  shows "plan_ok p" "unat (pl_text_bytes p) \<le> unat (pl_data_file p)" "unat (pl_data_file p) + unat (pl_data_bytes p) = unat payload"
    "pl_bss_bytes p = memory"
proof -
  have g: "pl_text_bytes p \<noteq> 0" "pl_text_bytes p \<le> payload" "KU_BASE \<le> pl_entry p" "pl_entry p - KU_BASE < pl_text_bytes p"
    "pl_data_va p AND 4095 = 0" "(pl_text_bytes p + 4095) AND NOT 4095 \<le> pl_data_va p" "pl_data_va p \<le> KI_BOOT_OFF"
    "pl_data_bytes p \<le> KI_BOOT_OFF - pl_data_va p" "pl_bss_bytes p \<le> KI_BOOT_OFF - pl_data_va p - pl_data_bytes p"
    "pl_text_bytes p \<le> pl_data_file p" "pl_data_file p \<le> payload" "pl_data_bytes p = payload - pl_data_file p"
    "4096 \<le> pl_stack_bytes p" "pl_stack_bytes p \<le> 65536" "pl_stack_bytes p AND 4095 = 0"
    using assms(1) by (auto simp: plan_bad_def not_le not_less)
  have t: "unat (pl_text_bytes p) \<le> 65536" using g(2) assms(2) by (simp add: KI_PAYLOAD_MAX_def word_le_nat_alt)
  have boot: "unat KI_BOOT_OFF = 0x1E0000" by (simp add: KI_BOOT_OFF_def KU_SIZE_def)
  have e: "unat (pl_entry p - KU_BASE) = unat (pl_entry p) - unat KU_BASE" using g(3) by (simp add: unat_sub_u32 word_le_nat_alt)
  have d1: "unat (KI_BOOT_OFF - pl_data_va p) = 0x1E0000 - unat (pl_data_va p)" using g(7) boot by (simp add: unat_sub_u32 word_le_nat_alt)
  have d2: "unat (KI_BOOT_OFF - pl_data_va p - pl_data_bytes p) = 0x1E0000 - unat (pl_data_va p) - unat (pl_data_bytes p)"
    using g(8) d1 by (simp add: unat_sub_u32 word_le_nat_alt)
  have st: "4096 \<le> unat (pl_stack_bytes p)" "unat (pl_stack_bytes p) \<le> 65536" using g(13,14) by (simp_all add: word_le_nat_alt)
  show "plan_ok p" unfolding plan_ok_def boot
    using g t e d1 d2 st align_up[OF t] and_4095[of "pl_data_va p"] and_4095[of "pl_stack_bytes p"] boot
    by (auto simp: word_le_nat_alt word_less_nat_alt unat_gt_0 KU_SIZE_def)
  show "unat (pl_text_bytes p) \<le> unat (pl_data_file p)" using g(10) by (simp add: word_le_nat_alt)
  show "unat (pl_data_file p) + unat (pl_data_bytes p) = unat payload"
    using g(11) by (simp add: g(12) unat_sub_u32 word_le_nat_alt)
  show "pl_bss_bytes p = memory" using assms(1) by (simp add: plan_bad_def)
qed

lemma ki_validate_some:
  assumes "ki_validate b arch64 = Some p"
  shows "plan_ok p" "p = ki_plan_at b" "KI_HEADER + unat (pl_data_file p) + unat (pl_data_bytes p) = length b"
    "unat (pl_text_bytes p) \<le> unat (pl_data_file p)" "length b \<le> KI_HEADER + KI_PAYLOAD_MAX"
    "\<And>i. unat (pl_text_bytes p) \<le> i \<Longrightarrow> i < unat (pl_data_file p) \<Longrightarrow> b ! (KI_HEADER + i) = 0"
proof -
  have b: "KI_HEADER \<le> length b" "length b \<le> KI_HEADER + KI_PAYLOAD_MAX" "p = ki_plan_at b"
    "\<not> plan_bad p (of_nat (length b - KI_HEADER)) (get32 b 28)"
    "list_all (\<lambda>i. b ! (KI_HEADER + i) = 0) [unat (pl_text_bytes p)..<unat (pl_data_file p)]"
    using assms by (auto simp: ki_validate_def Let_def not_less split: if_split_asm)
  have u: "unat (of_nat (length b - KI_HEADER) :: u32) = length b - KI_HEADER"
    using b(2) by (intro unat_of_nat_u32) (simp add: KI_HEADER_def KI_PAYLOAD_MAX_def)
  note g = plan_good[OF b(4)]
  show "plan_ok p" "unat (pl_text_bytes p) \<le> unat (pl_data_file p)" using g(1,2) b(1,2) u by (simp_all add: KI_HEADER_def)
  show "KI_HEADER + unat (pl_data_file p) + unat (pl_data_bytes p) = length b" using g(3) b(1,2) unfolding u by linarith
  show "p = ki_plan_at b" "length b \<le> KI_HEADER + KI_PAYLOAD_MAX" by (fact b)+
  show "b ! (KI_HEADER + i) = 0" if "unat (pl_text_bytes p) \<le> i" "i < unat (pl_data_file p)" for i
    using b(5) that by (simp add: list_all_iff)
qed

end
