(* ===== verification/Image_Load.thy ===== *)
theory Image_Load
  imports Image_Map
begin

text \<open>
  Loading an accepted image, \<^verbatim>\<open>ki_load\<close> in \<^verbatim>\<open>kernel/user_image.c\<close>: which pages are mapped with which rights, and
  what they hold.
\<close>

section \<open>Mapping a run of pages\<close>

lemma ku_map_pins: "ku_map ops off r (s, m) = ((s', m'), c) \<Longrightarrow> sp_pins s' = sp_pins s"
  unfolding ku_map_def prod.case Let_def by (auto split: if_split_asm prod.splits)

lemma ku_map_done:
  assumes "ku_map ops off r (s, m) = ((s', m'), 0)"
  obtains q where "q \<noteq> 0" "sp_frames s' = (sp_frames s)[unat off div 4096 := q]" "sp_rights s' = (sp_rights s)[unat off div 4096 := ucast r]"
proof -
  have d: "unat (drop_bit 12 off) = unat off div 4096" unfolding unat_drop_bit_eq by (simp add: drop_bit_eq_div)
  show ?thesis using assms that unfolding ku_map_def prod.case Let_def d by (auto split: if_split_asm prod.splits)
qed

definition page_marked :: "ku_space \<Rightarrow> ku_space \<Rightarrow> nat set \<Rightarrow> u8 \<Rightarrow> bool" where
  "page_marked s s' is r \<longleftrightarrow> (\<forall>i<512. (sp_frames s' ! i \<noteq> 0 \<longleftrightarrow> sp_frames s ! i \<noteq> 0 \<or> i \<in> is) \<and>
     sp_rights s' ! i = (if i \<in> is then r else sp_rights s ! i))"

lemma ku_map_marks:
  assumes inv: "space_inv ops s m" and r: "ku_map ops off r (s, m) = ((s', m'), 0)"
  shows "page_marked s s' {unat off div 4096} (ucast r)"
proof -
  obtain q where q: "q \<noteq> 0" "sp_frames s' = (sp_frames s)[unat off div 4096 := q]" "sp_rights s' = (sp_rights s)[unat off div 4096 := ucast r]"
    by (rule ku_map_done[OF r])
  have "length (sp_frames s) = 512" "length (sp_rights s) = 512" using inv by (simp_all add: space_inv_def space_shape_def)
  then show ?thesis unfolding page_marked_def q(2,3) using q(1) by (auto simp: nth_list_update)
qed

lemma map_pages_marks:
  assumes "space_inv ops s m" "unat base = 4096 * k" "k + n \<le> 512" "map_pages ops base r n (s, m) = ((s', m'), done)"
  shows "(ku_step ops)\<^sup>*\<^sup>* (s, m) (s', m') \<and> sp_pins s' = sp_pins s \<and> (done \<longrightarrow> page_marked s s' {k..<k + n} (ucast r))"
  using assms
proof (induction n arbitrary: s m base k)
  case 0
  then show ?case by (simp add: page_marked_def)
next
  case (Suc n)
  obtain s1 m1 c where c: "ku_map ops base r (s, m) = ((s1, m1), c)" by (metis prod.exhaust)
  have inv1: "space_inv ops s1 m1" by (rule ku_map_inv[OF Suc.prems(1) c])
  have st: "ku_step ops (s, m) (s1, m1)" by (rule step_map[OF c])
  have pins: "sp_pins s1 = sp_pins s" by (rule ku_map_pins[OF c])
  show ?case
  proof (cases "c = 0")
    case False
    then show ?thesis using Suc.prems(4) c st pins by auto
  next
    case True
    have nx: "unat (base + 4096) = 4096 * (k + 1)" using Suc.prems(2,3) by (subst unat_add_u32) simp_all
    have rest: "map_pages ops (base + 4096) r n (s1, m1) = ((s', m'), done)" using Suc.prems(4) c True by simp
    have ih: "(ku_step ops)\<^sup>*\<^sup>* (s1, m1) (s', m') \<and> sp_pins s' = sp_pins s1 \<and> (done \<longrightarrow> page_marked s1 s' {k + 1..<k + 1 + n} (ucast r))"
      by (rule Suc.IH[OF inv1 nx _ rest]) (use Suc.prems(3) in simp)
    have "page_marked s s1 {k} (ucast r)" using ku_map_marks[OF Suc.prems(1), of base r s1 m1] c True Suc.prems(2) by simp
    moreover have "{k..<k + Suc n} = insert k {k + 1..<k + 1 + n}" by auto
    ultimately have "page_marked s s' {k..<k + Suc n} (ucast r)" if "done" using ih that by (auto simp: page_marked_def)
    then show ?thesis using ih pins converse_rtranclp_into_rtranclp[of "ku_step ops", OF st] by auto
  qed
qed

section \<open>The rights of a loaded image\<close>

definition image_rights :: "ki_plan \<Rightarrow> nat \<Rightarrow> u8" where
  "image_rights p i =
     (let d = unat (pl_data_va p) div 4096 in
      if i < pages_of (pl_text_bytes p) then 5
      else if d \<le> i \<and> i < d + pages_of (pl_data_bytes p + pl_bss_bytes p) then 3
      else if 512 - unat (pl_stack_bytes p) div 4096 \<le> i \<and> i < 512 then 3
      else if i = 480 then 1 else 0)"

lemma ku_create_blank:
  assumes "ku_create ops root arch nx (s0, m0) = ((s, m), 0)"
  shows "sp_frames s = replicate 512 0" "sp_rights s = replicate 512 0" "sp_pins s = 0"
proof -
  obtain s1 k1 where s1: "borrow_spine ops root m0 (ku_blank arch nx) = (s1, k1)" by fastforce
  obtain s2 m2 k2 where s2: "add_tables (if sp_arch64 s1 then 4 else 2) ops (s1, m0) = ((s2, m2), k2)" by (metis prod.exhaust)
  have f: "same_kind (ku_blank arch nx) s2"
    using borrow_spine_fields[OF s1] add_tables_fields[OF s2] same_kind_trans by blast
  have "s = s2\<lparr>sp_root := sp_tables s2 ! 0\<rparr>"
  proof -
    have "k1 \<and> k2 \<and> s = s2\<lparr>sp_root := sp_tables s2 ! 0\<rparr>"
      using ku_create_result[OF assms s1 s2] by auto
    then show ?thesis by simp
  qed
  then show "sp_frames s = replicate 512 0" "sp_rights s = replicate 512 0" "sp_pins s = 0"
    using f by (simp_all add: same_kind_def ku_blank_def ku_zero_def KU_PAGES_def)
qed

lemma ki_map_marks:
  assumes inv: "space_inv ops s m" and p: "plan_ok p" and r: "ki_map ops p (s, m) = ((s', m'), done)"
  shows "(ku_step ops)\<^sup>*\<^sup>* (s, m) (s', m') \<and> sp_pins s' = sp_pins s \<and>
    (done \<longrightarrow> sp_frames s = replicate 512 0 \<longrightarrow> sp_rights s = replicate 512 0 \<longrightarrow>
      (\<forall>i<512. (sp_frames s' ! i \<noteq> 0 \<longleftrightarrow> image_rights p i \<noteq> 0) \<and> sp_rights s' ! i = image_rights p i))"
proof -
  have boot: "unat KI_BOOT_OFF = 0x1E0000" by (simp add: KI_BOOT_OFF_def KU_SIZE_def)
  have sz: "unat KU_SIZE = 0x200000" by (simp add: KU_SIZE_def)
  define t where "t = pages_of (pl_text_bytes p)"
  define d where "d = unat (pl_data_va p) div 4096"
  define nd where "nd = pages_of (pl_data_bytes p + pl_bss_bytes p)"
  define k where "k = unat (pl_stack_bytes p) div 4096"
  have dv: "unat (pl_data_va p) = 4096 * d" and kv: "unat (pl_stack_bytes p) = 4096 * k"
    using p by (auto simp: plan_ok_def d_def k_def)
  have db: "unat (pl_data_bytes p + pl_bss_bytes p) = unat (pl_data_bytes p) + unat (pl_bss_bytes p)"
    using p boot by (intro unat_add_u32) (simp add: plan_ok_def)
  have lim: "t \<le> d" "d + nd \<le> 480" "k + 481 \<le> 512" "1 \<le> k"
  proof -
    show "t \<le> d" using p dv by (simp add: plan_ok_def t_def)
    have "4096 * d + unat (pl_data_bytes p + pl_bss_bytes p) \<le> 4096 * 480" using p boot db dv by (simp add: plan_ok_def)
    then show "d + nd \<le> 480" unfolding nd_def pages_of_def by linarith
    have "1970176 \<le> 2097152 - 4096 * k" "4096 \<le> 4096 * k" using p boot sz kv by (simp_all add: plan_ok_def)
    then show "k + 481 \<le> 512" "1 \<le> k" by arith+
  qed
  have sb: "unat (KU_SIZE - pl_stack_bytes p) = 4096 * (512 - k)" using lim kv by (subst unat_sub_u32) (simp_all add: sz word_le_nat_alt)
  have ks: "pages_of (pl_stack_bytes p) = k" using kv by (simp add: pages_of_def)
  have rr: "ucast (KU_R OR KU_X :: u32) = (5 :: u8)" "ucast (KU_R OR KU_W :: u32) = (3 :: u8)" "ucast (KU_R :: u32) = (1 :: u8)"
    by (simp_all add: KU_R_def KU_W_def KU_X_def)
  obtain s1 m1 c1 where m1: "map_pages ops 0 (KU_R OR KU_X) t (s, m) = ((s1, m1), c1)" by (metis prod.exhaust)
  have e1: "(ku_step ops)\<^sup>*\<^sup>* (s, m) (s1, m1) \<and> sp_pins s1 = sp_pins s \<and> (c1 \<longrightarrow> page_marked s s1 {0..<t} 5)"
    using map_pages_marks[OF inv _ _ m1, of 0] lim by (simp add: rr)
  show ?thesis
  proof (cases c1)
    case False
    then show ?thesis using r m1 e1 by (simp add: ki_map_def t_def)
  next
    case True
    have inv1: "space_inv ops s1 m1" using ku_steps_inv[of ops "(s, m)" "(s1, m1)"] e1 inv by simp
    obtain s2 m2 c2 where m2: "map_pages ops (pl_data_va p) (KU_R OR KU_W) nd (s1, m1) = ((s2, m2), c2)" by (metis prod.exhaust)
    have e2: "(ku_step ops)\<^sup>*\<^sup>* (s1, m1) (s2, m2) \<and> sp_pins s2 = sp_pins s1 \<and> (c2 \<longrightarrow> page_marked s1 s2 {d..<d + nd} 3)"
      using map_pages_marks[OF inv1 dv _ m2] lim by (simp add: rr)
    show ?thesis
    proof (cases c2)
      case False
      then show ?thesis using r m1 m2 e1 e2 True by (auto simp: ki_map_def t_def nd_def)
    next
      case c2: True
      have inv2: "space_inv ops s2 m2" using ku_steps_inv[of ops "(s1, m1)" "(s2, m2)"] e2 inv1 by simp
      obtain s3 m3 c3 where m3: "map_pages ops (KU_SIZE - pl_stack_bytes p) (KU_R OR KU_W) k (s2, m2) = ((s3, m3), c3)" by (metis prod.exhaust)
      have e3: "(ku_step ops)\<^sup>*\<^sup>* (s2, m2) (s3, m3) \<and> sp_pins s3 = sp_pins s2 \<and> (c3 \<longrightarrow> page_marked s2 s3 {512 - k..<512} 3)"
        using map_pages_marks[OF inv2 sb _ m3] lim by (simp add: rr)
      have st3: "(ku_step ops)\<^sup>*\<^sup>* (s, m) (s3, m3)" using e1 e2 e3 by (meson rtranclp_trans)
      show ?thesis
      proof (cases c3)
        case False
        then show ?thesis using r m1 m2 m3 e1 e2 e3 st3 True c2 by (simp add: ki_map_def t_def nd_def ks)
      next
        case c3: True
        have inv3: "space_inv ops s3 m3" using ku_steps_inv[of ops "(s2, m2)" "(s3, m3)"] e3 inv2 by simp
        obtain c where m4: "ku_map ops KI_BOOT_OFF KU_R (s3, m3) = ((s', m'), c)" and dn: "done = (c = 0)"
          using r m1 m2 m3 True c2 c3 by (auto simp: ki_map_def t_def nd_def ks split: prod.splits)
        have st: "(ku_step ops)\<^sup>*\<^sup>* (s, m) (s', m')" using st3 step_map[OF m4] by (rule rtranclp.rtrancl_into_rtrancl)
        have pins: "sp_pins s' = sp_pins s" using ku_map_pins[OF m4] e1 e2 e3 by simp
        have "page_marked s3 s' {480} 1" if "c = 0" using ku_map_marks[OF inv3, of KI_BOOT_OFF KU_R s' m'] m4 that boot by (simp add: rr)
        then have "(sp_frames s' ! i \<noteq> 0 \<longleftrightarrow> image_rights p i \<noteq> 0) \<and> sp_rights s' ! i = image_rights p i"
          if "c = 0" "sp_frames s = replicate 512 0" "sp_rights s = replicate 512 0" "i < 512" for i
          using that e1 e2 e3 True c2 c3 lim unfolding image_rights_def Let_def page_marked_def t_def[symmetric] d_def[symmetric] nd_def[symmetric] k_def[symmetric]
          by (auto split: if_splits)
        then show ?thesis using st pins dn by simp
      qed
    qed
  qed
qed

end
