(* ===== verification/Image_Props.thy ===== *)
theory Image_Props
  imports Image_Load
begin

text \<open>
  The properties of the image loader of \<^verbatim>\<open>kernel/user_image.c\<close>.
\<close>

section \<open>Filling the pages\<close>

lemma ku_load_bytes:
  assumes inv: "space_inv ops s m" and bs: "length bs < 2 ^ 32" "ku_load ops s off bs m = Some m'"
  shows "space_inv ops s m'" "ma_ctx m' = ma_ctx m" "range_granted s off (of_nat (length bs)) KU_R"
    "\<And>z. mapped s z \<Longrightarrow>
      user_byte s m' z = (if unat off \<le> z \<and> z < unat off + length bs then bs ! (z - unat off) else user_byte s m z)"
proof -
  have len: "unat (of_nat (length bs) :: u32) = length bs" using bs(1) by (intro unat_of_nat_u32) simp
  show g: "range_granted s off (of_nat (length bs)) KU_R" using bs(2) ku_check_granted[OF inv] by (auto simp: ku_load_def split: if_splits)
  have m': "m' = copy_out_pages s (unat off) bs m" using bs(2) by (auto simp: ku_load_def split: if_splits)
  have all: "\<forall>j<length bs. mapped s (unat off + j)" using g by (simp add: range_granted_def len)
  then show "space_inv ops s m'" unfolding m' by (intro copy_out_pages_inv[OF inv]) (simp add: mapped_def)
  show "ma_ctx m' = ma_ctx m" by (simp add: m' ctx_simps)
  show "user_byte s m' z = (if unat off \<le> z \<and> z < unat off + length bs then bs ! (z - unat off) else user_byte s m z)" if "mapped s z" for z
    unfolding m' by (rule copy_out_bytes[OF inv all that])
qed

lemma copyin_view:
  assumes inv: "space_inv ops s m" and g: "range_granted s off (of_nat (length bs)) KU_R" and l: "length bs < 2 ^ 32"
    and b: "\<And>i. i < length bs \<Longrightarrow> user_byte s m (unat off + i) = bs ! i"
  shows "ku_copyin ops s m off (of_nat (length bs)) = Some bs"
proof -
  have len: "unat (of_nat (length bs) :: u32) = length bs" using l by (intro unat_of_nat_u32) simp
  have "ku_copyin ops s m off (of_nat (length bs)) = Some (map (user_byte s m) [unat off..<unat off + length bs])"
    using ku_check_granted[OF inv] g by (simp add: ku_copyin_def copy_in_bytes[OF inv] len)
  also have "map (user_byte s m) [unat off..<unat off + length bs] = bs" by (rule nth_equalityI) (simp_all add: b)
  finally show ?thesis .
qed

definition image_text :: "ki_plan \<Rightarrow> u8 list \<Rightarrow> u8 list" where
  "image_text p b = take (unat (pl_text_bytes p)) (drop KI_HEADER b)"

definition image_data :: "ki_plan \<Rightarrow> u8 list \<Rightarrow> u8 list" where
  "image_data p b = take (unat (pl_data_bytes p)) (drop (KI_HEADER + unat (pl_data_file p)) b)"

lemma pages_of_ge: "unat n \<le> 4096 * pages_of n"
  unfolding pages_of_def by linarith

lemma ki_fill_bytes:
  assumes inv: "space_inv ops s m" and v: "ki_validate b arch64 = Some p" and r: "ki_fill ops b p s m = (m', True)"
  shows "space_inv ops s m' \<and> ku_copyin ops s m' 0 (pl_text_bytes p) = Some (image_text p b) \<and>
    ku_copyin ops s m' (pl_data_va p) (pl_data_bytes p) = Some (image_data p b)"
proof -
  note k = ki_validate_some[OF v]
  have lim: "length b \<le> 65632" using k(5) by (simp add: KI_HEADER_def KI_PAYLOAD_MAX_def)
  have lt: "length (image_text p b) = unat (pl_text_bytes p)" using k(3,4) by (simp add: image_text_def)
  have ld: "length (image_data p b) = unat (pl_data_bytes p)" using k(3) by (simp add: image_data_def)
  have big: "length (image_text p b) < 2 ^ 32" "length (image_data p b) < 2 ^ 32"
    unfolding lt ld by (simp_all add: unat_lt_u32[simplified])
  have on: "of_nat (length (image_text p b)) = pl_text_bytes p" "of_nat (length (image_data p b)) = pl_data_bytes p"
    unfolding lt ld by simp_all
  obtain m1 where m1: "ku_load ops s 0 (image_text p b) m = Some m1" "ku_load ops s (pl_data_va p) (image_data p b) m1 = Some m'"
    using r by (auto simp: ki_fill_def image_text_def image_data_def split: option.splits)
  note t = ku_load_bytes[OF inv big(1) m1(1), unfolded on]
  note d = ku_load_bytes[OF t(1) big(2) m1(2), unfolded on]
  have mt: "mapped s i" if "i < unat (pl_text_bytes p)" for i using t(3) that by (simp add: range_granted_def)
  have md: "mapped s (unat (pl_data_va p) + i)" if "i < unat (pl_data_bytes p)" for i using d(3) that by (simp add: range_granted_def)
  have apart: "unat (pl_text_bytes p) \<le> unat (pl_data_va p)"
    using k(1) pages_of_ge[of "pl_text_bytes p"] by (simp add: plan_ok_def)
  have "ku_copyin ops s m' 0 (of_nat (length (image_text p b))) = Some (image_text p b)"
    by (rule copyin_view[OF d(1) _ big(1)]) (use t(3) t(4)[OF mt] d(4)[OF mt] apart in \<open>simp_all add: on lt\<close>)
  moreover have "ku_copyin ops s m' (pl_data_va p) (of_nat (length (image_data p b))) = Some (image_data p b)"
    by (rule copyin_view[OF d(1) _ big(2)]) (use d(3) d(4)[OF md] in \<open>simp_all add: on ld\<close>)
  ultimately show ?thesis using d(1) by (simp add: on)
qed

section \<open>An example\<close>

definition lab_image :: "u8 list" where
  "lab_image = [0x4B, 0x41, 0x50, 0x50, 2, 0, 96, 0] @ concat (map bytes32 [4, 1, 0xE00000, 0xE00000, 16, 0]) @ replicate 32 0 @
     concat (map bytes32 [1, 4096, 16, 0, 0, 4096, 1, 0]) @ [0xC3] @ replicate 15 0"

definition lab_plan :: ki_plan where
  "lab_plan = \<lparr>pl_entry = 0xE00000, pl_text_bytes = 1, pl_data_va = 4096, pl_data_file = 16, pl_data_bytes = 0,
     pl_bss_bytes = 0, pl_stack_bytes = 4096, pl_title = replicate 32 0\<rparr>"

lemma lab_parts: "length lab_image = 112" "ki_plan_at lab_image = lab_plan" "\<not> header_bad lab_image 16 0"
  "\<not> plan_bad lab_plan 16 (get32 lab_image 28)" "list_all (\<lambda>i. lab_image ! (96 + i) = 0) [1..<16]"
  by code_simp+

lemma lab_validate: "ki_validate lab_image 0 = Some lab_plan"
  using lab_parts by (simp add: ki_validate_def KI_HEADER_def KI_PAYLOAD_MAX_def Let_def) (simp add: lab_plan_def)

lemma lab_ku_map:
  assumes s: "ma_ctx m = lab_pmm k" "4 < k" "k < 32" "sp_tables s = [0x3000, 0x4000]" "sp_borrowed s = [0x1000, 0x2000]"
      "\<forall>f\<in>set (sp_frames s). unat f < 4096 * k" "sp_live s" "sp_pins s = 0"
    and i: "unat off = 4096 * i" "i < 512" "sp_frames s ! i = 0" and r: "r = 1 \<or> r = 3 \<or> r = 5"
  shows "\<exists>s' m'. ku_map memory_ops off r (s, m) = ((s', m'), 0) \<and> ma_ctx m' = lab_pmm (Suc k) \<and>
    sp_tables s' = [0x3000, 0x4000] \<and> sp_borrowed s' = [0x1000, 0x2000] \<and> sp_frames s' = (sp_frames s)[i := of_nat (4096 * k)] \<and>
    sp_live s' \<and> sp_pins s' = 0"
proof -
  have u: "unat (of_nat (4096 * k) :: u32) = 4096 * k" using s(3) by (intro unat_of_nat_u32) simp
  let ?q = "of_nat (4096 * k) :: u32"
  have v: "valid_frame ?q" using s(2,3) u and_4095[of ?q]
    by (auto simp: valid_frame_def KU_DIRECT_LIMIT_def word_less_nat_alt word_unat_eq_iff)
  have nq: "?q \<notin> set (sp_borrowed s) \<union> set (sp_tables s) \<union> set (sp_frames s)"
    using s(2,4-6) u by (auto simp: word_unat_eq_iff)
  have n: "new_frame memory_ops s m = (set_page ?q zero_page (m\<lparr>ma_ctx := lab_pmm (Suc k)\<rparr>), ?q)"
    using lab_alloc[of k] s(1-3) v nq by (simp add: new_frame_def memory_ops_def direct_def Let_def mult.commute)
  have d: "unat (drop_bit 12 off) = i" unfolding unat_drop_bit_eq using i(1) by (simp add: drop_bit_eq_div)
  have a: "off AND 4095 = 0" "\<not> off \<ge> KU_SIZE" using i(1,2) and_4095[of off] by (simp_all add: KU_SIZE_def word_le_nat_alt)
  have q0: "?q \<noteq> 0" using v by (simp add: valid_frame_def)
  have rr: "r AND KU_R \<noteq> 0" "r AND NOT 7 = 0" "r AND (KU_W OR KU_X) \<noteq> KU_W OR KU_X" using r by (auto simp: KU_R_def KU_W_def KU_X_def)
  show ?thesis unfolding ku_map_def prod.case d Let_def n using s i(3) a q0 rr by (simp add: ctx_simps)
qed

lemma lab_load: "\<exists>s m. ki_load memory_ops 0x1000 lab_image 0 0 (ku_zero, lab_machine) = ((s, m), Some lab_plan)"
proof -
  obtain s m where c: "ku_create memory_ops 0x1000 0 0 (ku_zero, lab_machine) = ((s, m), 0)" "sp_frames s = replicate 512 0"
    "sp_borrowed s = [0x1000, 0x2000]" "sp_tables s = [0x3000, 0x4000]" "ma_ctx m = lab_pmm 5" "sp_pins s = 0" "sp_live s"
    by (rule lab_create)
  have inv: "space_inv memory_ops s m" by (rule ku_create_inv[OF c(1) lab_pages])
  obtain s1 m1 where m1: "ku_map memory_ops 0 5 (s, m) = ((s1, m1), 0)" "ma_ctx m1 = lab_pmm 6" "sp_tables s1 = [0x3000, 0x4000]"
    "sp_borrowed s1 = [0x1000, 0x2000]" "sp_frames s1 = (replicate 512 0)[0 := 0x5000]" "sp_live s1" "sp_pins s1 = 0"
    using lab_ku_map[of m 5 s 0 0 5] c by auto
  have f1: "\<forall>f\<in>set (sp_frames s1). unat f < 4096 * 6" unfolding m1(5) using set_update_subset_insert[of "replicate 512 0" 0 "0x5000 :: u32"] by auto
  obtain s2 m2 where m2: "ku_map memory_ops 0x1FF000 3 (s1, m1) = ((s2, m2), 0)" "ma_ctx m2 = lab_pmm 7" "sp_tables s2 = [0x3000, 0x4000]"
    "sp_borrowed s2 = [0x1000, 0x2000]" "sp_frames s2 = (sp_frames s1)[511 := 0x6000]" "sp_live s2" "sp_pins s2 = 0"
    using lab_ku_map[OF m1(2) _ _ m1(3,4) f1 m1(6,7), of "0x1FF000" 511 3] by (auto simp: m1(5))
  have f2: "\<forall>f\<in>set (sp_frames s2). unat f < 4096 * 7"
    unfolding m2(5) using f1 set_update_subset_insert[of "sp_frames s1" 511 "0x6000 :: u32"] by fastforce
  obtain s3 m3 where m3: "ku_map memory_ops 0x1E0000 1 (s2, m2) = ((s3, m3), 0)" "sp_pins s3 = 0"
    using lab_ku_map[OF m2(2) _ _ m2(3,4) f2 m2(6,7), of "0x1E0000" 480 1] by (auto simp: m2(5) m1(5))
  have rr: "KU_R OR KU_X = (5 :: u32)" "KU_R OR KU_W = (3 :: u32)" "KU_R = (1 :: u32)" by (simp_all add: KU_R_def KU_W_def KU_X_def)
  have sz: "KU_SIZE - 4096 = 0x1FF000" "KI_BOOT_OFF = 0x1E0000" by (simp_all add: KU_SIZE_def KI_BOOT_OFF_def)
  have km: "ki_map memory_ops lab_plan (s, m) = ((s3, m3), True)"
  proof -
    have pv: "pages_of (pl_text_bytes lab_plan) = Suc 0" "pages_of (pl_data_bytes lab_plan + pl_bss_bytes lab_plan) = 0"
      "pages_of 4096 = Suc 0" "pl_stack_bytes lab_plan = 4096"
      by (simp_all add: lab_plan_def pages_of_def)
    show ?thesis unfolding ki_map_def pv rr(1,2) sz using m1(1) m2(1) m3(1) by (simp add: rr(3))
  qed
  have po: "plan_ok lab_plan" by (rule ki_validate_some(1)[OF lab_validate])
  note g = ki_map_marks[OF inv po km]
  have rights: "sp_frames s3 ! 0 \<noteq> 0" "sp_rights s3 ! 0 = 5"
    using g c(2) ku_create_blank(2)[OF c(1)] by (simp_all add: image_rights_def lab_plan_def pages_of_def)
  have inv3: "space_inv memory_ops s3 m3" using ku_steps_inv[of memory_ops "(s, m)" "(s3, m3)"] g inv by simp
  have "range_granted s3 0 1 KU_R" using rights by (simp add: range_granted_def mapped_def KU_R_def KU_SIZE_def)
  moreover have "range_granted s3 4096 0 KU_R" by (auto simp: range_granted_def KU_R_def KU_SIZE_def)
  ultimately have g0: "range_granted s3 0 1 KU_R" "range_granted s3 4096 0 KU_R" by blast+
  have l1: "ku_load memory_ops s3 0 [0xC3] m3 = Some (copy_out_pages s3 0 [0xC3] m3)"
    using ku_check_granted[OF inv3] g0(1) m3(2) by (simp add: ku_load_def)
  have inv4: "space_inv memory_ops s3 (copy_out_pages s3 0 [0xC3] m3)" by (rule ku_load_bytes(1)[OF inv3 _ l1]) simp
  have l2: "ku_load memory_ops s3 4096 [] (copy_out_pages s3 0 [0xC3] m3) = Some (copy_out_pages s3 4096 [] (copy_out_pages s3 0 [0xC3] m3))"
    using ku_check_granted[OF inv4] g0(2) m3(2) by (simp add: ku_load_def)
  have "take (unat (pl_text_bytes lab_plan)) (drop KI_HEADER lab_image) = [0xC3]" by code_simp
  then obtain m4 where "ki_fill memory_ops lab_image lab_plan s3 m3 = (m4, True)"
    using l1 l2 by (simp add: ki_fill_def lab_plan_def)
  then show ?thesis using c(1) km by (simp add: ki_load_def lab_validate)
qed

section \<open>Properties\<close>

text \<open>C33. An image is accepted only if its regions fit: the entry lies in the text, the text ends below the
  data, data and BSS end below the boot page, the boot page ends below the stack, text and data are
  parts of the file that do not overlap, and the gap between them is zero.\<close>

theorem image_plan_fits:
  assumes "ki_validate b arch64 = Some p"
  shows "plan_ok p \<and> unat (pl_text_bytes p) \<le> unat (pl_data_file p) \<and>
    KI_HEADER + unat (pl_data_file p) + unat (pl_data_bytes p) = length b \<and>
    list_all (\<lambda>x. x = 0) (take (unat (pl_data_file p) - unat (pl_text_bytes p)) (drop (KI_HEADER + unat (pl_text_bytes p)) b))"
proof -
  note k = ki_validate_some[OF assms]
  have "(drop (KI_HEADER + unat (pl_text_bytes p)) b) ! i = 0" if "i < unat (pl_data_file p) - unat (pl_text_bytes p)" for i
    using k(6)[of "unat (pl_text_bytes p) + i"] that k(3) by (simp add: add.assoc)
  then have "list_all (\<lambda>x. x = 0) (take (unat (pl_data_file p) - unat (pl_text_bytes p)) (drop (KI_HEADER + unat (pl_text_bytes p)) b))"
    by (auto simp: list_all_length)
  then show ?thesis using k by blast
qed

lemma image_plan_fits_witness: "plan_ok lab_plan \<and> KI_HEADER + 16 = length lab_image"
  using image_plan_fits[OF lab_validate] by (simp add: lab_plan_def)

text \<open>C34. Loading an image is all or nothing. On success every page of the arena has exactly the rights of the plan
  (text read and execute, data, BSS and stack read and write, the boot page read only, nothing else mapped)
  and the text and data read back as the bytes of the file; on failure every page frame is given back.\<close>

theorem image_load_all_or_nothing:
  assumes "pages_ok m0" "pmm_ok (ma_ctx m0)" "used_frame (ma_ctx m0) 0"
    "set (sp_borrowed (fst (borrow_spine memory_ops root m0 (ku_blank arch nx)))) \<inter> pmm_free (ma_ctx m0) = {}"
    "ki_load memory_ops root b arch nx (s0, m0) = ((s, m), r)"
  shows "case r of
      None \<Rightarrow> pmm_free (ma_ctx m) = pmm_free (ma_ctx m0)
    | Some p \<Rightarrow> (\<forall>i\<in>{..<512}. sp_rights s ! i = image_rights p i \<and> (sp_frames s ! i \<noteq> 0 \<longleftrightarrow> image_rights p i \<noteq> 0)) \<and>
        ku_copyin memory_ops s m 0 (pl_text_bytes p) = Some (image_text p b) \<and>
        ku_copyin memory_ops s m (pl_data_va p) (pl_data_bytes p) = Some (image_data p b)"
proof (cases "ki_validate b arch")
  case None
  then show ?thesis using assms(5) by (simp add: ki_load_def)
next
  case (Some p)
  have pool: "pmm_pool (ma_ctx m0)" using assms(2,3) by (simp add: pmm_pool_def)
  obtain s1 m1 c where c: "ku_create memory_ops root arch nx (s0, m0) = ((s1, m1), c)" by (metis prod.exhaust)
  note sh = pages.ku_create_shares[OF pool c assms(4)]
  show ?thesis
  proof (cases "c = 0")
    case False
    then show ?thesis using assms(5) sh(2) by (simp add: ki_load_def Some c)
  next
    case c0: True
    have inv1: "space_inv memory_ops s1 m1" using ku_create_inv assms(1) c c0 by blast
    obtain s2 m2 d where d: "ki_map memory_ops p (s1, m1) = ((s2, m2), d)" by (metis prod.exhaust)
    note g = ki_map_marks[OF inv1 ki_validate_some(1)[OF Some] d]
    note z = ku_create_blank[OF c[unfolded c0]]
    have inv2: "space_inv memory_ops s2 m2" using ku_steps_inv[of memory_ops "(s1, m1)" "(s2, m2)"] g inv1 by simp
    have s2: "pages.shares (pmm_free (ma_ctx m0)) s2 m2" "sp_pins s2 = 0" "sp_live s2"
      using pages.ku_steps_shares[of "(s1, m1)" "(s2, m2)" "pmm_free (ma_ctx m0)"] g inv1 sh(1)[OF c0] z(3) inv2
      by (simp_all add: space_inv_def space_shape_def)
    have gone: "pmm_free (ma_ctx (snd (fst (ku_destroy memory_ops (s2, m3))))) = pmm_free (ma_ctx m0)" if "ma_ctx m3 = ma_ctx m2" for m3
    proof -
      have "pages.shares (pmm_free (ma_ctx m0)) s2 m3" using s2(1) that by (simp add: pages.shares_def)
      then show ?thesis using pages.ku_destroy_shares(3)[OF _ _ s2(2,3)] by (metis prod.collapse)
    qed
    show ?thesis
    proof (cases d)
      case False
      then show ?thesis using assms(5) gone[of m2] by (auto simp: ki_load_def Some c c0 d prod_eq_iff)
    next
      case True
      obtain m3 e where e: "ki_fill memory_ops b p s2 m2 = (m3, e)" by fastforce
      show ?thesis
      proof (cases e)
        case False
        have "ma_ctx m3 = ma_ctx m2" using e by (auto simp: ki_fill_def ku_load_def ctx_simps split: option.splits if_splits)
        then show ?thesis using assms(5) gone[of m3] False True by (auto simp: ki_load_def Some c c0 d e prod_eq_iff)
      next
        case e1: True
        have "(s, m) = (s2, m3) \<and> r = Some p" using assms(5) True e1 by (simp add: ki_load_def Some c c0 d e)
        then show ?thesis using g z(1,2) True ki_fill_bytes[OF inv2 Some e[unfolded e1[THEN eqTrueI]]] by auto
      qed
    qed
  qed
qed

lemma image_load_all_or_nothing_witness:
  "\<exists>s (m :: pmm machine). sp_rights s ! 0 = 5 \<and> sp_rights s ! 1 = 0 \<and> sp_rights s ! 480 = 1 \<and> sp_rights s ! 511 = 3 \<and>
     ku_copyin memory_ops s m 0 1 = Some [0xC3]"
proof -
  obtain s m where l: "ki_load memory_ops 0x1000 lab_image 0 0 (ku_zero, lab_machine) = ((s, m), Some lab_plan)" using lab_load by blast
  have c: "ma_ctx lab_machine = lab_pmm 3" by (simp add: lab_machine_def)
  have "set (sp_borrowed (fst (borrow_spine memory_ops 0x1000 lab_machine (ku_blank 0 0)))) \<inter> pmm_free (ma_ctx lab_machine) = {}"
    using lab_used[of 3 1] lab_used[of 3 2] by (simp add: lab_borrow lab_root_def c pmm_free_def)
  from image_load_all_or_nothing[OF lab_pages _ _ this l] lab_pool c
  have "(\<forall>i\<in>{..<512}. sp_rights s ! i = image_rights lab_plan i) \<and> ku_copyin memory_ops s m 0 1 = Some (image_text lab_plan lab_image)"
    by (simp add: pmm_pool_def lab_plan_def)
  moreover have "image_text lab_plan lab_image = [0xC3]" by code_simp
  ultimately show ?thesis by (auto simp: image_rights_def lab_plan_def pages_of_def intro!: exI[of _ s] exI[of _ m])
qed

end
