(* ===== verification/User_Service.thy ===== *)
theory User_Service
  imports User_Space
begin

text \<open>
  The service calls of sandboxed programs, \<^verbatim>\<open>kernel/user_service.c\<close>: event delivery, clipped drawing and
  private files in memory. Requests and data are read from and written to user memory by offsets.
  The drawing callbacks are modelled by the log of the calls made to them; the scratch buffers
  of the structure hold nothing across calls and are left out. A \<^verbatim>\<open>int32_t\<close> result is an \<open>int\<close>.
\<close>

definition KS_INVALID :: int where "KS_INVALID = -1"
definition KS_FAULT :: int where "KS_FAULT = -2"
definition KS_UNKNOWN :: int where "KS_UNKNOWN = -3"
definition KS_DENIED :: int where "KS_DENIED = -4"
definition KS_QUOTA :: int where "KS_QUOTA = -5"
definition KS_STALE :: int where "KS_STALE = -6"
definition KS_BUSY :: int where "KS_BUSY = -7"
definition KS_AGAIN :: int where "KS_AGAIN = -8"
definition KS_MISSING :: int where "KS_MISSING = -9"

definition KS_FILES :: nat where "KS_FILES = 8"
definition KS_FILE_BYTES :: nat where "KS_FILE_BYTES = 1024"
definition KS_HANDLES :: nat where "KS_HANDLES = 8"
definition KS_COMMANDS :: u32 where "KS_COMMANDS = 32"
definition KS_TEXT_BYTES :: u32 where "KS_TEXT_BYTES = 127"
definition KS_TEXT_BUDGET :: u32 where "KS_TEXT_BUDGET = 1024"
definition KS_EVENT_DRAW :: u32 where "KS_EVENT_DRAW = 1"
definition KS_OPEN_R :: u32 where "KS_OPEN_R = 1"
definition KS_OPEN_W :: u32 where "KS_OPEN_W = 2"
definition KS_OPEN_CREATE :: u32 where "KS_OPEN_CREATE = 4"
definition KS_OPEN_TRUNC :: u32 where "KS_OPEN_TRUNC = 8"

record ks_request =
  rq_version :: u32
  rq_bytes :: u32
  rq_op :: u32
  rq_flags :: u32
  rq_gen :: u32
  rq_token :: u32
  rq_a :: u32
  rq_b :: u32
  rq_c :: u32
  rq_d :: u32

record ks_event =
  ev_gen :: u32
  ev_id :: u32
  ev_type :: u32
  ev_delta :: u32
  ev_width :: u32
  ev_height :: u32
  ev_x :: u32
  ev_y :: u32
  ev_key :: u32
  ev_button :: u32

record ks_rect =
  rc_type :: u32
  rc_color :: u32
  rc_x :: int
  rc_y :: int
  rc_w :: int
  rc_h :: int

record ks_text =
  tx_x :: int
  tx_y :: int
  tx_color :: u32
  tx_bg :: u32
  tx_bytes :: "u8 list"

record ks_line =
  ln_x0 :: int
  ln_y0 :: int
  ln_x1 :: int
  ln_y1 :: int
  ln_color :: u32

datatype ks_call = Rects "ks_rect list" | Text ks_text | Line ks_line

record ks_file =
  fi_name :: "u8 list"
  fi_size :: u32
  fi_refs :: u32
  fi_used :: bool
  fi_data :: "u8 list"

record ks_handle =
  hd_cookie :: u32
  hd_file :: u32
  hd_rights :: u32

record ks_service =
  sv_sink :: bool
  sv_text_sink :: bool
  sv_line_sink :: bool
  sv_gen :: u32
  sv_next_handle :: u32
  sv_next_event :: u32
  sv_width :: u32
  sv_height :: u32
  sv_draw_left :: u32
  sv_text_left :: u32
  sv_live :: bool
  sv_pending :: bool
  sv_delivered :: bool
  sv_event :: ks_event
  sv_files :: "ks_file list"
  sv_handles :: "ks_handle list"
  sv_hz :: u32
  sv_language :: u32
  sv_status :: "u8 list"
  sv_clock :: "u32 list"
  sv_clock_valid :: bool
  sv_calls :: "ks_call list"

text \<open>\<open>sv_sink\<close> and the like say whether the callback is set; \<open>sv_calls\<close> is the log of the calls.\<close>

definition no_event :: ks_event where
  "no_event = \<lparr>ev_gen = 0, ev_id = 0, ev_type = 0, ev_delta = 0, ev_width = 0, ev_height = 0, ev_x = 0, ev_y = 0,
     ev_key = 0, ev_button = 0\<rparr>"

definition no_file :: ks_file where
  "no_file = \<lparr>fi_name = [], fi_size = 0, fi_refs = 0, fi_used = False, fi_data = replicate KS_FILE_BYTES 0\<rparr>"

definition no_handle :: ks_handle where
  "no_handle = \<lparr>hd_cookie = 0, hd_file = 0, hd_rights = 0\<rparr>"

definition ks_zero :: ks_service where
  "ks_zero = \<lparr>sv_sink = False, sv_text_sink = False, sv_line_sink = False, sv_gen = 0, sv_next_handle = 0, sv_next_event = 0,
     sv_width = 0, sv_height = 0, sv_draw_left = 0, sv_text_left = 0, sv_live = False, sv_pending = False,
     sv_delivered = False, sv_event = no_event, sv_files = replicate KS_FILES no_file,
     sv_handles = replicate KS_HANDLES no_handle, sv_hz = 0, sv_language = 0, sv_status = replicate 96 0,
     sv_clock = [0, 0, 0], sv_clock_valid = False, sv_calls = []\<rparr>"

definition ks_init :: "ks_service \<Rightarrow> ku_space \<Rightarrow> u32 \<Rightarrow> u32 \<Rightarrow> u32 \<Rightarrow> bool \<Rightarrow> ks_service \<times> int" where
  "ks_init s sp gen w h sink =
     (if \<not> sp_live sp \<or> gen = 0 \<or> w = 0 \<or> h = 0 \<or> w > 4096 \<or> h > 4096 \<or> sv_live s then (s, KS_INVALID)
      else (ks_zero\<lparr>sv_gen := gen, sv_width := w, sv_height := h, sv_sink := sink, sv_live := True\<rparr>, 0))"

definition ks_destroy :: "ks_service \<Rightarrow> ks_service" where
  "ks_destroy s = ks_zero"

definition ks_post :: "ks_service \<Rightarrow> u32 \<Rightarrow> u32 \<Rightarrow> u32 \<Rightarrow> u32 \<Rightarrow> u32 \<Rightarrow> u32 \<Rightarrow> ks_service \<times> int" where
  "ks_post s ty delta x y key button =
     (if \<not> sv_live s \<or> ty < 1 \<or> ty > 5 then (s, KS_INVALID)
      else if sv_pending s then (s, KS_BUSY)
      else if sv_next_event s = 0xFFFFFFFF then (s, KS_QUOTA)
      else (s\<lparr>sv_next_event := sv_next_event s + 1,
              sv_event := \<lparr>ev_gen = sv_gen s, ev_id = sv_next_event s + 1, ev_type = ty,
                 ev_delta = (if delta > 250 then 250 else delta), ev_width = sv_width s, ev_height = sv_height s,
                 ev_x = x, ev_y = y, ev_key = key, ev_button = button\<rparr>,
              sv_pending := True, sv_delivered := False, sv_draw_left := 64, sv_text_left := KS_TEXT_BUDGET\<rparr>, 0))"

section \<open>Files and handles\<close>

definition name_char :: "u8 \<Rightarrow> bool" where
  "name_char c \<longleftrightarrow> (0x61 \<le> c \<and> c \<le> 0x7A) \<or> (0x41 \<le> c \<and> c \<le> 0x5A) \<or> (0x30 \<le> c \<and> c \<le> 0x39) \<or> c = 0x2E \<or> c = 0x2D \<or> c = 0x5F"

text \<open>The name read from the user, without its NUL, or the error.\<close>

definition ks_filename :: "'c ku_ops \<Rightarrow> ku_space \<Rightarrow> 'c machine \<Rightarrow> u32 \<Rightarrow> u32 \<Rightarrow> int + u8 list" where
  "ks_filename ops sp m off n =
     (if n < 2 \<or> n > 32 then Inl KS_INVALID
      else (case ku_copyin ops sp m off n of
              None \<Rightarrow> Inl KS_FAULT
            | Some bs \<Rightarrow>
                let name = takeWhile (\<lambda>b. b \<noteq> 0) bs in
                if last bs \<noteq> 0 \<or> name = [0x2E] \<or> name = [0x2E, 0x2E] then Inl KS_INVALID
                else if list_all name_char (butlast bs) then Inr (butlast bs) else Inl KS_INVALID))"

definition ks_node :: "ks_service \<Rightarrow> u8 list \<Rightarrow> nat option" where
  "ks_node s name = find (\<lambda>i. fi_used (sv_files s ! i) \<and> name = fi_name (sv_files s ! i)) [0..<KS_FILES]"

definition ks_lookup :: "ks_service \<Rightarrow> u32 \<Rightarrow> u32 \<Rightarrow> int + nat" where
  "ks_lookup s cookie rights =
     (case find (\<lambda>i. cookie \<noteq> 0 \<and> hd_cookie (sv_handles s ! i) = cookie) [0..<KS_HANDLES] of
        None \<Rightarrow> Inl KS_STALE
      | Some i \<Rightarrow> if hd_rights (sv_handles s ! i) AND rights \<noteq> rights then Inl KS_DENIED else Inr i)"

definition set_file :: "nat \<Rightarrow> ks_file \<Rightarrow> ks_service \<Rightarrow> ks_service" where
  "set_file i f s = s\<lparr>sv_files := (sv_files s)[i := f]\<rparr>"

definition set_handle :: "nat \<Rightarrow> ks_handle \<Rightarrow> ks_service \<Rightarrow> ks_service" where
  "set_handle i h s = s\<lparr>sv_handles := (sv_handles s)[i := h]\<rparr>"

definition opened_file :: "ks_file \<Rightarrow> bool \<Rightarrow> u8 list \<Rightarrow> u32 \<Rightarrow> ks_file" where
  "opened_file f fresh name flags =
     (let f = (if fresh then no_file\<lparr>fi_name := name, fi_used := True\<rparr> else f);
          f = (if flags AND KS_OPEN_TRUNC \<noteq> 0 then f\<lparr>fi_data := replicate KS_FILE_BYTES 0, fi_size := 0\<rparr> else f)
      in f\<lparr>fi_refs := fi_refs f + 1\<rparr>)"

definition open_file :: "'c ku_ops \<Rightarrow> ku_space \<Rightarrow> 'c machine \<Rightarrow> ks_request \<Rightarrow> ks_service \<Rightarrow> ks_service \<times> int" where
  "open_file ops sp m r s =
     (case ks_filename ops sp m (rq_a r) (rq_b r) of
        Inl rc \<Rightarrow> (s, rc)
      | Inr name \<Rightarrow>
          let flags = rq_c r in
          if rq_d r \<noteq> 0 \<or> flags AND 3 = 0 \<or> flags AND NOT 15 \<noteq> 0 \<or> (flags AND 12 \<noteq> 0 \<and> flags AND KS_OPEN_W = 0) then (s, KS_INVALID)
          else let f = ks_node s name; fresh = (f = None) in
            if fresh \<and> flags AND KS_OPEN_CREATE = 0 then (s, KS_MISSING)
            else (case (if fresh then find (\<lambda>i. \<not> fi_used (sv_files s ! i)) [0..<KS_FILES] else f,
                        find (\<lambda>i. hd_cookie (sv_handles s ! i) = 0) [0..<KS_HANDLES]) of
                    (Some f, Some h) \<Rightarrow>
                      if sv_next_handle s = 0x7FFFFFFF then (s, KS_QUOTA)
                      else let cookie = sv_next_handle s + 1 in
                        ((set_handle h \<lparr>hd_cookie = cookie, hd_file = of_nat f, hd_rights = flags AND 3\<rparr>
                            (set_file f (opened_file (sv_files s ! f) fresh name flags) s))\<lparr>sv_next_handle := cookie\<rparr>, sint cookie)
                  | _ \<Rightarrow> (s, KS_QUOTA)))"

definition KS_READ :: u32 where "KS_READ = 5"

definition file_io :: "'c ku_ops \<Rightarrow> ku_space \<Rightarrow> ks_request \<Rightarrow> ks_service \<times> 'c machine \<Rightarrow> (ks_service \<times> 'c machine) \<times> int" where
  "file_io ops sp r sm =
     (case sm of (s, m) \<Rightarrow>
        case ks_lookup s (rq_a r) (if rq_op r = KS_READ then KS_OPEN_R else KS_OPEN_W) of
          Inl e \<Rightarrow> (sm, e)
        | Inr h \<Rightarrow>
            let i = unat (hd_file (sv_handles s ! h)); f = sv_files s ! i; n = rq_c r; d = rq_d r in
            if d > of_nat KS_FILE_BYTES \<or> n > of_nat KS_FILE_BYTES - d then (sm, KS_QUOTA)
            else if rq_op r = KS_READ then
              let n = (if d \<ge> fi_size f then 0 else if n > fi_size f - d then fi_size f - d else n) in
              (case ku_copyout ops sp (rq_b r) (take (unat n) (drop (unat d) (fi_data f))) m of
                 None \<Rightarrow> (sm, KS_FAULT) | Some m \<Rightarrow> ((s, m), sint n))
            else
              (case ku_copyin ops sp m (rq_b r) n of
                 None \<Rightarrow> (sm, KS_FAULT)
               | Some bs \<Rightarrow>
                   if n = 0 then (sm, sint n)
                   else ((set_file i (f\<lparr>fi_data := page_splice (unat d) bs (fi_data f),
                                        fi_size := (if d + n > fi_size f then d + n else fi_size f)\<rparr>) s, m), sint n)))"

definition close_file :: "ks_request \<Rightarrow> ks_service \<Rightarrow> ks_service \<times> int" where
  "close_file r s =
     (if rq_b r \<noteq> 0 \<or> rq_c r \<noteq> 0 \<or> rq_d r \<noteq> 0 then (s, KS_INVALID)
      else (case ks_lookup s (rq_a r) 0 of
              Inl e \<Rightarrow> (s, e)
            | Inr h \<Rightarrow>
                let i = unat (hd_file (sv_handles s ! h)); f = sv_files s ! i in
                (set_handle h no_handle (set_file i (f\<lparr>fi_refs := fi_refs f - 1\<rparr>) s), 0)))"

definition delete_file :: "'c ku_ops \<Rightarrow> ku_space \<Rightarrow> 'c machine \<Rightarrow> ks_request \<Rightarrow> ks_service \<Rightarrow> ks_service \<times> int" where
  "delete_file ops sp m r s =
     (if rq_c r \<noteq> 0 \<or> rq_d r \<noteq> 0 then (s, KS_INVALID)
      else (case ks_filename ops sp m (rq_a r) (rq_b r) of
              Inl rc \<Rightarrow> (s, rc)
            | Inr name \<Rightarrow>
                (case ks_node s name of
                   None \<Rightarrow> (s, KS_MISSING)
                 | Some f \<Rightarrow> if fi_refs (sv_files s ! f) \<noteq> 0 then (s, KS_BUSY) else (set_file f no_file s, 0))))"

definition ks_list :: "'c ku_ops \<Rightarrow> ku_space \<Rightarrow> ks_request \<Rightarrow> ks_service \<Rightarrow> 'c machine \<Rightarrow> 'c machine \<times> int" where
  "ks_list ops sp r s m =
     (if rq_d r \<noteq> 0 then (m, KS_INVALID)
      else if rq_a r \<ge> of_nat KS_FILES then (m, KS_MISSING)
      else let used = filter fi_used (sv_files s) in
        if unat (rq_a r) \<ge> length used then (m, KS_MISSING)
        else let f = used ! unat (rq_a r) in
          if \<not> ku_check ops sp m (rq_b r) 40 (KU_R OR KU_W) \<or> \<not> ku_check ops sp m (rq_c r) 4 (KU_R OR KU_W) then (m, KS_FAULT)
          else if rq_b r < rq_c r + 4 \<and> rq_c r < rq_b r + 40 then (m, KS_INVALID)
          else (case ku_copyout ops sp (rq_b r) (fi_name f @ replicate (40 - length (fi_name f)) 0) m of
                  None \<Rightarrow> (m, KS_FAULT)
                | Some m \<Rightarrow> (case ku_copyout ops sp (rq_c r) (bytes32 (fi_size f)) m of
                               None \<Rightarrow> (m, KS_FAULT) | Some m \<Rightarrow> (m, 0))))"

section \<open>Drawing\<close>

text \<open>A drawing call is accepted while its event is being handled.\<close>

definition draw_stale :: "ks_service \<Rightarrow> ks_request \<Rightarrow> bool" where
  "draw_stale s r \<longleftrightarrow> \<not> sv_pending s \<or> \<not> sv_delivered s \<or> ev_type (sv_event s) \<noteq> KS_EVENT_DRAW \<or> rq_token r \<noteq> ev_id (sv_event s)"

definition dec_rect :: "u8 list \<Rightarrow> ks_rect" where
  "dec_rect bs = \<lparr>rc_type = get32 bs 0, rc_color = get32 bs 4, rc_x = sint (get32 bs 8), rc_y = sint (get32 bs 12),
     rc_w = sint (get32 bs 16), rc_h = sint (get32 bs 20)\<rparr>"

fun clip_rects :: "u32 \<Rightarrow> u32 \<Rightarrow> ks_rect list \<Rightarrow> ks_rect list option" where
  "clip_rects width height [] = Some []"
| "clip_rects width height (c # cs) =
     (if (rc_type c \<noteq> 1 \<and> rc_type c \<noteq> 2) \<or> rc_w c \<le> 0 \<or> rc_h c \<le> 0 then None
      else let x1 = max (rc_x c) 0; y1 = max (rc_y c) 0; x2 = min (rc_x c + rc_w c) (uint width); y2 = min (rc_y c + rc_h c) (uint height) in
        if x2 \<le> x1 \<or> y2 \<le> y1 then clip_rects width height cs
        else map_option (\<lambda>ds. \<lparr>rc_type = rc_type c, rc_color = rc_color c AND 0xFFFFFF, rc_x = x1, rc_y = y1,
                                rc_w = x2 - x1, rc_h = y2 - y1\<rparr> # ds) (clip_rects width height cs))"

definition log_call :: "ks_call \<Rightarrow> ks_service \<Rightarrow> ks_service" where
  "log_call c s = s\<lparr>sv_calls := sv_calls s @ [c]\<rparr>"

definition ks_draw :: "'c ku_ops \<Rightarrow> ku_space \<Rightarrow> 'c machine \<Rightarrow> ks_request \<Rightarrow> ks_service \<Rightarrow> ks_service \<times> int" where
  "ks_draw ops sp m r s =
     (if draw_stale s r then (s, KS_STALE)
      else if rq_b r = 0 \<or> rq_b r > KS_COMMANDS \<or> rq_c r \<noteq> 0 \<or> rq_d r \<noteq> 0 then (s, KS_INVALID)
      else if rq_b r > sv_draw_left s then (s, KS_QUOTA)
      else (case ku_copyin ops sp m (rq_a r) (rq_b r * 24) of
              None \<Rightarrow> (s, KS_FAULT)
            | Some bs \<Rightarrow>
                (case clip_rects (sv_width s) (sv_height s) (map (\<lambda>i. dec_rect (take 24 (drop (24 * i) bs))) [0..<unat (rq_b r)]) of
                   None \<Rightarrow> (s, KS_INVALID)
                 | Some cs \<Rightarrow>
                     let s = s\<lparr>sv_draw_left := sv_draw_left s - rq_b r\<rparr> in
                     (if sv_sink s then log_call (Rects cs) s else s, int (length cs)))))"

text \<open>The scalar checks of \<^verbatim>\<open>glyph_count\<close> after the lead byte: the number of continuation bytes, the bits
  of the lead byte and the smallest scalar of that length.\<close>

definition glyph_lead :: "u32 \<Rightarrow> (u32 \<times> nat \<times> u32) option" where
  "glyph_lead c =
     (if 0xC2 \<le> c \<and> c \<le> 0xDF then Some (c AND 31, 1, 128)
      else if 0xE0 \<le> c \<and> c \<le> 0xEF then Some (c AND 15, 2, 2048)
      else if 0xF0 \<le> c \<and> c \<le> 0xF4 then Some (c AND 7, 3, 65536) else None)"

fun glyph_more :: "nat \<Rightarrow> u32 \<Rightarrow> u8 list \<Rightarrow> (u32 \<times> u8 list) option" where
  "glyph_more 0 cp p = Some (cp, p)"
| "glyph_more (Suc k) cp [] = None"
| "glyph_more (Suc k) cp (b # p) =
     (let c = ucast b :: u32 in if c AND 0xC0 \<noteq> 0x80 then None else glyph_more k (push_bit 6 cp OR (c AND 63)) p)"

lemma glyph_more_shorter: "glyph_more k cp p = Some (c, q) \<Longrightarrow> length q \<le> length p"
  by (induction k cp p rule: glyph_more.induct) (auto simp: Let_def split: if_splits)

function glyph_count :: "u8 list \<Rightarrow> nat \<Rightarrow> nat option" where
  "glyph_count [] glyphs = Some glyphs"
| "glyph_count (b # p) glyphs =
     (let c = ucast b :: u32 in
      if c < 128 then (if c < 32 \<or> c = 127 then None else glyph_count p (glyphs + 1))
      else (case glyph_lead c of
              None \<Rightarrow> None
            | Some (cp, k, least) \<Rightarrow>
                (case glyph_more k cp p of
                   None \<Rightarrow> None
                 | Some (cp, q) \<Rightarrow>
                     if cp < least \<or> cp > 0x10FFFF \<or> (0xD800 \<le> cp \<and> cp \<le> 0xDFFF) then None
                     else glyph_count q (glyphs + 1))))"
  by pat_completeness auto
termination
  by (relation "measure (\<lambda>(p, _). length p)") (auto dest: glyph_more_shorter)

text \<open>The wire form of a text command; \<open>tx_bytes\<close> is the text without its padding.\<close>

definition ks_text_cmd :: "'c ku_ops \<Rightarrow> ku_space \<Rightarrow> 'c machine \<Rightarrow> ks_request \<Rightarrow> ks_service \<Rightarrow> ks_service \<times> int" where
  "ks_text_cmd ops sp m r s =
     (if draw_stale s r then (s, KS_STALE)
      else if rq_b r \<noteq> 24 \<or> rq_c r \<noteq> 0 \<or> rq_d r \<noteq> 0 then (s, KS_INVALID)
      else if \<not> sv_text_sink s then (s, KS_DENIED)
      else (case ku_copyin ops sp m (rq_a r) 24 of
              None \<Rightarrow> (s, KS_FAULT)
            | Some w \<Rightarrow>
                let x = sint (get32 w 0); y = sint (get32 w 4); color = get32 w 8; bg = get32 w 12; off = get32 w 16; len = get32 w 20 in
                if len = 0 \<or> len > KS_TEXT_BYTES then (s, KS_INVALID)
                else if sv_draw_left s = 0 \<or> len > sv_text_left s then (s, KS_QUOTA)
                else (case ku_copyin ops sp m off len of
                        None \<Rightarrow> (s, KS_FAULT)
                      | Some bs \<Rightarrow>
                          (case glyph_count bs 0 of
                             None \<Rightarrow> (s, KS_INVALID)
                           | Some glyphs \<Rightarrow>
                               let s = s\<lparr>sv_draw_left := sv_draw_left s - 1, sv_text_left := sv_text_left s - len\<rparr> in
                               if x + int glyphs * 8 \<le> 0 \<or> x \<ge> sint (sv_width s) \<or> y + 16 \<le> 0 \<or> y \<ge> sint (sv_height s) then (s, 0)
                               else (log_call (Text \<lparr>tx_x = x, tx_y = y, tx_color = color AND 0xFFFFFF,
                                       tx_bg = (if bg = 0xFFFFFFFF then bg else bg AND 0xFFFFFF), tx_bytes = bs\<rparr>) s, sint len)))))"

definition outcode :: "int \<Rightarrow> int \<Rightarrow> u32 \<Rightarrow> u32 \<Rightarrow> u32" where
  "outcode x y w h = (if x < 0 then 1 else if x \<ge> sint w then 2 else 0) OR (if y < 0 then 4 else if y \<ge> sint h then 8 else 0)"

definition ratio :: "int \<Rightarrow> int \<Rightarrow> int \<Rightarrow> int" where
  "ratio a b c =
     (let x = of_int \<bar>a\<bar> :: u32; y = of_int \<bar>b\<bar> :: u32; d = of_int \<bar>c\<bar> :: u32; q = sint (x * y div d)
      in if (a < 0) \<noteq> ((b < 0) \<noteq> (c < 0)) then - q else q)"

text \<open>One pass of the clipping loop: the segment is inside, outside, degenerate, or shortened.\<close>

datatype clip_result = Inside | Outside | Stuck | Shorter ks_line

definition clip_step :: "u32 \<Rightarrow> u32 \<Rightarrow> ks_line \<Rightarrow> clip_result" where
  "clip_step w h l =
     (let a = outcode (ln_x0 l) (ln_y0 l) w h; b = outcode (ln_x1 l) (ln_y1 l) w h in
      if a OR b = 0 then Inside
      else if a AND b \<noteq> 0 then Outside
      else let pick = (if a \<noteq> 0 then a else b); dx = ln_x1 l - ln_x0 l; dy = ln_y1 l - ln_y0 l in
        if (if pick AND 12 \<noteq> 0 then dy = 0 else dx = 0) then Stuck
        else let p = (if pick AND 12 \<noteq> 0
                      then let y = (if pick AND 4 \<noteq> 0 then 0 else sint h - 1) in (ln_x0 l + ratio dx (y - ln_y0 l) dy, y)
                      else let x = (if pick AND 1 \<noteq> 0 then 0 else sint w - 1) in (x, ln_y0 l + ratio dy (x - ln_x0 l) dx))
             in Shorter (if a \<noteq> 0 then l\<lparr>ln_x0 := fst p, ln_y0 := snd p\<rparr> else l\<lparr>ln_x1 := fst p, ln_y1 := snd p\<rparr>))"

fun clip_line :: "nat \<Rightarrow> u32 \<Rightarrow> u32 \<Rightarrow> ks_line \<Rightarrow> int + ks_line option" where
  "clip_line 0 w h l = Inl KS_INVALID"
| "clip_line (Suc n) w h l =
     (case clip_step w h l of
        Inside \<Rightarrow> Inr (Some l) | Outside \<Rightarrow> Inr None | Stuck \<Rightarrow> Inl KS_INVALID | Shorter l \<Rightarrow> clip_line n w h l)"

definition in_i16 :: "int \<Rightarrow> bool" where
  "in_i16 v \<longleftrightarrow> -32768 \<le> v \<and> v \<le> 32767"

definition ks_line_cmd :: "'c ku_ops \<Rightarrow> ku_space \<Rightarrow> 'c machine \<Rightarrow> ks_request \<Rightarrow> ks_service \<Rightarrow> ks_service \<times> int" where
  "ks_line_cmd ops sp m r s =
     (if draw_stale s r then (s, KS_STALE)
      else if rq_b r \<noteq> 24 \<or> rq_c r \<noteq> 0 \<or> rq_d r \<noteq> 0 then (s, KS_INVALID)
      else if \<not> sv_line_sink s then (s, KS_DENIED)
      else (case ku_copyin ops sp m (rq_a r) 24 of
              None \<Rightarrow> (s, KS_FAULT)
            | Some w \<Rightarrow>
                let l = \<lparr>ln_x0 = sint (get32 w 0), ln_y0 = sint (get32 w 4), ln_x1 = sint (get32 w 8), ln_y1 = sint (get32 w 12),
                         ln_color = get32 w 16\<rparr> in
                if get32 w 20 \<noteq> 0 \<or> \<not> in_i16 (ln_x0 l) \<or> \<not> in_i16 (ln_y0 l) \<or> \<not> in_i16 (ln_x1 l) \<or> \<not> in_i16 (ln_y1 l) then (s, KS_INVALID)
                else if sv_draw_left s = 0 then (s, KS_QUOTA)
                else (case clip_line 8 (sv_width s) (sv_height s) l of
                        Inl e \<Rightarrow> (s, e)
                      | Inr None \<Rightarrow> (s\<lparr>sv_draw_left := sv_draw_left s - 1\<rparr>, 0)
                      | Inr (Some l) \<Rightarrow>
                          (log_call (Line (l\<lparr>ln_color := ln_color l AND 0xFFFFFF\<rparr>)) (s\<lparr>sv_draw_left := sv_draw_left s - 1\<rparr>), 1))))"


section \<open>Dispatch\<close>

definition dec_request :: "u8 list \<Rightarrow> ks_request" where
  "dec_request bs = \<lparr>rq_version = get32 bs 0, rq_bytes = get32 bs 4, rq_op = get32 bs 8, rq_flags = get32 bs 12,
     rq_gen = get32 bs 16, rq_token = get32 bs 20, rq_a = get32 bs 24, rq_b = get32 bs 28, rq_c = get32 bs 32, rq_d = get32 bs 36\<rparr>"

definition enc_event :: "ks_event \<Rightarrow> u8 list" where
  "enc_event e = concat (map bytes32 [1, 48, ev_gen e, ev_id e, ev_type e, ev_delta e, ev_width e, ev_height e,
     ev_x e, ev_y e, ev_key e, ev_button e])"

definition ks_wait :: "'c ku_ops \<Rightarrow> ku_space \<Rightarrow> ks_request \<Rightarrow> ks_service \<times> 'c machine \<Rightarrow> (ks_service \<times> 'c machine) \<times> int" where
  "ks_wait ops sp r sm =
     (case sm of (s, m) \<Rightarrow>
        if rq_c r \<noteq> 0 \<or> rq_d r \<noteq> 0 \<or> rq_b r \<noteq> 48 then (sm, KS_INVALID)
        else if \<not> sv_pending s then (sm, KS_AGAIN)
        else (case ku_copyout ops sp (rq_a r) (enc_event (sv_event s)) m of
                None \<Rightarrow> (sm, KS_FAULT) | Some m \<Rightarrow> ((s\<lparr>sv_delivered := True\<rparr>, m), 48)))"

definition ks_complete :: "ks_request \<Rightarrow> ks_service \<Rightarrow> ks_service \<times> int" where
  "ks_complete r s =
     (if rq_a r \<noteq> 0 \<or> rq_b r \<noteq> 0 \<or> rq_c r \<noteq> 0 \<or> rq_d r \<noteq> 0 then (s, KS_INVALID)
      else if \<not> sv_pending s \<or> \<not> sv_delivered s \<or> rq_token r \<noteq> ev_id (sv_event s) then (s, KS_STALE)
      else (s\<lparr>sv_pending := False, sv_delivered := False\<rparr>, 0))"

definition ks_query :: "ks_request \<Rightarrow> ks_service \<Rightarrow> int" where
  "ks_query r s =
     (if rq_a r \<noteq> 0 \<or> rq_b r \<noteq> 0 \<or> rq_c r \<noteq> 0 \<or> rq_d r \<noteq> 0 then KS_INVALID
      else 1 + 4 + 8 + 32 + 64 + (if sv_text_sink s then 2 else 0) + (if sv_line_sink s then 16 else 0))"

definition ks_set_status :: "'c ku_ops \<Rightarrow> ku_space \<Rightarrow> 'c machine \<Rightarrow> ks_request \<Rightarrow> ks_service \<Rightarrow> ks_service \<times> int" where
  "ks_set_status ops sp m r s =
     (if rq_b r > 95 \<or> rq_c r \<noteq> 0 \<or> rq_d r \<noteq> 0 then (s, KS_INVALID)
      else (case ku_copyin ops sp m (rq_a r) (rq_b r) of
              None \<Rightarrow> (s, KS_FAULT)
            | Some bs \<Rightarrow>
                if glyph_count bs 0 = None then (s, KS_INVALID)
                else (s\<lparr>sv_status := bs @ replicate (96 - length bs) 0\<rparr>, 0)))"

definition ks_info :: "'c ku_ops \<Rightarrow> ku_space \<Rightarrow> ks_request \<Rightarrow> ks_service \<Rightarrow> 'c machine \<Rightarrow> 'c machine \<times> int" where
  "ks_info ops sp r s m =
     (if rq_b r \<noteq> 16 \<or> rq_c r \<noteq> 0 \<or> rq_d r \<noteq> 0 then (m, KS_INVALID)
      else (case ku_copyout ops sp (rq_a r) (concat (map bytes32 [1, 16, sv_hz s, sv_language s])) m of
              None \<Rightarrow> (m, KS_FAULT) | Some m \<Rightarrow> (m, 16)))"

definition ks_get_clock :: "'c ku_ops \<Rightarrow> ku_space \<Rightarrow> ks_request \<Rightarrow> ks_service \<Rightarrow> 'c machine \<Rightarrow> 'c machine \<times> int" where
  "ks_get_clock ops sp r s m =
     (if rq_b r \<noteq> 20 \<or> rq_c r \<noteq> 0 \<or> rq_d r \<noteq> 0 then (m, KS_INVALID)
      else if \<not> sv_clock_valid s \<or> sv_clock s ! 0 > 23 \<or> sv_clock s ! 1 > 59 \<or> sv_clock s ! 2 > 59 then (m, KS_AGAIN)
      else (case ku_copyout ops sp (rq_a r) (concat (map bytes32 [1, 20, sv_clock s ! 0, sv_clock s ! 1, sv_clock s ! 2])) m of
              None \<Rightarrow> (m, KS_FAULT) | Some m \<Rightarrow> (m, 20)))"

text \<open>The calls that leave user memory alone, and those that leave the service state alone.\<close>

definition on_service :: "('s \<Rightarrow> 's \<times> int) \<Rightarrow> 's \<times> 'm \<Rightarrow> ('s \<times> 'm) \<times> int" where
  "on_service f sm = (case sm of (s, m) \<Rightarrow> case f s of (s, rc) \<Rightarrow> ((s, m), rc))"

definition on_memory :: "('m \<Rightarrow> 'm \<times> int) \<Rightarrow> 's \<times> 'm \<Rightarrow> ('s \<times> 'm) \<times> int" where
  "on_memory f sm = (case sm of (s, m) \<Rightarrow> case f m of (m, rc) \<Rightarrow> ((s, m), rc))"

definition ks_call_op :: "'c ku_ops \<Rightarrow> ku_space \<Rightarrow> ks_request \<Rightarrow> ks_service \<times> 'c machine \<Rightarrow> (ks_service \<times> 'c machine) \<times> int" where
  "ks_call_op ops sp r sm =
     (let s = fst sm; m = snd sm; op = rq_op r in
      if op = 1 then ks_wait ops sp r sm
      else if op = 2 then on_service (ks_complete r) sm
      else if op = 3 then on_service (ks_draw ops sp m r) sm
      else if op = 9 then on_service (ks_text_cmd ops sp m r) sm
      else if op = 13 then on_service (ks_line_cmd ops sp m r) sm
      else if op = 14 then on_memory (ks_list ops sp r s) sm
      else if op = 10 then (sm, ks_query r s)
      else if op = 11 then on_service (ks_set_status ops sp m r) sm
      else if op = 12 then on_memory (ks_info ops sp r s) sm
      else if op = 15 then on_memory (ks_get_clock ops sp r s) sm
      else if op = 4 then on_service (open_file ops sp m r) sm
      else if op = 5 \<or> op = 6 then file_io ops sp r sm
      else if op = 7 then on_service (close_file r) sm
      else if op = 8 then on_service (delete_file ops sp m r) sm
      else (sm, KS_UNKNOWN))"

definition ks_dispatch :: "'c ku_ops \<Rightarrow> ku_space \<Rightarrow> u32 \<Rightarrow> u32 \<Rightarrow> ks_service \<times> 'c machine \<Rightarrow> (ks_service \<times> 'c machine) \<times> int" where
  "ks_dispatch ops sp off sz sm =
     (case sm of (s, m) \<Rightarrow>
        if \<not> sv_live s \<or> \<not> sp_live sp \<or> sp_pins sp = 0 then (sm, KS_INVALID)
        else if sz \<noteq> 40 then (sm, KS_INVALID)
        else (case ku_copyin ops sp m off 40 of
                None \<Rightarrow> (sm, KS_FAULT)
              | Some bs \<Rightarrow>
                  let r = dec_request bs in
                  if rq_version r \<noteq> 1 \<or> rq_bytes r \<noteq> 40 \<or> rq_flags r \<noteq> 0 then (sm, KS_INVALID)
                  else if rq_gen r \<noteq> sv_gen s then (sm, KS_DENIED)
                  else if rq_token r \<noteq> 0 \<and> rq_op r \<notin> {2, 3, 9, 13} then (sm, KS_INVALID)
                  else ks_call_op ops sp r sm))"

end
