(* ===== verification/Line_Clip.thy ===== *)
theory Line_Clip
  imports User_Service
begin

text \<open>
  The clipping loop of \<^verbatim>\<open>line\<close> in \<^verbatim>\<open>kernel/user_service.c\<close> ends within its eight rounds, in 32-bit
  arithmetic with a truncating division.
\<close>

lemma u32_of_int:
  assumes "0 \<le> v" "v < 4294967296"
  shows "uint (of_int v :: u32) = v"
  using assms by (simp add: uint_word_of_int)

lemma ratio_between:
  assumes a: "\<bar>a\<bar> \<le> 65535" and c: "\<bar>c\<bar> \<le> 65535" "c \<noteq> 0" and b: "\<bar>b\<bar> \<le> \<bar>c\<bar>" "b = 0 \<or> (b < 0) = (c < 0)"
  shows "0 \<le> a \<Longrightarrow> 0 \<le> ratio a b c \<and> ratio a b c \<le> a" "a \<le> 0 \<Longrightarrow> a \<le> ratio a b c \<and> ratio a b c \<le> 0"
proof -
  let ?q = "\<bar>a\<bar> * \<bar>b\<bar> div \<bar>c\<bar>"
  have ab: "\<bar>a\<bar> * \<bar>b\<bar> \<le> 65535 * 65535" using a b c by (intro mult_mono) auto
  have q: "0 \<le> ?q" "?q \<le> \<bar>a\<bar>"
  proof -
    show "0 \<le> ?q" using c by (simp add: pos_imp_zdiv_nonneg_iff)
    have "\<bar>a\<bar> * \<bar>b\<bar> \<le> \<bar>a\<bar> * \<bar>c\<bar>" using b(1) by (intro mult_left_mono) auto
    then have "?q \<le> (\<bar>a\<bar> * \<bar>c\<bar>) div \<bar>c\<bar>" using c by (intro zdiv_mono1) auto
    then show "?q \<le> \<bar>a\<bar>" using c by simp
  qed
  have u: "uint (of_int \<bar>a\<bar> :: u32) = \<bar>a\<bar>" "uint (of_int \<bar>b\<bar> :: u32) = \<bar>b\<bar>" "uint (of_int \<bar>c\<bar> :: u32) = \<bar>c\<bar>"
    using a b c by (intro u32_of_int; simp)+
  have m: "uint ((of_int \<bar>a\<bar> :: u32) * of_int \<bar>b\<bar>) = \<bar>a\<bar> * \<bar>b\<bar>"
    using ab u by (subst uint_mult_lem[THEN iffD1]) auto
  have d: "uint ((of_int \<bar>a\<bar> :: u32) * of_int \<bar>b\<bar> div of_int \<bar>c\<bar>) = ?q" by (simp only: uint_div m u)
  define q where "q = (of_int \<bar>a\<bar> :: u32) * of_int \<bar>b\<bar> div of_int \<bar>c\<bar>"
  have qi: "int (unat q) = ?q" using d by (simp add: q_def)
  moreover have "?q < 2147483648" using q a by simp
  ultimately have "unat q < 2147483648" by linarith
  then have "sint q = ?q" using qi by (simp add: sint_small_u32)
  then have r: "ratio a b c = (if (a < 0) \<noteq> ((b < 0) \<noteq> (c < 0)) then - ?q else ?q)"
    by (cases "a < 0"; cases "b < 0"; cases "c < 0") (simp_all add: ratio_def Let_def q_def)
  have z: "b = 0 \<Longrightarrow> ?q = 0" by simp
  show "0 \<le> a \<Longrightarrow> 0 \<le> ratio a b c \<and> ratio a b c \<le> a" "a \<le> 0 \<Longrightarrow> a \<le> ratio a b c \<and> ratio a b c \<le> 0"
    using b(2) q z unfolding r by (cases "a = 0"; cases "b = 0"; auto)+
qed

text \<open>Which coordinates are outside the window.\<close>

definition out :: "int \<Rightarrow> int \<Rightarrow> int" where
  "out v n = (if v < 0 then -1 else if v \<ge> n then 1 else 0)"

lemma out_simps: "out v n = 0 \<longleftrightarrow> 0 \<le> v \<and> v < n" "0 < n \<Longrightarrow> out v n = -1 \<longleftrightarrow> v < 0" "0 < n \<Longrightarrow> out v n = 1 \<longleftrightarrow> v \<ge> n"
  by (auto simp: out_def)

lemma outcode_out: "outcode x y w h = (if out x (sint w) = 0 then 0 else if out x (sint w) < 0 then 1 else 2) OR
    (if out y (sint h) = 0 then 0 else if out y (sint h) < 0 then 4 else 8)"
  by (simp add: outcode_def out_def)

lemma out_cases: "out v n = -1 \<or> out v n = 0 \<or> out v n = 1"
  by (simp add: out_def)

definition in_window :: "u32 \<Rightarrow> u32 \<Rightarrow> ks_line \<Rightarrow> bool" where
  "in_window w h l \<longleftrightarrow> out (ln_x0 l) (sint w) = 0 \<and> out (ln_y0 l) (sint h) = 0 \<and> out (ln_x1 l) (sint w) = 0 \<and> out (ln_y1 l) (sint h) = 0"

definition beside :: "u32 \<Rightarrow> u32 \<Rightarrow> ks_line \<Rightarrow> bool" where
  "beside w h l \<longleftrightarrow> (out (ln_x0 l) (sint w) \<noteq> 0 \<and> out (ln_x0 l) (sint w) = out (ln_x1 l) (sint w)) \<or>
     (out (ln_y0 l) (sint h) \<noteq> 0 \<and> out (ln_y0 l) (sint h) = out (ln_y1 l) (sint h))"

lemma outcode_tests:
  "outcode x y w h = 0 \<longleftrightarrow> out x (sint w) = 0 \<and> out y (sint h) = 0"
  "outcode x y w h AND 12 \<noteq> 0 \<longleftrightarrow> out y (sint h) \<noteq> 0"
  "outcode x y w h AND 4 \<noteq> 0 \<longleftrightarrow> out y (sint h) = -1"
  "outcode x y w h AND 1 \<noteq> 0 \<longleftrightarrow> out x (sint w) = -1"
  "outcode x y w h AND outcode x' y' w h \<noteq> 0 \<longleftrightarrow>
     (out x (sint w) \<noteq> 0 \<and> out x (sint w) = out x' (sint w)) \<or> (out y (sint h) \<noteq> 0 \<and> out y (sint h) = out y' (sint h))"
  using out_cases[of x "sint w"] out_cases[of y "sint h"] out_cases[of x' "sint w"] out_cases[of y' "sint h"]
  unfolding outcode_out by (elim disjE; simp)+

lemma outcode_zero:
  "outcode x y w h AND 12 = 0 \<longleftrightarrow> out y (sint h) = 0"
  "outcode x y w h AND 4 = 0 \<longleftrightarrow> out y (sint h) \<noteq> -1"
  "outcode x y w h AND 1 = 0 \<longleftrightarrow> out x (sint w) \<noteq> -1"
  "outcode x y w h AND outcode x' y' w h = 0 \<longleftrightarrow>
     (out x (sint w) = 0 \<or> out x (sint w) \<noteq> out x' (sint w)) \<and> (out y (sint h) = 0 \<or> out y (sint h) \<noteq> out y' (sint h))"
  using outcode_tests(2-5)[of x y w h] outcode_tests(5)[of x y w h x' y'] by blast+

lemma clip_step_tests:
  "clip_step w h l = Inside \<longleftrightarrow> in_window w h l"
  "beside w h l \<Longrightarrow> \<not> in_window w h l \<Longrightarrow> clip_step w h l = Outside"
  unfolding clip_step_def in_window_def beside_def Let_def by (auto simp: or_eq_0_iff outcode_tests)


definition outs :: "u32 \<Rightarrow> u32 \<Rightarrow> ks_line \<Rightarrow> nat" where
  "outs w h l = of_bool (out (ln_x0 l) (sint w) \<noteq> 0) + of_bool (out (ln_y0 l) (sint h) \<noteq> 0) +
     of_bool (out (ln_x1 l) (sint w) \<noteq> 0) + of_bool (out (ln_y1 l) (sint h) \<noteq> 0)"

definition i16_line :: "ks_line \<Rightarrow> bool" where
  "i16_line l \<longleftrightarrow> in_i16 (ln_x0 l) \<and> in_i16 (ln_y0 l) \<and> in_i16 (ln_x1 l) \<and> in_i16 (ln_y1 l)"

text \<open>One coordinate of an endpoint is moved to the border; the other follows, and stays between the ends.\<close>

lemma clip_axis:
  assumes n: "0 < n" "n \<le> 4096" and i: "in_i16 u0" "in_i16 u1" "in_i16 v0" "in_i16 v1"
    and o: "out v0 n \<noteq> out v1 n" and s: "s = out v0 n \<or> s = out v1 n" "s \<noteq> 0"
  defines "v \<equiv> if s = -1 then 0 else n - 1"
  defines "u \<equiv> u0 + ratio (u1 - u0) (v - v0) (v1 - v0)"
  shows "v1 \<noteq> v0" "out v n = 0" "in_i16 v" "in_i16 u" "min u0 u1 \<le> u" "u \<le> max u0 u1"
proof -
  show ne: "v1 \<noteq> v0" using o by auto
  show "out v n = 0" "in_i16 v" using n by (auto simp: v_def out_def in_i16_def)
  have between: "(v0 \<le> v \<and> v \<le> v1) \<or> (v1 \<le> v \<and> v \<le> v0)"
    using o s n unfolding v_def out_def by (auto split: if_splits)
  have b: "\<bar>u1 - u0\<bar> \<le> 65535" "\<bar>v1 - v0\<bar> \<le> 65535" "\<bar>v - v0\<bar> \<le> \<bar>v1 - v0\<bar>" "v - v0 = 0 \<or> (v - v0 < 0) = (v1 - v0 < 0)"
    using i between by (auto simp: in_i16_def)
  have nz: "v1 - v0 \<noteq> 0" using ne by simp
  note r = ratio_between[OF b(1,2) nz b(3,4)]
  show "min u0 u1 \<le> u" "u \<le> max u0 u1" using r unfolding u_def by (cases "u0 \<le> u1"; simp)+
  then show "in_i16 u" using i by (auto simp: in_i16_def min_def max_def split: if_splits)
qed

lemma out_between:
  "min u0 u1 \<le> u \<Longrightarrow> u \<le> max u0 u1 \<Longrightarrow> out u n = 0 \<or> out u n = out u0 n \<or> out u n = out u1 n"
  by (auto simp: out_def min_def max_def split: if_splits)

lemma clip_step_shorter:
  assumes w: "0 < sint w" "sint w \<le> 4096" "0 < sint h" "sint h \<le> 4096" and i: "i16_line l"
    and nw: "\<not> in_window w h l" and nb: "\<not> beside w h l"
  shows "\<exists>l'. clip_step w h l = Shorter l' \<and> i16_line l' \<and> ln_color l' = ln_color l \<and> (outs w h l' < outs w h l \<or> beside w h l')"
proof -
  let ?x0 = "ln_x0 l" and ?y0 = "ln_y0 l" and ?x1 = "ln_x1 l" and ?y1 = "ln_y1 l"
  have ii: "in_i16 ?x0" "in_i16 ?y0" "in_i16 ?x1" "in_i16 ?y1" using i by (auto simp: i16_line_def)
  define first where "first \<longleftrightarrow> out ?x0 (sint w) \<noteq> 0 \<or> out ?y0 (sint h) \<noteq> 0"
  define py where "py = (if first then out ?y0 (sint h) else out ?y1 (sint h))"
  define px where "px = (if first then out ?x0 (sint w) else out ?x1 (sint w))"
  have some: "px \<noteq> 0 \<or> py \<noteq> 0" using nw by (auto simp: in_window_def px_def py_def first_def)
  have nf: "\<not> first \<Longrightarrow> out ?x0 (sint w) = 0 \<and> out ?y0 (sint h) = 0" by (simp add: first_def)
  define a where "a = outcode ?x0 ?y0 w h"
  define b where "b = outcode ?x1 ?y1 w h"
  define P where "P = (if a \<noteq> 0 then a else b)"
  have ab: "a OR b \<noteq> 0" using nw by (auto simp: a_def b_def or_eq_0_iff outcode_tests in_window_def)
  have ba: "a AND b = 0" using nb by (simp add: a_def b_def outcode_zero) (auto simp: beside_def)
  have fst0: "a = 0 \<longleftrightarrow> \<not> first" by (auto simp: a_def outcode_tests first_def)
  have P': "P = (if first then a else b)" by (simp add: P_def fst0)
  have pick: "P AND 12 = 0 \<longleftrightarrow> py = 0" "P AND 4 = 0 \<longleftrightarrow> py \<noteq> -1" "P AND 1 = 0 \<longleftrightarrow> px \<noteq> -1"
    unfolding P' a_def b_def by (auto simp: outcode_zero py_def px_def)
  show ?thesis
  proof (cases "py = 0")
    case False
    have o: "out ?y0 (sint h) \<noteq> out ?y1 (sint h)" using nb False by (auto simp: beside_def py_def split: if_splits)
    define y where "y = (if py = -1 then 0 else sint h - 1)"
    define x where "x = ?x0 + ratio (?x1 - ?x0) (y - ?y0) (?y1 - ?y0)"
    have s: "py = out ?y0 (sint h) \<or> py = out ?y1 (sint h)" by (auto simp: py_def)
    note c = clip_axis[OF w(3,4) ii(1,3,2,4) o s False, folded y_def, folded x_def]
    have st: "clip_step w h l = Shorter (if first then l\<lparr>ln_x0 := x, ln_y0 := y\<rparr> else l\<lparr>ln_x1 := x, ln_y1 := y\<rparr>)"
      unfolding clip_step_def Let_def a_def[symmetric] b_def[symmetric] P_def[symmetric] using ab ba False c(1)
      by (simp add: fst0 pick y_def x_def)
    have ob: "out x (sint w) = 0 \<or> out x (sint w) = out ?x0 (sint w) \<or> out x (sint w) = out ?x1 (sint w)"
      by (rule out_between) (use c(5,6) in simp_all)
    show ?thesis
      unfolding st using ii c(2-4) ob False nf by (cases first) (auto simp: i16_line_def outs_def beside_def py_def)
  next
    case True
    then have px: "px \<noteq> 0" using some by simp
    have o: "out ?x0 (sint w) \<noteq> out ?x1 (sint w)" using nb px by (auto simp: beside_def px_def split: if_splits)
    define x where "x = (if px = -1 then 0 else sint w - 1)"
    define y where "y = ?y0 + ratio (?y1 - ?y0) (x - ?x0) (?x1 - ?x0)"
    have s: "px = out ?x0 (sint w) \<or> px = out ?x1 (sint w)" by (auto simp: px_def)
    note c = clip_axis[OF w(1,2) ii(2,4,1,3) o s px, folded x_def, folded y_def]
    have st: "clip_step w h l = Shorter (if first then l\<lparr>ln_x0 := x, ln_y0 := y\<rparr> else l\<lparr>ln_x1 := x, ln_y1 := y\<rparr>)"
      unfolding clip_step_def Let_def a_def[symmetric] b_def[symmetric] P_def[symmetric] using ab ba True c(1)
      by (simp add: fst0 pick y_def x_def)
    have ob: "out y (sint h) = 0 \<or> out y (sint h) = out ?y0 (sint h) \<or> out y (sint h) = out ?y1 (sint h)"
      by (rule out_between) (use c(5,6) in simp_all)
    show ?thesis
      unfolding st using ii c(2-4) ob px True nf by (cases first) (auto simp: i16_line_def outs_def beside_def px_def py_def)
  qed
qed

lemma clip_line_ends:
  "0 < sint w \<Longrightarrow> sint w \<le> 4096 \<Longrightarrow> 0 < sint h \<Longrightarrow> sint h \<le> 4096 \<Longrightarrow> i16_line l \<Longrightarrow>
     outs w h l + 2 \<le> n \<or> (beside w h l \<and> 0 < n) \<Longrightarrow>
     clip_line n w h l = Inr None \<or> (\<exists>l'. clip_line n w h l = Inr (Some l') \<and> in_window w h l' \<and> ln_color l' = ln_color l)"
proof (induction n arbitrary: l)
  case (Suc n)
  show ?case
  proof (cases "in_window w h l")
    case True
    then show ?thesis using clip_step_tests(1)[of w h l] by simp
  next
    case nw: False
    show ?thesis
    proof (cases "beside w h l")
      case True
      then show ?thesis using clip_step_tests(2)[OF True nw] by simp
    next
      case False
      obtain l' where l': "clip_step w h l = Shorter l'" "i16_line l'" "ln_color l' = ln_color l" "outs w h l' < outs w h l \<or> beside w h l'"
        using clip_step_shorter[OF Suc.prems(1-5) nw False] by blast
      have "outs w h l' + 2 \<le> n \<or> (beside w h l' \<and> 0 < n)" using l'(4) Suc.prems(6) False by auto
      then show ?thesis using Suc.IH[OF Suc.prems(1-4) l'(2)] l'(1,3) by simp
    qed
  qed
qed simp

lemma outs_le: "outs w h l \<le> 4"
  by (simp add: outs_def)

end
