(* ===== verification/Glyphs.thy ===== *)
theory Glyphs
  imports User_Service Text_Input
begin

text \<open>
  The UTF-8 check of \<^verbatim>\<open>kernel/user_service.c\<close> against the encoder of \<^verbatim>\<open>kernel/keymap.c\<close>: the texts it
  accepts are the encodings of sequences of printable scalar values. Bytes and scalars are
  handled as numbers; the facts on single bytes are tables.
\<close>

definition utf8_bytes :: "nat \<Rightarrow> nat list" where
  "utf8_bytes n =
     (if n < 128 then [n]
      else if n < 2048 then [192 + n div 64, 128 + n mod 64]
      else if n < 65536 then [224 + n div 4096, 128 + n div 64 mod 64, 128 + n mod 64]
      else [240 + n div 262144, 128 + n div 4096 mod 64, 128 + n div 64 mod 64, 128 + n mod 64])"

definition glyph_scalar :: "u32 \<Rightarrow> bool" where
  "glyph_scalar c \<longleftrightarrow> 32 \<le> c \<and> c \<noteq> 127 \<and> c \<le> 0x10FFFF \<and> \<not> (0xD800 \<le> c \<and> c \<le> 0xDFFF)"

section \<open>Words as numbers\<close>

lemma or_add_low:
  assumes "unat (x :: u32) mod 2 ^ k = 0" "unat y < 2 ^ k" "k < 32"
  shows "x OR y = x + y"
proof -
  have "x AND y = 0"
  proof (rule bit_word_eqI)
    fix n assume n: "n < LENGTH(32)"
    have "\<not> bit x n" if "n < k"
    proof -
      have "take_bit k (unat x) = 0" using assms(1) by (simp add: take_bit_eq_mod)
      then have "\<not> bit (take_bit k (unat x)) n" by simp
      then show ?thesis using that by (simp add: bit_take_bit_iff bit_unsigned_iff)
    qed
    moreover have "\<not> bit y n" if "\<not> n < k"
    proof -
      have "unat y < 2 ^ n" using assms(2) that by (meson less_le_trans not_less one_le_numeral power_increasing)
      then have "\<not> bit (unat y) n" by (simp add: bit_iff_odd)
      then show ?thesis by (simp add: bit_unsigned_iff)
    qed
    ultimately show "bit (x AND y) n = bit (0 :: u32) n" by (auto simp: bit_and_iff)
  qed
  then show ?thesis using word_plus_and_or[of x y] by simp
qed

lemma unat_u32_small: "n < 4294967296 \<Longrightarrow> unat (of_nat n :: u32) = n"
  by (intro unat_of_nat_u32) simp

lemma shift_in:
  assumes "a < 2 ^ 20" "r < 64"
  shows "push_bit 6 (of_nat a :: u32) OR of_nat r = of_nat (a * 64 + r)"
proof -
  have u: "unat (of_nat (a * 64) :: u32) = a * 64" "unat (of_nat r :: u32) = r" using assms by (intro unat_u32_small; simp)+
  have p: "push_bit 6 (of_nat a :: u32) = of_nat (a * 64)" by (simp add: push_bit_eq_mult)
  have "of_nat (a * 64) OR (of_nat r :: u32) = of_nat (a * 64) + of_nat r"
    by (rule or_add_low[of _ 6]) (use u assms in simp_all)
  then show ?thesis unfolding p by simp
qed

lemma byte_masks:
  "\<forall>v\<in>set [0..<256]. ((of_nat v :: u32) AND 0xC0 = 0x80) = (128 \<le> v \<and> v < 192) \<and> (of_nat v :: u32) AND 63 = of_nat (v mod 64)"
  by code_simp

lemma byte_leads:
  "\<forall>v\<in>set [128..<256]. glyph_lead (of_nat v) =
     (if 194 \<le> v \<and> v \<le> 223 then Some (of_nat (v - 192), 1, 128)
      else if 224 \<le> v \<and> v \<le> 239 then Some (of_nat (v - 224), 2, 2048)
      else if 240 \<le> v \<and> v \<le> 244 then Some (of_nat (v - 240), 3, 65536) else None)"
  by code_simp

lemma byte_facts:
  assumes "v < 256"
  shows "((of_nat v :: u32) AND 0xC0 = 0x80) = (128 \<le> v \<and> v < 192)" "(of_nat v :: u32) AND 63 = of_nat (v mod 64)"
    "128 \<le> v \<Longrightarrow> glyph_lead (of_nat v) =
        (if 194 \<le> v \<and> v \<le> 223 then Some (of_nat (v - 192), 1, 128)
         else if 224 \<le> v \<and> v \<le> 239 then Some (of_nat (v - 224), 2, 2048)
         else if 240 \<le> v \<and> v \<le> 244 then Some (of_nat (v - 240), 3, 65536) else None)"
proof -
  have "v \<in> set [0..<256]" using assms unfolding set_upt atLeastLessThan_iff by simp
  from bspec[OF byte_masks this] show "((of_nat v :: u32) AND 0xC0 = 0x80) = (128 \<le> v \<and> v < 192)" "(of_nat v :: u32) AND 63 = of_nat (v mod 64)"
    by (rule conjunct1, rule conjunct2)
  assume "128 \<le> v"
  then have "v \<in> set [128..<256]" using assms unfolding set_upt atLeastLessThan_iff by simp
  from bspec[OF byte_leads this] show "glyph_lead (of_nat v) =
        (if 194 \<le> v \<and> v \<le> 223 then Some (of_nat (v - 192), 1, 128)
         else if 224 \<le> v \<and> v \<le> 239 then Some (of_nat (v - 224), 2, 2048)
         else if 240 \<le> v \<and> v \<le> 244 then Some (of_nat (v - 240), 3, 65536) else None)" .
qed

lemma byte_value: obtains v where "(b :: u8) = of_nat v" "v < 256"
  using that[of "unat b"] unsigned_less[of b] by simp

lemma ucast_byte: "v < 256 \<Longrightarrow> (ucast (of_nat v :: u8) :: u32) = of_nat v"
proof -
  assume v: "v < 256"
  have "unat (ucast (of_nat v :: u8) :: u32) = unat (of_nat v :: u8)" by (rule unat_ucast_8_32)
  also have "\<dots> = v" using v by (simp add: unat_of_nat take_bit_nat_eq_self)
  finally show ?thesis using v by (simp add: word_unat_eq_iff unat_u32_small)
qed

section \<open>The encoder\<close>

lemma u8_of_u32: "n < 256 \<Longrightarrow> (ucast (of_nat n :: u32) :: u8) = of_nat n"
  by (simp add: word_unat_eq_iff unsigned_ucast_eq unsigned_of_nat take_bit_nat_eq_self)

lemma mark:
  assumes "unat (m :: u32) mod 2 ^ k = 0" "unat x < 2 ^ k" "k < 8" "unat m + unat x < 256"
  shows "(ucast (m OR x) :: u8) = of_nat (unat m + unat x)"
proof -
  have "m OR x = m + x" using assms by (intro or_add_low) auto
  also have "\<dots> = of_nat (unat m + unat x)" by simp
  finally show ?thesis using u8_of_u32[OF assms(4)] by simp
qed

lemma unat_drop: "unat (drop_bit k (c :: u32)) = unat c div 2 ^ k"
  unfolding unat_drop_bit_eq by (simp add: drop_bit_eq_div)

lemma unat_and_63: "unat (c AND 63 :: u32) = unat c mod 64"
proof -
  have m: "(63 :: u32) = mask 6" by (simp add: mask_eq_exp_minus_1)
  show ?thesis unfolding m by (simp add: take_bit_eq_mask[symmetric] take_bit_eq_mod unat_mod)
qed

lemma keymap_utf8_bytes:
  assumes "encodable c"
  shows "keymap_utf8 c = map of_nat (utf8_bytes (unat c))"
proof -
  have ok: "\<not> (c = 0 \<or> c > 0x10FFFF \<or> (c \<ge> 0xD800 \<and> c \<le> 0xDFFF))" using assms by (auto simp: encodable_def not_less)
  have b: "unat c \<le> 0x10FFFF" using ok by (simp add: word_less_nat_alt not_less)
  have cont: "(ucast (0x80 OR (d AND 63)) :: u8) = of_nat (128 + unat d mod 64)" for d :: u32
    using mark[of "0x80" 6 "d AND 63"] by (simp add: unat_and_63)
  have l2: "(ucast (0xC0 OR drop_bit 6 c) :: u8) = of_nat (192 + unat c div 64)" if "unat c < 2048"
    using mark[of "0xC0" 5 "drop_bit 6 c"] that by (simp add: unat_drop)
  have l3: "(ucast (0xE0 OR drop_bit 12 c) :: u8) = of_nat (224 + unat c div 4096)" if "unat c < 65536"
    using mark[of "0xE0" 4 "drop_bit 12 c"] that by (simp add: unat_drop)
  have l4: "(ucast (0xF0 OR drop_bit 18 c) :: u8) = of_nat (240 + unat c div 262144)"
    using mark[of "0xF0" 3 "drop_bit 18 c"] b by (simp add: unat_drop)
  have l1: "(ucast c :: u8) = of_nat (unat c)" if "unat c < 128"
    using u8_of_u32[of "unat c"] that by simp
  show ?thesis
    using ok l1 l2 l3 l4 by (simp add: keymap_utf8_def utf8_bytes_def word_less_nat_alt cont unat_drop)
qed


section \<open>The decoder\<close>

definition scalar_number :: "nat \<Rightarrow> bool" where
  "scalar_number n \<longleftrightarrow> 32 \<le> n \<and> n \<noteq> 127 \<and> n \<le> 0x10FFFF \<and> \<not> (0xD800 \<le> n \<and> n \<le> 0xDFFF)"

lemma glyph_scalar_number: "glyph_scalar c \<longleftrightarrow> scalar_number (unat c)"
proof -
  have "c = 127 \<longleftrightarrow> unat c = 127" by (simp add: word_unat_eq_iff)
  then show ?thesis by (auto simp: glyph_scalar_def scalar_number_def word_le_nat_alt)
qed

lemma glyph_more_Suc:
  assumes "v < 256" "a < 2 ^ 20"
  shows "glyph_more (Suc k) (of_nat a) (of_nat v # p) =
    (if 128 \<le> v \<and> v < 192 then glyph_more k (of_nat (a * 64 + v mod 64)) p else None)"
  using byte_facts(1,2)[OF assms(1)] shift_in[OF assms(2), of "v mod 64"] by (auto simp: Let_def ucast_byte assms(1))

lemma range_tests:
  assumes "n < 2097152" "l < 2097152"
  shows "((of_nat n :: u32) < of_nat l \<or> (of_nat n :: u32) > 0x10FFFF \<or> (0xD800 \<le> (of_nat n :: u32) \<and> (of_nat n :: u32) \<le> 0xDFFF)) \<longleftrightarrow>
    n < l \<or> n > 0x10FFFF \<or> (0xD800 \<le> n \<and> n \<le> 0xDFFF)"
proof -
  have "unat (of_nat n :: u32) = n" "unat (of_nat l :: u32) = l" using assms by (intro unat_u32_small; simp)+
  then show ?thesis by (simp add: word_less_nat_alt word_le_nat_alt)
qed

text \<open>One glyph of the text: the bytes it takes and the number they stand for.\<close>

fun take_glyph :: "nat list \<Rightarrow> (nat \<times> nat list) option" where
  "take_glyph [] = None"
| "take_glyph (v # p) =
     (if v < 128 then (if 32 \<le> v \<and> v \<noteq> 127 then Some (v, p) else None)
      else (case p of
          b1 # q \<Rightarrow>
            if 194 \<le> v \<and> v \<le> 223 then
              (if 128 \<le> b1 \<and> b1 < 192 then Some ((v - 192) * 64 + b1 mod 64, q) else None)
            else (case q of
                b2 # q \<Rightarrow>
                  if 224 \<le> v \<and> v \<le> 239 then
                    (let n = ((v - 224) * 64 + b1 mod 64) * 64 + b2 mod 64 in
                     if 128 \<le> b1 \<and> b1 < 192 \<and> 128 \<le> b2 \<and> b2 < 192 \<and> 2048 \<le> n \<and> scalar_number n then Some (n, q) else None)
                  else (case q of
                      b3 # q \<Rightarrow>
                        (let n = (((v - 240) * 64 + b1 mod 64) * 64 + b2 mod 64) * 64 + b3 mod 64 in
                         if 240 \<le> v \<and> v \<le> 244 \<and> 128 \<le> b1 \<and> b1 < 192 \<and> 128 \<le> b2 \<and> b2 < 192 \<and> 128 \<le> b3 \<and> b3 < 192 \<and>
                            65536 \<le> n \<and> scalar_number n then Some (n, q) else None)
                    | [] \<Rightarrow> None)
              | [] \<Rightarrow> None)
        | [] \<Rightarrow> None))"

definition small :: "nat list \<Rightarrow> bool" where
  "small p \<longleftrightarrow> (\<forall>v\<in>set p. v < 256)"

lemma small_simps [simp]: "small [] \<longleftrightarrow> True" "small (v # p) \<longleftrightarrow> v < 256 \<and> small p"
  by (auto simp: small_def)

lemma byte_less_128: "v < 256 \<Longrightarrow> ((of_nat v :: u32) < 128) = (v < 128)" "v < 256 \<Longrightarrow> ((of_nat v :: u32) < 32) = (v < 32)"
  "v < 256 \<Longrightarrow> ((of_nat v :: u32) = 127) = (v = 127)"
proof -
  assume v: "v < 256"
  have u: "unat (of_nat v :: u32) = v" using v by (intro unat_u32_small) simp
  show "((of_nat v :: u32) < 128) = (v < 128)" "((of_nat v :: u32) < 32) = (v < 32)" "((of_nat v :: u32) = 127) = (v = 127)"
    by (simp_all add: word_less_nat_alt word_unat_eq_iff u)
qed

lemma finish_glyph:
  assumes "glyph_more k cp p = (if c then Some (of_nat n, q) else None)" "n < 2097152" "l < 2097152" "L = of_nat l"
  shows "(case glyph_more k cp p of None \<Rightarrow> None
      | Some (cp, q) \<Rightarrow> if cp < L \<or> cp > 0x10FFFF \<or> (0xD800 \<le> cp \<and> cp \<le> 0xDFFF) then None else glyph_count q (g + 1)) =
    (if c \<and> l \<le> n \<and> n \<le> 0x10FFFF \<and> \<not> (0xD800 \<le> n \<and> n \<le> 0xDFFF) then glyph_count q (g + 1) else None)"
  unfolding assms(1,4) using range_tests[OF assms(2,3)] by (cases c) auto

lemma glyph_cases:
  "128 \<le> l \<Longrightarrow> (if c \<and> l \<le> n \<and> n \<le> 0x10FFFF \<and> \<not> (0xD800 \<le> n \<and> n \<le> 0xDFFF) then r q else None) =
     (case (if c \<and> l \<le> n \<and> scalar_number n then Some (n, q) else None) of None \<Rightarrow> None | Some (n, q) \<Rightarrow> r q)"
  by (auto simp: scalar_number_def)

lemma glyph_count_step:
  assumes "small (v # p)"
  shows "glyph_count (map of_nat (v # p)) g =
    (case take_glyph (v # p) of None \<Rightarrow> None | Some (n, q) \<Rightarrow> glyph_count (map of_nat q) (g + 1))"
proof (cases "v < 128")
  case True
  then show ?thesis using assms by (auto simp: Let_def ucast_byte byte_less_128)
next
  case False
  have v: "v < 256" "small p" using assms by auto
  note lead = byte_facts(3)[OF v(1)]
  have s: "glyph_count (map of_nat (v # p)) g =
     (case glyph_lead (of_nat v) of None \<Rightarrow> None
      | Some (cp, k, least) \<Rightarrow> (case glyph_more k cp (map of_nat p) of None \<Rightarrow> None
          | Some (cp, q) \<Rightarrow> if cp < least \<or> cp > 0x10FFFF \<or> (0xD800 \<le> cp \<and> cp \<le> 0xDFFF) then None else glyph_count q (g + 1)))"
    using False v(1) by (simp add: Let_def ucast_byte byte_less_128)
  consider "194 \<le> v \<and> v \<le> 223" | "224 \<le> v \<and> v \<le> 239" | "240 \<le> v \<and> v \<le> 244"
    | "\<not> (194 \<le> v \<and> v \<le> 223) \<and> \<not> (224 \<le> v \<and> v \<le> 239) \<and> \<not> (240 \<le> v \<and> v \<le> 244)" by blast
  then show ?thesis
  proof cases
    case 1
    then have l: "glyph_lead (of_nat v) = Some (of_nat (v - 192), 1, 128)" using lead False by simp
    show ?thesis
    proof (cases p)
      case Nil
      then show ?thesis unfolding s l using 1 False by simp
    next
      case (Cons b1 q)
      have b: "b1 < 256" using v(2) Cons by simp
      have v2: "v - 192 < 2 ^ 20" using v(1) by simp
      have m: "glyph_more 1 (of_nat (v - 192)) (map of_nat p) = (if 128 \<le> b1 \<and> b1 < 192 then Some (of_nat ((v - 192) * 64 + b1 mod 64), map of_nat q) else None)"
        unfolding Cons One_nat_def list.map glyph_more_Suc[OF b v2] by simp
      let ?n = "(v - 192) * 64 + b1 mod 64"
      have n: "128 \<le> ?n" "?n < 2048" using 1 by auto
      have f: "(case glyph_more 1 (of_nat (v - 192)) (map of_nat p) of None \<Rightarrow> None
      | Some (cp, q) \<Rightarrow> if cp < 128 \<or> cp > 0x10FFFF \<or> (0xD800 \<le> cp \<and> cp \<le> 0xDFFF) then None else glyph_count q (g + 1)) =
        (if (128 \<le> b1 \<and> b1 < 192) \<and> 128 \<le> ?n \<and> ?n \<le> 0x10FFFF \<and> \<not> (0xD800 \<le> ?n \<and> ?n \<le> 0xDFFF)
         then glyph_count (map of_nat q) (g + 1) else None)"
        by (rule finish_glyph[OF m]) (use n in simp_all)
      show ?thesis unfolding s l option.case prod.case f using 1 False n by (simp add: Cons scalar_number_def)
    qed
  next
    case 2
    then have l: "glyph_lead (of_nat v) = Some (of_nat (v - 224), 2, 2048)" using lead False by simp
    show ?thesis
    proof (cases "\<exists>b1 b2 q. p = b1 # b2 # q")
      case False
      then obtain b1 where "p = [] \<or> p = [b1]" by (cases p; cases "tl p") auto
      then have "glyph_more 2 (of_nat (v - 224)) (map of_nat p) = None \<and> take_glyph (v # p) = None"
        using 2 by (auto simp: numeral_2_eq_2 Let_def)
      then show ?thesis unfolding s l by simp
    next
      case True
      then obtain b1 b2 q where p: "p = b1 # b2 # q" by blast
      have b: "b1 < 256" "b2 < 256" using v(2) p by auto
      let ?m = "(v - 224) * 64 + b1 mod 64"
      let ?n = "?m * 64 + b2 mod 64"
      have mb: "v - 224 < 2 ^ 20" "?m < 2 ^ 20" using 2 by auto
      have m: "glyph_more 2 (of_nat (v - 224)) (map of_nat p) =
        (if 128 \<le> b1 \<and> b1 < 192 \<and> 128 \<le> b2 \<and> b2 < 192 then Some (of_nat ?n, map of_nat q) else None)"
        unfolding p numeral_2_eq_2 list.map glyph_more_Suc[OF b(1) mb(1)] glyph_more_Suc[OF b(2) mb(2)] by simp
      have n: "?n < 65536" using 2 by auto
      have f: "(case glyph_more 2 (of_nat (v - 224)) (map of_nat p) of None \<Rightarrow> None
      | Some (cp, q) \<Rightarrow> if cp < 2048 \<or> cp > 0x10FFFF \<or> (0xD800 \<le> cp \<and> cp \<le> 0xDFFF) then None else glyph_count q (g + 1)) =
        (if (128 \<le> b1 \<and> b1 < 192 \<and> 128 \<le> b2 \<and> b2 < 192) \<and> 2048 \<le> ?n \<and> ?n \<le> 0x10FFFF \<and> \<not> (0xD800 \<le> ?n \<and> ?n \<le> 0xDFFF)
         then glyph_count (map of_nat q) (g + 1) else None)"
        by (rule finish_glyph[OF m]) (use n in simp_all)
      have tk: "take_glyph (v # p) = (if (128 \<le> b1 \<and> b1 < 192 \<and> 128 \<le> b2 \<and> b2 < 192) \<and> 2048 \<le> ?n \<and> scalar_number ?n then Some (?n, q) else None)"
        using 2 \<open>\<not> v < 128\<close> by (simp add: p Let_def)
      show ?thesis unfolding s l option.case prod.case f tk by (rule glyph_cases) simp
    qed
  next
    case 3
    then have l: "glyph_lead (of_nat v) = Some (of_nat (v - 240), 3, 65536)" using lead False by simp
    show ?thesis
    proof (cases "\<exists>b1 b2 b3 q. p = b1 # b2 # b3 # q")
      case False
      then obtain b1 b2 where "p = [] \<or> p = [b1] \<or> p = [b1, b2]" by (cases p; cases "tl p"; cases "tl (tl p)") auto
      then have "glyph_more 3 (of_nat (v - 240)) (map of_nat p) = None \<and> take_glyph (v # p) = None"
        using 3 by (auto simp: numeral_3_eq_3 Let_def)
      then show ?thesis unfolding s l by simp
    next
      case True
      then obtain b1 b2 b3 q where p: "p = b1 # b2 # b3 # q" by blast
      have b: "b1 < 256" "b2 < 256" "b3 < 256" using v(2) p by auto
      let ?k = "(v - 240) * 64 + b1 mod 64"
      let ?m = "?k * 64 + b2 mod 64"
      let ?n = "?m * 64 + b3 mod 64"
      have mb: "v - 240 < 2 ^ 20" "?k < 2 ^ 20" "?m < 2 ^ 20" using 3 by auto
      have m: "glyph_more 3 (of_nat (v - 240)) (map of_nat p) =
        (if 128 \<le> b1 \<and> b1 < 192 \<and> 128 \<le> b2 \<and> b2 < 192 \<and> 128 \<le> b3 \<and> b3 < 192 then Some (of_nat ?n, map of_nat q) else None)"
        unfolding p numeral_3_eq_3 list.map glyph_more_Suc[OF b(1) mb(1)] glyph_more_Suc[OF b(2) mb(2)] glyph_more_Suc[OF b(3) mb(3)] by simp
      have n: "?n < 2097152" using 3 by auto
      have f: "(case glyph_more 3 (of_nat (v - 240)) (map of_nat p) of None \<Rightarrow> None
      | Some (cp, q) \<Rightarrow> if cp < 65536 \<or> cp > 0x10FFFF \<or> (0xD800 \<le> cp \<and> cp \<le> 0xDFFF) then None else glyph_count q (g + 1)) =
        (if (128 \<le> b1 \<and> b1 < 192 \<and> 128 \<le> b2 \<and> b2 < 192 \<and> 128 \<le> b3 \<and> b3 < 192) \<and> 65536 \<le> ?n \<and> ?n \<le> 0x10FFFF \<and>
            \<not> (0xD800 \<le> ?n \<and> ?n \<le> 0xDFFF)
         then glyph_count (map of_nat q) (g + 1) else None)"
        by (rule finish_glyph[OF m]) (use n in simp_all)
      have r: "(v < 128) = False" "(194 \<le> v \<and> v \<le> 223) = False" "(224 \<le> v \<and> v \<le> 239) = False" "(240 \<le> v) = True" "(v \<le> 244) = True"
        using 3 by auto
      have tk: "take_glyph (v # p) = (if (128 \<le> b1 \<and> b1 < 192 \<and> 128 \<le> b2 \<and> b2 < 192 \<and> 128 \<le> b3 \<and> b3 < 192) \<and>
          65536 \<le> ?n \<and> scalar_number ?n then Some (?n, q) else None)"
        unfolding p take_glyph.simps(2) r list.case if_False Let_def by (simp only: simp_thms conj_assoc)
      show ?thesis unfolding s l option.case prod.case f tk by (rule glyph_cases) simp
    qed
  next
    case 4
    then have r: "(v < 128) = False" "(194 \<le> v \<and> v \<le> 223) = False" "(224 \<le> v \<and> v \<le> 239) = False" "(240 \<le> v \<and> v \<le> 244) = False"
      using False by auto
    then have q: "(240 \<le> v \<and> v \<le> 244 \<and> X) = False" for X by blast
    have "take_glyph (v # p) = None"
      unfolding take_glyph.simps(2) r q Let_def by (simp only: if_False split: list.split) simp
    moreover have "glyph_lead (of_nat v) = None" using lead[unfolded r] False by simp
    ultimately have "glyph_lead (of_nat v) = None" "take_glyph (v # p) = None" by auto
    then show ?thesis unfolding s by simp
  qed
qed


lemma take_glyph_3:
  assumes "d < 16" "e < 64" "f < 64" "2048 \<le> (d * 64 + e) * 64 + f" "scalar_number ((d * 64 + e) * 64 + f)"
  shows "take_glyph ((224 + d) # (128 + e) # (128 + f) # r) = Some ((d * 64 + e) * 64 + f, r)"
proof -
  have m: "(128 + e) mod 64 = e" "(128 + f) mod 64 = f" using assms(2,3) by (simp_all add: mod_if)
  define v where "v = 224 + d"
  have v: "224 \<le> v" "v \<le> 239" "v - 224 = d" "\<not> v < 128" "\<not> v \<le> 223" using assms(1) by (simp_all add: v_def)
  define b1 where "b1 = 128 + e"
  define b2 where "b2 = 128 + f"
  have b: "128 \<le> b1" "b1 < 192" "128 \<le> b2" "b2 < 192" "b1 mod 64 = e" "b2 mod 64 = f" using assms(2,3) m by (simp_all add: b1_def b2_def)
  show ?thesis unfolding v_def[symmetric] b1_def[symmetric] b2_def[symmetric]
    using v b assms(4,5) by (simp add: Let_def)
qed

lemma take_glyph_4:
  assumes "d \<le> 4" "e < 64" "f < 64" "g < 64" "65536 \<le> ((d * 64 + e) * 64 + f) * 64 + g" "scalar_number (((d * 64 + e) * 64 + f) * 64 + g)"
  shows "take_glyph ((240 + d) # (128 + e) # (128 + f) # (128 + g) # r) = Some (((d * 64 + e) * 64 + f) * 64 + g, r)"
proof -
  have m: "(128 + e) mod 64 = e" "(128 + f) mod 64 = f" "(128 + g) mod 64 = g" using assms(2-4) by (simp_all add: mod_if)
  define v where "v = 240 + d"
  have v: "240 \<le> v" "v \<le> 244" "v - 240 = d" "\<not> v < 128" "\<not> v \<le> 239" "\<not> v \<le> 223" using assms(1) by (simp_all add: v_def)
  define b1 where "b1 = 128 + e"
  define b2 where "b2 = 128 + f"
  define b3 where "b3 = 128 + g"
  have b: "128 \<le> b1" "b1 < 192" "128 \<le> b2" "b2 < 192" "128 \<le> b3" "b3 < 192" "b1 mod 64 = e" "b2 mod 64 = f" "b3 mod 64 = g"
    using assms(2-4) m by (simp_all add: b1_def b2_def b3_def)
  show ?thesis unfolding v_def[symmetric] b1_def[symmetric] b2_def[symmetric] b3_def[symmetric]
    using v b assms(5,6) by (simp add: Let_def)
qed

lemma utf8_bytes_three: "2048 \<le> n \<Longrightarrow> n < 65536 \<Longrightarrow> utf8_bytes n = [224 + n div 4096, 128 + n div 64 mod 64, 128 + n mod 64]"
  and utf8_bytes_four: "65536 \<le> n \<Longrightarrow> utf8_bytes n = [240 + n div 262144, 128 + n div 4096 mod 64, 128 + n div 64 mod 64, 128 + n mod 64]"
  by (simp_all add: utf8_bytes_def)

lemma take_glyph_bytes:
  assumes "scalar_number n"
  shows "take_glyph (utf8_bytes n @ r) = Some (n, r)" "small (utf8_bytes n)" "utf8_bytes n \<noteq> []"
proof -
  have b: "n \<le> 0x10FFFF" using assms by (simp add: scalar_number_def)
  have d: "n div 64 div 64 = n div 4096" "n div 4096 div 64 = n div 262144" by (simp_all add: div_mult2_eq[symmetric])
  have m: "n div 64 * 64 + n mod 64 = n" "n div 4096 * 64 + n div 64 mod 64 = n div 64" "n div 262144 * 64 + n div 4096 mod 64 = n div 4096"
    using d div_mult_mod_eq[of n 64] div_mult_mod_eq[of "n div 64" 64] div_mult_mod_eq[of "n div 4096" 64] by simp_all
  have l: "n < 2048 \<Longrightarrow> n div 64 < 32" "n < 65536 \<Longrightarrow> n div 4096 < 16" "n div 262144 \<le> 4" "128 \<le> n \<Longrightarrow> 2 \<le> n div 64"
    using b by auto
  have x: "(128 + k mod 64) mod 64 = k mod 64" for k :: nat by (simp add: mod_add_eq[symmetric])
  show "utf8_bytes n \<noteq> []" by (simp add: utf8_bytes_def)
  show "small (utf8_bytes n)" using l by (auto simp: utf8_bytes_def)
  consider "n < 128" | "128 \<le> n" "n < 2048" | "2048 \<le> n" "n < 65536" | "65536 \<le> n" by linarith
  then show "take_glyph (utf8_bytes n @ r) = Some (n, r)"
  proof cases
    case 1
    then show ?thesis using assms by (simp add: utf8_bytes_def scalar_number_def)
  next
    case 2
    define d where "d = n div 64"
    have "2 \<le> d" "d < 32" "d * 64 + n mod 64 = n" using 2 l m(1) by (simp_all add: d_def)
    then show ?thesis using 2 by (simp add: utf8_bytes_def x d_def[symmetric])
  next
    case 3
    have e: "((n div 4096) * 64 + n div 64 mod 64) * 64 + n mod 64 = n" by (simp only: m)
    have "take_glyph ((224 + n div 4096) # (128 + n div 64 mod 64) # (128 + n mod 64) # r) = Some (n, r)"
      using take_glyph_3[of "n div 4096" "n div 64 mod 64" "n mod 64" r, unfolded e] l(2)[OF 3(2)] 3(1) assms by simp
    then show ?thesis by (simp only: utf8_bytes_three[OF 3] append_Cons append_Nil)
  next
    case 4
    have e: "(((n div 262144) * 64 + n div 4096 mod 64) * 64 + n div 64 mod 64) * 64 + n mod 64 = n" by (simp only: m)
    have "take_glyph ((240 + n div 262144) # (128 + n div 4096 mod 64) # (128 + n div 64 mod 64) # (128 + n mod 64) # r) = Some (n, r)"
      using take_glyph_4[of "n div 262144" "n div 4096 mod 64" "n div 64 mod 64" "n mod 64" r, unfolded e] l(3) 4 assms by simp
    then show ?thesis by (simp only: utf8_bytes_four[OF 4] append_Cons append_Nil)
  qed
qed

lemma digits64:
  fixes a b :: nat
  assumes "b < 64"
  shows "(a * 64 + b) div 64 = a" "(a * 64 + b) mod 64 = b"
  using assms by simp_all

lemma three_digits:
  fixes a b c :: nat
  assumes "a < 16" "b < 64" "c < 64"
  shows "(a * 64 + b) * 64 + c < 65536"
proof -
  have "a * 64 + b \<le> 1023" using assms by simp
  then show ?thesis using assms(3) by simp
qed

lemma take_glyph_inverse:
  assumes "take_glyph p = Some (n, q)"
  shows "scalar_number n \<and> p = utf8_bytes n @ q"
proof -
  have cont: "128 + b mod 64 = b" if "128 \<le> b" "b < 192" for b :: nat
  proof -
    have "(b - 128 + 2 * 64) mod 64 = (b - 128) mod 64" by (rule mod_mult_self1)
    then have "b mod 64 = b - 128" using that by simp
    then show ?thesis using that by simp
  qed
  obtain v p' where p: "p = v # p'" using assms by (cases p) auto
  consider (one) "v < 128" | (two) "194 \<le> v" "v \<le> 223" | (three) "224 \<le> v" "v \<le> 239" | (four) "240 \<le> v" "v \<le> 244"
    using assms p by (auto simp: Let_def split: if_splits list.splits)
  then show ?thesis
  proof cases
    case one
    then show ?thesis using assms p by (auto simp: scalar_number_def utf8_bytes_def split: if_splits)
  next
    case two
    then obtain b1 where b: "p' = b1 # q" "128 \<le> b1" "b1 < 192" "n = (v - 192) * 64 + b1 mod 64"
      using assms p by (auto split: list.splits if_splits)
    have n: "n div 64 = v - 192" "n mod 64 = b1 mod 64" "128 \<le> n" "n < 2048"
      unfolding b(4) using two digits64[of "b1 mod 64" "v - 192"] by auto
    then show ?thesis using p b two cont[of b1] by (auto simp: utf8_bytes_def scalar_number_def)
  next
    case three
    then obtain b1 b2 where b: "p' = b1 # b2 # q" "128 \<le> b1" "b1 < 192" "128 \<le> b2" "b2 < 192"
        "n = ((v - 224) * 64 + b1 mod 64) * 64 + b2 mod 64" "2048 \<le> n" "scalar_number n"
      using assms p by (auto simp: Let_def split: list.splits if_splits)
    let ?m = "(v - 224) * 64 + b1 mod 64"
    have "v - 224 < 16" "b1 mod 64 < 64" "b2 mod 64 < 64" using three by simp_all
    then have "n < 65536" unfolding b(6) by (rule three_digits)
    moreover have "n div 64 = ?m" "n mod 64 = b2 mod 64" unfolding b(6) using digits64[of "b2 mod 64" ?m] by auto
    ultimately have n: "n div 64 = ?m" "n mod 64 = b2 mod 64" "n < 65536" by auto
    have m: "?m div 64 = v - 224" "?m mod 64 = b1 mod 64" using digits64[of "b1 mod 64" "v - 224"] by auto
    have e: "n div 4096 = n div 64 div 64" using div_mult2_eq[of n 64 64] by simp
    have d: "n div 4096 = v - 224" "n div 64 mod 64 = b1 mod 64" by (simp_all only: e n m)
    have "utf8_bytes n = [v, b1, b2]"
      unfolding utf8_bytes_three[OF b(7) n(3)] d n(2) using three cont[of b1] cont[of b2] b(2-5) by simp
    then show ?thesis using p b(1,8) by simp
  next
    case four
    then obtain b1 b2 b3 where b: "p' = b1 # b2 # b3 # q" "128 \<le> b1" "b1 < 192" "128 \<le> b2" "b2 < 192" "128 \<le> b3" "b3 < 192"
        "n = (((v - 240) * 64 + b1 mod 64) * 64 + b2 mod 64) * 64 + b3 mod 64" "65536 \<le> n" "scalar_number n"
      using assms p by (auto simp: Let_def split: list.splits if_splits)
    let ?k = "(v - 240) * 64 + b1 mod 64"
    let ?m = "?k * 64 + b2 mod 64"
    have n: "n div 64 = ?m" "n mod 64 = b3 mod 64" unfolding b(8) using digits64[of "b3 mod 64" ?m] by auto
    have m: "?m div 64 = ?k" "?m mod 64 = b2 mod 64" using digits64[of "b2 mod 64" ?k] by auto
    have k: "?k div 64 = v - 240" "?k mod 64 = b1 mod 64" using digits64[of "b1 mod 64" "v - 240"] by auto
    have e: "n div 4096 = n div 64 div 64" "n div 262144 = n div 64 div 64 div 64"
      using div_mult2_eq[of n 64 64] div_mult2_eq[of n 4096 64] by simp_all
    have d: "n div 262144 = v - 240" "n div 4096 mod 64 = b1 mod 64" "n div 64 mod 64 = b2 mod 64" by (simp_all only: e n m k)
    have "utf8_bytes n = [v, b1, b2, b3]"
      unfolding utf8_bytes_four[OF b(9)] d n(2) using four cont[of b1] cont[of b2] cont[of b3] b(2-7) by simp
    then show ?thesis using p b(1,10) by simp
  qed
qed

section \<open>The texts that are accepted\<close>

lemma glyph_count_take:
  assumes "small p" "p \<noteq> []"
  shows "glyph_count (map of_nat p) g = (case take_glyph p of None \<Rightarrow> None | Some (n, q) \<Rightarrow> glyph_count (map of_nat q) (g + 1))"
  using assms glyph_count_step[of "hd p" "tl p" g] by (cases p) auto

lemma glyph_encodable: "glyph_scalar c \<Longrightarrow> encodable c"
  by (auto simp: glyph_scalar_def encodable_def)

lemma small_unat: "small (map unat (p :: u8 list))"
proof -
  have "unat b < 256" for b :: u8 using unsigned_less[of b] by simp
  then show ?thesis by (auto simp: small_def)
qed

lemma glyph_count_accepts:
  "\<forall>c\<in>set cs. glyph_scalar c \<Longrightarrow> glyph_count (concat (map keymap_utf8 cs)) g = Some (g + length cs)"
proof (induction cs arbitrary: g)
  case (Cons c cs)
  define r where "r = map unat (concat (map keymap_utf8 cs))"
  have s: "scalar_number (unat c)" using Cons.prems by (simp add: glyph_scalar_number)
  have e: "encodable c" using Cons.prems by (simp add: glyph_encodable)
  have r: "concat (map keymap_utf8 cs) = map of_nat r" "small r"
    unfolding r_def by (simp add: o_def) (rule small_unat)
  note t = take_glyph_bytes[OF s]
  have "glyph_count (map of_nat (utf8_bytes (unat c) @ r)) g = glyph_count (map of_nat r) (g + 1)"
    using t r(2) by (subst glyph_count_take) (auto simp: small_def)
  then show ?case using Cons by (simp add: keymap_utf8_bytes[OF e] r(1))
qed simp

lemma glyph_count_rejects:
  "small p \<Longrightarrow> glyph_count (map of_nat p) g = Some k \<Longrightarrow>
     \<exists>cs. (\<forall>c\<in>set cs. glyph_scalar c) \<and> map of_nat p = concat (map keymap_utf8 cs) \<and> k = g + length cs"
proof (induction "length p" arbitrary: p g rule: less_induct)
  case less
  show ?case
  proof (cases "p = []")
    case True
    then show ?thesis using less.prems by (intro exI[of _ "[]"]) simp
  next
    case False
    then obtain n q where t: "take_glyph p = Some (n, q)" "glyph_count (map of_nat q) (g + 1) = Some k"
      using less.prems glyph_count_take[of p g] by (auto split: option.splits)
    have s: "scalar_number n" "p = utf8_bytes n @ q" using take_glyph_inverse[OF t(1)] by auto
    have q: "length q < length p" "small q" using s(2) take_glyph_bytes(3)[OF s(1)] less.prems(1) by (auto simp: small_def)
    obtain cs where cs: "\<forall>c\<in>set cs. glyph_scalar c" "map of_nat q = concat (map keymap_utf8 cs)" "k = g + 1 + length cs"
      using less.hyps[OF q t(2)] by blast
    have u: "unat (of_nat n :: u32) = n" using s(1) by (intro unat_u32_small) (simp add: scalar_number_def)
    have g: "glyph_scalar (of_nat n)" using s(1) by (simp add: glyph_scalar_number u)
    then have "keymap_utf8 (of_nat n) = map of_nat (utf8_bytes n)"
      using keymap_utf8_bytes[OF glyph_encodable] u by metis
    then show ?thesis using cs g s(2) by (intro exI[of _ "of_nat n # cs"]) simp
  qed
qed

lemma glyph_count_accept:
  "glyph_count p 0 = Some k \<Longrightarrow> \<exists>cs. list_all glyph_scalar cs \<and> p = concat (map keymap_utf8 cs) \<and> k = length cs"
proof -
  assume g: "glyph_count p 0 = Some k"
  have "small (map unat p)" "p = map of_nat (map unat p)" by (rule small_unat) (simp add: o_def)
  then show ?thesis using glyph_count_rejects[of "map unat p" 0 k] g by (auto simp: list_all_iff)
qed

text \<open>A text is accepted exactly when it is the UTF-8 encoding of a sequence of Unicode scalar values with
  no ASCII control character, and then its length in characters is returned: truncated, overlong
  and surrogate encodings, stray bytes and values above U+10FFFF are all refused.\<close>

theorem glyph_count_exact:
  "glyph_count p 0 = Some k \<longleftrightarrow> (\<exists>cs. list_all glyph_scalar cs \<and> p = concat (map keymap_utf8 cs) \<and> k = length cs)"
proof
  assume "glyph_count p 0 = Some k"
  then show "\<exists>cs. list_all glyph_scalar cs \<and> p = concat (map keymap_utf8 cs) \<and> k = length cs" by (rule glyph_count_accept)
next
  assume "\<exists>cs. list_all glyph_scalar cs \<and> p = concat (map keymap_utf8 cs) \<and> k = length cs"
  then show "glyph_count p 0 = Some k" using glyph_count_accepts[of _ 0] by (auto simp: list_all_iff)
qed

end
