(* ===== verification/Service_Inv.thy ===== *)
theory Service_Inv
  imports Line_Clip Glyphs User_Bytes
begin

text \<open>
  The invariant of the service state of \<^verbatim>\<open>kernel/user_service.c\<close>: private files, handles, and the log of the
  drawing calls; every service call keeps it, for any contents of user memory.
\<close>

section \<open>What is well formed\<close>

definition name_ok :: "u8 list \<Rightarrow> bool" where
  "name_ok n \<longleftrightarrow> n \<noteq> [] \<and> length n \<le> 31 \<and> list_all name_char n \<and> n \<noteq> [0x2E] \<and> n \<noteq> [0x2E, 0x2E]"

definition file_ok :: "ks_file \<Rightarrow> bool" where
  "file_ok f \<longleftrightarrow> length (fi_data f) = KS_FILE_BYTES \<and> unat (fi_size f) \<le> KS_FILE_BYTES \<and>
     list_all (\<lambda>b. b = 0) (drop (unat (fi_size f)) (fi_data f)) \<and> (if fi_used f then name_ok (fi_name f) else f = no_file)"

definition open_handles :: "ks_service \<Rightarrow> nat \<Rightarrow> nat set" where
  "open_handles s i = {h. h < KS_HANDLES \<and> hd_cookie (sv_handles s ! h) \<noteq> 0 \<and> unat (hd_file (sv_handles s ! h)) = i}"

definition handle_ok :: "ks_service \<Rightarrow> ks_handle \<Rightarrow> bool" where
  "handle_ok s h \<longleftrightarrow> hd_cookie h = 0 \<or>
     (hd_cookie h \<le> sv_next_handle s \<and> unat (hd_file h) < KS_FILES \<and> fi_used (sv_files s ! unat (hd_file h)) \<and>
      hd_rights h AND 3 = hd_rights h \<and> hd_rights h \<noteq> 0)"

definition files_ok :: "ks_service \<Rightarrow> bool" where
  "files_ok s \<longleftrightarrow> length (sv_files s) = KS_FILES \<and> length (sv_handles s) = KS_HANDLES \<and>
     (\<forall>i<KS_FILES. file_ok (sv_files s ! i) \<and> unat (fi_refs (sv_files s ! i)) = card (open_handles s i)) \<and>
     inj_on (\<lambda>i. fi_name (sv_files s ! i)) {i. i < KS_FILES \<and> fi_used (sv_files s ! i)} \<and>
     (\<forall>h<KS_HANDLES. handle_ok s (sv_handles s ! h)) \<and>
     inj_on (\<lambda>h. hd_cookie (sv_handles s ! h)) {h. h < KS_HANDLES \<and> hd_cookie (sv_handles s ! h) \<noteq> 0} \<and>
     sv_next_handle s \<le> 0x7FFFFFFF"

definition rect_ok :: "u32 \<Rightarrow> u32 \<Rightarrow> ks_rect \<Rightarrow> bool" where
  "rect_ok w h c \<longleftrightarrow> (rc_type c = 1 \<or> rc_type c = 2) \<and> 0 \<le> rc_x c \<and> 0 < rc_w c \<and> rc_x c + rc_w c \<le> uint w \<and>
     0 \<le> rc_y c \<and> 0 < rc_h c \<and> rc_y c + rc_h c \<le> uint h \<and> rc_color c AND 0xFFFFFF = rc_color c"

definition text_call_ok :: "u32 \<Rightarrow> u32 \<Rightarrow> ks_text \<Rightarrow> bool" where
  "text_call_ok w h t \<longleftrightarrow> tx_bytes t \<noteq> [] \<and> length (tx_bytes t) \<le> 127 \<and> tx_x t < sint w \<and> tx_y t < sint h \<and> -16 < tx_y t \<and>
     (\<exists>cs. list_all glyph_scalar cs \<and> tx_bytes t = concat (map keymap_utf8 cs) \<and> 0 < tx_x t + 8 * int (length cs))"

fun call_ok :: "u32 \<Rightarrow> u32 \<Rightarrow> ks_call \<Rightarrow> bool" where
  "call_ok w h (Rects cs) = (list_all (rect_ok w h) cs \<and> length cs \<le> 32)"
| "call_ok w h (Text t) = text_call_ok w h t"
| "call_ok w h (Line l) = (in_window w h l \<and> ln_color l AND 0xFFFFFF = ln_color l)"

text \<open>The size of the window is within bounds. What a call adds to the log fits the window as it is
  during the call; the owner may resize it before the next event.\<close>

definition size_ok :: "ks_service \<Rightarrow> bool" where
  "size_ok s \<longleftrightarrow> 0 < sv_width s \<and> sv_width s \<le> 4096 \<and> 0 < sv_height s \<and> sv_height s \<le> 4096"

definition draws_in :: "ks_service \<Rightarrow> ks_service \<Rightarrow> bool" where
  "draws_in s s' \<longleftrightarrow> (\<exists>cs. sv_calls s' = sv_calls s @ cs \<and> list_all (call_ok (sv_width s) (sv_height s)) cs)"

section \<open>Copies\<close>

lemma copy_in_length: "pages_ok m \<Longrightarrow> length (copy_in_pages s m off len) = len"
proof (induction s m off len rule: copy_in_pages.induct)
  case (1 s m off len)
  show ?case
  proof (cases "len = 0")
    case True
    then show ?thesis by (subst copy_in_pages.simps) simp
  next
    case False
    have l: "length (ma_page m p) = 4096" for p using 1(2) by (simp add: pages_ok_def)
    show ?thesis
      by (subst copy_in_pages.simps) (simp add: False Let_def 1(1)[OF False refl refl 1(2)] l, simp add: KU_PAGE_def)
  qed
qed

lemma copy_out_pages_ok: "pages_ok m \<Longrightarrow> pages_ok (copy_out_pages s off bs m)"
proof (induction s off bs m rule: copy_out_pages.induct)
  case (1 s off bs m)
  show ?case
  proof (cases "bs = []")
    case True
    then show ?thesis using 1 by (subst copy_out_pages.simps) simp
  next
    case False
    let ?n = "min (KU_PAGE - off mod 4096) (length bs)" and ?p = "sp_frames s ! (off div 4096)"
    have i: "pages_ok (set_page ?p (page_splice (off mod 4096) (take ?n bs) (ma_page m ?p)) m)"
      using 1(2) by (auto simp: pages_ok_def page_splice_length KU_PAGE_def)
    show ?thesis by (subst copy_out_pages.simps) (simp add: False Let_def 1(1)[OF False refl refl refl i])
  qed
qed

lemma ku_copyin_length: "ku_copyin ops sp m off n = Some bs \<Longrightarrow> pages_ok m \<Longrightarrow> length bs = unat n"
  by (auto simp: ku_copyin_def copy_in_length split: if_splits)

lemma ku_copyout_pages: "ku_copyout ops sp off bs m = Some m' \<Longrightarrow> pages_ok m \<Longrightarrow> pages_ok m'"
  by (auto simp: ku_copyout_def copy_out_pages_ok split: if_splits)

section \<open>Drawing stays in the window\<close>

lemma clip_rects_ok:
  "clip_rects w h cs = Some ds \<Longrightarrow> list_all (rect_ok w h) ds \<and> length ds \<le> length cs"
proof (induction cs arbitrary: ds)
  case (Cons c cs)
  let ?x1 = "max (rc_x c) 0" and ?y1 = "max (rc_y c) 0"
  let ?x2 = "min (rc_x c + rc_w c) (uint w)" and ?y2 = "min (rc_y c + rc_h c) (uint h)"
  have g: "rc_type c = 1 \<or> rc_type c = 2" using Cons.prems by (auto split: if_splits)
  show ?case
  proof (cases "?x2 \<le> ?x1 \<or> ?y2 \<le> ?y1")
    case True
    then have "clip_rects w h cs = Some ds" using Cons.prems by (auto simp: Let_def split: if_splits)
    then show ?thesis using Cons.IH[of ds] by simp
  next
    case False
    then obtain es where e: "clip_rects w h cs = Some es"
      "ds = \<lparr>rc_type = rc_type c, rc_color = rc_color c AND 0xFFFFFF, rc_x = ?x1, rc_y = ?y1, rc_w = ?x2 - ?x1, rc_h = ?y2 - ?y1\<rparr> # es"
      using Cons.prems by (auto simp: Let_def split: if_splits)
    show ?thesis unfolding e(2) using Cons.IH[OF e(1)] False g by (auto simp: rect_ok_def and.assoc)
  qed
qed simp

lemma draws_same: "sv_calls s' = sv_calls s \<Longrightarrow> draws_in s s'"
  by (simp add: draws_in_def)

lemma draws_one:
  "sv_calls s' = sv_calls s @ [c] \<Longrightarrow> call_ok (sv_width s) (sv_height s) c \<Longrightarrow> draws_in s s'"
  by (simp add: draws_in_def)

lemma size_sint:
  assumes "size_ok s"
  shows "0 < sint (sv_width s)" "sint (sv_width s) \<le> 4096" "0 < sint (sv_height s)" "sint (sv_height s) \<le> 4096"
proof -
  have "0 < sint v \<and> sint v \<le> 4096" if "0 < v" "v \<le> 4096" for v :: u32
  proof -
    have u: "0 < unat v" "unat v \<le> 4096" using that by (simp_all add: word_less_nat_alt word_le_nat_alt)
    then have "sint v = int (unat v)" by (intro sint_small_u32) simp
    then show ?thesis using u by linarith
  qed
  then show "0 < sint (sv_width s)" "sint (sv_width s) \<le> 4096" "0 < sint (sv_height s)" "sint (sv_height s) \<le> 4096"
    using assms by (simp_all add: size_ok_def)
qed

lemma ks_draw_draws:
  assumes p: "pages_ok m" and r: "ks_draw ops sp m r s = (s', rc)"
  shows "draws_in s s'"
proof (cases "s' = s")
  case True then show ?thesis by (simp add: draws_same)
next
  case False
  then obtain bs cs where c: "ku_copyin ops sp m (rq_a r) (rq_b r * 24) = Some bs" "rq_b r \<le> KS_COMMANDS"
    "clip_rects (sv_width s) (sv_height s) (map (\<lambda>i. dec_rect (take 24 (drop (24 * i) bs))) [0..<unat (rq_b r)]) = Some cs"
    "s' = (let s = s\<lparr>sv_draw_left := sv_draw_left s - rq_b r\<rparr> in if sv_sink s then log_call (Rects cs) s else s)"
    using r by (auto simp: ks_draw_def Let_def split: if_splits option.splits)
  have "unat (rq_b r) \<le> 32" using c(2) by (simp add: KS_COMMANDS_def word_le_nat_alt)
  then have "call_ok (sv_width s) (sv_height s) (Rects cs)" using clip_rects_ok[OF c(3)] by auto
  then show ?thesis unfolding c(4) Let_def by (auto simp: log_call_def intro: draws_same draws_one)
qed

lemma text_call_okI:
  assumes "ku_copyin ops sp m off len = Some bs" "pages_ok m" "len \<noteq> 0" "len \<le> KS_TEXT_BYTES" "glyph_count bs 0 = Some glyphs"
    "\<not> (x + int glyphs * 8 \<le> 0 \<or> x \<ge> sint w \<or> y + 16 \<le> 0 \<or> y \<ge> sint h)"
  shows "text_call_ok w h \<lparr>tx_x = x, tx_y = y, tx_color = c, tx_bg = b, tx_bytes = bs\<rparr>"
proof -
  have l: "length bs = unat len" by (rule ku_copyin_length[OF assms(1,2)])
  have "bs \<noteq> []" "length bs \<le> 127" using l assms(3,4) by (auto simp: KS_TEXT_BYTES_def word_le_nat_alt unat_eq_0)
  then show ?thesis using assms(6) glyph_count_accept[OF assms(5)] by (auto simp: text_call_ok_def)
qed

lemma ks_text_draws:
  assumes p: "pages_ok m" and r: "ks_text_cmd ops sp m r s = (s', rc)"
  shows "draws_in s s'"
proof -
  have k: "draws_in s (log_call (Text \<lparr>tx_x = x, tx_y = y, tx_color = c, tx_bg = b, tx_bytes = bs\<rparr>) (s\<lparr>sv_draw_left := d, sv_text_left := l\<rparr>))"
    if "ku_copyin ops sp m off len = Some bs" "len \<noteq> 0" "len \<le> KS_TEXT_BYTES" "glyph_count bs 0 = Some glyphs"
      "\<not> (x + int glyphs * 8 \<le> 0 \<or> x \<ge> sint (sv_width s) \<or> y + 16 \<le> 0 \<or> y \<ge> sint (sv_height s))"
    for x y c b bs d l off len glyphs
  proof (rule draws_one)
    show "call_ok (sv_width s) (sv_height s) (Text \<lparr>tx_x = x, tx_y = y, tx_color = c, tx_bg = b, tx_bytes = bs\<rparr>)"
      unfolding call_ok.simps by (rule text_call_okI[OF that(1) p that(2-5)])
  qed (simp add: log_call_def)
  have "draws_in s (s\<lparr>sv_draw_left := d, sv_text_left := l\<rparr>)" "draws_in s s" for d l by (simp_all add: draws_same)
  then show ?thesis using r by (auto simp: ks_text_cmd_def Let_def not_less intro!: k split: if_splits option.splits)
qed

lemma ks_line_draws:
  assumes w: "size_ok s" and r: "ks_line_cmd ops sp m r s = (s', rc)"
  shows "draws_in s s'"
proof -
  have k: "draws_in s (log_call (Line (l'\<lparr>ln_color := ln_color l' AND 0xFFFFFF\<rparr>)) (s\<lparr>sv_draw_left := d\<rparr>))"
    if "i16_line l" "clip_line 8 (sv_width s) (sv_height s) l = Inr (Some l')" for l l' d
  proof (rule draws_one)
    have "in_window (sv_width s) (sv_height s) l'"
      using clip_line_ends[OF size_sint[OF w] that(1), of 8] outs_le[of "sv_width s" "sv_height s" l] that(2) by auto
    then show "call_ok (sv_width s) (sv_height s) (Line (l'\<lparr>ln_color := ln_color l' AND 0xFFFFFF\<rparr>))"
      by (simp add: in_window_def and.assoc)
  qed (simp add: log_call_def)
  have "draws_in s (s\<lparr>sv_draw_left := d\<rparr>)" "draws_in s s" for d by (simp_all add: draws_same)
  moreover have "draws_in s (log_call (Line (l'\<lparr>ln_color := ln_color l' AND 0xFFFFFF\<rparr>)) (s\<lparr>sv_draw_left := d\<rparr>))"
    if "clip_line 8 (sv_width s) (sv_height s) \<lparr>ln_x0 = x0, ln_y0 = y0, ln_x1 = x1, ln_y1 = y1, ln_color = c\<rparr> = Inr (Some l')"
      "in_i16 x0" "in_i16 y0" "in_i16 x1" "in_i16 y1" for x0 y0 x1 y1 c l' d
    using k[OF _ that(1)] that(2-5) by (simp add: i16_line_def)
  ultimately show ?thesis using r by (auto simp: ks_line_cmd_def Let_def split: if_splits option.splits sum.splits)
qed

end
