(* ===== verification/Service_Files.thy ===== *)
theory Service_Files
  imports Service_Inv
begin

text \<open>
  The file calls of \<^verbatim>\<open>kernel/user_service.c\<close> keep the files, the handles and the reference counts
  consistent.
\<close>

lemma open_handles_finite: "finite (open_handles s i)"
  by (rule finite_subset[of _ "{..<KS_HANDLES}"]) (auto simp: open_handles_def)

lemma open_handles_card: "card (open_handles s i) \<le> 8"
proof -
  have "card (open_handles s i) \<le> card {..<KS_HANDLES}" by (rule card_mono) (auto simp: open_handles_def)
  then show ?thesis by (simp add: KS_HANDLES_def)
qed

lemma files_ok_len: "files_ok s \<Longrightarrow> length (sv_files s) = KS_FILES" "files_ok s \<Longrightarrow> length (sv_handles s) = KS_HANDLES"
  by (simp_all add: files_ok_def)

lemma files_ok_file: "files_ok s \<Longrightarrow> i < KS_FILES \<Longrightarrow> file_ok (sv_files s ! i)"
  by (simp add: files_ok_def)

lemma files_ok_refs: "files_ok s \<Longrightarrow> i < KS_FILES \<Longrightarrow> unat (fi_refs (sv_files s ! i)) = card (open_handles s i)"
  by (simp add: files_ok_def)

lemma files_ok_handle: "files_ok s \<Longrightarrow> h < KS_HANDLES \<Longrightarrow> handle_ok s (sv_handles s ! h)"
  by (simp add: files_ok_def)

lemma files_ok_name:
  "files_ok s \<Longrightarrow> i < KS_FILES \<Longrightarrow> j < KS_FILES \<Longrightarrow> fi_used (sv_files s ! i) \<Longrightarrow> fi_used (sv_files s ! j) \<Longrightarrow>
     fi_name (sv_files s ! i) = fi_name (sv_files s ! j) \<Longrightarrow> i = j"
  by (auto simp: files_ok_def dest: inj_onD)

lemma files_ok_cookie:
  "files_ok s \<Longrightarrow> h < KS_HANDLES \<Longrightarrow> k < KS_HANDLES \<Longrightarrow> hd_cookie (sv_handles s ! h) \<noteq> 0 \<Longrightarrow>
     hd_cookie (sv_handles s ! h) = hd_cookie (sv_handles s ! k) \<Longrightarrow> h = k"
  by (auto simp: files_ok_def dest: inj_onD)

lemma files_okI:
  assumes "length (sv_files s) = KS_FILES" "length (sv_handles s) = KS_HANDLES"
    and "\<And>i. i < KS_FILES \<Longrightarrow> file_ok (sv_files s ! i)"
    and "\<And>i. i < KS_FILES \<Longrightarrow> unat (fi_refs (sv_files s ! i)) = card (open_handles s i)"
    and "\<And>i j. i < KS_FILES \<Longrightarrow> j < KS_FILES \<Longrightarrow> fi_used (sv_files s ! i) \<Longrightarrow> fi_used (sv_files s ! j) \<Longrightarrow>
      fi_name (sv_files s ! i) = fi_name (sv_files s ! j) \<Longrightarrow> i = j"
    and "\<And>h. h < KS_HANDLES \<Longrightarrow> handle_ok s (sv_handles s ! h)"
    and "\<And>h k. h < KS_HANDLES \<Longrightarrow> k < KS_HANDLES \<Longrightarrow> hd_cookie (sv_handles s ! h) \<noteq> 0 \<Longrightarrow>
      hd_cookie (sv_handles s ! h) = hd_cookie (sv_handles s ! k) \<Longrightarrow> h = k"
    and "sv_next_handle s \<le> 0x7FFFFFFF"
  shows "files_ok s"
  unfolding files_ok_def inj_on_def mem_Collect_eq using assms by blast

lemma files_ok_cong:
  "files_ok s \<Longrightarrow> sv_files s' = sv_files s \<Longrightarrow> sv_handles s' = sv_handles s \<Longrightarrow> sv_next_handle s' = sv_next_handle s \<Longrightarrow> files_ok s'"
  by (simp add: files_ok_def handle_ok_def open_handles_def)

section \<open>Searches\<close>

lemma find_upt:
  "find P [0..<n] = Some i \<Longrightarrow> i < n \<and> P i"
  "find P [0..<n] = None \<Longrightarrow> i < n \<Longrightarrow> \<not> P i"
  by (auto simp: find_Some_iff find_None_iff)

lemma ks_filename_ok: "ks_filename ops sp m off n = Inr name \<Longrightarrow> pages_ok m \<Longrightarrow> name_ok name"
proof -
  assume r: "ks_filename ops sp m off n = Inr name" and p: "pages_ok m"
  obtain bs where b: "ku_copyin ops sp m off n = Some bs" "\<not> (n < 2 \<or> n > 32)" "last bs = 0"
    "takeWhile (\<lambda>b. b \<noteq> 0) bs \<noteq> [0x2E]" "takeWhile (\<lambda>b. b \<noteq> 0) bs \<noteq> [0x2E, 0x2E]" "list_all name_char (butlast bs)" "name = butlast bs"
    using r by (auto simp: ks_filename_def Let_def split: if_splits option.splits)
  have l: "2 \<le> length bs" "length bs \<le> 32"
    using ku_copyin_length[OF b(1) p] b(2) by (simp_all add: word_less_nat_alt)
  have "bs \<noteq> []" using l by auto
  then have e: "bs = name @ [0]" using append_butlast_last_id[of bs] unfolding b(3,7) by simp
  have nz: "c \<noteq> 0" if "c \<in> set name" for c using b(6) that by (auto simp: b(7) list_all_iff name_char_def)
  have "takeWhile (\<lambda>b. b \<noteq> 0) bs = name" unfolding e using nz by (subst takeWhile_append2) auto
  then show ?thesis using b(4-6) l e unfolding name_ok_def b(7)[symmetric] by auto
qed

lemma ks_node_Some: "ks_node s name = Some i \<Longrightarrow> i < KS_FILES \<and> fi_used (sv_files s ! i) \<and> fi_name (sv_files s ! i) = name"
  by (auto simp: ks_node_def dest: find_upt)

lemma ks_node_None: "ks_node s name = None \<Longrightarrow> i < KS_FILES \<Longrightarrow> fi_used (sv_files s ! i) \<Longrightarrow> fi_name (sv_files s ! i) \<noteq> name"
  by (auto simp: ks_node_def dest: find_upt(2)[where i = i])

lemma ks_lookup_Inr:
  "ks_lookup s cookie rights = Inr h \<Longrightarrow>
     h < KS_HANDLES \<and> cookie \<noteq> 0 \<and> hd_cookie (sv_handles s ! h) = cookie \<and> hd_rights (sv_handles s ! h) AND rights = rights"
  by (auto simp: ks_lookup_def dest: find_upt split: option.splits if_splits)

lemma ks_lookup_handle:
  assumes "files_ok s" "ks_lookup s cookie rights = Inr h"
  shows "unat (hd_file (sv_handles s ! h)) < KS_FILES" "fi_used (sv_files s ! unat (hd_file (sv_handles s ! h)))"
    "h \<in> open_handles s (unat (hd_file (sv_handles s ! h)))"
  using files_ok_handle[OF assms(1), of h] ks_lookup_Inr[OF assms(2)] by (auto simp: handle_ok_def open_handles_def)

section \<open>Changing one file, changing one handle\<close>

lemma files_ok_set_file:
  assumes s: "files_ok s" and i: "i < KS_FILES" and f: "file_ok f" "fi_refs f = fi_refs (sv_files s ! i)"
    and u: "fi_used f \<or> open_handles s i = {}"
    and n: "\<And>j. fi_used f \<Longrightarrow> j < KS_FILES \<Longrightarrow> j \<noteq> i \<Longrightarrow> fi_used (sv_files s ! j) \<Longrightarrow> fi_name (sv_files s ! j) \<noteq> fi_name f"
  shows "files_ok (set_file i f s)"
proof -
  let ?s = "set_file i f s"
  have nth: "j < KS_FILES \<Longrightarrow> sv_files ?s ! j = (if j = i then f else sv_files s ! j)" for j
    using files_ok_len(1)[OF s] by (simp add: set_file_def nth_list_update)
  have oh: "open_handles ?s j = open_handles s j" and hs: "sv_handles ?s = sv_handles s" "sv_next_handle ?s = sv_next_handle s" for j
    by (simp_all add: set_file_def open_handles_def)
  have h: "handle_ok ?s (sv_handles s ! h)" if "h < KS_HANDLES" for h
    using files_ok_handle[OF s that] u that nth unfolding handle_ok_def hs by (auto simp: open_handles_def)
  show ?thesis
  proof (rule files_okI)
    show "length (sv_files ?s) = KS_FILES" using files_ok_len(1)[OF s] by (simp add: set_file_def)
    show "unat (fi_refs (sv_files ?s ! j)) = card (open_handles ?s j)" if "j < KS_FILES" for j
      using files_ok_refs[OF s that] f(2) unfolding nth[OF that] oh by auto
    show "j = k" if "j < KS_FILES" "k < KS_FILES" "fi_used (sv_files ?s ! j)" "fi_used (sv_files ?s ! k)"
      "fi_name (sv_files ?s ! j) = fi_name (sv_files ?s ! k)" for j k
      using that(3-5) files_ok_name[OF s that(1,2)] n[OF _ that(1)] n[OF _ that(2)] unfolding nth[OF that(1)] nth[OF that(2)]
      by (metis (full_types))
    show "h = k" if "h < KS_HANDLES" "k < KS_HANDLES" "hd_cookie (sv_handles ?s ! h) \<noteq> 0"
      "hd_cookie (sv_handles ?s ! h) = hd_cookie (sv_handles ?s ! k)" for h k
      using files_ok_cookie[OF s that(1,2)] that(3,4) by (simp add: hs)
    show "sv_next_handle ?s \<le> 0x7FFFFFFF" using s by (simp add: hs files_ok_def)
  qed (use s f(1) h nth files_ok_file[OF s] in \<open>simp_all add: hs files_ok_len\<close>)
qed

lemma next_cookie:
  assumes "n \<noteq> 0x7FFFFFFF" "n \<le> (0x7FFFFFFF :: u32)"
  shows "n < n + 1" "n + 1 \<le> 0x7FFFFFFF" "n + 1 \<noteq> 0"
proof -
  have "unat n \<noteq> 0x7FFFFFFF" using assms(1) by (auto simp: word_unat_eq_iff)
  moreover have "unat n \<le> 0x7FFFFFFF" using assms(2) by (simp add: word_le_nat_alt)
  ultimately have u: "unat n < 0x7FFFFFFF" by simp
  then have "unat (n + 1) = unat n + 1" by (subst unat_add_u32) simp_all
  then show "n < n + 1" "n + 1 \<le> 0x7FFFFFFF" "n + 1 \<noteq> 0" using u by (auto simp: word_less_nat_alt word_le_nat_alt word_unat_eq_iff)
qed

lemma files_ok_open:
  assumes s: "files_ok s" and h: "h < KS_HANDLES" "hd_cookie (sv_handles s ! h) = 0" and i: "i < KS_FILES"
    and c: "sv_next_handle s \<noteq> 0x7FFFFFFF" and r: "r AND 3 = r" "r \<noteq> 0"
    and f: "file_ok f" "fi_used f" "fi_refs f = fi_refs (sv_files s ! i) + 1"
    and n: "\<And>j. j < KS_FILES \<Longrightarrow> j \<noteq> i \<Longrightarrow> fi_used (sv_files s ! j) \<Longrightarrow> fi_name (sv_files s ! j) \<noteq> fi_name f"
    and s': "s' = (set_handle h \<lparr>hd_cookie = sv_next_handle s + 1, hd_file = of_nat i, hd_rights = r\<rparr> (set_file i f s))
      \<lparr>sv_next_handle := sv_next_handle s + 1\<rparr>"
  shows "files_ok s'"
proof -
  have le: "sv_next_handle s \<le> 0x7FFFFFFF" using s by (simp add: files_ok_def)
  note nc = next_cookie[OF c le]
  let ?c = "sv_next_handle s + 1"
  have iu: "unat (of_nat i :: u32) = i" using i by (intro unat_of_nat_u32) (simp add: KS_FILES_def)
  have nf: "j < KS_FILES \<Longrightarrow> sv_files s' ! j = (if j = i then f else sv_files s ! j)" for j
    using files_ok_len(1)[OF s] by (simp add: s' set_file_def set_handle_def nth_list_update)
  have nh: "k < KS_HANDLES \<Longrightarrow> sv_handles s' ! k =
      (if k = h then \<lparr>hd_cookie = ?c, hd_file = of_nat i, hd_rights = r\<rparr> else sv_handles s ! k)" for k
    using files_ok_len(2)[OF s] by (simp add: s' set_file_def set_handle_def nth_list_update)
  have nx: "sv_next_handle s' = ?c" by (simp add: s')
  have old: "hd_cookie (sv_handles s ! k) \<noteq> ?c" if "k < KS_HANDLES" for k
    using files_ok_handle[OF s that] nc unfolding handle_ok_def by auto
  have oh: "open_handles s' j = (if j = i then insert h (open_handles s j) else open_handles s j)" for j
    unfolding open_handles_def using h nh nc(3) iu by (auto split: if_splits)
  have hi: "h \<notin> open_handles s i" using h by (simp add: open_handles_def)
  have b: "card (open_handles s i) \<le> 8" by (rule open_handles_card)
  show ?thesis
  proof (rule files_okI)
    show "length (sv_files s') = KS_FILES" "length (sv_handles s') = KS_HANDLES"
      using files_ok_len[OF s] by (simp_all add: s' set_file_def set_handle_def)
    show "file_ok (sv_files s' ! j)" if "j < KS_FILES" for j using files_ok_file[OF s that] f nf[OF that] by simp
    show "unat (fi_refs (sv_files s' ! j)) = card (open_handles s' j)" if "j < KS_FILES" for j
      using files_ok_refs[OF s that] f(3) hi b open_handles_finite[of s j] unat_add_u32[of "fi_refs (sv_files s ! i)" 1]
      unfolding nf[OF that] oh by auto
    show "j = k" if "j < KS_FILES" "k < KS_FILES" "fi_used (sv_files s' ! j)" "fi_used (sv_files s' ! k)"
      "fi_name (sv_files s' ! j) = fi_name (sv_files s' ! k)" for j k
      using that(3-5) files_ok_name[OF s that(1,2)] n[OF that(1)] n[OF that(2)] unfolding nf[OF that(1)] nf[OF that(2)]
      by (metis (full_types))
    show "handle_ok s' (sv_handles s' ! k)" if "k < KS_HANDLES" for k
      using files_ok_handle[OF s that] nf nc i r f iu unfolding nh[OF that] handle_ok_def nx by auto
    show "k = l" if "k < KS_HANDLES" "l < KS_HANDLES" "hd_cookie (sv_handles s' ! k) \<noteq> 0"
      "hd_cookie (sv_handles s' ! k) = hd_cookie (sv_handles s' ! l)" for k l
      using that(3,4) files_ok_cookie[OF s that(1,2)] old[OF that(1)] old[OF that(2)] unfolding nh[OF that(1)] nh[OF that(2)]
      by (auto split: if_splits)
    show "sv_next_handle s' \<le> 0x7FFFFFFF" using nc(2) nx by simp
  qed
qed

lemma files_ok_close:
  assumes s: "files_ok s" and h: "h \<in> open_handles s i" and i: "i < KS_FILES" "fi_used (sv_files s ! i)"
    and s': "s' = set_handle h no_handle (set_file i ((sv_files s ! i)\<lparr>fi_refs := fi_refs (sv_files s ! i) - 1\<rparr>) s)"
  shows "files_ok s'"
proof -
  have hk: "h < KS_HANDLES" using h by (simp add: open_handles_def)
  have nf: "j < KS_FILES \<Longrightarrow> sv_files s' ! j =
      (if j = i then (sv_files s ! i)\<lparr>fi_refs := fi_refs (sv_files s ! i) - 1\<rparr> else sv_files s ! j)" for j
    using files_ok_len(1)[OF s] by (simp add: s' set_file_def set_handle_def nth_list_update)
  have nh: "k < KS_HANDLES \<Longrightarrow> sv_handles s' ! k = (if k = h then no_handle else sv_handles s ! k)" for k
    using files_ok_len(2)[OF s] by (simp add: s' set_file_def set_handle_def nth_list_update)
  have nx: "sv_next_handle s' = sv_next_handle s" by (simp add: s' set_file_def set_handle_def)
  have oh: "open_handles s' j = (if j = i then open_handles s j - {h} else open_handles s j)" for j
    unfolding open_handles_def using h nh by (auto simp: no_handle_def open_handles_def split: if_splits)
  have fin: "finite (open_handles s i)" by (rule open_handles_finite)
  have pos: "card (open_handles s i) \<noteq> 0" using h fin by auto
  have r: "unat (fi_refs (sv_files s ! i) - 1) = card (open_handles s i) - 1"
    using files_ok_refs[OF s i(1)] pos unat_sub_u32[of 1 "fi_refs (sv_files s ! i)"] by (simp add: word_le_nat_alt)
  have same: "fi_used (sv_files s' ! j) = fi_used (sv_files s ! j)" "fi_name (sv_files s' ! j) = fi_name (sv_files s ! j)"
    if "j < KS_FILES" for j using nf[OF that] by simp_all
  show ?thesis
  proof (rule files_okI)
    show "length (sv_files s') = KS_FILES" "length (sv_handles s') = KS_HANDLES"
      using files_ok_len[OF s] by (simp_all add: s' set_file_def set_handle_def)
    show "file_ok (sv_files s' ! j)" if "j < KS_FILES" for j
      using files_ok_file[OF s that] i nf[OF that] by (auto simp: file_ok_def)
    show "unat (fi_refs (sv_files s' ! j)) = card (open_handles s' j)" if "j < KS_FILES" for j
      using files_ok_refs[OF s that] r h fin unfolding nf[OF that] oh by auto
    show "j = k" if "j < KS_FILES" "k < KS_FILES" "fi_used (sv_files s' ! j)" "fi_used (sv_files s' ! k)"
      "fi_name (sv_files s' ! j) = fi_name (sv_files s' ! k)" for j k
      using that(3-5) files_ok_name[OF s that(1,2)] by (simp add: same that(1,2))
    show "handle_ok s' (sv_handles s' ! k)" if "k < KS_HANDLES" for k
      using files_ok_handle[OF s that] same unfolding nh[OF that] handle_ok_def nx by (auto simp: no_handle_def)
    show "k = l" if "k < KS_HANDLES" "l < KS_HANDLES" "hd_cookie (sv_handles s' ! k) \<noteq> 0"
      "hd_cookie (sv_handles s' ! k) = hd_cookie (sv_handles s' ! l)" for k l
      using that(3,4) files_ok_cookie[OF s that(1,2)] unfolding nh[OF that(1)] nh[OF that(2)]
      by (auto simp: no_handle_def split: if_splits)
    show "sv_next_handle s' \<le> 0x7FFFFFFF" using s nx by (simp add: files_ok_def)
  qed
qed

section \<open>The file calls\<close>

lemma opened_file_fresh:
  assumes "name_ok name"
  shows "file_ok (opened_file f True name flags)" "fi_used (opened_file f True name flags)"
    "fi_refs (opened_file f True name flags) = 1" "fi_name (opened_file f True name flags) = name"
  using assms by (simp_all add: opened_file_def no_file_def file_ok_def Let_def list_all_iff)

lemma opened_file_again:
  assumes "file_ok f" "fi_used f"
  shows "file_ok (opened_file f False name flags)" "fi_used (opened_file f False name flags)"
    "fi_refs (opened_file f False name flags) = fi_refs f + 1" "fi_name (opened_file f False name flags) = fi_name f"
  using assms by (simp_all add: opened_file_def file_ok_def Let_def list_all_iff)

text \<open>What a successful open has found: the place of the file and of the handle.\<close>

lemma open_file_cases:
  assumes "open_file ops sp m r s = (s', rc)" "s' \<noteq> s"
  obtains name i h where "ks_filename ops sp m (rq_a r) (rq_b r) = Inr name" "rq_c r AND 3 \<noteq> 0"
    "if ks_node s name = None then find (\<lambda>i. \<not> fi_used (sv_files s ! i)) [0..<KS_FILES] = Some i else ks_node s name = Some i"
    "h < KS_HANDLES" "hd_cookie (sv_handles s ! h) = 0" "sv_next_handle s \<noteq> 0x7FFFFFFF"
    "s' = (set_handle h \<lparr>hd_cookie = sv_next_handle s + 1, hd_file = of_nat i, hd_rights = rq_c r AND 3\<rparr>
       (set_file i (opened_file (sv_files s ! i) (ks_node s name = None) name (rq_c r)) s))\<lparr>sv_next_handle := sv_next_handle s + 1\<rparr>"
    "rc = sint (sv_next_handle s + 1)"
  using assms unfolding open_file_def Let_def
  by (auto split: sum.splits if_split_asm option.splits dest: find_upt)

lemma open_file_files:
  assumes s: "files_ok s" and p: "pages_ok m" and r: "open_file ops sp m r s = (s', rc)"
  shows "files_ok s'"
proof (cases "s' = s")
  case False
  from r False obtain name i h where o: "ks_filename ops sp m (rq_a r) (rq_b r) = Inr name" "rq_c r AND 3 \<noteq> 0"
    "if ks_node s name = None then find (\<lambda>i. \<not> fi_used (sv_files s ! i)) [0..<KS_FILES] = Some i else ks_node s name = Some i"
    "h < KS_HANDLES" "hd_cookie (sv_handles s ! h) = 0" "sv_next_handle s \<noteq> 0x7FFFFFFF"
    "s' = (set_handle h \<lparr>hd_cookie = sv_next_handle s + 1, hd_file = of_nat i, hd_rights = rq_c r AND 3\<rparr>
       (set_file i (opened_file (sv_files s ! i) (ks_node s name = None) name (rq_c r)) s))\<lparr>sv_next_handle := sv_next_handle s + 1\<rparr>"
    "rc = sint (sv_next_handle s + 1)"
    by (rule open_file_cases)
  have nm: "name_ok name" by (rule ks_filename_ok[OF o(1) p])
  show ?thesis
  proof (cases "ks_node s name")
    case None
    then have i: "i < KS_FILES" "\<not> fi_used (sv_files s ! i)" using o(3) by (auto dest: find_upt)
    then have "sv_files s ! i = no_file" using files_ok_file[OF s i(1)] by (simp add: file_ok_def)
    then have z: "fi_refs (sv_files s ! i) + 1 = 1" by (simp add: no_file_def)
    show ?thesis
    proof (rule files_ok_open[OF s o(4,5) i(1) o(6) _ o(2) _ _ _ _ o(7)])
      show "fi_name (sv_files s ! j) \<noteq> fi_name (opened_file (sv_files s ! i) (ks_node s name = None) name (rq_c r))"
        if "j < KS_FILES" "j \<noteq> i" "fi_used (sv_files s ! j)" for j
        using ks_node_None[OF None that(1,3)] opened_file_fresh(4)[OF nm] by (simp add: None)
    qed (use opened_file_fresh[OF nm] z in \<open>simp_all add: None and.assoc\<close>)
  next
    case (Some k)
    then have i: "i < KS_FILES" "fi_used (sv_files s ! i)" "fi_name (sv_files s ! i) = name"
      using o(3) ks_node_Some[of s name i] by auto
    note g = opened_file_again[OF files_ok_file[OF s i(1)] i(2)]
    show ?thesis
    proof (rule files_ok_open[OF s o(4,5) i(1) o(6) _ o(2) _ _ _ _ o(7)])
      show "fi_name (sv_files s ! j) \<noteq> fi_name (opened_file (sv_files s ! i) (ks_node s name = None) name (rq_c r))"
        if "j < KS_FILES" "j \<noteq> i" "fi_used (sv_files s ! j)" for j
        using files_ok_name[OF s that(1) i(1) that(3) i(2)] that(2) g(4) by (auto simp: Some)
    qed (use g in \<open>simp_all add: Some and.assoc\<close>)
  qed
qed (use s in simp)

end
