(* ===== verification/Service_Ops.thy ===== *)
theory Service_Ops
  imports Service_Files
begin

text \<open>
  Every call of \<^verbatim>\<open>ks_dispatch\<close> in \<^verbatim>\<open>kernel/user_service.c\<close> keeps the file invariant and the window
  invariant; the service states that can be reached.
\<close>

section \<open>Reading and writing a file\<close>

lemma io_bounds:
  fixes d n :: u32
  assumes "\<not> (d > of_nat KS_FILE_BYTES \<or> n > of_nat KS_FILE_BYTES - d)"
  shows "unat d + unat n \<le> KS_FILE_BYTES" "unat (d + n) = unat d + unat n"
proof -
  have d: "d \<le> 1024" and n: "n \<le> 1024 - d" using assms by (simp_all add: KS_FILE_BYTES_def not_less)
  then have d: "d \<le> 1024" "unat d \<le> 1024" by (simp_all add: word_le_nat_alt)
  have "unat (1024 - d) = 1024 - unat d" using d by (subst unat_sub_u32) simp_all
  then show le: "unat d + unat n \<le> KS_FILE_BYTES" using n d by (simp add: KS_FILE_BYTES_def word_le_nat_alt)
  show "unat (d + n) = unat d + unat n" using le by (intro unat_add_u32) (simp add: KS_FILE_BYTES_def)
qed

definition written :: "u32 \<Rightarrow> u8 list \<Rightarrow> ks_file \<Rightarrow> ks_file" where
  "written d bs f = f\<lparr>fi_data := page_splice (unat d) bs (fi_data f),
     fi_size := (if d + of_nat (length bs) > fi_size f then d + of_nat (length bs) else fi_size f)\<rparr>"

lemma written_ok:
  assumes f: "file_ok f" "fi_used f" and b: "unat d + length bs \<le> KS_FILE_BYTES"
  shows "file_ok (written d bs f)" "fi_used (written d bs f)" "fi_name (written d bs f) = fi_name f" "fi_refs (written d bs f) = fi_refs f"
proof -
  let ?n = "unat d + length bs"
  have u: "unat (d + of_nat (length bs)) = ?n"
    using b by (subst unat_add_u32) (simp_all add: KS_FILE_BYTES_def unat_of_nat_u32)
  have sz: "unat (fi_size (written d bs f)) = max ?n (unat (fi_size f))"
    by (simp add: written_def word_less_nat_alt u max_def)
  have l: "length (fi_data f) = KS_FILE_BYTES" "unat (fi_size f) \<le> KS_FILE_BYTES"
    "list_all (\<lambda>b. b = 0) (drop (unat (fi_size f)) (fi_data f))" using f by (simp_all add: file_ok_def)
  have "drop (max ?n (unat (fi_size f))) (page_splice (unat d) bs (fi_data f)) = drop (max ?n (unat (fi_size f))) (fi_data f)"
    using l(1) b by (simp add: page_splice_def)
  moreover have "list_all (\<lambda>b. b = 0) (drop (max ?n (unat (fi_size f))) (fi_data f))"
  proof -
    have "drop (max ?n (unat (fi_size f))) (fi_data f) = drop (max ?n (unat (fi_size f)) - unat (fi_size f)) (drop (unat (fi_size f)) (fi_data f))"
      by simp
    then show ?thesis using l(3) by (metis list_all_iff in_set_dropD)
  qed
  ultimately show "file_ok (written d bs f)"
    using f l b unfolding file_ok_def sz by (simp add: written_def page_splice_length)
qed (use f in \<open>simp_all add: written_def\<close>)

lemma file_io_write:
  assumes "file_io ops sp r (s, m) = ((s', m'), rc)" "s' \<noteq> s" "pages_ok m"
  obtains h bs where "ks_lookup s (rq_a r) KS_OPEN_W = Inr h" "ku_copyin ops sp m (rq_b r) (rq_c r) = Some bs"
    "unat (rq_d r) + length bs \<le> KS_FILE_BYTES" "rq_op r \<noteq> KS_READ" "m' = m" "rc = sint (rq_c r)"
    "s' = set_file (unat (hd_file (sv_handles s ! h))) (written (rq_d r) bs (sv_files s ! unat (hd_file (sv_handles s ! h)))) s"
proof -
  let ?i = "\<lambda>h. unat (hd_file (sv_handles s ! h))"
  obtain h bs where w: "ks_lookup s (rq_a r) KS_OPEN_W = Inr h" "ku_copyin ops sp m (rq_b r) (rq_c r) = Some bs"
    "\<not> (rq_d r > of_nat KS_FILE_BYTES \<or> rq_c r > of_nat KS_FILE_BYTES - rq_d r)" "rq_op r \<noteq> KS_READ" "m' = m" "rc = sint (rq_c r)"
    "s' = set_file (?i h) ((sv_files s ! ?i h)\<lparr>fi_data := page_splice (unat (rq_d r)) bs (fi_data (sv_files s ! ?i h)),
       fi_size := (if rq_d r + rq_c r > fi_size (sv_files s ! ?i h) then rq_d r + rq_c r else fi_size (sv_files s ! ?i h))\<rparr>) s"
    using assms(1,2) unfolding file_io_def Let_def prod.case by (auto split: sum.splits if_split_asm option.splits)
  have l: "length bs = unat (rq_c r)" by (rule ku_copyin_length[OF w(2) assms(3)])
  have o: "of_nat (length bs) = rq_c r" unfolding l by simp
  show ?thesis
    by (rule that[OF w(1,2) _ w(4-6)]) (use io_bounds[OF w(3)] w(7) in \<open>simp_all add: written_def o l\<close>)
qed

lemma file_io_files:
  assumes s: "files_ok s" and p: "pages_ok m" and r: "file_io ops sp r (s, m) = ((s', m'), rc)"
  shows "files_ok s'"
proof (cases "s' = s")
  case False
  obtain h bs where w: "ks_lookup s (rq_a r) KS_OPEN_W = Inr h" "unat (rq_d r) + length bs \<le> KS_FILE_BYTES"
    "s' = set_file (unat (hd_file (sv_handles s ! h))) (written (rq_d r) bs (sv_files s ! unat (hd_file (sv_handles s ! h)))) s"
    by (rule file_io_write[OF r False p])
  note h = ks_lookup_handle[OF s w(1)]
  note f = written_ok[OF files_ok_file[OF s h(1)] h(2) w(2)]
  show ?thesis unfolding w(3)
    by (rule files_ok_set_file[OF s h(1)]) (use f files_ok_name[OF s _ h(1) _ h(2)] in auto)
qed (use s in simp)

section \<open>Closing and deleting\<close>

lemma close_file_files:
  assumes s: "files_ok s" and r: "close_file r s = (s', rc)"
  shows "files_ok s'"
proof (cases "s' = s")
  case False
  obtain h where c: "ks_lookup s (rq_a r) 0 = Inr h" "s' = set_handle h no_handle (set_file (unat (hd_file (sv_handles s ! h)))
     ((sv_files s ! unat (hd_file (sv_handles s ! h)))\<lparr>fi_refs := fi_refs (sv_files s ! unat (hd_file (sv_handles s ! h))) - 1\<rparr>) s)"
    using r False unfolding close_file_def Let_def by (auto split: sum.splits if_split_asm)
  show ?thesis by (rule files_ok_close[OF s ks_lookup_handle(3,1,2)[OF s c(1)] c(2)])
qed (use s in simp)

lemma delete_file_files:
  assumes s: "files_ok s" and r: "delete_file ops sp m r s = (s', rc)"
  shows "files_ok s'"
proof (cases "s' = s")
  case False
  obtain name i where c: "ks_node s name = Some i" "fi_refs (sv_files s ! i) = 0" "s' = set_file i no_file s"
    using r False unfolding delete_file_def by (auto split: sum.splits if_split_asm option.splits)
  have i: "i < KS_FILES" using ks_node_Some[OF c(1)] by simp
  have "card (open_handles s i) = 0" using files_ok_refs[OF s i] c(2) by simp
  then have "open_handles s i = {}" using open_handles_finite[of s i] by simp
  then show ?thesis unfolding c(3)
    by (intro files_ok_set_file[OF s i]) (simp_all add: c(2), simp_all add: no_file_def file_ok_def list_all_iff)
qed (use s in simp)

section \<open>The calls that leave the files alone\<close>

definition same_files :: "ks_service \<Rightarrow> ks_service \<Rightarrow> bool" where
  "same_files s s' \<longleftrightarrow> sv_files s' = sv_files s \<and> sv_handles s' = sv_handles s \<and> sv_next_handle s' = sv_next_handle s"

definition same_window :: "ks_service \<Rightarrow> ks_service \<Rightarrow> bool" where
  "same_window s s' \<longleftrightarrow> sv_live s' = sv_live s \<and> sv_width s' = sv_width s \<and> sv_height s' = sv_height s"

lemma same_refl [simp]: "same_files s s" "same_window s s"
  by (simp_all add: same_files_def same_window_def)

lemma other_calls_files:
  "ks_draw ops sp m r s = (s', rc) \<Longrightarrow> same_files s s' \<and> same_window s s'"
  "ks_text_cmd ops sp m r s = (s', rc) \<Longrightarrow> same_files s s' \<and> same_window s s'"
  "ks_line_cmd ops sp m r s = (s', rc) \<Longrightarrow> same_files s s' \<and> same_window s s'"
  "ks_set_status ops sp m r s = (s', rc) \<Longrightarrow> same_files s s' \<and> same_window s s'"
  "ks_complete r s = (s', rc) \<Longrightarrow> same_files s s' \<and> same_window s s'"
  "ks_wait ops sp r (s, m) = ((s', m'), rc) \<Longrightarrow> same_files s s' \<and> same_window s s'"
  "ks_post s ty delta x y key button = (s', rc) \<Longrightarrow> same_files s s' \<and> same_window s s'"
  unfolding ks_draw_def ks_text_cmd_def ks_line_cmd_def ks_set_status_def ks_complete_def ks_wait_def ks_post_def
    Let_def log_call_def prod.case same_files_def same_window_def
  by (auto split: if_split_asm option.splits sum.splits)

lemma other_calls_log:
  "ks_set_status ops sp m r s = (s', rc) \<Longrightarrow> sv_calls s' = sv_calls s"
  "ks_complete r s = (s', rc) \<Longrightarrow> sv_calls s' = sv_calls s"
  "ks_wait ops sp r (s, m) = ((s', m'), rc) \<Longrightarrow> sv_calls s' = sv_calls s"
  "ks_post s ty delta x y key button = (s', rc) \<Longrightarrow> sv_calls s' = sv_calls s"
  unfolding ks_set_status_def ks_complete_def ks_wait_def ks_post_def Let_def prod.case
  by (auto split: if_split_asm option.splits)

lemma file_calls_window:
  "open_file ops sp m r s = (s', rc) \<Longrightarrow> same_window s s' \<and> sv_calls s' = sv_calls s"
  "file_io ops sp r (s, m) = ((s', m'), rc) \<Longrightarrow> same_window s s' \<and> sv_calls s' = sv_calls s"
  "close_file r s = (s', rc) \<Longrightarrow> same_window s s' \<and> sv_calls s' = sv_calls s"
  "delete_file ops sp m r s = (s', rc) \<Longrightarrow> same_window s s' \<and> sv_calls s' = sv_calls s"
  unfolding open_file_def file_io_def close_file_def delete_file_def set_file_def set_handle_def Let_def prod.case same_window_def
  by (auto split: if_split_asm option.splits sum.splits)

end
