(* ===== verification/Service_Reach.thy ===== *)
theory Service_Reach
  imports Service_Ops
begin

text \<open>
  The service states that can be reached by the calls of \<^verbatim>\<open>kernel/user_service.c\<close>.
\<close>

section \<open>Reachable service states\<close>

text \<open>Between two calls the program may have changed its memory and the kernel its space. The owner of the
  structure sets the callbacks after the start, and before each event it enters the size that the window
  has now, the clock and the settings (\<^verbatim>\<open>ku_app_event\<close>), whatever event is pending.\<close>

inductive ks_step :: "'c ku_ops \<Rightarrow> ks_service \<Rightarrow> ks_service \<Rightarrow> bool" for ops where
  step_post: "ks_post s ty delta x y key button = (s', rc) \<Longrightarrow> ks_step ops s s'"
| step_sinks: "ks_step ops s (s\<lparr>sv_sink := a, sv_text_sink := b, sv_line_sink := c\<rparr>)"
| step_event: "0 < w \<Longrightarrow> w \<le> 4096 \<Longrightarrow> 0 < h \<Longrightarrow> h \<le> 4096 \<Longrightarrow>
    ks_step ops s (s\<lparr>sv_width := w, sv_height := h, sv_hz := hz, sv_language := l, sv_clock := cl, sv_clock_valid := v\<rparr>)"
| step_dispatch: "ks_dispatch ops sp off n (s, m) = ((s', m'), rc) \<Longrightarrow> pages_ok m \<Longrightarrow> ks_step ops s s'"

inductive ks_reach :: "'c ku_ops \<Rightarrow> ks_service \<Rightarrow> bool" for ops where
  reach_zero: "ks_reach ops ks_zero"
| reach_destroy: "ks_reach ops s \<Longrightarrow> ks_reach ops (ks_destroy s)"
| reach_init: "ks_reach ops s \<Longrightarrow> ks_init s sp gen w h sink = (s', rc) \<Longrightarrow> ks_reach ops s'"
| reach_step: "ks_reach ops s \<Longrightarrow> ks_step ops s s' \<Longrightarrow> ks_reach ops s'"

definition service_ok :: "ks_service \<Rightarrow> bool" where
  "service_ok s \<longleftrightarrow> files_ok s \<and> (sv_live s \<longrightarrow> size_ok s)"

lemma zero_files: "files_ok ks_zero"
proof (rule files_okI)
  show "unat (fi_refs (sv_files ks_zero ! i)) = card (open_handles ks_zero i)" if "i < KS_FILES" for i
  proof -
    have "open_handles ks_zero i = {}" by (auto simp: open_handles_def ks_zero_def no_handle_def)
    then show ?thesis using that by (simp add: ks_zero_def no_file_def)
  qed
qed (auto simp: ks_zero_def no_file_def no_handle_def file_ok_def handle_ok_def list_all_iff)

lemma same_files_ok: "same_files s s' \<Longrightarrow> files_ok s \<Longrightarrow> files_ok s'"
  by (auto simp: same_files_def elim: files_ok_cong)

lemma service_keeps: "service_ok s \<Longrightarrow> same_window s s' \<Longrightarrow> files_ok s' \<Longrightarrow> service_ok s'"
  by (auto simp: service_ok_def same_window_def size_ok_def)

lemma on_service_result: "on_service f (s, m) = ((s', m'), rc) \<longleftrightarrow> f s = (s', rc) \<and> m' = m"
  by (auto simp: on_service_def split: prod.splits)

lemma on_memory_result: "on_memory f (s, m) = ((s', m'), rc) \<longleftrightarrow> f m = (m', rc) \<and> s' = s"
  by (auto simp: on_memory_def split: prod.splits)

text \<open>What one call does to the state: one of the operations, or nothing.\<close>

lemma ks_call_op_cases:
  assumes "ks_call_op ops sp r (s, m) = ((s', m'), rc)"
  shows "s' = s \<or> ks_wait ops sp r (s, m) = ((s', m'), rc) \<or> ks_complete r s = (s', rc) \<or> ks_draw ops sp m r s = (s', rc) \<or>
    ks_text_cmd ops sp m r s = (s', rc) \<or> ks_line_cmd ops sp m r s = (s', rc) \<or> ks_set_status ops sp m r s = (s', rc) \<or>
    open_file ops sp m r s = (s', rc) \<or> file_io ops sp r (s, m) = ((s', m'), rc) \<or> close_file r s = (s', rc) \<or>
    delete_file ops sp m r s = (s', rc)"
  using assms unfolding ks_call_op_def Let_def fst_conv snd_conv
  by (simp only: on_service_result on_memory_result prod.inject split: if_split_asm) blast+

lemma ks_dispatch_call:
  assumes "ks_dispatch ops sp off n (s, m) = ((s', m'), rc)"
  shows "(s' = s \<and> m' = m) \<or> (\<exists>r. ks_call_op ops sp r (s, m) = ((s', m'), rc) \<and> sv_live s \<and> rq_gen r = sv_gen s)"
  using assms unfolding ks_dispatch_def prod.case Let_def by (auto split: if_split_asm option.splits)

lemma ks_call_op_service:
  assumes s: "service_ok s" and p: "pages_ok m" and r: "ks_call_op ops sp r (s, m) = ((s', m'), rc)"
  shows "service_ok s'"
proof -
  have f: "files_ok s" using s by (simp add: service_ok_def)
  note keep = service_keeps[OF s]
  have same: "service_ok s'" if "same_files s s' \<and> same_window s s'" for s'
    using keep that same_files_ok[OF _ f] by blast
  show ?thesis using ks_call_op_cases[OF r]
  proof (elim disjE)
    show "service_ok s'" if "open_file ops sp m r s = (s', rc)"
      using keep file_calls_window(1)[OF that] open_file_files[OF f p that] by blast
    show "service_ok s'" if "file_io ops sp r (s, m) = ((s', m'), rc)"
      using keep file_calls_window(2)[OF that] file_io_files[OF f p that] by blast
    show "service_ok s'" if "close_file r s = (s', rc)"
      using keep file_calls_window(3)[OF that] close_file_files[OF f that] by blast
    show "service_ok s'" if "delete_file ops sp m r s = (s', rc)"
      using keep file_calls_window(4)[OF that] delete_file_files[OF f that] by blast
    show "service_ok s'" if "ks_draw ops sp m r s = (s', rc)" by (rule same[OF other_calls_files(1)[OF that]])
    show "service_ok s'" if "ks_text_cmd ops sp m r s = (s', rc)" by (rule same[OF other_calls_files(2)[OF that]])
    show "service_ok s'" if "ks_line_cmd ops sp m r s = (s', rc)" by (rule same[OF other_calls_files(3)[OF that]])
    show "service_ok s'" if "ks_set_status ops sp m r s = (s', rc)" by (rule same[OF other_calls_files(4)[OF that]])
    show "service_ok s'" if "ks_complete r s = (s', rc)" by (rule same[OF other_calls_files(5)[OF that]])
    show "service_ok s'" if "ks_wait ops sp r (s, m) = ((s', m'), rc)" by (rule same[OF other_calls_files(6)[OF that]])
  qed (use s in simp)
qed

text \<open>What one call adds to the log.\<close>

lemma ks_call_op_draws:
  assumes s: "size_ok s" and p: "pages_ok m" and r: "ks_call_op ops sp r (s, m) = ((s', m'), rc)"
  shows "draws_in s s'"
  using ks_call_op_cases[OF r]
proof (elim disjE)
  show "draws_in s s'" if "ks_draw ops sp m r s = (s', rc)" by (rule ks_draw_draws[OF p that])
  show "draws_in s s'" if "ks_text_cmd ops sp m r s = (s', rc)" by (rule ks_text_draws[OF p that])
  show "draws_in s s'" if "ks_line_cmd ops sp m r s = (s', rc)" by (rule ks_line_draws[OF s that])
qed (auto intro!: draws_same dest: file_calls_window other_calls_log)

lemma ks_step_draws:
  assumes "ks_step ops s s'" "service_ok s"
  shows "draws_in s s'"
  using assms
proof (induction rule: ks_step.induct)
  case (step_post s ty delta x y key button s' rc)
  then show ?case using other_calls_log(4) by (intro draws_same)
next
  case (step_dispatch sp off n s m s' m' rc)
  then show ?case
    using ks_dispatch_call[OF step_dispatch(1)] ks_call_op_draws[OF _ step_dispatch(2)] draws_same[of s s]
    by (auto simp: service_ok_def)
qed (simp_all add: draws_same)

lemma ks_step_service: "ks_step ops s s' \<Longrightarrow> service_ok s \<Longrightarrow> service_ok s'"
proof (induction rule: ks_step.induct)
  case (step_post s ty delta x y key button s' rc)
  then show ?case using service_keeps[OF step_post(2)] other_calls_files(7)[OF step_post(1)]
      same_files_ok[of s s'] by (auto simp: service_ok_def)
next
  case (step_sinks s c b a)
  then show ?case by (auto simp: service_ok_def size_ok_def elim: files_ok_cong)
next
  case (step_event w h s v cl l hz)
  then show ?case by (auto simp: service_ok_def size_ok_def elim: files_ok_cong)
next
  case (step_dispatch sp off n s m s' m' rc)
  then show ?case using ks_dispatch_call[OF step_dispatch(1)] ks_call_op_service[OF step_dispatch(3,2)] by blast
qed

lemma ks_reach_service: "ks_reach ops s \<Longrightarrow> service_ok s"
proof (induction rule: ks_reach.induct)
  case (reach_init s sp gen w h sink s' rc)
  show ?case
  proof (cases "s' = s")
    case False
    then have s': "s' = ks_zero\<lparr>sv_gen := gen, sv_width := w, sv_height := h, sv_sink := sink, sv_live := True\<rparr>"
      and wh: "0 < w" "w \<le> 4096" "0 < h" "h \<le> 4096"
      using reach_init(2) by (auto simp: ks_init_def word_neq_0_conv not_less split: if_splits)
    have "files_ok s'" by (rule files_ok_cong[OF zero_files]) (simp_all add: s')
    then show ?thesis using wh by (simp add: service_ok_def size_ok_def s')
  qed (use reach_init in simp)
next
  case (reach_step s s')
  then show ?case using ks_step_service by blast
qed (simp_all add: service_ok_def zero_files ks_destroy_def, simp_all add: ks_zero_def)

end
