(* ===== verification/Service_Store.thy ===== *)
theory Service_Store
  imports Service_Reach
begin

text \<open>
  Handles that have been closed, and files as byte strings, in \<^verbatim>\<open>kernel/user_service.c\<close>.
\<close>

section \<open>A closed handle\<close>

definition handle_gone :: "u32 \<Rightarrow> ks_service \<Rightarrow> bool" where
  "handle_gone c s \<longleftrightarrow> c \<noteq> 0 \<and> c \<le> sv_next_handle s \<and> (\<forall>h<KS_HANDLES. hd_cookie (sv_handles s ! h) \<noteq> c)"

lemma gone_lookup: "handle_gone c s \<Longrightarrow> ks_lookup s c rights = Inl KS_STALE"
proof -
  assume g: "handle_gone c s"
  have "find (\<lambda>i. c \<noteq> 0 \<and> hd_cookie (sv_handles s ! i) = c) [0..<KS_HANDLES] = None"
    using g by (auto simp: find_None_iff handle_gone_def)
  then show ?thesis by (simp add: ks_lookup_def)
qed

lemma gone_same: "handle_gone c s \<Longrightarrow> sv_handles s' = sv_handles s \<Longrightarrow> sv_next_handle s' = sv_next_handle s \<Longrightarrow> handle_gone c s'"
  by (simp add: handle_gone_def)

lemma file_calls_handles:
  "file_io ops sp r (s, m) = ((s', m'), rc) \<Longrightarrow> sv_handles s' = sv_handles s \<and> sv_next_handle s' = sv_next_handle s"
  "delete_file ops sp m r s = (s', rc) \<Longrightarrow> sv_handles s' = sv_handles s \<and> sv_next_handle s' = sv_next_handle s"
  unfolding file_io_def delete_file_def set_file_def Let_def prod.case
  by (auto split: if_split_asm option.splits sum.splits)

lemma open_file_gone:
  assumes s: "files_ok s" and g: "handle_gone c s" and r: "open_file ops sp m r s = (s', rc)"
  shows "handle_gone c s'"
proof (cases "s' = s")
  case False
  obtain i h g' where o: "h < KS_HANDLES" "sv_next_handle s \<noteq> 0x7FFFFFFF"
    "s' = (set_handle h \<lparr>hd_cookie = sv_next_handle s + 1, hd_file = of_nat i, hd_rights = rq_c r AND 3\<rparr> (set_file i g' s))
       \<lparr>sv_next_handle := sv_next_handle s + 1\<rparr>"
    by (rule open_file_cases[OF r False]) blast
  have "sv_next_handle s \<le> 0x7FFFFFFF" using s by (simp add: files_ok_def)
  note n = next_cookie[OF o(2) this]
  have c: "c \<noteq> sv_next_handle s + 1" "c \<le> sv_next_handle s + 1" using g n(1) by (auto simp: handle_gone_def)
  show ?thesis
    using g c o(1) files_ok_len(2)[OF s] by (auto simp: handle_gone_def o(3) set_handle_def set_file_def nth_list_update)
qed (use g in simp)

lemma close_file_gone:
  assumes s: "files_ok s" and g: "handle_gone c s" and r: "close_file r s = (s', rc)"
  shows "handle_gone c s'"
proof (cases "s' = s")
  case False
  obtain h f i where c: "h < KS_HANDLES" "s' = set_handle h no_handle (set_file i f s)"
    using r False unfolding close_file_def Let_def by (auto split: sum.splits if_split_asm dest: ks_lookup_Inr)
  then show ?thesis
    using g files_ok_len(2)[OF s] by (auto simp: handle_gone_def set_handle_def set_file_def no_handle_def nth_list_update)
qed (use g in simp)

lemma ks_call_op_gone:
  assumes s: "files_ok s" and g: "handle_gone c s" and r: "ks_call_op ops sp r (s, m) = ((s', m'), rc)"
  shows "handle_gone c s'"
proof -
  have same: "handle_gone c s'" if "same_files s s' \<and> same_window s s'" using gone_same[OF g] that by (simp add: same_files_def)
  show ?thesis using ks_call_op_cases[OF r]
  proof (elim disjE)
    show "handle_gone c s'" if "open_file ops sp m r s = (s', rc)" by (rule open_file_gone[OF s g that])
    show "handle_gone c s'" if "close_file r s = (s', rc)" by (rule close_file_gone[OF s g that])
    show "handle_gone c s'" if "file_io ops sp r (s, m) = ((s', m'), rc)" using gone_same[OF g] file_calls_handles(1)[OF that] by blast
    show "handle_gone c s'" if "delete_file ops sp m r s = (s', rc)" using gone_same[OF g] file_calls_handles(2)[OF that] by blast
    show "handle_gone c s'" if "ks_wait ops sp r (s, m) = ((s', m'), rc)" by (rule same[OF other_calls_files(6)[OF that]])
    show "handle_gone c s'" if "ks_complete r s = (s', rc)" by (rule same[OF other_calls_files(5)[OF that]])
    show "handle_gone c s'" if "ks_draw ops sp m r s = (s', rc)" by (rule same[OF other_calls_files(1)[OF that]])
    show "handle_gone c s'" if "ks_text_cmd ops sp m r s = (s', rc)" by (rule same[OF other_calls_files(2)[OF that]])
    show "handle_gone c s'" if "ks_line_cmd ops sp m r s = (s', rc)" by (rule same[OF other_calls_files(3)[OF that]])
    show "handle_gone c s'" if "ks_set_status ops sp m r s = (s', rc)" by (rule same[OF other_calls_files(4)[OF that]])
  qed (use g in simp)
qed

lemma ks_step_gone: "ks_step ops s s' \<Longrightarrow> files_ok s \<Longrightarrow> handle_gone c s \<Longrightarrow> handle_gone c s'"
proof (induction rule: ks_step.induct)
  case (step_post s ty delta x y key button s' rc)
  then show ?case using gone_same[OF step_post(3)] other_calls_files(7)[OF step_post(1)] by (simp add: same_files_def)
next
  case (step_dispatch sp off n s m s' m' rc)
  then show ?case using ks_dispatch_call[OF step_dispatch(1)] ks_call_op_gone[OF step_dispatch(3,4)] by blast
qed (simp_all add: handle_gone_def)

lemma ks_steps_gone: "(ks_step ops)\<^sup>*\<^sup>* s s' \<Longrightarrow> service_ok s \<Longrightarrow> handle_gone c s \<Longrightarrow> service_ok s' \<and> handle_gone c s'"
proof (induction rule: rtranclp_induct)
  case (step y z)
  then show ?case using ks_step_service[OF step(2)] ks_step_gone[OF step(2)] by (auto simp: service_ok_def)
qed simp

lemma close_file_result:
  assumes s: "files_ok s" and r: "close_file r s = (s', 0)"
  shows "handle_gone (rq_a r) s'"
proof -
  have "ks_lookup s (rq_a r) 0 \<noteq> Inl 0" by (simp add: ks_lookup_def KS_STALE_def KS_DENIED_def split: option.splits)
  then obtain h f i where c: "ks_lookup s (rq_a r) 0 = Inr h" "s' = set_handle h no_handle (set_file i f s)"
    using r unfolding close_file_def Let_def by (auto simp: KS_INVALID_def split: sum.splits if_split_asm)
  note h = ks_lookup_Inr[OF c(1)]
  have le: "rq_a r \<le> sv_next_handle s" using files_ok_handle[OF s, of h] h by (auto simp: handle_ok_def)
  have "k = h" if "k < KS_HANDLES" "hd_cookie (sv_handles s ! k) = rq_a r" for k
    using files_ok_cookie[OF s that(1), of h] that(2) h by auto
  then show ?thesis
    using h le files_ok_len(2)[OF s] by (auto simp: handle_gone_def c(2) set_handle_def set_file_def no_handle_def nth_list_update)
qed

section \<open>Files as byte strings\<close>

definition file_bytes :: "ks_file \<Rightarrow> u8 list" where
  "file_bytes f = take (unat (fi_size f)) (fi_data f)"

definition file_store :: "ks_service \<Rightarrow> u8 list \<Rightarrow> u8 list option" where
  "file_store s name = map_option (\<lambda>i. file_bytes (sv_files s ! i)) (ks_node s name)"

definition handle_view :: "ks_service \<Rightarrow> u32 \<Rightarrow> (u8 list \<times> u32) option" where
  "handle_view s c = (case ks_lookup s c 0 of Inl _ \<Rightarrow> None
     | Inr h \<Rightarrow> Some (fi_name (sv_files s ! unat (hd_file (sv_handles s ! h))), hd_rights (sv_handles s ! h)))"

text \<open>Writing at a position; a gap after the end reads as zeros.\<close>

definition write_at :: "nat \<Rightarrow> u8 list \<Rightarrow> u8 list \<Rightarrow> u8 list" where
  "write_at d bs c = (if bs = [] then c else take d (c @ replicate (d - length c) 0) @ bs @ drop (d + length bs) c)"

lemma zero_tail:
  assumes "list_all (\<lambda>b. b = 0) (drop n xs)" "n \<le> length xs"
  shows "xs = take n xs @ replicate (length xs - n) 0"
proof -
  have "drop n xs = replicate (length xs - n) 0"
    using assms by (intro replicate_eqI) (auto simp: list_all_iff)
  then show ?thesis by (metis append_take_drop_id)
qed

lemma written_bytes:
  assumes f: "file_ok f" and b: "unat d + length bs \<le> KS_FILE_BYTES" "bs \<noteq> []"
  shows "file_bytes (written d bs f) = write_at (unat d) bs (file_bytes f)"
proof -
  let ?n = "unat d + length bs" and ?s = "unat (fi_size f)"
  have u: "unat (d + of_nat (length bs)) = ?n"
    using b by (subst unat_add_u32) (simp_all add: KS_FILE_BYTES_def unat_of_nat_u32)
  have sz: "unat (fi_size (written d bs f)) = max ?n ?s"
    by (simp add: written_def word_less_nat_alt u max_def)
  have l: "length (fi_data f) = KS_FILE_BYTES" "?s \<le> KS_FILE_BYTES" "list_all (\<lambda>b. b = 0) (drop ?s (fi_data f))"
    using f by (simp_all add: file_ok_def)
  define c where "c = file_bytes f"
  have c: "fi_data f = c @ replicate (KS_FILE_BYTES - ?s) 0" "length c = ?s"
    using zero_tail[OF l(3)] l(1,2) by (simp_all add: c_def file_bytes_def)
  have "file_bytes (written d bs f) = take (max ?n ?s) (page_splice (unat d) bs (fi_data f))"
    by (simp add: file_bytes_def sz) (simp add: written_def)
  also have "\<dots> = take (unat d) (fi_data f) @ bs @ take (max ?n ?s - ?n) (drop ?n (fi_data f))"
    using l(1) b by (simp add: page_splice_def min_absorb2)
  also have "take (max ?n ?s - ?n) (drop ?n (fi_data f)) = drop ?n c"
    using c l(2) by (cases "?n \<le> ?s") (simp_all add: max_def)
  also have "take (unat d) (fi_data f) = take (unat d) (c @ replicate (unat d - length c) 0)"
    using c b(1) by (simp add: take_replicate min_def)
  finally show ?thesis using b(2) by (simp add: write_at_def c_def)
qed

lemma ks_node_name:
  assumes s: "files_ok s" and i: "i < KS_FILES" "fi_used (sv_files s ! i)"
  shows "ks_node s (fi_name (sv_files s ! i)) = Some i"
proof (cases "ks_node s (fi_name (sv_files s ! i))")
  case None
  then show ?thesis using ks_node_None[OF None i] by simp
next
  case (Some k)
  then show ?thesis using ks_node_Some[OF Some] files_ok_name[OF s _ i(1) _ i(2)] by auto
qed

lemma file_store_write:
  assumes s: "files_ok s" and i: "i < KS_FILES" "fi_used (sv_files s ! i)"
    and f: "fi_used f" "fi_name f = fi_name (sv_files s ! i)"
  shows "file_store (set_file i f s) = (file_store s)(fi_name f \<mapsto> file_bytes f)"
proof (rule ext)
  fix name
  let ?s = "set_file i f s"
  have nth: "j < KS_FILES \<Longrightarrow> sv_files ?s ! j = (if j = i then f else sv_files s ! j)" for j
    using files_ok_len(1)[OF s] by (simp add: set_file_def nth_list_update)
  have same: "ks_node ?s name = ks_node s name"
    unfolding ks_node_def by (rule find_cong) (use nth i f in auto)
  show "file_store ?s name = ((file_store s)(fi_name f \<mapsto> file_bytes f)) name"
  proof (cases "ks_node s name")
    case None
    then have "name \<noteq> fi_name f" using ks_node_name[OF s i] f by auto
    then show ?thesis by (simp add: file_store_def same None)
  next
    case (Some k)
    then have k: "k < KS_FILES" "fi_used (sv_files s ! k)" "fi_name (sv_files s ! k) = name" by (simp_all add: ks_node_Some)
    have "k = i \<longleftrightarrow> name = fi_name f" using files_ok_name[OF s k(1) i(1) k(2) i(2)] k(3) f(2) by auto
    then show ?thesis using nth[OF k(1)] by (auto simp: file_store_def same Some)
  qed
qed

lemma handle_view_lookup:
  assumes "ks_lookup s c r = Inr h"
  shows "handle_view s c = Some (fi_name (sv_files s ! unat (hd_file (sv_handles s ! h))), hd_rights (sv_handles s ! h))"
proof -
  have "ks_lookup s c 0 = Inr h" using assms by (auto simp: ks_lookup_def split: option.splits if_splits)
  then show ?thesis by (simp add: handle_view_def)
qed

lemma file_io_read:
  assumes "file_io ops sp r (s, m) = ((s', m'), rc)" "rq_op r = KS_READ" "rc \<ge> 0"
  obtains h where "ks_lookup s (rq_a r) KS_OPEN_R = Inr h" "s' = s"
    "rc = int (min (unat (rq_c r)) (unat (fi_size (sv_files s ! unat (hd_file (sv_handles s ! h)))) - unat (rq_d r)))"
    "ku_copyout ops sp (rq_b r) (take (nat rc) (drop (unat (rq_d r)) (fi_data (sv_files s ! unat (hd_file (sv_handles s ! h)))))) m = Some m'"
proof -
  let ?f = "\<lambda>h. sv_files s ! unat (hd_file (sv_handles s ! h))"
  let ?n = "\<lambda>h. if rq_d r \<ge> fi_size (?f h) then 0 else if rq_c r > fi_size (?f h) - rq_d r then fi_size (?f h) - rq_d r else rq_c r"
  have neg: "ks_lookup s (rq_a r) KS_OPEN_R = Inl e \<Longrightarrow> e < 0" for e
    by (auto simp: ks_lookup_def KS_STALE_def KS_DENIED_def split: option.splits if_splits)
  obtain h where h: "ks_lookup s (rq_a r) KS_OPEN_R = Inr h" "s' = s"
    "\<not> (rq_d r > of_nat KS_FILE_BYTES \<or> rq_c r > of_nat KS_FILE_BYTES - rq_d r)" "rc = sint (?n h)"
    "ku_copyout ops sp (rq_b r) (take (unat (?n h)) (drop (unat (rq_d r)) (fi_data (?f h)))) m = Some m'"
    using assms neg unfolding file_io_def Let_def prod.case
    by (auto simp: KS_FAULT_def KS_QUOTA_def split: sum.splits option.splits if_split_asm)
  have n: "unat (?n h) = min (unat (rq_c r)) (unat (fi_size (?f h)) - unat (rq_d r))"
    using unat_sub_u32[of "rq_d r" "fi_size (?f h)"] by (auto simp: word_le_nat_alt word_less_nat_alt min_def)
  have "unat (?n h) < 2147483648" using io_bounds(1)[OF h(3)] unfolding n by (simp add: KS_FILE_BYTES_def)
  then have rc: "rc = int (unat (?n h))" using h(4) by (simp add: sint_small_u32)
  show ?thesis by (rule that[OF h(1,2)]) (use h(5) rc n in simp_all)
qed

lemma file_io_written:
  assumes "file_io ops sp r (s, m) = ((s', m'), rc)" "rq_op r \<noteq> KS_READ" "rc \<ge> 0" "pages_ok m"
  obtains h bs where "ks_lookup s (rq_a r) KS_OPEN_W = Inr h" "ku_copyin ops sp m (rq_b r) (rq_c r) = Some bs"
    "unat (rq_d r) + length bs \<le> KS_FILE_BYTES" "m' = m" "rc = int (unat (rq_c r))" "length bs = unat (rq_c r)"
    "s' = (if bs = [] then s else
       set_file (unat (hd_file (sv_handles s ! h))) (written (rq_d r) bs (sv_files s ! unat (hd_file (sv_handles s ! h)))) s)"
proof -
  let ?i = "\<lambda>h. unat (hd_file (sv_handles s ! h))"
  have neg: "ks_lookup s (rq_a r) KS_OPEN_W = Inl e \<Longrightarrow> e < 0" for e
    by (auto simp: ks_lookup_def KS_STALE_def KS_DENIED_def split: option.splits if_splits)
  obtain h bs where w: "ks_lookup s (rq_a r) KS_OPEN_W = Inr h" "ku_copyin ops sp m (rq_b r) (rq_c r) = Some bs"
    "\<not> (rq_d r > of_nat KS_FILE_BYTES \<or> rq_c r > of_nat KS_FILE_BYTES - rq_d r)" "m' = m" "rc = sint (rq_c r)"
    "s' = (if rq_c r = 0 then s else set_file (?i h) ((sv_files s ! ?i h)\<lparr>fi_data := page_splice (unat (rq_d r)) bs (fi_data (sv_files s ! ?i h)),
       fi_size := (if rq_d r + rq_c r > fi_size (sv_files s ! ?i h) then rq_d r + rq_c r else fi_size (sv_files s ! ?i h))\<rparr>) s)"
    using assms(1-3) neg unfolding file_io_def Let_def prod.case
    by (auto simp: KS_FAULT_def KS_QUOTA_def split: sum.splits if_split_asm option.splits)
  have l: "length bs = unat (rq_c r)" by (rule ku_copyin_length[OF w(2) assms(4)])
  have o: "of_nat (length bs) = rq_c r" "bs = [] \<longleftrightarrow> rq_c r = 0" using l by (simp_all add: unat_eq_0 flip: length_0_conv)
  have "unat (rq_c r) < 2147483648" using io_bounds(1)[OF w(3)] by (simp add: KS_FILE_BYTES_def)
  then have rc: "rc = int (unat (rq_c r))" using w(5) by (simp add: sint_small_u32)
  show ?thesis
    by (rule that[OF w(1,2) _ w(4) rc l]) (use io_bounds[OF w(3)] w(6) l in \<open>simp_all add: written_def o\<close>)
qed

end
