(* ===== verification/Service_Props.thy ===== *)
theory Service_Props
  imports Service_Store User_Props
begin

text \<open>
  The properties of the service calls of \<^verbatim>\<open>kernel/user_service.c\<close>: files and handles, drawing, line clipping,
  with a program that opens a file as the worked example.
\<close>

section \<open>An example\<close>

definition lab_service :: ks_service where
  "lab_service = ks_zero\<lparr>sv_gen := 7, sv_width := 420, sv_height := 300, sv_sink := True, sv_live := True\<rparr>"

lemma lab_service_reach: "ks_reach ops lab_service"
proof -
  have i: "ks_init ks_zero (ku_zero\<lparr>sp_live := True\<rparr>) 7 420 300 True = (lab_service, 0)"
    by (simp add: ks_init_def ks_zero_def lab_service_def)
  show ?thesis by (rule reach_init[OF reach_zero i])
qed

text \<open>The request to open the file \<open>a\<close> for reading and writing, followed by its name and three bytes of data.\<close>

definition lab_bytes :: "u8 list" where
  "lab_bytes = concat (map bytes32 [1, 40, 4, 0, 7, 0, 40, 2, 7, 0]) @ [0x61, 0, 1, 2, 3]"

definition lab_file :: ks_file where
  "lab_file = no_file\<lparr>fi_name := [0x61], fi_used := True, fi_refs := 1\<rparr>"

definition lab_opened :: ks_service where
  "lab_opened = lab_service\<lparr>sv_files := lab_file # replicate 7 no_file,
     sv_handles := \<lparr>hd_cookie = 1, hd_file = 0, hd_rights = 3\<rparr> # replicate 7 no_handle, sv_next_handle := 1\<rparr>"

lemma lab_length: "length lab_bytes = 45"
  by (simp add: lab_bytes_def bytes32_def)

lemma lab_request: "dec_request (take 40 lab_bytes) = \<lparr>rq_version = 1, rq_bytes = 40, rq_op = 4, rq_flags = 0, rq_gen = 7, rq_token = 0,
   rq_a = 40, rq_b = 2, rq_c = 7, rq_d = 0\<rparr>"
  by code_simp

lemma lab_open:
  obtains sp and m :: "pmm machine" where "ks_dispatch memory_ops sp 0 40 (lab_service, m) = ((lab_opened, m), 1)" "pages_ok m"
    "ku_copyin memory_ops sp m 42 3 = Some [1, 2, 3]"
proof -
  have len: "length lab_bytes \<le> 4096" by (simp add: lab_length)
  obtain sp and m :: "pmm machine" where l: "sp_live sp" "sp_pins sp = 1" "pages_ok m"
    "\<And>off n. unat off + unat n \<le> length lab_bytes \<Longrightarrow> ku_copyin memory_ops sp m off n = Some (take (unat n) (drop (unat off) lab_bytes))"
    by (rule lab_filled[OF len]) blast
  have c: "ku_copyin memory_ops sp m 0 40 = Some (take 40 lab_bytes)" "ku_copyin memory_ops sp m 40 2 = Some [0x61, 0]"
    "ku_copyin memory_ops sp m 42 3 = Some [1, 2, 3]"
    using l(4)[of 0 40] l(4)[of 40 2] l(4)[of 42 3] unfolding lab_length by (simp_all add: lab_bytes_def bytes32_def)
  have n: "ks_filename memory_ops sp m 40 2 = Inr [0x61]" by (simp add: ks_filename_def c name_char_def)
  have f: "sv_files lab_service = replicate 8 no_file" "sv_handles lab_service = replicate 8 no_handle" "sv_next_handle lab_service = 0"
    by (simp_all add: lab_service_def ks_zero_def KS_FILES_def KS_HANDLES_def)
  have "ks_node lab_service [0x61] = None" "find (\<lambda>i. \<not> fi_used (sv_files lab_service ! i)) [0..<KS_FILES] = Some 0"
    "find (\<lambda>i. hd_cookie (sv_handles lab_service ! i) = 0) [0..<KS_HANDLES] = Some 0"
    by (simp_all add: ks_node_def f KS_FILES_def KS_HANDLES_def upt_rec no_file_def no_handle_def)
  moreover have "opened_file no_file True [0x61] 7 = lab_file"
    by (simp add: opened_file_def lab_file_def no_file_def KS_OPEN_TRUNC_def)
  moreover have "sv_files lab_service ! 0 = no_file" "(sv_files lab_service)[0 := x] = x # replicate 7 no_file"
    "(sv_handles lab_service)[0 := y] = y # replicate 7 no_handle" for x y
    by (simp_all add: f numeral_eq_Suc)
  ultimately have "open_file memory_ops sp m (dec_request (take 40 lab_bytes)) lab_service = (lab_opened, 1)"
    unfolding lab_request open_file_def
    by (simp add: n f(3) KS_OPEN_W_def KS_OPEN_CREATE_def set_file_def set_handle_def lab_opened_def)
  then have "ks_dispatch memory_ops sp 0 40 (lab_service, m) = ((lab_opened, m), 1)"
    by (simp add: ks_dispatch_def c l Let_def lab_request ks_call_op_def on_service_def) (simp add: lab_service_def)
  then show ?thesis by (rule that[OF _ l(3) c(3)])
qed

lemma lab_opened_reach: "ks_reach memory_ops lab_opened"
proof -
  obtain sp and m :: "pmm machine" where "ks_dispatch memory_ops sp 0 40 (lab_service, m) = ((lab_opened, m), 1)" "pages_ok m"
    by (rule lab_open)
  then show ?thesis by (rule reach_step[OF lab_service_reach step_dispatch])
qed

text \<open>A second program: its draw event is posted and delivered for a window of 420 by 300; the window is made
  10 wide, and then the program draws a rectangle of 20 across the left border.\<close>

definition lab_wait :: "u8 list" where
  "lab_wait = concat (map bytes32 [1, 40, 1, 0, 7, 0, 64, 48, 0, 0])"

definition lab_draw :: "u8 list" where
  "lab_draw = concat (map bytes32 [1, 40, 3, 0, 7, 1, 40, 1, 0, 0, 1, 0x44123456, 0xFFFFFFFB, 10, 20, 30])"

lemma lab_draw_requests:
  "dec_request (take 40 lab_wait) = \<lparr>rq_version = 1, rq_bytes = 40, rq_op = 1, rq_flags = 0, rq_gen = 7, rq_token = 0,
     rq_a = 64, rq_b = 48, rq_c = 0, rq_d = 0\<rparr>"
  "dec_request (take 40 lab_draw) = \<lparr>rq_version = 1, rq_bytes = 40, rq_op = 3, rq_flags = 0, rq_gen = 7, rq_token = 1,
     rq_a = 40, rq_b = 1, rq_c = 0, rq_d = 0\<rparr>"
  "dec_rect (take 24 (drop 40 lab_draw)) = \<lparr>rc_type = 1, rc_color = 0x44123456, rc_x = -5, rc_y = 10, rc_w = 20, rc_h = 30\<rparr>"
  by code_simp+

lemma lab_draw_lengths: "length lab_wait = 40" "length lab_draw = 64"
  by code_simp+

definition lab_rect :: ks_rect where
  "lab_rect = \<lparr>rc_type = 1, rc_color = 0x123456, rc_x = 0, rc_y = 10, rc_w = 10, rc_h = 30\<rparr>"

lemma lab_drawn:
  "\<exists>s s'. ks_reach memory_ops s \<and> ks_step memory_ops s s' \<and> sv_width s = 10 \<and> sv_height s = 300 \<and>
     ev_width (sv_event s) = 420 \<and> sv_calls s = [] \<and> sv_calls s' = [Rects [lab_rect]]"
proof -
  define p where "p = fst (ks_post lab_service 1 16 0 0 0 0)"
  have p: "ks_post lab_service 1 16 0 0 0 0 = (p, 0)" "sv_live p" "sv_pending p" "sv_gen p = 7" "sv_width p = 420" "sv_height p = 300"
    "ev_width (sv_event p) = 420" "ev_type (sv_event p) = 1" "ev_id (sv_event p) = 1" "sv_draw_left p = 64" "sv_sink p" "sv_calls p = []"
    by (simp_all add: p_def ks_post_def lab_service_def ks_zero_def)
  have rp: "ks_reach memory_ops p" by (rule reach_step[OF lab_service_reach step_post[OF p(1)]])
  have len: "length lab_wait \<le> 4096" "length lab_draw \<le> 4096" by (simp_all add: lab_draw_lengths)
  obtain sp and m :: "pmm machine" where l: "sp_live sp" "sp_pins sp = 1" "pages_ok m"
    "\<And>off n. unat off + unat n \<le> length lab_wait \<Longrightarrow> ku_copyin memory_ops sp m off n = Some (take (unat n) (drop (unat off) lab_wait))"
    "\<And>off n. unat off + unat n \<le> 4096 \<Longrightarrow> ku_check memory_ops sp m off n (KU_R OR KU_W)"
    by (rule lab_filled[OF len(1)]) blast
  note lm = l(3)
  have lc: "ku_copyin memory_ops sp m 0 40 = Some (take 40 lab_wait)" using l(4)[of 0 40] by (simp add: lab_draw_lengths)
  have le: "length (enc_event e) = 48" for e by (simp add: enc_event_def bytes32_def)
  obtain m' where m': "ku_copyout memory_ops sp 64 (enc_event (sv_event p)) m = Some m'"
    using l(5)[of 64 48] by (simp add: ku_copyout_def le)
  have w: "ks_dispatch memory_ops sp 0 40 (p, m) = ((p\<lparr>sv_delivered := True\<rparr>, m'), 48)"
    using p l(1,2) m' by (simp add: ks_dispatch_def lc Let_def lab_draw_requests ks_call_op_def ks_wait_def)
  obtain sp and m :: "pmm machine" where l: "sp_live sp" "sp_pins sp = 1" "pages_ok m"
    "\<And>off n. unat off + unat n \<le> length lab_draw \<Longrightarrow> ku_copyin memory_ops sp m off n = Some (take (unat n) (drop (unat off) lab_draw))"
    by (rule lab_filled[OF len(2)]) blast
  have lc: "ku_copyin memory_ops sp m 0 40 = Some (take 40 lab_draw)" "ku_copyin memory_ops sp m 40 24 = Some (take 24 (drop 40 lab_draw))"
    using l(4)[of 0 40] l(4)[of 40 24] by (simp_all add: lab_draw_lengths)
  have cl: "clip_rects 10 300 [dec_rect (take 24 (drop 40 lab_draw))] = Some [lab_rect]"
    by (simp add: lab_draw_requests(3) lab_rect_def Let_def)
  have t: "take 24 (drop (24 * 0) (take 24 (drop 40 lab_draw))) = take 24 (drop 40 lab_draw)" by simp
  define e where "e = p\<lparr>sv_delivered := True, sv_width := 10, sv_height := 300\<rparr>"
  have e: "e = (p\<lparr>sv_delivered := True\<rparr>)\<lparr>sv_width := 10, sv_height := 300, sv_hz := sv_hz p, sv_language := sv_language p,
      sv_clock := sv_clock p, sv_clock_valid := sv_clock_valid p\<rparr>" by (simp add: e_def)
  have "ks_step memory_ops (p\<lparr>sv_delivered := True\<rparr>) e" unfolding e by (rule step_event) simp_all
  then have s2: "ks_reach memory_ops e" by (rule reach_step[OF reach_step[OF rp step_dispatch[OF w lm]]])
  have d: "\<exists>s'. ks_draw memory_ops sp m (dec_request (take 40 lab_draw)) e = (s', 1) \<and> sv_calls s' = [Rects [lab_rect]]"
    using p cl by (simp add: e_def ks_draw_def draw_stale_def KS_EVENT_DRAW_def KS_COMMANDS_def lab_draw_requests(2) lc(2) Let_def log_call_def
      del: clip_rects.simps)
  then obtain s' where s': "ks_dispatch memory_ops sp 0 40 (e, m) = ((s', m), 1)" "sv_calls s' = [Rects [lab_rect]]"
    using p l(1,2) by (auto simp: e_def ks_dispatch_def lc(1) Let_def lab_draw_requests(2) ks_call_op_def on_service_def)
  show ?thesis
    using s2 step_dispatch[OF s'(1) l(3)] s'(2) p by (intro exI[of _ e] exI[of _ s']) (simp add: e_def)
qed

section \<open>Properties\<close>

text \<open>C29. In every reachable service state the file table and the handle table agree: each used file has a
  valid, unique name, at most 1024 bytes and zeros behind its end, its reference count is the number of
  the handles that name it, every handle names a file in use with some right, and no two handles
  have the same cookie.\<close>

theorem service_files_consistent:
  assumes "ks_reach ops s"
  shows "files_ok s"
  using ks_reach_service[OF assms] by (simp add: service_ok_def)

lemma service_files_consistent_witness: "files_ok lab_opened \<and> fi_refs (sv_files lab_opened ! 0) = 1"
  using service_files_consistent[OF lab_opened_reach] by (simp add: lab_opened_def lab_file_def)

text \<open>C30. Whatever a program asks for, a step of a reachable service only adds to the log of the drawing
  callbacks rectangles and lines that lie inside the window as large as it is at that time, colours of 24
  bits, at most 32 rectangles a call, and text that is valid UTF-8 of printable characters reaching into the
  window; also when the window was resized after the event that the program answers.\<close>

theorem service_draws_clipped:
  assumes "ks_reach ops s" "ks_step ops s s'"
  shows "\<exists>cs. sv_calls s' = sv_calls s @ cs \<and> list_all (call_ok (sv_width s) (sv_height s)) cs"
  using ks_step_draws[OF assms(2) ks_reach_service[OF assms(1)]] by (simp add: draws_in_def)

lemma service_draws_clipped_witness:
  "\<exists>(s :: ks_service) (s' :: ks_service). sv_width s = 10 \<and> ev_width (sv_event s) = 420 \<and> sv_calls s = [] \<and>
     sv_calls s' = [Rects [lab_rect]] \<and> call_ok (sv_width s) (sv_height s) (Rects [lab_rect])"
proof -
  obtain s s' where l: "ks_reach memory_ops s" "ks_step memory_ops s s'" "sv_width s = 10" "ev_width (sv_event s) = 420"
    "sv_calls s = []" "sv_calls s' = [Rects [lab_rect]]" using lab_drawn by blast
  then show ?thesis using service_draws_clipped[OF l(1,2)] by (intro exI[of _ s] exI[of _ s']) simp
qed

text \<open>C31. A closed handle is stale for ever: after a successful close, in every later state of the service its
  cookie is refused, whatever files are opened meanwhile.\<close>

theorem closed_handle_stale:
  assumes "ks_reach ops s" "close_file r s = (s1, 0)" "(ks_step ops)\<^sup>*\<^sup>* s1 s2"
  shows "ks_lookup s2 (rq_a r) rights = Inl KS_STALE"
proof -
  have s: "service_ok s" by (rule ks_reach_service[OF assms(1)])
  then have f: "files_ok s" by (simp add: service_ok_def)
  have "service_ok s1"
    using service_keeps[OF s] file_calls_window(3)[OF assms(2)] close_file_files[OF f assms(2)] by blast
  then show ?thesis using ks_steps_gone[OF assms(3)] close_file_result[OF f assms(2)] by (blast intro: gone_lookup)
qed

lemma closed_handle_stale_witness:
  "\<exists>s1 s2. close_file \<lparr>rq_version = 1, rq_bytes = 40, rq_op = 7, rq_flags = 0, rq_gen = 7, rq_token = 0,
     rq_a = 1, rq_b = 0, rq_c = 0, rq_d = 0\<rparr> lab_opened = (s1, 0) \<and> ks_lookup s2 1 0 = Inl KS_STALE"
proof -
  let ?r = "\<lparr>rq_version = 1, rq_bytes = 40, rq_op = 7, rq_flags = 0, rq_gen = 7, rq_token = 0, rq_a = 1, rq_b = 0, rq_c = 0, rq_d = 0\<rparr>"
  have "ks_lookup lab_opened 1 0 = Inr 0" by (simp add: ks_lookup_def lab_opened_def KS_HANDLES_def upt_rec)
  then obtain s1 where c: "close_file ?r lab_opened = (s1, 0)" by (simp add: close_file_def Let_def)
  show ?thesis using closed_handle_stale[OF lab_opened_reach c rtranclp.rtrancl_refl, of 0] c by auto
qed

text \<open>C32. Reading and writing implement byte strings under names: a successful read hands out the bytes of the
  file from the offset, at most to its end, and a successful write replaces the bytes at the offset,
  zeros filling a gap, in that file only.\<close>

theorem file_io_refines:
  assumes "ks_reach ops s" "pages_ok m" "file_io ops sp r (s, m) = ((s', m'), rc)" "rc \<ge> 0"
  shows "\<exists>name rights c bs. handle_view s (rq_a r) = Some (name, rights) \<and> file_store s name = Some c \<and>
    handle_view s' (rq_a r) = handle_view s (rq_a r) \<and>
    (if rq_op r = KS_READ
     then rights AND KS_OPEN_R = KS_OPEN_R \<and> s' = s \<and> bs = take (unat (rq_c r)) (drop (unat (rq_d r)) c) \<and>
       rc = int (length bs) \<and> ku_copyout ops sp (rq_b r) bs m = Some m'
     else rights AND KS_OPEN_W = KS_OPEN_W \<and> m' = m \<and> ku_copyin ops sp m (rq_b r) (rq_c r) = Some bs \<and>
       rc = int (length bs) \<and> file_store s' = (file_store s)(name \<mapsto> write_at (unat (rq_d r)) bs c))"
proof -
  have s: "files_ok s" using ks_reach_service[OF assms(1)] by (simp add: service_ok_def)
  show ?thesis
  proof (cases "rq_op r = KS_READ")
    case True
    obtain h where h: "ks_lookup s (rq_a r) KS_OPEN_R = Inr h" "s' = s"
      "rc = int (min (unat (rq_c r)) (unat (fi_size (sv_files s ! unat (hd_file (sv_handles s ! h)))) - unat (rq_d r)))"
      "ku_copyout ops sp (rq_b r) (take (nat rc) (drop (unat (rq_d r)) (fi_data (sv_files s ! unat (hd_file (sv_handles s ! h)))))) m = Some m'"
      by (rule file_io_read[OF assms(3) True assms(4)])
    let ?f = "sv_files s ! unat (hd_file (sv_handles s ! h))"
    let ?bs = "take (unat (rq_c r)) (drop (unat (rq_d r)) (file_bytes ?f))"
    note i = ks_lookup_handle[OF s h(1)]
    have l: "length (fi_data ?f) = KS_FILE_BYTES" "unat (fi_size ?f) \<le> KS_FILE_BYTES"
      using files_ok_file[OF s i(1)] by (simp_all add: file_ok_def)
    have rc: "rc = int (length ?bs)" using l by (simp add: h(3) file_bytes_def)
    have "take (nat rc) (drop (unat (rq_d r)) (fi_data ?f)) = ?bs"
      by (simp add: h(3) file_bytes_def drop_take)
    then show ?thesis
      using h rc handle_view_lookup[OF h(1)] ks_node_name[OF s i(1,2)] ks_lookup_Inr[OF h(1)] True
      by (intro exI[of _ "fi_name ?f"] exI[of _ "hd_rights (sv_handles s ! h)"] exI[of _ "file_bytes ?f"] exI[of _ ?bs])
        (simp add: file_store_def)
  next
    case False
    obtain h bs where h: "ks_lookup s (rq_a r) KS_OPEN_W = Inr h" "ku_copyin ops sp m (rq_b r) (rq_c r) = Some bs"
      "unat (rq_d r) + length bs \<le> KS_FILE_BYTES" "m' = m" "rc = int (unat (rq_c r))" "length bs = unat (rq_c r)"
      "s' = (if bs = [] then s else
         set_file (unat (hd_file (sv_handles s ! h))) (written (rq_d r) bs (sv_files s ! unat (hd_file (sv_handles s ! h)))) s)"
      by (rule file_io_written[OF assms(3) False assms(4,2)])
    let ?i = "unat (hd_file (sv_handles s ! h))"
    let ?f = "sv_files s ! ?i"
    note i = ks_lookup_handle[OF s h(1)]
    note w = written_ok[OF files_ok_file[OF s i(1)] i(2) h(3)]
    have node: "ks_node s (fi_name ?f) = Some ?i" by (rule ks_node_name[OF s i(1,2)])
    have v: "handle_view s (rq_a r) = Some (fi_name ?f, hd_rights (sv_handles s ! h))" by (rule handle_view_lookup[OF h(1)])
    have v': "handle_view s' (rq_a r) = handle_view s (rq_a r)"
    proof -
      have hs: "sv_handles s' = sv_handles s" using h(7) by (simp add: set_file_def)
      have lk: "ks_lookup s' (rq_a r) KS_OPEN_W = Inr h" using h(1) unfolding ks_lookup_def hs .
      have nm: "fi_name (sv_files s' ! ?i) = fi_name ?f"
        using h(7) w(3) i(1) files_ok_len(1)[OF s] by (simp add: set_file_def)
      show ?thesis using lk nm v handle_view_lookup[of s' "rq_a r" KS_OPEN_W h] by (simp add: hs)
    qed
    have st: "file_store s' = (file_store s)(fi_name ?f \<mapsto> write_at (unat (rq_d r)) bs (file_bytes ?f))"
    proof (cases "bs = []")
      case True
      then show ?thesis using h(7) node by (auto simp: write_at_def file_store_def fun_eq_iff)
    next
      case nz: False
      then show ?thesis
        using file_store_write[OF s i(1,2) w(2,3)] written_bytes[OF files_ok_file[OF s i(1)] h(3) nz] h(7) w(3) by simp
    qed
    show ?thesis
      using h(2,4-6) v v' st node ks_lookup_Inr[OF h(1)] False
      by (intro exI[of _ "fi_name ?f"] exI[of _ "hd_rights (sv_handles s ! h)"] exI[of _ "file_bytes ?f"] exI[of _ bs])
        (simp add: file_store_def)
  qed
qed

lemma file_io_refines_witness:
  "\<exists>s' m'. file_store s' [0x61] = Some [0, 0, 1, 2, 3] \<and> handle_view s' 1 = Some ([0x61], 3) \<and>
     (\<exists>sp (m :: pmm machine). file_io memory_ops sp \<lparr>rq_version = 1, rq_bytes = 40, rq_op = 6, rq_flags = 0, rq_gen = 7,
        rq_token = 0, rq_a = 1, rq_b = 42, rq_c = 3, rq_d = 2\<rparr> (lab_opened, m) = ((s', m'), 3))"
proof -
  let ?r = "\<lparr>rq_version = 1, rq_bytes = 40, rq_op = 6, rq_flags = 0, rq_gen = 7, rq_token = 0, rq_a = 1, rq_b = 42, rq_c = 3, rq_d = 2\<rparr>"
  obtain sp and m :: "pmm machine" where m: "pages_ok m" "ku_copyin memory_ops sp m 42 3 = Some [1, 2, 3]"
    by (rule lab_open)
  have k: "ks_lookup lab_opened 1 r = Inr 0" if "r = 0 \<or> r = KS_OPEN_W" for r
    using that by (auto simp: ks_lookup_def lab_opened_def KS_HANDLES_def upt_rec KS_OPEN_W_def)
  obtain s' where w: "file_io memory_ops sp ?r (lab_opened, m) = ((s', m), 3)"
    by (simp add: file_io_def k KS_READ_def KS_FILE_BYTES_def m Let_def)
  have n: "ks_node lab_opened [0x61] = Some 0"
    by (simp add: ks_node_def lab_opened_def KS_FILES_def upt_rec lab_file_def)
  have v: "handle_view lab_opened 1 = Some ([0x61], 3)" "file_store lab_opened [0x61] = Some []"
    by (simp_all add: handle_view_def k file_store_def n) (simp_all add: lab_opened_def lab_file_def no_file_def file_bytes_def)
  have z: "(0 :: int) \<le> 3" by simp
  have two: "replicate 2 0 = [0, 0 :: u8]" by (simp add: numeral_2_eq_2)
  have "file_store s' [0x61] = Some [0, 0, 1, 2, 3]" "handle_view s' 1 = Some ([0x61], 3)"
    using file_io_refines[OF lab_opened_reach m(1) w z] v m(2) by (auto simp: KS_READ_def write_at_def two)
  then show ?thesis using w by blast
qed

text \<open>Clipping a line ends: for a window of at most 4096 by 4096 and 16-bit end points, the eight rounds of the
  loop always decide, in 32-bit arithmetic with truncating division; the line is dropped or the
  clipped line lies inside the window.\<close>

theorem line_clipping_ends:
  assumes "0 < w" "w \<le> 4096" "0 < h" "h \<le> 4096" "i16_line l"
  shows "clip_line 8 w h l = Inr None \<or> (\<exists>l'. clip_line 8 w h l = Inr (Some l') \<and> in_window w h l')"
proof -
  have "size_ok (ks_zero\<lparr>sv_width := w, sv_height := h\<rparr>)" using assms(1-4) by (simp add: size_ok_def)
  note d = size_sint[OF this, simplified]
  show ?thesis using clip_line_ends[OF d assms(5), of 8] outs_le[of w h l] by auto
qed

lemma line_clipping_ends_witness:
  "clip_line 8 420 300 \<lparr>ln_x0 = -100, ln_y0 = -100, ln_x1 = 1000, ln_y1 = 600, ln_color = 0\<rparr> \<noteq> Inl KS_INVALID"
  using line_clipping_ends[of 420 300 "\<lparr>ln_x0 = -100, ln_y0 = -100, ln_x1 = 1000, ln_y1 = 600, ln_color = 0\<rparr>"]
  by (auto simp: i16_line_def in_i16_def)

end
