(* ===== verification/Input_Devices.thy ===== *)
theory Input_Devices
  imports Text_Input Clock
begin

text \<open>
  The PS/2 mouse (\<^verbatim>\<open>kernel/mouse.c\<close>) and keyboard (\<^verbatim>\<open>kernel/keyboard.c\<close>) drivers over the ports of the i8042
  controller, which is hardware: reading and writing a port are parameters over its state. Handlers and
  the sections between \<^verbatim>\<open>irq_save\<close> and \<^verbatim>\<open>irq_restore\<close> run undisturbed; each is one step. An \<open>i32\<close> is an \<open>int\<close>.
\<close>

record 'd ps2 =
  in_port :: "u16 \<Rightarrow> 'd \<Rightarrow> u8 \<times> 'd"
  out_port :: "u16 \<Rightarrow> u8 \<Rightarrow> 'd \<Rightarrow> 'd"

definition PS2_TRIES :: nat where "PS2_TRIES = 100000"

section \<open>The mouse\<close>

record mouse =
  mo_x :: int
  mo_y :: int
  mo_w :: int
  mo_h :: int
  mo_buttons :: u8
  mo_physical :: u8
  mo_synthetic :: u8
  mo_wheel :: int
  mo_packet_len :: nat
  mo_packet :: "u8 list"
  mo_phase :: nat
  mo_present :: bool
  mo_events :: u32

definition mouse_boot :: mouse where
  "mouse_boot = \<lparr>mo_x = 0, mo_y = 0, mo_w = 640, mo_h = 480, mo_buttons = 0, mo_physical = 0, mo_synthetic = 0,
     mo_wheel = 0, mo_packet_len = 3, mo_packet = [0, 0, 0, 0], mo_phase = 0, mo_present = False, mo_events = 0\<rparr>"

text \<open>The bounded waits: until bit 1 of the status is clear, until bit 0 is set.\<close>

fun wait_write :: "nat \<Rightarrow> 'd ps2 \<Rightarrow> 'd \<Rightarrow> 'd" where
  "wait_write 0 io d = d"
| "wait_write (Suc n) io d = (case in_port io 0x64 d of (st, d) \<Rightarrow> if st AND 2 \<noteq> 0 then wait_write n io d else d)"

fun wait_read :: "nat \<Rightarrow> 'd ps2 \<Rightarrow> 'd \<Rightarrow> 'd" where
  "wait_read 0 io d = d"
| "wait_read (Suc n) io d = (case in_port io 0x64 d of (st, d) \<Rightarrow> if st AND 1 = 0 then wait_read n io d else d)"

definition out_waiting :: "'d ps2 \<Rightarrow> u16 \<Rightarrow> u8 \<Rightarrow> 'd \<Rightarrow> 'd" where
  "out_waiting io port v d = out_port io port v (wait_write PS2_TRIES io d)"

definition mouse_cmd :: "'d ps2 \<Rightarrow> u8 \<Rightarrow> 'd \<Rightarrow> 'd" where
  "mouse_cmd io cmd d = snd (in_port io 0x60 (wait_read PS2_TRIES io (out_waiting io 0x60 cmd (out_waiting io 0x64 0xD4 d))))"

definition mouse_clamp :: "mouse \<Rightarrow> mouse" where
  "mouse_clamp m =
     (let x = (if mo_x m < 0 then 0 else mo_x m); y = (if mo_y m < 0 then 0 else mo_y m)
      in m\<lparr>mo_x := (if x \<ge> mo_w m then mo_w m - 1 else x), mo_y := (if y \<ge> mo_h m then mo_h m - 1 else y)\<rparr>)"

text \<open>A complete packet.\<close>

definition mouse_packet :: "mouse \<Rightarrow> mouse" where
  "mouse_packet m =
     (let f = mo_packet m ! 0 in
      if f AND 0xC0 \<noteq> 0 then m
      else let dx = uint (mo_packet m ! 1) - (if f AND 0x10 \<noteq> 0 then 256 else 0);
               dy = uint (mo_packet m ! 2) - (if f AND 0x20 \<noteq> 0 then 256 else 0);
               m = mouse_clamp (m\<lparr>mo_x := mo_x m + dx, mo_y := mo_y m - dy\<rparr>);
               m = m\<lparr>mo_physical := f AND 7, mo_buttons := (f AND 7) OR mo_synthetic m\<rparr>;
               w = mo_wheel m + sint (mo_packet m ! 3);
               w = (if w > 120 then 120 else w); w = (if w < -120 then -120 else w)
           in m\<lparr>mo_wheel := (if mo_packet_len m = 4 then w else mo_wheel m), mo_events := mo_events m + 1\<rparr>)"

definition mouse_byte :: "u8 \<Rightarrow> mouse \<Rightarrow> mouse" where
  "mouse_byte b m =
     (if mo_phase m = 0 \<and> b AND 8 = 0 then m
      else let m = m\<lparr>mo_packet := (mo_packet m)[mo_phase m := b], mo_phase := mo_phase m + 1\<rparr>
           in if mo_phase m < mo_packet_len m then m else mouse_packet (m\<lparr>mo_phase := 0\<rparr>))"

definition mouse_cb :: "'d ps2 \<Rightarrow> 'd \<times> mouse \<Rightarrow> 'd \<times> mouse" where
  "mouse_cb io dm =
     (case dm of (d, m) \<Rightarrow>
        case in_port io 0x64 d of
          (st, d) \<Rightarrow> if st AND 0x01 = 0 \<or> st AND 0x20 = 0 then (d, m)
                     else (case in_port io 0x60 d of (b, d) \<Rightarrow> (d, mouse_byte b m)))"

definition mouse_config :: "u8 \<Rightarrow> u8" where
  "mouse_config cfg = ((((cfg OR 0x02) AND NOT 0x20) OR 0x01) AND NOT 0x10) OR 0x40"

text \<open>Initialisation: the controller, then the IntelliMouse handshake. The interrupt handler is \<^term>\<open>mouse_cb\<close>.\<close>

definition mouse_init :: "'d ps2 \<Rightarrow> int \<Rightarrow> int \<Rightarrow> 'd \<times> mouse \<Rightarrow> 'd \<times> mouse" where
  "mouse_init io w h dm =
     (case dm of (d, m) \<Rightarrow>
        let m = m\<lparr>mo_w := w, mo_h := h, mo_x := (if w < 0 then - ((- w) div 2) else w div 2),
                   mo_y := (if h < 0 then - ((- h) div 2) else h div 2), mo_phase := 0, mo_buttons := 0,
                   mo_physical := 0, mo_synthetic := 0, mo_wheel := 0, mo_packet_len := 3\<rparr>;
            d = out_waiting io 0x64 0xA8 d; d = out_waiting io 0x64 0x20 d; d = wait_read PS2_TRIES io d
        in case in_port io 0x60 d of
             (cfg, d) \<Rightarrow>
               let d = out_waiting io 0x64 0x60 d; d = out_waiting io 0x60 (mouse_config cfg) d;
                   d = mouse_cmd io 0xF6 d;
                   d = mouse_cmd io 200 (mouse_cmd io 0xF3 d); d = mouse_cmd io 100 (mouse_cmd io 0xF3 d);
                   d = mouse_cmd io 80 (mouse_cmd io 0xF3 d); d = wait_read PS2_TRIES io (mouse_cmd io 0xF2 d)
               in case in_port io 0x60 d of
                    (i, d) \<Rightarrow> (mouse_cmd io 0xF4 d, m\<lparr>mo_packet_len := (if i = 3 then 4 else 3), mo_present := True\<rparr>))"

definition mouse_wheel_delta :: "mouse \<Rightarrow> mouse \<times> int" where
  "mouse_wheel_delta m = (m\<lparr>mo_wheel := 0\<rparr>, mo_wheel m)"

definition mouse_move_rel :: "int \<Rightarrow> int \<Rightarrow> mouse \<Rightarrow> mouse" where
  "mouse_move_rel dx dy m = (mouse_clamp (m\<lparr>mo_x := mo_x m + dx, mo_y := mo_y m + dy\<rparr>))\<lparr>mo_events := mo_events m + 1\<rparr>"

definition mouse_set_button :: "int \<Rightarrow> bool \<Rightarrow> mouse \<Rightarrow> mouse" where
  "mouse_set_button btn down m =
     (let b = push_bit (nat (btn mod 4)) 1; s = (if down then mo_synthetic m OR b else mo_synthetic m AND NOT b)
      in m\<lparr>mo_synthetic := s, mo_buttons := mo_physical m OR s, mo_events := mo_events m + 1\<rparr>)"

definition mouse_set_bounds :: "int \<Rightarrow> int \<Rightarrow> mouse \<Rightarrow> mouse" where
  "mouse_set_bounds w h m =
     m\<lparr>mo_w := w, mo_h := h, mo_x := (if mo_x m \<ge> w then w - 1 else mo_x m), mo_y := (if mo_y m \<ge> h then h - 1 else mo_y m)\<rparr>"

definition mouse_set_pos :: "int \<Rightarrow> int \<Rightarrow> mouse \<Rightarrow> mouse" where
  "mouse_set_pos x y m = m\<lparr>mo_x := x, mo_y := y\<rparr>"

section \<open>The keyboard\<close>

definition KBD_BUF :: nat where "KBD_BUF = 256"

definition KEY_LAYOUT :: int where "KEY_LAYOUT = 0x100"

record kbd =
  kb_buf :: "kbd_event list"
  kb_head :: nat
  kb_tail :: nat
  kb_map :: keymap
  kb_mousekeys :: bool
  kb_speed :: int
  kb_release :: u64
  kb_leds :: u8

definition no_key :: kbd_event where
  "no_key = \<lparr>ev_key = 0, ev_codepoint = 0, ev_modifiers = 0, ev_physical = 0\<rparr>"

definition kbd_boot :: kbd where
  "kbd_boot = \<lparr>kb_buf = replicate KBD_BUF no_key, kb_head = 0, kb_tail = 0, kb_map = keymap_init, kb_mousekeys = False,
     kb_speed = 1, kb_release = 0, kb_leds = 0\<rparr>"

definition kbd_push :: "kbd_event \<Rightarrow> kbd \<Rightarrow> kbd" where
  "kbd_push e k =
     (let n = (kb_head k + 1) mod KBD_BUF
      in if n \<noteq> kb_tail k then k\<lparr>kb_buf := (kb_buf k)[kb_head k := e], kb_head := n\<rparr> else k)"

definition kbd_getevent_nb :: "kbd \<Rightarrow> kbd \<times> kbd_event option" where
  "kbd_getevent_nb k =
     (if kb_head k = kb_tail k then (k, None)
      else (k\<lparr>kb_tail := (kb_tail k + 1) mod KBD_BUF\<rparr>, Some (kb_buf k ! kb_tail k)))"

text \<open>The loop of \<^verbatim>\<open>kbd_getchar_nb\<close>; the ring holds fewer than 256 events, so 256 rounds are enough.\<close>

fun kbd_getchar_loop :: "nat \<Rightarrow> kbd \<Rightarrow> kbd \<times> int" where
  "kbd_getchar_loop 0 k = (k, -1)"
| "kbd_getchar_loop (Suc n) k =
     (case kbd_getevent_nb k of
        (k, None) \<Rightarrow> (k, -1)
      | (k, Some e) \<Rightarrow> if ev_key e \<noteq> KEY_LAYOUT then (k, ev_key e) else kbd_getchar_loop n k)"

definition kbd_getchar_nb :: "kbd \<Rightarrow> kbd \<times> int" where
  "kbd_getchar_nb k = kbd_getchar_loop KBD_BUF k"

definition kbd_layout_set :: "bool \<Rightarrow> kbd \<Rightarrow> kbd" where
  "kbd_layout_set russian k = k\<lparr>kb_map := (kb_map k)\<lparr>km_layout := russian\<rparr>\<rparr>"

definition kbd_shift :: "kbd \<Rightarrow> bool" where
  "kbd_shift k \<longleftrightarrow> keymap_modifiers (kb_map k) AND 1 \<noteq> 0"

text \<open>\<^verbatim>\<open>kbd_wait_ack\<close>: a byte that is no acknowledgement is dropped.\<close>

fun kbd_wait_ack :: "nat \<Rightarrow> 'd ps2 \<Rightarrow> 'd \<Rightarrow> 'd" where
  "kbd_wait_ack 0 io d = d"
| "kbd_wait_ack (Suc n) io d =
     (case in_port io 0x64 d of
        (st, d) \<Rightarrow>
          if st AND 1 = 0 then kbd_wait_ack n io d
          else (case in_port io 0x60 d of (r, d) \<Rightarrow> if r = 0xFA \<or> r = 0xFE then d else kbd_wait_ack n io d))"

definition kbd_set_leds :: "'d ps2 \<Rightarrow> u8 \<Rightarrow> 'd \<times> kbd \<Rightarrow> 'd \<times> kbd" where
  "kbd_set_leds io leds dk =
     (case dk of (d, k) \<Rightarrow>
        let d = kbd_wait_ack PS2_TRIES io (out_waiting io 0x60 0xED d);
            d = kbd_wait_ack PS2_TRIES io (out_waiting io 0x60 (leds AND 7) d)
        in (d, k\<lparr>kb_leds := leds AND 7\<rparr>))"

definition kbd_sync_leds :: "'d ps2 \<Rightarrow> 'd \<times> kbd \<Rightarrow> 'd \<times> kbd" where
  "kbd_sync_leds io dk =
     (let k = snd dk in kbd_set_leds io ((if km_caps (kb_map k) then 4 else 0) OR (if kb_mousekeys k then 2 else 0)) dk)"

text \<open>The three devices together.\<close>

type_synonym 'd input = "'d \<times> mouse \<times> kbd"

definition kbd_mousekeys_set :: "'d ps2 \<Rightarrow> bool \<Rightarrow> 'd input \<Rightarrow> 'd input" where
  "kbd_mousekeys_set io on s =
     (case s of (d, m, k) \<Rightarrow>
        let k = k\<lparr>kb_mousekeys := on, kb_release := 0\<rparr>; m = (if \<not> on then mouse_set_button 0 False m else m)
        in case kbd_sync_leds io (d, k) of (d, k) \<Rightarrow> (d, m, k))"

text \<open>The keypad as a pointer: the new mouse and keyboard for the keys that are handled.\<close>

definition mouse_key :: "timer \<Rightarrow> u8 \<Rightarrow> mouse \<times> kbd \<Rightarrow> (mouse \<times> kbd) option" where
  "mouse_key t sc mk =
     (case mk of (m, k) \<Rightarrow>
        let mods = keymap_modifiers (kb_map k);
            step = (if mods AND 1 \<noteq> 0 then 1 else if mods AND 2 \<noteq> 0 then 48 else 8) * kb_speed k
        in if sc = 0x48 then Some (mouse_move_rel 0 (- step) m, k)
           else if sc = 0x50 then Some (mouse_move_rel 0 step m, k)
           else if sc = 0x4B then Some (mouse_move_rel (- step) 0 m, k)
           else if sc = 0x4D then Some (mouse_move_rel step 0 m, k)
           else if sc = 0x47 then Some (mouse_move_rel (- step) (- step) m, k)
           else if sc = 0x49 then Some (mouse_move_rel step (- step) m, k)
           else if sc = 0x4F then Some (mouse_move_rel (- step) step m, k)
           else if sc = 0x51 then Some (mouse_move_rel step step m, k)
           else if sc = 0x4C then Some (mouse_set_button 0 True m, k\<lparr>kb_release := ti_ticks t + ucast (ti_freq t * 180 div 1000) + 1\<rparr>)
           else if sc = 0x52 then Some (mouse_set_button 0 True m, k\<lparr>kb_release := 0\<rparr>)
           else if sc = 0x53 then Some (mouse_set_button 0 False m, k\<lparr>kb_release := 0\<rparr>)
           else if sc = 0x4E then Some (m, if kb_speed k < 8 then k\<lparr>kb_speed := kb_speed k + 1\<rparr> else k)
           else if sc = 0x4A then Some (m, if kb_speed k > 1 then k\<lparr>kb_speed := kb_speed k - 1\<rparr> else k)
           else None)"

definition kbd_scan :: "'d ps2 \<Rightarrow> timer \<Rightarrow> u8 \<Rightarrow> 'd input \<Rightarrow> 'd input" where
  "kbd_scan io t sc s =
     (case s of (d, m, k) \<Rightarrow>
        if sc = 0xFA \<or> sc = 0xFE \<or> sc = 0xEE \<or> sc = 0x00 \<or> sc = 0xFF then s
        else let km = kb_map k; plain = (\<not> km_extended km \<and> km_skip km = 0) in
          case (if kb_mousekeys k \<and> plain \<and> sc AND 0x80 = 0 then mouse_key t sc (m, k) else None) of
            Some (m, k) \<Rightarrow> (d, m, k)
          | None \<Rightarrow>
              if sc = 0x45 \<and> plain then kbd_mousekeys_set io (\<not> kb_mousekeys k) s
              else (case keymap_feed km (ucast sc) of
                      (km', e) \<Rightarrow>
                        let k = k\<lparr>kb_map := km'\<rparr>; k = (case e of Some e \<Rightarrow> kbd_push e k | None \<Rightarrow> k)
                        in if km_caps km \<noteq> km_caps km' then (case kbd_sync_leds io (d, k) of (d, k) \<Rightarrow> (d, m, k)) else (d, m, k)))"

definition kbd_cb :: "'d ps2 \<Rightarrow> timer \<Rightarrow> 'd input \<Rightarrow> 'd input" where
  "kbd_cb io t s =
     (case s of (d, m, k) \<Rightarrow>
        case in_port io 0x64 d of
          (st, d) \<Rightarrow> if st AND 0x01 = 0 then (d, m, k)
                     else (case in_port io 0x60 d of (sc, d) \<Rightarrow> kbd_scan io t sc (d, m, k)))"

fun poll_loop :: "nat \<Rightarrow> 'd ps2 \<Rightarrow> timer \<Rightarrow> 'd input \<Rightarrow> 'd input" where
  "poll_loop 0 io t s = s"
| "poll_loop (Suc n) io t (d, m, k) =
     (case in_port io 0x64 d of
        (st, d) \<Rightarrow> if st AND 0x01 = 0 \<or> st AND 0x20 \<noteq> 0 then (d, m, k) else poll_loop n io t (kbd_cb io t (d, m, k)))"

definition kbd_poll :: "'d ps2 \<Rightarrow> timer \<Rightarrow> 'd input \<Rightarrow> 'd input" where
  "kbd_poll io t s =
     (case poll_loop 8 io t s of
        (d, m, k) \<Rightarrow> if kb_release k \<noteq> 0 \<and> ti_ticks t \<ge> kb_release k
                     then (d, mouse_set_button 0 False m, k\<lparr>kb_release := 0\<rparr>) else (d, m, k))"

fun kbd_drain :: "nat \<Rightarrow> 'd ps2 \<Rightarrow> 'd \<Rightarrow> 'd" where
  "kbd_drain 0 io d = d"
| "kbd_drain (Suc n) io d =
     (case in_port io 0x64 d of (st, d) \<Rightarrow> if st AND 1 = 0 then d else kbd_drain n io (snd (in_port io 0x60 d)))"

text \<open>The configuration byte of the controller, 0 if none comes.\<close>

fun read_config :: "nat \<Rightarrow> 'd ps2 \<Rightarrow> 'd \<Rightarrow> u8 \<times> 'd" where
  "read_config 0 io d = (0, d)"
| "read_config (Suc n) io d =
     (case in_port io 0x64 d of (st, d) \<Rightarrow> if st AND 1 = 0 then read_config n io d else in_port io 0x60 d)"

definition keyboard_init :: "'d ps2 \<Rightarrow> 'd \<times> kbd \<Rightarrow> 'd \<times> kbd" where
  "keyboard_init io dk =
     (case dk of (d, k) \<Rightarrow>
        let d = kbd_drain 32 io d; d = out_waiting io 0x64 0xAE d; d = out_waiting io 0x64 0x20 d
        in case read_config PS2_TRIES io d of
             (cfg, d) \<Rightarrow>
               let cfg = ((cfg OR 0x01) AND NOT 0x10) OR 0x40;
                   d = out_waiting io 0x60 cfg (out_waiting io 0x64 0x60 d);
                   d = kbd_wait_ack PS2_TRIES io (out_waiting io 0x60 0xF4 d)
               in (kbd_drain 32 io d, k\<lparr>kb_head := 0, kb_tail := 0, kb_map := keymap_init\<rparr>))"

end
