(* ===== verification/Input_Queue.thy ===== *)
theory Input_Queue
  imports Input_Devices
begin

text \<open>
  The event ring of \<^verbatim>\<open>kernel/keyboard.c\<close> as a bounded queue, through a contract for queues that drop what does
  not fit.
\<close>

section \<open>The contract\<close>

locale bounded_fifo =
  fixes valid :: "'s \<Rightarrow> bool"
    and view :: "'s \<Rightarrow> 'e list"
    and push :: "'e \<Rightarrow> 's \<Rightarrow> 's"
    and pop :: "'s \<Rightarrow> 's \<times> 'e option"
    and room :: nat
  assumes push_law: "valid s \<Longrightarrow> valid (push e s) \<and> view (push e s) = take room (view s @ [e])"
    and pop_law: "valid s \<Longrightarrow> valid (fst (pop s)) \<and>
      (case view s of [] \<Rightarrow> pop s = (s, None) | e # es \<Rightarrow> snd (pop s) = Some e \<and> view (fst (pop s)) = es)"
    and view_room: "valid s \<Longrightarrow> length (view s) \<le> room"
begin

fun pops :: "nat \<Rightarrow> 's \<Rightarrow> 's \<times> 'e list" where
  "pops 0 s = (s, [])"
| "pops (Suc n) s = (case pop s of (s, None) \<Rightarrow> (s, []) | (s, Some e) \<Rightarrow> (case pops n s of (s, es) \<Rightarrow> (s, e # es)))"

lemma pushes: "valid s \<Longrightarrow> valid (fold push es s) \<and> view (fold push es s) = take room (view s @ es)"
proof (induction es arbitrary: s)
  case Nil
  then show ?case using view_room[OF Nil] by simp
next
  case (Cons e es)
  note p = push_law[OF Cons.prems, of e]
  have "take room (take room (view s @ [e]) @ es) = take room (view s @ e # es)"
    by (cases "length (view s) < room") (simp_all add: take_append)
  then show ?case using Cons.IH[of "push e s"] p by simp
qed

lemma pops_view: "valid s \<Longrightarrow> valid (fst (pops n s)) \<and> snd (pops n s) = take n (view s) \<and> view (fst (pops n s)) = drop n (view s)"
proof (induction n arbitrary: s)
  case (Suc n)
  note p = pop_law[OF Suc.prems]
  show ?case
  proof (cases "view s")
    case Nil
    then show ?thesis using p Suc.prems by simp
  next
    case (Cons e es)
    define s1 where "s1 = fst (pop s)"
    have q: "pop s = (s1, Some e)" "valid s1" "view s1 = es" using p Cons by (simp_all add: s1_def prod_eq_iff)
    show ?thesis using Suc.IH[OF q(2)] by (cases "pops n s1") (simp add: q Cons)
  qed
qed simp

text \<open>What is pushed comes out in order; what does not fit is dropped, not what was there.\<close>

lemma fifo:
  assumes "valid s"
  shows "snd (pops n (fold push es s)) = take n (take room (view s @ es))"
  using pops_view[of "fold push es s" n] pushes[OF assms, of es] by simp

end

section \<open>The ring\<close>

definition ring_len :: "kbd \<Rightarrow> nat" where
  "ring_len k = (kb_head k + KBD_BUF - kb_tail k) mod KBD_BUF"

definition kbd_events :: "kbd \<Rightarrow> kbd_event list" where
  "kbd_events k = map (\<lambda>i. kb_buf k ! ((kb_tail k + i) mod KBD_BUF)) [0..<ring_len k]"

definition ring_ok :: "kbd \<Rightarrow> bool" where
  "ring_ok k \<longleftrightarrow> length (kb_buf k) = KBD_BUF \<and> kb_head k < KBD_BUF \<and> kb_tail k < KBD_BUF"

lemma ring_len_less: "ring_ok k \<Longrightarrow> ring_len k < KBD_BUF"
  by (simp add: ring_len_def KBD_BUF_def)

lemma ring_head: "ring_ok k \<Longrightarrow> kb_head k = (kb_tail k + ring_len k) mod KBD_BUF"
  unfolding ring_ok_def ring_len_def by (cases "kb_tail k \<le> kb_head k") (auto simp: KBD_BUF_def mod_if)

lemma ring_slot_inj:
  "i < KBD_BUF \<Longrightarrow> j < KBD_BUF \<Longrightarrow> t < KBD_BUF \<Longrightarrow> (t + i) mod KBD_BUF = (t + j) mod KBD_BUF \<Longrightarrow> i = j"
  by (auto simp: mod_if split: if_splits)

lemma ring_push:
  assumes k: "ring_ok k"
  shows "ring_ok (kbd_push e k) \<and> kbd_events (kbd_push e k) = take 255 (kbd_events k @ [e])"
proof (cases "(kb_head k + 1) mod KBD_BUF = kb_tail k")
  case True
  then have "ring_len k = 255" using k unfolding ring_len_def ring_ok_def by (auto simp: KBD_BUF_def mod_if split: if_splits)
  then show ?thesis using k True by (simp add: kbd_push_def Let_def kbd_events_def)
next
  case False
  let ?k = "k\<lparr>kb_buf := (kb_buf k)[kb_head k := e], kb_head := (kb_head k + 1) mod KBD_BUF\<rparr>"
  have p: "kbd_push e k = ?k" using False by (simp add: kbd_push_def Let_def)
  have l: "ring_len ?k = Suc (ring_len k)" "ring_len k < 255"
    using k False unfolding ring_len_def ring_ok_def by (auto simp: KBD_BUF_def mod_if split: if_splits)
  have same: "(kb_buf k)[kb_head k := e] ! ((kb_tail k + i) mod KBD_BUF) = kb_buf k ! ((kb_tail k + i) mod KBD_BUF)"
    if "i < ring_len k" for i
  proof (rule nth_list_update_neq)
    show "kb_head k \<noteq> (kb_tail k + i) mod KBD_BUF"
      using ring_slot_inj[of i "ring_len k" "kb_tail k"] ring_head[OF k] that l(2) k by (auto simp: ring_ok_def KBD_BUF_def)
  qed
  have "kbd_events ?k = kbd_events k @ [e]"
    unfolding kbd_events_def l(1) using same ring_head[OF k] k by (simp add: ring_ok_def)
  moreover have "length (kbd_events k) < 255" using l(2) by (simp add: kbd_events_def)
  ultimately show ?thesis using k unfolding p by (simp add: ring_ok_def KBD_BUF_def)
qed

lemma ring_pop:
  assumes k: "ring_ok k"
  shows "ring_ok (fst (kbd_getevent_nb k)) \<and>
    (case kbd_events k of [] \<Rightarrow> kbd_getevent_nb k = (k, None)
     | e # es \<Rightarrow> snd (kbd_getevent_nb k) = Some e \<and> kbd_events (fst (kbd_getevent_nb k)) = es)"
proof (cases "kb_head k = kb_tail k")
  case True
  then show ?thesis using k by (simp add: kbd_getevent_nb_def kbd_events_def ring_len_def KBD_BUF_def)
next
  case False
  let ?k = "k\<lparr>kb_tail := (kb_tail k + 1) mod KBD_BUF\<rparr>"
  have l: "ring_len k = Suc (ring_len ?k)"
    using k False unfolding ring_len_def ring_ok_def by (auto simp: KBD_BUF_def mod_if split: if_splits)
  have sh: "(Suc (kb_tail k) mod KBD_BUF + i) mod KBD_BUF = Suc (kb_tail k + i) mod KBD_BUF" for i by (metis add_Suc mod_add_left_eq)
  have "kbd_events k = kb_buf k ! kb_tail k # kbd_events ?k"
    unfolding kbd_events_def l map_upt_Suc using k by (simp add: ring_ok_def sh)
  then show ?thesis using k False by (simp add: kbd_getevent_nb_def ring_ok_def KBD_BUF_def)
qed

interpretation ring: bounded_fifo ring_ok kbd_events kbd_push kbd_getevent_nb 255
proof
  show "length (kbd_events k) \<le> 255" if "ring_ok k" for k
    using ring_len_less[OF that] by (simp add: kbd_events_def KBD_BUF_def)
qed (use ring_push ring_pop in auto)

text \<open>Reading a character skips the layout switches.\<close>

definition typed :: "kbd_event list \<Rightarrow> kbd_event list" where
  "typed es = dropWhile (\<lambda>e. ev_key e = KEY_LAYOUT) es"

lemma getchar_loop:
  assumes "ring_ok k" "length (kbd_events k) < n"
  shows "ring_ok (fst (kbd_getchar_loop n k)) \<and> kbd_events (fst (kbd_getchar_loop n k)) = tl (typed (kbd_events k)) \<and>
    snd (kbd_getchar_loop n k) = (case typed (kbd_events k) of [] \<Rightarrow> -1 | e # _ \<Rightarrow> ev_key e)"
  using assms
proof (induction n arbitrary: k)
  case (Suc n)
  note p = ring_pop[OF Suc.prems(1)]
  show ?case
  proof (cases "kbd_events k")
    case Nil
    then show ?thesis using p Suc.prems by (simp add: typed_def)
  next
    case (Cons e es)
    then have q: "kbd_getevent_nb k = (fst (kbd_getevent_nb k), Some e)" "ring_ok (fst (kbd_getevent_nb k))"
      "kbd_events (fst (kbd_getevent_nb k)) = es" using p by (simp_all add: prod_eq_iff)
    define k1 where "k1 = fst (kbd_getevent_nb k)"
    have g: "kbd_getevent_nb k = (k1, Some e)" "ring_ok k1" "kbd_events k1 = es" using q by (simp_all add: k1_def)
    show ?thesis using Suc.IH[OF g(2)] Suc.prems(2) g by (cases "ev_key e = KEY_LAYOUT") (simp_all add: typed_def Cons)
  qed
qed simp

end
