(* ===== verification/Input_Props.thy ===== *)
theory Input_Props
  imports Input_Queue
begin

text \<open>
  The input devices of \<^verbatim>\<open>kernel/mouse.c\<close> and \<^verbatim>\<open>kernel/keyboard.c\<close> in every state they can reach, for any
  behaviour of the controller.
\<close>

section \<open>Well-formed devices\<close>

definition mouse_ok :: "mouse \<Rightarrow> bool" where
  "mouse_ok m \<longleftrightarrow> 0 \<le> mo_x m \<and> mo_x m < mo_w m \<and> 0 \<le> mo_y m \<and> mo_y m < mo_h m \<and>
     mo_buttons m = mo_physical m OR mo_synthetic m \<and> \<bar>mo_wheel m\<bar> \<le> 120 \<and>
     (mo_packet_len m = 3 \<or> mo_packet_len m = 4) \<and> mo_phase m < mo_packet_len m \<and> length (mo_packet m) = 4"

definition kbd_ok :: "kbd \<Rightarrow> bool" where
  "kbd_ok k \<longleftrightarrow> ring_ok k \<and> list_all event_ok (kbd_events k) \<and> keymap_ok (kb_map k) \<and> 1 \<le> kb_speed k \<and> kb_speed k \<le> 8 \<and>
     kb_leds k AND 7 = kb_leds k"

definition input_ok :: "'d input \<Rightarrow> bool" where
  "input_ok s = (case s of (d, m, k) \<Rightarrow> mouse_ok m \<and> kbd_ok k)"

lemma clamp_ok:
  "0 < mo_w m \<Longrightarrow> 0 < mo_h m \<Longrightarrow> 0 \<le> mo_x (mouse_clamp m) \<and> mo_x (mouse_clamp m) < mo_w m \<and> 0 \<le> mo_y (mouse_clamp m) \<and> mo_y (mouse_clamp m) < mo_h m"
  by (auto simp: mouse_clamp_def Let_def)

lemma clamp_fields:
  "mo_w (mouse_clamp m) = mo_w m" "mo_h (mouse_clamp m) = mo_h m" "mo_buttons (mouse_clamp m) = mo_buttons m"
  "mo_physical (mouse_clamp m) = mo_physical m" "mo_synthetic (mouse_clamp m) = mo_synthetic m" "mo_wheel (mouse_clamp m) = mo_wheel m"
  "mo_packet_len (mouse_clamp m) = mo_packet_len m" "mo_packet (mouse_clamp m) = mo_packet m" "mo_phase (mouse_clamp m) = mo_phase m"
  by (simp_all add: mouse_clamp_def Let_def)

lemma move_rel_ok: "mouse_ok m \<Longrightarrow> mouse_ok (mouse_move_rel dx dy m)"
  using clamp_ok[of "m\<lparr>mo_x := mo_x m + dx, mo_y := mo_y m + dy\<rparr>"] by (auto simp: mouse_ok_def mouse_move_rel_def clamp_fields)

lemma set_button_ok: "mouse_ok m \<Longrightarrow> mouse_ok (mouse_set_button b down m)"
  by (simp add: mouse_ok_def mouse_set_button_def Let_def)

lemma packet_ok: "mouse_ok m \<Longrightarrow> mouse_ok (mouse_packet m)"
  using clamp_ok[of "m\<lparr>mo_x := mo_x m + (uint (mo_packet m ! 1) - (if mo_packet m ! 0 AND 0x10 \<noteq> 0 then 256 else 0)),
      mo_y := mo_y m - (uint (mo_packet m ! 2) - (if mo_packet m ! 0 AND 0x20 \<noteq> 0 then 256 else 0))\<rparr>"]
  by (auto simp: mouse_ok_def mouse_packet_def clamp_fields Let_def)

lemma byte_ok: "mouse_ok m \<Longrightarrow> mouse_ok (mouse_byte b m)"
proof -
  assume m: "mouse_ok m"
  have "mouse_ok (m\<lparr>mo_packet := (mo_packet m)[mo_phase m := b], mo_phase := 0\<rparr>)" using m by (auto simp: mouse_ok_def)
  note p = packet_ok[OF this]
  show ?thesis using m p by (auto simp: mouse_byte_def Let_def mouse_ok_def)
qed

lemma mouse_cb_ok: "mouse_ok m \<Longrightarrow> mouse_ok (snd (mouse_cb io (d, m)))"
  using byte_ok by (auto simp: mouse_cb_def split: prod.splits)

lemma kbd_ok_cong:
  "kbd_ok k \<Longrightarrow> kb_buf k' = kb_buf k \<Longrightarrow> kb_head k' = kb_head k \<Longrightarrow> kb_tail k' = kb_tail k \<Longrightarrow> kb_map k' = kb_map k \<Longrightarrow>
     kb_speed k' = kb_speed k \<Longrightarrow> kb_leds k' AND 7 = kb_leds k' \<Longrightarrow> kbd_ok k'"
  by (simp add: kbd_ok_def ring_ok_def kbd_events_def ring_len_def)

lemma set_leds_ok: "kbd_ok k \<Longrightarrow> kbd_ok (snd (kbd_set_leds io leds (d, k)))"
  by (erule kbd_ok_cong) (simp_all add: kbd_set_leds_def Let_def and.assoc)

lemma sync_leds_ok: "kbd_ok k \<Longrightarrow> kbd_ok (snd (kbd_sync_leds io (d, k)))"
  by (simp add: kbd_sync_leds_def Let_def set_leds_ok)

lemma kbd_leds_mask: "kbd_ok k \<Longrightarrow> kb_leds k AND 7 = kb_leds k"
  by (simp add: kbd_ok_def)

lemma mousekeys_set_ok: "input_ok s \<Longrightarrow> input_ok (kbd_mousekeys_set io on s)"
proof -
  assume "input_ok s"
  then obtain d m k where s: "s = (d, m, k)" "mouse_ok m" "kbd_ok k" by (cases s) (auto simp: input_ok_def)
  have "kbd_ok (k\<lparr>kb_mousekeys := on, kb_release := 0\<rparr>)" by (rule kbd_ok_cong[OF s(3)]) (simp_all add: kbd_leds_mask[OF s(3)])
  note k = sync_leds_ok[OF this, of io d]
  show ?thesis using k s(2) set_button_ok[OF s(2), of 0 False]
    by (auto simp: s(1) kbd_mousekeys_set_def Let_def input_ok_def split: prod.splits)
qed

lemma release_ok: "kbd_ok k \<Longrightarrow> kbd_ok (k\<lparr>kb_release := v\<rparr>)"
  by (rule kbd_ok_cong, assumption) (simp_all add: kbd_leds_mask)

lemma speed_ok: "kbd_ok k \<Longrightarrow> 1 \<le> v \<Longrightarrow> v \<le> 8 \<Longrightarrow> kbd_ok (k\<lparr>kb_speed := v\<rparr>)"
  by (simp add: kbd_ok_def ring_ok_def kbd_events_def ring_len_def)

lemma speed_range: "kbd_ok k \<Longrightarrow> 1 \<le> kb_speed k \<and> kb_speed k \<le> 8"
  by (simp add: kbd_ok_def)

lemma mouse_key_ok:
  assumes "mouse_key t sc (m, k) = Some (m', k')" "mouse_ok m" "kbd_ok k"
  shows "mouse_ok m' \<and> kbd_ok k'"
  using assms speed_range[OF assms(3)] unfolding mouse_key_def prod.case Let_def
  by (auto simp: move_rel_ok set_button_ok release_ok intro!: speed_ok split: if_split_asm)

lemma push_ok:
  assumes "kbd_ok k" "event_ok e"
  shows "kbd_ok (kbd_push e k)"
proof -
  have "list_all event_ok (take 255 (kbd_events k @ [e]))"
    using assms by (auto simp: kbd_ok_def list_all_iff dest: in_set_takeD)
  then show ?thesis using assms ring_push[of k e] by (simp add: kbd_ok_def) (simp add: kbd_push_def Let_def)
qed

lemma kbd_map_ok: "kbd_ok k \<Longrightarrow> keymap_ok km \<Longrightarrow> kbd_ok (k\<lparr>kb_map := km\<rparr>)"
  by (simp add: kbd_ok_def ring_ok_def kbd_events_def ring_len_def)

lemma scan_ok: "input_ok s \<Longrightarrow> input_ok (kbd_scan io t sc s)"
proof -
  assume i: "input_ok s"
  then obtain d m k where s: "s = (d, m, k)" "mouse_ok m" "kbd_ok k" by (cases s) (auto simp: input_ok_def)
  obtain km' e where f: "keymap_feed (kb_map k) (ucast sc) = (km', e)" by fastforce
  have fk: "keymap_ok km' \<and> (\<forall>v. e = Some v \<longrightarrow> event_ok v)" by (rule keymap_feed_ok[OF _ f]) (use s(3) in \<open>simp add: kbd_ok_def\<close>)
  define k1 where "k1 = (case e of Some e \<Rightarrow> kbd_push e (k\<lparr>kb_map := km'\<rparr>) | None \<Rightarrow> k\<lparr>kb_map := km'\<rparr>)"
  have k1: "kbd_ok k1" using fk kbd_map_ok[OF s(3)] push_ok by (auto simp: k1_def split: option.splits)
  have a: "input_ok (case kbd_sync_leds io (d, k1) of (d, k) \<Rightarrow> (d, m, k))"
    using sync_leds_ok[OF k1, of io d] s(2) by (auto simp: input_ok_def split: prod.splits)
  have b: "input_ok (d, m', k')" if "mouse_key t sc (m, k) = Some (m', k')" for m' k'
    using mouse_key_ok[OF that s(2,3)] by (simp add: input_ok_def)
  have c: "input_ok (d, m, k1)" using k1 s(2) by (simp add: input_ok_def)
  show ?thesis unfolding s(1) kbd_scan_def prod.case Let_def f k1_def[symmetric]
    using i a b c mousekeys_set_ok[OF i] by (auto simp: s(1) split: option.splits prod.splits)
qed

lemma kbd_cb_ok:
  fixes io :: "'d ps2"
  assumes i: "input_ok s"
  shows "input_ok (kbd_cb io t s)"
proof -
  obtain d m k where s: "s = (d, m, k)" "mouse_ok m" "kbd_ok k" using i by (cases s) (auto simp: input_ok_def)
  have "input_ok (d', m, k)" for d' :: 'd using s by (simp add: input_ok_def)
  then show ?thesis unfolding s(1) kbd_cb_def prod.case by (simp add: scan_ok split: prod.splits)
qed

lemma poll_loop_ok:
  fixes io :: "'d ps2"
  shows "input_ok s \<Longrightarrow> input_ok (poll_loop n io t s)"
proof (induction n arbitrary: s)
  case (Suc n)
  obtain d m k where s: "s = (d, m, k)" by (cases s)
  have i: "input_ok (d', m, k)" for d' :: 'd using Suc.prems by (simp add: input_ok_def s)
  show ?case using i by (simp add: s Suc.IH kbd_cb_ok split: prod.splits)
qed simp

lemma poll_ok: "input_ok s \<Longrightarrow> input_ok (kbd_poll io t s)"
proof -
  assume i: "input_ok s"
  obtain d m k where p: "poll_loop 8 io t s = (d, m, k)" by (metis prod.exhaust)
  have q: "mouse_ok m" "kbd_ok k" using poll_loop_ok[OF i, of 8 io t] by (simp_all add: p input_ok_def)
  have "kbd_ok (k\<lparr>kb_release := 0\<rparr>)" by (rule kbd_ok_cong[OF q(2)]) (simp_all add: kbd_leds_mask[OF q(2)])
  then show ?thesis using q set_button_ok[OF q(1)] by (simp add: kbd_poll_def p input_ok_def)
qed

lemma getevent_ok: "kbd_ok k \<Longrightarrow> kbd_ok (fst (kbd_getevent_nb k))"
proof -
  assume k: "kbd_ok k"
  note p = ring_pop[of k]
  have "list_all event_ok (kbd_events (fst (kbd_getevent_nb k)))" "ring_ok (fst (kbd_getevent_nb k))"
    using k p by (cases "kbd_events k"; auto simp: kbd_ok_def)+
  then show ?thesis using k by (simp add: kbd_ok_def) (simp add: kbd_getevent_nb_def)
qed

lemma getchar_ok: "kbd_ok k \<Longrightarrow> kbd_ok (fst (kbd_getchar_loop n k))"
proof (induction n arbitrary: k)
  case (Suc n)
  show ?case using getevent_ok[OF Suc.prems] Suc.IH
    by (cases "kbd_getevent_nb k") (auto split: option.splits)
qed simp

section \<open>Reachable states\<close>

definition input_start :: "'d ps2 \<Rightarrow> int \<Rightarrow> int \<Rightarrow> 'd \<Rightarrow> 'd input" where
  "input_start io w h d = (case keyboard_init io (d, kbd_boot) of (d, k) \<Rightarrow> case mouse_init io w h (d, mouse_boot) of (d, m) \<Rightarrow> (d, m, k))"

text \<open>Interrupts and polls at any time, any change of the controller, and the calls of the rest of the kernel.\<close>

inductive input_step :: "'d ps2 \<Rightarrow> 'd input \<Rightarrow> 'd input \<Rightarrow> bool" for io where
  step_key: "input_step io s (kbd_cb io t s)"
| step_mouse: "mouse_cb io (d, m) = (d', m') \<Longrightarrow> input_step io (d, m, k) (d', m', k)"
| step_poll: "input_step io s (kbd_poll io t s)"
| step_hardware: "input_step io (d, m, k) (d', m, k)"
| step_event: "kbd_getevent_nb k = (k', e) \<Longrightarrow> input_step io (d, m, k) (d, m, k')"
| step_char: "kbd_getchar_nb k = (k', c) \<Longrightarrow> input_step io (d, m, k) (d, m, k')"
| step_layout: "input_step io (d, m, k) (d, m, kbd_layout_set b k)"
| step_leds: "kbd_set_leds io v (d, k) = (d', k') \<Longrightarrow> input_step io (d, m, k) (d', m, k')"
| step_mousekeys: "input_step io s (kbd_mousekeys_set io b s)"
| step_wheel: "mouse_wheel_delta m = (m', v) \<Longrightarrow> input_step io (d, m, k) (d, m', k)"
| step_move: "input_step io (d, m, k) (d, mouse_move_rel dx dy m, k)"
| step_button: "input_step io (d, m, k) (d, mouse_set_button b down m, k)"
| step_bounds: "0 < w \<Longrightarrow> 0 < h \<Longrightarrow> input_step io (d, m, k) (d, mouse_set_bounds w h m, k)"
| step_pos: "0 \<le> x \<Longrightarrow> x < mo_w m \<Longrightarrow> 0 \<le> y \<Longrightarrow> y < mo_h m \<Longrightarrow> input_step io (d, m, k) (d, mouse_set_pos x y m, k)"

lemma half_less: "0 < w \<Longrightarrow> w div 2 < (w :: int)"
  by presburger

lemma mouse_init_ok: "0 < w \<Longrightarrow> 0 < h \<Longrightarrow> length (mo_packet m) = 4 \<Longrightarrow> mouse_ok (snd (mouse_init io w h (d, m)))"
  by (simp add: mouse_init_def Let_def mouse_ok_def half_less split: prod.splits)

lemma keymap_init_ok: "keymap_ok keymap_init"
  by (simp add: keymap_ok_def keymap_init_def keymap_modifiers_def)

lemma keyboard_init_ok: "length (kb_buf k) = KBD_BUF \<Longrightarrow> 1 \<le> kb_speed k \<Longrightarrow> kb_speed k \<le> 8 \<Longrightarrow> kb_leds k AND 7 = kb_leds k \<Longrightarrow>
    kbd_ok (snd (keyboard_init io (d, k)))"
  by (simp add: keyboard_init_def Let_def kbd_ok_def ring_ok_def kbd_events_def ring_len_def keymap_init_ok KBD_BUF_def split: prod.splits)

lemma input_start_ok:
  assumes "0 < w" "0 < h"
  shows "input_ok (input_start io w h d)"
proof -
  obtain d1 k where k: "keyboard_init io (d, kbd_boot) = (d1, k)" by fastforce
  obtain d2 m where m: "mouse_init io w h (d1, mouse_boot) = (d2, m)" by fastforce
  have "kbd_ok k" using keyboard_init_ok[of kbd_boot io d] k by (simp add: kbd_boot_def)
  moreover have "mouse_ok m" using mouse_init_ok[OF assms, of mouse_boot io d1] m by (simp add: mouse_boot_def)
  ultimately show ?thesis by (simp add: input_start_def k m input_ok_def)
qed

lemma input_step_ok: "input_step io s s' \<Longrightarrow> input_ok s \<Longrightarrow> input_ok s'"
proof (induction rule: input_step.induct)
  case (step_mouse d m d' m' k)
  then show ?case using mouse_cb_ok[of m io d] by (simp add: input_ok_def)
next
  case (step_event k k' e d m)
  then show ?case using getevent_ok[of k] by (simp add: input_ok_def)
next
  case (step_char k k' c d m)
  then show ?case using getchar_ok[of k KBD_BUF] by (simp add: input_ok_def kbd_getchar_nb_def)
next
  case (step_layout d m k b)
  have "keymap_ok ((kb_map k)\<lparr>km_layout := b\<rparr>)" using step_layout by (simp add: input_ok_def kbd_ok_def keymap_ok_def)
  then show ?case using step_layout by (simp add: input_ok_def kbd_layout_set_def kbd_map_ok)
next
  case (step_leds v d k d' k' m)
  then show ?case using set_leds_ok[of k io v d] by (simp add: input_ok_def)
qed (auto simp: kbd_cb_ok poll_ok mousekeys_set_ok, auto simp: input_ok_def move_rel_ok set_button_ok, auto simp: mouse_ok_def
    mouse_wheel_delta_def mouse_set_bounds_def mouse_set_pos_def)

lemma input_steps_ok: "(input_step io)\<^sup>*\<^sup>* s s' \<Longrightarrow> input_ok s \<Longrightarrow> input_ok s'"
  by (induction rule: rtranclp_induct) (auto intro: input_step_ok)

section \<open>Properties\<close>

text \<open>C35. Whatever the PS/2 controller sends, in every state after initialisation the pointer is inside the screen,
  the reported buttons are the physical and the synthetic ones, the wheel sum is at most 120, the packet
  decoder is between two bytes of a packet, and the keyboard ring holds well-formed events only.\<close>

theorem input_devices_wellformed:
  assumes "0 < w" "0 < h" "(input_step io)\<^sup>*\<^sup>* (input_start io w h d) (d', m, k)"
  shows "mouse_ok m \<and> kbd_ok k"
  using input_steps_ok[OF assms(3) input_start_ok[OF assms(1,2)]] by (simp add: input_ok_def)

lemma input_devices_wellformed_witness:
  "\<exists>d' m k. kbd_cb \<lparr>in_port = \<lambda>p d. (if p = 0x64 then 1 else d, d), out_port = \<lambda>p v d. d\<rparr>
      \<lparr>ti_ticks = 0, ti_freq = 100, ti_divisor = 1\<rparr>
      (input_start \<lparr>in_port = \<lambda>p d. (if p = 0x64 then 1 else d, d), out_port = \<lambda>p v d. d\<rparr> 640 480 0x1E) = (d', m, k) \<and> mouse_ok m \<and> kbd_ok k"
proof -
  let ?io = "\<lparr>in_port = \<lambda>p d. (if p = 0x64 then 1 else d, d), out_port = \<lambda>p v d. d\<rparr>"
  let ?t = "\<lparr>ti_ticks = 0, ti_freq = 100, ti_divisor = 1\<rparr>"
  define s where "s = input_start ?io 640 480 0x1E"
  define s' where "s' = kbd_cb ?io ?t s"
  obtain d' m k where r: "s' = (d', m, k)" by (cases s')
  have "(input_step ?io)\<^sup>*\<^sup>* (input_start ?io 640 480 0x1E) (d', m, k)"
    unfolding r[symmetric] s'_def s_def by (rule r_into_rtranclp) (rule step_key)
  note w = input_devices_wellformed[OF _ _ this]
  have "mouse_ok m \<and> kbd_ok k" by (rule w) simp_all
  then show ?thesis using r unfolding s'_def s_def by blast
qed

text \<open>C36. The keyboard ring is a bounded queue: keys typed ahead are kept in order up to 255 events and the rest
  is dropped, an event read is the oldest one, and reading a character skips exactly the layout switches
  before it.\<close>

theorem kbd_ring_fifo:
  assumes "ring_ok k"
  shows "kbd_events (fold kbd_push es k) = take 255 (kbd_events k @ es) \<and>
    (case kbd_events k of [] \<Rightarrow> kbd_getevent_nb k = (k, None)
     | x # xs \<Rightarrow> snd (kbd_getevent_nb k) = Some x \<and> kbd_events (fst (kbd_getevent_nb k)) = xs) \<and>
    snd (kbd_getchar_nb k) = (case typed (kbd_events k) of [] \<Rightarrow> -1 | x # _ \<Rightarrow> ev_key x) \<and>
    kbd_events (fst (kbd_getchar_nb k)) = tl (typed (kbd_events k))"
proof -
  have l: "length (kbd_events k) < KBD_BUF" using ring.view_room[OF assms] by (simp add: KBD_BUF_def)
  show ?thesis
    using ring.pushes[OF assms, of es] ring.pop_law[OF assms] getchar_loop[OF assms l] by (simp add: kbd_getchar_nb_def)
qed

lemma kbd_ring_fifo_witness:
  "kbd_events (fold kbd_push [no_key\<lparr>ev_key := 0x61\<rparr>, no_key\<lparr>ev_key := 0x62\<rparr>] kbd_boot) = [no_key\<lparr>ev_key := 0x61\<rparr>, no_key\<lparr>ev_key := 0x62\<rparr>]"
proof -
  have b: "ring_ok kbd_boot" "kbd_events kbd_boot = []"
    by (simp_all add: ring_ok_def kbd_boot_def KBD_BUF_def kbd_events_def ring_len_def)
  show ?thesis using kbd_ring_fifo[OF b(1), of "[no_key\<lparr>ev_key := 0x61\<rparr>, no_key\<lparr>ev_key := 0x62\<rparr>]"] b(2) by simp
qed

text \<open>A movement and the buttons as the three bytes a PS/2 mouse sends.\<close>

definition motion_bytes :: "int \<Rightarrow> int \<Rightarrow> u8 \<Rightarrow> u8 list" where
  "motion_bytes dx dy bt = [8 OR (bt AND 7) OR (if dx < 0 then 0x10 else 0) OR (if dy < 0 then 0x20 else 0), of_int dx, of_int dy]"

lemma nine_bits: "-256 \<le> v \<Longrightarrow> v \<le> 255 \<Longrightarrow> uint (of_int v :: u8) - (if v < 0 then 256 else 0) = v"
proof -
  assume v: "-256 \<le> v" "v \<le> 255"
  have "uint (of_int v :: u8) = v mod 256" by (simp add: uint_word_of_int)
  moreover have "v mod 256 = (if v < 0 then v + 256 else v)"
  proof (cases "v < 0")
    case True
    have "v mod 256 = (v + 256) mod 256" by (rule mod_add_self2[symmetric])
    also have "\<dots> = v + 256" using True v by (intro mod_pos_pos_trivial) simp_all
    finally show ?thesis using True by simp
  qed (use v in simp)
  ultimately show ?thesis by simp
qed

lemma motion_flags:
  "(8 OR (bt AND 7) OR (if p then 0x10 else 0) OR (if q then 0x20 else 0)) AND 8 \<noteq> (0 :: u8)"
  "(8 OR (bt AND 7) OR (if p then 0x10 else 0) OR (if q then 0x20 else 0)) AND 0xC0 = (0 :: u8)"
  "(8 OR (bt AND 7) OR (if p then 0x10 else 0) OR (if q then 0x20 else 0)) AND 0x10 \<noteq> (0 :: u8) \<longleftrightarrow> p"
  "(8 OR (bt AND 7) OR (if p then 0x10 else 0) OR (if q then 0x20 else 0)) AND 0x20 \<noteq> (0 :: u8) \<longleftrightarrow> q"
  "(8 OR (bt AND 7) OR (if p then 0x10 else 0) OR (if q then 0x20 else 0)) AND 7 = (bt AND 7 :: u8)"
  by (cases p; cases q; simp add: bit.conj_disj_distrib2 and.assoc)+

text \<open>The three bytes of a mouse movement of at most 256 in each direction move the pointer by exactly that
  movement, kept inside the screen with the vertical axis downwards, and set the buttons.\<close>

theorem mouse_motion_decoded:
  assumes "mouse_ok m" "mo_phase m = 0" "mo_packet_len m = 3" "-256 \<le> dx" "dx \<le> 255" "-256 \<le> dy" "dy \<le> 255"
  shows "fold mouse_byte (motion_bytes dx dy bt) m =
    m\<lparr>mo_x := max 0 (min (mo_w m - 1) (mo_x m + dx)), mo_y := max 0 (min (mo_h m - 1) (mo_y m - dy)),
      mo_physical := bt AND 7, mo_buttons := (bt AND 7) OR mo_synthetic m,
      mo_packet := motion_bytes dx dy bt @ drop 3 (mo_packet m), mo_events := mo_events m + 1\<rparr>"
proof -
  define f where "f = 8 OR (bt AND 7) OR (if dx < 0 then 0x10 else 0) OR (if dy < 0 then 0x20 else 0)"
  note fl = motion_flags[of bt "dx < 0" "dy < 0", folded f_def]
  obtain p0 p1 p2 p3 where p: "mo_packet m = [p0, p1, p2, p3]"
    using assms(1) by (auto simp: mouse_ok_def numeral_eq_Suc length_Suc_conv)
  have w: "0 < mo_w m" "0 < mo_h m" using assms(1) by (auto simp: mouse_ok_def)
  have n: "uint (of_int dx :: u8) - (if dx < 0 then 256 else 0) = dx" "uint (of_int dy :: u8) - (if dy < 0 then 256 else 0) = dy"
    using nine_bits assms(4-7) by blast+
  let ?m = "m\<lparr>mo_packet := [f, of_int dx, of_int dy, p3], mo_phase := 0\<rparr>"
  have "fold mouse_byte (motion_bytes dx dy bt) m = mouse_packet ?m"
    using fl(1) by (simp add: motion_bytes_def f_def[symmetric] mouse_byte_def assms(2,3) p numeral_2_eq_2 Let_def)
  also have "\<dots> = ?m\<lparr>mo_x := max 0 (min (mo_w m - 1) (mo_x m + dx)), mo_y := max 0 (min (mo_h m - 1) (mo_y m - dy)),
      mo_physical := bt AND 7, mo_buttons := (bt AND 7) OR mo_synthetic m, mo_events := mo_events m + 1\<rparr>"
    using w by (simp add: mouse_packet_def fl(2,5) fl(3,4)[simplified not_False_eq_True] n Let_def assms(3) mouse_clamp_def min_def max_def)
  finally show ?thesis using assms(2) by (simp add: p motion_bytes_def f_def)
qed

lemma mouse_motion_decoded_witness:
  "mo_x (fold mouse_byte (motion_bytes (-5) 200 1) (mouse_boot\<lparr>mo_x := 320, mo_y := 240\<rparr>)) = 315 \<and>
   mo_y (fold mouse_byte (motion_bytes (-5) 200 1) (mouse_boot\<lparr>mo_x := 320, mo_y := 240\<rparr>)) = 40"
  using mouse_motion_decoded[of "mouse_boot\<lparr>mo_x := 320, mo_y := 240\<rparr>" "-5" 200 1] by (simp add: mouse_ok_def mouse_boot_def)

end
