(* ===== verification/Mcc_Pp.thy ===== *)
theory Mcc_Pp
  imports KV_Base
begin

text \<open>
  The preprocessor of the workshop compiler, \<^verbatim>\<open>kernel/mcc_pp.h\<close> with \<^verbatim>\<open>kernel/mcc_headers.h\<close>: object-like macros
  and the built-in headers, with limits on output, work and depth. A source is the list of its bytes before
  the NUL; a pointer is the list from there on, and \<^verbatim>\<open>[p, end)\<close> a list of its own.
\<close>

definition NAME_MAX :: nat where "NAME_MAX = 48"
definition PP_MACROS :: nat where "PP_MACROS = 32"
definition PP_BODY :: nat where "PP_BODY = 256"
definition PP_OUTPUT :: nat where "PP_OUTPUT = 32000"
definition PP_DEPTH :: nat where "PP_DEPTH = 8"
definition PP_WORK :: nat where "PP_WORK = 64000"
definition PP_INCLUDE_DEPTH :: nat where "PP_INCLUDE_DEPTH = 4"

datatype pp_message = Output_Limit | Work_Limit | Recursive_Macro | Expansion_Depth | Unterminated_Literal | Replacement_Hash |
  Only_Define | Expected_Name | Name_Too_Long | Function_Macro | Expected_Space | Redefinition | Macro_Limit | Multiline_Comment |
  Body_Limit | Unterminated_Macro_Literal | Macro_Hash | Literal_Header | Unterminated_Include | Include_Length | Include_Path |
  Include_Comment | Trailing_Tokens | Unknown_Header | Include_Cycle | Include_Depth | Include_Work | Directive_Start |
  Unterminated_Comment

record pp_macro =
  mc_name :: "u8 list"
  mc_body :: "u8 list"
  mc_active :: bool

record pp =
  pp_macros :: "pp_macro list"
  pp_output :: "u8 list"
  pp_work :: nat
  pp_line :: nat
  pp_included :: u32
  pp_including :: u32
  pp_error :: "(pp_message \<times> nat) option"

definition peek :: "u8 list \<Rightarrow> u8" where
  "peek p = (case p of [] \<Rightarrow> 0 | c # _ \<Rightarrow> c)"

definition c_letter :: "u8 \<Rightarrow> bool" where
  "c_letter c \<longleftrightarrow> (0x61 \<le> c \<and> c \<le> 0x7A) \<or> (0x41 \<le> c \<and> c \<le> 0x5A) \<or> c = 0x5F"

definition c_digit :: "u8 \<Rightarrow> bool" where
  "c_digit c \<longleftrightarrow> 0x30 \<le> c \<and> c \<le> 0x39"

definition pp_space :: "u8 \<Rightarrow> bool" where
  "pp_space c \<longleftrightarrow> c = 0x20 \<or> c = 9 \<or> c = 13"

text \<open>The first error is kept, with the line of its token.\<close>

definition pp_fail :: "pp_message \<Rightarrow> pp \<Rightarrow> pp" where
  "pp_fail e s = (if pp_error s = None then s\<lparr>pp_error := Some (e, pp_line s)\<rparr> else s)"

definition pp_emit :: "u8 \<Rightarrow> pp \<Rightarrow> pp" where
  "pp_emit c s =
     (if length (pp_output s) = PP_OUTPUT then pp_fail Output_Limit s
      else s\<lparr>pp_output := pp_output s @ [c], pp_line := (if c = 10 then pp_line s + 1 else pp_line s)\<rparr>)"

definition pp_find :: "u8 list \<Rightarrow> pp \<Rightarrow> nat option" where
  "pp_find name s = find (\<lambda>i. mc_name (pp_macros s ! i) = name) [0..<length (pp_macros s)]"

section \<open>Expansion\<close>

definition word_char :: "u8 \<Rightarrow> bool" where
  "word_char c \<longleftrightarrow> c_letter c \<or> c_digit c"

text \<open>The rest of a preprocessing number after its first byte.\<close>

definition exp_sign :: "u8 \<Rightarrow> u8 \<Rightarrow> bool" where
  "exp_sign prev c \<longleftrightarrow> (c = 0x2B \<or> c = 0x2D) \<and> (prev = 0x65 \<or> prev = 0x45 \<or> prev = 0x70 \<or> prev = 0x50)"

fun number_rest :: "u8 \<Rightarrow> u8 list \<Rightarrow> u8 list \<times> u8 list" where
  "number_rest prev [] = ([], [])"
| "number_rest prev (c # p) =
     (if word_char c \<or> c = 0x2E \<or> exp_sign prev c then (case number_rest c p of (xs, q) \<Rightarrow> (c # xs, q)) else ([], c # p))"

text \<open>A literal after its opening quote: the bytes are emitted as they are read.\<close>

fun pp_literal :: "u8 \<Rightarrow> u8 list \<Rightarrow> pp \<Rightarrow> u8 list \<times> pp \<times> bool" where
  "pp_literal quote [] s = ([], s, False)"
| "pp_literal quote (c # p) s =
     (if c = 10 \<or> pp_error s \<noteq> None then (c # p, s, False)
      else let s = pp_emit c s in
        if c = quote then (p, s, True)
        else if c = 0x5C then
          (case p of
             [] \<Rightarrow> ([], s, False)
           | d # p' \<Rightarrow> if d = 10 then (p, s, False) else pp_literal quote p' (pp_emit d s))
        else pp_literal quote p s)"

definition set_active :: "nat \<Rightarrow> bool \<Rightarrow> pp \<Rightarrow> pp" where
  "set_active i b s = s\<lparr>pp_macros := (pp_macros s)[i := (pp_macros s ! i)\<lparr>mc_active := b\<rparr>]\<rparr>"

lemma number_rest_shorter: "number_rest prev p = (xs, q) \<Longrightarrow> length q \<le> length p"
  by (induction prev p arbitrary: xs q rule: number_rest.induct) (force split: if_splits prod.splits)+

lemma pp_literal_shorter: "pp_literal quote p s = (q, s', b) \<Longrightarrow> length q \<le> length p"
  by (induction quote p s arbitrary: q s' b rule: pp_literal.induct)
    (fastforce simp: Let_def split: if_splits list.splits)+

function pp_expand :: "nat \<Rightarrow> u8 list \<Rightarrow> pp \<Rightarrow> pp" where
  "pp_expand depth [] s = s"
| "pp_expand depth (c # p) s =
     (if pp_error s \<noteq> None then s
      else let s = s\<lparr>pp_work := pp_work s + 1\<rparr> in
        if pp_work s > PP_WORK then pp_fail Work_Limit s
        else if c_letter c then
          let name = c # takeWhile word_char p; p = dropWhile word_char p in
          (case pp_find name s of
             None \<Rightarrow> pp_expand depth p (fold pp_emit name s)
           | Some m \<Rightarrow>
               if mc_active (pp_macros s ! m) then pp_fail Recursive_Macro s
               else if depth \<ge> PP_DEPTH then pp_fail Expansion_Depth s
               else pp_expand depth p
                 (set_active m False (pp_emit 0x20 (pp_expand (depth + 1) (mc_body (pp_macros s ! m)) (pp_emit 0x20 (set_active m True s))))))
        else if c_digit c \<or> (c = 0x2E \<and> p \<noteq> [] \<and> c_digit (hd p)) then
          (case number_rest c p of (xs, p) \<Rightarrow> pp_expand depth p (fold pp_emit (c # xs) s))
        else if c = 0x22 \<or> c = 0x27 then
          (case pp_literal c p (pp_emit c s) of
             (p, s, closed) \<Rightarrow> pp_expand depth p (if closed then s else pp_fail Unterminated_Literal s))
        else if c = 0x23 then pp_fail Replacement_Hash s
        else pp_expand depth p (pp_emit c s))"
  by pat_completeness auto
termination
  by (relation "inv_image (less_than <*lex*> less_than) (\<lambda>(d, p, _). (PP_DEPTH - d, length p))")
    (auto simp: less_Suc_eq_le length_dropWhile_le dest: number_rest_shorter[OF sym] pp_literal_shorter[OF sym])

section \<open>Directives\<close>

text \<open>A literal in the body of a definition.\<close>

fun body_literal :: "u8 \<Rightarrow> u8 list \<Rightarrow> u8 list \<Rightarrow> pp \<Rightarrow> u8 list \<times> u8 list \<times> pp \<times> bool" where
  "body_literal quote [] body s = ([], body, s, False)"
| "body_literal quote (c # p) body s =
     (if length body \<ge> PP_BODY - 1 then (p, body, pp_fail Body_Limit s, False)
      else let body = body @ [c] in
        if c = quote then (p, body, s, True)
        else if c = 0x5C \<and> p \<noteq> [] then
          (if length body \<ge> PP_BODY - 1 then (p, body, pp_fail Body_Limit s, False)
           else body_literal quote (tl p) (body @ [hd p]) s)
        else body_literal quote p body s)"

text \<open>The rest of a line after the opening of a comment; \<open>None\<close> when it does not close there.\<close>

fun comment_end :: "u8 list \<Rightarrow> u8 list option" where
  "comment_end (a # b # p) = (if a = 0x2A \<and> b = 0x2F then Some p else comment_end (b # p))"
| "comment_end p = None"

lemma comment_end_shorter: "comment_end p = Some q \<Longrightarrow> length q < length p"
  by (induction p rule: comment_end.induct) (auto split: if_splits)

lemma body_literal_shorter: "body_literal quote p body s = (q, body', s', b) \<Longrightarrow> length q \<le> length p"
  by (induction quote p body s arbitrary: q body' s' b rule: body_literal.induct)
    (fastforce simp: Let_def split: if_splits)+

function pp_body :: "u8 list \<Rightarrow> u8 list \<Rightarrow> pp \<Rightarrow> u8 list \<times> pp" where
  "pp_body [] body s = (body, s)"
| "pp_body (c # p) body s =
     (if pp_error s \<noteq> None then (body, s)
      else if c = 0x2F \<and> peek p = 0x2F then (body, s)
      else if c = 0x2F \<and> peek p = 0x2A then
        (case comment_end (tl p) of
           None \<Rightarrow> (body, pp_fail Multiline_Comment s)
         | Some p \<Rightarrow> if length body \<ge> PP_BODY - 1 then (body, pp_fail Body_Limit s) else pp_body p (body @ [0x20]) s)
      else if c = 0x22 \<or> c = 0x27 then
        (if length body \<ge> PP_BODY - 1 then (body, pp_fail Body_Limit s)
         else case body_literal c p (body @ [c]) s of
                (p, body, s, closed) \<Rightarrow> pp_body p body (if closed then s else pp_fail Unterminated_Macro_Literal s))
      else if c = 0x23 \<or> c = 0x5C then (body, pp_fail Macro_Hash s)
      else if length body \<ge> PP_BODY - 1 then (body, pp_fail Body_Limit s)
      else pp_body p (body @ [c]) s)"
  by pat_completeness auto
termination
  by (relation "measure (\<lambda>(p, _, _). length p)")
    (auto dest!: comment_end_shorter body_literal_shorter[OF sym] simp: less_Suc_eq_le)

definition strip_spaces :: "u8 list \<Rightarrow> u8 list" where
  "strip_spaces xs = rev (dropWhile pp_space (rev xs))"

definition word_define :: "u8 list" where
  "word_define = [0x64, 0x65, 0x66, 0x69, 0x6E, 0x65]"

definition word_include :: "u8 list" where
  "word_include = [0x69, 0x6E, 0x63, 0x6C, 0x75, 0x64, 0x65]"

text \<open>A line after its \<^verbatim>\<open>#\<close>; the caller goes on at the end of the line.\<close>

definition pp_define :: "u8 list \<Rightarrow> pp \<Rightarrow> pp" where
  "pp_define l s =
     (let p = dropWhile pp_space l; d = takeWhile c_letter p; p = dropWhile c_letter p in
      if d \<noteq> word_define \<or> p = [] \<or> \<not> pp_space (hd p) then pp_fail Only_Define s
      else let p = dropWhile pp_space p in
        if p = [] \<or> \<not> c_letter (hd p) then pp_fail Expected_Name s
        else let name = takeWhile word_char p; p = dropWhile word_char p in
          if length name \<ge> NAME_MAX then pp_fail Name_Too_Long s
          else if p \<noteq> [] \<and> hd p = 0x28 then pp_fail Function_Macro s
          else if p \<noteq> [] \<and> \<not> pp_space (hd p) \<and> \<not> (hd p = 0x2F \<and> (peek (tl p) = 0x2F \<or> peek (tl p) = 0x2A))
            then pp_fail Expected_Space s
          else if pp_find name s \<noteq> None then pp_fail Redefinition s
          else if length (pp_macros s) = PP_MACROS then pp_fail Macro_Limit s
          else (case pp_body (dropWhile pp_space p) [] s of
                  (body, s) \<Rightarrow> s\<lparr>pp_macros := pp_macros s @ [\<lparr>mc_name = name, mc_body = strip_spaces body, mc_active = False\<rparr>]\<rparr>))"

definition ascii_bytes :: "string \<Rightarrow> u8 list" where
  "ascii_bytes t = map (\<lambda>c. of_nat (of_char c)) t"

text \<open>The lines of a header, each with its newline.\<close>

definition header_text :: "string list \<Rightarrow> u8 list" where
  "header_text ts = concat (map (\<lambda>t. ascii_bytes t @ [10]) ts)"

definition pp_headers :: "(u8 list \<times> u8 list) list" where
  "pp_headers =
    [(ascii_bytes ''kvui.h'', header_text [''#include \"kvkeys.h\"'', ''#include \"kvtypes.h\"'',
       ''#define KV_BG 0x182032'', ''#define KV_FG 0xe6f0ff'', ''#define KV_TRANSPARENT -1'']),
     (ascii_bytes ''kvkeys.h'', header_text [''#define KV_KEY_UP 0x100'', ''#define KV_KEY_DOWN 0x101'',
       ''#define KV_KEY_LEFT 0x102'', ''#define KV_KEY_RIGHT 0x103'', ''#define KV_KEY_ENTER 10'', ''#define KV_KEY_ESC 27'',
       ''#define KV_KEY_BKSP 8'', ''#define KV_KEY_TAB 9'', ''#define KV_CHAR_W 8'', ''#define KV_CHAR_H 16'']),
     (ascii_bytes ''kvtypes.h'', header_text [''typedef int kv_int;'', ''typedef char kv_byte;'',
       ''typedef struct kv_point {int x;int y;} kv_point;''])]"

text \<open>What may follow the name of an included header on its line.\<close>

function include_tail :: "u8 list \<Rightarrow> pp_message option" where
  "include_tail [] = None"
| "include_tail (c # p) =
     (if pp_space c then include_tail p
      else if c = 0x2F \<and> peek p = 0x2F then None
      else if c = 0x2F \<and> peek p = 0x2A then
        (case comment_end (tl p) of None \<Rightarrow> Some Include_Comment | Some p \<Rightarrow> include_tail p)
      else Some Trailing_Tokens)"
  by pat_completeness auto
termination
  by (relation "measure length") (auto dest!: comment_end_shorter)

text \<open>The checks of an include line: the header to read, or the error, or nothing to do.\<close>

definition include_header :: "u8 list \<Rightarrow> pp_message + nat" where
  "include_header l =
     (let p = dropWhile pp_space l in
      if p = [] \<or> (hd p \<noteq> 0x22 \<and> hd p \<noteq> 0x3C) then Inl Literal_Header
      else let q = (if hd p = 0x22 then 0x22 else 0x3E); name = takeWhile (\<lambda>c. c \<noteq> q) (tl p); r = dropWhile (\<lambda>c. c \<noteq> q) (tl p) in
        if r = [] then Inl Unterminated_Include
        else if name = [] \<or> length name > 31 then Inl Include_Length
        else if \<not> list_all (\<lambda>c. word_char c \<or> c = 0x2E) name then Inl Include_Path
        else (case include_tail (tl r) of
                Some e \<Rightarrow> Inl e
              | None \<Rightarrow> (case find (\<lambda>i. fst (pp_headers ! i) = name) [0..<length pp_headers] of
                           None \<Rightarrow> Inl Unknown_Header | Some i \<Rightarrow> Inr i)))"

definition is_include :: "u8 list \<Rightarrow> bool" where
  "is_include p \<longleftrightarrow> take 7 p = word_include \<and>
     (let c = peek (drop 7 p) in c = 0 \<or> pp_space c \<or> c = 0x22 \<or> c = 0x3C)"

text \<open>The include bookkeeping: a header being read, or read already, or to be entered.\<close>

definition include_enter :: "nat \<Rightarrow> nat \<Rightarrow> pp \<Rightarrow> pp + pp" where
  "include_enter depth i s =
     (if bit (pp_including s) i then Inl (pp_fail Include_Cycle s)
      else if bit (pp_included s) i then Inl s
      else if depth \<ge> PP_INCLUDE_DEPTH then Inl (pp_fail Include_Depth s)
      else let bytes = length (snd (pp_headers ! i)) in
        if bytes > PP_WORK - pp_work s then Inl (pp_fail Include_Work s)
        else Inr (pp_emit 0x20 (s\<lparr>pp_work := pp_work s + bytes, pp_including := set_bit i (pp_including s)\<rparr>)))"

definition include_leave :: "nat \<Rightarrow> pp \<Rightarrow> pp" where
  "include_leave i s =
     (let s = s\<lparr>pp_including := unset_bit i (pp_including s)\<rparr> in
      if pp_error s = None then s\<lparr>pp_included := set_bit i (pp_included s)\<rparr> else s)"

lemma include_enter_depth: "include_enter depth i s = Inr s' \<Longrightarrow> depth < PP_INCLUDE_DEPTH"
  by (auto simp: include_enter_def Let_def split: if_splits)

section \<open>The source\<close>

text \<open>The newlines of a header become spaces.\<close>

definition pp_newline :: "nat \<Rightarrow> u8" where
  "pp_newline depth = (if depth \<noteq> 0 then 0x20 else 10)"

text \<open>The rest of a comment; \<open>None\<close> when it does not end.\<close>

fun pp_comment :: "nat \<Rightarrow> u8 list \<Rightarrow> bool \<Rightarrow> pp \<Rightarrow> u8 list option \<times> bool \<times> pp" where
  "pp_comment depth [] bol s = (None, bol, s)"
| "pp_comment depth (c # p) bol s =
     (if c = 0x2A \<and> peek p = 0x2F then (Some (tl p), bol, s)
      else if c = 10 then pp_comment depth p True (pp_emit (pp_newline depth) s)
      else pp_comment depth p bol s)"

text \<open>A literal of the source after its opening quote, up to its end or the end of its line.\<close>

fun source_literal :: "u8 \<Rightarrow> u8 list \<Rightarrow> u8 list \<times> u8 list" where
  "source_literal quote [] = ([], [])"
| "source_literal quote (c # p) =
     (if c = 10 then ([], c # p)
      else if c = quote then ([c], p)
      else if c = 0x5C \<and> p \<noteq> [] \<and> hd p \<noteq> 10 then
        (case source_literal quote (tl p) of (xs, q) \<Rightarrow> (c # hd p # xs, q))
      else (case source_literal quote p of (xs, q) \<Rightarrow> (c # xs, q)))"

text \<open>The token at \<open>c # p\<close>, without \<open>c\<close>, and what follows it.\<close>

definition source_token :: "u8 \<Rightarrow> u8 list \<Rightarrow> u8 list \<times> u8 list" where
  "source_token c p =
     (if c_letter c then (takeWhile word_char p, dropWhile word_char p)
      else if c_digit c \<or> (c = 0x2E \<and> c_digit (peek p)) then number_rest c p
      else if c = 0x22 \<or> c = 0x27 then source_literal c p
      else ([], p))"

lemma pp_comment_shorter: "pp_comment depth p bol s = (Some q, b, s') \<Longrightarrow> length q \<le> length p"
  by (induction depth p bol s arbitrary: q b s' rule: pp_comment.induct) (fastforce split: if_splits)+

lemma source_literal_shorter: "source_literal quote p = (xs, q) \<Longrightarrow> length q \<le> length p"
  by (induction quote p arbitrary: xs q rule: source_literal.induct)
    (fastforce split: if_splits prod.splits)+

lemma source_token_shorter: "source_token c p = (xs, q) \<Longrightarrow> length q \<le> length p"
  by (auto simp: source_token_def length_dropWhile_le split: if_splits
      dest: number_rest_shorter source_literal_shorter)

function pp_source :: "nat \<Rightarrow> u8 list \<Rightarrow> bool \<Rightarrow> pp \<Rightarrow> pp" where
  "pp_source depth [] bol s = s"
| "pp_source depth (c # p) bol s =
     (if pp_error s \<noteq> None then s
      else if c = 10 then pp_source depth p True (pp_emit (pp_newline depth) s)
      else if pp_space c then pp_source depth p bol (pp_emit c s)
      else if c = 0x2F \<and> peek p = 0x2F then pp_source depth (dropWhile (\<lambda>c. c \<noteq> 10) p) bol (pp_emit 0x20 s)
      else if c = 0x2F \<and> peek p = 0x2A then
        (case pp_comment depth (tl p) bol (pp_emit 0x20 s) of
           (None, bol, s) \<Rightarrow> pp_fail Unterminated_Comment s
         | (Some q, bol, s) \<Rightarrow> pp_source depth q bol s)
      else if c = 0x23 then
        (if \<not> bol then pp_fail Directive_Start s
         else let q = dropWhile pp_space p in
           pp_source depth (dropWhile (\<lambda>c. c \<noteq> 10) p) bol
             (if \<not> is_include q then pp_define (takeWhile (\<lambda>c. c \<noteq> 10) p) s
              else (case include_header (takeWhile (\<lambda>c. c \<noteq> 10) (drop 7 q)) of
                      Inl e \<Rightarrow> pp_fail e s
                    | Inr i \<Rightarrow>
                        (case include_enter depth i s of
                           Inl s \<Rightarrow> s
                         | Inr s \<Rightarrow> include_leave i (pp_emit 0x20 (pp_source (depth + 1) (snd (pp_headers ! i)) True s))))))
      else (case source_token c p of
              (xs, q) \<Rightarrow> pp_source depth q False (pp_expand 0 (c # xs) s)))"
  by pat_completeness auto
termination
  by (relation "inv_image (less_than <*lex*> less_than) (\<lambda>(d, p, _). (PP_INCLUDE_DEPTH - d, length p))")
    (auto simp: less_Suc_eq_le length_dropWhile_le dest!: include_enter_depth source_token_shorter[OF sym]
      pp_comment_shorter[OF sym] intro: le_trans[OF pp_comment_shorter])

definition pp_start :: pp where
  "pp_start = \<lparr>pp_macros = [], pp_output = [], pp_work = 0, pp_line = 1, pp_included = 0, pp_including = 0, pp_error = None\<rparr>"

definition preprocess :: "u8 list \<Rightarrow> pp" where
  "preprocess source = pp_source 0 source True pp_start"

end
