(* ===== verification/Mcc_Lex.thy ===== *)
theory Mcc_Lex
  imports Mcc_Pp
begin

text \<open>
  The tokens of the workshop compiler: the lexer of \<^verbatim>\<open>kernel/mcc.c\<close>, from \<^verbatim>\<open>fail\<close> to \<^verbatim>\<open>expect\<close>. The input pointer is
  the list of the bytes before the NUL; a token is a constructor of the enumeration, or the byte it is.
\<close>

datatype lex_message = Too_Many_Tokens | Open_Comment | Identifier_Too_Long | Integer_Range | Expected_Digits |
  Unsupported_Escape | Literal_Too_Long | Open_Literal | One_Character | Hash_Token | Unexpected_Token

datatype lex_token = T_End | T_Byte u8 | T_ID | T_NUM | T_STR | T_INT | T_CHAR | T_VOID | T_CONST | T_IF | T_ELSE | T_WHILE |
  T_FOR | T_RETURN | T_BREAK | T_CONTINUE | T_EQ | T_NE | T_LE | T_GE | T_SHL | T_SHR | T_AND | T_OR | T_INC | T_DEC | T_ADDSET |
  T_SUBSET | T_MULSET | T_DIVSET | T_MODSET | T_SIZEOF | T_STRUCT | T_TYPEDEF | T_ARROW

definition TOKEN_MAX :: nat where "TOKEN_MAX = 24000"
definition LITERAL_MAX :: nat where "LITERAL_MAX = 512"

record lexer =
  lx_input :: "u8 list"
  lx_token :: lex_token
  lx_line :: nat
  lx_token_line :: nat
  lx_tokens :: nat
  lx_error :: "(lex_message \<times> nat) option"
  lx_value :: u32
  lx_word :: "u8 list"
  lx_literal :: "u8 list"

definition lex_fail :: "lex_message \<Rightarrow> lexer \<Rightarrow> lexer" where
  "lex_fail e s = (if lx_error s = None then s\<lparr>lx_error := Some (e, lx_token_line s)\<rparr> else s)"

definition lex_end :: "lexer \<Rightarrow> lexer" where
  "lex_end s = s\<lparr>lx_token := T_End\<rparr>"

definition lex_escape :: "u8 \<Rightarrow> lexer \<Rightarrow> u8 \<times> lexer" where
  "lex_escape c s =
     (if c = 0x6E then (10, s)
      else if c = 0x72 then (13, s)
      else if c = 0x74 then (9, s)
      else if c = 0x30 then (0, s)
      else if c = 0x5C \<or> c = 0x27 \<or> c = 0x22 then (c, s)
      else (c, lex_fail Unsupported_Escape s))"

section \<open>Blanks and comments\<close>

definition blank :: "u8 \<Rightarrow> bool" where
  "blank c \<longleftrightarrow> c = 0x20 \<or> c = 9 \<or> c = 13 \<or> c = 10"

definition count_line :: "u8 \<Rightarrow> nat \<Rightarrow> nat" where
  "count_line c l = (if c = 10 then l + 1 else l)"

fun lex_comment :: "u8 list \<Rightarrow> nat \<Rightarrow> u8 list option \<times> nat" where
  "lex_comment [] l = (None, l)"
| "lex_comment (c # p) l =
     (if c = 0x2A \<and> peek p = 0x2F then (Some (tl p), l) else lex_comment p (count_line c l))"

lemma lex_comment_shorter: "lex_comment p l = (Some q, m) \<Longrightarrow> length q \<le> length p"
  by (induction p l arbitrary: q m rule: lex_comment.induct) (fastforce split: if_splits)+

text \<open>What comes before a token; \<open>None\<close> for a comment that does not end.\<close>

function lex_skip :: "u8 list \<Rightarrow> nat \<Rightarrow> u8 list option \<times> nat" where
  "lex_skip [] l = (Some [], l)"
| "lex_skip (c # p) l =
     (if blank c then lex_skip p (count_line c l)
      else if c = 0x2F \<and> peek p = 0x2F then lex_skip (dropWhile (\<lambda>c. c \<noteq> 10) p) l
      else if c = 0x2F \<and> peek p = 0x2A then
        (case lex_comment (tl p) l of (None, m) \<Rightarrow> (None, m) | (Some q, m) \<Rightarrow> lex_skip q m)
      else (Some (c # p), l))"
  by pat_completeness auto
termination
  by (relation "measure (\<lambda>(p, _). length p)")
    (auto simp: less_Suc_eq_le length_dropWhile_le dest!: lex_comment_shorter[OF sym] intro: le_trans)

section \<open>Words, numbers and literals\<close>

definition lex_keywords :: "(u8 list \<times> lex_token) list" where
  "lex_keywords =
    [(ascii_bytes ''int'', T_INT), (ascii_bytes ''char'', T_CHAR), (ascii_bytes ''void'', T_VOID), (ascii_bytes ''const'', T_CONST),
     (ascii_bytes ''if'', T_IF), (ascii_bytes ''else'', T_ELSE), (ascii_bytes ''while'', T_WHILE), (ascii_bytes ''for'', T_FOR),
     (ascii_bytes ''return'', T_RETURN), (ascii_bytes ''break'', T_BREAK), (ascii_bytes ''continue'', T_CONTINUE),
     (ascii_bytes ''sizeof'', T_SIZEOF), (ascii_bytes ''struct'', T_STRUCT), (ascii_bytes ''typedef'', T_TYPEDEF)]"

definition lex_word :: "u8 list \<Rightarrow> lexer \<Rightarrow> lexer" where
  "lex_word p s =
     (let name = takeWhile word_char p; w = take (NAME_MAX - 1) name;
          s = (if length name > NAME_MAX - 1 then lex_fail Identifier_Too_Long s else s)
      in s\<lparr>lx_input := dropWhile word_char p, lx_word := w,
           lx_token := (case map_of lex_keywords w of None \<Rightarrow> T_ID | Some t \<Rightarrow> t)\<rparr>)"

definition hex_letter :: "u8 \<Rightarrow> bool" where
  "hex_letter c \<longleftrightarrow> (0x61 \<le> c \<and> c \<le> 0x66) \<or> (0x41 \<le> c \<and> c \<le> 0x46)"

definition base_char :: "u32 \<Rightarrow> u8 \<Rightarrow> bool" where
  "base_char base c \<longleftrightarrow> c_digit c \<or> (base = 16 \<and> hex_letter c)"

definition digit_value :: "u8 \<Rightarrow> u32" where
  "digit_value c = (if c_digit c then ucast c - 0x30 else (ucast c OR 32) - 0x61 + 10)"

fun lex_digits :: "u32 \<Rightarrow> u8 list \<Rightarrow> nat \<Rightarrow> lexer \<Rightarrow> u8 list \<times> nat \<times> lexer" where
  "lex_digits base [] n s = ([], n, s)"
| "lex_digits base (c # p) n s =
     (if base_char base c then
        (let d = digit_value c;
             s = (if d \<ge> base \<or> lx_value s > (0xFFFFFFFF - d) div base then lex_fail Integer_Range s else s)
         in lex_digits base p (n + 1) (s\<lparr>lx_value := lx_value s * base + d\<rparr>))
      else (c # p, n, s))"

definition number_base :: "u8 list \<Rightarrow> u32 \<times> u8 list" where
  "number_base p =
     (if peek p = 0x30 \<and> (peek (tl p) = 0x78 \<or> peek (tl p) = 0x58) then (16, drop 2 p)
      else if peek p = 0x30 \<and> c_digit (peek (tl p)) then (8, p)
      else (10, p))"

definition lex_number :: "u8 list \<Rightarrow> lexer \<Rightarrow> lexer" where
  "lex_number p s =
     (case number_base p of (base, q) \<Rightarrow>
        (case lex_digits base q 0 (s\<lparr>lx_value := 0\<rparr>) of (r, n, s) \<Rightarrow>
           let s = (if n = 0 then lex_fail Expected_Digits s else s) in
           s\<lparr>lx_input := (if peek r = 0x75 \<or> peek r = 0x55 then tl r else r), lx_token := T_NUM\<rparr>))"

definition lex_push :: "u8 \<Rightarrow> lexer \<Rightarrow> lexer" where
  "lex_push c s =
     (if length (lx_literal s) < LITERAL_MAX - 1 then s\<lparr>lx_literal := lx_literal s @ [c]\<rparr> else lex_fail Literal_Too_Long s)"

fun lex_literal :: "u8 \<Rightarrow> u8 list \<Rightarrow> lexer \<Rightarrow> u8 list \<times> lexer" where
  "lex_literal quote [] s = ([], s)"
| "lex_literal quote (c # p) s =
     (if c = quote \<or> c = 10 then (c # p, s)
      else if c = 0x5C then
        (case p of
           [] \<Rightarrow> ([], s)
         | d # q \<Rightarrow> (case lex_escape d s of (v, s) \<Rightarrow> lex_literal quote q (lex_push v s)))
      else lex_literal quote p (lex_push c s))"

definition lex_string :: "u8 \<Rightarrow> u8 list \<Rightarrow> lexer \<Rightarrow> lexer" where
  "lex_string quote p s =
     (case lex_literal quote p (s\<lparr>lx_literal := []\<rparr>) of (r, s) \<Rightarrow>
        let s = (if peek r \<noteq> quote then lex_fail Open_Literal (s\<lparr>lx_input := r\<rparr>) else s\<lparr>lx_input := tl r\<rparr>) in
        if quote = 0x27 then
          (let s = (if length (lx_literal s) \<noteq> 1 then lex_fail One_Character s else s)
           in s\<lparr>lx_value := ucast (peek (lx_literal s)), lx_token := T_NUM\<rparr>)
        else s\<lparr>lx_token := T_STR\<rparr>)"

definition lex_pairs :: "((u8 \<times> u8) \<times> lex_token) list" where
  "lex_pairs =
    [((0x2D, 0x3E), T_ARROW), ((0x3D, 0x3D), T_EQ), ((0x21, 0x3D), T_NE), ((0x3C, 0x3D), T_LE), ((0x3E, 0x3D), T_GE),
     ((0x3C, 0x3C), T_SHL), ((0x3E, 0x3E), T_SHR), ((0x26, 0x26), T_AND), ((0x7C, 0x7C), T_OR), ((0x2B, 0x2B), T_INC),
     ((0x2D, 0x2D), T_DEC), ((0x2B, 0x3D), T_ADDSET), ((0x2D, 0x3D), T_SUBSET), ((0x2A, 0x3D), T_MULSET),
     ((0x2F, 0x3D), T_DIVSET), ((0x25, 0x3D), T_MODSET)]"

definition lex_sign :: "u8 \<Rightarrow> u8 list \<Rightarrow> lexer \<Rightarrow> lexer" where
  "lex_sign c p s =
     (case map_of lex_pairs (c, peek p) of
        Some t \<Rightarrow> s\<lparr>lx_token := t, lx_input := tl p\<rparr>
      | None \<Rightarrow>
          (let s = s\<lparr>lx_token := T_Byte c, lx_input := p\<rparr> in if c = 0x23 then lex_fail Hash_Token s else s))"

section \<open>The next token\<close>

definition lex_next :: "lexer \<Rightarrow> lexer" where
  "lex_next s =
     (if lx_error s \<noteq> None then lex_end s
      else let s = s\<lparr>lx_tokens := lx_tokens s + 1\<rparr> in
        if lx_tokens s > TOKEN_MAX then lex_end (lex_fail Too_Many_Tokens s)
        else (case lex_skip (lx_input s) (lx_line s) of
                (None, l) \<Rightarrow> lex_end (lex_fail Open_Comment (s\<lparr>lx_input := [], lx_line := l\<rparr>))
              | (Some p, l) \<Rightarrow>
                  let s = s\<lparr>lx_input := p, lx_line := l, lx_token_line := l\<rparr> in
                  (case p of
                     [] \<Rightarrow> lex_end s
                   | c # q \<Rightarrow>
                       if c_letter c then lex_word p s
                       else if c_digit c then lex_number p s
                       else if c = 0x22 \<or> c = 0x27 then lex_string c q s
                       else lex_sign c q s)))"

definition lex_accept :: "lex_token \<Rightarrow> lexer \<Rightarrow> bool \<times> lexer" where
  "lex_accept t s = (if lx_token s \<noteq> t then (False, s) else (True, lex_next s))"

definition lex_expect :: "lex_token \<Rightarrow> lexer \<Rightarrow> lexer" where
  "lex_expect t s = (case lex_accept t s of (found, s) \<Rightarrow> if found then s else lex_fail Unexpected_Token s)"

text \<open>\<^verbatim>\<open>reset_lexer\<close>; the nesting depth it also clears belongs to the parser.\<close>

definition lex_reset :: "u8 list \<Rightarrow> lexer \<Rightarrow> lexer" where
  "lex_reset source s = lex_next (s\<lparr>lx_input := source, lx_line := 1, lx_token_line := 1, lx_tokens := 0\<rparr>)"

end
