(* ===== verification/Mcc_Props.thy ===== *)
theory Mcc_Props
  imports Mcc_Pp
begin

text \<open>
  What the preprocessor of the workshop promises: its limits hold for every source, also when it stops with an
  error, and the output has the lines of the source, so the rows the compiler reports are those of the text.
\<close>

definition newlines :: "u8 list \<Rightarrow> nat" where
  "newlines xs = count_list xs 10"

lemma newlines_simps [simp]: "newlines [] = 0" "newlines (c # xs) = (if c = 10 then 1 else 0) + newlines xs"
  "newlines (xs @ ys) = newlines xs + newlines ys"
  by (simp_all add: newlines_def)

definition macro_ok :: "pp_macro \<Rightarrow> bool" where
  "macro_ok m \<longleftrightarrow> length (mc_name m) < NAME_MAX \<and> length (mc_body m) < PP_BODY \<and> newlines (mc_body m) = 0"

definition error_row_ok :: "pp \<Rightarrow> bool" where
  "error_row_ok s \<longleftrightarrow> (case pp_error s of None \<Rightarrow> True | Some (e, n) \<Rightarrow> 1 \<le> n \<and> n \<le> pp_line s)"

definition pp_bounded :: "pp \<Rightarrow> bool" where
  "pp_bounded s \<longleftrightarrow> length (pp_output s) \<le> PP_OUTPUT \<and> length (pp_macros s) \<le> PP_MACROS \<and> list_all macro_ok (pp_macros s) \<and>
     distinct (map mc_name (pp_macros s)) \<and> pp_work s \<le> PP_WORK + (if pp_error s = None then 0 else 1) \<and>
     pp_line s = 1 + newlines (pp_output s) \<and> error_row_ok s"

lemmas pp_ok_defs = pp_bounded_def error_row_ok_def

section \<open>Failing and emitting\<close>

lemma pp_fail_fields [simp]:
  "pp_output (pp_fail e s) = pp_output s" "pp_macros (pp_fail e s) = pp_macros s" "pp_line (pp_fail e s) = pp_line s"
  "pp_work (pp_fail e s) = pp_work s" "pp_included (pp_fail e s) = pp_included s" "pp_including (pp_fail e s) = pp_including s"
  by (simp_all add: pp_fail_def)

lemma pp_fail_error [simp]: "pp_error (pp_fail e s) = (case pp_error s of None \<Rightarrow> Some (e, pp_line s) | Some x \<Rightarrow> Some x)"
  by (simp add: pp_fail_def split: option.split)

lemma pp_emit_fields [simp]:
  "pp_macros (pp_emit c s) = pp_macros s" "pp_work (pp_emit c s) = pp_work s" "pp_included (pp_emit c s) = pp_included s"
  "pp_including (pp_emit c s) = pp_including s"
  by (simp_all add: pp_emit_def)

lemma pp_fail_bounded [intro]: "pp_bounded s \<Longrightarrow> pp_bounded (pp_fail e s)"
  by (auto simp: pp_ok_defs split: option.splits)

lemma pp_emit_bounded [intro]: "pp_bounded s \<Longrightarrow> pp_bounded (pp_emit c s)"
  by (auto simp: pp_emit_def pp_ok_defs split: option.splits if_splits)

lemma fold_emit_fields [simp]:
  "pp_macros (fold pp_emit xs s) = pp_macros s" "pp_work (fold pp_emit xs s) = pp_work s"
  "pp_included (fold pp_emit xs s) = pp_included s" "pp_including (fold pp_emit xs s) = pp_including s"
  by (induction xs arbitrary: s) simp_all

lemma fold_emit_bounded [intro]: "pp_bounded s \<Longrightarrow> pp_bounded (fold pp_emit xs s)"
  by (induction xs arbitrary: s) (simp_all add: pp_emit_bounded)

text \<open>An error stays, and without one everything was emitted.\<close>

lemma pp_emit_clean [simp]: "pp_error (pp_emit c s) = None \<longleftrightarrow> pp_error s = None \<and> length (pp_output s) \<noteq> PP_OUTPUT"
  by (auto simp: pp_emit_def split: option.splits)

lemma pp_emit_output: "pp_error (pp_emit c s) = None \<Longrightarrow> pp_output (pp_emit c s) = pp_output s @ [c]"
  by (auto simp: pp_emit_def split: option.splits if_splits)

lemma fold_emit_clean: "pp_error (fold pp_emit xs s) = None \<Longrightarrow> pp_error s = None \<and> pp_output (fold pp_emit xs s) = pp_output s @ xs"
proof (induction xs arbitrary: s)
  case (Cons c xs)
  from Cons.IH[of "pp_emit c s"] Cons.prems show ?case by (auto simp: pp_emit_output)
qed simp

lemma emit_newlines: "newlines (pp_output (pp_emit c s)) \<le> newlines (pp_output s) + newlines [c]"
  by (auto simp: pp_emit_def)

lemma fold_emit_newlines: "newlines (pp_output (fold pp_emit xs s)) \<le> newlines (pp_output s) + newlines xs"
proof (induction xs arbitrary: s)
  case (Cons c xs)
  from Cons.IH[of "pp_emit c s"] emit_newlines[of c s] show ?case by (simp split: if_splits)
qed simp

section \<open>Expansion\<close>

text \<open>What a step that reads text without newlines keeps: the macros, the headers and the rows.\<close>

definition pp_kept :: "pp \<Rightarrow> pp \<Rightarrow> bool" where
  "pp_kept s s' \<longleftrightarrow> (pp_bounded s \<longrightarrow> pp_bounded s') \<and> pp_macros s' = pp_macros s \<and> pp_included s' = pp_included s \<and>
     pp_including s' = pp_including s \<and> newlines (pp_output s') = newlines (pp_output s) \<and> (pp_error s' = None \<longrightarrow> pp_error s = None)"

lemma pp_kept_refl [intro, simp]: "pp_kept s s"
  by (simp add: pp_kept_def)

lemma pp_kept_trans [trans]: "pp_kept s s' \<Longrightarrow> pp_kept s' s'' \<Longrightarrow> pp_kept s s''"
  by (simp add: pp_kept_def)

lemma pp_kept_fail [intro, simp]: "pp_kept s (pp_fail e s)"
  by (simp add: pp_kept_def pp_fail_bounded split: option.splits)

lemma pp_kept_emit [intro, simp]: "c \<noteq> 10 \<Longrightarrow> pp_kept s (pp_emit c s)"
  by (auto simp: pp_kept_def pp_emit_bounded) (simp add: pp_emit_def)

lemma pp_kept_emit2: "pp_kept (pp_emit d (pp_emit c s)) s' \<Longrightarrow> c \<noteq> 10 \<Longrightarrow> d \<noteq> 10 \<Longrightarrow> pp_kept s s'"
  by (meson pp_kept_emit pp_kept_trans)

lemma pp_kept_fold [intro, simp]: "newlines xs = 0 \<Longrightarrow> pp_kept s (fold pp_emit xs s)"
proof (induction xs arbitrary: s)
  case (Cons c xs)
  then show ?case by (auto split: if_splits intro: pp_kept_trans[OF pp_kept_emit])
qed simp

lemma newlines_take_drop: "newlines (takeWhile f xs) + newlines (dropWhile f xs) = newlines xs"
  by (metis newlines_simps(3) takeWhile_dropWhile_id)

lemma newlines_takeWhile [simp]: "newlines xs = 0 \<Longrightarrow> newlines (takeWhile f xs) = 0"
  using newlines_take_drop[of f xs] by simp

lemma newlines_dropWhile [simp]: "newlines xs = 0 \<Longrightarrow> newlines (dropWhile f xs) = 0"
  using newlines_take_drop[of f xs] by simp

lemma newlines_tl [simp]: "newlines xs = 0 \<Longrightarrow> newlines (tl xs) = 0"
  by (cases xs) auto

lemma number_rest_split: "number_rest prev p = (xs, q) \<Longrightarrow> p = xs @ q"
  by (induction prev p arbitrary: xs q rule: number_rest.induct) (auto split: if_splits prod.splits)

lemma pp_literal_kept: "pp_literal quote p s = (q, s', b) \<Longrightarrow> newlines p = 0 \<Longrightarrow> pp_kept s s' \<and> newlines q = 0"
proof (induction quote p s arbitrary: q s' b rule: pp_literal.induct)
  case (2 quote c p s)
  show ?case
  proof (cases "pp_error s \<noteq> None \<or> c = quote \<or> (c = 0x5C \<and> p = [])")
    case True
    with 2(3,4) show ?thesis by (auto simp: Let_def split: if_splits list.splits)
  next
    case False
    show ?thesis
    proof (cases "c = 0x5C")
      case True
      with False obtain d p' where p: "p = d # p'" by (cases p) auto
      from 2(1)[OF _ refl, of d p' q s' b] False True p 2(3,4) show ?thesis
        by (auto simp: Let_def split: if_splits intro: pp_kept_emit2)
    next
      case b: False
      from 2(2)[OF _ refl _ b, of q s' b] False b 2(3,4) show ?thesis
        by (auto simp: Let_def split: if_splits intro: pp_kept_trans)
    qed
  qed
qed simp

lemma set_active_fields [simp]:
  "pp_output (set_active i b s) = pp_output s" "pp_line (set_active i b s) = pp_line s" "pp_work (set_active i b s) = pp_work s"
  "pp_included (set_active i b s) = pp_included s" "pp_including (set_active i b s) = pp_including s"
  "pp_error (set_active i b s) = pp_error s" "length (pp_macros (set_active i b s)) = length (pp_macros s)"
  "map mc_name (pp_macros (set_active i b s)) = map mc_name (pp_macros s)"
  by (simp_all add: set_active_def map_update) (metis list_update_id map_update)

lemma set_active_bounded: "i < length (pp_macros s) \<Longrightarrow> pp_bounded s \<Longrightarrow> pp_bounded (set_active i b s)"
  unfolding pp_ok_defs set_active_fields
  by (auto simp: set_active_def list_all_length nth_list_update macro_ok_def)

lemma pp_find_Some: "pp_find name s = Some i \<Longrightarrow> i < length (pp_macros s) \<and> mc_name (pp_macros s ! i) = name"
  by (auto simp: pp_find_def find_Some_iff)

lemma pp_find_None: "pp_find name s = None \<longleftrightarrow> name \<notin> set (map mc_name (pp_macros s))"
proof -
  have "name \<notin> set (map mc_name (pp_macros s)) \<longleftrightarrow> (\<forall>i < length (pp_macros s). mc_name (pp_macros s ! i) \<noteq> name)"
    unfolding in_set_conv_nth by auto
  then show ?thesis by (simp add: pp_find_def find_None_iff)
qed

text \<open>The expansion of one macro around its body.\<close>

lemma macro_call_kept:
  assumes "i < length (pp_macros s)" "\<not> mc_active (pp_macros s ! i)" "pp_kept (pp_emit 0x20 (set_active i True s)) t"
  shows "pp_kept s (set_active i False (pp_emit 0x20 t))"
proof -
  have m: "pp_macros t = pp_macros (set_active i True s)" using assms(3) by (simp add: pp_kept_def)
  have b: "pp_bounded (pp_emit 0x20 t)" if "pp_bounded s"
    using assms(3) set_active_bounded[OF assms(1) that] by (auto simp: pp_kept_def pp_emit_bounded)
  have "pp_macros (set_active i False (pp_emit 0x20 t)) = pp_macros s"
    using assms(1,2) m by (simp add: set_active_def) (metis (full_types) list_update_id pp_macro.surjective pp_macro.update_convs(3))
  moreover have "i < length (pp_macros (pp_emit 0x20 t))" using m assms(1) by simp
  moreover have "newlines (pp_output (pp_emit 0x20 u)) = newlines (pp_output u)" for u
    by (simp add: pp_emit_def)
  ultimately show ?thesis using assms(3) b by (auto simp: pp_kept_def set_active_bounded)
qed

text \<open>A span without a newline: expansion keeps the macros, the headers and the rows, whatever happens.\<close>

lemma work_kept:
  assumes "pp_bounded s" "pp_error s = None" "pp_work s < PP_WORK"
  shows "pp_kept s (s\<lparr>pp_work := pp_work s + 1\<rparr>) \<and> pp_bounded (s\<lparr>pp_work := pp_work s + 1\<rparr>)"
  using assms by (auto simp: pp_kept_def pp_ok_defs)

lemma work_limit_kept: "pp_bounded s \<Longrightarrow> pp_error s = None \<Longrightarrow> pp_kept s (pp_fail Work_Limit (s\<lparr>pp_work := pp_work s + 1\<rparr>))"
  by (auto simp: pp_kept_def pp_ok_defs)

lemma kept_bounded: "pp_kept s t \<Longrightarrow> pp_bounded s \<Longrightarrow> pp_bounded t"
  by (simp add: pp_kept_def)

lemma word_newlines: "c_letter c \<Longrightarrow> c \<noteq> 10" "c_digit c \<Longrightarrow> c \<noteq> 10"
  by (auto simp: c_letter_def c_digit_def)

lemma body_newlines: "pp_bounded s \<Longrightarrow> i < length (pp_macros s) \<Longrightarrow> newlines (mc_body (pp_macros s ! i)) = 0"
  by (auto simp: pp_bounded_def list_all_length macro_ok_def)

lemma pp_expand_kept: "newlines p = 0 \<Longrightarrow> pp_bounded s \<Longrightarrow> pp_kept s (pp_expand depth p s)"
proof (induction depth p s rule: pp_expand.induct)
  case (2 depth c p s)
  let ?t = "s\<lparr>pp_work := pp_work s + 1\<rparr>"
  from "2.prems"(1) have c: "c \<noteq> 10" and p: "newlines p = 0" by (auto split: if_splits)
  show ?case
  proof (cases "pp_error s \<noteq> None \<or> pp_work s + 1 > PP_WORK")
    case True
    with "2.prems"(2) show ?thesis using work_limit_kept[of s] by (cases "pp_error s = None") auto
  next
    case False
    then have ok: "\<not> pp_error s \<noteq> None" "\<not> PP_WORK < pp_work ?t" by auto
    with "2.prems"(2) have t: "pp_kept s ?t" "pp_bounded ?t"
      using work_kept[of s] by (cases "pp_error s = None"; simp)+
    have "pp_kept ?t (pp_expand depth (c # p) s)"
    proof (cases "c_letter c")
      case l: True
      let ?name = "c # takeWhile word_char p" and ?q = "dropWhile word_char p"
      show ?thesis
      proof (cases "pp_find ?name ?t")
        case None
        have "pp_kept ?t (fold pp_emit ?name ?t)" by (rule pp_kept_fold) (use p c in simp)
        with "2.IH"(1)[OF ok(1) refl ok(2) l refl refl None] l ok None p t(2) show ?thesis
          by (auto simp: kept_bounded elim!: pp_kept_trans)
      next
        case (Some m)
        show ?thesis
        proof (cases "mc_active (pp_macros ?t ! m) \<or> depth \<ge> PP_DEPTH")
          case True
          with l ok Some show ?thesis by (auto simp: Let_def)
        next
          case a: False
          from pp_find_Some[OF Some] have m: "m < length (pp_macros ?t)" by simp
          let ?u = "pp_emit 0x20 (set_active m True ?t)"
          have u: "pp_bounded ?u" using set_active_bounded[OF m t(2)] by blast
          have "pp_kept ?u (pp_expand (depth + 1) (mc_body (pp_macros ?t ! m)) ?u)"
            using "2.IH"(2)[OF ok(1) refl ok(2) l refl refl Some] a u body_newlines[OF t(2) m] by simp
          from macro_call_kept[OF m _ this] a
          have k: "pp_kept ?t (set_active m False (pp_emit 0x20 (pp_expand (depth + 1) (mc_body (pp_macros ?t ! m)) ?u)))" by simp
          have e: "pp_expand depth (c # p) s = pp_expand depth ?q (set_active m False (pp_emit 0x20
              (pp_expand (depth + 1) (mc_body (pp_macros ?t ! m)) ?u)))"
            using a l ok Some by (auto simp: Let_def)
          from "2.IH"(3)[OF ok(1) refl ok(2) l refl refl Some] a p kept_bounded[OF k t(2)]
          show ?thesis unfolding e by (intro pp_kept_trans[OF k]) simp
        qed
      qed
    next
      case l: False
      show ?thesis
      proof (cases "c_digit c \<or> (c = 0x2E \<and> p \<noteq> [] \<and> c_digit (hd p))")
        case d: True
        obtain xs q where n: "number_rest c p = (xs, q)" by fastforce
        with number_rest_split[OF n] p have "newlines xs = 0" "newlines q = 0" by auto
        then have k: "pp_kept ?t (fold pp_emit (c # xs) ?t)" "newlines q = 0"
          using c by (auto intro: pp_kept_fold[of "c # xs", simplified])
        have e: "pp_expand depth (c # p) s = pp_expand depth q (fold pp_emit (c # xs) ?t)" using l d n ok by auto
        from "2.IH"(4)[OF ok(1) refl ok(2) l d n[symmetric] k(2) kept_bounded[OF k(1) t(2)]] show ?thesis
          unfolding e by (rule pp_kept_trans[OF k(1)])
      next
        case d: False
        show ?thesis
        proof (cases "c = 0x22 \<or> c = 0x27")
          case q: True
          obtain r v b where lit: "pp_literal c p (pp_emit c ?t) = (r, v, b)" by (cases "pp_literal c p (pp_emit c ?t)") auto
          from pp_literal_kept[OF this p] c have k: "pp_kept ?t v" "newlines r = 0"
            by (auto intro: pp_kept_trans[OF pp_kept_emit])
          then have k': "pp_kept ?t (if b then v else pp_fail Unterminated_Literal v)" by (auto intro: pp_kept_trans)
          have "pp_expand depth (c # p) s = pp_expand depth r (if b then v else pp_fail Unterminated_Literal v)"
            using l d q ok lit by auto
          with "2.IH"(5)[OF ok(1) refl ok(2) l d q lit[symmetric] refl k(2) kept_bounded[OF k' t(2)]] k' show ?thesis
            by (metis pp_kept_trans)
        next
          case q: False
          show ?thesis
          proof (cases "c = 0x23")
            case True
            with l d q ok show ?thesis by auto
          next
            case h: False
            have e: "pp_expand depth (c # p) s = pp_expand depth p (pp_emit c ?t)"
              using l d q h ok by auto
            from pp_kept_emit[OF c] have k: "pp_kept ?t (pp_emit c ?t)" .
            from "2.IH"(6)[OF ok(1) refl ok(2) l d q h p kept_bounded[OF k t(2)]] show ?thesis
              unfolding e by (rule pp_kept_trans[OF k])
          qed
        qed
      qed
    qed
    with t(1) show ?thesis by (rule pp_kept_trans)
  qed
qed simp

section \<open>Directives\<close>

lemma comment_end_newlines: "comment_end p = Some q \<Longrightarrow> newlines p = 0 \<Longrightarrow> newlines q = 0"
  by (induction p rule: comment_end.induct) (auto split: if_splits)

definition body_ok :: "u8 list \<Rightarrow> bool" where
  "body_ok b \<longleftrightarrow> length b < PP_BODY \<and> newlines b = 0"

lemma body_ok_snoc: "body_ok b \<Longrightarrow> \<not> length b \<ge> PP_BODY - 1 \<Longrightarrow> c \<noteq> 10 \<Longrightarrow> body_ok (b @ [c])"
  by (auto simp: body_ok_def)

lemma body_literal_ok:
  "body_literal quote p body s = (q, body', s', b) \<Longrightarrow> newlines p = 0 \<Longrightarrow> body_ok body \<Longrightarrow>
   body_ok body' \<and> newlines q = 0 \<and> pp_kept s s'"
proof (induction quote p body s arbitrary: q body' s' b rule: body_literal.induct)
  case (2 quote c p body s)
  then have c: "c \<noteq> 10" and p: "newlines p = 0" by (auto split: if_splits)
  show ?case
  proof (cases "length body \<ge> PP_BODY - 1 \<or> c = quote")
    case True
    with 2 c p body_ok_snoc[of body c] show ?thesis by (auto simp: Let_def split: if_splits)
  next
    case False
    then have full: "\<not> length body \<ge> PP_BODY - 1" and q: "c \<noteq> quote" by auto
    have snoc: "body_ok (body @ [c])" using 2 full c by (simp add: body_ok_snoc)
    show ?thesis
    proof (cases "c = 0x5C \<and> p \<noteq> []")
      case b: True
      then obtain d r where pd: "p = d # r" by (cases p) auto
      with p have d: "d \<noteq> 10" by (auto split: if_splits)
      show ?thesis
      proof (cases "length (body @ [c]) \<ge> PP_BODY - 1")
        case True
        with 2 full q b p snoc show ?thesis by (auto simp: Let_def split: if_splits)
      next
        case e: False
        with "2.IH"(1)[OF full refl q b e, of q body' s' b] 2 full q b p snoc pd d body_ok_snoc[OF snoc e, of d] show ?thesis
          by (simp add: Let_def split: if_splits)
      qed
    next
      case b: False
      with "2.IH"(2)[OF full refl q b, of q body' s' b] 2 full q p snoc show ?thesis
        by (auto simp: Let_def split: if_splits)
    qed
  qed
qed auto

lemma pp_body_ok: "pp_body p body s = (body', s') \<Longrightarrow> newlines p = 0 \<Longrightarrow> body_ok body \<Longrightarrow> body_ok body' \<and> pp_kept s s'"
proof (induction p body s arbitrary: body' s' rule: pp_body.induct)
  case (2 c p body s)
  note eq = "2.prems"(1)
  from 2 have c: "c \<noteq> 10" and p: "newlines p = 0" and ok: "body_ok body" by (auto split: if_splits)
  consider (err) "pp_error s \<noteq> None \<or> (c = 0x2F \<and> peek p = 0x2F)"
    | (comment) "pp_error s = None" "c = 0x2F" "peek p \<noteq> 0x2F" "peek p = 0x2A"
    | (quote) "pp_error s = None" "\<not> (c = 0x2F \<and> peek p = 0x2F)" "\<not> (c = 0x2F \<and> peek p = 0x2A)" "c = 0x22 \<or> c = 0x27"
    | (rest) "pp_error s = None" "\<not> (c = 0x2F \<and> peek p = 0x2F)" "\<not> (c = 0x2F \<and> peek p = 0x2A)" "\<not> (c = 0x22 \<or> c = 0x27)"
    by blast
  then show ?case
  proof cases
    case err
    then have "pp_body (c # p) body s = (body, s)" by auto
    with eq ok show ?thesis by simp
  next
    case comment
    show ?thesis
    proof (cases "comment_end (tl p)")
      case None
      with comment eq ok show ?thesis by auto
    next
      case (Some q)
      from comment_end_newlines[OF Some] p have q: "newlines q = 0" by simp
      show ?thesis
      proof (cases "length body \<ge> PP_BODY - 1")
        case True
        with comment eq ok Some show ?thesis by auto
      next
        case False
        from comment eq False Some have "pp_body q (body @ [0x20]) s = (body', s')" by simp
        with "2.IH"(1)[OF _ _ _ Some False] comment q body_ok_snoc[OF ok False, of "0x20"] show ?thesis by simp
      qed
    qed
  next
    case quote
    show ?thesis
    proof (cases "length body \<ge> PP_BODY - 1")
      case True
      with quote eq ok show ?thesis by auto
    next
      case False
      obtain q b t cl where l: "body_literal c p (body @ [c]) s = (q, b, t, cl)" by (cases "body_literal c p (body @ [c]) s") auto
      from body_literal_ok[OF l p body_ok_snoc[OF ok False c]] have k: "body_ok b" "newlines q = 0" "pp_kept s t" by auto
      then have k': "pp_kept s (if cl then t else pp_fail Unterminated_Macro_Literal t)" by (auto intro: pp_kept_trans)
      from quote eq False l have e: "pp_body q b (if cl then t else pp_fail Unterminated_Macro_Literal t) = (body', s')" by auto
      from "2.IH"(2)[OF _ quote(2,3,4) False l[symmetric] refl refl e k(2,1)] quote(1) k' show ?thesis
        by (auto intro: pp_kept_trans)
    qed
  next
    case rest
    show ?thesis
    proof (cases "c = 0x23 \<or> c = 0x5C \<or> length body \<ge> PP_BODY - 1")
      case True
      with rest eq ok show ?thesis by (auto split: if_splits)
    next
      case False
      then have h: "\<not> (c = 0x23 \<or> c = 0x5C)" and f: "\<not> length body \<ge> PP_BODY - 1" by auto
      from rest eq False have "pp_body p (body @ [c]) s = (body', s')" by auto
      with "2.IH"(3)[OF _ rest(2,3,4) h f] rest(1) p body_ok_snoc[OF ok f c] show ?thesis by simp
    qed
  qed
qed auto

text \<open>A step that reads \<open>n\<close> newlines.\<close>

definition none_active :: "pp \<Rightarrow> bool" where
  "none_active s \<longleftrightarrow> list_all (\<lambda>m. \<not> mc_active m) (pp_macros s)"

definition pp_read :: "nat \<Rightarrow> pp \<Rightarrow> pp \<Rightarrow> bool" where
  "pp_read n s s' \<longleftrightarrow> (pp_bounded s \<longrightarrow> pp_bounded s') \<and> (none_active s \<longrightarrow> none_active s') \<and> pp_including s' = pp_including s \<and>
     newlines (pp_output s') \<le> newlines (pp_output s) + n \<and>
     (pp_error s' = None \<longrightarrow> pp_error s = None \<and> newlines (pp_output s') = newlines (pp_output s) + n)"

lemma pp_read_kept: "pp_kept s s' \<Longrightarrow> pp_read 0 s s'"
  by (auto simp: pp_kept_def pp_read_def none_active_def)

lemma pp_read_trans: "pp_read a s t \<Longrightarrow> pp_read b t u \<Longrightarrow> pp_read (a + b) s u"
  by (auto simp: pp_read_def)

lemma pp_read_fail: "pp_read n s (pp_fail e s)"
  by (auto simp: pp_read_def pp_fail_bounded none_active_def split: option.splits)

lemma pp_read_emit: "pp_read (newlines [c]) s (pp_emit c s)"
  by (auto simp: pp_read_def pp_emit_bounded pp_emit_output none_active_def) (auto simp: pp_emit_def)

lemma strip_spaces_ok: "body_ok b \<Longrightarrow> body_ok (strip_spaces b)"
proof -
  assume b: "body_ok b"
  have r: "newlines (rev xs) = newlines xs" for xs by (simp add: newlines_def)
  from b show ?thesis
    by (simp add: body_ok_def strip_spaces_def r) (metis le_less_trans length_dropWhile_le length_rev)
qed

lemma pp_define_read:
  assumes l: "newlines l = 0"
  shows "pp_read 0 s (pp_define l s)"
proof -
  define p where "p = dropWhile pp_space (dropWhile c_letter (dropWhile pp_space l))"
  define name where "name = takeWhile word_char p"
  obtain body t where b: "pp_body (dropWhile pp_space (dropWhile word_char p)) [] s = (body, t)" by fastforce
  from l have p: "newlines p = 0" by (simp add: p_def)
  from pp_body_ok[OF b] p have k: "body_ok body" "pp_kept s t" by (auto simp: body_ok_def PP_BODY_def)
  let ?u = "t\<lparr>pp_macros := pp_macros t @ [\<lparr>mc_name = name, mc_body = strip_spaces body, mc_active = False\<rparr>]\<rparr>"
  have u: "pp_read 0 s ?u" if "length name < NAME_MAX" "pp_find name s = None" "length (pp_macros s) \<noteq> PP_MACROS"
    using that k strip_spaces_ok[OF k(1)] unfolding pp_read_def pp_kept_def pp_find_None
    by (auto simp: pp_ok_defs none_active_def macro_ok_def body_ok_def split: option.splits)
  show ?thesis
    unfolding pp_define_def Let_def p_def[symmetric] name_def[symmetric] b prod.case
    by (simp add: pp_read_fail u)
qed

section \<open>Includes\<close>

lemma include_enter_Inl: "include_enter depth i s = Inl s' \<Longrightarrow> pp_kept s s'"
  by (auto simp: include_enter_def Let_def split: if_splits)

lemma include_enter_Inr:
  assumes "include_enter depth i s = Inr s'" "pp_error s = None"
  shows "(pp_bounded s \<longrightarrow> pp_bounded s') \<and> (none_active s \<longrightarrow> none_active s') \<and> \<not> bit (pp_including s) i \<and>
    pp_including s' = set_bit i (pp_including s) \<and> newlines (pp_output s') = newlines (pp_output s)"
proof -
  let ?t = "s\<lparr>pp_work := pp_work s + length (snd (pp_headers ! i)), pp_including := set_bit i (pp_including s)\<rparr>"
  from assms(1) have e: "s' = pp_emit 0x20 ?t" "\<not> bit (pp_including s) i" "\<not> length (snd (pp_headers ! i)) > PP_WORK - pp_work s"
    by (auto simp: include_enter_def Let_def split: if_splits)
  have b: "pp_bounded ?t" if "pp_bounded s"
    using that e(3) assms(2) by (auto simp: pp_ok_defs)
  show ?thesis using b e(2) pp_read_emit[of "0x20" ?t] unfolding e(1)
    by (auto simp: none_active_def) (simp_all add: pp_emit_def)
qed

lemma unset_set_bit: "\<not> bit x i \<Longrightarrow> unset_bit i (set_bit i x) = (x :: u32)"
  by (rule bit_eqI) (auto simp: bit_simps)

lemma include_leave_read:
  assumes "include_enter depth i s = Inr t" "pp_error s = None" "pp_read 0 t u"
  shows "pp_read 0 s (include_leave i (pp_emit 0x20 u))"
proof -
  note e = include_enter_Inr[OF assms(1,2)]
  have u: "pp_read 0 t (pp_emit 0x20 u)"
    using pp_read_trans[OF assms(3) pp_read_emit[of "0x20"]] by simp
  let ?v = "pp_emit 0x20 u"
  have f: "pp_output (include_leave i ?v) = pp_output ?v" "pp_error (include_leave i ?v) = pp_error ?v"
    "pp_including (include_leave i ?v) = unset_bit i (pp_including ?v)" "pp_macros (include_leave i ?v) = pp_macros ?v"
    "pp_work (include_leave i ?v) = pp_work ?v" "pp_line (include_leave i ?v) = pp_line ?v"
    by (auto simp: include_leave_def Let_def)
  have b: "pp_bounded (include_leave i ?v) \<longleftrightarrow> pp_bounded ?v" by (simp only: pp_ok_defs f)
  have a: "none_active (include_leave i ?v) \<longleftrightarrow> none_active ?v" by (simp only: none_active_def f)
  show ?thesis unfolding pp_read_def b a f using u e assms(2) by (auto simp: pp_read_def unset_set_bit)
qed

section \<open>The source\<close>

text \<open>The newlines a text contributes at an include depth.\<close>

definition source_newlines :: "nat \<Rightarrow> u8 list \<Rightarrow> nat" where
  "source_newlines depth p = (if depth = 0 then newlines p else 0)"

lemma source_newlines_simps [simp]:
  "source_newlines depth [] = 0" "c \<noteq> 10 \<Longrightarrow> source_newlines depth (c # p) = source_newlines depth p"
  "source_newlines depth (10 # p) = newlines [pp_newline depth] + source_newlines depth p"
  by (simp_all add: source_newlines_def pp_newline_def)

lemma peek_tl: "peek p = b \<Longrightarrow> b \<noteq> 0 \<Longrightarrow> b \<noteq> 10 \<Longrightarrow> source_newlines depth (tl p) = source_newlines depth p"
  by (cases p) (auto simp: peek_def)

lemma pp_comment_read: "pp_comment depth p bol s = (r, b, s') \<Longrightarrow> pp_read (case r of None \<Rightarrow> source_newlines depth p | Some q \<Rightarrow> source_newlines depth p - source_newlines depth q) s s' \<and>
  (case r of None \<Rightarrow> True | Some q \<Rightarrow> source_newlines depth q \<le> source_newlines depth p)"
proof (induction depth p bol s arbitrary: r b s' rule: pp_comment.induct)
  case (1 depth bol s)
  then show ?case by (auto intro: pp_read_kept)
next
  case (2 depth c p bol s)
  show ?case
  proof (cases "c = 0x2A \<and> peek p = 0x2F")
    case True
    with 2 show ?thesis by (auto simp: peek_tl pp_read_kept)
  next
    case f: False
    show ?thesis
    proof (cases "c = 10")
      case True
      with 2 f have "pp_comment depth p True (pp_emit (pp_newline depth) s) = (r, b, s')" by simp
      from "2.IH"(1)[OF f True this] pp_read_trans[OF pp_read_emit[of "pp_newline depth" s], of _ s'] True show ?thesis
        by (auto simp: Suc_diff_le split: option.splits)
    next
      case False
      with 2 f have "pp_comment depth p bol s = (r, b, s')" by simp
      from "2.IH"(2)[OF f False this] False show ?thesis by (auto split: option.splits)
    qed
  qed
qed

text \<open>The newlines of a token are all after it.\<close>

lemma source_literal_split: "source_literal quote p = (xs, q) \<Longrightarrow> p = xs @ q \<and> newlines xs = 0"
proof (induction quote p arbitrary: xs q rule: source_literal.induct)
  case (2 quote c p)
  show ?case
  proof (cases "c = 0x5C \<and> p \<noteq> [] \<and> hd p \<noteq> 10 \<and> c \<noteq> quote")
    case True
    then obtain d r where p: "p = d # r" by (cases p) auto
    with True 2 show ?thesis by (fastforce split: if_splits prod.splits)
  next
    case False
    with 2 show ?thesis by (fastforce split: if_splits prod.splits)
  qed
qed simp

lemma number_rest_newlines: "number_rest prev p = (xs, q) \<Longrightarrow> newlines xs = 0"
  by (induction prev p arbitrary: xs q rule: number_rest.induct)
    (auto simp: word_char_def c_letter_def c_digit_def exp_sign_def split: if_splits prod.splits)

lemma word_chars_newlines: "newlines (takeWhile word_char p) = 0"
  by (induction p) (auto simp: word_char_def word_newlines)

lemma source_token_split: "source_token c p = (xs, q) \<Longrightarrow> p = xs @ q \<and> newlines xs = 0"
  by (auto simp: source_token_def word_chars_newlines split: if_splits
      dest: source_literal_split number_rest_split number_rest_newlines)

lemma source_newlines_append: "newlines xs = 0 \<Longrightarrow> source_newlines depth (xs @ q) = source_newlines depth q"
  by (simp add: source_newlines_def)

lemma line_newlines: "newlines (takeWhile (\<lambda>c. c \<noteq> 10) p) = 0"
  by (induction p) auto

lemma source_newlines_line: "source_newlines depth (dropWhile (\<lambda>c. c \<noteq> 10) p) = source_newlines depth p"
  by (induction p) auto

lemma directive_read:
  assumes "pp_error s = None"
    and "\<And>i t. is_include (dropWhile pp_space p) \<Longrightarrow>
      include_header (takeWhile (\<lambda>c. c \<noteq> 10) (drop 7 (dropWhile pp_space p))) = Inr i \<Longrightarrow> include_enter depth i s = Inr t \<Longrightarrow>
      pp_read 0 t (pp_source (depth + 1) (snd (pp_headers ! i)) True t)"
  shows "pp_read 0 s (if \<not> is_include (dropWhile pp_space p) then pp_define (takeWhile (\<lambda>c. c \<noteq> 10) p) s
    else (case include_header (takeWhile (\<lambda>c. c \<noteq> 10) (drop 7 (dropWhile pp_space p))) of
            Inl e \<Rightarrow> pp_fail e s
          | Inr i \<Rightarrow>
              (case include_enter depth i s of
                 Inl s \<Rightarrow> s
               | Inr s \<Rightarrow> include_leave i (pp_emit 0x20 (pp_source (depth + 1) (snd (pp_headers ! i)) True s)))))"
  using assms(2) include_leave_read[OF _ assms(1)]
  by (auto simp: pp_define_read line_newlines pp_read_fail pp_read_kept include_enter_Inl split: sum.split)

lemma read_bounded: "pp_read n s t \<Longrightarrow> pp_bounded s \<Longrightarrow> pp_bounded t"
  by (simp add: pp_read_def)

lemma read_then: "pp_read a s t \<Longrightarrow> (pp_bounded t \<Longrightarrow> pp_read b t u) \<Longrightarrow> pp_bounded s \<Longrightarrow> n = a + b \<Longrightarrow> pp_read n s u"
  using pp_read_trans read_bounded by blast

lemma read_zero_then: "pp_read 0 s t \<Longrightarrow> (pp_bounded t \<Longrightarrow> pp_read n t u) \<Longrightarrow> pp_bounded s \<Longrightarrow> pp_read n s u"
  by (erule read_then) auto

lemma emit_then: "c \<noteq> 10 \<Longrightarrow> (pp_bounded (pp_emit c s) \<Longrightarrow> pp_read n (pp_emit c s) u) \<Longrightarrow> pp_bounded s \<Longrightarrow> pp_read n s u"
  by (erule read_zero_then[OF pp_read_kept[OF pp_kept_emit]]) auto

lemma block_comment_read:
  assumes "pp_comment depth (tl p) bol (pp_emit 0x20 s) = (r, b, t)" "peek p = 0x2A" "pp_bounded s"
    and "\<And>q. r = Some q \<Longrightarrow> pp_bounded t \<Longrightarrow> pp_read (source_newlines depth q) t (F q)"
  shows "pp_read (source_newlines depth p) s (case r of None \<Rightarrow> pp_fail Unterminated_Comment t | Some q \<Rightarrow> F q)"
proof -
  from peek_tl[OF assms(2)] have p: "source_newlines depth (tl p) = source_newlines depth p" by simp
  show ?thesis
  proof (rule emit_then[of "0x20"])
    assume b: "pp_bounded (pp_emit 0x20 s)"
    show "pp_read (source_newlines depth p) (pp_emit 0x20 s) (case r of None \<Rightarrow> pp_fail Unterminated_Comment t | Some q \<Rightarrow> F q)"
    proof (cases r)
      case None
      then show ?thesis using pp_comment_read[OF assms(1)] pp_read_trans[OF _ pp_read_fail[of 0 t Unterminated_Comment]] p
        by fastforce
    next
      case (Some q)
      with pp_comment_read[OF assms(1)] p
      have "pp_read (source_newlines depth p - source_newlines depth q) (pp_emit 0x20 s) t" "source_newlines depth q \<le> source_newlines depth p"
        by auto
      with Some b assms(4)[OF Some] show ?thesis by (auto intro: read_then)
    qed
  qed (use assms(3) in simp_all)
qed

lemma pp_source_read: "pp_bounded s \<Longrightarrow> pp_read (source_newlines depth p) s (pp_source depth p bol s)"
proof (induction depth p bol s rule: pp_source.induct)
  case (2 depth c p bol s)
  show ?case
  proof (cases "pp_error s = None")
    case False
    then show ?thesis using "2.prems" by (auto simp: pp_read_def)
  next
    case err: True
    then have e: "\<not> pp_error s \<noteq> None" by simp
    show ?thesis
    proof (cases "c = 10")
      case True
      show ?thesis
        by (rule read_then[OF pp_read_emit[of "pp_newline depth"] _ "2.prems"]) (use "2.IH"(1)[OF e True] True err in simp_all)
    next
      case nl: False
      show ?thesis
      proof (cases "pp_space c")
        case True
        from "2.IH"(2)[OF e nl True] True nl err "2.prems" show ?thesis by (auto intro: emit_then)
      next
        case sp: False
        show ?thesis
        proof (cases "c = 0x2F \<and> peek p = 0x2F")
          case True
          from "2.IH"(3)[OF e nl sp True] True nl sp err "2.prems" show ?thesis
            by (auto simp: source_newlines_line intro: emit_then[of "0x20"])
        next
          case lc: False
          show ?thesis
          proof (cases "c = 0x2F \<and> peek p = 0x2A")
            case True
            obtain r b t where k: "pp_comment depth (tl p) bol (pp_emit 0x20 s) = (r, b, t)"
              by (cases "pp_comment depth (tl p) bol (pp_emit 0x20 s)") auto
            have eq: "pp_source depth (c # p) bol s = (case r of None \<Rightarrow> pp_fail Unterminated_Comment t | Some q \<Rightarrow> pp_source depth q b t)"
              using err nl sp lc True k by (auto split: option.splits)
            show ?thesis unfolding eq source_newlines_simps(2)[OF nl]
              by (rule block_comment_read[OF k conjunct2[OF True] "2.prems"])
                (use "2.IH"(4)[OF e nl sp lc True k[symmetric] _ refl] in auto)
          next
            case bc: False
            show ?thesis
            proof (cases "c = 0x23")
              case True
              show ?thesis
              proof (cases bol)
                case False
                with True err nl sp lc bc show ?thesis by (auto simp: pp_read_fail)
              next
                case b: True
                let ?d = "if \<not> is_include (dropWhile pp_space p) then pp_define (takeWhile (\<lambda>c. c \<noteq> 10) p) s
                  else (case include_header (takeWhile (\<lambda>c. c \<noteq> 10) (drop 7 (dropWhile pp_space p))) of
                          Inl e \<Rightarrow> pp_fail e s
                        | Inr i \<Rightarrow>
                            (case include_enter depth i s of
                               Inl s \<Rightarrow> s
                             | Inr s \<Rightarrow> include_leave i (pp_emit 0x20 (pp_source (depth + 1) (snd (pp_headers ! i)) True s))))"
                have n: "\<not> \<not> bol" using b by simp
                have "pp_read 0 t (pp_source (depth + 1) (snd (pp_headers ! i)) True t)"
                  if "is_include (dropWhile pp_space p)" "include_enter depth i s = Inr t"
                    "include_header (takeWhile (\<lambda>c. c \<noteq> 10) (drop 7 (dropWhile pp_space p))) = Inr i" for i t
                  using "2.IH"(5)[OF e nl sp lc bc True n refl _ that(3,2)] that(1) include_enter_Inr[OF that(2) err] "2.prems"
                  by (simp add: source_newlines_def)
                then have d: "pp_read 0 s ?d" by (intro directive_read[OF err]) auto
                have eq: "pp_source depth (c # p) bol s = pp_source depth (dropWhile (\<lambda>c. c \<noteq> 10) p) bol ?d"
                  using err nl sp lc bc True n by (simp add: Let_def)
                show ?thesis unfolding eq source_newlines_simps(2)[OF nl]
                  by (rule read_zero_then[OF d _ "2.prems"])
                    (use "2.IH"(6)[OF e nl sp lc bc True n refl] in \<open>simp add: source_newlines_line\<close>)
              qed
            next
              case False
              obtain xs q where tok: "source_token c p = (xs, q)" by fastforce
              from source_token_split[OF tok] have k: "pp_kept s (pp_expand 0 (c # xs) s)" "source_newlines depth p = source_newlines depth q"
                using nl pp_expand_kept[OF _ "2.prems", of "c # xs"] by (simp_all add: source_newlines_append del: pp_expand.simps)
              have eq: "pp_source depth (c # p) bol s = pp_source depth q False (pp_expand 0 (c # xs) s)"
                using err nl sp lc bc False tok by auto
              show ?thesis unfolding eq source_newlines_simps(2)[OF nl] k(2)
                by (rule read_zero_then[OF pp_read_kept[OF k(1)] _ "2.prems"])
                  (use "2.IH"(7)[OF e nl sp lc bc False tok[symmetric]] in simp)
            qed
          qed
        qed
      qed
    qed
  qed
qed (simp add: pp_read_kept)

section \<open>Properties\<close>

lemma pp_start_bounded: "pp_bounded pp_start" "none_active pp_start"
  by (simp_all add: pp_start_def pp_ok_defs none_active_def)

lemma preprocess_read: "pp_read (newlines source) pp_start (preprocess source)"
  using pp_source_read[OF pp_start_bounded(1), of 0 source True] by (simp add: preprocess_def source_newlines_def)

text \<open>C37. For every source, also when preprocessing stops with an error: the output has at most 32000 bytes, there are at
  most 32 macros with distinct names shorter than 48 bytes and bodies shorter than 256 bytes, the work is at most one
  over 64000 steps, and no macro and no header is left marked as being expanded.\<close>

theorem preprocess_limits:
  "let s = preprocess source in length (pp_output s) \<le> 32000 \<and> length (pp_macros s) \<le> 32 \<and>
     list_all (\<lambda>m. length (mc_name m) < 48 \<and> length (mc_body m) < 256 \<and> \<not> mc_active m) (pp_macros s) \<and>
     distinct (map mc_name (pp_macros s)) \<and> pp_work s \<le> 64001 \<and> pp_including s = 0"
proof -
  from preprocess_read[of source] pp_start_bounded
  have "pp_bounded (preprocess source)" "none_active (preprocess source)" "pp_including (preprocess source) = 0"
    by (simp_all add: pp_read_def pp_start_def)
  then show ?thesis
    unfolding Let_def pp_bounded_def none_active_def PP_OUTPUT_def PP_MACROS_def PP_WORK_def
    by (auto simp: list_all_iff macro_ok_def NAME_MAX_def PP_BODY_def split: if_splits)
qed

text \<open>C38. When preprocessing ends without an error, the output has exactly as many lines as the source: headers, macros,
  comments and directives add and remove none. When it stops with an error, the reported row is a line of the source.\<close>

theorem preprocess_keeps_rows:
  "(pp_error (preprocess source) = None \<longrightarrow> count_list (pp_output (preprocess source)) 10 = count_list source 10) \<and>
   (pp_error (preprocess source) = Some (e, row) \<longrightarrow> 1 \<le> row \<and> row \<le> 1 + count_list source 10)"
proof -
  have o: "newlines (pp_output pp_start) = 0" "pp_bounded (preprocess source)"
    using preprocess_read[of source] pp_start_bounded by (simp_all add: pp_read_def pp_start_def)
  then show ?thesis using preprocess_read[of source]
    by (auto simp: pp_read_def pp_ok_defs newlines_def[symmetric])
qed

lemmas pp_eval = preprocess_def pp_start_def pp_emit_def pp_fail_def PP_OUTPUT_def PP_WORK_def PP_DEPTH_def NAME_MAX_def
  PP_BODY_def PP_MACROS_def pp_define_def word_define_def word_include_def is_include_def peek_def pp_space_def pp_newline_def
  source_token_def c_letter_def c_digit_def word_char_def pp_find_def set_active_def strip_spaces_def Let_def

text \<open>A source of the two lines \<^verbatim>\<open>#define A 3\<close> and \<^verbatim>\<open>A\<close>, and one whose second line is a lone \<^verbatim>\<open>#\<close>.\<close>

definition lab_source :: "u8 list" where
  "lab_source = [0x23, 0x64, 0x65, 0x66, 0x69, 0x6E, 0x65, 0x20, 0x41, 0x20, 0x33, 10, 0x41, 10]"

lemma lab_source_ends: "pp_error (preprocess lab_source) = None" "pp_error (preprocess [10, 0x23]) = Some (Only_Define, 2)"
  by (simp_all add: lab_source_def pp_eval)

theorem preprocess_keeps_rows_witness:
  "count_list (pp_output (preprocess lab_source)) 10 = count_list lab_source 10 \<and> count_list lab_source 10 = 2 \<and>
   pp_error (preprocess [10, 0x23]) = Some (Only_Define, 2) \<and> (2::nat) \<le> 1 + count_list [10, 0x23 :: u8] 10"
  using preprocess_keeps_rows[of lab_source Only_Define 2] preprocess_keeps_rows[of "[10, 0x23]" Only_Define 2] lab_source_ends
  by (simp add: lab_source_def)

end
