(* ===== verification/Mcc_Lex_Props.thy ===== *)
theory Mcc_Lex_Props
  imports Mcc_Lex Mcc_Props "HOL-Library.Sublist"
begin

text \<open>
  What the lexer of the workshop promises the parser: its buffers never overflow, rows are rows of the source, every
  source ends after at most as many tokens as it has bytes, and an integer literal has exactly the value it denotes.
\<close>

section \<open>Consuming the input\<close>

lemma suffix_newlines: "suffix q p \<Longrightarrow> newlines q \<le> newlines p"
  by (auto simp: suffix_def)

lemma suffix_tl2: "suffix q (tl p) \<Longrightarrow> suffix q p"
  using suffix_order.trans suffix_tl by blast

lemma suffix_Cons2: "suffix q p \<Longrightarrow> suffix q (c # p)"
  by (simp add: suffix_Cons)

definition lex_rows :: "u8 list \<Rightarrow> nat \<Rightarrow> u8 list option \<Rightarrow> nat \<Rightarrow> bool" where
  "lex_rows p l r m \<longleftrightarrow> l \<le> m \<and> m \<le> l + newlines p \<and> (\<forall>q. r = Some q \<longrightarrow> suffix q p \<and> m + newlines q \<le> l + newlines p)"

lemma lex_rows_here: "suffix q p \<Longrightarrow> lex_rows p l (Some q) l"
  using suffix_newlines[of q p] by (auto simp: lex_rows_def)

lemma lex_rows_then:
  assumes "lex_rows q k r m" "suffix q p" "l \<le> k" "k + newlines q \<le> l + newlines p"
  shows "lex_rows p l r m"
  using assms unfolding lex_rows_def by (auto intro: suffix_order.trans)

lemma lex_rows_char: "lex_rows p (count_line c l) r m \<Longrightarrow> lex_rows (c # p) l r m"
  by (erule lex_rows_then) (auto simp: suffix_Cons2 count_line_def)

lemma lex_rows_drop: "lex_rows q l r m \<Longrightarrow> suffix q p \<Longrightarrow> lex_rows p l r m"
  by (erule lex_rows_then) (auto dest: suffix_newlines)

lemma lex_comment_rows: "lex_comment p l = (r, m) \<Longrightarrow> lex_rows p l r m"
proof (induction p l arbitrary: r m rule: lex_comment.induct)
  case (2 c p l)
  then show ?case
    by (auto simp: suffix_Cons2 suffix_tl intro: lex_rows_here lex_rows_char split: if_splits)
qed (simp add: lex_rows_def)

lemma lex_skip_rows: "lex_skip p l = (r, m) \<Longrightarrow> lex_rows p l r m"
proof (induction p l arbitrary: r m rule: lex_skip.induct)
  case (2 c p l)
  show ?case
  proof (cases "blank c \<or> (c = 0x2F \<and> peek p = 0x2F) \<or> \<not> (c = 0x2F \<and> peek p = 0x2A)")
    case True
    with 2 show ?thesis
      by (auto simp: suffix_Cons2 suffix_dropWhile intro: lex_rows_here lex_rows_char lex_rows_drop split: if_splits)
  next
    case False
    obtain r' m' where k: "lex_comment (tl p) l = (r', m')" by fastforce
    have c: "lex_rows (c # p) l r' m'"
      using lex_rows_drop[OF lex_comment_rows[OF k]] by (auto intro: suffix_Cons2 suffix_tl)
    show ?thesis
    proof (cases r')
      case None
      with False k 2 c show ?thesis by auto
    next
      case (Some q)
      with False k 2 have "lex_skip q m' = (r, m)" by auto
      with "2.IH"(3)[OF _ _ _ k[symmetric] Some] False have "lex_rows q m' r m" by auto
      then show ?thesis by (rule lex_rows_then) (use c Some in \<open>auto simp: lex_rows_def\<close>)
    qed
  qed
qed (simp add: lex_rows_here)

lemma lex_digits_rest: "lex_digits base p n s = (r, k, s') \<Longrightarrow> r = dropWhile (base_char base) p \<and> k = n + length (takeWhile (base_char base) p)"
  by (induction base p n s arbitrary: r k s' rule: lex_digits.induct) (fastforce simp: Let_def split: if_splits)+

lemma lex_literal_rest: "lex_literal quote p s = (r, s') \<Longrightarrow> suffix r p"
  by (induction quote p s arbitrary: r s' rule: lex_literal.induct)
    (fastforce simp: suffix_Cons2 split: if_splits list.splits prod.splits)+

section \<open>The invariant\<close>

text \<open>Here \<open>n\<close> is the number of rows of the source.\<close>

definition lex_ok :: "nat \<Rightarrow> lexer \<Rightarrow> bool" where
  "lex_ok n s \<longleftrightarrow> length (lx_word s) < NAME_MAX \<and> length (lx_literal s) < LITERAL_MAX \<and>
     lx_tokens s \<le> TOKEN_MAX + (if lx_error s = None then 0 else 1) \<and>
     1 \<le> lx_token_line s \<and> lx_token_line s \<le> lx_line s \<and> lx_line s + newlines (lx_input s) \<le> n \<and>
     (case lx_error s of None \<Rightarrow> True | Some (e, row) \<Rightarrow> 1 \<le> row \<and> row \<le> lx_token_line s)"

lemma lex_fail_ok [intro]: "lex_ok n s \<Longrightarrow> lex_ok n (lex_fail e s)"
  by (auto simp: lex_ok_def lex_fail_def split: option.splits)

lemma lex_fail_fields [simp]:
  "lx_input (lex_fail e s) = lx_input s" "lx_token (lex_fail e s) = lx_token s" "lx_line (lex_fail e s) = lx_line s"
  "lx_token_line (lex_fail e s) = lx_token_line s" "lx_tokens (lex_fail e s) = lx_tokens s" "lx_value (lex_fail e s) = lx_value s"
  "lx_word (lex_fail e s) = lx_word s" "lx_literal (lex_fail e s) = lx_literal s" "lx_error (lex_fail e s) \<noteq> None"
  "\<exists>m row. lx_error (lex_fail e s) = Some (m, row)"
  by (auto simp: lex_fail_def)

lemma lex_ok_fields [simp]:
  "lex_ok n (s\<lparr>lx_token := t\<rparr>) = lex_ok n s" "lex_ok n (s\<lparr>lx_value := v\<rparr>) = lex_ok n s"
  by (simp_all add: lex_ok_def split: option.split)

lemma lex_ok_input: "lex_ok n s \<Longrightarrow> newlines p \<le> newlines (lx_input s) \<Longrightarrow> lex_ok n (s\<lparr>lx_input := p\<rparr>)"
  by (auto simp: lex_ok_def split: option.splits)

lemma lex_end_ok [simp]: "lex_ok n (lex_end s) = lex_ok n s"
  by (simp add: lex_end_def)

lemma lex_word_ok: "lex_ok n s \<Longrightarrow> lx_input s = p \<Longrightarrow> lex_ok n (lex_word p s)"
proof -
  assume s: "lex_ok n s" "lx_input s = p"
  have w: "lex_ok n (t\<lparr>lx_input := dropWhile word_char p, lx_word := take (NAME_MAX - 1) (takeWhile word_char p), lx_token := k\<rparr>)"
    if "lex_ok n t" "lx_input t = p" for t k
    using that suffix_newlines[OF suffix_dropWhile[of word_char p]]
    by (auto simp: lex_ok_def NAME_MAX_def split: option.splits)
  show ?thesis unfolding lex_word_def Let_def by (rule w) (use s lex_fail_ok in auto)
qed

lemma lex_digits_ok: "lex_ok n s \<Longrightarrow> lex_digits base p k s = (r, k', s') \<Longrightarrow> lex_ok n s' \<and> lx_input s' = lx_input s \<and> lx_token s' = lx_token s"
proof (induction base p k s arbitrary: r k' s' rule: lex_digits.induct)
  case (2 base c p k s)
  show ?case
  proof (cases "base_char base c")
    case True
    let ?bad = "digit_value c \<ge> base \<or> lx_value s > (0xFFFFFFFF - digit_value c) div base"
    show ?thesis
    proof (cases ?bad)
      case b: True
      with True "2.prems"(2) have e: "lex_digits base p (k + 1) (lex_fail Integer_Range s\<lparr>lx_value := lx_value s * base + digit_value c\<rparr>) = (r, k', s')"
        by (simp add: Let_def)
      from b "2.IH"[OF True refl refl, of r k' s'] e "2.prems"(1) lex_fail_ok show ?thesis by (simp split: if_splits)
    next
      case b: False
      with True "2.prems"(2) have e: "lex_digits base p (k + 1) (s\<lparr>lx_value := lx_value s * base + digit_value c\<rparr>) = (r, k', s')"
        by (auto simp: Let_def)
      from b "2.IH"[OF True refl refl, of r k' s'] e "2.prems"(1) show ?thesis by (auto split: if_splits)
    qed
  qed (use "2.prems" in simp)
qed simp

lemma number_base_suffix: "number_base p = (base, q) \<Longrightarrow> suffix q p"
  by (auto simp: number_base_def suffix_drop split: if_splits)

lemma lex_number_ok: "lex_ok n s \<Longrightarrow> lx_input s = p \<Longrightarrow> lex_ok n (lex_number p s)"
proof -
  assume s: "lex_ok n s" "lx_input s = p"
  obtain base q where b: "number_base p = (base, q)" by fastforce
  obtain r k t where d: "lex_digits base q 0 (s\<lparr>lx_value := 0\<rparr>) = (r, k, t)" by (cases "lex_digits base q 0 (s\<lparr>lx_value := 0\<rparr>)") auto
  from lex_digits_ok[OF _ d, of n] s have t: "lex_ok n t" "lx_input t = p" by auto
  have "suffix r p" using lex_digits_rest[OF d] number_base_suffix[OF b] suffix_order.trans[OF suffix_dropWhile] by auto
  then have "newlines r \<le> newlines p" "newlines (tl r) \<le> newlines p"
    using suffix_newlines suffix_order.trans[OF suffix_tl] by blast+
  with t lex_fail_ok[OF t(1)] show ?thesis by (auto simp: lex_number_def b d Let_def intro!: lex_ok_input)
qed

lemma lex_push_ok: "lex_ok n s \<Longrightarrow> lex_ok n (lex_push c s) \<and> lx_input (lex_push c s) = lx_input s"
  by (auto simp: lex_push_def lex_fail_ok) (auto simp: lex_ok_def split: option.splits)

lemma lex_escape_ok: "lex_escape c s = (v, s') \<Longrightarrow> lex_ok n s \<Longrightarrow> lex_ok n s' \<and> lx_input s' = lx_input s"
  by (auto simp: lex_escape_def split: if_splits)

lemma lex_literal_ok: "lex_ok n s \<Longrightarrow> lex_literal quote p s = (r, s') \<Longrightarrow> lex_ok n s' \<and> lx_input s' = lx_input s"
proof (induction quote p s arbitrary: r s' rule: lex_literal.induct)
  case (2 quote c p s)
  show ?case
  proof (cases "c = quote \<or> c = 10 \<or> (c = 0x5C \<and> p = [])")
    case True
    with "2.prems" show ?thesis by (auto split: if_splits list.splits)
  next
    case False
    then have h: "\<not> (c = quote \<or> c = 10)" by simp
    show ?thesis
    proof (cases "c = 0x5C")
      case True
      with False obtain d q where p: "p = d # q" by (cases p) auto
      obtain v t where e: "lex_escape d s = (v, t)" by fastforce
      from lex_push_ok[of n t v] lex_escape_ok[OF e "2.prems"(1)]
      have "lex_ok n (lex_push v t) \<and> lx_input (lex_push v t) = lx_input s" by simp
      with "2.IH"(1)[OF h True p e[symmetric], of r s'] "2.prems"(2) h True p e show ?thesis by auto
    next
      case b: False
      with "2.IH"(2)[OF h b, of r s'] "2.prems" h lex_push_ok[of n s c] show ?thesis by auto
    qed
  qed
qed simp

lemma lex_literal_clear: "lex_ok n s \<Longrightarrow> lex_ok n (s\<lparr>lx_literal := []\<rparr>)"
  by (auto simp: lex_ok_def LITERAL_MAX_def split: option.splits)

lemma lex_string_ok:
  assumes s: "lex_ok n s" and p: "suffix p (lx_input s)"
  shows "lex_ok n (lex_string quote p s)"
proof -
  obtain r t where l: "lex_literal quote p (s\<lparr>lx_literal := []\<rparr>) = (r, t)" by fastforce
  from lex_literal_ok[OF lex_literal_clear[OF s] l] have t: "lex_ok n t" "lx_input t = lx_input s" by auto
  from lex_literal_rest[OF l] p have "suffix r (lx_input t)" unfolding t(2) by (rule suffix_order.trans)
  then have "newlines r \<le> newlines (lx_input t)" "newlines (tl r) \<le> newlines (lx_input t)"
    using suffix_newlines suffix_order.trans[OF suffix_tl] by blast+
  then have "lex_ok n (t\<lparr>lx_input := r\<rparr>)" "lex_ok n (t\<lparr>lx_input := tl r\<rparr>)" using t(1) by (auto intro: lex_ok_input)
  then show ?thesis by (auto simp: lex_string_def l Let_def)
qed

lemma lex_sign_ok:
  assumes s: "lex_ok n s" and p: "suffix p (lx_input s)"
  shows "lex_ok n (lex_sign c p s)"
proof -
  have "newlines p \<le> newlines (lx_input s)" "newlines (tl p) \<le> newlines (lx_input s)"
    using p suffix_newlines suffix_order.trans[OF suffix_tl] by blast+
  then have i: "lex_ok n (s\<lparr>lx_input := p\<rparr>)" "lex_ok n (s\<lparr>lx_input := tl p\<rparr>)" using s by (auto intro: lex_ok_input)
  have e: "lex_ok n (t\<lparr>lx_token := k, lx_input := q\<rparr>) = lex_ok n (t\<lparr>lx_input := q\<rparr>)" for t k q
    by (simp add: lex_ok_def split: option.split)
  show ?thesis using i by (auto simp: lex_sign_def Let_def e split: option.split)
qed

lemma lex_next_ok:
  assumes s: "lex_ok n s"
  shows "lex_ok n (lex_next s)"
proof (cases "lx_error s \<noteq> None \<or> lx_tokens s \<ge> TOKEN_MAX")
  case True
  have "lex_ok n (lex_fail Too_Many_Tokens (s\<lparr>lx_tokens := lx_tokens s + 1\<rparr>))" if "lx_error s = None"
    using s that by (auto simp: lex_ok_def lex_fail_def split: option.splits)
  with True s show ?thesis by (cases "lx_error s = None") (auto simp: lex_next_def Let_def)
next
  case False
  let ?s = "s\<lparr>lx_tokens := lx_tokens s + 1\<rparr>"
  have k: "lex_ok n ?s" using s False by (auto simp: lex_ok_def split: option.splits)
  obtain r l where sk: "lex_skip (lx_input s) (lx_line s) = (r, l)" by fastforce
  note rows = lex_skip_rows[OF sk]
  show ?thesis
  proof (cases r)
    case None
    have "lex_ok n (?s\<lparr>lx_input := [], lx_line := l\<rparr>)"
      using k rows None by (auto simp: lex_ok_def lex_rows_def split: option.splits)
    with None False sk show ?thesis by (auto simp: lex_next_def Let_def)
  next
    case (Some p)
    let ?t = "?s\<lparr>lx_input := p, lx_line := l, lx_token_line := l\<rparr>"
    have t: "lex_ok n ?t" using k rows Some False by (auto simp: lex_ok_def lex_rows_def split: option.splits)
    have "lex_next s = (case p of [] \<Rightarrow> lex_end ?t | c # q \<Rightarrow> if c_letter c then lex_word p ?t else if c_digit c then lex_number p ?t
        else if c = 0x22 \<or> c = 0x27 then lex_string c q ?t else lex_sign c q ?t)"
      using False sk Some by (auto simp: lex_next_def Let_def split: list.split)
    then show ?thesis using lex_word_ok[OF t] lex_number_ok[OF t] lex_string_ok[OF t] lex_sign_ok[OF t] t
      by (auto simp: suffix_def split: list.split)
  qed
qed

section \<open>Progress\<close>

text \<open>At the end, or with less input left than before.\<close>

definition lex_moves :: "lexer \<Rightarrow> lexer \<Rightarrow> bool" where
  "lex_moves s s' \<longleftrightarrow> lx_token s' = T_End \<and> (lx_error s' \<noteq> None \<or> lx_input s' = []) \<or> lx_token s' \<noteq> T_End \<and> length (lx_input s') < length (lx_input s)"

lemma lex_keywords_not_end: "map_of lex_keywords w \<noteq> Some T_End"
  by (auto simp: lex_keywords_def dest!: map_of_SomeD)

lemma lex_pairs_not_end: "map_of lex_pairs w \<noteq> Some T_End"
  by (auto simp: lex_pairs_def dest!: map_of_SomeD)

lemma lex_word_moves: "c_letter c \<Longrightarrow> lx_token (lex_word (c # p) s) \<noteq> T_End \<and> length (lx_input (lex_word (c # p) s)) < length (c # p)"
  using lex_keywords_not_end[of "take (NAME_MAX - 1) (takeWhile word_char (c # p))"]
  by (auto simp: lex_word_def Let_def word_char_def less_Suc_eq_le length_dropWhile_le split: option.split)

lemma lex_number_moves: "c_digit c \<Longrightarrow> lx_token (lex_number (c # p) s) \<noteq> T_End \<and> length (lx_input (lex_number (c # p) s)) < length (c # p)"
proof -
  assume c: "c_digit c"
  obtain base q where b: "number_base (c # p) = (base, q)" by fastforce
  obtain r k t where d: "lex_digits base q 0 (s\<lparr>lx_value := 0\<rparr>) = (r, k, t)" by (cases "lex_digits base q 0 (s\<lparr>lx_value := 0\<rparr>)") auto
  have "q = c # p \<or> suffix q p" using b by (auto simp: number_base_def suffix_drop split: if_splits)
  then have "length (dropWhile (base_char base) q) < length (c # p)"
    using c length_dropWhile_le[of "base_char base" p] length_dropWhile_le[of "base_char base" q]
    by (auto simp: base_char_def less_Suc_eq_le dest!: suffix_length_le)
  with lex_digits_rest[OF d] show ?thesis by (auto simp: lex_number_def b d Let_def)
qed

lemma lex_string_moves: "lx_token (lex_string c p s) \<noteq> T_End \<and> length (lx_input (lex_string c p s)) \<le> length p"
proof -
  obtain r t where l: "lex_literal c p (s\<lparr>lx_literal := []\<rparr>) = (r, t)" by fastforce
  from suffix_length_le[OF lex_literal_rest[OF l]] show ?thesis by (auto simp: lex_string_def l Let_def)
qed

lemma lex_sign_moves: "lx_token (lex_sign c p s) \<noteq> T_End \<and> length (lx_input (lex_sign c p s)) \<le> length p"
  using lex_pairs_not_end[of "(c, peek p)"] by (auto simp: lex_sign_def Let_def split: option.split)

lemma lex_next_moves: "lex_moves s (lex_next s)"
proof -
  obtain r l where sk: "lex_skip (lx_input s) (lx_line s) = (r, l)" by fastforce
  have le: "length p \<le> length (lx_input s)" if "r = Some p" for p
    using lex_skip_rows[OF sk] that by (auto simp: lex_rows_def dest: suffix_length_le)
  show ?thesis
  proof (cases r)
    case None
    with sk show ?thesis by (auto simp: lex_next_def lex_moves_def lex_end_def Let_def lex_fail_def)
  next
    case (Some p)
    show ?thesis
    proof (cases p)
      case Nil
      with sk Some show ?thesis by (auto simp: lex_next_def lex_moves_def lex_end_def Let_def simp del: not_None_eq)
    next
      case (Cons c q)
      let ?t = "s\<lparr>lx_tokens := lx_tokens s + 1, lx_input := p, lx_line := l, lx_token_line := l\<rparr>"
      have "lex_next s = lex_end (lex_fail Too_Many_Tokens (s\<lparr>lx_tokens := lx_tokens s + 1\<rparr>)) \<or> lx_error s \<noteq> None \<and> lex_next s = lex_end s \<or>
        lex_next s = (if c_letter c then lex_word p ?t else if c_digit c then lex_number p ?t
          else if c = 0x22 \<or> c = 0x27 then lex_string c q ?t else lex_sign c q ?t)"
        using sk Some Cons by (auto simp: lex_next_def Let_def)
      then show ?thesis
        using lex_word_moves[of c q ?t] lex_number_moves[of c q ?t] lex_string_moves[of c q ?t] lex_sign_moves[of c q ?t] le[OF Some] Cons
        by (auto simp: lex_moves_def lex_end_def split: if_splits)
    qed
  qed
qed

lemma lex_end_stays: "lx_token s = T_End \<Longrightarrow> lx_error s \<noteq> None \<or> lx_input s = [] \<Longrightarrow>
  lx_token (lex_next s) = T_End \<and> (lx_error (lex_next s) \<noteq> None \<or> lx_input (lex_next s) = [])"
  by (auto simp: lex_next_def Let_def lex_end_def simp del: not_None_eq)

text \<open>The \<open>k\<close>-th token after the first.\<close>

definition lex_nth :: "nat \<Rightarrow> u8 list \<Rightarrow> lexer \<Rightarrow> lexer" where
  "lex_nth k source s = (lex_next ^^ k) (lex_reset source s)"

lemma lex_nth_Suc: "lex_nth (Suc k) source s = lex_next (lex_nth k source s)"
  by (simp add: lex_nth_def)

definition lex_done :: "lexer \<Rightarrow> bool" where
  "lex_done s \<longleftrightarrow> lx_token s = T_End \<and> (lx_error s \<noteq> None \<or> lx_input s = [])"

lemma lex_nth_moves: "lex_done (lex_nth k source s) \<or> length (lx_input (lex_nth k source s)) + k < length source"
proof (induction k)
  case 0
  show ?case using lex_next_moves[of "s\<lparr>lx_input := source, lx_line := 1, lx_token_line := 1, lx_tokens := 0\<rparr>"]
    by (auto simp: lex_nth_def lex_reset_def lex_moves_def lex_done_def)
next
  case (Suc k)
  show ?case
    using Suc lex_next_moves[of "lex_nth k source s"] lex_end_stays[of "lex_nth k source s"]
    unfolding lex_nth_Suc lex_moves_def lex_done_def by linarith
qed

lemma lex_done_stays: "lex_done (lex_nth k source s) \<Longrightarrow> lex_done (lex_nth (k + j) source s)"
  by (induction j) (use lex_end_stays in \<open>auto simp: lex_nth_Suc lex_done_def\<close>)

section \<open>Values\<close>

definition value_from :: "u32 \<Rightarrow> nat \<Rightarrow> u8 list \<Rightarrow> nat" where
  "value_from base v ds = foldl (\<lambda>v c. v * unat base + unat (digit_value c)) v ds"

lemma value_from_simps [simp]: "value_from base v [] = v"
  "value_from base v (c # ds) = value_from base (v * unat base + unat (digit_value c)) ds"
  by (simp_all add: value_from_def)

lemma value_from_grows: "0 < unat base \<Longrightarrow> v \<le> value_from base v ds"
proof (induction ds arbitrary: v)
  case (Cons c ds)
  then have "v \<le> v * unat base + unat (digit_value c)" by (simp add: trans_le_add1)
  with Cons.IH[OF Cons.prems, of "v * unat base + unat (digit_value c)"] show ?case by simp
qed simp

lemma lex_digits_failed: "lex_digits base p k s = (r, k', s') \<Longrightarrow> lx_error s \<noteq> None \<Longrightarrow> lx_error s' \<noteq> None"
proof (induction base p k s arbitrary: r k' s' rule: lex_digits.induct)
  case (2 base c p k s)
  then show ?case by (cases "base_char base c") (auto simp: Let_def split: if_splits)
qed simp

text \<open>The range check of the code is exact.\<close>

lemma range_check:
  fixes v d base :: u32
  assumes "0 < base" "d < base"
  shows "v > (0xFFFFFFFF - d) div base \<longleftrightarrow> 2 ^ 32 \<le> unat v * unat base + unat d"
proof -
  have b: "0 < unat base" using assms(1) by (simp add: word_less_nat_alt)
  have "d \<le> 0xFFFFFFFF" using unat_lt_u32[of d] by (simp add: word_le_nat_alt)
  then have d: "unat ((0xFFFFFFFF - d) div base) = (4294967295 - unat d) div unat base"
    by (simp add: unat_div unat_sub_u32)
  have "v > (0xFFFFFFFF - d) div base \<longleftrightarrow> (4294967295 - unat d) div unat base < unat v"
    by (simp add: word_less_nat_alt d)
  also have "\<dots> \<longleftrightarrow> 4294967295 - unat d < unat v * unat base"
    using b by (simp add: div_less_iff_less_mult)
  finally show ?thesis using unat_lt_u32[of d] by auto
qed

lemma range_step:
  fixes v d base :: u32
  assumes "unat v * unat base + unat d < 2 ^ 32"
  shows "unat (v * base + d) = unat v * unat base + unat d"
proof -
  have "unat (v * base) = unat v * unat base" using assms by (simp add: unat_mult_lem[THEN iffD1])
  then show ?thesis using assms by (simp add: unat_add_u32)
qed

lemma lex_digits_exact:
  "lex_digits base p k s = (r, k', s') \<Longrightarrow> lx_error s = None \<Longrightarrow> ds = takeWhile (base_char base) p \<Longrightarrow>
    (lx_error s' = None \<longleftrightarrow> list_all (\<lambda>c. digit_value c < base) ds \<and> value_from base (unat (lx_value s)) ds < 2 ^ 32) \<and>
    (lx_error s' = None \<longrightarrow> unat (lx_value s') = value_from base (unat (lx_value s)) ds)"
proof (induction base p k s arbitrary: r k' s' ds rule: lex_digits.induct)
  case (1 base k s)
  then show ?case using unat_lt_u32 by auto
next
  case (2 base c p k s)
  show ?case
  proof (cases "base_char base c")
    case True
    let ?d = "digit_value c" and ?v = "lx_value s"
    let ?bad = "?d \<ge> base \<or> ?v > (0xFFFFFFFF - ?d) div base"
    have ds: "ds = c # takeWhile (base_char base) p" using "2.prems"(3) True by simp
    show ?thesis
    proof (cases ?bad)
      case b: True
      with True "2.prems"(1) have "lex_digits base p (k + 1) (lex_fail Integer_Range s\<lparr>lx_value := ?v * base + ?d\<rparr>) = (r, k', s')"
        by (simp add: Let_def)
      from lex_digits_failed[OF this] have e: "lx_error s' \<noteq> None" by simp
      have "2 ^ 32 \<le> value_from base (unat ?v) ds" if "?d < base"
      proof -
        have "0 < base" using that by (simp add: word_less_nat_alt)
        moreover from that have "\<not> ?d \<ge> base" by (simp add: not_le)
        with b have "?v > (0xFFFFFFFF - ?d) div base" by blast
        ultimately have "2 ^ 32 \<le> unat ?v * unat base + unat ?d" "0 < unat base"
          using range_check[OF _ that] by (simp_all add: word_less_nat_alt)
        then show ?thesis using value_from_grows[of base "unat ?v * unat base + unat ?d" "takeWhile (base_char base) p"]
          unfolding ds by simp
      qed
      with e show ?thesis unfolding ds by auto
    next
      case b: False
      with True "2.prems"(1) have "lex_digits base p (k + 1) (s\<lparr>lx_value := ?v * base + ?d\<rparr>) = (r, k', s')"
        by (auto simp: Let_def)
      with b "2.IH"[OF True refl refl, of r k' s' "takeWhile (base_char base) p"] "2.prems"(2)
      have i: "(lx_error s' = None \<longleftrightarrow> list_all (\<lambda>c. digit_value c < base) (takeWhile (base_char base) p) \<and>
          value_from base (unat (?v * base + ?d)) (takeWhile (base_char base) p) < 2 ^ 32) \<and>
        (lx_error s' = None \<longrightarrow> unat (lx_value s') = value_from base (unat (?v * base + ?d)) (takeWhile (base_char base) p))"
        by (auto split: if_splits)
      from b have "?d < base" by (auto simp: not_le)
      moreover from this have "0 < base" by (simp add: word_less_nat_alt)
      ultimately have "0 < base" "?d < base" by auto
      with b range_check[of base ?d ?v] have "unat (?v * base + ?d) = unat ?v * unat base + unat ?d" by (intro range_step) auto
      with i b show ?thesis unfolding ds by auto
    qed
  next
    case False
    with "2.prems" show ?thesis using unat_lt_u32[of "lx_value s"] by auto
  qed
qed

section \<open>Properties\<close>

definition lex_start :: lexer where
  "lex_start = \<lparr>lx_input = [], lx_token = T_End, lx_line = 1, lx_token_line = 1, lx_tokens = 0, lx_error = None, lx_value = 0,
     lx_word = [], lx_literal = []\<rparr>"

lemma lex_nth_ok: "lex_ok (1 + newlines source) (lex_nth k source lex_start)"
proof (induction k)
  case 0
  show ?case unfolding lex_nth_def lex_reset_def funpow_0
    by (rule lex_next_ok) (simp add: lex_ok_def lex_start_def NAME_MAX_def LITERAL_MAX_def)
next
  case (Suc k)
  then show ?case unfolding lex_nth_Suc by (rule lex_next_ok)
qed

text \<open>The lexer behind the preprocessor: for every source and after any number of tokens, the word and literal buffers
  and the token count are within their limits, and the row of the token and of an error is a row of the source.\<close>

theorem compile_rows:
  "let s = (lex_next ^^ k) (lex_reset (pp_output (preprocess source)) lex_start) in
   length (lx_word s) \<le> 47 \<and> length (lx_literal s) \<le> 511 \<and> lx_tokens s \<le> 24001 \<and> lx_token_line s \<le> 1 + count_list source 10 \<and>
   (case lx_error s of None \<Rightarrow> True | Some (e, row) \<Rightarrow> 1 \<le> row \<and> row \<le> 1 + count_list source 10)"
proof -
  let ?out = "pp_output (preprocess source)"
  have "newlines ?out \<le> newlines source" using preprocess_read[of source] by (simp add: pp_read_def pp_start_def)
  with lex_nth_ok[of ?out k] show ?thesis unfolding Let_def lex_nth_def lex_ok_def newlines_def[symmetric]
    by (auto simp: NAME_MAX_def LITERAL_MAX_def TOKEN_MAX_def split: option.splits if_splits)
qed

text \<open>C39. Every source ends: after at most as many tokens as it has bytes the lexer gives the end of the input, and
  gives it from then on, whatever state it was started in.\<close>

theorem lexer_ends: "\<exists>k. k \<le> length source \<and> (\<forall>j. lx_token ((lex_next ^^ (k + j)) (lex_reset source s)) = T_End)"
proof -
  have "lex_done (lex_nth (length source) source s)" using lex_nth_moves[of "length source" source s] by simp
  from lex_done_stays[OF this] show ?thesis unfolding lex_done_def lex_nth_def by blast
qed

text \<open>C40. An integer literal has exactly the value it denotes. At a digit, the lexer reads the longest run of digits of the
  base its prefix selects; it accepts the literal exactly when the run is not empty, every digit is below the base
  and the number fits in 32 bits, and then the value is that number.\<close>

theorem lex_number_exact:
  assumes "lx_error s = None" "lx_tokens s < 24000" "c_digit c" "lx_input s = c # p"
    and "number_base (c # p) = (base, q)" "ds = takeWhile (base_char base) q"
  shows "lx_token (lex_next s) = T_NUM \<and>
    (lx_error (lex_next s) = None \<longleftrightarrow> ds \<noteq> [] \<and> list_all (\<lambda>d. digit_value d < base) ds \<and>
       foldl (\<lambda>v d. v * unat base + unat (digit_value d)) 0 ds < 2 ^ 32) \<and>
    (lx_error (lex_next s) = None \<longrightarrow> unat (lx_value (lex_next s)) = foldl (\<lambda>v d. v * unat base + unat (digit_value d)) 0 ds)"
proof -
  let ?t = "s\<lparr>lx_tokens := lx_tokens s + 1, lx_input := c # p, lx_token_line := lx_line s\<rparr>"
  have c: "\<not> c_letter c" "\<not> blank c" "c \<noteq> 0x2F"
    using assms(3) by (auto simp: c_digit_def c_letter_def blank_def word_le_nat_alt)
  have n: "lex_next s = lex_number (c # p) ?t"
    using assms(1-4) c by (simp add: lex_next_def Let_def TOKEN_MAX_def)
  obtain r k t where d: "lex_digits base q 0 (?t\<lparr>lx_value := 0\<rparr>) = (r, k, t)"
    by (cases "lex_digits base q 0 (?t\<lparr>lx_value := 0\<rparr>)") auto
  from lex_digits_exact[OF d _ assms(6)] assms(1)
  have e: "(lx_error t = None \<longleftrightarrow> list_all (\<lambda>c. digit_value c < base) ds \<and> value_from base 0 ds < 2 ^ 32) \<and>
      (lx_error t = None \<longrightarrow> unat (lx_value t) = value_from base 0 ds)" by simp
  have k: "k = length ds" using lex_digits_rest[OF d] assms(6) by simp
  have f: "lex_number (c # p) ?t = (if k = 0 then lex_fail Expected_Digits t else t)
      \<lparr>lx_input := (if peek r = 0x75 \<or> peek r = 0x55 then tl r else r), lx_token := T_NUM\<rparr>"
    unfolding lex_number_def assms(5) prod.case d Let_def ..
  show ?thesis using e k unfolding n f value_from_def by (auto simp: d)
qed

theorem lex_number_exact_witness:
  "lx_value (lex_next (lex_start\<lparr>lx_input := [0x30, 0x78, 0x31, 0x46, 0x3B]\<rparr>)) = 31 \<and>
   lx_error (lex_next (lex_start\<lparr>lx_input := [0x30, 0x38]\<rparr>)) \<noteq> None"
proof -
  have a: "number_base [0x30, 0x78, 0x31, 0x46, 0x3B] = (16, [0x31, 0x46, 0x3B])" "number_base [0x30, 0x38] = (8, [0x30, 0x38])"
    by (simp_all add: number_base_def peek_def c_digit_def)
  have b: "takeWhile (base_char 16) [0x31, 0x46, 0x3B] = [0x31, 0x46]" "takeWhile (base_char 8) [0x30, 0x38] = [0x30, 0x38]"
    by (simp_all add: base_char_def hex_letter_def c_digit_def)
  have v: "digit_value 0x31 = 1" "digit_value 0x46 = 15" "digit_value 0x38 = 8" "digit_value 0x30 = 0"
    by (simp_all add: digit_value_def c_digit_def)
  from lex_number_exact[OF _ _ _ _ a(1) b(1)[symmetric], of "lex_start\<lparr>lx_input := [0x30, 0x78, 0x31, 0x46, 0x3B]\<rparr>"]
  have "unat (lx_value (lex_next (lex_start\<lparr>lx_input := [0x30, 0x78, 0x31, 0x46, 0x3B]\<rparr>))) = 31"
    by (simp add: lex_start_def c_digit_def v)
  then have "lx_value (lex_next (lex_start\<lparr>lx_input := [0x30, 0x78, 0x31, 0x46, 0x3B]\<rparr>)) = 31"
    by (simp add: word_unat_eq_iff)
  moreover from lex_number_exact[OF _ _ _ _ a(2) b(2)[symmetric], of "lex_start\<lparr>lx_input := [0x30, 0x38]\<rparr>"]
  have "lx_error (lex_next (lex_start\<lparr>lx_input := [0x30, 0x38]\<rparr>)) \<noteq> None"
    by (simp add: lex_start_def c_digit_def v)
  ultimately show ?thesis by simp
qed

end
