(* ===== verification/Spec2Isabelle.thy ===== *)
theory Spec2Isabelle
  imports Crash_Disk Vfs_Native Clock Text_Input Heap_Inv Textedit_Props Pmm Settings Volume_Scan Sched_Props Image_Props
    Service_Props Input_Props Mcc_Lex_Props
begin

text \<open>
  The KvantOS kernel: a verification library for the parts of the kernel that keep state and can lose it.

  The kernel is C for i386 and x86-64 (\<^verbatim>\<open>src/kernel\<close>, declarations in \<^verbatim>\<open>src/include\<close>). Every definition below is a
  translation of the function, structure or table of the same name; integers keep their width
  (\<^verbatim>\<open>u8\<close>, \<^verbatim>\<open>u16\<close>, \<^verbatim>\<open>u32\<close>, \<^verbatim>\<open>u64\<close> are words, an \<^verbatim>\<open>int\<close> that stays far from its bounds is an \<open>int\<close>), an error code is a
  result value, and state is passed and returned. \<^verbatim>\<open>KV_Base\<close> is the prelude: the word types, the
  little-endian fields of byte lists, strings with their NUL, and the bridges from words to naturals.

  Storage. \<^verbatim>\<open>Sector_Tx\<close> is the undo journal of \<^verbatim>\<open>sector_tx.c\<close> over a device given by its read, write and sync calls;
  \<^verbatim>\<open>Sector_Tx_Crash\<close> states what a disk may contain after a power loss at any point, and \<^verbatim>\<open>Crash_Disk\<close> is a disk with a volatile
  cache that can lose or keep each unsynced sector. A transaction is atomic there: recovery finds
  either all old or all new sectors. \<^verbatim>\<open>Ata\<close> is \<^verbatim>\<open>ata.c\<close> down to the command registers, \<^verbatim>\<open>Sector_Store\<close> the contract of a
  sector device, \<^verbatim>\<open>Blk\<close> the disk table of \<^verbatim>\<open>blk.c\<close>. \<^verbatim>\<open>Kvfs\<close> is \<^verbatim>\<open>kvfs.c\<close>; \<^verbatim>\<open>Kvfs_Alloc\<close> (first fit, extents that never
  clash), \<^verbatim>\<open>Kvfs_Disk\<close> (directory encoding), \<^verbatim>\<open>Kvfs_Files\<close>, \<^verbatim>\<open>Kvfs_Ops\<close> and \<^verbatim>\<open>Kvfs_More\<close> build up to \<^verbatim>\<open>Kvfs_Props\<close>: a write, delete or
  rename is atomic against the loss of power between any two sectors, and the mounted state refines a
  map from names to contents. \<^verbatim>\<open>Native_Name\<close> is the name check, \<^verbatim>\<open>Ramfs\<close> is \<^verbatim>\<open>ramfs.c\<close>, \<^verbatim>\<open>Vfs\<close> the path router of \<^verbatim>\<open>vfs.c\<close>, and
  \<^verbatim>\<open>Vfs_Native\<close> (\<^verbatim>\<open>vfs_native.c\<close>) composes them: what was acknowledged through a path is what is
  read back, whatever other writes failed. \<^verbatim>\<open>Partition\<close>, \<^verbatim>\<open>Gpt_Table\<close>
  and \<^verbatim>\<open>Volume_Scan\<close> are \<^verbatim>\<open>partition.c\<close>: only volumes inside the disk and clear of the partition tables are mounted;
  the probe and mount functions are parameters, and \<open>scan_law\<close> is what the scan relies on in them.

  Memory and tasks. \<^verbatim>\<open>Pmm\<close> is the frame bitmap of \<^verbatim>\<open>pmm.c\<close>. \<^verbatim>\<open>Heap\<close> and \<^verbatim>\<open>Heap_Inv\<close> are \<^verbatim>\<open>heap.c\<close> over a memory of blocks: blocks
  handed out are disjoint and nothing leaks. \<^verbatim>\<open>Sched\<close>, \<^verbatim>\<open>Sched_Inv\<close> and \<^verbatim>\<open>Sched_Props\<close> are \<^verbatim>\<open>sched.c\<close>: the ring of tasks stays well
  formed and no runnable task starves.

  Sandboxed programs. \<^verbatim>\<open>User_Space\<close> is \<^verbatim>\<open>user_space.c\<close>, both page-table formats over the bytes of physical pages.
  \<^verbatim>\<open>User_Tables\<close>, \<^verbatim>\<open>User_Walk\<close> (the walk of the processor), \<^verbatim>\<open>User_Build\<close>, \<^verbatim>\<open>User_Keep\<close>, \<^verbatim>\<open>User_Copy\<close>, \<^verbatim>\<open>User_Bytes\<close> and \<^verbatim>\<open>User_Pool\<close> (frames, as
  a contract on the allocator) lead to \<^verbatim>\<open>User_Props\<close>: user code reaches its own pages and nothing else, the
  range check of the kernel is exact, and all frames come back. \<^verbatim>\<open>User_Image\<close>, \<^verbatim>\<open>Image_Map\<close>, \<^verbatim>\<open>Image_Load\<close> and \<^verbatim>\<open>Image_Props\<close> are
  \<^verbatim>\<open>user_image.c\<close>: accepted images fit, and loading is all or nothing. \<^verbatim>\<open>User_Service\<close> is \<^verbatim>\<open>user_service.c\<close>; \<^verbatim>\<open>Glyphs\<close>
  (UTF-8 validation), \<^verbatim>\<open>Line_Clip\<close>, \<^verbatim>\<open>Service_Inv\<close>, \<^verbatim>\<open>Service_Files\<close>, \<^verbatim>\<open>Service_Ops\<close>, \<^verbatim>\<open>Service_Reach\<close> and \<^verbatim>\<open>Service_Store\<close> lead to
  \<^verbatim>\<open>Service_Props\<close>: the tables of files and handles stay consistent, drawing stays in the window as it is at the time (its owner
  resizes it between events), closed handles stay closed, and file calls implement byte strings.

  Input, text and time. \<^verbatim>\<open>Text_Input\<close> is \<^verbatim>\<open>keymap.c\<close> and \<^verbatim>\<open>charset.c\<close>; \<^verbatim>\<open>Input_Devices\<close>, \<^verbatim>\<open>Input_Queue\<close> (the event ring as a bounded
  queue) and \<^verbatim>\<open>Input_Props\<close> are \<^verbatim>\<open>mouse.c\<close> and \<^verbatim>\<open>keyboard.c\<close> over the ports of the controller. \<^verbatim>\<open>Textedit\<close> to \<^verbatim>\<open>Textedit_Props\<close> are
  the editor model \<^verbatim>\<open>textedit.c\<close> with its undo history. \<^verbatim>\<open>Kstring\<close> is \<^verbatim>\<open>string.c\<close>, \<^verbatim>\<open>Printf\<close> is \<^verbatim>\<open>printf.c\<close>, \<^verbatim>\<open>Settings\<close> is \<^verbatim>\<open>settings.c\<close>
  and the language choice of \<^verbatim>\<open>i18n.c\<close>, \<^verbatim>\<open>Clock\<close> is \<^verbatim>\<open>rtc.c\<close>, \<^verbatim>\<open>timer.c\<close> and \<^verbatim>\<open>random.c\<close>.

  Workshop. \<^verbatim>\<open>Mcc_Pp\<close> is the preprocessor of the compiler inside the system, \<^verbatim>\<open>mcc_pp.h\<close> with \<^verbatim>\<open>mcc_headers.h\<close>; \<^verbatim>\<open>Mcc_Props\<close> shows
  that its arrays never overflow and that its output keeps the rows of the source. \<^verbatim>\<open>Mcc_Lex\<close> is the lexer of \<^verbatim>\<open>mcc.c\<close>, and
  \<^verbatim>\<open>Mcc_Lex_Props\<close> shows that it ends, that integer literals are exact, and that its rows are those of the source.

  Interfaces. Where one part relies on another the reliance is a locale and the provider interprets it:
  crash-safe devices (\<^verbatim>\<open>Sector_Tx_Crash\<close>), sector stores (\<^verbatim>\<open>Sector_Store\<close>), native file systems (\<^verbatim>\<open>Vfs_Native\<close>), task memory (\<^verbatim>\<open>Sched_Inv\<close>), frame
  pools (\<^verbatim>\<open>User_Pool\<close>), bounded queues (\<^verbatim>\<open>Input_Queue\<close>).

  Bounds. Loops that the code bounds keep its bound as a count: 64 tasks looked at by the reaper and 256 by
  the scheduler, 100000 tries of a controller wait, 8 polled bytes and 8 clipping rounds, for which \<^verbatim>\<open>Line_Clip\<close>
  proves that they suffice. Loops over a list or a counter that falls are recursions with a
  termination proof. Three loops without a counter of their own have one in the model: the scan over the disks
  (20 rounds; disk numbers stop at 20), the read of a character (256 rounds; the ring holds at most 255
  events, and \<^verbatim>\<open>Input_Queue\<close> proves the result) and the sleep, whose number of ticks is an argument.

  Not modelled: drawing and the desktop, the shell, the parser and code generator of the compiler, the
  FAT and NTFS volumes above the block layer, USB, AHCI and PCI, descriptor tables and boot code, and the system-call table of native programs. They are either
  output, hardware protocols whose other side is not in the repository, or large components that would
  need a library of their own. Assembly is not modelled; a context switch is the choice of the
  task. Interrupts are steps between the operations, since handlers run with interrupts disabled and
  the code brackets its critical sections.
\<close>

end
